(* ===== verification/RT_Prelude.thy ===== *)
theory RT_Prelude
  imports Main "HOL-Library.Word" "HOL-Library.Monad_Syntax" "HOL-Library.Numeral_Type"
begin

text \<open>
  The vocabulary every component shares: C integer types as words of the width they have on the
  64-bit target (\<open>ARCH_CPU_64BIT\<close> is defined in \<open>src/rtconfig.h\<close>), byte copies with explicit bounds
  (a copy outside an object is \<open>None\<close>, the model's undefined behaviour, as is a failed \<open>RT_ASSERT\<close>,
  which stops the system), and the lemmas on lists, words and loops the component proofs use.
\<close>

type_synonym u8 = "8 word"
type_synonym u16 = "16 word"
type_synonym u32 = "32 word"
type_synonym u64 = "64 word"
type_synonym rt_tick_t = "32 word"
type_synonym rt_size_t = "64 word"

section \<open>Byte copies with explicit bounds\<close>

definition memcpy :: "'a list \<Rightarrow> nat \<Rightarrow> 'a list \<Rightarrow> nat \<Rightarrow> nat \<Rightarrow> 'a list option" where
  "memcpy dst d src s n =
     (if d + n \<le> length dst \<and> s + n \<le> length src
      then Some (take d dst @ take n (drop s src) @ drop (d + n) dst) else None)"

text \<open>The conversion of an \<open>int\<close> value to \<open>size_t\<close>: negative values wrap to huge ones.\<close>

definition size_of_int :: "int \<Rightarrow> nat" where
  "size_of_int i = nat (i mod 2 ^ 64)"

lemma size_of_int_nonneg [simp]: "0 \<le> i \<Longrightarrow> i < 2 ^ 64 \<Longrightarrow> size_of_int i = nat i"
  by (simp add: size_of_int_def)

lemma size_of_int_of_nat [simp]: "k < 2 ^ 64 \<Longrightarrow> size_of_int (int k) = k"
  by simp

lemma size_of_int_diff [simp]: "b \<le> a \<Longrightarrow> a < 2 ^ 64 \<Longrightarrow> size_of_int (int a - int b) = a - b"
  by (simp add: nat_minus_as_int)

definition write_at :: "'a list \<Rightarrow> nat \<Rightarrow> 'a \<Rightarrow> 'a list option" where
  "write_at xs i x = (if i < length xs then Some (xs[i := x]) else None)"

definition read_at :: "'a list \<Rightarrow> nat \<Rightarrow> 'a option" where
  "read_at xs i = (if i < length xs then Some (xs ! i) else None)"

lemma length_memcpy: "memcpy dst d src s n = Some r \<Longrightarrow> length r = length dst"
  by (auto simp: memcpy_def split: if_splits)

lemma nth_memcpy:
  "memcpy dst d src s n = Some r \<Longrightarrow> i < length dst \<Longrightarrow>
   r ! i = (if d \<le> i \<and> i < d + n then src ! (s + (i - d)) else dst ! i)"
  by (auto simp: memcpy_def nth_append split: if_splits)

lemma memcpy_append:
  "length A = d \<Longrightarrow> j \<le> length B \<Longrightarrow> j \<le> length src \<Longrightarrow>
   memcpy (A @ B) d src 0 j = Some (A @ take j src @ drop j B)"
  by (simp add: memcpy_def)

lemma memcpy_total: "d + n \<le> length dst \<Longrightarrow> s + n \<le> length src \<Longrightarrow> \<exists>r. memcpy dst d src s n = Some r"
  by (simp add: memcpy_def)

lemma write_at_Some [simp]: "i < length xs \<Longrightarrow> write_at xs i x = Some (xs[i := x])"
  by (simp add: write_at_def)

lemma read_at_Some [simp]: "i < length xs \<Longrightarrow> read_at xs i = Some (xs ! i)"
  by (simp add: read_at_def)

section \<open>Words\<close>

lemma unat_word_of_int_small: "0 \<le> i \<Longrightarrow> i < 2 ^ LENGTH('a::len) \<Longrightarrow> unat (word_of_int i :: 'a word) = nat i"
  by (simp add: unat_eq_nat_uint word_of_int_inverse)

lemma of_nat_nat_word [simp]: "0 \<le> i \<Longrightarrow> (of_nat (nat i) :: 'a::len word) = word_of_int i"
  by simp

lemma unat_of_nat_small [simp]: "k < 2 ^ LENGTH('a::len) \<Longrightarrow> unat (of_nat k :: 'a word) = k"
  by (simp add: unsigned_of_nat take_bit_nat_eq_self)

lemma uint_of_nat_small: "k < 2 ^ LENGTH('a::len) \<Longrightarrow> uint (of_nat k :: 'a word) = int k"
  by (simp add: unsigned_of_nat take_bit_nat_eq_self)

lemma unat_ucast_up:
  fixes x :: "'a::len word"
  assumes "LENGTH('a) \<le> LENGTH('b::len)"
  shows "unat (ucast x :: 'b word) = unat x"
proof -
  have "unat x < 2 ^ LENGTH('a)" by (rule unsigned_less)
  also have "\<dots> \<le> 2 ^ LENGTH('b)" using assms by (rule power_increasing) simp
  finally show ?thesis by (simp add: unsigned_ucast_eq take_bit_nat_eq_self)
qed

lemma uint_eq_int_unat: "uint x = int (unat x)"
  by simp

lemma ucast_of_nat_small [simp]:
  "k < 2 ^ LENGTH('a::len) \<Longrightarrow> (ucast (of_nat k :: 'a word) :: 'b::len word) = of_nat k"
  by (simp add: unsigned_of_nat take_bit_nat_eq_self)

lemma ucast_eq_of_nat_unat: "ucast x = of_nat (unat x)"
  by simp

lemma unat_word_of_int [simp]: "0 \<le> i \<Longrightarrow> i < 2 ^ LENGTH('a::len) \<Longrightarrow> unat (word_of_int i :: 'a word) = nat i"
  by (rule unat_word_of_int_small)

lemma int_and_not_mask: "and (x::int) (not (mask n)) = x - x mod 2 ^ n"
proof -
  have "and x (not (mask n)) = push_bit n (drop_bit n x)"
    by (rule bit_eqI) (auto simp: bit_simps)
  also have "\<dots> = x - x mod 2 ^ n"
    by (simp add: push_bit_eq_mult drop_bit_eq_div minus_mod_eq_mult_div mult.commute)
  finally show ?thesis .
qed

lemma mod_add_once: "(a::nat) < n \<Longrightarrow> b \<le> n \<Longrightarrow> (a + b) mod n = (if a + b < n then a + b else a + b - n)"
  by (auto simp: mod_if)

end
