(* ===== verification/RT_Fifo.thy ===== *)
theory RT_Fifo
  imports RT_Prelude
begin

text \<open>
  The contract of a bounded first-in first-out store, as the drivers and the mailboxes use it, and
  what follows from it for any sequence of operations: whatever interleaving of writes and reads a
  client performs, what comes out is what went in, in order. The ring buffer and the mailbox
  interpret it on their own operations.
\<close>

datatype 'e fifo_op = Put 'e | Get

locale bounded_fifo =
  fixes inv :: "'q \<Rightarrow> bool"
    and cap :: "'q \<Rightarrow> nat"
    and elems :: "'q \<Rightarrow> 'e list"
    and put :: "'q \<Rightarrow> 'e \<Rightarrow> 'q option"
    and get :: "'q \<Rightarrow> ('e \<times> 'q) option"
  assumes bounded: "inv q \<Longrightarrow> length (elems q) \<le> cap q"
    and put_full: "inv q \<Longrightarrow> length (elems q) = cap q \<Longrightarrow> put q x = None"
    and put_room: "inv q \<Longrightarrow> length (elems q) < cap q \<Longrightarrow>
          \<exists>q'. put q x = Some q' \<and> inv q' \<and> cap q' = cap q \<and> elems q' = elems q @ [x]"
    and get_empty: "inv q \<Longrightarrow> elems q = [] \<Longrightarrow> get q = None"
    and get_some: "inv q \<Longrightarrow> elems q = y # ys \<Longrightarrow>
          \<exists>q'. get q = Some (y, q') \<and> inv q' \<and> cap q' = cap q \<and> elems q' = ys"
begin

text \<open>A run: a refused operation leaves the store as it is; accepted inputs and outputs are logged.\<close>

fun run :: "'e fifo_op list \<Rightarrow> 'q \<Rightarrow> 'e list \<times> 'e list \<times> 'q" where
  "run [] q = ([], [], q)"
| "run (Put x # ops) q =
     (case put q x of None \<Rightarrow> run ops q
      | Some q' \<Rightarrow> (case run ops q' of (ins, outs, r) \<Rightarrow> (x # ins, outs, r)))"
| "run (Get # ops) q =
     (case get q of None \<Rightarrow> run ops q
      | Some (y, q') \<Rightarrow> (case run ops q' of (ins, outs, r) \<Rightarrow> (ins, y # outs, r)))"

lemma put_cases:
  assumes "inv q"
  obtains (full) "put q x = None" "length (elems q) = cap q"
    | (room) q' where "put q x = Some q'" "inv q'" "cap q' = cap q" "elems q' = elems q @ [x]"
proof (cases "length (elems q) = cap q")
  case True
  then show ?thesis by (intro full put_full[OF assms])
next
  case False
  then have "length (elems q) < cap q" using bounded[OF assms] by simp
  then obtain q' where "put q x = Some q'" "inv q'" "cap q' = cap q" "elems q' = elems q @ [x]"
    using put_room[OF assms] by blast
  then show ?thesis by (rule room)
qed

lemma get_cases:
  assumes "inv q"
  obtains (empty) "get q = None" "elems q = []"
    | (some) y q' where "get q = Some (y, q')" "inv q'" "cap q' = cap q" "elems q = y # elems q'"
proof (cases "elems q")
  case Nil
  then show ?thesis by (intro empty get_empty[OF assms])
next
  case (Cons y ys)
  obtain q' where "get q = Some (y, q')" "inv q'" "cap q' = cap q" "elems q' = ys"
    using get_some[OF assms Cons] by blast
  then show ?thesis using Cons by (intro some[of y q']) auto
qed

lemma run_fifo:
  "inv q \<Longrightarrow> run ops q = (ins, outs, q') \<Longrightarrow>
   inv q' \<and> cap q' = cap q \<and> elems q @ ins = outs @ elems q'"
proof (induction ops arbitrary: q ins outs q')
  case Nil
  then show ?case by simp
next
  case (Cons op ops)
  show ?case
  proof (cases op)
    case (Put x)
    from Cons.prems(1) show ?thesis
    proof (cases rule: put_cases[where x = x])
      case full
      then show ?thesis using Cons Put by simp
    next
      case (room r)
      obtain ins' outs' r' where r: "run ops r = (ins', outs', r')" by (metis prod_cases3)
      then show ?thesis using Cons.IH[OF room(2) r] Cons.prems(2) Put room by auto
    qed
  next
    case Get
    from Cons.prems(1) show ?thesis
    proof (cases rule: get_cases)
      case empty
      then show ?thesis using Cons.IH[OF Cons.prems(1), of ins outs q'] Cons.prems(2) Get by simp
    next
      case (some y r)
      obtain ins' outs' r' where r: "run ops r = (ins', outs', r')" by (metis prod_cases3)
      then show ?thesis using Cons.IH[OF some(2) r] Cons.prems(2) Get some by auto
    qed
  qed
qed

lemma run_from_empty:
  "inv q \<Longrightarrow> elems q = [] \<Longrightarrow> run ops q = (ins, outs, q') \<Longrightarrow> ins = outs @ elems q'"
  using run_fifo[of q ops ins outs q'] by simp

text \<open>Filling up to the capacity and draining gives the same sequence back.\<close>

lemma run_puts:
  "inv q \<Longrightarrow> length (elems q) + length xs \<le> cap q \<Longrightarrow>
   \<exists>q'. run (map Put xs) q = (xs, [], q') \<and> inv q' \<and> elems q' = elems q @ xs \<and> cap q' = cap q"
proof (induction xs arbitrary: q)
  case Nil
  then show ?case by simp
next
  case (Cons x xs)
  from Cons.prems obtain r where r: "put q x = Some r" "inv r" "cap r = cap q" "elems r = elems q @ [x]"
    using put_room[of q x] by auto
  with Cons.IH[of r] Cons.prems show ?case by auto
qed

lemma run_gets:
  "inv q \<Longrightarrow> elems q = xs \<Longrightarrow> \<exists>q'. run (replicate (length xs) Get) q = ([], xs, q') \<and> inv q' \<and> elems q' = []"
proof (induction xs arbitrary: q)
  case Nil
  then show ?case by simp
next
  case (Cons y ys)
  from Cons.prems obtain r where r: "get q = Some (y, r)" "inv r" "elems r = ys"
    using get_some[of q y ys] by auto
  with Cons.IH[of r] show ?case by auto
qed

end

end
