(* ===== verification/RT_RingBuffer.thy ===== *)
theory RT_RingBuffer
  imports RT_Fifo
begin

text \<open>
  \<open>src/rt-thread/components/drivers/src/ringbuffer.c\<close>: the byte ring buffer of the device drivers.
  The two 15-bit indices and their mirror bits are words of exactly that width, the size is the
  signed 16-bit field, and the pool is a byte list; every \<open>memcpy\<close> is checked against its bounds.
  \<open>rb_inv\<close> is the representation invariant, \<open>rb_contents\<close> the abstraction to the queued bytes.
\<close>

section \<open>State and operations\<close>

record rt_ringbuffer =
  buffer_ptr :: "u8 list"
  read_mirror :: "1 word"
  read_index :: "15 word"
  write_mirror :: "1 word"
  write_index :: "15 word"
  buffer_size :: u16

datatype rt_ringbuffer_state = RT_RINGBUFFER_EMPTY | RT_RINGBUFFER_FULL | RT_RINGBUFFER_HALFFULL

abbreviation bsize :: "rt_ringbuffer \<Rightarrow> int" where "bsize rb \<equiv> sint (buffer_size rb)"
abbreviation ridx :: "rt_ringbuffer \<Rightarrow> int" where "ridx rb \<equiv> uint (read_index rb)"
abbreviation widx :: "rt_ringbuffer \<Rightarrow> int" where "widx rb \<equiv> uint (write_index rb)"

definition rt_ringbuffer_status :: "rt_ringbuffer \<Rightarrow> rt_ringbuffer_state" where
  "rt_ringbuffer_status rb =
     (if read_index rb = write_index rb
      then if read_mirror rb = write_mirror rb then RT_RINGBUFFER_EMPTY else RT_RINGBUFFER_FULL
      else RT_RINGBUFFER_HALFFULL)"

definition rt_ringbuffer_init :: "u8 list \<Rightarrow> u16 \<Rightarrow> rt_ringbuffer option" where
  "rt_ringbuffer_init pool sz =
     (if sint sz > 0
      then Some \<lparr>buffer_ptr = pool, read_mirror = 0, read_index = 0, write_mirror = 0, write_index = 0,
                 buffer_size = and sz (not 3)\<rparr>
      else None)"

definition rt_ringbuffer_data_len :: "rt_ringbuffer \<Rightarrow> rt_size_t" where
  "rt_ringbuffer_data_len rb =
     (case rt_ringbuffer_status rb of
        RT_RINGBUFFER_EMPTY \<Rightarrow> 0
      | RT_RINGBUFFER_FULL \<Rightarrow> word_of_int (bsize rb)
      | RT_RINGBUFFER_HALFFULL \<Rightarrow>
          if widx rb > ridx rb then word_of_int (widx rb - ridx rb)
          else word_of_int (bsize rb - (ridx rb - widx rb)))"

definition rt_ringbuffer_space_len :: "rt_ringbuffer \<Rightarrow> rt_size_t" where
  "rt_ringbuffer_space_len rb = word_of_int (bsize rb) - rt_ringbuffer_data_len rb"

definition rt_ringbuffer_get_size :: "rt_ringbuffer \<Rightarrow> u16" where
  "rt_ringbuffer_get_size rb = buffer_size rb"

definition rt_ringbuffer_put ::
  "rt_ringbuffer \<Rightarrow> u8 list \<Rightarrow> u16 \<Rightarrow> (rt_size_t \<times> rt_ringbuffer) option" where
  "rt_ringbuffer_put rb ptr length0 =
     (let size = (ucast (rt_ringbuffer_space_len rb) :: u16) in
      if size = 0 then Some (0, rb)
      else let len = (if size < length0 then size else length0);
               tail = bsize rb - widx rb in
      if tail > uint len
      then do { buf \<leftarrow> memcpy (buffer_ptr rb) (nat (widx rb)) ptr 0 (unat len);
                Some (ucast len, rb\<lparr>buffer_ptr := buf, write_index := word_of_int (widx rb + uint len)\<rparr>) }
      else do { buf1 \<leftarrow> memcpy (buffer_ptr rb) (nat (widx rb)) ptr 0 (size_of_int tail);
                buf2 \<leftarrow> memcpy buf1 0 ptr (size_of_int tail) (size_of_int (uint len - tail));
                Some (ucast len, rb\<lparr>buffer_ptr := buf2, write_mirror := not (write_mirror rb),
                                    write_index := word_of_int (uint len - tail)\<rparr>) })"

definition rt_ringbuffer_put_force ::
  "rt_ringbuffer \<Rightarrow> u8 list \<Rightarrow> u16 \<Rightarrow> (rt_size_t \<times> rt_ringbuffer) option" where
  "rt_ringbuffer_put_force rb ptr0 length0 =
     (let space_length = (ucast (rt_ringbuffer_space_len rb) :: u16);
          over = uint length0 > bsize rb;
          ptr = (if over then drop (size_of_int (uint length0 - bsize rb)) ptr0 else ptr0);
          len = (if over then buffer_size rb else length0);
          tail = bsize rb - widx rb in
      if tail > uint len
      then do { buf \<leftarrow> memcpy (buffer_ptr rb) (nat (widx rb)) ptr 0 (unat len);
                let rb1 = rb\<lparr>buffer_ptr := buf, write_index := word_of_int (widx rb + uint len)\<rparr>;
                Some (ucast len, if len > space_length then rb1\<lparr>read_index := write_index rb1\<rparr> else rb1) }
      else do { buf1 \<leftarrow> memcpy (buffer_ptr rb) (nat (widx rb)) ptr 0 (size_of_int tail);
                buf2 \<leftarrow> memcpy buf1 0 ptr (size_of_int tail) (size_of_int (uint len - tail));
                let rb1 = rb\<lparr>buffer_ptr := buf2, write_mirror := not (write_mirror rb),
                             write_index := word_of_int (uint len - tail)\<rparr>;
                Some (ucast len, if len > space_length
                                 then rb1\<lparr>read_mirror := not (read_mirror rb1), read_index := write_index rb1\<rparr>
                                 else rb1) })"

definition rt_ringbuffer_get ::
  "rt_ringbuffer \<Rightarrow> u8 list \<Rightarrow> u16 \<Rightarrow> (rt_size_t \<times> u8 list \<times> rt_ringbuffer) option" where
  "rt_ringbuffer_get rb ptr length0 =
     (let size = rt_ringbuffer_data_len rb in
      if size = 0 then Some (0, ptr, rb)
      else let len = (if size < ucast length0 then ucast size else length0);
               tail = bsize rb - ridx rb in
      if tail > uint len
      then do { out \<leftarrow> memcpy ptr 0 (buffer_ptr rb) (nat (ridx rb)) (unat len);
                Some (ucast len, out, rb\<lparr>read_index := word_of_int (ridx rb + uint len)\<rparr>) }
      else do { out1 \<leftarrow> memcpy ptr 0 (buffer_ptr rb) (nat (ridx rb)) (size_of_int tail);
                out2 \<leftarrow> memcpy out1 (size_of_int tail) (buffer_ptr rb) 0 (size_of_int (uint len - tail));
                Some (ucast len, out2, rb\<lparr>read_mirror := not (read_mirror rb),
                                          read_index := word_of_int (uint len - tail)\<rparr>) })"

text \<open>\<open>rt_ringbuffer_peak\<close> hands out a pointer into the pool: \<open>None\<close> is the null pointer.\<close>

definition rt_ringbuffer_peak :: "rt_ringbuffer \<Rightarrow> rt_size_t \<times> nat option \<times> rt_ringbuffer" where
  "rt_ringbuffer_peak rb =
     (let size = rt_ringbuffer_data_len rb in
      if size = 0 then (0, None, rb)
      else let ptr = Some (nat (ridx rb)); tail = (word_of_int (bsize rb - ridx rb) :: rt_size_t) in
      if tail > size
      then (size, ptr, rb\<lparr>read_index := word_of_int (ridx rb + uint size)\<rparr>)
      else (tail, ptr, rb\<lparr>read_mirror := not (read_mirror rb), read_index := 0\<rparr>))"

definition rt_ringbuffer_putchar :: "rt_ringbuffer \<Rightarrow> u8 \<Rightarrow> (rt_size_t \<times> rt_ringbuffer) option" where
  "rt_ringbuffer_putchar rb ch =
     (if rt_ringbuffer_space_len rb = 0 then Some (0, rb)
      else do { buf \<leftarrow> write_at (buffer_ptr rb) (nat (widx rb)) ch;
                let rb1 = rb\<lparr>buffer_ptr := buf\<rparr>;
                Some (1, if widx rb1 = bsize rb1 - 1
                         then rb1\<lparr>write_mirror := not (write_mirror rb1), write_index := 0\<rparr>
                         else rb1\<lparr>write_index := write_index rb1 + 1\<rparr>) })"

definition rt_ringbuffer_putchar_force :: "rt_ringbuffer \<Rightarrow> u8 \<Rightarrow> (rt_size_t \<times> rt_ringbuffer) option" where
  "rt_ringbuffer_putchar_force rb ch =
     (let old_state = rt_ringbuffer_status rb in
      do { buf \<leftarrow> write_at (buffer_ptr rb) (nat (widx rb)) ch;
           let rb1 = rb\<lparr>buffer_ptr := buf\<rparr>;
           Some (1, if widx rb1 = bsize rb1 - 1
                    then let rb2 = rb1\<lparr>write_mirror := not (write_mirror rb1), write_index := 0\<rparr> in
                         if old_state = RT_RINGBUFFER_FULL
                         then rb2\<lparr>read_mirror := not (read_mirror rb2), read_index := write_index rb2\<rparr>
                         else rb2
                    else let rb2 = rb1\<lparr>write_index := write_index rb1 + 1\<rparr> in
                         if old_state = RT_RINGBUFFER_FULL then rb2\<lparr>read_index := write_index rb2\<rparr>
                         else rb2) })"

definition rt_ringbuffer_getchar :: "rt_ringbuffer \<Rightarrow> (rt_size_t \<times> u8 option \<times> rt_ringbuffer) option" where
  "rt_ringbuffer_getchar rb =
     (if rt_ringbuffer_data_len rb = 0 then Some (0, None, rb)
      else do { ch \<leftarrow> read_at (buffer_ptr rb) (nat (ridx rb));
                Some (1, Some ch, if ridx rb = bsize rb - 1
                                  then rb\<lparr>read_mirror := not (read_mirror rb), read_index := 0\<rparr>
                                  else rb\<lparr>read_index := read_index rb + 1\<rparr>) })"

definition rt_ringbuffer_reset :: "rt_ringbuffer \<Rightarrow> rt_ringbuffer" where
  "rt_ringbuffer_reset rb = rb\<lparr>read_mirror := 0, read_index := 0, write_mirror := 0, write_index := 0\<rparr>"

section \<open>Representation invariant and contents\<close>

definition rb_inv :: "rt_ringbuffer \<Rightarrow> bool" where
  "rb_inv rb \<longleftrightarrow> 0 < bsize rb \<and> bsize rb \<le> int (length (buffer_ptr rb)) \<and>
     ridx rb < bsize rb \<and> widx rb < bsize rb \<and>
     (if read_mirror rb = write_mirror rb then ridx rb \<le> widx rb else widx rb \<le> ridx rb)"

definition rb_len :: "rt_ringbuffer \<Rightarrow> nat" where
  "rb_len rb = nat (if read_mirror rb = write_mirror rb then widx rb - ridx rb
                    else bsize rb + widx rb - ridx rb)"

definition circ :: "'a list \<Rightarrow> nat \<Rightarrow> nat \<Rightarrow> nat \<Rightarrow> 'a list" where
  "circ buf n start len = map (\<lambda>i. buf ! ((start + i) mod n)) [0..<len]"

definition rb_contents :: "rt_ringbuffer \<Rightarrow> u8 list" where
  "rb_contents rb = circ (buffer_ptr rb) (nat (bsize rb)) (nat (ridx rb)) (rb_len rb)"

lemma length_circ [simp]: "length (circ buf n s len) = len"
  by (simp add: circ_def)

lemma nth_circ [simp]: "i < len \<Longrightarrow> circ buf n s len ! i = buf ! ((s + i) mod n)"
  by (simp add: circ_def)

lemma circ_0 [simp]: "circ buf n s 0 = []"
  by (simp add: circ_def)

lemma length_rb_contents [simp]: "length (rb_contents rb) = rb_len rb"
  by (simp add: rb_contents_def)

lemma circ_cong:
  "(\<And>i. i < len \<Longrightarrow> buf ! ((s + i) mod n) = buf' ! ((s + i) mod n)) \<Longrightarrow> circ buf n s len = circ buf' n s len"
  by (simp add: circ_def)

lemma circ_append: "circ buf n s (a + b) = circ buf n s a @ circ buf n ((s + a) mod n) b"
proof (rule nth_equalityI)
  fix i assume "i < length (circ buf n s (a + b))"
  moreover have "((s + a) mod n + (i - a)) mod n = (s + i) mod n" if "\<not> i < a"
    using that by (metis add.assoc le_add_diff_inverse mod_add_left_eq not_le)
  ultimately show "circ buf n s (a + b) ! i = (circ buf n s a @ circ buf n ((s + a) mod n) b) ! i"
    by (cases "i < a") (simp_all add: nth_append)
qed simp

lemma drop_circ: "k \<le> len \<Longrightarrow> drop k (circ buf n s len) = circ buf n ((s + k) mod n) (len - k)"
  using circ_append[of buf n s k "len - k"] by simp

lemma take_circ: "k \<le> len \<Longrightarrow> take k (circ buf n s len) = circ buf n s k"
  using circ_append[of buf n s k "len - k"] by simp

text \<open>Writing \<open>k\<close> elements right behind a circular segment appends them to it.\<close>

lemma circ_extend:
  assumes n: "0 < n" and fit: "len + k \<le> n" and ptr: "k \<le> length ptr"
    and new: "\<And>j. j < k \<Longrightarrow> buf' ! ((s + len + j) mod n) = ptr ! j"
    and old: "\<And>i. i < len \<Longrightarrow> buf' ! ((s + i) mod n) = buf ! ((s + i) mod n)"
  shows "circ buf' n s (len + k) = circ buf n s len @ take k ptr"
proof (rule nth_equalityI)
  show "length (circ buf' n s (len + k)) = length (circ buf n s len @ take k ptr)" using ptr by simp
next
  fix i assume "i < length (circ buf' n s (len + k))"
  then have i: "i < len + k" by simp
  show "circ buf' n s (len + k) ! i = (circ buf n s len @ take k ptr) ! i"
  proof (cases "i < len")
    case True
    then show ?thesis using i old by (simp add: nth_append)
  next
    case False
    with i new[of "i - len"] ptr show ?thesis by (simp add: nth_append)
  qed
qed

lemma one_word_cases: "(x :: 1 word) = 0 \<or> x = 1"
proof -
  have "unat x < 2 ^ LENGTH(1)" by (rule unsigned_less)
  then have "unat x = unat (0 :: 1 word) \<or> unat x = unat (1 :: 1 word)" by (simp add: less_2_cases_iff)
  then show ?thesis by (simp only: word_unat_eq_iff)
qed

lemma one_word_not [simp]: "(not (x :: 1 word) = y) = (x \<noteq> y)" "(y = not (x :: 1 word)) = (x \<noteq> y)"
  using one_word_cases[of x] one_word_cases[of y] by auto

lemma rb_invE:
  assumes "rb_inv rb"
  obtains n r w where "bsize rb = int n" "ridx rb = int r" "widx rb = int w"
    "0 < n" "n < 32768" "n \<le> length (buffer_ptr rb)" "r < n" "w < n"
    "if read_mirror rb = write_mirror rb then r \<le> w else w \<le> r"
    "rb_len rb = (if read_mirror rb = write_mirror rb then w - r else n + w - r)"
    "rb_len rb \<le> n" "read_index rb = write_index rb \<longleftrightarrow> r = w"
    "unat (read_index rb) = r" "unat (write_index rb) = w"
proof -
  have "0 < bsize rb" using assms by (simp add: rb_inv_def)
  then have "bsize rb = int (nat (bsize rb))" by simp
  then obtain n where n: "bsize rb = int n" ..
  define r w where rw_def: "r = unat (read_index rb)" "w = unat (write_index rb)"
  then have rw: "ridx rb = int r" "widx rb = int w" by simp_all
  have eq: "read_index rb = write_index rb \<longleftrightarrow> r = w" by (simp only: rw_def word_unat_eq_iff)
  have "int n < 32768" using sint_lt[of "buffer_size rb"] n by simp
  moreover from assms n rw have "0 < n" "n \<le> length (buffer_ptr rb)" "r < n" "w < n"
    and mir: "if read_mirror rb = write_mirror rb then r \<le> w else w \<le> r"
    by (auto simp: rb_inv_def)
  moreover have len: "rb_len rb = (if read_mirror rb = write_mirror rb then w - r else n + w - r)"
    by (simp add: rb_len_def n rw nat_minus_as_int)
  moreover have "rb_len rb \<le> n" using \<open>w < n\<close> mir len by (auto split: if_splits)
  ultimately show ?thesis using n rw eq that[of n r w] rw_def[symmetric] by simp
qed

lemma data_len_eq: "rb_inv rb \<Longrightarrow> rt_ringbuffer_data_len rb = of_nat (rb_len rb)"
  by (erule rb_invE) (auto simp: rt_ringbuffer_data_len_def rt_ringbuffer_status_def of_nat_diff split: if_splits)

lemma space_len_eq:
  "rb_inv rb \<Longrightarrow> rt_ringbuffer_space_len rb = of_nat (nat (bsize rb) - rb_len rb)"
  by (frule data_len_eq, erule rb_invE) (simp add: rt_ringbuffer_space_len_def of_nat_diff)

section \<open>Writing: what the bulk and single-byte operations append\<close>

lemma write_nowrap:
  assumes "w + k < n" "n \<le> length buf" "k \<le> length ptr"
  obtains buf' where "memcpy buf w ptr 0 k = Some buf'" "length buf' = length buf"
    "\<And>j. j < k \<Longrightarrow> buf' ! ((w + j) mod n) = ptr ! j"
    "\<And>i. i < n \<Longrightarrow> (\<And>j. j < k \<Longrightarrow> i \<noteq> (w + j) mod n) \<Longrightarrow> buf' ! i = buf ! i"
proof -
  obtain buf' where m: "memcpy buf w ptr 0 k = Some buf'" using memcpy_total[of w k buf 0 ptr] assms by auto
  show thesis
  proof (rule that[OF m])
    show "length buf' = length buf" using length_memcpy[OF m] .
  next
    fix j assume "j < k"
    then show "buf' ! ((w + j) mod n) = ptr ! j" using assms by (simp add: nth_memcpy[OF m])
  next
    fix i assume i: "i < n" and out: "\<And>j. j < k \<Longrightarrow> i \<noteq> (w + j) mod n"
    have "\<not> (w \<le> i \<and> i < w + k)"
    proof
      assume "w \<le> i \<and> i < w + k"
      then show False using out[of "i - w"] i by (simp add: less_diff_conv2)
    qed
    then show "buf' ! i = buf ! i" using assms i by (auto simp: nth_memcpy[OF m])
  qed
qed

lemma write_wrap:
  assumes "n - w \<le> k" "w < n" "k \<le> n" "n \<le> length buf" "k \<le> length ptr"
  obtains buf1 buf' where "memcpy buf w ptr 0 (n - w) = Some buf1"
    "memcpy buf1 0 ptr (n - w) (k - (n - w)) = Some buf'" "length buf' = length buf"
    "\<And>j. j < k \<Longrightarrow> buf' ! ((w + j) mod n) = ptr ! j"
    "\<And>i. i < n \<Longrightarrow> (\<And>j. j < k \<Longrightarrow> i \<noteq> (w + j) mod n) \<Longrightarrow> buf' ! i = buf ! i"
proof -
  obtain b1 where m1: "memcpy buf w ptr 0 (n - w) = Some b1"
    using memcpy_total[of w "n - w" buf 0 ptr] assms by auto
  have l1: "length b1 = length buf" by (rule length_memcpy[OF m1])
  obtain b2 where m2: "memcpy b1 0 ptr (n - w) (k - (n - w)) = Some b2"
    using memcpy_total[of 0 "k - (n - w)" b1 "n - w" ptr] assms(1-5) l1 by fastforce
  show thesis
  proof (rule that[OF m1 m2])
    show "length b2 = length buf" using length_memcpy[OF m2] l1 by simp
  next
    fix j assume j: "j < k"
    show "b2 ! ((w + j) mod n) = ptr ! j"
    proof (cases "j < n - w")
      case True
      then have "w + j < n" "\<not> w + j < k - (n - w)" using assms by auto
      with assms j l1 True show ?thesis by (simp add: nth_memcpy[OF m2] nth_memcpy[OF m1])
    next
      case False
      then have "(w + j) mod n = j - (n - w)" using assms j by (subst mod_add_once) auto
      moreover have "b2 ! (j - (n - w)) = ptr ! (n - w + (j - (n - w) - 0))"
        using False assms j l1 by (subst nth_memcpy[OF m2]) auto
      moreover have "n - w + (j - (n - w) - 0) = j" using False by simp
      ultimately show ?thesis by (simp only:)
    qed
  next
    fix i assume i: "i < n" and out: "\<And>j. j < k \<Longrightarrow> i \<noteq> (w + j) mod n"
    have "i < w"
    proof (rule ccontr)
      assume "\<not> i < w"
      moreover from this have "i - w < k" using i assms by linarith
      ultimately show False using out[of "i - w"] i by simp
    qed
    moreover have "\<not> i < k - (n - w)"
    proof
      assume "i < k - (n - w)"
      moreover from this have "i + (n - w) < k" by linarith
      moreover have "(w + (i + (n - w))) mod n = i" using i assms by (simp add: mod_if)
      ultimately show False using out[of "i + (n - w)"] by metis
    qed
    ultimately show "b2 ! i = buf ! i" using i l1 assms
      by (simp add: nth_memcpy[OF m2] nth_memcpy[OF m1])
  qed
qed

text \<open>The segment \<open>[r, r + len)\<close> and the one behind it do not meet while they fit in the ring.\<close>

lemma mod_separate:
  "i < len \<Longrightarrow> len + k \<le> n \<Longrightarrow> j < k \<Longrightarrow> r < n \<Longrightarrow> (r + i) mod n \<noteq> ((r + len) mod n + j) mod n" for n :: nat
proof
  assume a: "i < len" "len + k \<le> n" "j < k" "r < n" and e: "(r + i) mod n = ((r + len) mod n + j) mod n"
  then have "(r + i) mod n = (r + (len + j)) mod n" by (metis add.assoc mod_add_left_eq)
  then show False using a by (simp add: mod_add_once split: if_splits)
qed

lemma circ_write:
  assumes "0 < n" "r < n" "len + k \<le> n" "k \<le> length ptr" "w = (r + len) mod n"
    and new: "\<And>j. j < k \<Longrightarrow> buf' ! ((w + j) mod n) = ptr ! j"
    and old: "\<And>i. i < n \<Longrightarrow> (\<And>j. j < k \<Longrightarrow> i \<noteq> (w + j) mod n) \<Longrightarrow> buf' ! i = buf ! i"
  shows "circ buf' n r (len + k) = circ buf n r len @ take k ptr"
proof (rule circ_extend)
  fix j assume "j < k"
  then show "buf' ! ((r + len + j) mod n) = ptr ! j" using new[of j] assms(5) by (simp add: mod_add_left_eq)
next
  fix i assume "i < len"
  then show "buf' ! ((r + i) mod n) = buf ! ((r + i) mod n)"
    using old[of "(r + i) mod n"] mod_separate[of i len k n _ r] assms by simp
qed (use assms in auto)

lemma widx_mod:
  assumes "r < n" "w < (n::nat)" "if m then r \<le> w else w \<le> r" "len = (if m then w - r else n + w - r)"
    "len < n \<or> 0 < k" "len + k \<le> n"
  shows "(r + len) mod n = w"
  using assms by (cases m) (auto simp: mod_if)

lemma unat_space:
  assumes "rb_inv rb"
  shows "unat (ucast (rt_ringbuffer_space_len rb) :: u16) = nat (bsize rb) - rb_len rb"
proof -
  define x where "x = nat (bsize rb) - rb_len rb"
  have "x < 32768" using assms unfolding x_def by (elim rb_invE) simp
  then show ?thesis unfolding space_len_eq[OF assms] x_def[symmetric] by simp
qed

text \<open>
  \<open>rt_ringbuffer_put\<close> accepts as much as there is room for, and appends exactly that prefix.
\<close>

lemma put_spec:
  assumes inv: "rb_inv rb" and len: "unat len0 \<le> length ptr"
  defines "k \<equiv> min (nat (bsize rb) - rb_len rb) (unat len0)"
  shows "\<exists>rb'. rt_ringbuffer_put rb ptr len0 = Some (of_nat k, rb') \<and> rb_inv rb' \<and>
           buffer_size rb' = buffer_size rb \<and> rb_contents rb' = rb_contents rb @ take k ptr"
proof -
  from inv obtain n r w where v: "bsize rb = int n" "ridx rb = int r" "widx rb = int w"
    "0 < n" "n < 32768" "n \<le> length (buffer_ptr rb)" "r < n" "w < n"
    "if read_mirror rb = write_mirror rb then r \<le> w else w \<le> r"
    "rb_len rb = (if read_mirror rb = write_mirror rb then w - r else n + w - r)" "rb_len rb \<le> n"
    "read_index rb = write_index rb \<longleftrightarrow> r = w" "unat (read_index rb) = r" "unat (write_index rb) = w"
    by (rule rb_invE)
  let ?sz = "ucast (rt_ringbuffer_space_len rb) :: u16"
  let ?len = "if ?sz < len0 then ?sz else len0"
  have sz: "unat ?sz = n - rb_len rb" using unat_space[OF inv] v by simp
  have k: "unat ?len = k" "k \<le> length ptr" "k \<le> n" "rb_len rb + k \<le> n"
    using len sz v(1,11) by (auto simp: k_def word_less_nat_alt)
  then have uk: "uint ?len = int k" "(ucast ?len :: rt_size_t) = of_nat k"
    by (simp_all only: uint_eq_int_unat ucast_eq_of_nat_unat)
  show ?thesis
  proof (cases "?sz = 0")
    case True
    then have "k = 0" using sz k(4) by (simp add: k_def v)
    with True inv show ?thesis by (simp add: rt_ringbuffer_put_def)
  next
    case False
    then have room: "rb_len rb < n" using sz by (metis unat_eq_zero zero_less_diff not_gr_zero)
    have w_eq: "w = (r + rb_len rb) mod n" using widx_mod[OF v(7-10), of k] room k by simp
    show ?thesis
    proof (cases "w + k < n")
      case True
      obtain buf where b: "memcpy (buffer_ptr rb) w ptr 0 k = Some buf" "length buf = length (buffer_ptr rb)"
        "\<And>j. j < k \<Longrightarrow> buf ! ((w + j) mod n) = ptr ! j"
        "\<And>i. i < n \<Longrightarrow> (\<And>j. j < k \<Longrightarrow> i \<noteq> (w + j) mod n) \<Longrightarrow> buf ! i = buffer_ptr rb ! i"
        using write_nowrap[OF True v(6) k(2)] by blast
      let ?rb = "rb\<lparr>buffer_ptr := buf, write_index := word_of_int (int w + int k)\<rparr>"
      have "rt_ringbuffer_put rb ptr len0 = Some (of_nat k, ?rb)"
        unfolding rt_ringbuffer_put_def Let_def using \<open>?sz \<noteq> 0\<close> uk True v b(1) k(1) by simp
      moreover have "uint (of_nat (w + k) :: 15 word) = int (w + k)"
        using True v(5) by (intro uint_of_nat_small) simp
      then have wi: "widx ?rb = int (w + k)" by simp
      moreover have inv': "rb_inv ?rb"
        using v(1-12) True wi b(2) k(4) by (auto simp: rb_inv_def simp del: of_nat_add split: if_splits)
      moreover have "rb_len ?rb = rb_len rb + k"
        using v(1-12) True wi k(4) by (auto simp: rb_len_def nat_minus_as_int simp del: of_nat_add)
      moreover have "circ buf n r (rb_len rb + k) = circ (buffer_ptr rb) n r (rb_len rb) @ take k ptr"
        by (rule circ_write[OF v(4,7) k(4,2) w_eq b(3,4)])
      ultimately show ?thesis
        by (intro exI[of _ ?rb]) (simp add: rb_contents_def v(1,13) del: of_nat_add)
    next
      case False
      then have wrap: "n - w \<le> k" by simp
      obtain buf1 buf where b: "memcpy (buffer_ptr rb) w ptr 0 (n - w) = Some buf1"
        "memcpy buf1 0 ptr (n - w) (k - (n - w)) = Some buf" "length buf = length (buffer_ptr rb)"
        "\<And>j. j < k \<Longrightarrow> buf ! ((w + j) mod n) = ptr ! j"
        "\<And>i. i < n \<Longrightarrow> (\<And>j. j < k \<Longrightarrow> i \<noteq> (w + j) mod n) \<Longrightarrow> buf ! i = buffer_ptr rb ! i"
        using write_wrap[OF wrap v(8) k(3) v(6) k(2)] by blast
      let ?rb = "rb\<lparr>buffer_ptr := buf, write_mirror := not (write_mirror rb),
                    write_index := word_of_int (int k - (int n - int w))\<rparr>"
      have ints: "size_of_int (int n - int w) = n - w" "size_of_int (int k - (int n - int w)) = k - (n - w)"
        using size_of_int_diff[of w n] size_of_int_diff[of "n - w" k] wrap v(5,8) k(3) by (simp_all add: of_nat_diff)
      have "rt_ringbuffer_put rb ptr len0 = Some (of_nat k, ?rb)"
        unfolding rt_ringbuffer_put_def Let_def using \<open>?sz \<noteq> 0\<close> uk False v b(1,2) k(1) ints by simp
      moreover have "uint (of_nat (k - (n - w)) :: 15 word) = int (k - (n - w))"
        using k(3) v(5) by (intro uint_of_nat_small) simp
      then have wi: "widx ?rb = int (k - (n - w))" using wrap v(8) by (simp add: of_nat_diff algebra_simps)
      moreover have same: "read_mirror rb = write_mirror rb" using wrap v k(4) by (auto split: if_splits)
      moreover have inv': "rb_inv ?rb"
        using v(1-12) wi b(3) k(4) same by (auto simp: rb_inv_def simp del: of_nat_diff)
      moreover have "rb_len ?rb = rb_len rb + k"
        using v(1-12) wi k(4) same wrap by (auto simp: rb_len_def nat_minus_as_int simp del: of_nat_diff)
      moreover have "circ buf n r (rb_len rb + k) = circ (buffer_ptr rb) n r (rb_len rb) @ take k ptr"
        by (rule circ_write[OF v(4,7) k(4,2) w_eq b(4,5)])
      ultimately show ?thesis
        by (intro exI[of _ ?rb]) (simp add: rb_contents_def v(1,13) del: of_nat_add)
    qed
  qed
qed

section \<open>Reading: what the bulk and single-byte operations take away\<close>

lemma read_nowrap:
  assumes inv: "rb_inv rb" and k: "k \<le> rb_len rb" and fit: "unat (read_index rb) + k < nat (bsize rb)"
  defines "rb' \<equiv> rb\<lparr>read_index := of_nat (unat (read_index rb) + k)\<rparr>"
  shows "rb_inv rb' \<and> rb_len rb' = rb_len rb - k \<and> rb_contents rb' = drop k (rb_contents rb)"
proof -
  from inv obtain n r w where v: "bsize rb = int n" "ridx rb = int r" "widx rb = int w"
    "0 < n" "n < 32768" "n \<le> length (buffer_ptr rb)" "r < n" "w < n"
    "if read_mirror rb = write_mirror rb then r \<le> w else w \<le> r"
    "rb_len rb = (if read_mirror rb = write_mirror rb then w - r else n + w - r)" "rb_len rb \<le> n"
    "read_index rb = write_index rb \<longleftrightarrow> r = w" "unat (read_index rb) = r" "unat (write_index rb) = w"
    by (rule rb_invE)
  have f: "r + k < n" using fit v(1,13) by simp
  have ri: "unat (read_index rb') = r + k" "ridx rb' = int (r + k)"
    using f v(5,13) by (simp_all add: rb'_def uint_of_nat_small del: of_nat_add)
  have len: "rb_len rb' = rb_len rb - k"
    using v(1-12) k ri(2) by (auto simp: rb_len_def rb'_def nat_minus_as_int simp del: of_nat_add)
  moreover have "rb_inv rb'"
    using v(1-12) k ri(2) f by (auto simp: rb_inv_def rb'_def simp del: of_nat_add split: if_splits)
  moreover have "rb_contents rb' = drop k (rb_contents rb)"
    using f ri(1) v(1,13) k len by (simp add: rb_contents_def drop_circ) (simp add: rb'_def)
  ultimately show ?thesis by blast
qed

lemma read_wrap:
  assumes inv: "rb_inv rb" and k: "k \<le> rb_len rb" and fit: "nat (bsize rb) - unat (read_index rb) \<le> k"
  defines "rb' \<equiv> rb\<lparr>read_mirror := not (read_mirror rb),
                   read_index := of_nat (k - (nat (bsize rb) - unat (read_index rb)))\<rparr>"
  shows "rb_inv rb' \<and> rb_len rb' = rb_len rb - k \<and> rb_contents rb' = drop k (rb_contents rb)"
proof -
  from inv obtain n r w where v: "bsize rb = int n" "ridx rb = int r" "widx rb = int w"
    "0 < n" "n < 32768" "n \<le> length (buffer_ptr rb)" "r < n" "w < n"
    "if read_mirror rb = write_mirror rb then r \<le> w else w \<le> r"
    "rb_len rb = (if read_mirror rb = write_mirror rb then w - r else n + w - r)" "rb_len rb \<le> n"
    "read_index rb = write_index rb \<longleftrightarrow> r = w" "unat (read_index rb) = r" "unat (write_index rb) = w"
    by (rule rb_invE)
  have f: "n - r \<le> k" "k - (n - r) < n" using fit v k by auto
  have m: "read_mirror rb \<noteq> write_mirror rb" using f(1) v(7,8,10) k by (auto split: if_splits)
  have ri: "unat (read_index rb') = k - (n - r)" "ridx rb' = int (k - (n - r))"
    using f v(1,5,13) by (simp_all add: rb'_def uint_of_nat_small del: of_nat_diff)
  have len: "rb_len rb' = rb_len rb - k"
    using v(1-12) k ri(2) f m by (auto simp: rb_len_def rb'_def nat_minus_as_int simp del: of_nat_diff)
  moreover have "rb_inv rb'"
    using v(1-12) k ri(2) f m by (auto simp: rb_inv_def rb'_def simp del: of_nat_diff split: if_splits)
  moreover have "(r + k) mod n = k - (n - r)" using f v(7,11) k by (subst mod_add_once) auto
  then have "rb_contents rb' = drop k (rb_contents rb)"
    using ri(1) v(1,13) k len by (simp add: rb_contents_def drop_circ) (simp add: rb'_def)
  ultimately show ?thesis by blast
qed

text \<open>\<open>rt_ringbuffer_get\<close> delivers exactly the oldest bytes, as many as asked for and present.\<close>

lemma circ_nowrap: "s + k \<le> n \<Longrightarrow> n \<le> length buf \<Longrightarrow> circ buf n s k = take k (drop s buf)"
  by (rule nth_equalityI) auto

lemma get_spec:
  assumes inv: "rb_inv rb" and len: "unat len0 \<le> length ptr"
  defines "k \<equiv> min (rb_len rb) (unat len0)"
  shows "\<exists>rb'. rt_ringbuffer_get rb ptr len0 = Some (of_nat k, take k (rb_contents rb) @ drop k ptr, rb') \<and>
           rb_inv rb' \<and> buffer_size rb' = buffer_size rb \<and> rb_contents rb' = drop k (rb_contents rb)"
proof -
  from inv obtain n r w where v: "bsize rb = int n" "ridx rb = int r" "widx rb = int w"
    "0 < n" "n < 32768" "n \<le> length (buffer_ptr rb)" "r < n" "w < n"
    "if read_mirror rb = write_mirror rb then r \<le> w else w \<le> r"
    "rb_len rb = (if read_mirror rb = write_mirror rb then w - r else n + w - r)" "rb_len rb \<le> n"
    "read_index rb = write_index rb \<longleftrightarrow> r = w" "unat (read_index rb) = r" "unat (write_index rb) = w"
    by (rule rb_invE)
  have k: "k \<le> rb_len rb" "k \<le> length ptr" "k \<le> n" using len v(11) by (simp_all add: k_def)
  let ?sz = "rt_ringbuffer_data_len rb"
  let ?len = "if ?sz < ucast len0 then ucast ?sz else len0 :: u16"
  have sz: "?sz = of_nat (rb_len rb)" by (rule data_len_eq[OF inv])
  have small: "rb_len rb < 32768" using v(5,11) by simp
  have len0': "unat (ucast len0 :: rt_size_t) = unat len0" by (rule unat_ucast_up) simp
  have kk: "unat ?len = k"
    using small by (simp add: sz word_less_nat_alt len0' k_def)
  then have uk: "uint ?len = int k" "(ucast ?len :: rt_size_t) = of_nat k"
    by (simp_all only: uint_eq_int_unat ucast_eq_of_nat_unat)
  have cont: "take k (rb_contents rb) = circ (buffer_ptr rb) n r k"
    using k(1) v(1,13) by (simp add: rb_contents_def take_circ)
  show ?thesis
  proof (cases "rb_len rb = 0")
    case True
    with inv show ?thesis by (simp add: rt_ringbuffer_get_def sz k_def)
  next
    case False
    have "unat ?sz \<noteq> unat (0 :: rt_size_t)" using small False by (simp add: sz)
    then have nz: "?sz \<noteq> 0" by metis
    show ?thesis
    proof (cases "r + k < n")
      case True
      have m: "memcpy ptr 0 (buffer_ptr rb) r k = Some (circ (buffer_ptr rb) n r k @ drop k ptr)"
        using True v(6) k(2) by (simp add: memcpy_def circ_nowrap)
      have "rt_ringbuffer_get rb ptr len0 = Some (of_nat k, circ (buffer_ptr rb) n r k @ drop k ptr,
              rb\<lparr>read_index := of_nat (unat (read_index rb) + k)\<rparr>)"
        unfolding rt_ringbuffer_get_def Let_def using nz uk True v(1,2,13) m kk by simp
      then show ?thesis using read_nowrap[OF inv k(1)] True v(1,13) cont by simp
    next
      case False
      then have wrap: "n - r \<le> k" by simp
      have m1: "memcpy ptr 0 (buffer_ptr rb) r (n - r) = Some (take (n - r) (drop r (buffer_ptr rb)) @ drop (n - r) ptr)"
        using wrap v(6,7) k(2) by (simp add: memcpy_def)
      have m2: "memcpy (take (n - r) (drop r (buffer_ptr rb)) @ drop (n - r) ptr) (n - r) (buffer_ptr rb) 0 (k - (n - r))
                = Some (take (n - r) (drop r (buffer_ptr rb)) @ take (k - (n - r)) (buffer_ptr rb) @ drop k ptr)"
        using wrap v(6,7) k(2,3) by (subst memcpy_append) auto
      have "circ (buffer_ptr rb) n r (n - r + (k - (n - r)))
            = take (n - r) (drop r (buffer_ptr rb)) @ take (k - (n - r)) (buffer_ptr rb)"
        using v(6,7) k(3) by (simp only: circ_append) (simp add: circ_nowrap)
      then have c: "circ (buffer_ptr rb) n r k = take (n - r) (drop r (buffer_ptr rb)) @ take (k - (n - r)) (buffer_ptr rb)"
        using wrap by simp
      have ints: "size_of_int (int n - int r) = n - r" "size_of_int (int k - (int n - int r)) = k - (n - r)"
        using size_of_int_diff[of r n] size_of_int_diff[of "n - r" k] wrap v(5,7) k(3) by (simp_all add: of_nat_diff)
      have "rt_ringbuffer_get rb ptr len0 = Some (of_nat k, circ (buffer_ptr rb) n r k @ drop k ptr,
              rb\<lparr>read_mirror := not (read_mirror rb),
                 read_index := of_nat (k - (nat (bsize rb) - unat (read_index rb)))\<rparr>)"
        unfolding rt_ringbuffer_get_def Let_def using nz uk False v(1,2,7,13) m1 m2 kk ints wrap
        by (simp add: c of_nat_diff algebra_simps)
      then show ?thesis using read_wrap[OF inv k(1)] wrap v(1,13) cont by simp
    qed
  qed
qed

section \<open>The single-byte operations are the bulk ones at length one\<close>

lemma memcpy_one: "w < length buf \<Longrightarrow> memcpy buf w [x] 0 1 = Some (buf[w := x])"
  by (simp add: memcpy_def upd_conv_take_nth_drop)

lemma memcpy_zero: "s \<le> length src \<Longrightarrow> d \<le> length dst \<Longrightarrow> memcpy dst d src s 0 = Some dst"
  by (simp add: memcpy_def)

lemma putchar_eq_put:
  assumes inv: "rb_inv rb"
  shows "rt_ringbuffer_putchar rb ch = rt_ringbuffer_put rb [ch] 1"
proof -
  from inv obtain n r w where v: "bsize rb = int n" "ridx rb = int r" "widx rb = int w"
    "0 < n" "n < 32768" "n \<le> length (buffer_ptr rb)" "r < n" "w < n"
    "if read_mirror rb = write_mirror rb then r \<le> w else w \<le> r"
    "rb_len rb = (if read_mirror rb = write_mirror rb then w - r else n + w - r)" "rb_len rb \<le> n"
    "read_index rb = write_index rb \<longleftrightarrow> r = w" "unat (read_index rb) = r" "unat (write_index rb) = w"
    by (rule rb_invE)
  have small: "n - rb_len rb < 32768" using v(5) by simp
  have sp: "rt_ringbuffer_space_len rb = of_nat (n - rb_len rb)" using space_len_eq[OF inv] v(1) by simp
  have spu: "unat (rt_ringbuffer_space_len rb) = n - rb_len rb"
    "unat (ucast (rt_ringbuffer_space_len rb) :: u16) = n - rb_len rb"
    unfolding sp using small by (simp_all del: of_nat_diff)
  have z: "rt_ringbuffer_space_len rb = 0 \<longleftrightarrow> n - rb_len rb = 0"
    "(ucast (rt_ringbuffer_space_len rb) :: u16) = 0 \<longleftrightarrow> n - rb_len rb = 0"
    "(ucast (rt_ringbuffer_space_len rb) :: u16) < 1 \<longleftrightarrow> n - rb_len rb = 0"
    using spu by (metis unat_eq_zero, metis unat_eq_zero, simp add: word_less_nat_alt)
  have wl: "w < length (buffer_ptr rb)" using v(6,8) by simp
  show ?thesis
  proof (cases "n - rb_len rb = 0")
    case True
    then show ?thesis unfolding rt_ringbuffer_putchar_def rt_ringbuffer_put_def Let_def z by simp
  next
    case room: False
    show ?thesis
    proof (cases "w = n - 1")
      case True
      then have "int n - int w = 1" "nat (int n - 1) = n - Suc 0" using v(4) by simp_all
      then show ?thesis
        unfolding rt_ringbuffer_putchar_def rt_ringbuffer_put_def Let_def z
        using room v(1,3,4) wl True memcpy_one[OF wl] by (simp add: memcpy_zero of_nat_diff)
    next
      case False
      then have "1 < int n - int w" "int w \<noteq> int n - 1" using v(8) by simp_all
      moreover have "(of_nat w :: 15 word) = write_index rb" using v(14) by auto
      ultimately show ?thesis
        unfolding rt_ringbuffer_putchar_def rt_ringbuffer_put_def Let_def z
        using room v(1,3) wl memcpy_one[OF wl] by simp
    qed
  qed
qed

lemma getchar_eq_get:
  assumes inv: "rb_inv rb"
  shows "rt_ringbuffer_getchar rb =
    (case rt_ringbuffer_get rb [x] 1 of None \<Rightarrow> None
     | Some (m, out, rb') \<Rightarrow> Some (m, if m = 0 then None else Some (hd out), rb'))"
proof -
  from inv obtain n r w where v: "bsize rb = int n" "ridx rb = int r" "widx rb = int w"
    "0 < n" "n < 32768" "n \<le> length (buffer_ptr rb)" "r < n" "w < n"
    "if read_mirror rb = write_mirror rb then r \<le> w else w \<le> r"
    "rb_len rb = (if read_mirror rb = write_mirror rb then w - r else n + w - r)" "rb_len rb \<le> n"
    "read_index rb = write_index rb \<longleftrightarrow> r = w" "unat (read_index rb) = r" "unat (write_index rb) = w"
    by (rule rb_invE)
  have "unat (rt_ringbuffer_data_len rb) = rb_len rb" unfolding data_len_eq[OF inv] using v(5,11) by simp
  then have z: "rt_ringbuffer_data_len rb = 0 \<longleftrightarrow> rb_len rb = 0"
    "rt_ringbuffer_data_len rb < 1 \<longleftrightarrow> rb_len rb = 0"
    by (metis unat_eq_zero, simp add: word_less_nat_alt)
  have rl: "r < length (buffer_ptr rb)" using v(6,7) by simp
  then have m: "memcpy [x] 0 (buffer_ptr rb) r 1 = Some [buffer_ptr rb ! r]"
    by (simp add: memcpy_def take_Suc hd_drop_conv_nth)
  show ?thesis
  proof (cases "rb_len rb = 0")
    case True
    then show ?thesis unfolding rt_ringbuffer_getchar_def rt_ringbuffer_get_def Let_def by (simp add: z)
  next
    case data: False
    show ?thesis
    proof (cases "r = n - 1")
      case True
      then have "int n - int r = 1" "nat (int n - 1) = n - Suc 0" using v(4) by simp_all
      then show ?thesis
        unfolding rt_ringbuffer_getchar_def rt_ringbuffer_get_def Let_def
        using data v(1,2,4,13) rl m True by (simp add: z memcpy_zero of_nat_diff)
    next
      case False
      then have "1 < int n - int r" "int r \<noteq> int n - 1" using v(7) by simp_all
      moreover have "(of_nat r :: 15 word) = read_index rb" using v(13) by auto
      ultimately show ?thesis
        unfolding rt_ringbuffer_getchar_def rt_ringbuffer_get_def Let_def
        using data v(1,2) rl m by (simp add: z)
    qed
  qed
qed

lemma putchar_spec:
  assumes inv: "rb_inv rb"
  shows "\<exists>rb'. rt_ringbuffer_putchar rb ch =
           Some (if rb_len rb = nat (bsize rb) then 0 else 1, rb') \<and> rb_inv rb' \<and>
           buffer_size rb' = buffer_size rb \<and>
           rb_contents rb' = rb_contents rb @ (if rb_len rb = nat (bsize rb) then [] else [ch])"
proof -
  have "rb_len rb \<le> nat (bsize rb)" using inv by (elim rb_invE) simp
  then show ?thesis
    using put_spec[OF inv, of 1 "[ch]"] unfolding putchar_eq_put[OF inv]
    by (cases "nat (bsize rb) - rb_len rb") auto
qed

lemma getchar_spec:
  assumes inv: "rb_inv rb"
  shows "\<exists>rb'. rt_ringbuffer_getchar rb =
           Some (if rb_contents rb = [] then 0 else 1,
                 if rb_contents rb = [] then None else Some (hd (rb_contents rb)), rb') \<and>
           rb_inv rb' \<and> buffer_size rb' = buffer_size rb \<and> rb_contents rb' = tl (rb_contents rb)"
proof (cases "rb_contents rb")
  case Nil
  then have "rb_len rb = 0" by (metis length_rb_contents list.size(3))
  then show ?thesis using get_spec[OF inv, of 1 "[0]"] Nil
    unfolding getchar_eq_get[OF inv, of 0] by auto
next
  case (Cons y ys)
  then have "min (rb_len rb) 1 = 1" using length_rb_contents[of rb] by simp
  then show ?thesis using get_spec[OF inv, of 1 "[0]"] Cons
    unfolding getchar_eq_get[OF inv, of 0] by auto
qed

lemma init_spec:
  assumes "4 \<le> sint sz" "sint sz \<le> int (length pool)"
  shows "\<exists>rb. rt_ringbuffer_init pool sz = Some rb \<and> rb_inv rb \<and> rb_contents rb = [] \<and>
              bsize rb = sint sz - sint sz mod 4"
proof -
  let ?n = "sint (and sz (not 3))"
  have n: "?n = sint sz - sint sz mod 4"
    using int_and_not_mask[of "sint sz" 2] by (simp add: signed_and_eq mask_eq_exp_minus_1)
  moreover have "0 \<le> sint sz mod 4" "sint sz mod 4 < 4" by simp_all
  ultimately have "0 < ?n" "?n \<le> int (length pool)" using assms by linarith+
  then show ?thesis using assms n
    by (simp add: rt_ringbuffer_init_def rb_inv_def rb_contents_def rb_len_def circ_def)
qed

lemma reset_spec:
  "rb_inv rb \<Longrightarrow> rb_inv (rt_ringbuffer_reset rb) \<and> rb_contents (rt_ringbuffer_reset rb) = []"
  by (simp add: rt_ringbuffer_reset_def rb_inv_def rb_contents_def rb_len_def circ_def)

lemma peak_spec:
  assumes inv: "rb_inv rb"
  shows "\<exists>k rb'. rt_ringbuffer_peak rb =
           (of_nat k, if k = 0 then None else Some (unat (read_index rb)), rb') \<and>
           k = min (rb_len rb) (nat (bsize rb) - unat (read_index rb)) \<and> rb_inv rb' \<and>
           rb_contents rb' = drop k (rb_contents rb) \<and>
           take k (drop (unat (read_index rb)) (buffer_ptr rb)) = take k (rb_contents rb)"
proof -
  from inv obtain n r w where v: "bsize rb = int n" "ridx rb = int r" "widx rb = int w"
    "0 < n" "n < 32768" "n \<le> length (buffer_ptr rb)" "r < n" "w < n"
    "if read_mirror rb = write_mirror rb then r \<le> w else w \<le> r"
    "rb_len rb = (if read_mirror rb = write_mirror rb then w - r else n + w - r)" "rb_len rb \<le> n"
    "read_index rb = write_index rb \<longleftrightarrow> r = w" "unat (read_index rb) = r" "unat (write_index rb) = w"
    by (rule rb_invE)
  let ?k = "min (rb_len rb) (n - r)"
  have dl: "rt_ringbuffer_data_len rb = of_nat (rb_len rb)" by (rule data_len_eq[OF inv])
  have dlu: "unat (rt_ringbuffer_data_len rb) = rb_len rb"
    "uint (rt_ringbuffer_data_len rb) = int (rb_len rb)"
    unfolding dl using v(5,11) by (simp_all add: uint_of_nat_small)
  have tail: "(word_of_int (int n - int r) :: rt_size_t) = of_nat (n - r)" using v(7) by (simp add: of_nat_diff)
  have tailu: "unat (of_nat (n - r) :: rt_size_t) = n - r" using v(5) by (intro unat_of_nat_small) simp
  have z: "rt_ringbuffer_data_len rb = 0 \<longleftrightarrow> rb_len rb = 0" using dlu(1) by (metis unat_eq_zero)
  have seg: "take ?k (drop r (buffer_ptr rb)) = take ?k (rb_contents rb)"
    using v(1,6,7,13) by (simp add: rb_contents_def take_circ circ_nowrap)
  show ?thesis
  proof (cases "rb_len rb = 0")
    case True
    then have "rb_contents rb = []" by (metis length_0_conv length_rb_contents)
    then show ?thesis using inv True by (simp add: rt_ringbuffer_peak_def z)
  next
    case data: False
    show ?thesis
    proof (cases "rb_len rb < n - r")
      case True
      have "rt_ringbuffer_peak rb = (of_nat (rb_len rb), Some r,
              rb\<lparr>read_index := of_nat (unat (read_index rb) + rb_len rb)\<rparr>)"
        unfolding rt_ringbuffer_peak_def Let_def using data True v(1,2,13) z dlu tail tailu
        by (simp add: word_less_nat_alt dl del: of_nat_diff)
      moreover have "r + rb_len rb < n" using True by linarith
      ultimately show ?thesis using read_nowrap[OF inv le_refl] True v(1,13) seg data by simp
    next
      case False
      have "rt_ringbuffer_peak rb = (of_nat (n - r), Some r,
              rb\<lparr>read_mirror := not (read_mirror rb), read_index := 0\<rparr>)"
        unfolding rt_ringbuffer_peak_def Let_def using data False v(1,2,13) z dlu tail tailu
        by (simp add: word_less_nat_alt del: of_nat_diff)
      then show ?thesis using read_wrap[OF inv, of "n - r"] False v(1,7,13) seg data
        by (simp add: min_absorb2 del: of_nat_diff)
    qed
  qed
qed

section \<open>The ring buffer is a bounded fifo\<close>

definition rb_put1 :: "rt_ringbuffer \<Rightarrow> u8 \<Rightarrow> rt_ringbuffer option" where
  "rb_put1 rb ch = (case rt_ringbuffer_putchar rb ch of
     Some (m, rb') \<Rightarrow> if m = 1 then Some rb' else None | None \<Rightarrow> None)"

definition rb_get1 :: "rt_ringbuffer \<Rightarrow> (u8 \<times> rt_ringbuffer) option" where
  "rb_get1 rb = (case rt_ringbuffer_getchar rb of
     Some (m, Some ch, rb') \<Rightarrow> if m = 1 then Some (ch, rb') else None | _ \<Rightarrow> None)"

interpretation rb_fifo: bounded_fifo rb_inv "\<lambda>rb. nat (bsize rb)" rb_contents rb_put1 rb_get1
proof unfold_locales
  fix rb x assume i: "rb_inv rb"
  show "length (rb_contents rb) \<le> nat (bsize rb)" using i by (elim rb_invE) simp
  show "rb_put1 rb x = None" if "length (rb_contents rb) = nat (bsize rb)"
    using putchar_spec[OF i, of x] that by (auto simp: rb_put1_def)
  show "\<exists>q'. rb_put1 rb x = Some q' \<and> rb_inv q' \<and> nat (bsize q') = nat (bsize rb) \<and>
             rb_contents q' = rb_contents rb @ [x]" if "length (rb_contents rb) < nat (bsize rb)"
    using putchar_spec[OF i, of x] that by (auto simp: rb_put1_def)
  show "rb_get1 rb = None" if "rb_contents rb = []"
    using getchar_spec[OF i] that by (auto simp: rb_get1_def)
  show "\<exists>q'. rb_get1 rb = Some (y, q') \<and> rb_inv q' \<and> nat (bsize q') = nat (bsize rb) \<and>
             rb_contents q' = ys" if "rb_contents rb = y # ys" for y ys
    using getchar_spec[OF i] that by (auto simp: rb_get1_def)
qed

section \<open>Forced writes\<close>

text \<open>A forced write that overruns unread data leaves the newest \<open>bsize\<close> bytes.\<close>

lemma force_full:
  assumes "0 < n" "r < n" "len \<le> n" "k \<le> n" "n \<le> len + k" "k \<le> length ptr" "w = (r + len) mod n"
    and new: "\<And>j. j < k \<Longrightarrow> buf' ! ((w + j) mod n) = ptr ! j"
    and old: "\<And>i. i < n \<Longrightarrow> (\<And>j. j < k \<Longrightarrow> i \<noteq> (w + j) mod n) \<Longrightarrow> buf' ! i = buf ! i"
  shows "circ buf' n ((w + k) mod n) n = drop (len + k - n) (circ buf n r len) @ take k ptr"
proof -
  let ?w' = "(w + k) mod n"
  have "(?w' + (n - k)) mod n = (w + k + (n - k)) mod n" by (simp only: mod_add_left_eq)
  also have "w + k + (n - k) = w + n" using assms(4) by simp
  finally have "(?w' + (n - k)) mod n = w mod n" by simp
  then have w: "w = (?w' + (n - k)) mod n" using assms(1,7) by simp
  have "(r + (len + k - n)) mod n = (r + (len + k - n) + n) mod n" by simp
  also have "r + (len + k - n) + n = r + len + k" using assms(5) by simp
  finally have s: "(r + (len + k - n)) mod n = ?w'" using assms(7) by (simp add: mod_add_left_eq)
  have "circ buf' n ?w' (n - k + k) = circ buf n ?w' (n - k) @ take k ptr"
    using assms(1,4,6) by (intro circ_write[OF _ _ _ _ w new old]) simp_all
  moreover have "drop (len + k - n) (circ buf n r len) = circ buf n ?w' (n - k)"
    using assms(3,4,5) s by (subst drop_circ) simp_all
  ultimately show ?thesis using assms(4) by simp
qed

lemma circ_eq_if:
  "X = circ b n s (if c then 0 else m) \<Longrightarrow> circ b n s m = Y \<Longrightarrow> if c then X = [] else X = Y"
  by (cases c) auto

lemma if_conj_both: "I \<Longrightarrow> (if c then A else B) \<Longrightarrow> (if c then I \<and> A else I \<and> B)"
  by simp

text \<open>
  The one case the code gets wrong: both mirrors equal, the write wraps around and overruns. Both
  mirror bits are then flipped, which leaves them equal, and the buffer reads as empty.
\<close>

definition force_wraps_over :: "rt_ringbuffer \<Rightarrow> u16 \<Rightarrow> bool" where
  "force_wraps_over rb len0 \<longleftrightarrow>
     (let k = min (nat (bsize rb)) (unat len0) in
      read_mirror rb = write_mirror rb \<and> nat (bsize rb) \<le> unat (write_index rb) + k \<and>
      nat (bsize rb) < rb_len rb + k)"

lemma newest_suffix:
  assumes "length c \<le> n" "k = min n m" "m \<le> length ptr"
  shows "drop (length (c @ take m ptr) - n) (c @ take m ptr) =
         drop (length c + k - n) c @ take k (if n < m then drop (m - n) ptr else ptr)"
proof (cases "n < m")
  case True
  then show ?thesis using assms by (simp add: drop_take)
next
  case False
  then show ?thesis using assms by simp
qed

lemma put_force_cases:
  assumes inv: "rb_inv rb" and len: "unat len0 \<le> length ptr0"
  defines "n \<equiv> nat (bsize rb)" and "k \<equiv> min (nat (bsize rb)) (unat len0)"
  defines "ptr \<equiv> (if n < unat len0 then drop (unat len0 - n) ptr0 else ptr0)"
  shows "\<exists>rb'. rt_ringbuffer_put_force rb ptr0 len0 = Some (of_nat k, rb') \<and>
     (if force_wraps_over rb len0 then rb_inv rb' \<and> rb_contents rb' = []
      else rb_inv rb' \<and> rb_contents rb' = drop (rb_len rb + k - n) (rb_contents rb) @ take k ptr)"
proof -
  from inv obtain n' r w where v: "bsize rb = int n'" "ridx rb = int r" "widx rb = int w"
    "0 < n'" "n' < 32768" "n' \<le> length (buffer_ptr rb)" "r < n'" "w < n'"
    "if read_mirror rb = write_mirror rb then r \<le> w else w \<le> r"
    "rb_len rb = (if read_mirror rb = write_mirror rb then w - r else n' + w - r)" "rb_len rb \<le> n'"
    "read_index rb = write_index rb \<longleftrightarrow> r = w" "unat (read_index rb) = r" "unat (write_index rb) = w"
    by (rule rb_invE)
  have n: "n' = n" using v(1) by (simp add: n_def)
  note v = v[unfolded n]
  have bs: "buffer_size rb = of_nat n"
  proof -
    have "word_of_int (bsize rb) = buffer_size rb" by simp
    then show ?thesis using v(1) by simp
  qed
  let ?over = "uint len0 > bsize rb"
  have over: "?over \<longleftrightarrow> n < unat len0" using v(1) by (simp only: uint_eq_int_unat of_nat_less_iff)
  let ?len = "if ?over then buffer_size rb else len0"
  have k: "unat ?len = k" "k \<le> n" using v(1,5) over by (auto simp: bs k_def min_def)
  then have uk: "uint ?len = int k" "(ucast ?len :: rt_size_t) = of_nat k"
    by (simp_all only: uint_eq_int_unat ucast_eq_of_nat_unat)
  let ?sp = "ucast (rt_ringbuffer_space_len rb) :: u16"
  have sp: "?sp < ?len \<longleftrightarrow> n - rb_len rb < k"
    using unat_space[OF inv] k(1) by (simp add: word_less_nat_alt n_def)
  have kp: "k \<le> length ptr" using len by (auto simp: ptr_def k_def n_def[symmetric])
  have "size_of_int (uint len0 - bsize rb) = unat len0 - n" if "n < unat len0"
  proof -
    have "unat len0 < 2 ^ LENGTH(16)" by (rule unsigned_less)
    then show ?thesis using size_of_int_diff[of n "unat len0"] that v(1) by simp
  qed
  then have pt: "(if ?over then drop (size_of_int (uint len0 - bsize rb)) ptr0 else ptr0) = ptr"
    using over by (simp add: ptr_def)
  have wlen: "w = (r + rb_len rb) mod n"
    using v(4,7-10) by (cases "read_mirror rb = write_mirror rb") (simp_all add: mod_if)
  have cont: "rb_contents rb = circ (buffer_ptr rb) n r (rb_len rb)"
    by (simp add: rb_contents_def n_def[symmetric] v(13))
  show ?thesis
  proof (cases "w + k < n")
    case True
    obtain buf where b: "memcpy (buffer_ptr rb) w ptr 0 k = Some buf" "length buf = length (buffer_ptr rb)"
      "\<And>j. j < k \<Longrightarrow> buf ! ((w + j) mod n) = ptr ! j"
      "\<And>i. i < n \<Longrightarrow> (\<And>j. j < k \<Longrightarrow> i \<noteq> (w + j) mod n) \<Longrightarrow> buf ! i = buffer_ptr rb ! i"
      using write_nowrap[OF True v(6) kp] by blast
    let ?rb = "rb\<lparr>buffer_ptr := buf, write_index := of_nat (w + k)\<rparr>"
    let ?rb' = "if n - rb_len rb < k then ?rb\<lparr>read_index := of_nat (w + k)\<rparr> else ?rb"
    have res: "rt_ringbuffer_put_force rb ptr0 len0 = Some (of_nat k, ?rb')"
      unfolding rt_ringbuffer_put_force_def Let_def pt sp using uk True v(1,3) b(1) k(1) by simp
    have no_bug: "\<not> force_wraps_over rb len0"
      using True v(14) unfolding force_wraps_over_def Let_def k_def[symmetric] unfolding n_def[symmetric] by simp
    have wi: "uint (of_nat (w + k) :: 15 word) = int (w + k)" "unat (of_nat (w + k) :: 15 word) = w + k"
      using True v(5) by (simp_all add: uint_of_nat_small del: of_nat_add)
    show ?thesis
    proof (cases "n - rb_len rb < k")
      case over': True
      have m: "read_mirror rb \<noteq> write_mirror rb" using over' v(7-10) True by (auto split: if_splits)
      have "circ buf n ((w + k) mod n) n
            = drop (rb_len rb + k - n) (circ (buffer_ptr rb) n r (rb_len rb)) @ take k ptr"
        by (rule force_full[OF v(4,7,11) k(2) _ kp wlen b(3,4)]) (use over' in auto)
      moreover have "rb_inv ?rb'" "rb_len ?rb' = n"
        using over' m wi(1) v(1,4,6) True b(2) by (simp_all add: rb_inv_def rb_len_def del: of_nat_add)
      ultimately show ?thesis
        using over' True wi(2) v(1) res no_bug cont by (simp add: rb_contents_def del: of_nat_add)
    next
      case False
      have fit: "rb_len rb + k \<le> n" using False v(11) by simp
      have "circ buf n r (rb_len rb + k) = circ (buffer_ptr rb) n r (rb_len rb) @ take k ptr"
        by (rule circ_write[OF v(4,7) fit kp wlen b(3,4)])
      moreover have "rb_inv ?rb" "rb_len ?rb = rb_len rb + k"
        unfolding rb_len_def[of ?rb] rb_inv_def using wi(1) v(1-4) v(6-10) True b(2) fit
        by (simp_all del: of_nat_add split: if_split_asm)
      moreover have "?rb' = ?rb" using False by simp
      ultimately show ?thesis
        using False fit v(1,13) res no_bug cont by (simp add: rb_contents_def del: of_nat_add)
    qed
  next
    case False
    then have wrap: "n - w \<le> k" by simp
    obtain buf1 buf where b: "memcpy (buffer_ptr rb) w ptr 0 (n - w) = Some buf1"
      "memcpy buf1 0 ptr (n - w) (k - (n - w)) = Some buf" "length buf = length (buffer_ptr rb)"
      "\<And>j. j < k \<Longrightarrow> buf ! ((w + j) mod n) = ptr ! j"
      "\<And>i. i < n \<Longrightarrow> (\<And>j. j < k \<Longrightarrow> i \<noteq> (w + j) mod n) \<Longrightarrow> buf ! i = buffer_ptr rb ! i"
      using write_wrap[OF wrap v(8) k(2) v(6) kp] by blast
    have ints: "size_of_int (int n - int w) = n - w" "size_of_int (int k - (int n - int w)) = k - (n - w)"
      using size_of_int_diff[of w n] size_of_int_diff[of "n - w" k] wrap v(5,8) k(2) by (simp_all add: of_nat_diff)
    let ?rb = "rb\<lparr>buffer_ptr := buf, write_mirror := not (write_mirror rb), write_index := of_nat (k - (n - w))\<rparr>"
    let ?rb' = "if n - rb_len rb < k
                then ?rb\<lparr>read_mirror := not (read_mirror rb), read_index := of_nat (k - (n - w))\<rparr> else ?rb"
    have wo: "word_of_int (int k - (int n - int w)) = (of_nat (k - (n - w)) :: 15 word)"
      using wrap v(8) by (simp add: of_nat_diff algebra_simps)
    have res: "rt_ringbuffer_put_force rb ptr0 len0 = Some (of_nat k, ?rb')"
      unfolding rt_ringbuffer_put_force_def Let_def pt sp
      using uk False v(1,3) b(1,2) k(1) ints wo by (simp del: of_nat_diff)
    have wi: "uint (of_nat (k - (n - w)) :: 15 word) = int (k - (n - w))"
      "unat (of_nat (k - (n - w)) :: 15 word) = k - (n - w)"
      using k(2) v(5) by (simp_all add: uint_of_nat_small del: of_nat_diff)
    have bug: "force_wraps_over rb len0 \<longleftrightarrow> read_mirror rb = write_mirror rb \<and> n - rb_len rb < k"
      using False v(11,14) unfolding force_wraps_over_def Let_def k_def[symmetric] unfolding n_def[symmetric] by auto
    show ?thesis
    proof (cases "n - rb_len rb < k")
      case over': True
      have inv': "rb_inv ?rb'" "rb_len ?rb' = (if read_mirror rb = write_mirror rb then 0 else n)"
        using over' wi(1) v(1,4,6,8) k(2) b(3) by (auto simp: rb_inv_def rb_len_def simp del: of_nat_diff)
      have "circ buf n ((w + k) mod n) n
            = drop (rb_len rb + k - n) (circ (buffer_ptr rb) n r (rb_len rb)) @ take k ptr"
        by (rule force_full[OF v(4,7,11) k(2) _ kp wlen b(4,5)]) (use over' in auto)
      moreover have "(w + k) mod n = k - (n - w)" using wrap v(8) k(2) by (subst mod_add_once) auto
      moreover have "rb_contents ?rb' = circ buf n (k - (n - w)) (rb_len ?rb')"
        using over' wi(2) v(1) by (simp add: rb_contents_def del: of_nat_diff)
      ultimately have "if read_mirror rb = write_mirror rb then rb_contents ?rb' = []
        else rb_contents ?rb' = drop (rb_len rb + k - n) (rb_contents rb) @ take k ptr"
        unfolding inv'(2) cont by (intro circ_eq_if) simp_all
      moreover have "force_wraps_over rb len0 \<longleftrightarrow> read_mirror rb = write_mirror rb" using bug over' by simp
      ultimately show ?thesis by (intro exI[of _ ?rb'] conjI res if_conj_both inv'(1)) (simp only:)
    next
      case False
      have fit: "rb_len rb + k \<le> n" using False v(11) by simp
      have same: "read_mirror rb = write_mirror rb" using wrap fit v(7,8,10) by (auto split: if_splits)
      have "circ buf n r (rb_len rb + k) = circ (buffer_ptr rb) n r (rb_len rb) @ take k ptr"
        by (rule circ_write[OF v(4,7) fit kp wlen b(4,5)])
      moreover have "rb_inv ?rb'" "rb_len ?rb' = rb_len rb + k"
        using False wi(1) v(1-11) wrap same b(3) fit
        by (auto simp: rb_inv_def rb_len_def nat_minus_as_int simp del: of_nat_diff)
      ultimately show ?thesis
        using False fit v(1,13) res bug cont by (simp add: rb_contents_def del: of_nat_diff)
    qed
  qed
qed

text \<open>The single-byte forced write is the plain one, behind a read when the buffer is full.\<close>

lemma status_full:
  "rb_inv rb \<Longrightarrow> rt_ringbuffer_status rb = RT_RINGBUFFER_FULL \<longleftrightarrow> rb_len rb = nat (bsize rb)"
  by (erule rb_invE) (auto simp: rt_ringbuffer_status_def split: if_splits)

lemma putchar_force_room:
  assumes inv: "rb_inv rb" and room: "rb_len rb \<noteq> nat (bsize rb)"
  shows "rt_ringbuffer_putchar_force rb ch = rt_ringbuffer_putchar rb ch"
proof -
  have le: "rb_len rb \<le> nat (bsize rb)" "nat (bsize rb) < 32768" using inv by (elim rb_invE, simp)+
  have "unat (rt_ringbuffer_space_len rb) = nat (bsize rb) - rb_len rb"
    unfolding space_len_eq[OF inv] using le(2) by (simp del: of_nat_diff)
  then have "rt_ringbuffer_space_len rb \<noteq> 0" using room le(1) by (metis diff_is_0_eq le_antisym unat_0)
  then show ?thesis
    using status_full[OF inv] room unfolding rt_ringbuffer_putchar_force_def rt_ringbuffer_putchar_def Let_def
    by (cases "write_at (buffer_ptr rb) (nat (widx rb)) ch") simp_all
qed

lemma putchar_force_full:
  assumes inv: "rb_inv rb" and full: "rb_len rb = nat (bsize rb)"
  shows "rt_ringbuffer_putchar_force rb ch =
    (case rt_ringbuffer_getchar rb of Some (m, c, rb1) \<Rightarrow> rt_ringbuffer_putchar rb1 ch | None \<Rightarrow> None)"
proof -
  from inv obtain n r w where v: "bsize rb = int n" "ridx rb = int r" "widx rb = int w"
    "0 < n" "n < 32768" "n \<le> length (buffer_ptr rb)" "r < n" "w < n"
    "if read_mirror rb = write_mirror rb then r \<le> w else w \<le> r"
    "rb_len rb = (if read_mirror rb = write_mirror rb then w - r else n + w - r)" "rb_len rb \<le> n"
    "read_index rb = write_index rb \<longleftrightarrow> r = w" "unat (read_index rb) = r" "unat (write_index rb) = w"
    by (rule rb_invE)
  have rw: "r = w" and m: "read_mirror rb \<noteq> write_mirror rb"
    using full v(1,4,7-10) by (auto split: if_splits)
  have ne: "rb_contents rb \<noteq> []" using full v(1,4) by (simp flip: length_0_conv)
  obtain rb1 where g: "rt_ringbuffer_getchar rb = Some (1, Some (hd (rb_contents rb)), rb1)"
    "rb_inv rb1" "buffer_size rb1 = buffer_size rb" "rb_contents rb1 = tl (rb_contents rb)"
    using getchar_spec[OF inv] ne by auto
  have "rb_len rb1 = rb_len rb - 1" using arg_cong[OF g(4), of length] by simp
  then have "rb_len rb1 < nat (bsize rb1)" using g(3) full v(1,4) by simp
  then have room: "rb_len rb1 \<noteq> nat (bsize rb1)" by simp
  have "rt_ringbuffer_putchar rb1 ch = rt_ringbuffer_putchar_force rb1 ch"
    by (rule putchar_force_room[OF g(2) room, symmetric])
  moreover have "rt_ringbuffer_status rb1 \<noteq> RT_RINGBUFFER_FULL" using status_full[OF g(2)] room by simp
  moreover have "rt_ringbuffer_status rb = RT_RINGBUFFER_FULL" using status_full[OF inv] full by simp
  moreover have "read_index rb = write_index rb" using v(12) rw by simp
  moreover have "rt_ringbuffer_data_len rb \<noteq> 0" using g(1) by (auto simp: rt_ringbuffer_getchar_def)
  ultimately show ?thesis using g(1) m v(6,8,14)
    by (auto simp: rt_ringbuffer_putchar_force_def rt_ringbuffer_getchar_def Let_def)
qed

lemma putchar_force_cases:
  assumes inv: "rb_inv rb"
  shows "\<exists>rb'. rt_ringbuffer_putchar_force rb ch = Some (1, rb') \<and> rb_inv rb' \<and>
     rb_contents rb' = (if rb_len rb = nat (bsize rb) then tl (rb_contents rb) else rb_contents rb) @ [ch]"
proof (cases "rb_len rb = nat (bsize rb)")
  case False
  then show ?thesis using putchar_spec[OF inv, of ch] putchar_force_room[OF inv False] by auto
next
  case True
  have n: "0 < nat (bsize rb)" using inv by (simp add: rb_inv_def)
  then have ne: "rb_contents rb \<noteq> []" using True by (simp flip: length_0_conv)
  obtain rb1 where g: "rt_ringbuffer_getchar rb = Some (1, Some (hd (rb_contents rb)), rb1)"
    "rb_inv rb1" "buffer_size rb1 = buffer_size rb" "rb_contents rb1 = tl (rb_contents rb)"
    using getchar_spec[OF inv] ne by auto
  have "rb_len rb1 = rb_len rb - 1" using arg_cong[OF g(4), of length] by simp
  then have "rb_len rb1 \<noteq> nat (bsize rb1)" using g(3) True n by simp
  then show ?thesis using putchar_spec[OF g(2), of ch] putchar_force_full[OF inv True, of ch] True g(1,4) by auto
qed

end
