(* ===== verification/RT_RingBuffer_Props.thy ===== *)
theory RT_RingBuffer_Props
  imports RT_RingBuffer
begin

text \<open>
  What a client of \<open>ringbuffer.c\<close> relies on: the byte stream that comes out is the stream that went
  in for every interleaving of the operations, the capacity is fully usable, and the forced writes
  keep the newest bytes, except in one wrapped case where the code loses everything.
\<close>

section \<open>Runs of mixed operations\<close>

datatype rb_op = BufPut "u8 list" | BufGet u16 | ChPut u8 | ChGet | Peak

text \<open>One operation: the bytes it accepted, the bytes it delivered and the buffer afterwards.\<close>

fun rb_exec :: "rb_op \<Rightarrow> rt_ringbuffer \<Rightarrow> (u8 list \<times> u8 list \<times> rt_ringbuffer) option" where
  "rb_exec (BufPut xs) rb =
     do { (m, rb') \<leftarrow> rt_ringbuffer_put rb xs (of_nat (length xs)); Some (take (unat m) xs, [], rb') }"
| "rb_exec (BufGet n) rb =
     do { (m, out, rb') \<leftarrow> rt_ringbuffer_get rb (replicate (unat n) 0) n; Some ([], take (unat m) out, rb') }"
| "rb_exec (ChPut ch) rb =
     do { (m, rb') \<leftarrow> rt_ringbuffer_putchar rb ch; Some (take (unat m) [ch], [], rb') }"
| "rb_exec ChGet rb =
     do { (m, c, rb') \<leftarrow> rt_ringbuffer_getchar rb; Some ([], case c of None \<Rightarrow> [] | Some x \<Rightarrow> [x], rb') }"
| "rb_exec Peak rb =
     (case rt_ringbuffer_peak rb of
        (m, None, rb') \<Rightarrow> Some ([], [], rb')
      | (m, Some i, rb') \<Rightarrow> Some ([], take (unat m) (drop i (buffer_ptr rb)), rb'))"

fun rb_run :: "rb_op list \<Rightarrow> rt_ringbuffer \<Rightarrow> (u8 list \<times> u8 list \<times> rt_ringbuffer) option" where
  "rb_run [] rb = Some ([], [], rb)"
| "rb_run (x # xs) rb =
     do { (i, out, rb1) \<leftarrow> rb_exec x rb; (ins, outs, rb2) \<leftarrow> rb_run xs rb1; Some (i @ ins, out @ outs, rb2) }"

lemma rb_len_small: "rb_inv rb \<Longrightarrow> rb_len rb < 32768"
  by (erule rb_invE) simp

lemma peak_size: "rb_inv rb \<Longrightarrow> rt_ringbuffer_peak rb = (m, p, rb') \<Longrightarrow> buffer_size rb' = buffer_size rb"
  by (auto simp: rt_ringbuffer_peak_def Let_def split: if_splits)

lemma rb_exec_stream:
  assumes inv: "rb_inv rb"
  shows "\<exists>i out rb'. rb_exec x rb = Some (i, out, rb') \<and> rb_inv rb' \<and> bsize rb' = bsize rb \<and>
           rb_contents rb @ i = out @ rb_contents rb'"
proof (cases x)
  case (BufPut xs)
  let ?n = "of_nat (length xs) :: u16"
  have n: "unat ?n \<le> length xs" by (simp add: unsigned_of_nat)
  have "unat ?n < 2 ^ LENGTH(16)" by (rule unsigned_less)
  then have "min (nat (bsize rb) - rb_len rb) (unat ?n) < 2 ^ LENGTH(64)" by simp
  then show ?thesis using put_spec[OF inv n] BufPut by (auto simp del: of_nat_min)
next
  case (BufGet n)
  have "min (rb_len rb) (unat n) < 2 ^ LENGTH(64)" using rb_len_small[OF inv] by simp
  then show ?thesis using get_spec[OF inv, of n "replicate (unat n) 0"] BufGet
    by (auto simp del: of_nat_min)
next
  case (ChPut ch)
  then show ?thesis using putchar_spec[OF inv, of ch] by auto
next
  case ChGet
  then show ?thesis using getchar_spec[OF inv] by auto
next
  case Peak
  obtain k rb' where k: "rt_ringbuffer_peak rb = (of_nat k, if k = 0 then None else Some (unat (read_index rb)), rb')"
    "k = min (rb_len rb) (nat (bsize rb) - unat (read_index rb))" "rb_inv rb'"
    "rb_contents rb' = drop k (rb_contents rb)"
    "take k (drop (unat (read_index rb)) (buffer_ptr rb)) = take k (rb_contents rb)"
    using peak_spec[OF inv] by blast
  have "unat (of_nat k :: rt_size_t) = k" using k(2) rb_len_small[OF inv] by (intro unat_of_nat_small) simp
  then show ?thesis using Peak k(1,3-5) peak_size[OF inv k(1)] by simp
qed

lemma rb_run_stream:
  "rb_inv rb \<Longrightarrow> \<exists>ins outs rb'. rb_run xs rb = Some (ins, outs, rb') \<and> rb_inv rb' \<and> bsize rb' = bsize rb \<and>
     rb_contents rb @ ins = outs @ rb_contents rb'"
proof (induction xs arbitrary: rb)
  case Nil
  then show ?case by simp
next
  case (Cons x xs)
  obtain i out rb1 where x: "rb_exec x rb = Some (i, out, rb1)" "rb_inv rb1" "bsize rb1 = bsize rb"
    "rb_contents rb @ i = out @ rb_contents rb1"
    using rb_exec_stream[OF Cons.prems] by blast
  obtain ins outs rb2 where xs: "rb_run xs rb1 = Some (ins, outs, rb2)" "rb_inv rb2" "bsize rb2 = bsize rb1"
    "rb_contents rb1 @ ins = outs @ rb_contents rb2"
    using Cons.IH[OF x(2)] by blast
  have "rb_contents rb @ i @ ins = (out @ outs) @ rb_contents rb2"
    using x(4) xs(4) by (metis append.assoc)
  then show ?case using x(1,3) xs(1-3) by simp
qed

section \<open>Properties\<close>

text \<open>
  C40. A byte stream: on a freshly initialised buffer, any sequence of bulk and single-byte writes,
  reads and peaks runs without leaving the pool, and the bytes delivered so far followed by the bytes
  still queued are exactly the bytes accepted, in order; never more than the (4-aligned) size is queued.
\<close>

theorem ringbuffer_stream:
  assumes "4 \<le> sint sz" "sint sz \<le> int (length pool)" "rt_ringbuffer_init pool sz = Some rb"
  shows "\<exists>ins outs rb'. rb_run xs rb = Some (ins, outs, rb') \<and> rb_inv rb' \<and> ins = outs @ rb_contents rb' \<and>
           int (length (rb_contents rb')) \<le> sint sz - sint sz mod 4"
proof -
  have i: "rb_inv rb" "rb_contents rb = []" "bsize rb = sint sz - sint sz mod 4"
    using init_spec[OF assms(1,2)] assms(3) by simp_all
  obtain ins outs rb' where r: "rb_run xs rb = Some (ins, outs, rb')" "rb_inv rb'" "bsize rb' = bsize rb"
    "rb_contents rb @ ins = outs @ rb_contents rb'"
    using rb_run_stream[OF i(1)] by blast
  have "int (length (rb_contents rb')) \<le> bsize rb'" using r(2) by (elim rb_invE) simp
  then show ?thesis using r i(2,3) by simp
qed

lemma ringbuffer_stream_witness:
  "\<exists>ins outs rb'. rb_run [BufPut [1, 2, 3, 4], ChGet, ChPut 5, BufGet 3]
      \<lparr>buffer_ptr = replicate 5 0, read_mirror = 0, read_index = 0, write_mirror = 0, write_index = 0,
       buffer_size = 4\<rparr> = Some (ins, outs, rb') \<and> rb_inv rb' \<and> ins = outs @ rb_contents rb' \<and>
      int (length (rb_contents rb')) \<le> 4"
  using ringbuffer_stream[of 5 "replicate 5 0"
      "\<lparr>buffer_ptr = replicate 5 0, read_mirror = 0, read_index = 0, write_mirror = 0, write_index = 0,
       buffer_size = 4\<rparr>" "[BufPut [1, 2, 3, 4], ChGet, ChPut 5, BufGet 3]"]
  by (simp add: rt_ringbuffer_init_def)

text \<open>
  The whole size is usable: an empty buffer accepts, byte by byte, as many bytes as its size,
  and reading the same number of times gives them back in order and empties it.
\<close>

theorem ringbuffer_fill_and_drain:
  assumes "rb_inv rb" "rb_contents rb = []" "length xs \<le> nat (bsize rb)"
  shows "\<exists>full rb'. rb_fifo.run (map Put xs) rb = (xs, [], full) \<and>
           rb_fifo.run (replicate (length xs) Get) full = ([], xs, rb') \<and> rb_contents rb' = []"
proof -
  obtain full where f: "rb_fifo.run (map Put xs) rb = (xs, [], full)" "rb_inv full" "rb_contents full = xs"
    using rb_fifo.run_puts[OF assms(1), of xs] assms(2,3) by auto
  then show ?thesis using rb_fifo.run_gets[OF f(2,3)] by auto
qed

definition rb_sample :: "u8 list \<Rightarrow> nat \<Rightarrow> rt_ringbuffer" where
  "rb_sample buf i = \<lparr>buffer_ptr = buf, read_mirror = 0, read_index = of_nat i, write_mirror = 0,
                      write_index = of_nat i, buffer_size = of_nat (length buf)\<rparr>"

lemma rb_sample_facts:
  "rb_inv (rb_sample [0, 0, 0, 0] 3)" "rb_contents (rb_sample [0, 0, 0, 0] 3) = []"
  "bsize (rb_sample [0, 0, 0, 0] 3) = 4"
  by (simp_all add: rb_sample_def rb_inv_def rb_contents_def rb_len_def)

lemma ringbuffer_fill_and_drain_witness:
  "\<exists>full rb'. rb_fifo.run (map Put [1, 2, 3, 4]) (rb_sample [0, 0, 0, 0] 3) = ([1, 2, 3, 4], [], full) \<and>
     rb_fifo.run (replicate 4 Get) full = ([], [1, 2, 3, 4], rb') \<and> rb_contents rb' = []"
  using ringbuffer_fill_and_drain[OF rb_sample_facts(1,2), of "[1, 2, 3, 4]"]
  unfolding rb_sample_facts(3) by (simp add: numeral_eq_Suc)

text \<open>
  C3. A forced write keeps the newest bytes: outside the wrapped overrun, \<open>rt_ringbuffer_put_force\<close>
  leaves exactly the last \<open>buffer_size\<close> bytes of the old contents followed by the written ones.
\<close>

theorem ringbuffer_put_force_newest:
  assumes "rb_inv rb" "unat len \<le> length ptr" "\<not> force_wraps_over rb len"
  shows "\<exists>rb'. rt_ringbuffer_put_force rb ptr len = Some (of_nat (min (nat (bsize rb)) (unat len)), rb') \<and>
           rb_inv rb' \<and>
           rb_contents rb' = (let all = rb_contents rb @ take (unat len) ptr
                              in drop (length all - nat (bsize rb)) all)"
proof -
  have "rb_len rb \<le> nat (bsize rb)" using assms(1) by (elim rb_invE) simp
  then show ?thesis
    using put_force_cases[OF assms(1,2)] assms(3)
      newest_suffix[of "rb_contents rb" "nat (bsize rb)" _ "unat len" ptr, OF _ refl assms(2)]
    by (simp add: Let_def)
qed

lemma rb_sample_no_wrap: "\<not> force_wraps_over (rb_sample [0, 0, 0, 0] 3) 1"
  using rb_sample_facts(2,3) by (simp add: force_wraps_over_def Let_def flip: length_rb_contents)

lemma ringbuffer_put_force_newest_witness:
  "\<exists>rb'. rt_ringbuffer_put_force (rb_sample [0, 0, 0, 0] 3) [7] 1 = Some (1, rb') \<and> rb_inv rb' \<and>
     rb_contents rb' = [7]"
  using ringbuffer_put_force_newest[OF rb_sample_facts(1) _ rb_sample_no_wrap, of "[7]"]
  unfolding rb_sample_facts by simp

definition rb_wrapped :: rt_ringbuffer where
  "rb_wrapped = \<lparr>buffer_ptr = [5, 6, 7, 0], read_mirror = 0, read_index = 0, write_mirror = 0,
                 write_index = 3, buffer_size = 4\<rparr>"

lemma rb_wrapped_facts:
  "rb_inv rb_wrapped" "rb_contents rb_wrapped = [5, 6, 7]" "force_wraps_over rb_wrapped 2" "bsize rb_wrapped = 4"
  by (simp_all add: rb_wrapped_def rb_inv_def rb_contents_def rb_len_def circ_def force_wraps_over_def upt_rec)

text \<open>
  The wrapped overrun loses everything: when the mirrors are equal and a forced write both wraps
  around and overruns unread bytes, both mirror bits are flipped, so the buffer reads as empty and
  neither the old nor the newly written bytes can be read back.
\<close>

theorem ringbuffer_put_force_loses_all:
  assumes "rb_inv rb" "unat len \<le> length ptr" "force_wraps_over rb len"
  shows "\<exists>rb'. rt_ringbuffer_put_force rb ptr len = Some (of_nat (min (nat (bsize rb)) (unat len)), rb') \<and>
           rb_inv rb' \<and> rt_ringbuffer_status rb' = RT_RINGBUFFER_EMPTY \<and> rt_ringbuffer_data_len rb' = 0 \<and>
           rt_ringbuffer_getchar rb' = Some (0, None, rb')"
proof -
  obtain rb' where r: "rt_ringbuffer_put_force rb ptr len = Some (of_nat (min (nat (bsize rb)) (unat len)), rb')"
    "rb_inv rb'" "rb_contents rb' = []"
    using put_force_cases[OF assms(1,2)] assms(3) by auto
  then have z: "rb_len rb' = 0" by (metis length_rb_contents list.size(3))
  then have d: "rt_ringbuffer_data_len rb' = 0" using data_len_eq[OF r(2)] by simp
  moreover have "rt_ringbuffer_status rb' = RT_RINGBUFFER_EMPTY"
    using r(2) z by (elim rb_invE) (auto simp: rt_ringbuffer_status_def split: if_splits)
  ultimately show ?thesis using r(1,2) by (simp add: rt_ringbuffer_getchar_def)
qed

lemma ringbuffer_put_force_loses_all_witness:
  "\<exists>rb rb'. rb_contents rb = [5, 6, 7] \<and> rt_ringbuffer_put_force rb [1, 2] 2 = Some (2, rb') \<and>
     rt_ringbuffer_status rb' = RT_RINGBUFFER_EMPTY"
proof -
  have "\<exists>rb'. rt_ringbuffer_put_force rb_wrapped [1, 2] 2 = Some (2, rb') \<and> rb_inv rb' \<and>
     rt_ringbuffer_status rb' = RT_RINGBUFFER_EMPTY \<and> rt_ringbuffer_data_len rb' = 0 \<and>
     rt_ringbuffer_getchar rb' = Some (0, None, rb')"
    using ringbuffer_put_force_loses_all[OF rb_wrapped_facts(1) _ rb_wrapped_facts(3), of "[1, 2]"]
    unfolding rb_wrapped_facts(4) by simp
  then show ?thesis using rb_wrapped_facts(2) by blast
qed

text \<open>
  C5. A forced single byte: \<open>rt_ringbuffer_putchar_force\<close> always succeeds and discards exactly the
  oldest byte, and only when the buffer is full.
\<close>

theorem ringbuffer_putchar_force_newest:
  assumes "rb_inv rb"
  shows "\<exists>rb'. rt_ringbuffer_putchar_force rb ch = Some (1, rb') \<and> rb_inv rb' \<and>
     rb_contents rb' =
       (if length (rb_contents rb) = nat (bsize rb) then tl (rb_contents rb) else rb_contents rb) @ [ch]"
  using putchar_force_cases[OF assms, of ch] by simp

lemma ringbuffer_putchar_force_newest_witness:
  "\<exists>rb'. rt_ringbuffer_putchar_force (rb_sample [0, 0, 0, 0] 3) 9 = Some (1, rb') \<and> rb_contents rb' = [9]"
  using ringbuffer_putchar_force_newest[OF rb_sample_facts(1), of 9]
  unfolding rb_sample_facts by (simp, blast)

end
