(* ===== verification/RT_Bits.thy ===== *)
theory RT_Bits
  imports RT_Prelude
begin

text \<open>
  \<open>__rt_ffs\<close> of \<open>src/rt-thread/src/kservice.c\<close>: find-first-set through a 256-entry table, the
  routine the scheduler selects the highest priority with. It is proved equal to the least set bit;
  the bitmap facts the scheduler needs (set and clear one bit, the least bit) are here too.
\<close>

unbundle bit_operations_syntax

definition lowest_bit_bitmap :: "nat list" where
  "lowest_bit_bitmap =
   [0, 0, 1, 0, 2, 0, 1, 0, 3, 0, 1, 0, 2, 0, 1, 0,
    4, 0, 1, 0, 2, 0, 1, 0, 3, 0, 1, 0, 2, 0, 1, 0,
    5, 0, 1, 0, 2, 0, 1, 0, 3, 0, 1, 0, 2, 0, 1, 0,
    4, 0, 1, 0, 2, 0, 1, 0, 3, 0, 1, 0, 2, 0, 1, 0,
    6, 0, 1, 0, 2, 0, 1, 0, 3, 0, 1, 0, 2, 0, 1, 0,
    4, 0, 1, 0, 2, 0, 1, 0, 3, 0, 1, 0, 2, 0, 1, 0,
    5, 0, 1, 0, 2, 0, 1, 0, 3, 0, 1, 0, 2, 0, 1, 0,
    4, 0, 1, 0, 2, 0, 1, 0, 3, 0, 1, 0, 2, 0, 1, 0,
    7, 0, 1, 0, 2, 0, 1, 0, 3, 0, 1, 0, 2, 0, 1, 0,
    4, 0, 1, 0, 2, 0, 1, 0, 3, 0, 1, 0, 2, 0, 1, 0,
    5, 0, 1, 0, 2, 0, 1, 0, 3, 0, 1, 0, 2, 0, 1, 0,
    4, 0, 1, 0, 2, 0, 1, 0, 3, 0, 1, 0, 2, 0, 1, 0,
    6, 0, 1, 0, 2, 0, 1, 0, 3, 0, 1, 0, 2, 0, 1, 0,
    4, 0, 1, 0, 2, 0, 1, 0, 3, 0, 1, 0, 2, 0, 1, 0,
    5, 0, 1, 0, 2, 0, 1, 0, 3, 0, 1, 0, 2, 0, 1, 0,
    4, 0, 1, 0, 2, 0, 1, 0, 3, 0, 1, 0, 2, 0, 1, 0]"

text \<open>The \<open>int\<close> argument is the 32-bit group: the masks select the byte, the shifts are logical.\<close>

definition rt_ffs :: "u32 \<Rightarrow> nat" where
  "rt_ffs value =
     (if value = 0 then 0
      else if value AND 0xff \<noteq> 0 then lowest_bit_bitmap ! unat (value AND 0xff) + 1
      else if value AND 0xff00 \<noteq> 0 then lowest_bit_bitmap ! unat (drop_bit 8 (value AND 0xff00)) + 9
      else if value AND 0xff0000 \<noteq> 0 then lowest_bit_bitmap ! unat (drop_bit 16 (value AND 0xff0000)) + 17
      else lowest_bit_bitmap ! unat (drop_bit 24 (value AND 0xff000000)) + 25)"

section \<open>The table holds the least set bit of every byte\<close>

text \<open>The table is the ruler sequence: each doubling repeats it and names the new bit in the middle.\<close>

primrec ruler :: "nat \<Rightarrow> nat list" where
  "ruler 0 = [0]"
| "ruler (Suc k) = ruler k @ k # tl (ruler k)"

lemma length_ruler [simp]: "length (ruler k) = 2 ^ k"
  by (induction k) auto

lemma table_is_ruler: "lowest_bit_bitmap = ruler 8"
  by code_simp

definition least_bit :: "nat \<Rightarrow> (nat \<Rightarrow> bool) \<Rightarrow> bool" where
  "least_bit k b \<longleftrightarrow> b k \<and> (\<forall>j<k. \<not> b j)"

lemma ruler_least: "0 < i \<Longrightarrow> i < 2 ^ k \<Longrightarrow> ruler k ! i < k \<and> least_bit (ruler k ! i) (bit i)"
proof (induction k arbitrary: i)
  case 0
  then show ?case by simp
next
  case (Suc k)
  have low: "bit (2 ^ k + i') j = bit i' j" if "j < k" for i' j :: nat
  proof -
    have "(2::nat) ^ k = 2 ^ (k - j) * 2 ^ j" using that by (simp flip: power_add)
    then have "(2 ^ k + i') div 2 ^ j = 2 ^ (k - j) + i' div 2 ^ j" by simp
    then show ?thesis using that by (simp add: bit_iff_odd)
  qed
  show ?case
  proof (cases "i < 2 ^ k")
    case True
    then show ?thesis using Suc by (simp add: nth_append less_SucI)
  next
    case False
    then obtain i' where i: "i = 2 ^ k + i'" by (metis le_Suc_ex not_less)
    show ?thesis
    proof (cases "i' = 0")
      case True
      then show ?thesis using i by (simp add: nth_append least_bit_def bit_simps)
    next
      case nz: False
      then have "i' < 2 ^ k" "ruler (Suc k) ! i = ruler k ! i'"
        using i Suc.prems by (auto simp: nth_append nth_tl gr0_conv_Suc)
      then show ?thesis using Suc.IH[of i'] nz low i by (simp add: least_bit_def)
    qed
  qed
qed

section \<open>\<open>__rt_ffs\<close> is the least set bit, counted from one\<close>

lemma byte_masks:
  "(0xff :: u32) = mask 8" "(0xff00 :: u32) = push_bit 8 (mask 8)" "(0xff0000 :: u32) = push_bit 16 (mask 8)"
  "(0xff000000 :: u32) = push_bit 24 (mask 8)"
  by (simp_all add: mask_eq_exp_minus_1 push_bit_eq_mult)

definition byte_at :: "nat \<Rightarrow> u32 \<Rightarrow> u32" where
  "byte_at b w = take_bit 8 (drop_bit b w)"

lemma byte_parts:
  "w AND 0xff = byte_at 0 w" "drop_bit 8 (w AND 0xff00) = byte_at 8 w"
  "drop_bit 16 (w AND 0xff0000) = byte_at 16 w" "drop_bit 24 (w AND 0xff000000) = byte_at 24 w"
  by (rule bit_word_eqI, auto simp: byte_masks byte_at_def bit_simps)+

lemma word32_zero: "(x :: u32) = 0 \<longleftrightarrow> (\<forall>n<32. \<not> bit x n)"
  by (simp add: bit_eq_iff)

lemma byte_zero:
  fixes w :: u32
  shows "w AND 0xff = 0 \<longleftrightarrow> (\<forall>j<8. \<not> bit w j)"
    "w AND 0xff00 = 0 \<longleftrightarrow> (\<forall>j\<in>{8..<16}. \<not> bit w j)"
    "w AND 0xff0000 = 0 \<longleftrightarrow> (\<forall>j\<in>{16..<24}. \<not> bit w j)"
proof -
  have b: "bit (w AND 0xff) n \<longleftrightarrow> n < 8 \<and> bit w n" "bit (w AND 0xff00) n \<longleftrightarrow> 8 \<le> n \<and> n < 16 \<and> bit w n"
    "bit (w AND 0xff0000) n \<longleftrightarrow> 16 \<le> n \<and> n < 24 \<and> bit w n" for n
    by (auto simp: byte_masks bit_simps)
  show "w AND 0xff = 0 \<longleftrightarrow> (\<forall>j<8. \<not> bit w j)"
    "w AND 0xff00 = 0 \<longleftrightarrow> (\<forall>j\<in>{8..<16}. \<not> bit w j)"
    "w AND 0xff0000 = 0 \<longleftrightarrow> (\<forall>j\<in>{16..<24}. \<not> bit w j)"
    unfolding word32_zero b by fastforce+
qed

lemma byte_bits: "j < 8 \<Longrightarrow> b + 8 \<le> 32 \<Longrightarrow> bit (unat (byte_at b w)) j = bit w (b + j)"
  by (simp add: byte_at_def bit_simps bit_unsigned_iff)

lemma byte_least:
  assumes "b + 8 \<le> 32" and low: "\<forall>j<b. \<not> bit w j" and nz: "\<exists>j\<in>{b..<b + 8}. bit w j"
  shows "\<exists>k<32. lowest_bit_bitmap ! unat (byte_at b w) + b = k \<and> least_bit k (bit w)"
proof -
  let ?v = "unat (byte_at b w)"
  obtain j where "j < 8" "bit w (b + j)" using nz by (metis atLeastLessThan_iff le_Suc_ex nat_add_left_cancel_less)
  then have "bit ?v j" using byte_bits assms(1) by simp
  then have "0 < ?v" by (cases "?v = 0") auto
  moreover have "?v < 2 ^ 8"
    unfolding byte_at_def unsigned_take_bit_eq by (simp add: take_bit_eq_mod)
  ultimately have "ruler 8 ! ?v < 8" "least_bit (ruler 8 ! ?v) (bit ?v)" using ruler_least by blast+
  then have "least_bit (ruler 8 ! ?v + b) (bit w)"
    using low byte_bits[OF _ assms(1), of _ w] unfolding least_bit_def
    by (metis add.commute le_add_diff_inverse2 less_diff_conv2 less_trans not_less)
  then show ?thesis using \<open>ruler 8 ! ?v < 8\<close> assms(1) by (simp add: table_is_ruler)
qed

lemma rt_ffs_least: "w \<noteq> 0 \<Longrightarrow> \<exists>k<32. rt_ffs w = k + 1 \<and> least_bit k (bit w)"
proof -
  assume w: "w \<noteq> 0"
  consider (b0) "w AND 0xff \<noteq> 0" | (b1) "w AND 0xff = 0" "w AND 0xff00 \<noteq> 0"
    | (b2) "w AND 0xff = 0" "w AND 0xff00 = 0" "w AND 0xff0000 \<noteq> 0"
    | (b3) "w AND 0xff = 0" "w AND 0xff00 = 0" "w AND 0xff0000 = 0" by blast
  then show ?thesis
  proof cases
    case b0
    then have "\<exists>j\<in>{0..<8}. bit w j" by (auto simp: byte_zero)
    moreover have "rt_ffs w = lowest_bit_bitmap ! unat (byte_at 0 w) + 1"
      unfolding rt_ffs_def byte_parts(1) using b0[unfolded byte_parts(1)] w by simp
    ultimately show ?thesis using byte_least[of 0 w] by auto
  next
    case b1
    then have "\<forall>j<8. \<not> bit w j" "\<exists>j\<in>{8..<16}. bit w j" by (simp_all add: byte_zero)
    moreover have "rt_ffs w = lowest_bit_bitmap ! unat (byte_at 8 w) + 9"
      unfolding rt_ffs_def byte_parts(2) using b1 w by simp
    ultimately show ?thesis using byte_least[of 8 w] by (auto simp: add.commute)
  next
    case b2
    then have "\<forall>j<8. \<not> bit w j" "\<forall>j\<in>{8..<16}. \<not> bit w j" "\<exists>j\<in>{16..<24}. bit w j" by (simp_all add: byte_zero)
    moreover from this have "\<forall>j<16. \<not> bit w j" by (metis atLeastLessThan_iff not_less)
    moreover have "rt_ffs w = lowest_bit_bitmap ! unat (byte_at 16 w) + 17"
      unfolding rt_ffs_def byte_parts(3) using b2 w by simp
    ultimately show ?thesis using byte_least[of 16 w] by (auto simp: add.commute)
  next
    case b3
    then have "\<forall>j<8. \<not> bit w j" "\<forall>j\<in>{8..<16}. \<not> bit w j" "\<forall>j\<in>{16..<24}. \<not> bit w j" by (simp_all add: byte_zero)
    then have low: "\<forall>j<24. \<not> bit w j" by (metis atLeastLessThan_iff not_less)
    obtain j where j: "bit w j" using w by (metis bit_eq_iff bit_0_eq bot_apply bot_bool_def)
    then have "j < 32" using bit_imp_le_length[OF j] by simp
    then have "\<exists>j\<in>{24..<32}. bit w j" using low j by (metis atLeastLessThan_iff not_less)
    moreover have "rt_ffs w = lowest_bit_bitmap ! unat (byte_at 24 w) + 25"
      unfolding rt_ffs_def byte_parts(4) using b3 w by simp
    ultimately show ?thesis using byte_least[of 24 w] low by (auto simp: add.commute)
  qed
qed

section \<open>One bit per priority\<close>

lemma bit_prio_mask: "p < 32 \<Longrightarrow> bit (push_bit p 1 :: u32) q \<longleftrightarrow> q = p"
  by (auto simp: bit_simps bit_1_iff)

lemma least_bit_unique: "least_bit k b \<Longrightarrow> least_bit k' b \<Longrightarrow> k = k'"
  unfolding least_bit_def by (metis nat_neq_iff)

lemma least_bit_le: "least_bit k b \<Longrightarrow> b j \<Longrightarrow> k \<le> j"
  unfolding least_bit_def by (meson not_less)

text \<open>
  The table lookup is find-first-set: zero for zero, and otherwise one more than the position of
  the least significant set bit, for every 32-bit argument.
\<close>

theorem rt_ffs_correct:
  "if w = 0 then rt_ffs w = 0 else \<exists>k<32. rt_ffs w = k + 1 \<and> bit w k \<and> (\<forall>j<k. \<not> bit w j)"
  using rt_ffs_least[of w] by (auto simp: rt_ffs_def least_bit_def)

lemma rt_ffs_correct_witness:
  "\<exists>k<32. rt_ffs 80 = k + 1 \<and> bit (80 :: 32 word) k \<and> (\<forall>j<k. \<not> bit (80 :: 32 word) j)"
  using rt_ffs_correct[of 80] by simp

end
