(* ===== verification/RT_Sched.thy ===== *)
theory RT_Sched
  imports RT_Bits "HOL-Library.Multiset"
begin

text \<open>
  \<open>src/rt-thread/src/scheduler.c\<close>, the uniprocessor scheduler (\<open>RT_USING_SMP\<close> is not configured):
  32 ready lists, the ready bitmap, the current thread and the scheduler lock. Threads are numbers;
  the thread lists of the kernel are one store from list heads to the threads linked there, so that
  \<open>rt_list_remove(&thread->tlist)\<close> takes the thread out of whichever list holds it (the pointer
  lists themselves are treated in \<open>RT_List\<close>). Interrupts are disabled around every operation here,
  so each is one atomic step.
\<close>

section \<open>State\<close>

type_synonym tid = nat

text \<open>
  The heads threads are linked to: the ready lists, the \<open>suspend_thread\<close> list of every IPC object, the
  \<open>suspend_sender_thread\<close> list of mailboxes and message queues, and the defunct list.
\<close>

datatype ipc_id = Sem nat | Mutex nat | Event nat | Mailbox nat | MsgQueue nat | MemPool nat | DataQueue nat | Completion nat

datatype rt_list_head = Ready nat | Suspended ipc_id | Senders ipc_id | Defunct

record rt_thread =
  stat :: u8
  current_priority :: u8
  init_priority :: u8
  number_mask :: u32
  error :: int
  event_set :: u32
  event_info :: u8
  init_tick :: u64
  remaining_tick :: u64
  static_object :: bool

record sched =
  tcb :: "tid \<Rightarrow> rt_thread"
  queues :: "rt_list_head \<Rightarrow> tid list"
  ready_priority_group :: u32
  current_thread :: "tid option"
  current_prio :: u8
  scheduler_lock_nest :: "16 word"
  interrupt_nest :: u8

abbreviation RT_THREAD_INIT :: u8 where "RT_THREAD_INIT \<equiv> 0"
abbreviation RT_THREAD_READY :: u8 where "RT_THREAD_READY \<equiv> 1"
abbreviation RT_THREAD_SUSPEND :: u8 where "RT_THREAD_SUSPEND \<equiv> 2"
abbreviation RT_THREAD_RUNNING :: u8 where "RT_THREAD_RUNNING \<equiv> 3"
abbreviation RT_THREAD_CLOSE :: u8 where "RT_THREAD_CLOSE \<equiv> 4"
abbreviation RT_THREAD_STAT_MASK :: u8 where "RT_THREAD_STAT_MASK \<equiv> 7"
abbreviation RT_THREAD_STAT_YIELD :: u8 where "RT_THREAD_STAT_YIELD \<equiv> 8"

abbreviation RT_THREAD_PRIORITY_MAX :: nat where "RT_THREAD_PRIORITY_MAX \<equiv> 32"

text \<open>The state proper, the low three bits of \<open>stat\<close>; and the assignment \<open>v | (stat & ~MASK)\<close>.\<close>

definition st :: "'a sched_scheme \<Rightarrow> tid \<Rightarrow> u8" where
  "st s t = stat (tcb s t) AND RT_THREAD_STAT_MASK"

definition prio :: "'a sched_scheme \<Rightarrow> tid \<Rightarrow> nat" where
  "prio s t = unat (current_priority (tcb s t))"

definition upd_tcb :: "tid \<Rightarrow> (rt_thread \<Rightarrow> rt_thread) \<Rightarrow> 'a sched_scheme \<Rightarrow> 'a sched_scheme" where
  "upd_tcb t f s = s\<lparr>tcb := (tcb s)(t := f (tcb s t))\<rparr>"

definition set_stat :: "u8 \<Rightarrow> rt_thread \<Rightarrow> rt_thread" where
  "set_stat v th = th\<lparr>stat := v OR (stat th AND NOT RT_THREAD_STAT_MASK)\<rparr>"

text \<open>
  The four list operations of \<open>include/rtservice.h\<close> the kernel uses on thread lists: append before
  the head, insert before a member, unlink.
\<close>

definition list_append :: "rt_list_head \<Rightarrow> tid \<Rightarrow> 'a sched_scheme \<Rightarrow> 'a sched_scheme" where
  "list_append l t s = s\<lparr>queues := (queues s)(l := queues s l @ [t])\<rparr>"

definition list_unlink :: "tid \<Rightarrow> 'a sched_scheme \<Rightarrow> 'a sched_scheme" where
  "list_unlink t s = s\<lparr>queues := \<lambda>l. removeAll t (queues s l)\<rparr>"

section \<open>Operations\<close>

text \<open>
  \<open>_get_highest_priority_thread\<close>: \<open>None\<close> when the list the bitmap names is empty (the code would
  then use the list head itself as a thread).
\<close>

definition get_highest_priority_thread :: "'a sched_scheme \<Rightarrow> (tid \<times> nat) option" where
  "get_highest_priority_thread s =
     (let highest_ready_priority = rt_ffs (ready_priority_group s) - 1 in
      case queues s (Ready highest_ready_priority) of
        [] \<Rightarrow> None
      | t # _ \<Rightarrow> Some (t, highest_ready_priority))"

definition rt_system_scheduler_init :: "'a sched_scheme \<Rightarrow> 'a sched_scheme" where
  "rt_system_scheduler_init s =
     s\<lparr>scheduler_lock_nest := 0,
       queues := \<lambda>l. (case l of Ready p \<Rightarrow> if p < RT_THREAD_PRIORITY_MAX then [] else queues s l
                            | Defunct \<Rightarrow> [] | _ \<Rightarrow> queues s l),
       ready_priority_group := 0\<rparr>"

definition rt_schedule_insert_thread :: "tid \<Rightarrow> 'a sched_scheme \<Rightarrow> 'a sched_scheme" where
  "rt_schedule_insert_thread t s =
     (if current_thread s = Some t then upd_tcb t (set_stat RT_THREAD_RUNNING) s
      else let s1 = upd_tcb t (set_stat RT_THREAD_READY) s;
               s2 = list_append (Ready (prio s1 t)) t s1
           in s2\<lparr>ready_priority_group := ready_priority_group s2 OR number_mask (tcb s2 t)\<rparr>)"

definition rt_schedule_remove_thread :: "tid \<Rightarrow> 'a sched_scheme \<Rightarrow> 'a sched_scheme" where
  "rt_schedule_remove_thread t s =
     (let s1 = list_unlink t s in
      if queues s1 (Ready (prio s1 t)) = []
      then s1\<lparr>ready_priority_group := ready_priority_group s1 AND NOT (number_mask (tcb s1 t))\<rparr> else s1)"

definition rt_system_scheduler_start :: "'a sched_scheme \<Rightarrow> 'a sched_scheme option" where
  "rt_system_scheduler_start s =
     do { (to_thread, hp) \<leftarrow> get_highest_priority_thread s;
          let s1 = s\<lparr>current_thread := Some to_thread\<rparr>;
          let s2 = rt_schedule_remove_thread to_thread s1;
          Some (upd_tcb to_thread (\<lambda>th. th\<lparr>stat := RT_THREAD_RUNNING\<rparr>) s2) }"

text \<open>
  \<open>rt_schedule\<close>. The context switch itself is assembly: what it changes of the kernel's state is the
  current thread. The control flow that follows in the switched-out thread belongs to its caller.
\<close>

definition rt_schedule :: "'a sched_scheme \<Rightarrow> 'a sched_scheme option" where
  "rt_schedule s =
     (if scheduler_lock_nest s = 0 \<and> ready_priority_group s \<noteq> 0
      then do { (ready, highest_ready_priority) \<leftarrow> get_highest_priority_thread s;
                c \<leftarrow> current_thread s;
                let running = (st s c = RT_THREAD_RUNNING);
                let stay = (running \<and> (prio s c < highest_ready_priority \<or>
                              prio s c = highest_ready_priority \<and>
                                stat (tcb s c) AND RT_THREAD_STAT_YIELD = 0));
                let to_thread = (if stay then c else ready);
                let need_insert_from_thread = (running \<and> \<not> stay);
                let s1 = (if running
                          then upd_tcb c (\<lambda>th. th\<lparr>stat := stat th AND NOT RT_THREAD_STAT_YIELD\<rparr>) s else s);
                Some (if to_thread \<noteq> c
                      then let s2 = s1\<lparr>current_prio := of_nat highest_ready_priority,
                                       current_thread := Some to_thread\<rparr>;
                               s3 = (if need_insert_from_thread then rt_schedule_insert_thread c s2 else s2);
                               s4 = rt_schedule_remove_thread to_thread s3
                           in upd_tcb to_thread (set_stat RT_THREAD_RUNNING) s4
                      else upd_tcb c (set_stat RT_THREAD_RUNNING) (rt_schedule_remove_thread c s1)) }
      else Some s)"

definition rt_enter_critical :: "'a sched_scheme \<Rightarrow> 'a sched_scheme" where
  "rt_enter_critical s = s\<lparr>scheduler_lock_nest := scheduler_lock_nest s + 1\<rparr>"

definition rt_exit_critical :: "'a sched_scheme \<Rightarrow> 'a sched_scheme option" where
  "rt_exit_critical s =
     (let s1 = s\<lparr>scheduler_lock_nest := scheduler_lock_nest s - 1\<rparr> in
      if sint (scheduler_lock_nest s1) \<le> 0
      then let s2 = s1\<lparr>scheduler_lock_nest := 0\<rparr> in
           if current_thread s2 \<noteq> None then rt_schedule s2 else Some s2
      else Some s1)"

definition rt_critical_level :: "'a sched_scheme \<Rightarrow> u16" where
  "rt_critical_level s = scheduler_lock_nest s"

section \<open>What the primitives change\<close>

lemma set_stat_low [simp]: "v AND 7 = v \<Longrightarrow> stat (set_stat v th) AND 7 = v"
proof -
  assume v: "v AND 7 = v"
  have "(v OR (stat th AND NOT 7)) AND 7 = (v AND 7) OR (stat th AND (NOT 7 AND 7))"
    by (simp add: bit.conj_disj_distrib2 and.assoc)
  then show ?thesis using v by (simp add: set_stat_def)
qed

lemma set_stat_fields [simp]:
  "current_priority (set_stat v th) = current_priority th" "number_mask (set_stat v th) = number_mask th"
  "init_priority (set_stat v th) = init_priority th" "error (set_stat v th) = error th"
  "event_set (set_stat v th) = event_set th" "event_info (set_stat v th) = event_info th"
  "init_tick (set_stat v th) = init_tick th" "remaining_tick (set_stat v th) = remaining_tick th"
  "static_object (set_stat v th) = static_object th"
  by (simp_all add: set_stat_def)

lemma clear_yield_low [simp]: "(x AND - 9) AND 7 = x AND (7 :: u8)"
proof -
  have "(x AND - 9) AND 7 = x AND (- 9 AND 7)" by (rule and.assoc)
  then show ?thesis by simp
qed

text \<open>
  Observations of the scheduler state after each primitive: the state, priority and mask of a thread,
  the current thread and the lists.
\<close>

lemma upd_tcb_obs [simp]:
  "tcb (upd_tcb t f s) u = (if u = t then f (tcb s t) else tcb s u)"
  "queues (upd_tcb t f s) = queues s" "ready_priority_group (upd_tcb t f s) = ready_priority_group s"
  "current_thread (upd_tcb t f s) = current_thread s" "scheduler_lock_nest (upd_tcb t f s) = scheduler_lock_nest s"
  "interrupt_nest (upd_tcb t f s) = interrupt_nest s" "current_prio (upd_tcb t f s) = current_prio s"
  by (simp_all add: upd_tcb_def)

lemma st_upd_tcb: "st (upd_tcb t f s) u = (if u = t then stat (f (tcb s t)) AND 7 else st s u)"
  by (simp add: st_def)

lemma prio_upd_tcb: "prio (upd_tcb t f s) u = (if u = t then unat (current_priority (f (tcb s t))) else prio s u)"
  by (simp add: prio_def)

lemma list_unlink_obs [simp]:
  "tcb (list_unlink t s) = tcb s" "queues (list_unlink t s) l = removeAll t (queues s l)"
  "ready_priority_group (list_unlink t s) = ready_priority_group s"
  "current_thread (list_unlink t s) = current_thread s"
  "scheduler_lock_nest (list_unlink t s) = scheduler_lock_nest s"
  "interrupt_nest (list_unlink t s) = interrupt_nest s" "current_prio (list_unlink t s) = current_prio s"
  by (simp_all add: list_unlink_def)

lemma list_append_obs [simp]:
  "tcb (list_append l t s) = tcb s" "queues (list_append l t s) l' = (if l' = l then queues s l @ [t] else queues s l')"
  "ready_priority_group (list_append l t s) = ready_priority_group s"
  "current_thread (list_append l t s) = current_thread s"
  "scheduler_lock_nest (list_append l t s) = scheduler_lock_nest s"
  "interrupt_nest (list_append l t s) = interrupt_nest s" "current_prio (list_append l t s) = current_prio s"
  by (simp_all add: list_append_def)

lemma st_cong: "tcb s' t = tcb s t \<Longrightarrow> st s' t = st s t"
  by (simp add: st_def)

lemma prio_cong: "tcb s' t = tcb s t \<Longrightarrow> prio s' t = prio s t"
  by (simp add: prio_def)

lemma remove_obs [simp]:
  "tcb (rt_schedule_remove_thread t s) = tcb s"
  "queues (rt_schedule_remove_thread t s) l = removeAll t (queues s l)"
  "current_thread (rt_schedule_remove_thread t s) = current_thread s"
  "scheduler_lock_nest (rt_schedule_remove_thread t s) = scheduler_lock_nest s"
  "interrupt_nest (rt_schedule_remove_thread t s) = interrupt_nest s"
  "current_prio (rt_schedule_remove_thread t s) = current_prio s"
  by (simp_all add: rt_schedule_remove_thread_def Let_def)

lemma remove_st [simp]: "st (rt_schedule_remove_thread t s) = st s" "prio (rt_schedule_remove_thread t s) = prio s"
  by (auto simp: st_def prio_def fun_eq_iff)

lemma insert_obs [simp]:
  "tcb (rt_schedule_insert_thread t s) u =
     (if u = t then set_stat (if current_thread s = Some t then RT_THREAD_RUNNING else RT_THREAD_READY) (tcb s t)
      else tcb s u)"
  "queues (rt_schedule_insert_thread t s) l =
     (if l = Ready (prio s t) \<and> current_thread s \<noteq> Some t then queues s l @ [t] else queues s l)"
  "current_thread (rt_schedule_insert_thread t s) = current_thread s"
  "scheduler_lock_nest (rt_schedule_insert_thread t s) = scheduler_lock_nest s"
  "interrupt_nest (rt_schedule_insert_thread t s) = interrupt_nest s"
  "current_prio (rt_schedule_insert_thread t s) = current_prio s"
  by (auto simp: rt_schedule_insert_thread_def Let_def prio_def)

lemma insert_st:
  "st (rt_schedule_insert_thread t s) u =
     (if u = t then if current_thread s = Some t then RT_THREAD_RUNNING else RT_THREAD_READY else st s u)"
  by (simp add: st_def)

lemma insert_prio [simp]: "prio (rt_schedule_insert_thread t s) u = prio s u"
  by (simp add: prio_def)

lemma list_unlink_st [simp]: "st (list_unlink t s) = st s" "prio (list_unlink t s) = prio s"
  by (auto simp: st_def prio_def fun_eq_iff)

section \<open>Invariant\<close>

text \<open>
  The structural part, with a set \<open>X\<close> of threads in transit between lists: every thread is linked
  at most once, the ready lists hold exactly the ready threads at their priority, the bitmap marks the
  nonempty ready lists, and only suspended (closed) threads wait on objects (are defunct).
\<close>

definition prio_ok :: "rt_thread \<Rightarrow> bool" where
  "prio_ok th \<longleftrightarrow> unat (current_priority th) < 32 \<and> unat (init_priority th) < 32 \<and>
     (stat th AND 7 \<notin> {RT_THREAD_INIT, RT_THREAD_CLOSE} \<longrightarrow> number_mask th = 2 ^ unat (current_priority th))"

definition lists_inv :: "tid set \<Rightarrow> 'a sched_scheme \<Rightarrow> bool" where
  "lists_inv X s \<longleftrightarrow>
     (\<forall>l. distinct (queues s l)) \<and>
     (\<forall>l l' t. t \<in> set (queues s l) \<longrightarrow> t \<in> set (queues s l') \<longrightarrow> l = l') \<and>
     (\<forall>t. prio_ok (tcb s t)) \<and>
     (\<forall>l. \<forall>t \<in> X. t \<notin> set (queues s l)) \<and>
     (\<forall>t p. t \<notin> X \<longrightarrow> (t \<in> set (queues s (Ready p)) \<longleftrightarrow> st s t = RT_THREAD_READY \<and> prio s t = p)) \<and>
     (\<forall>p. bit (ready_priority_group s) p \<longleftrightarrow> queues s (Ready p) \<noteq> []) \<and>
     (\<forall>t i. t \<in> set (queues s (Suspended i)) \<or> t \<in> set (queues s (Senders i)) \<longrightarrow> st s t = RT_THREAD_SUSPEND) \<and>
     (\<forall>t. t \<in> set (queues s Defunct) \<longrightarrow> st s t = RT_THREAD_CLOSE)"

text \<open>The current thread is never queued as ready, and no other thread is running.\<close>

definition current_inv :: "'a sched_scheme \<Rightarrow> bool" where
  "current_inv s \<longleftrightarrow>
     (\<forall>c. current_thread s = Some c \<longrightarrow> st s c \<noteq> RT_THREAD_READY) \<and>
     (\<forall>t. st s t = RT_THREAD_RUNNING \<longrightarrow> current_thread s = Some t)"

definition sched_inv :: "'a sched_scheme \<Rightarrow> bool" where
  "sched_inv s \<longleftrightarrow> lists_inv {} s \<and> current_inv s"

lemma prio_ok_set_stat: "prio_ok th \<Longrightarrow> stat th AND 7 \<notin> {RT_THREAD_INIT, RT_THREAD_CLOSE} \<Longrightarrow> prio_ok (set_stat v th)"
  by (simp add: prio_ok_def)

lemma prio_ok_st: "lists_inv X s \<Longrightarrow> st s t \<notin> {RT_THREAD_INIT, RT_THREAD_CLOSE} \<Longrightarrow> prio_ok (set_stat v (tcb s t))"
  by (rule prio_ok_set_stat) (simp_all add: lists_inv_def st_def)

lemma lists_invI:
  assumes "\<And>l. distinct (queues s l)"
    "\<And>l l' t. t \<in> set (queues s l) \<Longrightarrow> t \<in> set (queues s l') \<Longrightarrow> l = l'"
    "\<And>t. prio_ok (tcb s t)"
    "\<And>l t. t \<in> X \<Longrightarrow> t \<notin> set (queues s l)"
    "\<And>t p. t \<notin> X \<Longrightarrow> t \<in> set (queues s (Ready p)) \<longleftrightarrow> st s t = RT_THREAD_READY \<and> prio s t = p"
    "\<And>p. bit (ready_priority_group s) p \<longleftrightarrow> queues s (Ready p) \<noteq> []"
    "\<And>t i. t \<in> set (queues s (Suspended i)) \<Longrightarrow> st s t = RT_THREAD_SUSPEND"
    "\<And>t i. t \<in> set (queues s (Senders i)) \<Longrightarrow> st s t = RT_THREAD_SUSPEND"
    "\<And>t. t \<in> set (queues s Defunct) \<Longrightarrow> st s t = RT_THREAD_CLOSE"
  shows "lists_inv X s"
  unfolding lists_inv_def using assms by blast

lemma lists_invD:
  assumes "lists_inv X s"
  shows lists_inv_distinct: "distinct (queues s l)"
    and lists_inv_unique: "t \<in> set (queues s l) \<Longrightarrow> t \<in> set (queues s l') \<Longrightarrow> l = l'"
    and lists_inv_prio: "prio_ok (tcb s t)"
    and lists_inv_transit: "t \<in> X \<Longrightarrow> t \<notin> set (queues s l)"
    and lists_inv_ready: "t \<notin> X \<Longrightarrow> t \<in> set (queues s (Ready p)) \<longleftrightarrow> st s t = RT_THREAD_READY \<and> prio s t = p"
    and lists_inv_bit: "bit (ready_priority_group s) p \<longleftrightarrow> queues s (Ready p) \<noteq> []"
    and lists_inv_suspended: "t \<in> set (queues s (Suspended i)) \<Longrightarrow> st s t = RT_THREAD_SUSPEND"
    and lists_inv_senders: "t \<in> set (queues s (Senders i)) \<Longrightarrow> st s t = RT_THREAD_SUSPEND"
    and lists_inv_defunct: "t \<in> set (queues s Defunct) \<Longrightarrow> st s t = RT_THREAD_CLOSE"
  using assms unfolding lists_inv_def by blast+

lemma ready_inX: "lists_inv X s \<Longrightarrow> t \<in> set (queues s (Ready p)) \<Longrightarrow> st s t = RT_THREAD_READY \<and> prio s t = p"
  using lists_inv_ready lists_inv_transit by metis

lemma inv_prio_less: "lists_inv X s \<Longrightarrow> prio s t < 32"
  using lists_inv_prio[of X s t] by (simp add: prio_ok_def prio_def)

lemma inv_mask: "lists_inv X s \<Longrightarrow> st s t \<notin> {RT_THREAD_INIT, RT_THREAD_CLOSE} \<Longrightarrow> number_mask (tcb s t) = 2 ^ prio s t"
  using lists_inv_prio[of X s t] by (simp add: prio_ok_def prio_def st_def)

text \<open>A thread in some list is ready, suspended or closed.\<close>

lemma linked_st:
  assumes "lists_inv X s" "t \<in> set (queues s l)"
  shows "st s t = RT_THREAD_READY \<or> st s t = RT_THREAD_SUSPEND \<or> st s t = RT_THREAD_CLOSE"
  using assms ready_inX[of X s t] lists_inv_suspended[of X s t] lists_inv_senders[of X s t] lists_inv_defunct[of X s t]
  by (cases l) auto

lemma bit_clear_prio:
  "p < 32 \<Longrightarrow> bit (g AND NOT (2 ^ p) :: u32) q \<longleftrightarrow> bit g q \<and> q \<noteq> p"
  by (auto simp: bit_simps bit_exp_iff dest: bit_imp_le_length)

lemma bit_set_prio: "p < 32 \<Longrightarrow> bit (g OR 2 ^ p :: u32) q \<longleftrightarrow> bit g q \<or> q = p"
  by (auto simp: bit_simps bit_exp_iff)

lemma remove_group:
  "ready_priority_group (rt_schedule_remove_thread t s) =
     (if removeAll t (queues s (Ready (prio s t))) = []
      then ready_priority_group s AND NOT (number_mask (tcb s t)) else ready_priority_group s)"
  by (simp add: rt_schedule_remove_thread_def Let_def prio_def)

lemma insert_group:
  "ready_priority_group (rt_schedule_insert_thread t s) =
     (if current_thread s = Some t then ready_priority_group s
      else ready_priority_group s OR number_mask (tcb s t))"
  by (simp add: rt_schedule_insert_thread_def Let_def)

lemma removeAll_empty_iff: "removeAll t xs = [] \<longleftrightarrow> set xs \<subseteq> {t}"
  by (induction xs) auto

text \<open>Unlinking puts a thread in transit.\<close>

lemma remove_inv:
  assumes inv: "lists_inv X s" and t: "st s t \<notin> {RT_THREAD_INIT, RT_THREAD_CLOSE}"
  shows "lists_inv (insert t X) (rt_schedule_remove_thread t s)"
proof (rule lists_invI)
  let ?s = "rt_schedule_remove_thread t s"
  fix p
  have m: "number_mask (tcb s t) = 2 ^ prio s t" by (rule inv_mask[OF inv t])
  have other: "queues ?s (Ready p) = queues s (Ready p)" if "p \<noteq> prio s t"
  proof -
    have "t \<notin> set (queues s (Ready p))" using ready_inX[OF inv, of t p] that by auto
    then show ?thesis by simp
  qed
  show "bit (ready_priority_group ?s) p \<longleftrightarrow> queues ?s (Ready p) \<noteq> []"
  proof (cases "p = prio s t")
    case True
    then show ?thesis
      using lists_inv_bit[OF inv, of p] inv_prio_less[OF inv, of t]
      by (auto simp: remove_group m bit_clear_prio)
  next
    case False
    then show ?thesis
      using lists_inv_bit[OF inv, of p] inv_prio_less[OF inv, of t] other
      by (auto simp: remove_group m bit_clear_prio)
  qed
qed (use inv in \<open>auto dest: lists_invD simp: lists_inv_ready intro!: distinct_removeAll intro: lists_inv_distinct\<close>)

text \<open>Unlinking a thread that is not ready needs no bitmap update.\<close>

lemma unlink_inv:
  assumes inv: "lists_inv X s" and t: "st s t \<noteq> RT_THREAD_READY"
  shows "lists_inv (insert t X) (list_unlink t s)"
proof (rule lists_invI)
  fix p
  have "t \<notin> set (queues s (Ready p))" using ready_inX[OF inv, of t p] t by auto
  then show "bit (ready_priority_group (list_unlink t s)) p \<longleftrightarrow> queues (list_unlink t s) (Ready p) \<noteq> []"
    using lists_inv_bit[OF inv, of p] by simp
qed (use inv in \<open>auto dest: lists_invD simp: lists_inv_ready list_unlink_st intro!: distinct_removeAll intro: lists_inv_distinct\<close>)

text \<open>Inserting ends the transit: the thread is running if it is the current one, and ready otherwise.\<close>

lemma insert_inv:
  assumes inv: "lists_inv X s" and X: "t \<in> X" and t: "st s t \<notin> {RT_THREAD_INIT, RT_THREAD_CLOSE}"
  shows "lists_inv (X - {t}) (rt_schedule_insert_thread t s)"
proof (rule lists_invI)
  let ?s = "rt_schedule_insert_thread t s"
  have m: "number_mask (tcb s t) = 2 ^ prio s t" by (rule inv_mask[OF inv t])
  have out: "t \<notin> set (queues s l)" for l using lists_inv_transit[OF inv X] .
  fix p l l' u i
  show "distinct (queues ?s l)" using lists_inv_distinct[OF inv] out by simp
  show "l = l'" if "u \<in> set (queues ?s l)" "u \<in> set (queues ?s l')"
    using that lists_inv_unique[OF inv, of u l l'] out by (auto split: if_splits)
  show "prio_ok (tcb ?s u)"
    using lists_inv_prio[OF inv, of u] m by (auto simp: prio_ok_def prio_def)
  show "u \<notin> set (queues ?s l)" if "u \<in> X - {t}" using that lists_inv_transit[OF inv, of u] by simp
  show "u \<in> set (queues ?s (Ready p)) \<longleftrightarrow> st ?s u = RT_THREAD_READY \<and> prio ?s u = p" if "u \<notin> X - {t}"
    using that lists_inv_ready[OF inv, of u p] out by (auto simp: insert_st)
  show "bit (ready_priority_group ?s) p \<longleftrightarrow> queues ?s (Ready p) \<noteq> []"
    using lists_inv_bit[OF inv, of p] inv_prio_less[OF inv, of t] by (auto simp: insert_group m bit_set_prio)
  show "st ?s u = RT_THREAD_SUSPEND" if "u \<in> set (queues ?s (Suspended i))"
    using that lists_inv_suspended[OF inv, of u i] out by (auto simp: insert_st)
  show "st ?s u = RT_THREAD_SUSPEND" if "u \<in> set (queues ?s (Senders i))"
    using that lists_inv_senders[OF inv, of u i] out by (auto simp: insert_st)
  show "st ?s u = RT_THREAD_CLOSE" if "u \<in> set (queues ?s Defunct)"
    using that lists_inv_defunct[OF inv, of u] out by (auto simp: insert_st)
qed

text \<open>A thread in transit can be changed freely; one that is in no list can be taken in transit.\<close>

lemma upd_transit:
  assumes inv: "lists_inv X s" and t: "t \<in> X" "prio_ok (f (tcb s t))"
  shows "lists_inv X (upd_tcb t f s)"
proof (rule lists_invI)
  have out: "t \<notin> set (queues s l)" for l using lists_inv_transit[OF inv t(1)] .
  fix u i
  show "st (upd_tcb t f s) u = RT_THREAD_SUSPEND" if "u \<in> set (queues (upd_tcb t f s) (Suspended i))"
    using that lists_inv_suspended[OF inv, of u i] out by (auto simp: st_upd_tcb)
  show "st (upd_tcb t f s) u = RT_THREAD_SUSPEND" if "u \<in> set (queues (upd_tcb t f s) (Senders i))"
    using that lists_inv_senders[OF inv, of u i] out by (auto simp: st_upd_tcb)
  show "st (upd_tcb t f s) u = RT_THREAD_CLOSE" if "u \<in> set (queues (upd_tcb t f s) Defunct)"
    using that lists_inv_defunct[OF inv, of u] out by (auto simp: st_upd_tcb)
qed (use inv t in \<open>auto dest: lists_invD simp: lists_inv_ready st_upd_tcb prio_upd_tcb lists_inv_bit\<close>)

text \<open>Changes that keep the state proper and the priority of every thread keep the invariant.\<close>

lemma upd_same:
  assumes inv: "lists_inv X s" and f: "stat (f (tcb s t)) AND 7 = st s t"
    "current_priority (f (tcb s t)) = current_priority (tcb s t)" "number_mask (f (tcb s t)) = number_mask (tcb s t)"
    "init_priority (f (tcb s t)) = init_priority (tcb s t)"
  shows "lists_inv X (upd_tcb t f s)"
proof -
  have same: "st (upd_tcb t f s) = st s" "prio (upd_tcb t f s) = prio s"
    using f by (auto simp: fun_eq_iff st_upd_tcb prio_upd_tcb prio_def)
  have "prio_ok (tcb (upd_tcb t f s) u)" for u
    using lists_inv_prio[OF inv, of u] f by (auto simp: prio_ok_def st_def)
  then show ?thesis using inv unfolding lists_inv_def same by simp
qed

text \<open>A thread that is not ready can change its priority in place.\<close>

lemma upd_not_ready:
  assumes inv: "lists_inv X s" and f: "stat (f (tcb s t)) AND 7 = st s t" "prio_ok (f (tcb s t))"
    and t: "st s t \<noteq> RT_THREAD_READY"
  shows "lists_inv X (upd_tcb t f s)"
proof -
  have same: "st (upd_tcb t f s) = st s" using f by (auto simp: fun_eq_iff st_upd_tcb)
  have r: "st s u = RT_THREAD_READY \<and> prio (upd_tcb t f s) u = p \<longleftrightarrow> st s u = RT_THREAD_READY \<and> prio s u = p" for u p
    using t by (auto simp: prio_upd_tcb)
  have ok: "prio_ok (tcb (upd_tcb t f s) u)" for u using lists_inv_prio[OF inv, of u] f(2) by simp
  show ?thesis
    by (rule lists_invI) (use inv ok in \<open>auto dest: lists_invD simp: lists_inv_ready same r lists_inv_bit intro: lists_inv_distinct\<close>)
qed

lemma enter_transit:
  "lists_inv X s \<Longrightarrow> (\<And>l. t \<notin> set (queues s l)) \<Longrightarrow> lists_inv (insert t X) s"
  unfolding lists_inv_def by blast

lemma leave_transit:
  assumes inv: "lists_inv X s" and t: "t \<in> X" "st s t \<noteq> RT_THREAD_READY"
  shows "lists_inv (X - {t}) s"
proof (rule lists_invI)
  show "u \<in> set (queues s (Ready p)) \<longleftrightarrow> st s u = RT_THREAD_READY \<and> prio s u = p" if "u \<notin> X - {t}" for u p
    using that t lists_inv_transit[OF inv t(1)] lists_inv_ready[OF inv, of u p] by auto
qed (use inv in \<open>auto dest: lists_invD simp: lists_inv_bit\<close>)

text \<open>Linking a suspended (closed) thread in transit to a waiting (the defunct) list.\<close>

lemma link_wait:
  assumes inv: "lists_inv X s" and t: "t \<in> X" and l: "\<And>p. l \<noteq> Ready p"
    and st: "st s t = (if l = Defunct then RT_THREAD_CLOSE else RT_THREAD_SUSPEND)"
    and q: "mset q = add_mset t (mset (queues s l))"
  shows "lists_inv (X - {t}) (s\<lparr>queues := (queues s)(l := q)\<rparr>)" (is "lists_inv _ ?s")
proof (rule lists_invI)
  have out: "t \<notin> set (queues s l)" for l using lists_inv_transit[OF inv t] .
  have sq: "set q = insert t (set (queues s l))" using arg_cong[OF q, of set_mset] by simp
  have dq: "distinct q" using q out[of l] lists_inv_distinct[OF inv, of l]
    by (metis distinct.simps(2) mset.simps(2) mset_eq_imp_distinct_iff)
  have same [simp]: "st ?s = st s" "prio ?s = prio s" by (auto simp: fun_eq_iff st_def prio_def)
  fix u p i and k k' :: rt_list_head
  show "distinct (queues ?s k)" using dq lists_inv_distinct[OF inv] by simp
  show "k = k'" if "u \<in> set (queues ?s k)" "u \<in> set (queues ?s k')"
    using that lists_inv_unique[OF inv, of u k k'] lists_inv_unique[OF inv, of u l] out sq
    by (auto split: if_splits)
  show "prio_ok (tcb ?s u)" using lists_inv_prio[OF inv] by simp
  show "u \<notin> set (queues ?s k)" if "u \<in> X - {t}" using that lists_inv_transit[OF inv, of u] sq by simp
  show "u \<in> set (queues ?s (Ready p)) \<longleftrightarrow> st ?s u = RT_THREAD_READY \<and> prio ?s u = p" if "u \<notin> X - {t}"
    using that lists_inv_ready[OF inv, of u p] l[of p] out[of "Ready p"] st by (auto split: if_splits)
  show "bit (ready_priority_group ?s) p \<longleftrightarrow> queues ?s (Ready p) \<noteq> []"
    using lists_inv_bit[OF inv, of p] l[of p] by auto
  show "st ?s u = RT_THREAD_SUSPEND" if "u \<in> set (queues ?s (Suspended i))"
    using that lists_inv_suspended[OF inv, of u i] sq st by (auto split: if_splits)
  show "st ?s u = RT_THREAD_SUSPEND" if "u \<in> set (queues ?s (Senders i))"
    using that lists_inv_senders[OF inv, of u i] sq st by (auto split: if_splits)
  show "st ?s u = RT_THREAD_CLOSE" if "u \<in> set (queues ?s Defunct)"
    using that lists_inv_defunct[OF inv, of u] sq st by (auto split: if_splits)
qed

lemma sched_field_upd [simp]:
  "lists_inv X (s\<lparr>current_thread := c\<rparr>) = lists_inv X s" "lists_inv X (s\<lparr>current_prio := b\<rparr>) = lists_inv X s"
  "lists_inv X (s\<lparr>scheduler_lock_nest := n\<rparr>) = lists_inv X s" "lists_inv X (s\<lparr>interrupt_nest := k\<rparr>) = lists_inv X s"
  "lists_inv X (s\<lparr>sched.more := m\<rparr>) = lists_inv X (s :: 'a sched_scheme)"
  by (simp_all add: lists_inv_def st_def prio_def)

section \<open>The scheduling decision\<close>

lemma highest_ready:
  assumes inv: "lists_inv X s" and g: "ready_priority_group s \<noteq> 0"
  obtains t p ts where "get_highest_priority_thread s = Some (t, p)" "queues s (Ready p) = t # ts" "p < 32"
    "\<And>u q. u \<in> set (queues s (Ready q)) \<Longrightarrow> p \<le> q"
proof -
  obtain p where p: "p < 32" "rt_ffs (ready_priority_group s) = p + 1" "least_bit p (bit (ready_priority_group s))"
    using rt_ffs_least[OF g] by blast
  then have "queues s (Ready p) \<noteq> []" using lists_inv_bit[OF inv, of p] by (simp add: least_bit_def)
  then obtain t ts where t: "queues s (Ready p) = t # ts" by (cases "queues s (Ready p)") auto
  have "p \<le> q" if "u \<in> set (queues s (Ready q))" for u q
    using least_bit_le[OF p(3), of q] lists_inv_bit[OF inv, of q] that by auto
  then show ?thesis using that[of t p ts] t p by (simp add: get_highest_priority_thread_def)
qed

lemma group_zero_iff:
  assumes inv: "lists_inv X s"
  shows "ready_priority_group s = 0 \<longleftrightarrow> (\<forall>p. queues s (Ready p) = [])"
proof -
  have "queues s (Ready p) = []" if "\<not> p < 32" for p
    using that inv_prio_less[OF inv] ready_inX[OF inv, of _ p] by (cases "queues s (Ready p)") auto
  then show ?thesis by (simp add: bit_eq_iff[of "ready_priority_group s"] lists_inv_bit[OF inv]) blast
qed

text \<open>
  The full contract of \<open>rt_schedule\<close> under an unlocked scheduler: it never dereferences a missing
  thread, keeps the invariant, and decides as follows.
\<close>

lemma rt_schedule_cases:
  assumes inv: "sched_inv s" and c: "current_thread s = Some c"
  obtains
    (idle) "rt_schedule s = Some s" "scheduler_lock_nest s \<noteq> 0 \<or> (\<forall>p. queues s (Ready p) = [])"
  | (stay) s' where "rt_schedule s = Some s'" "sched_inv s'" "scheduler_lock_nest s = 0"
      "st s c = RT_THREAD_RUNNING" "st s' = st s" "prio s' = prio s" "queues s' = queues s" "current_thread s' = Some c"
      "\<And>u q. u \<in> set (queues s (Ready q)) \<Longrightarrow> prio s c \<le> q"
  | (switch) s' t p ts where "rt_schedule s = Some s'" "sched_inv s'" "scheduler_lock_nest s = 0"
      "queues s (Ready p) = t # ts" "t \<noteq> c" "current_thread s' = Some t" "st s' t = RT_THREAD_RUNNING"
      "\<And>u q. u \<in> set (queues s (Ready q)) \<Longrightarrow> p \<le> q"
      "st s c = RT_THREAD_RUNNING \<Longrightarrow> p \<le> prio s c"
      "st s' = (\<lambda>u. if u = t then RT_THREAD_RUNNING
                    else if u = c \<and> st s c = RT_THREAD_RUNNING then RT_THREAD_READY else st s u)"
      "prio s' = prio s"
      "queues s' = (\<lambda>l. removeAll t (if l = Ready (prio s c) \<and> st s c = RT_THREAD_RUNNING then queues s l @ [c] else queues s l))"
proof (cases "scheduler_lock_nest s = 0 \<and> ready_priority_group s \<noteq> 0")
  case False
  then show ?thesis using idle inv group_zero_iff[of "{}" s] by (auto simp: rt_schedule_def sched_inv_def)
next
  case True
  have li: "lists_inv {} s" and ci: "current_inv s" using inv by (simp_all add: sched_inv_def)
  obtain t p ts where h: "get_highest_priority_thread s = Some (t, p)" "queues s (Ready p) = t # ts" "p < 32"
    "\<And>u q. u \<in> set (queues s (Ready q)) \<Longrightarrow> p \<le> q"
    using highest_ready[OF li] True by blast
  have t: "st s t = RT_THREAD_READY" "prio s t = p" using ready_inX[OF li, of t p] h(2) by simp_all
  have cst: "st s c \<noteq> RT_THREAD_READY" using ci c by (simp_all add: current_inv_def)
  then have tc: "t \<noteq> c" using t by auto
  define running where "running \<longleftrightarrow> st s c = RT_THREAD_RUNNING"
  define stay' where "stay' \<longleftrightarrow> running \<and> (prio s c < p \<or> prio s c = p \<and> stat (tcb s c) AND RT_THREAD_STAT_YIELD = 0)"
  define s1 where "s1 = (if running then upd_tcb c (\<lambda>th. th\<lparr>stat := stat th AND NOT RT_THREAD_STAT_YIELD\<rparr>) s else s)"
  have s1: "st s1 = st s" "prio s1 = prio s" "queues s1 = queues s" "current_thread s1 = current_thread s"
    by (auto simp: s1_def fun_eq_iff st_upd_tcb prio_upd_tcb prio_def st_def)
  have li1: "lists_inv {} s1" unfolding s1_def using li by (auto intro!: upd_same simp: st_def)
  show ?thesis
  proof (cases stay')
    case True
    then have run: "st s c = RT_THREAD_RUNNING" by (simp add: stay'_def running_def)
    let ?s' = "upd_tcb c (set_stat RT_THREAD_RUNNING) (rt_schedule_remove_thread c s1)"
    have free: "c \<notin> set (queues s l)" for l using linked_st[OF li, of c l] run by auto
    have "rt_schedule s = Some ?s'"
      using True \<open>scheduler_lock_nest s = 0 \<and> _\<close> h(1) c
      by (simp add: rt_schedule_def s1_def stay'_def running_def)
    moreover have "lists_inv {c} ?s'"
      using remove_inv[OF li1, of c] prio_ok_st[OF li1, of c] run s1 by (intro upd_transit) simp_all
    then have "lists_inv {} ?s'" using leave_transit[of "{c}" ?s' c] by (simp add: st_upd_tcb)
    moreover have st: "st ?s' = st s" using run s1 by (auto simp: fun_eq_iff st_upd_tcb)
    moreover have "current_inv ?s'" using ci unfolding current_inv_def st by (simp add: s1)
    moreover have "prio s c \<le> q" if "u \<in> set (queues s (Ready q))" for u q
      using h(4)[OF that] True by (auto simp: stay'_def)
    ultimately show ?thesis
      using run \<open>scheduler_lock_nest s = 0 \<and> _\<close> c free s1
      by (intro stay[of ?s']) (auto simp: sched_inv_def fun_eq_iff prio_upd_tcb prio_def)
  next
    case False
    let ?s2 = "s1\<lparr>current_prio := of_nat p, current_thread := Some t\<rparr>"
    let ?s3 = "if running then rt_schedule_insert_thread c ?s2 else ?s2"
    let ?s' = "upd_tcb t (set_stat RT_THREAD_RUNNING) (rt_schedule_remove_thread t ?s3)"
    have res: "rt_schedule s = Some ?s'"
      using False \<open>scheduler_lock_nest s = 0 \<and> _\<close> h(1) c tc
      by (auto simp: rt_schedule_def s1_def stay'_def running_def Let_def)
    have s2: "st ?s2 = st s" "prio ?s2 = prio s" "queues ?s2 = queues s" using s1 by (auto simp: fun_eq_iff st_def prio_def)
    have li3: "lists_inv {} ?s3"
    proof (cases running)
      case True
      then have "c \<notin> set (queues s l)" for l using linked_st[OF li, of c l] by (auto simp: running_def)
      then have "lists_inv {c} ?s2" using enter_transit[of "{}" ?s2 c] li1 s1 by simp
      then show ?thesis using insert_inv[of "{c}" ?s2 c] True s2 by (simp add: running_def)
    qed (use li1 in simp)
    have st3: "st ?s3 u = (if u = c \<and> running then RT_THREAD_READY else st s u)" for u
      using s2 tc by (simp add: insert_st)
    have "st ?s3 t \<notin> {RT_THREAD_INIT, RT_THREAD_CLOSE}" using t tc by (simp add: st3)
    then have "lists_inv {t} ?s'" using remove_inv[OF li3] prio_ok_st[OF li3, of t] by (intro upd_transit) simp_all
    then have li': "lists_inv {} ?s'" using leave_transit[of "{t}" ?s' t] by (simp add: st_upd_tcb)
    have st': "st ?s' u = (if u = t then RT_THREAD_RUNNING else if u = c \<and> running then RT_THREAD_READY else st s u)" for u
      using st3[of u] by (simp add: st_upd_tcb)
    have cur: "current_thread ?s' = Some t" by simp
    have "current_inv ?s'" unfolding current_inv_def st' cur using ci c by (auto simp: current_inv_def running_def)
    then have inv': "sched_inv ?s'" using li' by (simp only: sched_inv_def simp_thms)
    have pr: "prio ?s' = prio s" using s2 by (auto simp: fun_eq_iff prio_upd_tcb prio_def)
    have qs: "queues ?s' = (\<lambda>l. removeAll t (if l = Ready (prio s c) \<and> st s c = RT_THREAD_RUNNING then queues s l @ [c] else queues s l))"
      using s2 tc by (auto simp: fun_eq_iff running_def)
    have cc: "p \<le> prio s c" if "st s c = RT_THREAD_RUNNING"
      using False that by (auto simp: stay'_def running_def)
    have stf: "st ?s' = (\<lambda>u. if u = t then RT_THREAD_RUNNING
                    else if u = c \<and> st s c = RT_THREAD_RUNNING then RT_THREAD_READY else st s u)"
      by (rule ext, subst st', simp only: running_def)
    have tt: "st ?s' t = RT_THREAD_RUNNING" unfolding st' by simp
    have lock: "scheduler_lock_nest s = 0" using \<open>scheduler_lock_nest s = 0 \<and> _\<close> by (rule conjunct1)
    show ?thesis by (rule switch[OF res inv' lock h(2) tc cur tt h(4) cc stf pr qs])
  qed
qed

section \<open>What the operations leave alone\<close>

lemma more_upd [simp]:
  "sched.more (upd_tcb t f s) = sched.more s" "sched.more (list_unlink t s) = sched.more s"
  "sched.more (list_append l t s) = sched.more s" "sched.more (rt_schedule_remove_thread t s) = sched.more s"
  "sched.more (rt_schedule_insert_thread t s) = sched.more s"
  by (simp_all add: upd_tcb_def list_unlink_def list_append_def rt_schedule_remove_thread_def
      rt_schedule_insert_thread_def Let_def)

lemma rt_schedule_frame:
  assumes "rt_schedule s = Some s'"
  shows "sched.more s' = sched.more s \<and> scheduler_lock_nest s' = scheduler_lock_nest s \<and>
         interrupt_nest s' = interrupt_nest s \<and> error (tcb s' t) = error (tcb s t) \<and>
         event_set (tcb s' t) = event_set (tcb s t) \<and> event_info (tcb s' t) = event_info (tcb s t)"
  using assms unfolding rt_schedule_def Let_def
  by (auto split: if_splits bind_splits simp: Let_def)

text \<open>Scheduling moves threads between ready and running only.\<close>

definition runnable :: "'a sched_scheme \<Rightarrow> tid \<Rightarrow> bool" where
  "runnable s t \<longleftrightarrow> st s t = RT_THREAD_READY \<or> st s t = RT_THREAD_RUNNING"

lemma rt_schedule_runnable:
  assumes inv: "sched_inv s" and c: "current_thread s \<noteq> None" and r: "rt_schedule s = Some s'"
  shows "runnable s' u = runnable s u" and "\<not> runnable s u \<Longrightarrow> st s' u = st s u"
proof -
  obtain c where c: "current_thread s = Some c" using c by auto
  have "runnable s' u = runnable s u \<and> (\<not> runnable s u \<longrightarrow> st s' u = st s u)"
    using inv c
  proof (cases rule: rt_schedule_cases)
    case (switch s'' t p ts)
    have "st s t = RT_THREAD_READY"
      using ready_inX[of "{}" s t p] inv switch(4) by (simp add: sched_inv_def)
    then show ?thesis using switch(1,10) r by (auto simp: runnable_def)
  qed (use r in \<open>auto simp: runnable_def\<close>)
  then show "runnable s' u = runnable s u" "\<not> runnable s u \<Longrightarrow> st s' u = st s u" by blast+
qed

lemma not_runnable_suspend: "st s t = RT_THREAD_SUSPEND \<Longrightarrow> \<not> runnable s t"
  by (simp add: runnable_def)

text \<open>Only the state byte of a thread is changed by scheduling.\<close>

lemma rt_schedule_tcb:
  assumes "rt_schedule s = Some s'"
  shows "tcb s' t = (tcb s t)\<lparr>stat := stat (tcb s' t)\<rparr>"
  using assms unfolding rt_schedule_def Let_def
  by (auto split: if_splits bind_splits simp: set_stat_def)

end
