(* ===== verification/RT_Timer.thy ===== *)
theory RT_Timer
  imports RT_Sched
begin

text \<open>
  \<open>src/rt-thread/src/timer.c\<close> and \<open>clock.c\<close>: timers with a 32-bit deadline on a wrapping tick, kept
  in lists sorted by deadline (\<open>RT_TIMER_SKIP_LIST_LEVEL\<close> is 1, so the skip list is one list).
  A timer is either the one embedded in a thread or a timer object of its own. As thread timers are
  linked through \<open>row\<close> and a timer is in at most one list, the lists are again one store.
\<close>

section \<open>State\<close>

datatype timer_id = ThreadTimer tid | UserTimer nat

text \<open>
  The two system lists and the local lists of the two check loops, which hold the timer whose
  callback is running.
\<close>

datatype timer_head = HardTimers | SoftTimers | ExpiringHard | ExpiringSoft

record rt_timer =
  flag :: u8
  timer_init_tick :: rt_tick_t
  timeout_tick :: rt_tick_t

datatype soft_status = RT_SOFT_TIMER_IDLE | RT_SOFT_TIMER_BUSY

record timer_sys = sched +
  timers :: "timer_id \<Rightarrow> rt_timer"
  timer_lists :: "timer_head \<Rightarrow> timer_id list"
  rt_tick :: rt_tick_t
  soft_timer_status :: soft_status
  timer_thread :: tid

abbreviation RT_TIMER_FLAG_ACTIVATED :: u8 where "RT_TIMER_FLAG_ACTIVATED \<equiv> 1"
abbreviation RT_TIMER_FLAG_PERIODIC :: u8 where "RT_TIMER_FLAG_PERIODIC \<equiv> 2"
abbreviation RT_TIMER_FLAG_SOFT_TIMER :: u8 where "RT_TIMER_FLAG_SOFT_TIMER \<equiv> 4"
abbreviation RT_TICK_MAX :: rt_tick_t where "RT_TICK_MAX \<equiv> 0xffffffff"

definition HALF :: rt_tick_t where "HALF = RT_TICK_MAX div 2"

definition upd_timer :: "timer_id \<Rightarrow> (rt_timer \<Rightarrow> rt_timer) \<Rightarrow> 'a timer_sys_scheme \<Rightarrow> 'a timer_sys_scheme" where
  "upd_timer x f s = s\<lparr>timers := (timers s)(x := f (timers s x))\<rparr>"

section \<open>Operations\<close>

definition rt_tick_get :: "'a timer_sys_scheme \<Rightarrow> rt_tick_t" where
  "rt_tick_get s = rt_tick s"

definition rt_tick_set :: "rt_tick_t \<Rightarrow> 'a timer_sys_scheme \<Rightarrow> 'a timer_sys_scheme" where
  "rt_tick_set t s = s\<lparr>rt_tick := t\<rparr>"

definition timer_remove :: "timer_id \<Rightarrow> 'a timer_sys_scheme \<Rightarrow> 'a timer_sys_scheme" where
  "timer_remove x s = s\<lparr>timer_lists := \<lambda>l. removeAll x (timer_lists s l)\<rparr>"

definition deactivate :: "timer_id \<Rightarrow> 'a timer_sys_scheme \<Rightarrow> 'a timer_sys_scheme" where
  "deactivate x = upd_timer x (\<lambda>t. t\<lparr>flag := flag t AND NOT RT_TIMER_FLAG_ACTIVATED\<rparr>)"

definition timer_init :: "timer_id \<Rightarrow> rt_tick_t \<Rightarrow> u8 \<Rightarrow> 'a timer_sys_scheme \<Rightarrow> 'a timer_sys_scheme" where
  "timer_init x time fl s =
     s\<lparr>timers := (timers s)(x := \<lparr>flag = fl AND NOT RT_TIMER_FLAG_ACTIVATED, timer_init_tick = time, timeout_tick = 0\<rparr>)\<rparr>"

definition rt_timer_list_next_timeout :: "timer_head \<Rightarrow> 'a timer_sys_scheme \<Rightarrow> rt_tick_t" where
  "rt_timer_list_next_timeout l s =
     (case timer_lists s l of [] \<Rightarrow> RT_TICK_MAX | x # _ \<Rightarrow> timeout_tick (timers s x))"

definition rt_timer_next_timeout_tick :: "'a timer_sys_scheme \<Rightarrow> rt_tick_t" where
  "rt_timer_next_timeout_tick s = rt_timer_list_next_timeout HardTimers s"

definition rt_timer_detach :: "timer_id \<Rightarrow> 'a timer_sys_scheme \<Rightarrow> 'a timer_sys_scheme" where
  "rt_timer_detach x s = deactivate x (timer_remove x s)"

definition rt_timer_delete :: "timer_id \<Rightarrow> 'a timer_sys_scheme \<Rightarrow> 'a timer_sys_scheme" where
  "rt_timer_delete x s = deactivate x (timer_remove x s)"

definition rt_timer_stop :: "timer_id \<Rightarrow> 'a timer_sys_scheme \<Rightarrow> int \<times> 'a timer_sys_scheme" where
  "rt_timer_stop x s =
     (if flag (timers s x) AND RT_TIMER_FLAG_ACTIVATED = 0 then (-1, s)
      else (0, deactivate x (timer_remove x s)))"

datatype timer_ctrl = GET_TIME | SET_TIME rt_tick_t | SET_ONESHOT | SET_PERIODIC | GET_STATE | OTHER_CTRL

text \<open>\<open>rt_timer_control\<close>; the first component is what is stored through \<open>arg\<close>, if anything.\<close>

definition rt_timer_control ::
  "timer_id \<Rightarrow> timer_ctrl \<Rightarrow> 'a timer_sys_scheme \<Rightarrow> rt_tick_t option \<times> 'a timer_sys_scheme" where
  "rt_timer_control x cmd s =
     (case cmd of
        GET_TIME \<Rightarrow> (Some (timer_init_tick (timers s x)), s)
      | SET_TIME v \<Rightarrow> (None, upd_timer x (\<lambda>t. t\<lparr>timer_init_tick := v\<rparr>) s)
      | SET_ONESHOT \<Rightarrow> (None, upd_timer x (\<lambda>t. t\<lparr>flag := flag t AND NOT RT_TIMER_FLAG_PERIODIC\<rparr>) s)
      | SET_PERIODIC \<Rightarrow> (None, upd_timer x (\<lambda>t. t\<lparr>flag := flag t OR RT_TIMER_FLAG_PERIODIC\<rparr>) s)
      | GET_STATE \<Rightarrow> (Some (if flag (timers s x) AND RT_TIMER_FLAG_ACTIVATED \<noteq> 0 then 1 else 0), s)
      | OTHER_CTRL \<Rightarrow> (None, s))"

text \<open>
  The insertion loop of \<open>rt_timer_start\<close>: walk past every timer that expires earlier or at the same
  tick (in wrapping arithmetic) and link the new one behind them.
\<close>

fun timer_insert :: "(timer_id \<Rightarrow> rt_tick_t) \<Rightarrow> timer_id \<Rightarrow> timer_id list \<Rightarrow> timer_id list" where
  "timer_insert dl x [] = [x]"
| "timer_insert dl x (t # ts) =
     (if dl t - dl x = 0 then t # timer_insert dl x ts
      else if dl t - dl x < HALF then x # t # ts
      else t # timer_insert dl x ts)"

text \<open>
  \<open>rt_thread_resume\<close> (thread.c) is here because \<open>rt_timer_start\<close> calls it on the timer thread. The
  integer is the error code returned.
\<close>

definition rt_thread_resume :: "tid \<Rightarrow> 'a timer_sys_scheme \<Rightarrow> int \<times> 'a timer_sys_scheme" where
  "rt_thread_resume t s =
     (if st s t \<noteq> RT_THREAD_SUSPEND then (-1, s)
      else (0, rt_schedule_insert_thread t (snd (rt_timer_stop (ThreadTimer t) (list_unlink t s)))))"

text \<open>
  \<open>rt_timer_start\<close> (always \<open>RT_EOK\<close>): \<open>timer_link\<close> is its middle part, which computes the deadline and
  links the timer; \<open>None\<close> is its failing assertion on the interval. A soft timer wakes the timer thread
  when that is suspended and idle.
\<close>

definition timer_link :: "timer_id \<Rightarrow> 'a timer_sys_scheme \<Rightarrow> 'a timer_sys_scheme" where
  "timer_link x s1 =
     (let s2 = upd_timer x (\<lambda>t. t\<lparr>timeout_tick := rt_tick_get s1 + timer_init_tick t\<rparr>) s1;
          l = (if flag (timers s2 x) AND RT_TIMER_FLAG_SOFT_TIMER \<noteq> 0 then SoftTimers else HardTimers);
          s3 = s2\<lparr>timer_lists := (timer_lists s2)
                    (l := timer_insert (\<lambda>y. timeout_tick (timers s2 y)) x (timer_lists s2 l))\<rparr>
      in upd_timer x (\<lambda>t. t\<lparr>flag := flag t OR RT_TIMER_FLAG_ACTIVATED\<rparr>) s3)"

definition rt_timer_start :: "timer_id \<Rightarrow> 'a timer_sys_scheme \<Rightarrow> 'a timer_sys_scheme option" where
  "rt_timer_start x s =
     (let s1 = deactivate x (timer_remove x s) in
      if timer_init_tick (timers s1 x) < HALF
      then let s4 = timer_link x s1 in
           if flag (timers s4 x) AND RT_TIMER_FLAG_SOFT_TIMER \<noteq> 0 \<and>
              soft_timer_status s4 = RT_SOFT_TIMER_IDLE \<and> st s4 (timer_thread s4) = RT_THREAD_SUSPEND
           then rt_schedule (snd (rt_thread_resume (timer_thread s4) s4))
           else Some s4
      else None)"

section \<open>Millisecond conversion\<close>

text \<open>
  \<open>rt_tick_from_millisecond\<close> with \<open>RT_TICK_PER_SECOND = 1000\<close>; the C arithmetic is on signed \<open>int\<close>
  and cannot overflow for this constant.
\<close>

definition rt_tick_from_millisecond :: "32 word \<Rightarrow> rt_tick_t" where
  "rt_tick_from_millisecond ms =
     (if sint ms < 0 then word_of_int (-1)
      else word_of_int (1000 * (sint ms div 1000)) + word_of_int ((1000 * (sint ms mod 1000) + 999) div 1000))"

definition rt_tick_get_millisecond :: "'a timer_sys_scheme \<Rightarrow> rt_tick_t" where
  "rt_tick_get_millisecond s = rt_tick_get s * (1000 div 1000)"

section \<open>Insertion by deadline\<close>

text \<open>Deadlines are compared by their distance from a base tick in the recent past.\<close>

abbreviation dist :: "rt_tick_t \<Rightarrow> rt_tick_t \<Rightarrow> nat" where "dist b d \<equiv> unat (d - b)"

lemma HALF_nat: "unat HALF = 0x7fffffff"
  by (simp add: HALF_def)

lemma later_iff:
  assumes a: "dist b d \<le> 0x7fffffff" and c: "dist b e \<le> 0x7fffffff" and z: "dist b e = 0 \<longrightarrow> dist b d < 0x7fffffff"
  shows "d - e \<noteq> 0 \<and> d - e < HALF \<longleftrightarrow> dist b e < dist b d"
proof -
  have eq: "d - e = (d - b) - (e - b)" by simp
  have "d - e = 0 \<longleftrightarrow> dist b d = dist b e" unfolding eq word_unat_eq_iff[symmetric] by simp
  moreover have "unat (d - e) = (if dist b e \<le> dist b d then dist b d - dist b e else dist b d + 2 ^ 32 - dist b e)"
    unfolding eq using unat_sub_if'[of "d - b" "e - b"] by simp
  ultimately show ?thesis using a c z unfolding word_less_nat_alt HALF_nat by (auto split: if_splits)
qed

lemma timer_insert_split:
  assumes "\<forall>y \<in> set xs. dist b (dl y) \<le> 0x7fffffff" "dist b (dl x) \<le> 0x7fffffff"
    "dist b (dl x) = 0 \<longrightarrow> (\<forall>y \<in> set xs. dist b (dl y) < 0x7fffffff)"
  shows "timer_insert dl x xs =
    takeWhile (\<lambda>y. dist b (dl y) \<le> dist b (dl x)) xs @ x # dropWhile (\<lambda>y. dist b (dl y) \<le> dist b (dl x)) xs"
  using assms
proof (induction xs)
  case (Cons t ts)
  have "dl t - dl x \<noteq> 0 \<and> dl t - dl x < HALF \<longleftrightarrow> dist b (dl x) < dist b (dl t)"
    using Cons.prems by (intro later_iff) auto
  then show ?case using Cons by (cases "dist b (dl x) < dist b (dl t)") auto
qed simp

lemma set_timer_insert [simp]: "set (timer_insert dl x xs) = insert x (set xs)"
  by (induction xs) auto

lemma distinct_timer_insert [simp]: "distinct (timer_insert dl x xs) \<longleftrightarrow> x \<notin> set xs \<and> distinct xs"
  by (induction xs) auto

lemma sorted_split_insert:
  fixes k :: "'b \<Rightarrow> nat"
  shows "sorted (map k xs) \<Longrightarrow> sorted (map k (takeWhile (\<lambda>y. k y \<le> k x) xs @ x # dropWhile (\<lambda>y. k y \<le> k x) xs))"
proof (induction xs)
  case (Cons a xs)
  then show ?case
    by (cases "k a \<le> k x") (auto simp: dest!: set_takeWhileD set_dropWhileD intro: order_trans)
qed simp

lemma timer_insert_cong: "(\<And>y. y \<in> insert x (set xs) \<Longrightarrow> dl y = dl' y) \<Longrightarrow> timer_insert dl x xs = timer_insert dl' x xs"
  by (induction xs) auto

section \<open>Invariants\<close>

abbreviation active :: "'a timer_sys_scheme \<Rightarrow> timer_id \<Rightarrow> bool" where "active s x \<equiv> bit (flag (timers s x)) 0"
abbreviation periodic :: "'a timer_sys_scheme \<Rightarrow> timer_id \<Rightarrow> bool" where "periodic s x \<equiv> bit (flag (timers s x)) 1"
abbreviation soft_timer :: "'a timer_sys_scheme \<Rightarrow> timer_id \<Rightarrow> bool" where "soft_timer s x \<equiv> bit (flag (timers s x)) 2"

lemma flag_tests:
  fixes f :: u8
  shows "f AND 1 = 0 \<longleftrightarrow> \<not> bit f 0" "f AND 2 = 0 \<longleftrightarrow> \<not> bit f 1" "f AND 4 = 0 \<longleftrightarrow> \<not> bit f 2"
  using and_exp_eq_0_iff_not_bit[of f 0] and_exp_eq_0_iff_not_bit[of f 1] and_exp_eq_0_iff_not_bit[of f 2] by simp_all

lemma flag_bits [simp]:
  fixes f :: u8
  shows "bit (f AND - 2) n \<longleftrightarrow> n \<noteq> 0 \<and> bit f n" "bit (f OR 1) n \<longleftrightarrow> n = 0 \<or> bit f n"
    "bit (f AND - 3) n \<longleftrightarrow> n \<noteq> 1 \<and> bit f n" "bit (f OR 2) n \<longleftrightarrow> n = 1 \<or> bit f n"
proof -
  have "- 2 = NOT (1 :: u8)" "- 3 = NOT (2 :: u8)" by simp_all
  then show "bit (f AND - 2) n \<longleftrightarrow> n \<noteq> 0 \<and> bit f n" "bit (f AND - 3) n \<longleftrightarrow> n \<noteq> 1 \<and> bit f n"
    by (auto simp: bit_simps bit_1_iff simp del: bit.compl_one dest: bit_imp_le_length)
  show "bit (f OR 1) n \<longleftrightarrow> n = 0 \<or> bit f n" "bit (f OR 2) n \<longleftrightarrow> n = 1 \<or> bit f n"
    by (auto simp: bit_simps bit_1_iff)
qed

text \<open>
  The timer lists: every timer is linked at most once; the active ones are exactly the linked ones
  (outside the check loops); soft timers are in the soft list. Thread timers are hard and one-shot, and
  one that is running belongs to a suspended thread, which is what \<open>rt_thread_timeout\<close> asserts.
\<close>

definition timer_lists_inv :: "'a timer_sys_scheme \<Rightarrow> bool" where
  "timer_lists_inv s \<longleftrightarrow>
     (\<forall>l. distinct (timer_lists s l)) \<and>
     (\<forall>l l' x. x \<in> set (timer_lists s l) \<longrightarrow> x \<in> set (timer_lists s l') \<longrightarrow> l = l') \<and>
     (\<forall>x. x \<in> set (timer_lists s HardTimers) \<longrightarrow> active s x \<and> \<not> soft_timer s x) \<and>
     (\<forall>x. x \<in> set (timer_lists s SoftTimers) \<longrightarrow> active s x \<and> soft_timer s x) \<and>
     (\<forall>x. active s x \<longrightarrow> (\<exists>l. x \<in> set (timer_lists s l)))"

definition thread_timers_inv :: "'a timer_sys_scheme \<Rightarrow> bool" where
  "thread_timers_inv s \<longleftrightarrow>
     (\<forall>t. \<not> periodic s (ThreadTimer t) \<and> \<not> soft_timer s (ThreadTimer t)) \<and>
     (\<forall>t. ThreadTimer t \<in> set (timer_lists s HardTimers) \<longrightarrow> st s t = RT_THREAD_SUSPEND)"

text \<open>The hard list is sorted by deadline, and every deadline is less than half the tick range ahead of \<open>b\<close>.\<close>

definition deadlines_inv :: "nat \<Rightarrow> rt_tick_t \<Rightarrow> 'a timer_sys_scheme \<Rightarrow> bool" where
  "deadlines_inv m b s \<longleftrightarrow>
     sorted (map (\<lambda>x. dist b (timeout_tick (timers s x))) (timer_lists s HardTimers)) \<and>
     (\<forall>x \<in> set (timer_lists s HardTimers). dist b (timeout_tick (timers s x)) \<le> m)"

lemma timer_lists_invI:
  assumes "\<And>l. distinct (timer_lists s l)"
    "\<And>l l' x. x \<in> set (timer_lists s l) \<Longrightarrow> x \<in> set (timer_lists s l') \<Longrightarrow> l = l'"
    "\<And>x. x \<in> set (timer_lists s HardTimers) \<Longrightarrow> active s x \<and> \<not> soft_timer s x"
    "\<And>x. x \<in> set (timer_lists s SoftTimers) \<Longrightarrow> active s x \<and> soft_timer s x"
    "\<And>x. active s x \<Longrightarrow> \<exists>l. x \<in> set (timer_lists s l)"
  shows "timer_lists_inv s"
  unfolding timer_lists_inv_def using assms by blast

lemma timer_lists_invD:
  assumes "timer_lists_inv s"
  shows "distinct (timer_lists s l)"
    and "x \<in> set (timer_lists s l) \<Longrightarrow> x \<in> set (timer_lists s l') \<Longrightarrow> l = l'"
    and "x \<in> set (timer_lists s HardTimers) \<Longrightarrow> active s x \<and> \<not> soft_timer s x"
    and "x \<in> set (timer_lists s SoftTimers) \<Longrightarrow> active s x \<and> soft_timer s x"
    and "active s x \<Longrightarrow> \<exists>l. x \<in> set (timer_lists s l)"
  using assms unfolding timer_lists_inv_def by blast+

section \<open>What the operations change\<close>

lemma more_timer:
  fixes s s' :: "'a timer_sys_scheme"
  assumes "sched.more s' = sched.more s"
  shows "timers s' = timers s" "timer_lists s' = timer_lists s" "rt_tick s' = rt_tick s"
    "soft_timer_status s' = soft_timer_status s" "timer_thread s' = timer_thread s"
    "timer_sys.more s' = timer_sys.more s"
  using assms by (cases s; cases s'; simp)+

lemma timer_obs [simp]:
  "timers (upd_timer x f s) y = (if y = x then f (timers s x) else timers s y)"
  "timer_lists (upd_timer x f s) = timer_lists s" "rt_tick (upd_timer x f s) = rt_tick s"
  "soft_timer_status (upd_timer x f s) = soft_timer_status s" "timer_thread (upd_timer x f s) = timer_thread s"
  "timer_sys.more (upd_timer x f s) = timer_sys.more s"
  "timers (timer_remove x s) = timers s" "timer_lists (timer_remove x s) l = removeAll x (timer_lists s l)"
  "rt_tick (timer_remove x s) = rt_tick s" "soft_timer_status (timer_remove x s) = soft_timer_status s"
  "timer_thread (timer_remove x s) = timer_thread s" "timer_sys.more (timer_remove x s) = timer_sys.more s"
  by (simp_all add: upd_timer_def timer_remove_def)

lemma deactivate_obs [simp]:
  "flag (timers (deactivate x s) y) = (if y = x then flag (timers s x) AND - 2 else flag (timers s y))"
  "timeout_tick (timers (deactivate x s) y) = timeout_tick (timers s y)"
  "timer_init_tick (timers (deactivate x s) y) = timer_init_tick (timers s y)"
  "timer_lists (deactivate x s) = timer_lists s" "rt_tick (deactivate x s) = rt_tick s"
  "soft_timer_status (deactivate x s) = soft_timer_status s" "timer_thread (deactivate x s) = timer_thread s"
  "timer_sys.more (deactivate x s) = timer_sys.more s"
  by (simp_all add: deactivate_def)

text \<open>Operations on timers leave the scheduler's part of the state alone.\<close>

definition same_sched :: "'a sched_scheme \<Rightarrow> 'a sched_scheme \<Rightarrow> bool" where
  "same_sched s s' \<longleftrightarrow> tcb s' = tcb s \<and> queues s' = queues s \<and> ready_priority_group s' = ready_priority_group s \<and>
     current_thread s' = current_thread s \<and> current_prio s' = current_prio s \<and>
     scheduler_lock_nest s' = scheduler_lock_nest s \<and> interrupt_nest s' = interrupt_nest s"

lemma same_schedD:
  assumes "same_sched s s'"
  shows "tcb s' = tcb s" "queues s' = queues s" "current_thread s' = current_thread s" "st s' = st s" "prio s' = prio s"
    "scheduler_lock_nest s' = scheduler_lock_nest s" "interrupt_nest s' = interrupt_nest s"
    "lists_inv X s' = lists_inv X s" "current_inv s' = current_inv s" "sched_inv s' = sched_inv s"
  using assms unfolding same_sched_def
  by (auto simp: fun_eq_iff st_def prio_def lists_inv_def current_inv_def sched_inv_def)

lemma same_sched_refl [simp, intro]: "same_sched s s"
  by (simp add: same_sched_def)

lemma same_sched_trans [trans]: "same_sched a b \<Longrightarrow> same_sched b c \<Longrightarrow> same_sched a c"
  by (simp add: same_sched_def)

lemma same_sched_timer [simp]:
  "same_sched s (upd_timer x f s)" "same_sched s (timer_remove x s)" "same_sched s (s\<lparr>timer_lists := q\<rparr>)"
  "same_sched s (s\<lparr>timers := tm\<rparr>)" "same_sched s (s\<lparr>rt_tick := k\<rparr>)" "same_sched s (deactivate x s)"
  by (simp_all add: same_sched_def upd_timer_def timer_remove_def deactivate_def)

section \<open>The kernel invariant\<close>

text \<open>
  \<open>m\<close> bounds the deadlines relative to the base \<open>b\<close>: between interrupts the base is the current tick;
  while the tick interrupt runs its timer check it is the tick before.
\<close>

definition base_ok :: "nat \<Rightarrow> rt_tick_t \<Rightarrow> 'a timer_sys_scheme \<Rightarrow> bool" where
  "base_ok m b s \<longleftrightarrow> m = 0x7ffffffe \<and> b = rt_tick s \<or> m = 0x7fffffff \<and> b = rt_tick s - 1"

definition kinv_at :: "nat \<Rightarrow> rt_tick_t \<Rightarrow> 'a timer_sys_scheme \<Rightarrow> bool" where
  "kinv_at m b s \<longleftrightarrow> base_ok m b s \<and> sched_inv s \<and> timer_lists_inv s \<and> thread_timers_inv s \<and> deadlines_inv m b s"

lemma kinv_atD:
  assumes "kinv_at m b s"
  shows "base_ok m b s" "sched_inv s" "timer_lists_inv s" "thread_timers_inv s" "deadlines_inv m b s"
    "lists_inv {} s" "current_inv s"
  using assms by (simp_all add: kinv_at_def sched_inv_def)

text \<open>The timer part only reads the timers and which threads are suspended.\<close>

lemma kinv_at_sched_step:
  fixes s s' :: "'a timer_sys_scheme"
  assumes k: "kinv_at m b s" and m: "sched.more s' = sched.more s" and i: "sched_inv s'"
    and st: "\<And>t. ThreadTimer t \<in> set (timer_lists s HardTimers) \<Longrightarrow> st s' t = RT_THREAD_SUSPEND"
  shows "kinv_at m b s'"
  using k i st more_timer[OF m]
  by (simp add: kinv_at_def base_ok_def timer_lists_inv_def thread_timers_inv_def deadlines_inv_def)

lemma rt_schedule_kinv:
  assumes k: "kinv_at m b s" and c: "current_thread s \<noteq> None"
  shows "\<exists>s'. rt_schedule s = Some s' \<and> kinv_at m b s' \<and> current_thread s' \<noteq> None"
proof -
  obtain c where c: "current_thread s = Some c" using c by auto
  have i: "sched_inv s" using kinv_atD(2)[OF k] .
  have tt: "st s t = RT_THREAD_SUSPEND" if "ThreadTimer t \<in> set (timer_lists s HardTimers)" for t
    using kinv_atD(4)[OF k] that by (simp add: thread_timers_inv_def)
  from i c show ?thesis
  proof (cases rule: rt_schedule_cases)
    case idle
    then show ?thesis using k c by simp
  next
    case (stay s')
    then have "sched.more s' = sched.more s" using rt_schedule_frame by blast
    then show ?thesis using kinv_at_sched_step[OF k _ stay(2)] tt stay by auto
  next
    case (switch s' t p ts)
    then have "sched.more s' = sched.more s" using rt_schedule_frame by blast
    moreover have "st s t = RT_THREAD_READY"
      using ready_inX[OF kinv_atD(6)[OF k], of t p] switch(4) by simp
    then have "st s' u = RT_THREAD_SUSPEND" if "ThreadTimer u \<in> set (timer_lists s HardTimers)" for u
      using tt[OF that] unfolding switch(10) by auto
    ultimately show ?thesis using kinv_at_sched_step[OF k _ switch(2)] switch(1,6) by auto
  qed
qed

text \<open>Stopping, detaching and deleting a timer.\<close>

lemma timer_off_kinv:
  assumes k: "kinv_at m b s"
  shows "kinv_at m b (deactivate x (timer_remove x s))"
proof -
  let ?s = "deactivate x (timer_remove x s)"
  have ss: "same_sched s ?s" by (meson same_sched_timer same_sched_trans)
  have "timer_lists_inv ?s"
    using timer_lists_invD[OF kinv_atD(3)[OF k]]
    by (intro timer_lists_invI) (auto simp: distinct_removeAll split: if_splits)
  moreover have "thread_timers_inv ?s"
    using kinv_atD(4)[OF k] unfolding thread_timers_inv_def same_schedD(4)[OF ss] by auto
  moreover have "deadlines_inv m b ?s"
    using kinv_atD(5)[OF k] unfolding deadlines_inv_def by (auto simp: removeAll_filter_not_eq sorted_filter)
  ultimately show ?thesis using k same_schedD(10)[OF ss] by (simp add: kinv_at_def base_ok_def)
qed

lemma stop_same [simp]: "same_sched s (snd (rt_timer_stop x s))" "rt_tick (snd (rt_timer_stop x s)) = rt_tick s"
  "timer_sys.more (snd (rt_timer_stop x s)) = timer_sys.more s" "timer_thread (snd (rt_timer_stop x s)) = timer_thread s"
  unfolding rt_timer_stop_def by (auto intro: same_sched_timer same_sched_trans)

lemma stop_kinv: "kinv_at m b s \<Longrightarrow> kinv_at m b (snd (rt_timer_stop x s))"
  by (simp add: rt_timer_stop_def timer_off_kinv)

lemma stop_unlinks:
  "timer_lists_inv s \<Longrightarrow> x \<notin> set (timer_lists (snd (rt_timer_stop x s)) HardTimers) \<and>
     x \<notin> set (timer_lists (snd (rt_timer_stop x s)) SoftTimers)"
  by (auto simp: rt_timer_stop_def flag_tests dest: timer_lists_invD)

lemma stop_subset: "set (timer_lists (snd (rt_timer_stop x s)) l) \<subseteq> set (timer_lists s l)"
  by (auto simp: rt_timer_stop_def)

text \<open>
  The scheduler part changes for one thread \<open>t\<close> only, whose timer is not running: the timer part of
  the invariant is unaffected.
\<close>

lemma kinv_at_thread_step:
  fixes s s' :: "'a timer_sys_scheme"
  assumes k: "kinv_at m b s" and m: "sched.more s' = sched.more s" and i: "sched_inv s'"
    and st: "\<And>u. u \<noteq> t \<Longrightarrow> st s' u = st s u" and off: "ThreadTimer t \<notin> set (timer_lists s HardTimers)"
  shows "kinv_at m b s'"
proof (rule kinv_at_sched_step[OF k m i])
  fix u assume "ThreadTimer u \<in> set (timer_lists s HardTimers)"
  then show "st s' u = RT_THREAD_SUSPEND"
    using kinv_atD(4)[OF k] st[of u] off by (cases "u = t") (auto simp: thread_timers_inv_def)
qed

text \<open>Resuming.\<close>

lemma resume_kinv:
  assumes k: "kinv_at m b s"
  shows "kinv_at m b (snd (rt_thread_resume t s))"
proof (cases "st s t = RT_THREAD_SUSPEND")
  case True
  let ?s1 = "list_unlink t s" and ?s2 = "snd (rt_timer_stop (ThreadTimer t) s)"
  let ?s3 = "list_unlink t ?s2"
  have comm: "snd (rt_timer_stop (ThreadTimer t) ?s1) = ?s3"
    by (simp add: rt_timer_stop_def list_unlink_def deactivate_def upd_timer_def timer_remove_def)
  note same = same_schedD[OF stop_same(1)[of s "ThreadTimer t"]]
  have k2: "kinv_at m b ?s2" by (rule stop_kinv[OF k])
  let ?s' = "rt_schedule_insert_thread t ?s3"
  have "lists_inv {t} ?s3" using unlink_inv[of "{}" ?s2 t] kinv_atD(6)[OF k2] True same by simp
  then have l: "lists_inv {} ?s'" using insert_inv[of "{t}" ?s3 t] True same by simp
  have "current_inv ?s'"
    using kinv_atD(7)[OF k] same True by (auto simp: current_inv_def insert_st)
  then have i: "sched_inv ?s'" using l by (simp add: sched_inv_def)
  have "kinv_at m b ?s'"
    by (rule kinv_at_thread_step[OF k2 _ i, of t])
       (use stop_unlinks[OF kinv_atD(3)[OF k]] in \<open>auto simp: insert_st\<close>)
  then show ?thesis using True comm by (simp add: rt_thread_resume_def)
qed (use k in \<open>simp add: rt_thread_resume_def\<close>)

text \<open>Starting a timer.\<close>

lemma dist_new:
  assumes b: "base_ok m b s" and i: "i < HALF"
  shows "dist b (rt_tick s + i) \<le> m" "m \<le> 0x7fffffff" "dist b (rt_tick s + i) = 0 \<Longrightarrow> m < 0x7fffffff"
proof -
  have i': "unat i < 0x7fffffff" using i by (simp add: word_less_nat_alt HALF_nat)
  then have "unat i + unat (1 :: rt_tick_t) < 2 ^ LENGTH(32)" by simp
  then have "unat (i + 1) = unat i + 1" by (subst unat_add_lem[THEN iffD1]) simp_all
  moreover have "rt_tick s + i - (rt_tick s - 1) = i + 1" "rt_tick s + i - rt_tick s = i" by simp_all
  ultimately show "dist b (rt_tick s + i) \<le> m" "m \<le> 0x7fffffff" "dist b (rt_tick s + i) = 0 \<Longrightarrow> m < 0x7fffffff"
    using b i' by (auto simp: base_ok_def simp del: unat_add_lem)
qed

text \<open>The state in which \<open>rt_timer_start\<close> has linked the timer, before the timer thread is considered.\<close>

definition timer_linked :: "timer_id \<Rightarrow> 'a timer_sys_scheme \<Rightarrow> 'a timer_sys_scheme" where
  "timer_linked x s = timer_link x (deactivate x (timer_remove x s))"

definition new_deadline :: "timer_id \<Rightarrow> 'a timer_sys_scheme \<Rightarrow> timer_id \<Rightarrow> rt_tick_t" where
  "new_deadline x s y = (if y = x then rt_tick s + timer_init_tick (timers s x) else timeout_tick (timers s y))"

lemma new_deadline_upd:
  "(\<lambda>y. timeout_tick (timers (upd_timer x
       (\<lambda>t. t\<lparr>timeout_tick := rt_tick_get (deactivate x (timer_remove x s)) + timer_init_tick t\<rparr>)
       (deactivate x (timer_remove x s))) y)) = new_deadline x s"
  by (rule ext) (auto simp: new_deadline_def rt_tick_get_def)

lemma linked_flag:
  "flag (timers (timer_linked x s) y) = (if y = x then (flag (timers s x) AND - 2) OR 1 else flag (timers s y))"
  unfolding timer_linked_def timer_link_def Let_def by auto

lemma linked_deadline: "timeout_tick (timers (timer_linked x s) y) = new_deadline x s y"
  unfolding timer_linked_def timer_link_def Let_def new_deadline_def rt_tick_get_def by auto

lemma linked_lists:
  "timer_lists (timer_linked x s) l =
     (if l = (if soft_timer s x then SoftTimers else HardTimers)
      then timer_insert (new_deadline x s) x (removeAll x (timer_lists s l)) else removeAll x (timer_lists s l))"
  unfolding timer_linked_def timer_link_def Let_def new_deadline_upd timer_obs(2) by (simp add: flag_tests)

lemma linked_rest:
  "rt_tick (timer_linked x s) = rt_tick s" "soft_timer_status (timer_linked x s) = soft_timer_status s"
  "timer_thread (timer_linked x s) = timer_thread s" "timer_sys.more (timer_linked x s) = timer_sys.more s"
  unfolding timer_linked_def timer_link_def Let_def by simp_all

lemmas timer_linked_obs = linked_flag linked_deadline linked_lists linked_rest

lemma same_sched_linked [simp]: "same_sched s (timer_linked x s)"
  unfolding timer_linked_def timer_link_def Let_def same_sched_def upd_timer_def deactivate_def timer_remove_def
  by simp

lemma start_linked:
  "rt_timer_start x s =
     (if timer_init_tick (timers s x) < HALF
      then let s' = timer_linked x s in
           if soft_timer s x \<and> soft_timer_status s = RT_SOFT_TIMER_IDLE \<and> st s (timer_thread s) = RT_THREAD_SUSPEND
           then rt_schedule (snd (rt_thread_resume (timer_thread s) s')) else Some s'
      else None)"
proof -
  have "st (timer_linked x s) = st s" by (rule same_schedD(4)[OF same_sched_linked])
  then show ?thesis
    by (simp add: rt_timer_start_def timer_linked_obs Let_def flag_tests flip: timer_linked_def)
qed

lemma linked_kinv:
  assumes k: "kinv_at m b s" and i: "timer_init_tick (timers s x) < HALF"
    and t: "\<And>t. x = ThreadTimer t \<Longrightarrow> st s t = RT_THREAD_SUSPEND"
  shows "kinv_at m b (timer_linked x s)"
proof -
  let ?s = "timer_linked x s"
  let ?dl = "\<lambda>y. timeout_tick (timers ?s y)"
  note same = same_schedD[OF same_sched_linked[of s x]]
  note li = timer_lists_invD[OF kinv_atD(3)[OF k]]
  have sets: "set (timer_lists ?s l) = set (timer_lists s l) - {x} \<union>
      (if l = (if soft_timer s x then SoftTimers else HardTimers) then {x} else {})" for l
    by (subst timer_linked_obs(3)) auto
  have "timer_lists_inv ?s"
  proof (rule timer_lists_invI)
    show "distinct (timer_lists ?s l)" for l
      using li(1)[of l] by (auto simp: timer_linked_obs(3) distinct_removeAll)
    show "l = l'" if "y \<in> set (timer_lists ?s l)" "y \<in> set (timer_lists ?s l')" for l l' y
      using that li(2)[of y l l'] unfolding sets by (auto split: if_splits)
    show "active ?s y \<and> \<not> soft_timer ?s y" if "y \<in> set (timer_lists ?s HardTimers)" for y
      using that li(3)[of y] unfolding sets by (auto simp: timer_linked_obs(1) split: if_splits)
    show "active ?s y \<and> soft_timer ?s y" if "y \<in> set (timer_lists ?s SoftTimers)" for y
      using that li(4)[of y] unfolding sets by (auto simp: timer_linked_obs(1) split: if_splits)
    show "\<exists>l. y \<in> set (timer_lists ?s l)" if a: "active ?s y" for y
    proof (cases "y = x")
      case True
      then show ?thesis by (intro exI[of _ "if soft_timer s x then SoftTimers else HardTimers"]) (simp add: sets)
    next
      case False
      then obtain l where "y \<in> set (timer_lists s l)" using a li(5)[of y] unfolding timer_linked_obs(1) by auto
      then show ?thesis using False by (intro exI[of _ l]) (simp add: sets)
    qed
  qed
  moreover have "thread_timers_inv ?s"
    using kinv_atD(4)[OF k] t unfolding thread_timers_inv_def sets same(4) by (auto simp: timer_linked_obs(1) split: if_splits)
  moreover have "deadlines_inv m b ?s"
  proof -
    let ?xs = "removeAll x (timer_lists s HardTimers)"
    have old: "\<forall>y \<in> set ?xs. dist b (?dl y) \<le> m" "sorted (map (\<lambda>y. dist b (?dl y)) ?xs)"
    proof -
      have e: "map (\<lambda>y. dist b (?dl y)) ?xs = map (\<lambda>y. dist b (timeout_tick (timers s y))) ?xs"
        by (simp add: timer_linked_obs(2) new_deadline_def)
      show "\<forall>y \<in> set ?xs. dist b (?dl y) \<le> m" "sorted (map (\<lambda>y. dist b (?dl y)) ?xs)"
        using kinv_atD(5)[OF k] unfolding e deadlines_inv_def
        by (auto simp: timer_linked_obs(2) new_deadline_def removeAll_filter_not_eq sorted_filter)
    qed
    have new: "?dl x = rt_tick s + timer_init_tick (timers s x)" by (simp add: timer_linked_obs(2) new_deadline_def)
    have dl: "new_deadline x s = ?dl" by (simp add: fun_eq_iff timer_linked_obs(2))
    note d = dist_new[OF kinv_atD(1)[OF k] i, folded new]
    show ?thesis
    proof (cases "soft_timer s x")
      case True
      then show ?thesis using old unfolding deadlines_inv_def by (simp add: timer_linked_obs(3) dl)
    next
      case False
      have "timer_insert ?dl x ?xs = takeWhile (\<lambda>y. dist b (?dl y) \<le> dist b (?dl x)) ?xs @ x #
          dropWhile (\<lambda>y. dist b (?dl y) \<le> dist b (?dl x)) ?xs"
        by (rule timer_insert_split) (use old(1) d in \<open>force+\<close>)
      then have "sorted (map (\<lambda>y. dist b (?dl y)) (timer_insert ?dl x ?xs))"
        using sorted_split_insert[OF old(2), of x] by simp
      moreover have "timer_lists ?s HardTimers = timer_insert ?dl x ?xs" using False by (simp add: timer_linked_obs(3) dl)
      ultimately show ?thesis using old(1) d(1) unfolding deadlines_inv_def by auto
    qed
  qed
  moreover have "base_ok m b ?s" using kinv_atD(1)[OF k] by (simp add: base_ok_def timer_linked_obs)
  ultimately show ?thesis using kinv_atD(2)[OF k] same(10) by (simp add: kinv_at_def)
qed

lemma start_kinv:
  assumes k: "kinv_at m b s" and i: "timer_init_tick (timers s x) < HALF"
    and t: "\<And>t. x = ThreadTimer t \<Longrightarrow> st s t = RT_THREAD_SUSPEND"
    and c: "soft_timer s x \<Longrightarrow> current_thread s \<noteq> None"
  shows "\<exists>s'. rt_timer_start x s = Some s' \<and> kinv_at m b s'"
proof -
  let ?r = "snd (rt_thread_resume (timer_thread s) (timer_linked x s))"
  have k1: "kinv_at m b (timer_linked x s)" by (rule linked_kinv[OF k i t])
  have "current_thread ?r = current_thread s"
    by (simp add: rt_thread_resume_def same_schedD(3)[OF stop_same(1)] same_schedD(3)[OF same_sched_linked])
  then show ?thesis
    using rt_schedule_kinv[OF resume_kinv[OF k1, of "timer_thread s"]] k1 i c unfolding start_linked Let_def by auto
qed

text \<open>Starting a thread's own timer touches nothing else.\<close>

lemma start_thread_timer:
  assumes k: "kinv_at m b s" and i: "timer_init_tick (timers s (ThreadTimer t)) < HALF"
    and t: "st s t = RT_THREAD_SUSPEND"
  shows "rt_timer_start (ThreadTimer t) s = Some (timer_linked (ThreadTimer t) s)"
    "kinv_at m b (timer_linked (ThreadTimer t) s)"
proof -
  have "\<not> soft_timer s (ThreadTimer t)" using kinv_atD(4)[OF k] by (simp add: thread_timers_inv_def)
  then show "rt_timer_start (ThreadTimer t) s = Some (timer_linked (ThreadTimer t) s)"
    using i by (simp add: start_linked Let_def)
  show "kinv_at m b (timer_linked (ThreadTimer t) s)" by (rule linked_kinv[OF k i]) (use t in simp)
qed

lemma set_time_kinv:
  "kinv_at m b s \<Longrightarrow> kinv_at m b (snd (rt_timer_control x (SET_TIME v) s))"
proof -
  let ?s = "upd_timer x (\<lambda>t. t\<lparr>timer_init_tick := v\<rparr>) s"
  assume k: "kinv_at m b s"
  have f: "flag (timers ?s y) = flag (timers s y)" "timeout_tick (timers ?s y) = timeout_tick (timers s y)" for y
    by simp_all
  note same = same_schedD[OF same_sched_timer(1)[of s x]]
  show ?thesis
    using k unfolding rt_timer_control_def timer_ctrl.case snd_conv kinv_at_def base_ok_def timer_lists_inv_def
      thread_timers_inv_def deadlines_inv_def f same by simp
qed

end
