(* ===== verification/RT_Thread.thy ===== *)
theory RT_Thread
  imports RT_Timer
begin

text \<open>
  \<open>src/rt-thread/src/thread.c\<close>: creating, starting, suspending, resuming, delaying and ending threads.
  A function that goes on after \<open>rt_schedule()\<close> is split there: the part before runs up to and
  including the scheduling decision, the tail is what the thread executes when it runs again. Hooks and
  \<open>cleanup\<close> are null, as initialised; \<open>RT_ASSERT\<close> on null pointers and object types hold by typing, all
  others give \<open>None\<close>. Functions that can only return \<open>RT_EOK\<close> return just the state.
\<close>

section \<open>Operations\<close>

definition rt_thread_self :: "'a sched_scheme \<Rightarrow> tid option" where
  "rt_thread_self s = current_thread s"

definition rt_thread_suspend :: "tid \<Rightarrow> 'a timer_sys_scheme \<Rightarrow> (int \<times> 'a timer_sys_scheme) option" where
  "rt_thread_suspend t s =
     (if st s t \<noteq> RT_THREAD_READY \<and> st s t \<noteq> RT_THREAD_RUNNING then Some (-1, s)
      else if st s t = RT_THREAD_RUNNING \<and> rt_thread_self s \<noteq> Some t then None
      else let s1 = rt_schedule_remove_thread t s;
               s2 = upd_tcb t (set_stat RT_THREAD_SUSPEND) s1
           in Some (0, snd (rt_timer_stop (ThreadTimer t) s2)))"

definition rt_thread_timeout :: "tid \<Rightarrow> 'a timer_sys_scheme \<Rightarrow> 'a timer_sys_scheme option" where
  "rt_thread_timeout t s =
     (if st s t = RT_THREAD_SUSPEND
      then rt_schedule (rt_schedule_insert_thread t (list_unlink t (upd_tcb t (\<lambda>th. th\<lparr>error := -2\<rparr>) s)))
      else None)"

text \<open>
  \<open>_rt_thread_init\<close> for an object of static or dynamic storage; it leaves the event fields as they are.
\<close>

definition thread_init ::
  "bool \<Rightarrow> tid \<Rightarrow> u8 \<Rightarrow> 32 word \<Rightarrow> 'a timer_sys_scheme \<Rightarrow> 'a timer_sys_scheme option" where
  "thread_init static t priority tick s =
     (if unat priority < RT_THREAD_PRIORITY_MAX
      then Some (timer_init (ThreadTimer t) 0 0
             (upd_tcb t (\<lambda>th. th\<lparr>init_priority := priority, current_priority := priority, number_mask := 0,
                                 init_tick := ucast tick, remaining_tick := ucast tick, error := 0,
                                 stat := RT_THREAD_INIT, static_object := static\<rparr>) s))
      else None)"

definition rt_thread_init :: "tid \<Rightarrow> u8 \<Rightarrow> 32 word \<Rightarrow> 'a timer_sys_scheme \<Rightarrow> 'a timer_sys_scheme option" where
  "rt_thread_init = thread_init True"

text \<open>\<open>rt_thread_create\<close>, given what the two allocations return: no object or no stack is \<open>RT_NULL\<close>.\<close>

definition rt_thread_create ::
  "tid option \<Rightarrow> bool \<Rightarrow> u8 \<Rightarrow> 32 word \<Rightarrow> 'a timer_sys_scheme \<Rightarrow> (tid option \<times> 'a timer_sys_scheme) option" where
  "rt_thread_create obj stack_ok priority tick s =
     (case obj of
        None \<Rightarrow> Some (None, s)
      | Some t \<Rightarrow> if \<not> stack_ok then Some (None, s)
                  else do { s1 \<leftarrow> thread_init False t priority tick s; Some (Some t, s1) })"

text \<open>The priority attributes; shifting the \<open>int\<close> constant by 32 or more is undefined.\<close>

definition set_priority :: "u8 \<Rightarrow> rt_thread \<Rightarrow> rt_thread" where
  "set_priority p th = th\<lparr>current_priority := p, number_mask := push_bit (unat p) 1\<rparr>"

definition rt_thread_startup :: "tid \<Rightarrow> 'a timer_sys_scheme \<Rightarrow> 'a timer_sys_scheme option" where
  "rt_thread_startup t s =
     (if st s t = RT_THREAD_INIT
      then let s1 = upd_tcb t (\<lambda>th. (set_priority (init_priority th) th)\<lparr>stat := RT_THREAD_SUSPEND\<rparr>) s;
               s2 = snd (rt_thread_resume t s1)
           in if rt_thread_self s2 \<noteq> None then rt_schedule s2 else Some s2
      else None)"

definition rt_thread_detach :: "tid \<Rightarrow> 'a timer_sys_scheme \<Rightarrow> 'a timer_sys_scheme" where
  "rt_thread_detach t s =
     (if st s t = RT_THREAD_CLOSE then s
      else let s1 = (if st s t \<noteq> RT_THREAD_INIT then rt_schedule_remove_thread t s else s);
               s2 = rt_timer_detach (ThreadTimer t) s1
           in upd_tcb t (\<lambda>th. th\<lparr>stat := RT_THREAD_CLOSE\<rparr>) s2)"

definition list_push :: "rt_list_head \<Rightarrow> tid \<Rightarrow> 'a sched_scheme \<Rightarrow> 'a sched_scheme" where
  "list_push l t s = s\<lparr>queues := (queues s)(l := t # queues s l)\<rparr>"

definition rt_thread_delete :: "tid \<Rightarrow> 'a timer_sys_scheme \<Rightarrow> 'a timer_sys_scheme" where
  "rt_thread_delete t s =
     (if st s t = RT_THREAD_CLOSE then s
      else let s1 = (if st s t \<noteq> RT_THREAD_INIT then rt_schedule_remove_thread t s else s);
               s2 = rt_timer_detach (ThreadTimer t) s1
           in list_push Defunct t (upd_tcb t (\<lambda>th. th\<lparr>stat := RT_THREAD_CLOSE\<rparr>) s2))"

definition rt_thread_exit :: "'a timer_sys_scheme \<Rightarrow> 'a timer_sys_scheme option" where
  "rt_thread_exit s =
     do { t \<leftarrow> rt_thread_self s;
          let s1 = upd_tcb t (\<lambda>th. th\<lparr>stat := RT_THREAD_CLOSE\<rparr>) (rt_schedule_remove_thread t s);
          let s2 = rt_timer_detach (ThreadTimer t) s1;
          rt_schedule (if static_object (tcb s2 t) then s2 else list_push Defunct t s2) }"

definition rt_thread_yield :: "'a timer_sys_scheme \<Rightarrow> 'a timer_sys_scheme option" where
  "rt_thread_yield s =
     do { t \<leftarrow> rt_thread_self s;
          rt_schedule (upd_tcb t (\<lambda>th. th\<lparr>remaining_tick := init_tick th, stat := stat th OR RT_THREAD_STAT_YIELD\<rparr>) s) }"

text \<open>Suspending with a timeout: the sequence that every blocking call uses.\<close>

definition suspend_for :: "tid \<Rightarrow> rt_tick_t \<Rightarrow> 'a timer_sys_scheme \<Rightarrow> 'a timer_sys_scheme option" where
  "suspend_for t tick s =
     do { (r, s1) \<leftarrow> rt_thread_suspend t s;
          rt_timer_start (ThreadTimer t) (snd (rt_timer_control (ThreadTimer t) (SET_TIME tick) s1)) }"

definition rt_thread_sleep :: "rt_tick_t \<Rightarrow> 'a timer_sys_scheme \<Rightarrow> 'a timer_sys_scheme option" where
  "rt_thread_sleep tick s =
     do { t \<leftarrow> rt_thread_self s; s1 \<leftarrow> suspend_for t tick s; rt_schedule s1 }"

definition rt_thread_sleep_tail :: "tid \<Rightarrow> 'a sched_scheme \<Rightarrow> 'a sched_scheme" where
  "rt_thread_sleep_tail t s =
     (if error (tcb s t) = -2 then upd_tcb t (\<lambda>th. th\<lparr>error := 0\<rparr>) s else s)"

definition rt_thread_delay :: "rt_tick_t \<Rightarrow> 'a timer_sys_scheme \<Rightarrow> 'a timer_sys_scheme option" where
  "rt_thread_delay = rt_thread_sleep"

definition rt_thread_mdelay :: "32 word \<Rightarrow> 'a timer_sys_scheme \<Rightarrow> 'a timer_sys_scheme option" where
  "rt_thread_mdelay ms = rt_thread_sleep (rt_tick_from_millisecond ms)"

text \<open>
  \<open>rt_thread_delay_until\<close>: the first component is the new \<open>*tick\<close>. When it does block, the tail is that of
  \<open>rt_thread_sleep\<close>.
\<close>

definition rt_thread_delay_until ::
  "rt_tick_t \<Rightarrow> rt_tick_t \<Rightarrow> 'a timer_sys_scheme \<Rightarrow> (rt_tick_t \<times> 'a timer_sys_scheme) option" where
  "rt_thread_delay_until tick inc_tick s =
     do { t \<leftarrow> rt_thread_self s;
          let cur_tick = rt_tick_get s;
          if cur_tick - tick < inc_tick
          then do { let tick' = tick + inc_tick;
                    s1 \<leftarrow> suspend_for t (tick' - cur_tick) s;
                    s2 \<leftarrow> rt_schedule s1;
                    Some (tick', s2) }
          else Some (cur_tick, s) }"

text \<open>\<open>rt_thread_control\<close>, one definition per command.\<close>

definition rt_thread_change_priority :: "tid \<Rightarrow> u8 \<Rightarrow> 'a sched_scheme \<Rightarrow> 'a sched_scheme option" where
  "rt_thread_change_priority t p s =
     (if unat p < 32
      then Some (if st s t = RT_THREAD_READY
                 then rt_schedule_insert_thread t (upd_tcb t (set_priority p) (rt_schedule_remove_thread t s))
                 else upd_tcb t (set_priority p) s)
      else None)"

definition rt_thread_close :: "tid \<Rightarrow> 'a timer_sys_scheme \<Rightarrow> 'a timer_sys_scheme option" where
  "rt_thread_close t s =
     rt_schedule (if static_object (tcb s t) then rt_thread_detach t s else rt_thread_delete t s)"

datatype thread_ctrl = CHANGE_PRIORITY u8 | STARTUP | CLOSE_THREAD | OTHER_THREAD_CTRL

definition rt_thread_control :: "tid \<Rightarrow> thread_ctrl \<Rightarrow> 'a timer_sys_scheme \<Rightarrow> 'a timer_sys_scheme option" where
  "rt_thread_control t cmd s =
     (case cmd of
        CHANGE_PRIORITY p \<Rightarrow> rt_thread_change_priority t p s
      | STARTUP \<Rightarrow> rt_thread_startup t s
      | CLOSE_THREAD \<Rightarrow> rt_thread_close t s
      | OTHER_THREAD_CTRL \<Rightarrow> Some s)"

section \<open>Suspending and timing out\<close>

lemma suspend_kinv:
  assumes k: "kinv_at m b s" and r: "st s t = RT_THREAD_READY \<or> st s t = RT_THREAD_RUNNING"
  obtains s' where "rt_thread_suspend t s = Some (0, s')" "kinv_at m b s'" "st s' t = RT_THREAD_SUSPEND"
    "\<And>l. queues s' l = removeAll t (queues s l)" "\<And>u. u \<noteq> t \<Longrightarrow> tcb s' u = tcb s u"
    "tcb s' t = set_stat RT_THREAD_SUSPEND (tcb s t)"
    "current_thread s' = current_thread s" "scheduler_lock_nest s' = scheduler_lock_nest s"
    "interrupt_nest s' = interrupt_nest s" "rt_tick s' = rt_tick s" "timer_sys.more s' = timer_sys.more s"
proof -
  let ?s1 = "rt_schedule_remove_thread t s"
  let ?s2 = "upd_tcb t (set_stat RT_THREAD_SUSPEND) ?s1"
  let ?x = "ThreadTimer t"
  have cur: "st s t = RT_THREAD_RUNNING \<longrightarrow> current_thread s = Some t"
    using kinv_atD(7)[OF k] by (simp add: current_inv_def)
  have ni: "st s t \<notin> {RT_THREAD_INIT, RT_THREAD_CLOSE}" using r by auto
  have "lists_inv {t} ?s2"
    using remove_inv[OF kinv_atD(6)[OF k] ni] prio_ok_st[OF kinv_atD(6)[OF k] ni] by (intro upd_transit) simp_all
  then have "lists_inv {} ?s2" using leave_transit[of "{t}" ?s2 t] by (simp add: st_upd_tcb)
  moreover have "current_inv ?s2" using kinv_atD(7)[OF k] by (auto simp: current_inv_def st_upd_tcb)
  ultimately have i: "sched_inv ?s2" by (simp add: sched_inv_def)
  have off: "?x \<notin> set (timer_lists s HardTimers)"
    using kinv_atD(4)[OF k] r by (auto simp: thread_timers_inv_def)
  have k2: "kinv_at m b ?s2" by (rule kinv_at_thread_step[OF k _ i, of t]) (use off in \<open>auto simp: st_upd_tcb\<close>)
  let ?s' = "snd (rt_timer_stop ?x ?s2)"
  note same = same_schedD[OF stop_same(1)[of ?s2 ?x]]
  have "rt_thread_suspend t s = Some (0, ?s')"
    using r cur by (auto simp: rt_thread_suspend_def Let_def rt_thread_self_def)
  then show ?thesis
    by (rule that) (use stop_kinv[OF k2] same more_timer[of ?s2 s] in \<open>simp_all add: st_upd_tcb\<close>)
qed

text \<open>A thread whose timer fires is suspended, so the assertion of \<open>rt_thread_timeout\<close> holds.\<close>

lemma timeout_kinv:
  assumes k: "kinv_at m b s" and t: "st s t = RT_THREAD_SUSPEND" and off: "ThreadTimer t \<notin> set (timer_lists s HardTimers)"
    and c: "current_thread s \<noteq> None"
  obtains s' where "rt_thread_timeout t s = Some s'" "kinv_at m b s'" "sched.more s' = sched.more s"
    "runnable s' t" "error (tcb s' t) = -2" "current_thread s' \<noteq> None"
    "\<And>u. u \<noteq> t \<Longrightarrow> runnable s' u = runnable s u" "\<And>u. u \<noteq> t \<Longrightarrow> \<not> runnable s u \<Longrightarrow> st s' u = st s u"
proof -
  let ?s1 = "upd_tcb t (\<lambda>th. th\<lparr>error := -2\<rparr>) s"
  let ?s3 = "rt_schedule_insert_thread t (list_unlink t ?s1)"
  have st1: "st ?s1 = st s" by (auto simp: fun_eq_iff st_upd_tcb st_def)
  have "lists_inv {} ?s1" using kinv_atD(6)[OF k] by (intro upd_same) (simp_all add: st_def)
  then have "lists_inv {t} (list_unlink t ?s1)" using unlink_inv[of "{}" ?s1 t] t by (simp add: st1)
  then have l: "lists_inv {} ?s3" using insert_inv[of "{t}" "list_unlink t ?s1" t] t by (simp add: st1)
  have st3: "st ?s3 u = (if u = t then if current_thread s = Some t then RT_THREAD_RUNNING else RT_THREAD_READY else st s u)" for u
    by (simp add: insert_st st1)
  have "current_inv ?s3" using kinv_atD(7)[OF k] t unfolding current_inv_def st3 by auto
  then have i: "sched_inv ?s3" using l by (simp add: sched_inv_def)
  have k3: "kinv_at m b ?s3" by (rule kinv_at_thread_step[OF k _ i, of t]) (use off st3 in auto)
  obtain s' where s': "rt_schedule ?s3 = Some s'" "kinv_at m b s'" "current_thread s' \<noteq> None"
    using rt_schedule_kinv[OF k3] c by auto
  note rs = rt_schedule_runnable[OF i _ s'(1)] rt_schedule_frame[OF s'(1)]
  have run3: "runnable ?s3 u = (u = t \<or> runnable s u)" for u unfolding runnable_def st3 by auto
  show ?thesis
  proof (rule that[of s'])
    show "rt_thread_timeout t s = Some s'" using t s'(1) by (simp add: rt_thread_timeout_def)
    show "sched.more s' = sched.more s" using rs(3) by simp
    show "error (tcb s' t) = -2" using rs(3)[of t] by simp
  qed (use s' rs(1,2) c run3 st3 in auto)
qed

lemma control_set_time [simp]:
  "same_sched s (snd (rt_timer_control x (SET_TIME v) s))" "rt_tick (snd (rt_timer_control x (SET_TIME v) s)) = rt_tick s"
  "timer_init_tick (timers (snd (rt_timer_control x (SET_TIME v) s)) x) = v"
  "timer_lists (snd (rt_timer_control x (SET_TIME v) s)) = timer_lists s"
  "timer_sys.more (snd (rt_timer_control x (SET_TIME v) s)) = timer_sys.more s"
  by (simp_all add: rt_timer_control_def)

text \<open>
  Starting the timer of a suspended thread: the list of hard timers gains it, the rest stays.
\<close>

lemma start_own_timer:
  assumes k: "kinv_at m b s" and t: "st s t = RT_THREAD_SUSPEND" and v: "v < HALF"
  obtains s' where
    "rt_timer_start (ThreadTimer t) (snd (rt_timer_control (ThreadTimer t) (SET_TIME v) s)) = Some s'"
    "kinv_at m b s'" "same_sched s s'" "rt_tick s' = rt_tick s" "timer_sys.more s' = timer_sys.more s"
    "ThreadTimer t \<in> set (timer_lists s' HardTimers)" "timeout_tick (timers s' (ThreadTimer t)) = rt_tick s + v"
proof -
  let ?x = "ThreadTimer t"
  let ?s1 = "snd (rt_timer_control ?x (SET_TIME v) s)"
  note same = same_schedD[OF control_set_time(1)[of s ?x v]]
  have k1: "kinv_at m b ?s1" by (rule set_time_kinv[OF k])
  have h: "\<not> soft_timer ?s1 ?x" using kinv_atD(4)[OF k1] by (simp add: thread_timers_inv_def)
  have st1: "st ?s1 t = RT_THREAD_SUSPEND" using t same(4) by simp
  show ?thesis
    by (rule that[OF start_thread_timer(1)[OF k1 _ st1] start_thread_timer(2)[OF k1 _ st1]])
       (use v h in \<open>auto simp: timer_linked_obs new_deadline_def intro: same_sched_trans[OF control_set_time(1) same_sched_linked]\<close>)
qed

lemma suspend_for_kinv:
  assumes k: "kinv_at m b s" and r: "runnable s t" and v: "v < HALF"
  obtains s' where "suspend_for t v s = Some s'" "kinv_at m b s'" "st s' t = RT_THREAD_SUSPEND"
    "\<And>l. queues s' l = removeAll t (queues s l)" "\<And>u. u \<noteq> t \<Longrightarrow> tcb s' u = tcb s u"
    "current_thread s' = current_thread s" "rt_tick s' = rt_tick s" "timer_sys.more s' = timer_sys.more s"
    "ThreadTimer t \<in> set (timer_lists s' HardTimers)" "timeout_tick (timers s' (ThreadTimer t)) = rt_tick s + v"
proof -
  obtain s1 where s1: "rt_thread_suspend t s = Some (0, s1)" "kinv_at m b s1" "st s1 t = RT_THREAD_SUSPEND"
    "\<And>l. queues s1 l = removeAll t (queues s l)" "\<And>u. u \<noteq> t \<Longrightarrow> tcb s1 u = tcb s u"
    "current_thread s1 = current_thread s" "rt_tick s1 = rt_tick s" "timer_sys.more s1 = timer_sys.more s"
    using suspend_kinv[OF k r[unfolded runnable_def]] by metis
  obtain s2 where s2: "rt_timer_start (ThreadTimer t) (snd (rt_timer_control (ThreadTimer t) (SET_TIME v) s1)) = Some s2"
    "kinv_at m b s2" "same_sched s1 s2" "rt_tick s2 = rt_tick s1" "timer_sys.more s2 = timer_sys.more s1"
    "ThreadTimer t \<in> set (timer_lists s2 HardTimers)" "timeout_tick (timers s2 (ThreadTimer t)) = rt_tick s1 + v"
    using start_own_timer[OF s1(2,3) v] by blast
  show ?thesis
    by (rule that[of s2]) (use s1 s2 same_schedD[OF s2(3)] in \<open>simp_all add: suspend_for_def\<close>)
qed

section \<open>The invariant is kept\<close>

lemma sleep_kinv:
  assumes k: "kinv_at m b s" and c: "current_thread s = Some t" "st s t = RT_THREAD_RUNNING" and v: "v < HALF"
  shows "\<exists>s'. rt_thread_sleep v s = Some s' \<and> kinv_at m b s' \<and> current_thread s' \<noteq> None"
proof -
  obtain s1 where s1: "suspend_for t v s = Some s1" "kinv_at m b s1" "current_thread s1 = current_thread s"
    using suspend_for_kinv[OF k _ v, of t] c unfolding runnable_def by metis
  then show ?thesis using rt_schedule_kinv[OF s1(2)] c by (simp add: rt_thread_sleep_def rt_thread_self_def)
qed

lemma upd_kinv:
  assumes k: "kinv_at m b s" and f: "stat (f (tcb s t)) AND 7 = st s t"
    "current_priority (f (tcb s t)) = current_priority (tcb s t)" "number_mask (f (tcb s t)) = number_mask (tcb s t)"
    "init_priority (f (tcb s t)) = init_priority (tcb s t)"
  shows "kinv_at m b (upd_tcb t f s)"
proof -
  have st: "st (upd_tcb t f s) = st s" using f by (auto simp: fun_eq_iff st_upd_tcb)
  have "current_inv (upd_tcb t f s)" using kinv_atD(7)[OF k] unfolding current_inv_def st by simp
  then have "sched_inv (upd_tcb t f s)" using upd_same[OF kinv_atD(6)[OF k], of f t] f by (simp add: sched_inv_def)
  then show ?thesis
    by (rule kinv_at_sched_step[OF k, rotated]) (use kinv_atD(4)[OF k] st in \<open>auto simp: thread_timers_inv_def\<close>)
qed

lemma yield_kinv:
  assumes k: "kinv_at m b s" and c: "current_thread s = Some t"
  shows "\<exists>s'. rt_thread_yield s = Some s' \<and> kinv_at m b s' \<and> current_thread s' \<noteq> None"
proof -
  have y: "(x OR 8) AND 7 = x AND (7 :: u8)" for x by (simp add: bit.conj_disj_distrib2)
  have "kinv_at m b (upd_tcb t (\<lambda>th. th\<lparr>remaining_tick := init_tick th, stat := stat th OR RT_THREAD_STAT_YIELD\<rparr>) s)"
    using k by (intro upd_kinv) (simp_all add: st_def y)
  then show ?thesis using rt_schedule_kinv c by (fastforce simp: rt_thread_yield_def rt_thread_self_def)
qed

lemma sleep_tail_kinv: "kinv_at m b s \<Longrightarrow> kinv_at m b (rt_thread_sleep_tail t s)"
  by (simp add: rt_thread_sleep_tail_def upd_kinv st_def)

lemma prio_ok_set_priority: "prio_ok th \<Longrightarrow> unat p < 32 \<Longrightarrow> prio_ok (set_priority p th)"
  by (simp add: prio_ok_def set_priority_def)

lemma set_priority_stat [simp]: "stat (set_priority p th) = stat th"
  by (simp add: set_priority_def)

lemma change_priority_kinv:
  assumes k: "kinv_at m b s" and p: "unat p < 32"
  obtains s' where "rt_thread_change_priority t p s = Some s'" "kinv_at m b s'" "current_thread s' = current_thread s"
    "st s' = st s" "prio s' = (prio s)(t := unat p)" "sched.more s' = sched.more s"
    "\<And>l u. u \<noteq> t \<Longrightarrow> u \<in> set (queues s' l) \<longleftrightarrow> u \<in> set (queues s l)"
proof (cases "st s t = RT_THREAD_READY")
  case True
  let ?s1 = "upd_tcb t (set_priority p) (rt_schedule_remove_thread t s)"
  let ?s' = "rt_schedule_insert_thread t ?s1"
  have nc: "current_thread s \<noteq> Some t" using True kinv_atD(7)[OF k] by (auto simp: current_inv_def)
  have "lists_inv {t} ?s1"
    using remove_inv[OF kinv_atD(6)[OF k], of t] True prio_ok_set_priority[OF lists_inv_prio[OF kinv_atD(6)[OF k]] p]
    by (intro upd_transit) simp_all
  then have l: "lists_inv {} ?s'" using insert_inv[of "{t}" ?s1 t] True by (simp add: st_upd_tcb st_def)
  have st: "st ?s' = st s" using True nc by (auto simp: fun_eq_iff insert_st st_upd_tcb)
  have "current_inv ?s'" using kinv_atD(7)[OF k] unfolding current_inv_def st by simp
  then have i: "sched_inv ?s'" using l by (simp add: sched_inv_def)
  have k': "kinv_at m b ?s'"
    by (rule kinv_at_sched_step[OF k _ i]) (use kinv_atD(4)[OF k] st in \<open>auto simp: thread_timers_inv_def\<close>)
  show ?thesis
    by (rule that[OF _ k' _ st]) (use True p nc in \<open>auto simp: rt_thread_change_priority_def prio_upd_tcb set_priority_def\<close>)
next
  case False
  let ?s' = "upd_tcb t (set_priority p) s"
  have l: "lists_inv {} ?s'"
    using kinv_atD(6)[OF k] prio_ok_set_priority[OF lists_inv_prio[OF kinv_atD(6)[OF k]] p] False
    by (intro upd_not_ready) (simp_all add: st_def)
  have st: "st ?s' = st s" by (auto simp: fun_eq_iff st_upd_tcb st_def)
  have "current_inv ?s'" using kinv_atD(7)[OF k] unfolding current_inv_def st by simp
  then have i: "sched_inv ?s'" using l by (simp add: sched_inv_def)
  have k': "kinv_at m b ?s'"
    by (rule kinv_at_sched_step[OF k _ i]) (use kinv_atD(4)[OF k] st in \<open>auto simp: thread_timers_inv_def\<close>)
  show ?thesis
    by (rule that[OF _ k' _ st]) (use False p in \<open>auto simp: rt_thread_change_priority_def prio_upd_tcb set_priority_def\<close>)
qed

text \<open>A thread in the initial state is linked nowhere.\<close>

lemma init_unlinked:
  assumes k: "kinv_at m b s" and t: "st s t = RT_THREAD_INIT"
  shows "t \<notin> set (queues s l)" "ThreadTimer t \<notin> set (timer_lists s HardTimers)"
  using linked_st[OF kinv_atD(6)[OF k], of t l] t kinv_atD(4)[OF k] by (auto simp: thread_timers_inv_def)

lemma startup_kinv:
  assumes k: "kinv_at m b s" and t: "st s t = RT_THREAD_INIT" and nc: "current_thread s \<noteq> Some t"
  shows "\<exists>s'. rt_thread_startup t s = Some s' \<and> kinv_at m b s' \<and> (current_thread s' = None \<longleftrightarrow> current_thread s = None)"
proof -
  let ?f = "\<lambda>th. (set_priority (init_priority th) th)\<lparr>stat := RT_THREAD_SUSPEND\<rparr>"
  let ?s1 = "upd_tcb t ?f s"
  have "lists_inv {t} ?s1"
    using enter_transit[OF kinv_atD(6)[OF k], of t] init_unlinked[OF k t] lists_inv_prio[OF kinv_atD(6)[OF k], of t]
    by (intro upd_transit) (auto simp: prio_ok_def set_priority_def)
  then have l: "lists_inv {} ?s1" using leave_transit[of "{t}" ?s1 t] by (simp add: st_upd_tcb)
  have "current_inv ?s1" using kinv_atD(7)[OF k] nc by (auto simp: current_inv_def st_upd_tcb)
  then have i: "sched_inv ?s1" using l by (simp add: sched_inv_def)
  have k1: "kinv_at m b ?s1"
    by (rule kinv_at_thread_step[OF k _ i, of t]) (use init_unlinked[OF k t] in \<open>auto simp: st_upd_tcb\<close>)
  let ?s2 = "snd (rt_thread_resume t ?s1)"
  have c: "current_thread ?s2 = current_thread s"
    by (simp add: rt_thread_resume_def same_schedD(3)[OF stop_same(1)])
  show ?thesis
  proof (cases "current_thread s = None")
    case True
    then show ?thesis using resume_kinv[OF k1] t c by (simp add: rt_thread_startup_def rt_thread_self_def)
  next
    case False
    then show ?thesis using rt_schedule_kinv[OF resume_kinv[OF k1, of t]] t c
      by (auto simp: rt_thread_startup_def rt_thread_self_def)
  qed
qed

text \<open>Closing a thread: out of every list, timer off, state closed.\<close>

definition closed :: "tid \<Rightarrow> 'a timer_sys_scheme \<Rightarrow> 'a timer_sys_scheme" where
  "closed t s = upd_tcb t (\<lambda>th. th\<lparr>stat := RT_THREAD_CLOSE\<rparr>)
     (rt_timer_detach (ThreadTimer t) (if st s t \<noteq> RT_THREAD_INIT then rt_schedule_remove_thread t s else s))"

lemma detach_commutes:
  "rt_timer_detach x (rt_schedule_remove_thread t s) = rt_schedule_remove_thread t (rt_timer_detach x s)"
  by (simp add: rt_timer_detach_def deactivate_def upd_timer_def timer_remove_def rt_schedule_remove_thread_def
      list_unlink_def prio_def Let_def)

lemma detach_obs:
  "same_sched s (rt_timer_detach x s)" "rt_tick (rt_timer_detach x s) = rt_tick s"
  "timer_sys.more (rt_timer_detach x s) = timer_sys.more s"
  "timer_lists (rt_timer_detach x s) l = removeAll x (timer_lists s l)"
  by (simp_all add: rt_timer_detach_def same_sched_def deactivate_def upd_timer_def timer_remove_def)

lemma closed_kinv:
  assumes k: "kinv_at m b s" and t: "st s t \<noteq> RT_THREAD_CLOSE"
  shows "kinv_at m b (closed t s)" "st (closed t s) t = RT_THREAD_CLOSE" "t \<notin> set (queues (closed t s) l)"
    "current_thread (closed t s) = current_thread s" "static_object (tcb (closed t s) t) = static_object (tcb s t)"
proof -
  let ?d = "rt_timer_detach (ThreadTimer t) s"
  let ?r = "if st s t \<noteq> RT_THREAD_INIT then rt_schedule_remove_thread t ?d else ?d"
  let ?s' = "upd_tcb t (\<lambda>th. th\<lparr>stat := RT_THREAD_CLOSE\<rparr>) ?r"
  note same = same_schedD[OF detach_obs(1)[of s "ThreadTimer t"]]
  have eq: "closed t s = ?s'" by (simp add: closed_def detach_commutes)
  have kd: "kinv_at m b ?d" unfolding rt_timer_detach_def by (rule timer_off_kinv[OF k])
  have "lists_inv {t} ?r"
    using remove_inv[OF kinv_atD(6)[OF kd], of t] enter_transit[OF kinv_atD(6)[OF kd], of t] init_unlinked[OF kd] t
    by (auto simp: same)
  then have "lists_inv {t} ?s'"
    using lists_inv_prio[OF kinv_atD(6)[OF k], of t] by (intro upd_transit) (auto simp: prio_ok_def same)
  then have l: "lists_inv {} ?s'" and out: "t \<notin> set (queues ?s' l)"
    using leave_transit[of "{t}" ?s' t] lists_inv_transit[of "{t}" ?s' t l] by (simp_all add: st_upd_tcb)
  have "current_inv ?s'" using kinv_atD(7)[OF k] by (auto simp: current_inv_def st_upd_tcb same)
  then have i: "sched_inv ?s'" using l by (simp add: sched_inv_def)
  have "kinv_at m b ?s'"
    by (rule kinv_at_thread_step[OF kd _ i, of t]) (auto simp: st_upd_tcb detach_obs)
  then show "kinv_at m b (closed t s)" "st (closed t s) t = RT_THREAD_CLOSE" "t \<notin> set (queues (closed t s) l)"
    "current_thread (closed t s) = current_thread s" "static_object (tcb (closed t s) t) = static_object (tcb s t)"
    unfolding eq using out by (simp_all add: st_upd_tcb same)
qed

lemma push_defunct_kinv:
  assumes k: "kinv_at m b s" and t: "st s t = RT_THREAD_CLOSE" "\<And>l. t \<notin> set (queues s l)"
  shows "kinv_at m b (list_push Defunct t s)"
proof -
  have e: "list_push Defunct t s = s\<lparr>queues := (queues s)(Defunct := t # queues s Defunct)\<rparr>" by (simp add: list_push_def)
  have "lists_inv {} (list_push Defunct t s)"
    using link_wait[OF enter_transit[OF kinv_atD(6)[OF k] t(2)], of t Defunct "t # queues s Defunct"] t(1)
    by (simp add: e)
  moreover have st: "st (list_push Defunct t s) = st s" by (auto simp: fun_eq_iff st_def list_push_def)
  moreover have "current_inv (list_push Defunct t s)"
    using kinv_atD(7)[OF k] unfolding current_inv_def st by (simp add: list_push_def)
  ultimately show ?thesis
    by (intro kinv_at_sched_step[OF k]) (use kinv_atD(4)[OF k] in \<open>auto simp: sched_inv_def list_push_def thread_timers_inv_def\<close>)
qed

lemma detach_kinv: "kinv_at m b s \<Longrightarrow> kinv_at m b (rt_thread_detach t s)"
  using closed_kinv(1)[of m b s t] by (auto simp: rt_thread_detach_def closed_def)

lemma delete_eq: "rt_thread_delete t s = (if st s t = RT_THREAD_CLOSE then s else list_push Defunct t (closed t s))"
  by (simp add: rt_thread_delete_def closed_def)

lemma delete_kinv: "kinv_at m b s \<Longrightarrow> kinv_at m b (rt_thread_delete t s)"
  using closed_kinv[of m b s t] push_defunct_kinv[of m b "closed t s" t] by (simp add: delete_eq)

lemma exit_kinv:
  assumes k: "kinv_at m b s" and c: "current_thread s = Some t" and t: "st s t \<noteq> RT_THREAD_CLOSE" "st s t \<noteq> RT_THREAD_INIT"
  shows "\<exists>s'. rt_thread_exit s = Some s' \<and> kinv_at m b s' \<and> current_thread s' \<noteq> None"
proof -
  have e: "closed t s = rt_timer_detach (ThreadTimer t) (upd_tcb t (\<lambda>th. th\<lparr>stat := RT_THREAD_CLOSE\<rparr>) (rt_schedule_remove_thread t s))"
    using t(2) by (simp add: closed_def rt_timer_detach_def deactivate_def upd_timer_def timer_remove_def upd_tcb_def)
  let ?s = "if static_object (tcb (closed t s) t) then closed t s else list_push Defunct t (closed t s)"
  note cl = closed_kinv[OF k t(1)]
  have "kinv_at m b ?s" using cl(1) push_defunct_kinv[OF cl(1,2,3)] by simp
  moreover have "current_thread ?s = Some t" using cl(4) c by (simp add: list_push_def)
  moreover have "rt_thread_exit s = rt_schedule ?s"
    using c by (simp add: rt_thread_exit_def rt_thread_self_def e)
  ultimately show ?thesis using rt_schedule_kinv[of m b ?s] by simp
qed

text \<open>
  Initialising a thread object: it must not be in use, that is, not linked and not the current thread.
\<close>

lemma thread_init_kinv:
  assumes k: "kinv_at m b s" and p: "unat p < 32" and t: "\<And>l. t \<notin> set (queues s l)"
    "\<And>l. ThreadTimer t \<notin> set (timer_lists s l)" and nc: "current_thread s \<noteq> Some t"
  shows "\<exists>s'. thread_init b0 t p tick s = Some s' \<and> kinv_at m b s' \<and> st s' t = RT_THREAD_INIT \<and>
    current_thread s' = current_thread s"
proof -
  let ?f = "\<lambda>th. th\<lparr>init_priority := p, current_priority := p, number_mask := 0, init_tick := ucast tick,
      remaining_tick := ucast tick, error := 0, stat := RT_THREAD_INIT, static_object := b0\<rparr>"
  let ?s1 = "upd_tcb t ?f s"
  let ?s' = "timer_init (ThreadTimer t) 0 0 ?s1"
  have "lists_inv {t} ?s1"
    using enter_transit[OF kinv_atD(6)[OF k], of t] t p by (intro upd_transit) (auto simp: prio_ok_def)
  then have l: "lists_inv {} ?s1" using leave_transit[of "{t}" ?s1 t] by (simp add: st_upd_tcb)
  have "current_inv ?s1" using kinv_atD(7)[OF k] nc by (auto simp: current_inv_def st_upd_tcb)
  then have i: "sched_inv ?s1" using l by (simp add: sched_inv_def)
  have k1: "kinv_at m b ?s1"
    by (rule kinv_at_thread_step[OF k _ i, of t]) (use t in \<open>auto simp: st_upd_tcb\<close>)
  have ml: "timer_lists ?s1 = timer_lists s" by (rule more_timer) simp
  have fl: "flag (timers ?s' y) = (if y = ThreadTimer t then 0 else flag (timers ?s1 y))"
    "y \<noteq> ThreadTimer t \<Longrightarrow> timeout_tick (timers ?s' y) = timeout_tick (timers ?s1 y)"
    "timer_lists ?s' = timer_lists ?s1" "rt_tick ?s' = rt_tick ?s1" for y by (simp_all add: timer_init_def)
  have same: "same_sched ?s1 ?s'" by (simp add: timer_init_def)
  have dm: "map (\<lambda>x. dist b (timeout_tick (timers ?s' x))) (timer_lists ?s1 HardTimers) =
      map (\<lambda>x. dist b (timeout_tick (timers ?s1 x))) (timer_lists ?s1 HardTimers)"
  proof (rule map_cong[OF refl])
    fix x assume "x \<in> set (timer_lists ?s1 HardTimers)"
    then have "x \<noteq> ThreadTimer t" using t(2)[of HardTimers] ml by auto
    then show "dist b (timeout_tick (timers ?s' x)) = dist b (timeout_tick (timers ?s1 x))" by (simp add: fl(2))
  qed
  have "deadlines_inv m b ?s'"
    using kinv_atD(5)[OF k1] t(2)[of HardTimers] ml fl(2) unfolding deadlines_inv_def fl(3) dm by metis
  moreover have "timer_lists_inv ?s'"
    using timer_lists_invD[OF kinv_atD(3)[OF k1]] t(2) ml
    by (intro timer_lists_invI) (auto simp: fl(1,3) split: if_splits)
  moreover have "thread_timers_inv ?s'"
    using kinv_atD(4)[OF k1] unfolding thread_timers_inv_def fl(3) same_schedD(4)[OF same] by (simp add: fl(1))
  ultimately have "kinv_at m b ?s'"
    using k1 same_schedD(10)[OF same] fl(4) by (simp add: kinv_at_def base_ok_def)
  then show ?thesis
    using p same_schedD(3,4)[OF same] by (simp add: thread_init_def st_upd_tcb)
qed

end
