(* ===== verification/RT_Clock.thy ===== *)
theory RT_Clock
  imports RT_Thread
begin

text \<open>
  The timer side of the tick interrupt: \<open>rt_timer_check\<close>, \<open>rt_soft_timer_check\<close> and the timer thread of
  \<open>src/rt-thread/src/timer.c\<close>, and \<open>rt_tick_increase\<close> of \<open>clock.c\<close>. The callback of a thread timer is
  \<open>rt_thread_timeout\<close>; those of timer objects are code of the application, the parameter \<open>user\<close>.
  The loops are \<open>partial_function\<close>s: a failed assertion and a loop that does not end are both \<open>None\<close>.
\<close>

section \<open>Operations\<close>

definition timeout_func ::
  "(nat \<Rightarrow> 'a timer_sys_scheme \<Rightarrow> 'a timer_sys_scheme option) \<Rightarrow>
   timer_id \<Rightarrow> 'a timer_sys_scheme \<Rightarrow> 'a timer_sys_scheme option" where
  "timeout_func user x s = (case x of ThreadTimer t \<Rightarrow> rt_thread_timeout t s | UserTimer n \<Rightarrow> user n s)"

text \<open>Taking the first timer off its list: a one-shot timer becomes inactive, and the timer is put on the local list.\<close>

definition timer_expire :: "timer_head \<Rightarrow> timer_id \<Rightarrow> 'a timer_sys_scheme \<Rightarrow> 'a timer_sys_scheme" where
  "timer_expire l x s =
     (let s1 = timer_remove x s;
          s2 = (if flag (timers s1 x) AND RT_TIMER_FLAG_PERIODIC = 0 then deactivate x s1 else s1)
      in s2\<lparr>timer_lists := (timer_lists s2)(l := x # timer_lists s2 l)\<rparr>)"

text \<open>After the callback: unless it stopped or restarted the timer, a periodic one is started again.\<close>

definition timer_rearm :: "timer_head \<Rightarrow> timer_id \<Rightarrow> 'a timer_sys_scheme \<Rightarrow> 'a timer_sys_scheme option" where
  "timer_rearm l x s =
     (if timer_lists s l = [] then Some s
      else let s1 = timer_remove x s in
           if flag (timers s1 x) AND RT_TIMER_FLAG_PERIODIC \<noteq> 0 \<and> flag (timers s1 x) AND RT_TIMER_FLAG_ACTIVATED \<noteq> 0
           then rt_timer_start x (deactivate x s1) else Some s1)"

partial_function (option) timer_check_loop ::
  "(timer_id \<Rightarrow> 'a timer_sys_scheme \<Rightarrow> 'a timer_sys_scheme option) \<Rightarrow> rt_tick_t \<Rightarrow>
   'a timer_sys_scheme \<Rightarrow> 'a timer_sys_scheme option" where
  "timer_check_loop func current_tick s =
     (case timer_lists s HardTimers of
        [] \<Rightarrow> Some s
      | x # _ \<Rightarrow>
          if current_tick - timeout_tick (timers s x) < HALF
          then do { s1 \<leftarrow> func x (timer_expire ExpiringHard x s);
                    s2 \<leftarrow> timer_rearm ExpiringHard x s1;
                    timer_check_loop func (rt_tick_get s1) s2 }
          else Some s)"

definition rt_timer_check ::
  "(nat \<Rightarrow> 'a timer_sys_scheme \<Rightarrow> 'a timer_sys_scheme option) \<Rightarrow> 'a timer_sys_scheme \<Rightarrow> 'a timer_sys_scheme option" where
  "rt_timer_check user s = timer_check_loop (timeout_func user) (rt_tick_get s) s"

partial_function (option) rt_soft_timer_check ::
  "(timer_id \<Rightarrow> 'a timer_sys_scheme \<Rightarrow> 'a timer_sys_scheme option) \<Rightarrow> 'a timer_sys_scheme \<Rightarrow> 'a timer_sys_scheme option" where
  "rt_soft_timer_check func s =
     (case timer_lists s SoftTimers of
        [] \<Rightarrow> Some s
      | x # _ \<Rightarrow>
          if rt_tick_get s - timeout_tick (timers s x) < HALF
          then do { let s0 = (timer_expire ExpiringSoft x s)\<lparr>soft_timer_status := RT_SOFT_TIMER_BUSY\<rparr>;
                    s1 \<leftarrow> func x s0;
                    s2 \<leftarrow> timer_rearm ExpiringSoft x (s1\<lparr>soft_timer_status := RT_SOFT_TIMER_IDLE\<rparr>);
                    rt_soft_timer_check func s2 }
          else Some s)"

text \<open>
  One turn of \<open>rt_thread_timer_entry\<close> up to its blocking call; the check follows when the timer thread
  runs again (after the tail of \<open>rt_thread_delay\<close> in the second case), or at once when nothing blocks.
\<close>

definition timer_entry_wait :: "'a timer_sys_scheme \<Rightarrow> 'a timer_sys_scheme option" where
  "timer_entry_wait s =
     (let next_timeout = rt_timer_list_next_timeout SoftTimers s in
      if next_timeout = RT_TICK_MAX
      then do { t \<leftarrow> rt_thread_self s; (r, s1) \<leftarrow> rt_thread_suspend t s; rt_schedule s1 }
      else let current_tick = rt_tick_get s in
           if next_timeout - current_tick < HALF then rt_thread_delay (next_timeout - current_tick) s else Some s)"

definition rt_system_timer_init :: "'a timer_sys_scheme \<Rightarrow> 'a timer_sys_scheme" where
  "rt_system_timer_init s = s\<lparr>timer_lists := (timer_lists s)(HardTimers := [])\<rparr>"

abbreviation RT_TIMER_THREAD_PRIO :: u8 where "RT_TIMER_THREAD_PRIO \<equiv> 4"

definition rt_system_timer_thread_init :: "'a timer_sys_scheme \<Rightarrow> 'a timer_sys_scheme option" where
  "rt_system_timer_thread_init s =
     (let s1 = s\<lparr>timer_lists := (timer_lists s)(SoftTimers := [])\<rparr> in
      do { s2 \<leftarrow> rt_thread_init (timer_thread s1) RT_TIMER_THREAD_PRIO 10 s1;
           rt_thread_startup (timer_thread s1) s2 })"

definition rt_tick_increase ::
  "(nat \<Rightarrow> 'a timer_sys_scheme \<Rightarrow> 'a timer_sys_scheme option) \<Rightarrow> 'a timer_sys_scheme \<Rightarrow> 'a timer_sys_scheme option" where
  "rt_tick_increase user s =
     (let s1 = s\<lparr>rt_tick := rt_tick s + 1\<rparr> in
      do { t \<leftarrow> rt_thread_self s1;
           let s2 = upd_tcb t (\<lambda>th. th\<lparr>remaining_tick := remaining_tick th - 1\<rparr>) s1;
           s3 \<leftarrow> (if remaining_tick (tcb s2 t) = 0
                  then rt_schedule (upd_tcb t (\<lambda>th. th\<lparr>remaining_tick := init_tick th,
                                                       stat := stat th OR RT_THREAD_STAT_YIELD\<rparr>) s2)
                  else Some s2);
           rt_timer_check user s3 })"

section \<open>Which timers are due\<close>

abbreviation BASE_ISR :: nat where "BASE_ISR \<equiv> 0x7fffffff"
abbreviation BASE_TASK :: nat where "BASE_TASK \<equiv> 0x7ffffffe"

lemma due_iff:
  assumes "dist (k - 1) d \<le> 0x7fffffff"
  shows "k - d < HALF \<longleftrightarrow> dist (k - 1) d \<le> 1"
proof -
  have e: "k - d = 1 - (d - (k - 1))" by simp
  have "unat (k - d) = (if dist (k - 1) d \<le> 1 then 1 - dist (k - 1) d else 1 + 2 ^ 32 - dist (k - 1) d)"
    unfolding e using unat_sub_if'[of 1 "d - (k - 1)"] by simp
  then show ?thesis using assms unfolding word_less_nat_alt HALF_nat by (auto split: if_splits)
qed

lemma not_due_next:
  assumes "dist (k - 1) d \<le> 0x7fffffff" "\<not> dist (k - 1) d \<le> 1"
  shows "dist k d = dist (k - 1) d - 1"
proof -
  have "d - k = (d - (k - 1)) - 1" by simp
  then show ?thesis using assms unat_sub_if'[of "d - (k - 1)" 1] by simp
qed

definition due :: "'a timer_sys_scheme \<Rightarrow> timer_id \<Rightarrow> bool" where
  "due s x \<longleftrightarrow> dist (rt_tick s - 1) (timeout_tick (timers s x)) \<le> 1"

text \<open>
  What is required of timers and callbacks: a periodic timer has an interval of at least one tick and
  within the range \<open>rt_timer_start\<close> asserts; a callback keeps the kernel invariant, starts no timer and
  changes no deadline or interval, though it may stop timers, its own included.
\<close>

definition intervals_ok :: "'a timer_sys_scheme \<Rightarrow> bool" where
  "intervals_ok s \<longleftrightarrow> (\<forall>x. periodic s x \<longrightarrow> 0 < timer_init_tick (timers s x) \<and> timer_init_tick (timers s x) < HALF)"

definition starts_no_timer :: "'a timer_sys_scheme \<Rightarrow> 'a timer_sys_scheme \<Rightarrow> bool" where
  "starts_no_timer s s' \<longleftrightarrow>
     rt_tick s' = rt_tick s \<and> set (timer_lists s' HardTimers) \<subseteq> set (timer_lists s HardTimers) \<and>
     (timer_lists s' ExpiringHard = timer_lists s ExpiringHard \<or> timer_lists s' ExpiringHard = []) \<and>
     (\<forall>x. timeout_tick (timers s' x) = timeout_tick (timers s x) \<and>
          timer_init_tick (timers s' x) = timer_init_tick (timers s x) \<and>
          periodic s' x = periodic s x \<and> soft_timer s' x = soft_timer s x \<and> (active s' x \<longrightarrow> active s x))"

definition callbacks_ok :: "(nat \<Rightarrow> 'a timer_sys_scheme \<Rightarrow> 'a timer_sys_scheme option) \<Rightarrow> bool" where
  "callbacks_ok user \<longleftrightarrow> (\<forall>n m b s. kinv_at m b s \<longrightarrow> current_thread s \<noteq> None \<longrightarrow>
     (\<exists>s'. user n s = Some s' \<and> kinv_at m b s' \<and> current_thread s' \<noteq> None \<and> starts_no_timer s s'))"

section \<open>One expiry keeps the invariant\<close>

lemma expire_obs:
  "flag (timers (timer_expire l x s) y) = (if y = x \<and> \<not> periodic s x then flag (timers s x) AND - 2 else flag (timers s y))"
  "timeout_tick (timers (timer_expire l x s) y) = timeout_tick (timers s y)"
  "timer_init_tick (timers (timer_expire l x s) y) = timer_init_tick (timers s y)"
  "timer_lists (timer_expire l x s) k = (if k = l then x # removeAll x (timer_lists s l) else removeAll x (timer_lists s k))"
  "rt_tick (timer_expire l x s) = rt_tick s" "same_sched s (timer_expire l x s)"
  by (auto simp: timer_expire_def Let_def flag_tests same_sched_def deactivate_def upd_timer_def timer_remove_def)

lemma expire_kinv:
  assumes k: "kinv_at m b s" and x: "x \<in> set (timer_lists s HardTimers)" and e: "timer_lists s ExpiringHard = []"
  shows "kinv_at m b (timer_expire ExpiringHard x s)"
proof -
  let ?s = "timer_expire ExpiringHard x s"
  note li = timer_lists_invD[OF kinv_atD(3)[OF k]]
  note same = same_schedD[OF expire_obs(6)[of s ExpiringHard x]]
  have sets: "set (timer_lists ?s l) = set (timer_lists s l) - {x} \<union> (if l = ExpiringHard then {x} else {})" for l
    by (auto simp: expire_obs(4))
  have "timer_lists_inv ?s"
  proof (rule timer_lists_invI)
    show "distinct (timer_lists ?s l)" for l using li(1)[of l] by (auto simp: expire_obs(4) distinct_removeAll)
    show "l = l'" if "y \<in> set (timer_lists ?s l)" "y \<in> set (timer_lists ?s l')" for l l' y
      using that li(2)[of y l l'] unfolding sets by (auto split: if_splits)
    show "active ?s y \<and> \<not> soft_timer ?s y" if "y \<in> set (timer_lists ?s HardTimers)" for y
      using that li(3)[of y] unfolding sets expire_obs(1) by auto
    show "active ?s y \<and> soft_timer ?s y" if "y \<in> set (timer_lists ?s SoftTimers)" for y
      using that li(4)[of y] unfolding sets expire_obs(1) by auto
    show "\<exists>l. y \<in> set (timer_lists ?s l)" if a: "active ?s y" for y
    proof (cases "y = x")
      case True
      then show ?thesis by (intro exI[of _ ExpiringHard]) (simp add: sets)
    next
      case False
      then obtain l where "y \<in> set (timer_lists s l)" using a li(5)[of y] unfolding expire_obs(1) by auto
      then show ?thesis using False by (intro exI[of _ l]) (simp add: sets)
    qed
  qed
  moreover have "thread_timers_inv ?s"
    using kinv_atD(4)[OF k] unfolding thread_timers_inv_def sets same(4) expire_obs(1) by auto
  moreover have "deadlines_inv m b ?s"
    using kinv_atD(5)[OF k] unfolding deadlines_inv_def expire_obs(2) sets
    by (simp add: expire_obs(4) removeAll_filter_not_eq sorted_filter)
  ultimately show ?thesis using k same(10) by (simp add: kinv_at_def base_ok_def expire_obs(5))
qed

lemma remove_inactive:
  assumes k: "kinv_at m b s" and a: "\<not> active s x"
  shows "kinv_at m b (timer_remove x s)"
proof -
  have "f AND - 2 = f" if "\<not> bit f 0" for f :: u8 by (rule bit_word_eqI) (use that in \<open>auto intro: gr0I\<close>)
  then have "deactivate x (timer_remove x s) = timer_remove x s"
    using a by (simp add: deactivate_def upd_timer_def timer_remove_def)
  then show ?thesis using timer_off_kinv[OF k, of x] by simp
qed

lemma rearm_kinv:
  assumes k: "kinv_at m b s" and c: "current_thread s \<noteq> None"
    and x: "active s x \<Longrightarrow> periodic s x" "periodic s x \<Longrightarrow> 0 < timer_init_tick (timers s x) \<and> timer_init_tick (timers s x) < HALF"
    and soft: "\<not> soft_timer s x" and th: "\<exists>t. x = ThreadTimer t \<Longrightarrow> \<not> active s x"
    and e: "timer_lists s ExpiringHard = [x] \<or> timer_lists s ExpiringHard = []"
  obtains s' where "timer_rearm ExpiringHard x s = Some s'" "kinv_at m b s'" "current_thread s' = current_thread s"
    "rt_tick s' = rt_tick s" "timer_lists s' ExpiringHard = []"
    "\<And>y. y \<in> set (timer_lists s' HardTimers) \<Longrightarrow> y \<noteq> x \<Longrightarrow> y \<in> set (timer_lists s HardTimers)"
    "\<And>y. y \<noteq> x \<Longrightarrow> timers s' y = timers s y"
    "x \<in> set (timer_lists s' HardTimers) \<Longrightarrow> x \<notin> set (timer_lists s HardTimers) \<Longrightarrow> \<not> due s' x"
    "periodic s' x = periodic s x" "timer_init_tick (timers s' x) = timer_init_tick (timers s x)"
proof (cases "timer_lists s ExpiringHard = []")
  case True
  then show ?thesis using that[of s] k by (simp add: timer_rearm_def)
next
  case False
  then have e: "timer_lists s ExpiringHard = [x]" using e by simp
  show ?thesis
  proof (cases "active s x")
    case inactive: False
    have "timer_rearm ExpiringHard x s = Some (timer_remove x s)"
      using False inactive by (simp add: timer_rearm_def Let_def flag_tests)
    then show ?thesis
      by (rule that) (use remove_inactive[OF k inactive] same_schedD(3)[OF same_sched_timer(2)] e in auto)
  next
    case True
    let ?s1 = "deactivate x (timer_remove x s)"
    have k1: "kinv_at m b ?s1" by (rule timer_off_kinv[OF k])
    have r: "timer_rearm ExpiringHard x s = rt_timer_start x ?s1"
      using False True x(1) by (simp add: timer_rearm_def Let_def flag_tests)
    have i: "timer_init_tick (timers ?s1 x) < HALF" "\<not> soft_timer ?s1 x" using x True soft by simp_all
    have t: "x = ThreadTimer t \<Longrightarrow> st ?s1 t = RT_THREAD_SUSPEND" for t using th True by blast
    let ?s2 = "timer_linked x ?s1"
    have s2: "rt_timer_start x ?s1 = Some ?s2" using i by (simp add: start_linked Let_def)
    have lx: "timer_lists ?s2 HardTimers = timer_insert (new_deadline x ?s1) x (removeAll x (timer_lists s HardTimers))"
      "timer_lists ?s2 ExpiringHard = []"
      unfolding linked_lists using i(2) e by simp_all
    have nd: "\<not> due ?s2 x"
    proof -
      have "unat (timer_init_tick (timers s x)) \<noteq> 0" "unat (timer_init_tick (timers s x)) < 0x7fffffff"
        using x True by (auto simp: word_less_nat_alt HALF_nat)
      then have "unat (timer_init_tick (timers s x) + 1) = unat (timer_init_tick (timers s x)) + 1"
        by (subst unat_add_lem[THEN iffD1]) simp_all
      moreover have "rt_tick s + timer_init_tick (timers s x) - (rt_tick s - 1) = timer_init_tick (timers s x) + 1" by simp
      ultimately show ?thesis
        using \<open>unat (timer_init_tick (timers s x)) \<noteq> 0\<close> by (simp add: due_def linked_deadline new_deadline_def linked_rest)
    qed
    have cs: "current_thread ?s2 = current_thread s"
      using same_schedD(3)[OF same_sched_linked[of ?s1 x]] same_schedD(3)[OF same_sched_timer(6)[of "timer_remove x s" x]]
        same_schedD(3)[OF same_sched_timer(2)[of s x]] by simp
    have tm: "timers ?s2 y = timers s y" if "y \<noteq> x" for y
      using that by (simp add: timer_linked_def timer_link_def Let_def deactivate_def)
    have fx: "periodic ?s2 x = periodic s x" "timer_init_tick (timers ?s2 x) = timer_init_tick (timers s x)"
      by (simp_all add: timer_linked_def timer_link_def Let_def deactivate_def)
    show ?thesis
      by (rule that[OF r[unfolded s2] linked_kinv[OF k1 i(1) t] cs])
         (use lx nd tm fx in \<open>auto simp: linked_rest\<close>)
  qed
qed

section \<open>The timer check terminates, fails no assertion and leaves no timer due\<close>

lemma callback_step:
  assumes cb: "callbacks_ok user" and k: "kinv_at m b s" and c: "current_thread s \<noteq> None"
    and x: "x \<in> set (timer_lists s HardTimers)" and e: "timer_lists s ExpiringHard = []"
  obtains s1 where "timeout_func user x (timer_expire ExpiringHard x s) = Some s1" "kinv_at m b s1"
    "current_thread s1 \<noteq> None" "starts_no_timer (timer_expire ExpiringHard x s) s1"
proof -
  let ?s0 = "timer_expire ExpiringHard x s"
  note same = same_schedD[OF expire_obs(6)[of s ExpiringHard x]]
  have k0: "kinv_at m b ?s0" by (rule expire_kinv[OF k x e])
  have c0: "current_thread ?s0 \<noteq> None" using c same(3) by simp
  show ?thesis
  proof (cases x)
    case (ThreadTimer t)
    have st: "st ?s0 t = RT_THREAD_SUSPEND"
      using kinv_atD(4)[OF k] x ThreadTimer same(4) by (simp add: thread_timers_inv_def)
    have off: "ThreadTimer t \<notin> set (timer_lists ?s0 HardTimers)" using ThreadTimer by (simp add: expire_obs(4))
    obtain s1 where s1: "rt_thread_timeout t ?s0 = Some s1" "kinv_at m b s1" "sched.more s1 = sched.more ?s0"
      "current_thread s1 \<noteq> None"
      using timeout_kinv[OF k0 st off c0] by metis
    have "starts_no_timer ?s0 s1" by (simp add: starts_no_timer_def more_timer[OF s1(3)])
    then show ?thesis using that[of s1] s1 ThreadTimer by (simp add: timeout_func_def)
  next
    case (UserTimer n)
    then show ?thesis using cb[unfolded callbacks_ok_def] k0 c0 that by (fastforce simp: timeout_func_def)
  qed
qed

lemma sorted_head_due:
  assumes k: "kinv_at m b s" and l: "timer_lists s HardTimers = x # xs" and y: "y \<in> set (x # xs)"
  shows "dist b (timeout_tick (timers s x)) \<le> dist b (timeout_tick (timers s y))" "dist b (timeout_tick (timers s y)) \<le> m"
  using kinv_atD(5)[OF k] l y by (auto simp: deadlines_inv_def)

definition isr_state :: "'a timer_sys_scheme \<Rightarrow> bool" where
  "isr_state s \<longleftrightarrow> kinv_at BASE_ISR (rt_tick s - 1) s \<and> current_thread s \<noteq> None \<and> intervals_ok s \<and>
     timer_lists s ExpiringHard = []"

text \<open>One turn of the loop: the callback returns, the timer is rearmed, and fewer timers are due.\<close>

lemma check_step:
  assumes cb: "callbacks_ok user" and i: "isr_state s" and l: "timer_lists s HardTimers = x # xs" and du: "due s x"
  obtains s1 s2 where "timeout_func user x (timer_expire ExpiringHard x s) = Some s1"
    "starts_no_timer (timer_expire ExpiringHard x s) s1" "timer_rearm ExpiringHard x s1 = Some s2" "isr_state s2"
    "rt_tick s1 = rt_tick s" "rt_tick s2 = rt_tick s" "\<not> soft_timer s1 x"
    "card {y \<in> set (timer_lists s2 HardTimers). due s2 y} < card {y \<in> set (timer_lists s HardTimers). due s y}"
proof -
  have k: "kinv_at BASE_ISR (rt_tick s - 1) s" and c: "current_thread s \<noteq> None" and iv: "intervals_ok s"
    and e: "timer_lists s ExpiringHard = []" using i by (simp_all add: isr_state_def)
  have xl: "x \<in> set (timer_lists s HardTimers)" using l by simp
  let ?s0 = "timer_expire ExpiringHard x s"
  obtain s1 where s1: "timeout_func user x ?s0 = Some s1" "kinv_at BASE_ISR (rt_tick s - 1) s1"
    "current_thread s1 \<noteq> None" "starts_no_timer ?s0 s1"
    using callback_step[OF cb k c xl e] by blast
  note sn = s1(4)[unfolded starts_no_timer_def expire_obs(2,3,4,5)]
  have tick1: "rt_tick s1 = rt_tick s" using sn by simp
  have eq1: "periodic s1 y = periodic s y" "timer_init_tick (timers s1 y) = timer_init_tick (timers s y)"
    "timeout_tick (timers s1 y) = timeout_tick (timers s y)" "soft_timer s1 y = soft_timer s y" for y
    using sn by (auto simp: expire_obs(1) split: if_splits)
  have act: "active s1 x \<Longrightarrow> periodic s x" using sn by (auto simp: expire_obs(1) split: if_splits)
  have ns: "\<not> soft_timer s x" using timer_lists_invD(3)[OF kinv_atD(3)[OF k] xl] by simp
  have act1: "active s1 x \<Longrightarrow> periodic s1 x" and ns1: "\<not> soft_timer s1 x" using act ns eq1 by simp_all
  have th: "\<exists>t. x = ThreadTimer t \<Longrightarrow> \<not> active s1 x"
    using act kinv_atD(4)[OF k] by (auto simp: thread_timers_inv_def)
  have per: "periodic s1 x \<Longrightarrow> 0 < timer_init_tick (timers s1 x) \<and> timer_init_tick (timers s1 x) < HALF"
    using iv eq1 by (simp add: intervals_ok_def)
  have hard1: "set (timer_lists s1 HardTimers) \<subseteq> set (timer_lists s HardTimers) - {x}" using sn by auto
  have ex1: "timer_lists s1 ExpiringHard = [x] \<or> timer_lists s1 ExpiringHard = []" using sn e by simp
  obtain s2 where s2: "timer_rearm ExpiringHard x s1 = Some s2" "kinv_at BASE_ISR (rt_tick s - 1) s2"
    "current_thread s2 = current_thread s1" "rt_tick s2 = rt_tick s1" "timer_lists s2 ExpiringHard = []"
    "\<And>y. y \<in> set (timer_lists s2 HardTimers) \<Longrightarrow> y \<noteq> x \<Longrightarrow> y \<in> set (timer_lists s1 HardTimers)"
    "\<And>y. y \<noteq> x \<Longrightarrow> timers s2 y = timers s1 y"
    "x \<in> set (timer_lists s2 HardTimers) \<Longrightarrow> x \<notin> set (timer_lists s1 HardTimers) \<Longrightarrow> \<not> due s2 x"
    "periodic s2 x = periodic s1 x" "timer_init_tick (timers s2 x) = timer_init_tick (timers s1 x)"
    using rearm_kinv[OF s1(2,3) act1 per ns1 th ex1] by blast
  have iv2: "intervals_ok s2"
    unfolding intervals_ok_def
  proof
    fix y show "periodic s2 y \<longrightarrow> 0 < timer_init_tick (timers s2 y) \<and> timer_init_tick (timers s2 y) < HALF"
      using iv eq1[of y] s2(7)[of y] s2(9,10) by (cases "y = x") (auto simp: intervals_ok_def)
  qed
  have i2: "isr_state s2" using s2 s1(3) iv2 tick1 by (simp add: isr_state_def)
  have due2: "due s2 y = due s y" if "y \<noteq> x" for y using s2(4,7) tick1 eq1 that by (simp add: due_def)
  have "{y \<in> set (timer_lists s2 HardTimers). due s2 y} \<subset> {y \<in> set (timer_lists s HardTimers). due s y}"
    using s2(6,8) hard1 due2 xl du by (auto 4 4)
  then have "card {y \<in> set (timer_lists s2 HardTimers). due s2 y} < card {y \<in> set (timer_lists s HardTimers). due s y}"
    by (intro psubset_card_mono) auto
  then show thesis using that[OF s1(1,4) s2(1) i2 tick1 _ ns1] s2(4) tick1 by simp
qed

text \<open>
  The loop rule: besides its own invariant the check keeps every \<open>P\<close> that each turn keeps.
\<close>

definition turn_keeps ::
  "(nat \<Rightarrow> 'a timer_sys_scheme \<Rightarrow> 'a timer_sys_scheme option) \<Rightarrow> ('a timer_sys_scheme \<Rightarrow> bool) \<Rightarrow> bool" where
  "turn_keeps user P \<longleftrightarrow>
     (\<forall>s x s1 s2. isr_state s \<longrightarrow> P s \<longrightarrow> x \<in> set (timer_lists s HardTimers) \<longrightarrow> due s x \<longrightarrow>
        timeout_func user x (timer_expire ExpiringHard x s) = Some s1 \<longrightarrow>
        starts_no_timer (timer_expire ExpiringHard x s) s1 \<longrightarrow> timer_rearm ExpiringHard x s1 = Some s2 \<longrightarrow>
        \<not> soft_timer s1 x \<longrightarrow> P s2)"

lemma timer_check_loop_rule:
  assumes cb: "callbacks_ok user"
    and step: "turn_keeps user P"
  shows "isr_state s \<Longrightarrow> P s \<Longrightarrow> \<exists>s'. timer_check_loop (timeout_func user) (rt_tick s) s = Some s' \<and> isr_state s' \<and>
    rt_tick s' = rt_tick s \<and> (\<forall>x \<in> set (timer_lists s' HardTimers). \<not> due s' x) \<and> P s'"
proof (induction "card {x \<in> set (timer_lists s HardTimers). due s x}" arbitrary: s rule: less_induct)
  case less
  have k: "kinv_at BASE_ISR (rt_tick s - 1) s" using less.prems by (simp add: isr_state_def)
  note unfold = timer_check_loop.simps[of "timeout_func user" "rt_tick s" s]
  show ?case
  proof (cases "timer_lists s HardTimers")
    case Nil
    then show ?thesis using unfold less.prems by simp
  next
    case (Cons x xs)
    note sh = sorted_head_due[OF k Cons]
    have d: "rt_tick s - timeout_tick (timers s x) < HALF \<longleftrightarrow> due s x"
      using due_iff[OF sh(2)[of x]] by (simp add: due_def)
    show ?thesis
    proof (cases "due s x")
      case False
      then have "\<not> due s y" if "y \<in> set (x # xs)" for y using sh(1)[OF that] by (simp add: due_def)
      then show ?thesis using unfold Cons d False less.prems by auto
    next
      case True
      obtain s1 s2 where st: "timeout_func user x (timer_expire ExpiringHard x s) = Some s1"
        "starts_no_timer (timer_expire ExpiringHard x s) s1" "timer_rearm ExpiringHard x s1 = Some s2" "isr_state s2"
        "rt_tick s1 = rt_tick s" "rt_tick s2 = rt_tick s" "\<not> soft_timer s1 x"
        "card {y \<in> set (timer_lists s2 HardTimers). due s2 y} < card {y \<in> set (timer_lists s HardTimers). due s y}"
        using check_step[OF cb less.prems(1) Cons True] by blast
      have "x \<in> set (timer_lists s HardTimers)" using Cons by simp
      then have "P s2" using step less.prems True st(1,2,3,7) unfolding turn_keeps_def by blast
      from less.hyps[OF st(8,4) this] obtain s' where
        s': "timer_check_loop (timeout_func user) (rt_tick s2) s2 = Some s'" "isr_state s'" "rt_tick s' = rt_tick s2"
        "\<forall>x \<in> set (timer_lists s' HardTimers). \<not> due s' x" "P s'" by blast
      have "timer_check_loop (timeout_func user) (rt_tick s) s = Some s'"
        using unfold Cons d True st(1,3,5,6) s'(1) by (simp add: rt_tick_get_def)
      then show ?thesis using s' st(6) by auto
    qed
  qed
qed

section \<open>The tick interrupt\<close>

text \<open>The state between interrupts: the base of the deadlines is the current tick.\<close>

definition task_state :: "'a timer_sys_scheme \<Rightarrow> bool" where
  "task_state s \<longleftrightarrow> kinv_at BASE_TASK (rt_tick s) s \<and> current_thread s \<noteq> None \<and> intervals_ok s \<and>
     timer_lists s ExpiringHard = []"

lemma tick_starts:
  assumes t: "task_state s"
  shows "isr_state (s\<lparr>rt_tick := rt_tick s + 1\<rparr>)"
proof -
  let ?s = "s\<lparr>rt_tick := rt_tick s + 1\<rparr>"
  have ss: "same_sched s ?s" by simp
  note same = same_schedD[OF ss]
  have k: "kinv_at BASE_TASK (rt_tick s) s" using t by (simp add: task_state_def)
  have "deadlines_inv BASE_ISR (rt_tick s) ?s"
    using kinv_atD(5)[OF k] by (force simp: deadlines_inv_def)
  moreover have "timer_lists_inv ?s" using kinv_atD(3)[OF k] by (simp add: timer_lists_inv_def)
  moreover have "thread_timers_inv ?s" using kinv_atD(4)[OF k] unfolding thread_timers_inv_def same(4) by simp
  moreover have "sched_inv ?s" using kinv_atD(2)[OF k] same(10) by simp
  ultimately show ?thesis
    using t same(3) by (simp add: isr_state_def task_state_def kinv_at_def base_ok_def intervals_ok_def)
qed

lemma tick_ends:
  assumes t: "isr_state s" and d: "\<forall>x \<in> set (timer_lists s HardTimers). \<not> due s x"
  shows "task_state s" "\<And>x. x \<in> set (timer_lists s HardTimers) \<Longrightarrow> 0 < dist (rt_tick s) (timeout_tick (timers s x))"
proof -
  have k: "kinv_at BASE_ISR (rt_tick s - 1) s" using t by (simp add: isr_state_def)
  have le: "dist (rt_tick s - 1) (timeout_tick (timers s x)) \<le> 0x7fffffff" if "x \<in> set (timer_lists s HardTimers)" for x
    using kinv_atD(5)[OF k] that by (simp add: deadlines_inv_def)
  have e: "dist (rt_tick s) (timeout_tick (timers s x)) = dist (rt_tick s - 1) (timeout_tick (timers s x)) - 1"
    if "x \<in> set (timer_lists s HardTimers)" for x
    using not_due_next[OF le[OF that]] d that by (simp add: due_def)
  have srt: "sorted (map (\<lambda>x. dist (rt_tick s - 1) (timeout_tick (timers s x)) - 1) (timer_lists s HardTimers))"
    using kinv_atD(5)[OF k] unfolding deadlines_inv_def sorted_iff_nth_mono by (auto intro: diff_le_mono)
  have me: "map (\<lambda>x. dist (rt_tick s) (timeout_tick (timers s x))) (timer_lists s HardTimers) =
      map (\<lambda>x. dist (rt_tick s - 1) (timeout_tick (timers s x)) - 1) (timer_lists s HardTimers)"
    by (rule map_cong[OF refl e])
  have "dist (rt_tick s) (timeout_tick (timers s x)) \<le> BASE_TASK" if "x \<in> set (timer_lists s HardTimers)" for x
    using e[OF that] le[OF that] by linarith
  then have "deadlines_inv BASE_TASK (rt_tick s) s" unfolding deadlines_inv_def me using srt by blast
  then show "task_state s" using t k by (simp add: isr_state_def task_state_def kinv_at_def base_ok_def)
  show "0 < dist (rt_tick s) (timeout_tick (timers s x))" if "x \<in> set (timer_lists s HardTimers)" for x
  proof -
    have "\<not> dist (rt_tick s - 1) (timeout_tick (timers s x)) \<le> 1" using d that unfolding due_def by blast
    then show ?thesis using e[OF that] by linarith
  qed
qed

lemma isr_upd:
  assumes k: "isr_state s" and f: "stat (f (tcb s t)) AND 7 = st s t"
    "current_priority (f (tcb s t)) = current_priority (tcb s t)" "number_mask (f (tcb s t)) = number_mask (tcb s t)"
    "init_priority (f (tcb s t)) = init_priority (tcb s t)"
  shows "isr_state (upd_tcb t f s)"
proof -
  have m: "sched.more (upd_tcb t f s) = sched.more s" by simp
  show ?thesis
    using k upd_kinv[of BASE_ISR "rt_tick s - 1" s f t] f more_timer[OF m] by (simp add: isr_state_def intervals_ok_def)
qed

text \<open>The threads as the tick finds them: who can run, the state of the others, what they wait for, and the error codes.\<close>

definition same_threads :: "'a timer_sys_scheme \<Rightarrow> 'a timer_sys_scheme \<Rightarrow> bool" where
  "same_threads s s' \<longleftrightarrow>
     (\<forall>u. runnable s' u = runnable s u \<and> (\<not> runnable s u \<longrightarrow> st s' u = st s u) \<and> error (tcb s' u) = error (tcb s u) \<and>
        event_set (tcb s' u) = event_set (tcb s u) \<and> event_info (tcb s' u) = event_info (tcb s u)) \<and>
     (\<forall>i. set (queues s' (Suspended i)) \<subseteq> set (queues s (Suspended i)))"

lemma same_threads_trans: "same_threads a b \<Longrightarrow> same_threads b c \<Longrightarrow> same_threads a c"
  unfolding same_threads_def by (simp, blast)

lemma schedule_waiting: "rt_schedule s = Some s' \<Longrightarrow> set (queues s' (Suspended i)) \<subseteq> set (queues s (Suspended i))"
  unfolding rt_schedule_def Let_def by (auto split: if_splits bind_splits)

lemma isr_schedule:
  assumes k: "isr_state s"
  shows "\<exists>s'. rt_schedule s = Some s' \<and> isr_state s' \<and> sched.more s' = sched.more s \<and> same_threads s s'"
proof -
  have c: "current_thread s \<noteq> None" and i: "sched_inv s" using k by (auto simp: isr_state_def dest: kinv_atD)
  obtain s' where s': "rt_schedule s = Some s'" "kinv_at BASE_ISR (rt_tick s - 1) s'" "current_thread s' \<noteq> None"
    using rt_schedule_kinv[of BASE_ISR "rt_tick s - 1" s] k by (auto simp: isr_state_def)
  have m: "sched.more s' = sched.more s" using rt_schedule_frame[OF s'(1)] by simp
  moreover have "same_threads s s'"
    using rt_schedule_runnable[OF i c s'(1)] rt_schedule_frame[OF s'(1)] schedule_waiting[OF s'(1)] by (simp add: same_threads_def)
  ultimately show ?thesis using s' k more_timer[of s' s] by (simp add: isr_state_def intervals_ok_def)
qed

lemma tick_increase_rule:
  assumes t: "task_state s" and cb: "callbacks_ok user"
    and start: "\<And>s3. isr_state s3 \<Longrightarrow> sched.more s3 = sched.more (s\<lparr>rt_tick := rt_tick s + 1\<rparr>) \<Longrightarrow> same_threads s s3 \<Longrightarrow> P s3"
    and step: "turn_keeps user P"
  shows "\<exists>s'. rt_tick_increase user s = Some s' \<and> task_state s' \<and> rt_tick s' = rt_tick s + 1 \<and>
    (\<forall>x \<in> set (timer_lists s' HardTimers). 0 < dist (rt_tick s') (timeout_tick (timers s' x))) \<and> P s'"
proof -
  let ?s1 = "s\<lparr>rt_tick := rt_tick s + 1\<rparr>"
  have i1: "isr_state ?s1" by (rule tick_starts[OF t])
  obtain c where c: "current_thread s = Some c" using t by (auto simp: task_state_def)
  let ?s2 = "upd_tcb c (\<lambda>th. th\<lparr>remaining_tick := remaining_tick th - 1\<rparr>) ?s1"
  have i2: "isr_state ?s2" by (rule isr_upd[OF i1]) (simp_all add: st_def)
  have y: "(x OR 8) AND 7 = x AND (7 :: u8)" for x by (simp add: bit.conj_disj_distrib2)
  let ?s3 = "upd_tcb c (\<lambda>th. th\<lparr>remaining_tick := init_tick th, stat := stat th OR RT_THREAD_STAT_YIELD\<rparr>) ?s2"
  have i3: "isr_state ?s3" by (rule isr_upd[OF i2]) (simp_all add: st_def y)
  have st: "st ?s2 = st s" "st ?s3 = st s" by (auto simp: fun_eq_iff st_def y)
  have sm: "same_threads s ?s2" "same_threads s ?s3"
    unfolding same_threads_def runnable_def st by simp_all
  have mo: "sched.more ?s2 = sched.more ?s1" "sched.more ?s3 = sched.more ?s1" by simp_all
  obtain s4 where s4: "(if remaining_tick (tcb ?s2 c) = 0 then rt_schedule ?s3 else Some ?s2) = Some s4"
    "isr_state s4" "sched.more s4 = sched.more ?s1" "same_threads s s4"
  proof (cases "remaining_tick (tcb ?s2 c) = 0")
    case True
    obtain s4 where "rt_schedule ?s3 = Some s4" "isr_state s4" "sched.more s4 = sched.more ?s3" "same_threads ?s3 s4"
      using isr_schedule[OF i3] by blast
    moreover have "same_threads s s4" by (rule same_threads_trans[OF sm(2) calculation(4)])
    ultimately show thesis using that[of s4] True mo by simp
  next
    case False
    then show thesis using that[of ?s2] i2 sm mo by simp
  qed
  have tk: "rt_tick s4 = rt_tick s + 1" using more_timer(3)[OF s4(3)] by simp
  obtain s' where s': "timer_check_loop (timeout_func user) (rt_tick s4) s4 = Some s'" "isr_state s'"
    "rt_tick s' = rt_tick s4" "\<forall>x \<in> set (timer_lists s' HardTimers). \<not> due s' x" "P s'"
    using timer_check_loop_rule[OF cb step s4(2) start[OF s4(2,3,4)]] by blast
  have self: "rt_thread_self ?s1 = Some c" using c by (simp add: rt_thread_self_def)
  have "rt_tick_increase user s = Some s'"
    using s4(1) s'(1) unfolding rt_tick_increase_def Let_def self
    by (simp add: rt_timer_check_def rt_tick_get_def)
  then show ?thesis using tick_ends[OF s'(2,4)] s'(3,5) tk by auto
qed

lemma tick_increase_ok:
  assumes "task_state s" "callbacks_ok user"
  shows "\<exists>s'. rt_tick_increase user s = Some s' \<and> task_state s' \<and> rt_tick s' = rt_tick s + 1 \<and>
    (\<forall>x \<in> set (timer_lists s' HardTimers). 0 < dist (rt_tick s') (timeout_tick (timers s' x)))"
  using tick_increase_rule[of s user "\<lambda>_. True"] assms by (simp add: turn_keeps_def)

end
