(* ===== verification/RT_Ipc.thy ===== *)
theory RT_Ipc
  imports RT_Clock
begin

text \<open>
  \<open>src/rt-thread/src/ipc.c\<close>, the part all IPC objects share: the objects' state, suspending the caller on
  an object in FIFO or priority order, and resuming waiters. A blocking call is split at its
  \<open>rt_schedule()\<close>: the entry returns \<open>None\<close> as its code when the caller now waits, and the tail gives the code
  the thread returns when it runs again, read from its \<open>error\<close> field.
\<close>

section \<open>State\<close>

record rt_semaphore =
  sem_value :: u16

record rt_mutex =
  mutex_value :: u16
  original_priority :: u8
  hold :: u8
  owner :: "tid option"

record rt_event =
  event_bits :: u32

record rt_mailbox =
  mb_pool :: "u64 list"
  mb_size :: u16
  mb_entry :: u16
  in_offset :: u16
  out_offset :: u16

text \<open>
  The pool of a message queue is an array of blocks, each a link and a payload; the pointers of the
  queue are block numbers.
\<close>

record rt_messagequeue =
  msg_size :: u16
  max_msgs :: u16
  mq_entry :: u16
  msg_next :: "nat \<Rightarrow> nat option"
  msg_data :: "nat \<Rightarrow> u8 list"
  msg_queue_head :: "nat option"
  msg_queue_tail :: "nat option"
  msg_queue_free :: "nat option"

text \<open>\<open>ipc_static\<close> is what \<open>rt_object_is_systemobject\<close> answers for an object: initialised, not created.\<close>

record ipc_sys = timer_sys +
  ipc_flag :: "ipc_id \<Rightarrow> u8"
  ipc_static :: "ipc_id \<Rightarrow> bool"
  sems :: "nat \<Rightarrow> rt_semaphore"
  mutexes :: "nat \<Rightarrow> rt_mutex"
  events :: "nat \<Rightarrow> rt_event"
  mailboxes :: "nat \<Rightarrow> rt_mailbox"
  mqs :: "nat \<Rightarrow> rt_messagequeue"

abbreviation RT_IPC_FLAG_FIFO :: u8 where "RT_IPC_FLAG_FIFO \<equiv> 0"
abbreviation RT_IPC_FLAG_PRIO :: u8 where "RT_IPC_FLAG_PRIO \<equiv> 1"

text \<open>\<open>RT_DEBUG_IN_THREAD_CONTEXT\<close> and \<open>RT_DEBUG_NOT_IN_INTERRUPT\<close> of \<open>include/rtdebug.h\<close>.\<close>

definition in_thread_context :: "'a sched_scheme \<Rightarrow> bool" where
  "in_thread_context s \<longleftrightarrow> current_thread s \<noteq> None \<and> interrupt_nest s = 0"

definition not_in_interrupt :: "'a sched_scheme \<Rightarrow> bool" where
  "not_in_interrupt s \<longleftrightarrow> interrupt_nest s = 0"

section \<open>Operations\<close>

definition rt_ipc_object_init :: "rt_list_head \<Rightarrow> 'a sched_scheme \<Rightarrow> 'a sched_scheme" where
  "rt_ipc_object_init l s = s\<lparr>queues := (queues s)(l := [])\<rparr>"

text \<open>The search of \<open>rt_ipc_list_suspend\<close>: before the first waiter of lower priority, else at the end.\<close>

fun prio_insert :: "(tid \<Rightarrow> u8) \<Rightarrow> tid \<Rightarrow> tid list \<Rightarrow> tid list" where
  "prio_insert pr t [] = [t]"
| "prio_insert pr t (u # us) = (if pr t < pr u then t # u # us else u # prio_insert pr t us)"

definition rt_ipc_list_suspend ::
  "rt_list_head \<Rightarrow> tid \<Rightarrow> u8 \<Rightarrow> 'a timer_sys_scheme \<Rightarrow> 'a timer_sys_scheme option" where
  "rt_ipc_list_suspend l t fl s =
     do { (r, s1) \<leftarrow> rt_thread_suspend t s;
          Some (if fl = RT_IPC_FLAG_FIFO then list_append l t s1
                else if fl = RT_IPC_FLAG_PRIO
                then s1\<lparr>queues := (queues s1)(l := prio_insert (\<lambda>u. current_priority (tcb s1 u)) t (queues s1 l))\<rparr>
                else s1) }"

definition rt_ipc_list_resume :: "rt_list_head \<Rightarrow> 'a timer_sys_scheme \<Rightarrow> 'a timer_sys_scheme option" where
  "rt_ipc_list_resume l s =
     (case queues s l of [] \<Rightarrow> None | t # _ \<Rightarrow> Some (snd (rt_thread_resume t s)))"

partial_function (option) rt_ipc_list_resume_all ::
  "rt_list_head \<Rightarrow> 'a timer_sys_scheme \<Rightarrow> 'a timer_sys_scheme option" where
  "rt_ipc_list_resume_all l s =
     (case queues s l of
        [] \<Rightarrow> Some s
      | t # _ \<Rightarrow> rt_ipc_list_resume_all l (snd (rt_thread_resume t (upd_tcb t (\<lambda>th. th\<lparr>error := -1\<rparr>) s))))"

definition rt_ipc_get_highest_priority :: "rt_list_head \<Rightarrow> 'a sched_scheme \<Rightarrow> u8" where
  "rt_ipc_get_highest_priority l s =
     fold (\<lambda>t priority. if priority < current_priority (tcb s t) then priority else current_priority (tcb s t))
       (queues s l) (of_nat (RT_THREAD_PRIORITY_MAX - 1))"

text \<open>
  The body every blocking call shares: suspend the caller on the object's list and, for a positive
  timeout, start its timer.
\<close>

definition wait_on :: "rt_list_head \<Rightarrow> tid \<Rightarrow> u8 \<Rightarrow> 32 word \<Rightarrow> 'a timer_sys_scheme \<Rightarrow> 'a timer_sys_scheme option" where
  "wait_on l t fl time s =
     do { s1 \<leftarrow> rt_ipc_list_suspend l t fl s;
          if sint time > 0
          then rt_timer_start (ThreadTimer t) (snd (rt_timer_control (ThreadTimer t) (SET_TIME time) s1))
          else Some s1 }"

text \<open>The tail of the calls that only return the error of the wait.\<close>

definition wait_result :: "tid \<Rightarrow> 'a sched_scheme \<Rightarrow> int" where
  "wait_result t s = error (tcb s t)"

section \<open>Queue order\<close>

lemma prio_insert_split:
  "prio_insert pr t us = takeWhile (\<lambda>u. \<not> pr t < pr u) us @ t # dropWhile (\<lambda>u. \<not> pr t < pr u) us"
  by (induction us) auto

lemma mset_prio_insert [simp]: "mset (prio_insert pr t us) = add_mset t (mset us)"
  by (induction us) auto

lemma prio_insert_sorted:
  fixes pr :: "tid \<Rightarrow> u8"
  shows "sorted (map pr us) \<Longrightarrow> sorted (map pr (prio_insert pr t us))"
proof (induction us)
  case (Cons u us)
  have "x \<in> set (prio_insert pr t us) \<Longrightarrow> x = t \<or> x \<in> set us" for x
    using mset_prio_insert[of pr t us] by (metis add_mset_commute insert_iff set_mset_add_mset_insert set_mset_mset)
  then show ?case using Cons by (auto simp: not_less)
qed simp

section \<open>Waiting and resuming keep the invariant\<close>

definition enqueue :: "u8 \<Rightarrow> (tid \<Rightarrow> u8) \<Rightarrow> tid \<Rightarrow> tid list \<Rightarrow> tid list" where
  "enqueue fl pr t us = (if fl = RT_IPC_FLAG_FIFO then us @ [t] else prio_insert pr t us)"

lemma mset_enqueue [simp]: "mset (enqueue fl pr t us) = add_mset t (mset us)"
  by (simp add: enqueue_def)

lemma set_enqueue [simp]: "set (enqueue fl pr t us) = insert t (set us)"
  by (metis mset_enqueue set_mset_add_mset_insert set_mset_mset)

text \<open>
  What an operation on a waiting list changes: \<open>kept\<close> is the part of the state none of them touches,
  \<open>parked\<close> and \<open>woken\<close> say where the thread has gone.
\<close>

definition kept :: "'a timer_sys_scheme \<Rightarrow> 'a timer_sys_scheme \<Rightarrow> bool" where
  "kept s s' \<longleftrightarrow> current_thread s' = current_thread s \<and> scheduler_lock_nest s' = scheduler_lock_nest s \<and>
     interrupt_nest s' = interrupt_nest s \<and> rt_tick s' = rt_tick s \<and> timer_sys.more s' = timer_sys.more s"

definition parked :: "rt_list_head \<Rightarrow> u8 \<Rightarrow> tid \<Rightarrow> 'a timer_sys_scheme \<Rightarrow> 'a timer_sys_scheme \<Rightarrow> bool" where
  "parked l fl t s s' \<longleftrightarrow> tcb s' = (tcb s)(t := set_stat RT_THREAD_SUSPEND (tcb s t)) \<and>
     (\<forall>l'. queues s' l' = (if l' = l then enqueue fl (\<lambda>u. current_priority (tcb s u)) t (removeAll t (queues s l))
                           else removeAll t (queues s l')))"

definition woken :: "tid \<Rightarrow> 'a timer_sys_scheme \<Rightarrow> 'a timer_sys_scheme \<Rightarrow> bool" where
  "woken t s s' \<longleftrightarrow> runnable s' t \<and> tcb s' = (tcb s)(t := (tcb s t)\<lparr>stat := stat (tcb s' t)\<rparr>) \<and>
     (\<forall>l. (\<forall>p. l \<noteq> Ready p) \<longrightarrow> queues s' l = removeAll t (queues s l))"

lemma kept_refl [simp]: "kept s s"
  by (simp add: kept_def)

lemma kept_trans [trans]: "kept a b \<Longrightarrow> kept b c \<Longrightarrow> kept a c"
  by (simp add: kept_def)

lemma keptD:
  assumes "kept s s'"
  shows "current_thread s' = current_thread s" "scheduler_lock_nest s' = scheduler_lock_nest s"
    "interrupt_nest s' = interrupt_nest s" "rt_tick s' = rt_tick s" "timer_sys.more s' = timer_sys.more s"
  using assms by (simp_all add: kept_def)

lemma parked_st: "parked l fl t s s' \<Longrightarrow> st s' t = RT_THREAD_SUSPEND"
  by (simp add: parked_def st_def)

lemma list_suspend_kinv:
  assumes k: "kinv_at m b s" and r: "runnable s t" and fl: "fl = RT_IPC_FLAG_FIFO \<or> fl = RT_IPC_FLAG_PRIO"
    and l: "l = Suspended i \<or> l = Senders i"
  shows "\<exists>s'. rt_ipc_list_suspend l t fl s = Some s' \<and> kinv_at m b s' \<and> parked l fl t s s' \<and> kept s s'"
proof -
  obtain s1 where s1: "rt_thread_suspend t s = Some (0, s1)" "kinv_at m b s1" "st s1 t = RT_THREAD_SUSPEND"
    "\<And>l. queues s1 l = removeAll t (queues s l)" "\<And>u. u \<noteq> t \<Longrightarrow> tcb s1 u = tcb s u"
    "tcb s1 t = set_stat RT_THREAD_SUSPEND (tcb s t)" "current_thread s1 = current_thread s"
    "scheduler_lock_nest s1 = scheduler_lock_nest s" "interrupt_nest s1 = interrupt_nest s"
    "rt_tick s1 = rt_tick s" "timer_sys.more s1 = timer_sys.more s"
    using suspend_kinv[OF k r[unfolded runnable_def]] by metis
  have tcb1: "tcb s1 = (tcb s)(t := set_stat RT_THREAD_SUSPEND (tcb s t))" using s1(5,6) by (auto simp: fun_eq_iff)
  have pr: "(\<lambda>u. current_priority (tcb s1 u)) = (\<lambda>u. current_priority (tcb s u))" by (auto simp: tcb1 fun_eq_iff)
  let ?q = "enqueue fl (\<lambda>u. current_priority (tcb s u)) t (removeAll t (queues s l))"
  let ?s' = "s1\<lparr>queues := (queues s1)(l := ?q)\<rparr>"
  have res: "rt_ipc_list_suspend l t fl s = Some ?s'"
    using fl unfolding rt_ipc_list_suspend_def s1(1) enqueue_def list_append_def by (auto simp: s1(4) pr)
  have "lists_inv {t} s1" by (rule enter_transit[OF kinv_atD(6)[OF s1(2)]]) (simp add: s1(4))
  then have li: "lists_inv {} ?s'"
    using link_wait[of "{t}" s1 t l ?q] l s1(3,4) by auto
  have st: "st ?s' = st s1" by (auto simp: fun_eq_iff st_def)
  have "current_inv ?s'" using kinv_atD(7)[OF s1(2)] unfolding current_inv_def st by simp
  then have si: "sched_inv ?s'" using li by (simp add: sched_inv_def)
  have "kinv_at m b ?s'"
    by (rule kinv_at_sched_step[OF s1(2) _ si]) (use kinv_atD(4)[OF s1(2)] st in \<open>simp_all add: thread_timers_inv_def\<close>)
  moreover have "parked l fl t s ?s'" unfolding parked_def using tcb1 s1(4) by simp
  moreover have "kept s ?s'" unfolding kept_def using s1(7-11) by simp
  ultimately show ?thesis using res by blast
qed

lemma wait_on_kinv:
  assumes k: "kinv_at m b s" and r: "runnable s t" and fl: "fl = RT_IPC_FLAG_FIFO \<or> fl = RT_IPC_FLAG_PRIO"
    and l: "l = Suspended i \<or> l = Senders i" and v: "sint time > 0 \<Longrightarrow> time < HALF"
  shows "\<exists>s'. wait_on l t fl time s = Some s' \<and> kinv_at m b s' \<and> parked l fl t s s' \<and> kept s s' \<and>
    (sint time > 0 \<longrightarrow> ThreadTimer t \<in> set (timer_lists s' HardTimers) \<and>
                         timeout_tick (timers s' (ThreadTimer t)) = rt_tick s + time)"
proof -
  obtain s1 where s1: "rt_ipc_list_suspend l t fl s = Some s1" "kinv_at m b s1" "parked l fl t s s1" "kept s s1"
    using list_suspend_kinv[OF k r fl l] by blast
  show ?thesis
  proof (cases "sint time > 0")
    case True
    obtain s2 where s2: "rt_timer_start (ThreadTimer t) (snd (rt_timer_control (ThreadTimer t) (SET_TIME time) s1)) = Some s2"
      "kinv_at m b s2" "same_sched s1 s2" "rt_tick s2 = rt_tick s1" "timer_sys.more s2 = timer_sys.more s1"
      "ThreadTimer t \<in> set (timer_lists s2 HardTimers)" "timeout_tick (timers s2 (ThreadTimer t)) = rt_tick s1 + time"
      using start_own_timer[OF s1(2) parked_st[OF s1(3)] v[OF True]] by blast
    note same = same_schedD[OF s2(3)]
    have "wait_on l t fl time s = Some s2" using True s1(1) s2(1) by (simp add: wait_on_def)
    moreover have "parked l fl t s s2" using s1(3) unfolding parked_def same(1,2) .
    moreover have "kept s s2" using s1(4) unfolding kept_def same(3,6,7) s2(4,5) .
    ultimately show ?thesis using s2(2,6,7) keptD(4)[OF s1(4)] by auto
  next
    case False
    then have "wait_on l t fl time s = Some s1" using s1(1) by (simp add: wait_on_def)
    then show ?thesis using s1 False by blast
  qed
qed

text \<open>Resuming a waiter, the first waiter of a list, and all of them.\<close>

lemma resume_eff:
  assumes k: "kinv_at m b s" and t: "st s t = RT_THREAD_SUSPEND"
  shows "\<exists>s'. rt_thread_resume t s = (0, s') \<and> kinv_at m b s' \<and> woken t s s' \<and> kept s s'"
proof -
  let ?s2 = "snd (rt_timer_stop (ThreadTimer t) (list_unlink t s))"
  let ?s' = "rt_schedule_insert_thread t ?s2"
  note same = same_schedD[OF stop_same(1)[of "list_unlink t s" "ThreadTimer t"]]
  have r: "rt_thread_resume t s = (0, ?s')" using t by (simp add: rt_thread_resume_def)
  have m: "rt_tick ?s' = rt_tick s" "timer_sys.more ?s' = timer_sys.more s"
    using more_timer[of ?s' ?s2] more_timer[of "list_unlink t s" s] by simp_all
  have kk: "kinv_at m b ?s'" using resume_kinv[OF k, of t] r by simp
  have "runnable ?s' t" by (simp add: runnable_def insert_st)
  moreover have "tcb ?s' u = (if u = t then (tcb s t)\<lparr>stat := stat (tcb ?s' t)\<rparr> else tcb s u)" for u
    by (simp add: set_stat_def same(1))
  moreover have "queues ?s' l = removeAll t (queues s l)" if "\<forall>p. l \<noteq> Ready p" for l
    using that by (simp add: same(2))
  ultimately have "woken t s ?s'" unfolding woken_def by (auto simp: fun_eq_iff)
  moreover have "kept s ?s'" unfolding kept_def using m by (simp add: same)
  ultimately show ?thesis using r kk by blast
qed

lemma waiter_facts:
  assumes k: "kinv_at m b s" and l: "l = Suspended i \<or> l = Senders i" and q: "queues s l = t # ts"
  shows "st s t = RT_THREAD_SUSPEND" "removeAll t (queues s l) = ts" "l' \<noteq> l \<Longrightarrow> removeAll t (queues s l') = queues s l'"
proof -
  note li = kinv_atD(6)[OF k]
  show "st s t = RT_THREAD_SUSPEND" using lists_invD(7,8)[OF li, of t i] l q by auto
  have d: "t \<notin> set ts" using lists_invD(1)[OF li, of l] q by simp
  then show "removeAll t (queues s l) = ts" using q by simp
  show "removeAll t (queues s l') = queues s l'" if "l' \<noteq> l"
    using lists_invD(2)[OF li, of t l l'] q that by (auto intro: removeAll_id)
qed

lemma list_resume_eff:
  assumes k: "kinv_at m b s" and l: "l = Suspended i \<or> l = Senders i" and q: "queues s l = t # ts"
  shows "\<exists>s'. rt_ipc_list_resume l s = Some s' \<and> kinv_at m b s' \<and> woken t s s' \<and> kept s s' \<and> queues s' l = ts \<and>
    (\<forall>l'. (\<forall>p. l' \<noteq> Ready p) \<longrightarrow> l' \<noteq> l \<longrightarrow> queues s' l' = queues s l')"
proof -
  note w = waiter_facts[OF k l q]
  obtain s' where s': "rt_thread_resume t s = (0, s')" "kinv_at m b s'" "woken t s s'" "kept s s'"
    using resume_eff[OF k w(1)] by blast
  have "\<forall>p. l \<noteq> Ready p" using l by auto
  then show ?thesis using s' q w(2,3) by (auto simp: rt_ipc_list_resume_def woken_def)
qed

text \<open>\<open>rt_schedule\<close> seen from the objects: the waiting lists and the objects stay, threads change only their state byte.\<close>

definition scheduled :: "'a timer_sys_scheme \<Rightarrow> 'a timer_sys_scheme \<Rightarrow> bool" where
  "scheduled s s' \<longleftrightarrow> (\<forall>l. (\<forall>p. l \<noteq> Ready p) \<longrightarrow> queues s' l = queues s l) \<and>
     (\<forall>u. runnable s' u = runnable s u \<and> tcb s' u = (tcb s u)\<lparr>stat := stat (tcb s' u)\<rparr>) \<and>
     scheduler_lock_nest s' = scheduler_lock_nest s \<and> interrupt_nest s' = interrupt_nest s \<and>
     rt_tick s' = rt_tick s \<and> timer_sys.more s' = timer_sys.more s"

lemma schedule_waits:
  assumes inv: "sched_inv s" and c: "current_thread s \<noteq> None" and r: "rt_schedule s = Some s'" and l: "\<forall>p. l \<noteq> Ready p"
  shows "queues s' l = queues s l"
proof -
  obtain c where c: "current_thread s = Some c" using c by auto
  from inv c show ?thesis
  proof (cases rule: rt_schedule_cases)
    case (switch s'' t p ts)
    have "t \<in> set (queues s (Ready p))" using switch(4) by simp
    then have "t \<notin> set (queues s l)" using lists_inv_unique[of "{}" s t l "Ready p"] inv l by (auto simp: sched_inv_def)
    then show ?thesis using switch(1,12) r l by (auto intro: removeAll_id)
  qed (use r in auto)
qed

lemma schedule_eff:
  assumes k: "kinv_at m b s" and c: "current_thread s \<noteq> None"
  shows "\<exists>s'. rt_schedule s = Some s' \<and> kinv_at m b s' \<and> current_thread s' \<noteq> None \<and> scheduled s s'"
proof -
  obtain s' where s': "rt_schedule s = Some s'" "kinv_at m b s'" "current_thread s' \<noteq> None"
    using rt_schedule_kinv[OF k c] by blast
  note i = kinv_atD(2)[OF k]
  have more: "sched.more s' = sched.more s" and nest: "scheduler_lock_nest s' = scheduler_lock_nest s"
    "interrupt_nest s' = interrupt_nest s" using rt_schedule_frame[OF s'(1)] by simp_all
  have "scheduled s s'" unfolding scheduled_def
    using schedule_waits[OF i c s'(1)] rt_schedule_runnable(1)[OF i c s'(1)] rt_schedule_tcb[OF s'(1)] nest more_timer[OF more]
    by blast
  then show ?thesis using s' by blast
qed

lemma scheduledD:
  assumes "scheduled s s'"
  shows "(\<And>p. l \<noteq> Ready p) \<Longrightarrow> queues s' l = queues s l" "runnable s' u = runnable s u"
    "tcb s' u = (tcb s u)\<lparr>stat := stat (tcb s' u)\<rparr>" "scheduler_lock_nest s' = scheduler_lock_nest s"
    "interrupt_nest s' = interrupt_nest s" "rt_tick s' = rt_tick s" "timer_sys.more s' = timer_sys.more s"
  using assms unfolding scheduled_def by blast+

section \<open>Waking everyone\<close>

definition released :: "rt_list_head \<Rightarrow> 'a timer_sys_scheme \<Rightarrow> 'a timer_sys_scheme \<Rightarrow> bool" where
  "released l s s' \<longleftrightarrow> queues s' l = [] \<and> (\<forall>l'. (\<forall>p. l' \<noteq> Ready p) \<longrightarrow> l' \<noteq> l \<longrightarrow> queues s' l' = queues s l') \<and>
     (\<forall>t. if t \<in> set (queues s l) then runnable s' t \<and> tcb s' t = (tcb s t)\<lparr>error := -1, stat := stat (tcb s' t)\<rparr>
          else tcb s' t = tcb s t)"

lemma releasedD:
  assumes "released l s s'"
  shows "queues s' l = []" "\<And>l'. (\<And>p. l' \<noteq> Ready p) \<Longrightarrow> l' \<noteq> l \<Longrightarrow> queues s' l' = queues s l'"
    "t \<in> set (queues s l) \<Longrightarrow> runnable s' t \<and> tcb s' t = (tcb s t)\<lparr>error := -1, stat := stat (tcb s' t)\<rparr>"
    "t \<notin> set (queues s l) \<Longrightarrow> tcb s' t = tcb s t"
  using assms unfolding released_def by presburger+

lemma error_kinv: "kinv_at m b s \<Longrightarrow> kinv_at m b (upd_tcb t (\<lambda>th. th\<lparr>error := e\<rparr>) s)"
  by (rule upd_kinv) (simp_all add: st_def)

lemma list_resume_all_eff:
  assumes "kinv_at m b s" "l = Suspended i \<or> l = Senders i"
  shows "\<exists>s'. rt_ipc_list_resume_all l s = Some s' \<and> kinv_at m b s' \<and> released l s s' \<and> kept s s'"
  using assms
proof (induction "queues s l" arbitrary: s)
  case Nil
  then show ?case by (auto simp: rt_ipc_list_resume_all.simps[of l s] released_def)
next
  case (Cons t ts)
  let ?s = "upd_tcb t (\<lambda>th. th\<lparr>error := -1\<rparr>) s"
  have k0: "kinv_at m b ?s" using Cons.prems(1) by (rule error_kinv)
  have q0: "queues ?s l = t # ts" using Cons.hyps(2) by simp
  note w = waiter_facts[OF k0 Cons.prems(2) q0]
  obtain s1 where s1: "rt_thread_resume t ?s = (0, s1)" "kinv_at m b s1" "woken t ?s s1" "kept ?s s1"
    using resume_eff[OF k0 w(1)] by blast
  have nr: "\<forall>p. l \<noteq> Ready p" using Cons.prems(2) by auto
  have ql: "queues s1 l = ts" using s1(3) nr w(2) by (simp add: woken_def)
  obtain s' where s': "rt_ipc_list_resume_all l s1 = Some s'" "kinv_at m b s'" "released l s1 s'" "kept s1 s'"
    using Cons.hyps(1)[OF ql[symmetric] s1(2) Cons.prems(2)] by blast
  have res: "rt_ipc_list_resume_all l s = Some s'"
    using s'(1) s1(1) Cons.hyps(2)[symmetric] by (simp add: rt_ipc_list_resume_all.simps[of l s])
  have d: "t \<notin> set ts" using lists_inv_distinct[OF kinv_atD(6)[OF k0], of l] q0 by simp
  have tcb1: "tcb s1 u = (if u = t then (tcb s t)\<lparr>error := -1, stat := stat (tcb s1 t)\<rparr> else tcb s u)" for u
    using fun_cong[OF conjunct1[OF conjunct2[OF s1(3)[unfolded woken_def]]], of u] by (simp split: if_splits)
  have "queues s' l' = queues s l'" if "\<forall>p. l' \<noteq> Ready p" "l' \<noteq> l" for l'
    using s'(3) s1(3) that w(3)[OF that(2)] by (simp add: released_def woken_def)
  moreover have "runnable s' u \<and> tcb s' u = (tcb s u)\<lparr>error := -1, stat := stat (tcb s' u)\<rparr>" if u: "u \<in> set (queues s l)" for u
  proof (cases "u = t")
    case True
    then have "tcb s' u = tcb s1 u" using s'(3) d ql by (simp add: released_def)
    then show ?thesis using True tcb1[of u] s1(3) by (simp add: woken_def runnable_def st_def)
  next
    case False
    moreover have "u \<in> set (t # ts)" using u unfolding Cons.hyps(2) .
    ultimately have "u \<in> set (queues s1 l)" unfolding ql by simp
    then show ?thesis using releasedD(3)[OF s'(3), of u] tcb1[of u] False by metis
  qed
  moreover have "tcb s' u = tcb s u" if "u \<notin> set (queues s l)" for u
  proof -
    have "u \<notin> set (t # ts)" using that unfolding Cons.hyps(2) .
    then have "u \<notin> set (queues s1 l)" "u \<noteq> t" unfolding ql by simp_all
    then show ?thesis using s'(3) tcb1[of u] by (simp add: released_def)
  qed
  ultimately have "released l s s'" using s'(3) by (simp add: released_def)
  moreover have "kept s s'"
  proof -
    have "kept s ?s" by (simp add: kept_def more_timer[of ?s s])
    then show ?thesis using s1(4) s'(4) kept_trans by blast
  qed
  ultimately show ?case using res s'(2) by blast
qed

section \<open>Blocking and waking as the objects see them\<close>

text \<open>
  \<open>blocked\<close>: the caller has been queued on \<open>l\<close> and the scheduler has run. \<open>handed\<close>: the first waiter of
  \<open>l\<close> has been resumed and the scheduler has run.
\<close>

definition blocked :: "rt_list_head \<Rightarrow> u8 \<Rightarrow> tid \<Rightarrow> 'a timer_sys_scheme \<Rightarrow> 'a timer_sys_scheme \<Rightarrow> bool" where
  "blocked l fl t s s' \<longleftrightarrow> st s' t = RT_THREAD_SUSPEND \<and>
     queues s' l = enqueue fl (\<lambda>u. current_priority (tcb s u)) t (queues s l) \<and>
     (\<forall>l'. (\<forall>p. l' \<noteq> Ready p) \<longrightarrow> l' \<noteq> l \<longrightarrow> queues s' l' = queues s l') \<and>
     (\<forall>u. tcb s' u = (tcb s u)\<lparr>stat := stat (tcb s' u)\<rparr> \<and> (u \<noteq> t \<longrightarrow> runnable s' u = runnable s u)) \<and>
     rt_tick s' = rt_tick s \<and> timer_sys.more s' = timer_sys.more s"

definition handed :: "rt_list_head \<Rightarrow> tid \<Rightarrow> 'a timer_sys_scheme \<Rightarrow> 'a timer_sys_scheme \<Rightarrow> bool" where
  "handed l t s s' \<longleftrightarrow> runnable s' t \<and> queues s' l = tl (queues s l) \<and>
     (\<forall>l'. (\<forall>p. l' \<noteq> Ready p) \<longrightarrow> l' \<noteq> l \<longrightarrow> queues s' l' = queues s l') \<and>
     (\<forall>u. tcb s' u = (tcb s u)\<lparr>stat := stat (tcb s' u)\<rparr> \<and> (u \<noteq> t \<longrightarrow> runnable s' u = runnable s u)) \<and>
     rt_tick s' = rt_tick s \<and> timer_sys.more s' = timer_sys.more s"

lemma runnable_free:
  assumes k: "kinv_at m b s" and r: "runnable s t" and l: "\<And>p. l \<noteq> Ready p"
  shows "removeAll t (queues s l) = queues s l"
proof -
  note li = kinv_atD(6)[OF k]
  have "t \<notin> set (queues s l)"
    using l lists_invD(7,8,9)[OF li, of t] r by (cases l) (auto simp: runnable_def)
  then show ?thesis by simp
qed

lemma stat_trans: "x = y\<lparr>stat := a\<rparr> \<Longrightarrow> y = z\<lparr>stat := b\<rparr> \<Longrightarrow> x = z\<lparr>stat := a\<rparr>"
  by simp

lemma block_eff:
  assumes k: "kinv_at m b s" and c: "current_thread s \<noteq> None" and r: "runnable s t"
    and fl: "fl = RT_IPC_FLAG_FIFO \<or> fl = RT_IPC_FLAG_PRIO"
    and l: "l = Suspended i \<or> l = Senders i" and v: "sint time > 0 \<Longrightarrow> time < HALF"
  shows "\<exists>s1 s'. wait_on l t fl time s = Some s1 \<and> rt_schedule s1 = Some s' \<and> kinv_at m b s' \<and>
    current_thread s' \<noteq> None \<and> blocked l fl t s s'"
proof -
  obtain s1 where s1: "wait_on l t fl time s = Some s1" "kinv_at m b s1" "parked l fl t s s1" "kept s s1"
    using wait_on_kinv[OF k r fl l v] by blast
  have "current_thread s1 \<noteq> None" using c keptD(1)[OF s1(4)] by simp
  then obtain s' where s': "rt_schedule s1 = Some s'" "kinv_at m b s'" "current_thread s' \<noteq> None" "scheduled s1 s'"
    using schedule_eff[OF s1(2)] by blast
  have tcb1: "tcb s1 u = (if u = t then set_stat RT_THREAD_SUSPEND (tcb s t) else tcb s u)" for u
    using s1(3) by (simp add: parked_def)
  have "\<not> runnable s1 t" using parked_st[OF s1(3)] by (simp add: runnable_def)
  then have "st s' t = RT_THREAD_SUSPEND"
    using rt_schedule_runnable(2)[OF kinv_atD(2)[OF s1(2)] \<open>current_thread s1 \<noteq> None\<close> s'(1)] parked_st[OF s1(3)] by simp
  moreover have "queues s' l' = (if l' = l then enqueue fl (\<lambda>u. current_priority (tcb s u)) t (queues s l) else queues s l')"
    if "\<forall>p. l' \<noteq> Ready p" for l'
    using scheduledD(1)[OF s'(4), of l'] s1(3) that runnable_free[OF k r, of l'] by (cases "l' = l") (simp_all add: parked_def)
  moreover have "tcb s' u = (tcb s u)\<lparr>stat := stat (tcb s' u)\<rparr>" for u
  proof -
    have "tcb s1 u = (tcb s u)\<lparr>stat := stat (tcb s1 u)\<rparr>" by (simp add: tcb1 set_stat_def)
    from scheduledD(3)[OF s'(4)] this show ?thesis by (rule stat_trans)
  qed
  moreover have "runnable s' u = runnable s u" if "u \<noteq> t" for u
    using scheduledD(2)[OF s'(4), of u] tcb1[of u] that by (simp add: runnable_def st_def)
  moreover have "\<forall>p. l \<noteq> Ready p" using l by auto
  ultimately have "blocked l fl t s s'"
    using keptD[OF s1(4)] scheduledD(6,7)[OF s'(4)] unfolding blocked_def by simp
  then show ?thesis using s1(1) s'(1-3) by blast
qed

lemma wake_eff:
  assumes k: "kinv_at m b s" and c: "current_thread s \<noteq> None" and l: "l = Suspended i \<or> l = Senders i"
    and q: "queues s l = t # ts"
  shows "\<exists>s1 s'. rt_ipc_list_resume l s = Some s1 \<and> rt_schedule s1 = Some s' \<and> kinv_at m b s' \<and>
    current_thread s' \<noteq> None \<and> handed l t s s'"
proof -
  obtain s1 where s1: "rt_ipc_list_resume l s = Some s1" "kinv_at m b s1" "woken t s s1" "kept s s1" "queues s1 l = ts"
    "\<forall>l'. (\<forall>p. l' \<noteq> Ready p) \<longrightarrow> l' \<noteq> l \<longrightarrow> queues s1 l' = queues s l'"
    using list_resume_eff[OF k l q] by blast
  have "current_thread s1 \<noteq> None" using c keptD(1)[OF s1(4)] by simp
  then obtain s' where s': "rt_schedule s1 = Some s'" "kinv_at m b s'" "current_thread s' \<noteq> None" "scheduled s1 s'"
    using schedule_eff[OF s1(2)] by blast
  have tcb1: "tcb s1 u = (tcb s u)\<lparr>stat := stat (tcb s1 u)\<rparr>" "u \<noteq> t \<Longrightarrow> tcb s1 u = tcb s u" for u
    using fun_cong[OF conjunct1[OF conjunct2[OF s1(3)[unfolded woken_def]]], of u] by (cases "u = t"; simp)+
  have "tcb s' u = (tcb s u)\<lparr>stat := stat (tcb s' u)\<rparr>" for u
    by (rule stat_trans[OF scheduledD(3)[OF s'(4)] tcb1(1)])
  moreover have "runnable s' u = runnable s u" if "u \<noteq> t" for u
    using scheduledD(2)[OF s'(4), of u] tcb1(2)[OF that] by (simp add: runnable_def st_def)
  moreover have "runnable s' t" using scheduledD(2)[OF s'(4), of t] s1(3) by (simp add: woken_def)
  moreover have "\<forall>p. l \<noteq> Ready p" using l by auto
  ultimately have "handed l t s s'"
    using keptD[OF s1(4)] scheduledD(1,6,7)[OF s'(4)] s1(5,6) q unfolding handed_def by simp
  then show ?thesis using s1(1) s'(1-3) by blast
qed

lemma blockedD:
  assumes "blocked l fl t s s'"
  shows "st s' t = RT_THREAD_SUSPEND" "queues s' l = enqueue fl (\<lambda>u. current_priority (tcb s u)) t (queues s l)"
    "\<And>l'. (\<And>p. l' \<noteq> Ready p) \<Longrightarrow> l' \<noteq> l \<Longrightarrow> queues s' l' = queues s l'"
    "\<And>u. tcb s' u = (tcb s u)\<lparr>stat := stat (tcb s' u)\<rparr>" "\<And>u. u \<noteq> t \<Longrightarrow> runnable s' u = runnable s u"
    "rt_tick s' = rt_tick s" "timer_sys.more s' = timer_sys.more s"
  using assms unfolding blocked_def by blast+

lemma handedD:
  assumes "handed l t s s'"
  shows "runnable s' t" "queues s' l = tl (queues s l)"
    "\<And>l'. (\<And>p. l' \<noteq> Ready p) \<Longrightarrow> l' \<noteq> l \<Longrightarrow> queues s' l' = queues s l'"
    "\<And>u. tcb s' u = (tcb s u)\<lparr>stat := stat (tcb s' u)\<rparr>" "\<And>u. u \<noteq> t \<Longrightarrow> runnable s' u = runnable s u"
    "rt_tick s' = rt_tick s" "timer_sys.more s' = timer_sys.more s"
  using assms unfolding handed_def by blast+

section \<open>The objects\<close>

definition set_object :: "ipc_id \<Rightarrow> bool \<Rightarrow> u8 \<Rightarrow> ipc_sys \<Rightarrow> ipc_sys" where
  "set_object i static fl s = s\<lparr>ipc_static := (ipc_static s)(i := static), ipc_flag := (ipc_flag s)(i := fl)\<rparr>"

text \<open>The objects are beside the kernel's state: changing one keeps the kernel invariant.\<close>

lemma kinv_more:
  assumes "timer_sys.truncate s' = timer_sys.truncate s"
  shows "kinv_at m b s' = kinv_at m b s"
  using assms
  by (cases s; cases s')
    (simp add: timer_sys.defs kinv_at_def base_ok_def sched_inv_def lists_inv_def current_inv_def st_def prio_def
      timer_lists_inv_def thread_timers_inv_def deadlines_inv_def)

lemma more_ipc:
  fixes s s' :: ipc_sys
  assumes "timer_sys.more s' = timer_sys.more s"
  shows "ipc_flag s' = ipc_flag s" "ipc_static s' = ipc_static s" "sems s' = sems s" "mutexes s' = mutexes s"
    "events s' = events s" "mailboxes s' = mailboxes s" "mqs s' = mqs s"
  using assms by (cases s; cases s'; simp)+

lemma object_kinv [simp]:
  "kinv_at m b (s\<lparr>ipc_flag := fl\<rparr>) = kinv_at m b (s :: ipc_sys)" "kinv_at m b (s\<lparr>ipc_static := x\<rparr>) = kinv_at m b (s :: ipc_sys)"
  "kinv_at m b (s\<lparr>sems := a\<rparr>) = kinv_at m b (s :: ipc_sys)" "kinv_at m b (s\<lparr>mutexes := c\<rparr>) = kinv_at m b (s :: ipc_sys)"
  "kinv_at m b (s\<lparr>events := d\<rparr>) = kinv_at m b (s :: ipc_sys)" "kinv_at m b (s\<lparr>mailboxes := e\<rparr>) = kinv_at m b (s :: ipc_sys)"
  "kinv_at m b (s\<lparr>mqs := f\<rparr>) = kinv_at m b (s :: ipc_sys)" "kinv_at m b (set_object i b' g s) = kinv_at m b s"
  by (rule kinv_more, simp add: timer_sys.truncate_def set_object_def)+

section \<open>Locality\<close>

text \<open>
  An operation on object \<open>i\<close> leaves the data, the waiters and what the waiters ask for of every other
  object alone.
\<close>

definition touches :: "ipc_id \<Rightarrow> ipc_sys \<Rightarrow> ipc_sys \<Rightarrow> bool" where
  "touches i s s' \<longleftrightarrow>
     (\<forall>j. j \<noteq> i \<longrightarrow> queues s' (Suspended j) = queues s (Suspended j) \<and> queues s' (Senders j) = queues s (Senders j) \<and>
        ipc_flag s' j = ipc_flag s j \<and> ipc_static s' j = ipc_static s j \<and>
        (\<forall>t \<in> set (queues s (Suspended j)).
            event_set (tcb s' t) = event_set (tcb s t) \<and> event_info (tcb s' t) = event_info (tcb s t))) \<and>
     (\<forall>n. Sem n \<noteq> i \<longrightarrow> sems s' n = sems s n) \<and> (\<forall>n. Mutex n \<noteq> i \<longrightarrow> mutexes s' n = mutexes s n) \<and>
     (\<forall>n. Event n \<noteq> i \<longrightarrow> events s' n = events s n) \<and> (\<forall>n. Mailbox n \<noteq> i \<longrightarrow> mailboxes s' n = mailboxes s n) \<and>
     (\<forall>n. MsgQueue n \<noteq> i \<longrightarrow> mqs s' n = mqs s n)"

lemma touchesI:
  assumes "\<And>j. j \<noteq> i \<Longrightarrow> queues s' (Suspended j) = queues s (Suspended j)"
    "\<And>j. j \<noteq> i \<Longrightarrow> queues s' (Senders j) = queues s (Senders j)"
    "\<And>t. event_set (tcb s' t) = event_set (tcb s t)" "\<And>t. event_info (tcb s' t) = event_info (tcb s t)"
    "timer_sys.more s' = timer_sys.more s"
  shows "touches i s s'"
  using assms more_ipc[OF assms(5)] by (simp add: touches_def)

lemma touches_refl [simp]: "touches i s s"
  by (simp add: touches_def)

lemma touches_trans [trans]: "touches i a b \<Longrightarrow> touches i b c \<Longrightarrow> touches i a c"
  by (auto simp: touches_def)

lemma stat_fields:
  assumes "tcb s' u = (tcb s u)\<lparr>stat := x\<rparr>"
  shows "error (tcb s' u) = error (tcb s u)" "event_set (tcb s' u) = event_set (tcb s u)"
    "event_info (tcb s' u) = event_info (tcb s u)" "current_priority (tcb s' u) = current_priority (tcb s u)"
  using assms by simp_all

lemma blocked_touches:
  assumes b: "blocked l fl t s s'" and l: "l = Suspended i \<or> l = Senders i"
  shows "touches i s s'"
proof (rule touchesI)
  show "queues s' (Suspended j) = queues s (Suspended j)" "queues s' (Senders j) = queues s (Senders j)" if "j \<noteq> i" for j
    using blockedD(3)[OF b, of "Suspended j"] blockedD(3)[OF b, of "Senders j"] l that by auto
  show "event_set (tcb s' t) = event_set (tcb s t)" "event_info (tcb s' t) = event_info (tcb s t)" for t
    by (rule stat_fields[OF blockedD(4)[OF b]])+
qed (rule blockedD(7)[OF b])

lemma handed_touches:
  assumes b: "handed l t s s'" and l: "l = Suspended i \<or> l = Senders i"
  shows "touches i s s'"
proof (rule touchesI)
  show "queues s' (Suspended j) = queues s (Suspended j)" "queues s' (Senders j) = queues s (Senders j)" if "j \<noteq> i" for j
    using handedD(3)[OF b, of "Suspended j"] handedD(3)[OF b, of "Senders j"] l that by auto
  show "event_set (tcb s' t) = event_set (tcb s t)" "event_info (tcb s' t) = event_info (tcb s t)" for t
    by (rule stat_fields[OF handedD(4)[OF b]])+
qed (rule handedD(7)[OF b])

lemma released_event:
  assumes "released l s s'"
  shows "event_set (tcb s' t) = event_set (tcb s t) \<and> event_info (tcb s' t) = event_info (tcb s t)"
proof (cases "t \<in> set (queues s l)")
  case True
  then obtain x where "tcb s' t = (tcb s t)\<lparr>error := -1, stat := x\<rparr>" using releasedD(3)[OF assms] by blast
  then show ?thesis by simp
qed (simp add: releasedD(4)[OF assms])

lemma released_touches: "released l s s' \<Longrightarrow> kept s s' \<Longrightarrow> l = Suspended i \<or> l = Senders i \<Longrightarrow> touches i s s'"
  by (rule touchesI) (auto simp: releasedD(2) keptD(5) released_event)

lemma scheduled_touches:
  assumes b: "scheduled s s'"
  shows "touches i s s'"
proof (rule touchesI)
  show "event_set (tcb s' t) = event_set (tcb s t)" "event_info (tcb s' t) = event_info (tcb s t)" for t
    by (rule stat_fields[OF scheduledD(3)[OF b]])+
qed (use scheduledD(1,7)[OF b] in simp_all)

lemma touchesD:
  assumes "touches i s s'"
  shows "j \<noteq> i \<Longrightarrow> queues s' (Suspended j) = queues s (Suspended j)" "j \<noteq> i \<Longrightarrow> queues s' (Senders j) = queues s (Senders j)"
    "j \<noteq> i \<Longrightarrow> ipc_flag s' j = ipc_flag s j" "j \<noteq> i \<Longrightarrow> ipc_static s' j = ipc_static s j"
    "Sem n \<noteq> i \<Longrightarrow> sems s' n = sems s n" "Mutex n \<noteq> i \<Longrightarrow> mutexes s' n = mutexes s n"
    "Event n \<noteq> i \<Longrightarrow> events s' n = events s n" "Mailbox n \<noteq> i \<Longrightarrow> mailboxes s' n = mailboxes s n"
    "MsgQueue n \<noteq> i \<Longrightarrow> mqs s' n = mqs s n"
    "j \<noteq> i \<Longrightarrow> t \<in> set (queues s (Suspended j)) \<Longrightarrow> event_set (tcb s' t) = event_set (tcb s t) \<and> event_info (tcb s' t) = event_info (tcb s t)"
  using assms unfolding touches_def by blast+

text \<open>What a call made by a running thread, outside interrupts, starts from.\<close>

definition in_task :: "nat \<Rightarrow> rt_tick_t \<Rightarrow> tid \<Rightarrow> ipc_sys \<Rightarrow> bool" where
  "in_task m b c s \<longleftrightarrow> kinv_at m b s \<and> current_thread s = Some c \<and> runnable s c \<and> interrupt_nest s = 0"

lemma in_taskD:
  assumes "in_task m b c s"
  shows "kinv_at m b s" "current_thread s = Some c" "runnable s c" "interrupt_nest s = 0" "in_thread_context s" "not_in_interrupt s"
    "current_thread s \<noteq> None"
  using assms by (auto simp: in_task_def in_thread_context_def not_in_interrupt_def)

lemma in_task_error [simp]: "in_task m b c s \<Longrightarrow> in_task m b c (upd_tcb t (\<lambda>th. th\<lparr>error := e\<rparr>) s)"
  using error_kinv[of m b s t e] by (auto simp: in_task_def runnable_def st_def)

lemma error_touches [simp]: "touches i s (upd_tcb t (\<lambda>th. th\<lparr>error := e\<rparr>) s)"
proof -
  have "timer_sys.more (upd_tcb t (\<lambda>th. th\<lparr>error := e\<rparr>) s) = timer_sys.more s" by (rule more_timer(6)) simp
  then show ?thesis by (rule touchesI[rotated 4]) simp_all
qed

definition wait_flag_ok :: "ipc_id \<Rightarrow> ipc_sys \<Rightarrow> bool" where
  "wait_flag_ok i s \<longleftrightarrow> ipc_flag s i = RT_IPC_FLAG_FIFO \<or> ipc_flag s i = RT_IPC_FLAG_PRIO"

definition timeout_ok :: "32 word \<Rightarrow> bool" where
  "timeout_ok time \<longleftrightarrow> (sint time > 0 \<longrightarrow> time < HALF)"

text \<open>How a waiting call queues the thread \<open>c\<close> on object \<open>i\<close>.\<close>

definition queue_of :: "ipc_id \<Rightarrow> tid \<Rightarrow> ipc_sys \<Rightarrow> tid list \<Rightarrow> tid list" where
  "queue_of i c s = enqueue (ipc_flag s i) (\<lambda>u. current_priority (tcb s u)) c"

lemma prio_insert_cong:
  "(\<And>u. u \<in> insert t (set us) \<Longrightarrow> pr u = pr' u) \<Longrightarrow> prio_insert pr t us = prio_insert pr' t us"
  by (induction us) auto

lemma enqueue_cong:
  "(\<And>u. u \<in> insert t (set us) \<Longrightarrow> pr u = pr' u) \<Longrightarrow> enqueue fl pr t us = enqueue fl pr' t us"
  unfolding enqueue_def using prio_insert_cong[of t us pr pr'] by auto

text \<open>\<open>rt_ipc_get_highest_priority\<close> is the least number among the waiters' priorities and 31.\<close>

lemma fold_min_priority:
  fixes f :: "tid \<Rightarrow> u8"
  shows "fold (\<lambda>t p. if p < f t then p else f t) us a \<le> a \<and>
    (\<forall>u \<in> set us. fold (\<lambda>t p. if p < f t then p else f t) us a \<le> f u)"
proof (induction us arbitrary: a)
  case (Cons u us)
  show ?case
  proof (cases "a < f u")
    case True
    then show ?thesis using Cons[of a] order_trans[OF conjunct1[OF Cons[of a]], of "f u"] by simp
  next
    case False
    moreover from False have "f u \<le> a" by (simp add: not_less)
    ultimately show ?thesis using Cons[of "f u"] order_trans[OF conjunct1[OF Cons[of "f u"]], of a] by simp
  qed
qed simp

lemma highest_priority_le:
  shows "rt_ipc_get_highest_priority l s \<le> 31"
    and "t \<in> set (queues s l) \<Longrightarrow> rt_ipc_get_highest_priority l s \<le> current_priority (tcb s t)"
  unfolding rt_ipc_get_highest_priority_def
  using fold_min_priority[of "\<lambda>t. current_priority (tcb s t)" "queues s l" "of_nat (RT_THREAD_PRIORITY_MAX - 1)"] by auto

lemma critical_kinv: "kinv_at m b s \<Longrightarrow> kinv_at m b (rt_enter_critical s)"
  by (simp add: rt_enter_critical_def kinv_at_def base_ok_def sched_inv_def current_inv_def st_def timer_lists_inv_def
      thread_timers_inv_def deadlines_inv_def)

lemma upd_tcb_objects [simp]:
  fixes s :: ipc_sys
  shows "mutexes (upd_tcb t f s) = mutexes s" "ipc_flag (upd_tcb t f s) = ipc_flag s" "ipc_static (upd_tcb t f s) = ipc_static s"
    "sems (upd_tcb t f s) = sems s" "events (upd_tcb t f s) = events s" "mailboxes (upd_tcb t f s) = mailboxes s"
    "mqs (upd_tcb t f s) = mqs s"
  by (simp_all add: upd_tcb_def)

lemma queue_of_error [simp]: "queue_of i c (upd_tcb t (\<lambda>th. th\<lparr>error := e\<rparr>) s) = queue_of i c s"
proof -
  have "(\<lambda>u. current_priority (tcb (upd_tcb t (\<lambda>th. th\<lparr>error := e\<rparr>) s) u)) = (\<lambda>u. current_priority (tcb s u))"
    by (auto simp: fun_eq_iff)
  moreover have "ipc_flag (upd_tcb t (\<lambda>th. th\<lparr>error := e\<rparr>) s) = ipc_flag s" by (simp add: upd_tcb_def)
  ultimately show ?thesis by (simp add: queue_of_def)
qed

lemma set_queue_of [simp]: "set (queue_of i c s us) = insert c (set us)"
  by (simp add: queue_of_def)

lemma unique_waiter:
  assumes "kinv_at m b s" "t \<in> set (queues s (Suspended i))" "j \<noteq> i"
  shows "t \<notin> set (queues s (Suspended j))" "t \<notin> set (queues s (Senders k))"
  using lists_inv_unique[OF kinv_atD(6)[OF assms(1)], of t "Suspended i"] assms(2,3) by auto

lemma unique_list:
  assumes "kinv_at m b s" "t \<in> set (queues s l)" "l' \<noteq> l"
  shows "removeAll t (queues s l') = queues s l'"
  using lists_inv_unique[OF kinv_atD(6)[OF assms(1)], of t l l'] assms(2,3) by (auto intro: removeAll_id)

lemma woken_touches:
  assumes k: "kinv_at m b s" and q: "t \<in> set (queues s (Suspended i))" and w: "woken t s s'" and kp: "kept s s'"
  shows "touches i s s'"
proof (rule touchesI)
  show "queues s' (Suspended j) = queues s (Suspended j)" "queues s' (Senders j) = queues s (Senders j)" if "j \<noteq> i" for j
    using w unique_list[OF k q, of "Suspended j"] unique_list[OF k q, of "Senders j"] that by (auto simp: woken_def)
  obtain x where x: "tcb s' = (tcb s)(t := (tcb s t)\<lparr>stat := x\<rparr>)" using w by (auto simp: woken_def)
  show "event_set (tcb s' u) = event_set (tcb s u)" "event_info (tcb s' u) = event_info (tcb s u)" for u by (simp_all add: x)
qed (rule keptD(5)[OF kp])

lemma runnable_unlinked:
  assumes "kinv_at m b s" "runnable s c"
  shows "c \<notin> set (queues s (Suspended j))"
proof -
  have e: "removeAll c (queues s (Suspended j)) = queues s (Suspended j)" by (rule runnable_free[OF assms]) simp
  have "c \<notin> set (removeAll c (queues s (Suspended j)))" by simp
  then show ?thesis unfolding e .
qed

section \<open>Waking the first waiter, if there is one\<close>

text \<open>The end of every operation that delivers something: resume the first waiter and schedule.\<close>

definition wake_first :: "rt_list_head \<Rightarrow> ipc_sys \<Rightarrow> ipc_sys option" where
  "wake_first l s =
     (if queues s l \<noteq> [] then do { s1 \<leftarrow> rt_ipc_list_resume l s; rt_schedule s1 } else Some s)"

lemma wake_first_eff:
  assumes k: "kinv_at m b s" and c: "current_thread s \<noteq> None" and l: "l = Suspended i \<or> l = Senders i"
  shows "\<exists>s'. wake_first l s = Some s' \<and> kinv_at m b s' \<and> current_thread s' \<noteq> None \<and> touches i s s' \<and>
    queues s' l = tl (queues s l) \<and> (\<forall>l'. (\<forall>p. l' \<noteq> Ready p) \<longrightarrow> l' \<noteq> l \<longrightarrow> queues s' l' = queues s l') \<and>
    timer_sys.more s' = timer_sys.more s \<and>
    (\<forall>t ts. queues s l = t # ts \<longrightarrow> runnable s' t \<and> error (tcb s' t) = error (tcb s t))"
proof (cases "queues s l")
  case Nil
  then show ?thesis using k c by (simp add: wake_first_def)
next
  case (Cons t ts)
  obtain s1 s' where s': "rt_ipc_list_resume l s = Some s1" "rt_schedule s1 = Some s'" "kinv_at m b s'"
    "current_thread s' \<noteq> None" "handed l t s s'"
    using wake_eff[OF k c l Cons] by blast
  have r: "wake_first l s = Some s'" using s'(1,2) Cons by (simp add: wake_first_def)
  show ?thesis
    using r s'(3,4) handed_touches[OF s'(5) l] handedD(1,2,3,7)[OF s'(5)] stat_fields(1)[OF handedD(4)[OF s'(5)]] Cons
    by simp
qed

text \<open>Re-computing the timeout of a waiting loop: \<open>timeout -= rt_tick_get() - tick_delta\<close>, not below zero.\<close>

definition remaining_timeout :: "32 word \<Rightarrow> rt_tick_t \<Rightarrow> ipc_sys \<Rightarrow> 32 word" where
  "remaining_timeout timeout start s =
     (if sint timeout > 0
      then let left = timeout - (rt_tick_get s - start) in if sint left < 0 then 0 else left
      else timeout)"

section \<open>Waiting as the caller\<close>

text \<open>The caller clears its error, queues itself on one of the lists of object \<open>i\<close> and gives up the processor.\<close>

lemma wait_here_eff:
  assumes t: "in_task m b c s" and f: "wait_flag_ok i s" and v: "timeout_ok time" and l: "l = Suspended i \<or> l = Senders i"
  shows "\<exists>s1 s'. wait_on l c (ipc_flag s i) time (upd_tcb c (\<lambda>th. th\<lparr>error := 0\<rparr>) s) = Some s1 \<and> rt_schedule s1 = Some s' \<and>
    kinv_at m b s' \<and> current_thread s' \<noteq> None \<and> touches i s s' \<and> st s' c = RT_THREAD_SUSPEND \<and> error (tcb s' c) = 0 \<and>
    queues s' l = queue_of i c s (queues s l) \<and>
    (\<forall>l'. (\<forall>p. l' \<noteq> Ready p) \<longrightarrow> l' \<noteq> l \<longrightarrow> queues s' l' = queues s l') \<and> timer_sys.more s' = timer_sys.more s"
proof -
  let ?s = "upd_tcb c (\<lambda>th. th\<lparr>error := 0\<rparr>) s"
  have t': "in_task m b c ?s" using t by simp
  obtain s1 s' where s': "wait_on l c (ipc_flag s i) time ?s = Some s1" "rt_schedule s1 = Some s'"
    "kinv_at m b s'" "current_thread s' \<noteq> None" "blocked l (ipc_flag s i) c ?s s'"
    using block_eff[OF in_taskD(1,7,3)[OF t'] _ l, of "ipc_flag s i" time] f v
    unfolding wait_flag_ok_def timeout_ok_def by blast
  have "touches i s s'" by (rule touches_trans[OF error_touches blocked_touches[OF s'(5) l]])
  moreover have "queues s' l = queue_of i c s (queues s l)"
    using blockedD(2)[OF s'(5)] queue_of_error[of i c c 0 s] by (simp add: queue_of_def)
  moreover have "queues s' l' = queues s l'" if "\<forall>p. l' \<noteq> Ready p" "l' \<noteq> l" for l'
    using blockedD(3)[OF s'(5), of l'] that by simp
  moreover have "timer_sys.more s' = timer_sys.more s" using blockedD(7)[OF s'(5)] more_timer(6)[of ?s s] by simp
  moreover have "error (tcb s' c) = 0" using stat_fields(1)[OF blockedD(4)[OF s'(5), of c]] by simp
  ultimately show ?thesis using s'(1-4) blockedD(1)[OF s'(5)] by blast
qed

section \<open>Waking both lists of an object\<close>

text \<open>Mailboxes and message queues have two lists; detaching, deleting and resetting them wakes both.\<close>

definition resume_both :: "ipc_id \<Rightarrow> 'a timer_sys_scheme \<Rightarrow> 'a timer_sys_scheme option" where
  "resume_both i s =
     do { s1 \<leftarrow> rt_ipc_list_resume_all (Suspended i) s; rt_ipc_list_resume_all (Senders i) s1 }"

lemma resume_both_eff:
  assumes k: "kinv_at m b s"
  shows "\<exists>s'. resume_both i s = Some s' \<and> kinv_at m b s' \<and> kept s s' \<and> touches i s s' \<and>
    queues s' (Suspended i) = [] \<and> queues s' (Senders i) = [] \<and>
    (\<forall>t \<in> set (queues s (Suspended i)) \<union> set (queues s (Senders i)). runnable s' t \<and> error (tcb s' t) = -1)"
proof -
  let ?R = "Suspended i" and ?S = "Senders i"
  obtain s1 where s1: "rt_ipc_list_resume_all ?R s = Some s1" "kinv_at m b s1" "released ?R s s1" "kept s s1"
    using list_resume_all_eff[OF k, of ?R i] by blast
  obtain s' where s': "rt_ipc_list_resume_all ?S s1 = Some s'" "kinv_at m b s'" "released ?S s1 s'" "kept s1 s'"
    using list_resume_all_eff[OF s1(2), of ?S i] by blast
  have q: "queues s' ?R = []" using releasedD(2)[OF s'(3), of ?R] releasedD(1)[OF s1(3)] by simp
  have S1: "queues s1 ?S = queues s ?S" using releasedD(2)[OF s1(3), of ?S] by simp
  have woken: "runnable s' t \<and> error (tcb s' t) = -1" if t: "t \<in> set (queues s ?R) \<union> set (queues s ?S)" for t
  proof (cases "t \<in> set (queues s ?S)")
    case True
    then obtain x where "runnable s' t" "tcb s' t = (tcb s1 t)\<lparr>error := -1, stat := x\<rparr>"
      using releasedD(3)[OF s'(3), of t] S1 by auto
    then show ?thesis by simp
  next
    case False
    then have same: "tcb s' t = tcb s1 t" using releasedD(4)[OF s'(3), of t] S1 by simp
    obtain x where "runnable s1 t" "tcb s1 t = (tcb s t)\<lparr>error := -1, stat := x\<rparr>"
      using releasedD(3)[OF s1(3), of t] t False by auto
    then show ?thesis using same by (simp add: runnable_def st_def)
  qed
  have "touches i s s'"
    by (rule touches_trans[OF released_touches[OF s1(3,4)] released_touches[OF s'(3,4)]]) simp_all
  moreover have "resume_both i s = Some s'" using s1(1) s'(1) by (simp add: resume_both_def)
  ultimately show ?thesis using s'(2) q releasedD(1)[OF s'(3)] woken kept_trans[OF s1(4) s'(4)] by blast
qed

lemma schedule_keeps_error:
  assumes "scheduled s s'"
  shows "runnable s' t = runnable s t" "error (tcb s' t) = error (tcb s t)"
  using scheduledD(2)[OF assms] stat_fields(1)[OF scheduledD(3)[OF assms]] by simp_all

section \<open>Leaving a section with the scheduler locked\<close>

lemma nest_kinv: "kinv_at m b s \<Longrightarrow> kinv_at m b (s\<lparr>scheduler_lock_nest := x\<rparr>)"
  by (simp add: kinv_at_def base_ok_def sched_inv_def current_inv_def st_def timer_lists_inv_def thread_timers_inv_def deadlines_inv_def)

lemma nest_touches [simp]:
  fixes s :: ipc_sys
  shows "touches i s (s\<lparr>scheduler_lock_nest := x\<rparr>)"
  by (simp add: touches_def)

lemma exit_critical_eff:
  fixes s :: ipc_sys
  assumes k: "kinv_at m b s" "current_thread s \<noteq> None"
  shows "\<exists>s'. rt_exit_critical s = Some s' \<and> kinv_at m b s' \<and> current_thread s' \<noteq> None \<and> touches i s s' \<and>
    (\<forall>l. (\<forall>p. l \<noteq> Ready p) \<longrightarrow> queues s' l = queues s l) \<and> (\<forall>t. runnable s' t = runnable s t \<and> error (tcb s' t) = error (tcb s t))"
proof (cases "sint (scheduler_lock_nest s - 1) \<le> 0")
  case False
  then show ?thesis using nest_kinv[OF k(1)] k(2) by (simp add: rt_exit_critical_def Let_def runnable_def st_def)
next
  case True
  let ?s = "s\<lparr>scheduler_lock_nest := 0\<rparr>"
  obtain s' where s': "rt_schedule ?s = Some s'" "kinv_at m b s'" "current_thread s' \<noteq> None" "scheduled ?s s'"
    using schedule_eff[OF nest_kinv[OF k(1), of 0]] k(2) by auto
  have "runnable ?s t = runnable s t" for t by (simp add: runnable_def st_def)
  moreover have "rt_exit_critical s = Some s'" using True k(2) s'(1) by (simp add: rt_exit_critical_def Let_def)
  moreover have "touches i s s'" by (rule touches_trans[OF nest_touches scheduled_touches[OF s'(4)]])
  ultimately show ?thesis using s'(2,3) scheduledD(1)[OF s'(4)] schedule_keeps_error[OF s'(4)] by simp
qed

end
