(* ===== verification/RT_Demo.thy ===== *)
theory RT_Demo
  imports RT_Ipc
begin

text \<open>
  A concrete running system on which the properties are exercised: thread 0 idles at priority 31 and
  is ready, thread 1 runs at priority 10, the threads of a list \<open>ts\<close> wait on one object, at priority 5
  plus their number, and every timer is stopped.
\<close>

definition demo_thread :: "u8 \<Rightarrow> u8 \<Rightarrow> rt_thread" where
  "demo_thread x p = \<lparr>stat = x, current_priority = p, init_priority = p, number_mask = 2 ^ unat p, error = 0,
     event_set = 0, event_info = 0, init_tick = 10, remaining_tick = 10, static_object = True\<rparr>"

definition demo :: "rt_list_head \<Rightarrow> tid list \<Rightarrow> ipc_sys" where
  "demo l ts =
     \<lparr>tcb = (\<lambda>u. if u = 0 then demo_thread RT_THREAD_READY 31
                 else if u = 1 then demo_thread RT_THREAD_RUNNING 10
                 else if u \<in> set ts then demo_thread RT_THREAD_SUSPEND (5 + of_nat (u mod 8))
                 else demo_thread RT_THREAD_INIT 20),
      queues = (\<lambda>q. if q = Ready 31 then [0] else if q = l then ts else []),
      ready_priority_group = 2 ^ 31, current_thread = Some 1, current_prio = 10,
      scheduler_lock_nest = 0, interrupt_nest = 0,
      timers = (\<lambda>x. \<lparr>flag = 0, timer_init_tick = 0, timeout_tick = 0\<rparr>), timer_lists = (\<lambda>q. []),
      rt_tick = 100, soft_timer_status = RT_SOFT_TIMER_IDLE, timer_thread = 9,
      ipc_flag = (\<lambda>i. RT_IPC_FLAG_FIFO), ipc_static = (\<lambda>i. True),
      sems = (\<lambda>n. \<lparr>sem_value = 0\<rparr>),
      mutexes = (\<lambda>n. \<lparr>mutex_value = 1, original_priority = 0xff, hold = 0, owner = None\<rparr>),
      events = (\<lambda>n. \<lparr>event_bits = 0\<rparr>),
      mailboxes = (\<lambda>n. \<lparr>mb_pool = [0, 0], mb_size = 2, mb_entry = 0, in_offset = 0, out_offset = 0\<rparr>),
      mqs = (\<lambda>n. \<lparr>msg_size = 4, max_msgs = 2, mq_entry = 0, msg_next = (\<lambda>b. if b = 1 then Some 0 else None),
                   msg_data = (\<lambda>b. replicate 4 0), msg_queue_head = None, msg_queue_tail = None,
                   msg_queue_free = Some 1\<rparr>)\<rparr>"

lemma demo_thread_obs [simp]:
  "stat (demo_thread x p) = x" "current_priority (demo_thread x p) = p" "init_priority (demo_thread x p) = p"
  "number_mask (demo_thread x p) = 2 ^ unat p" "error (demo_thread x p) = 0"
  "event_set (demo_thread x p) = 0" "event_info (demo_thread x p) = 0"
  by (simp_all add: demo_thread_def)

lemma demo_obs [simp]:
  "queues (demo l ts) q = (if q = Ready 31 then [0] else if q = l then ts else [])"
  "ready_priority_group (demo l ts) = 2 ^ 31" "current_thread (demo l ts) = Some 1"
  "scheduler_lock_nest (demo l ts) = 0" "interrupt_nest (demo l ts) = 0" "rt_tick (demo l ts) = 100"
  "timers (demo l ts) x = \<lparr>flag = 0, timer_init_tick = 0, timeout_tick = 0\<rparr>" "timer_lists (demo l ts) h = []"
  "ipc_flag (demo l ts) i = RT_IPC_FLAG_FIFO" "ipc_static (demo l ts) i = True"
  "tcb (demo l ts) 0 = demo_thread RT_THREAD_READY 31" "tcb (demo l ts) (Suc 0) = demo_thread RT_THREAD_RUNNING 10"
  "sems (demo l ts) n = \<lparr>sem_value = 0\<rparr>" "events (demo l ts) n = \<lparr>event_bits = 0\<rparr>"
  "mutexes (demo l ts) n = \<lparr>mutex_value = 1, original_priority = 0xff, hold = 0, owner = None\<rparr>"
  "mailboxes (demo l ts) n = \<lparr>mb_pool = [0, 0], mb_size = 2, mb_entry = 0, in_offset = 0, out_offset = 0\<rparr>"
  by (simp_all add: demo_def)

lemma demo_tcb:
  "tcb (demo l ts) u = (if u = 0 then demo_thread RT_THREAD_READY 31 else if u = 1 then demo_thread RT_THREAD_RUNNING 10
     else if u \<in> set ts then demo_thread RT_THREAD_SUSPEND (5 + of_nat (u mod 8)) else demo_thread RT_THREAD_INIT 20)"
  by (simp add: demo_def)

lemma demo_runnable [simp]: "runnable (demo l ts) (Suc 0)"
  by (simp add: runnable_def st_def)

lemma demo_prio: "unat (5 + of_nat (u mod 8) :: u8) = 5 + u mod 8"
proof -
  have "(5 + of_nat (u mod 8) :: u8) = of_nat (5 + u mod 8)" by simp
  also have "unat \<dots> = 5 + u mod 8" by (rule unat_of_nat_small) (simp add: less_trans[OF mod_less_divisor])
  finally show ?thesis .
qed

lemma demo_kinv:
  assumes l: "l = Suspended i \<or> l = Senders i" and d: "distinct ts" and n: "0 \<notin> set ts" "1 \<notin> set ts"
  shows "kinv_at 0x7ffffffe 100 (demo l ts)"
proof -
  let ?s = "demo l ts"
  have p: "5 + u mod 8 < (32 :: nat)" for u :: nat using mod_less_divisor[of 8 u] by linarith
  have "lists_inv {} ?s"
  proof (rule lists_invI)
    show "prio_ok (tcb ?s t)" for t by (simp add: demo_tcb prio_ok_def demo_prio p)
    show "t \<in> set (queues ?s (Ready q)) \<longleftrightarrow> st ?s t = RT_THREAD_READY \<and> prio ?s t = q" for t q
      using l by (auto simp: demo_tcb st_def prio_def split: if_splits)
    show "bit (ready_priority_group ?s) q \<longleftrightarrow> queues ?s (Ready q) \<noteq> []" for q
      using l bit_exp_iff[of 31 q, where 'a = u32] by auto
  qed (use l d n in \<open>auto simp: demo_tcb st_def intro: gr0I split: if_splits\<close>)
  moreover have "current_inv ?s" by (auto simp: current_inv_def demo_tcb st_def)
  ultimately show ?thesis
    by (simp add: kinv_at_def base_ok_def sched_inv_def timer_lists_inv_def thread_timers_inv_def deadlines_inv_def)
qed

lemma demo_in_task [simp]:
  assumes "l = Suspended i \<or> l = Senders i" "distinct ts" "0 \<notin> set ts" "1 \<notin> set ts"
  shows "in_task 0x7ffffffe 100 (Suc 0) (demo l ts)"
  using demo_kinv[OF assms] by (simp add: in_task_def)

lemma demo_flag [simp]: "wait_flag_ok i (demo l ts)"
  by (simp add: wait_flag_ok_def)

end
