(* ===== verification/RT_Kernel_Props.thy ===== *)
theory RT_Kernel_Props
  imports RT_Clock RT_Demo
begin

text \<open>
  Properties of the scheduler, the threads and the clock: the scheduling decision, round robin among
  threads of one priority, the tick interrupt and the timer list, and what happens to a sleeping thread.
\<close>

section \<open>The scheduling decision\<close>

text \<open>
  The current thread after scheduling: it is running, and no ready thread has a higher priority
  (a smaller number).
\<close>

lemma schedule_contract:
  assumes i: "sched_inv s" and c: "current_thread s = Some c" and l: "scheduler_lock_nest s = 0"
    and some: "st s c = RT_THREAD_RUNNING \<or> (\<exists>p. queues s (Ready p) \<noteq> [])"
  shows "\<exists>s' c'. rt_schedule s = Some s' \<and> sched_inv s' \<and> current_thread s' = Some c' \<and> st s' c' = RT_THREAD_RUNNING \<and>
    (\<forall>p. \<forall>u \<in> set (queues s' (Ready p)). prio s' c' \<le> p)"
  using i c
proof (cases rule: rt_schedule_cases)
  case idle
  then have "\<forall>p. queues s (Ready p) = []" using l by simp
  then show ?thesis using idle(1) i c some by auto
next
  case (stay s')
  then show ?thesis by auto
next
  case (switch s' t p ts)
  have "st s t = RT_THREAD_READY" "prio s t = p"
    using switch(4) i ready_inX[of "{}" s t p] by (simp_all add: sched_inv_def)
  moreover have "p \<le> q" if "u \<in> set (queues s' (Ready q))" for u q
    using that switch(8)[of u q] switch(9) unfolding switch(12) by (auto split: if_splits)
  ultimately show ?thesis using switch(1,2,6,7,11) by auto
qed

text \<open>
  C23. Scheduling picks the highest priority: with the scheduler unlocked and some thread able to run,
  rt_schedule returns, keeps the invariant of the ready lists and the bitmap, and leaves as current thread
  a running one before which no ready thread ranks.
\<close>

theorem schedule_highest:
  assumes "sched_inv s" "current_thread s = Some c" "scheduler_lock_nest s = 0"
    "st s c = RT_THREAD_RUNNING \<or> (\<exists>p. queues s (Ready p) \<noteq> [])"
  shows "\<exists>s' c'. rt_schedule s = Some s' \<and> sched_inv s' \<and> current_thread s' = Some c' \<and> st s' c' = RT_THREAD_RUNNING \<and>
    (\<forall>p. \<forall>u \<in> set (queues s' (Ready p)). prio s' c' \<le> p)"
  using schedule_contract[OF assms] .

section \<open>Round robin\<close>

text \<open>Scheduling with the yield bit set goes to the first ready thread of the same priority.\<close>

lemma schedule_yield:
  assumes i: "sched_inv s" and l: "scheduler_lock_nest s = 0" and c: "current_thread s = Some c"
    and run: "st s c = RT_THREAD_RUNNING" and y: "stat (tcb s c) AND RT_THREAD_STAT_YIELD \<noteq> 0"
    and q: "queues s (Ready (prio s c)) = t # ts" and hi: "\<And>r. r < prio s c \<Longrightarrow> queues s (Ready r) = []"
  obtains s' where "rt_schedule s = Some s'" "sched_inv s'" "current_thread s' = Some t" "st s' t = RT_THREAD_RUNNING"
    "queues s' (Ready (prio s c)) = ts @ [c]" "prio s' = prio s" "\<And>r. r < prio s c \<Longrightarrow> queues s' (Ready r) = []"
proof -
  have li: "lists_inv {} s" using i by (simp add: sched_inv_def)
  have g: "ready_priority_group s \<noteq> 0" using group_zero_iff[OF li] q by auto
  obtain t' p ts' where h: "get_highest_priority_thread s = Some (t', p)" "queues s (Ready p) = t' # ts'"
    "p < 32" "\<And>u r. u \<in> set (queues s (Ready r)) \<Longrightarrow> p \<le> r" by (rule highest_ready[OF li g]) (rule that)
  have "p = prio s c" using h(2) h(4)[of t "prio s c"] q hi[of p] by (cases "p < prio s c") auto
  then have h': "get_highest_priority_thread s = Some (t, prio s c)" using h q by simp
  have tc: "t \<noteq> c" using ready_inX[OF li, of t "prio s c"] q run by auto
  have d: "t \<notin> set ts" using lists_inv_distinct[OF li, of "Ready (prio s c)"] q by simp
  have unlocked: "(if scheduler_lock_nest s = 0 \<and> ready_priority_group s \<noteq> 0 then a else b) = a" for a b :: 'x
    using l g by simp
  have leaves: "(st s c = 3 \<and> (prio s c < prio s c \<or> prio s c = prio s c \<and> stat (tcb s c) AND 8 = 0)) = False"
    using y by blast
  have sw: "map_option current_thread (rt_schedule s) = Some (Some t)"
    unfolding rt_schedule_def unlocked h' c bind.bind_lunit prod.case Let_def leaves if_False by (simp add: tc run)
  from i c show thesis
  proof (cases rule: rt_schedule_cases)
    case idle
    then show thesis using l q by auto
  next
    case (stay s')
    then show thesis using sw tc by simp
  next
    case (switch s' t2 p2 ts2)
    then have "t2 = t" using sw by simp
    then show thesis using that[OF switch(1,2)] switch q run d tc hi by auto
  qed
qed

primrec yields :: "nat \<Rightarrow> 'a timer_sys_scheme \<Rightarrow> 'a timer_sys_scheme option" where
  "yields 0 s = Some s"
| "yields (Suc k) s = do { s1 \<leftarrow> rt_thread_yield s; yields k s1 }"

text \<open>
  The running thread \<open>c\<close> with the ready threads of its priority behind it, no higher one being ready.
\<close>

definition ring :: "nat \<Rightarrow> tid \<Rightarrow> tid list \<Rightarrow> 'a sched_scheme \<Rightarrow> bool" where
  "ring p c ts s \<longleftrightarrow> sched_inv s \<and> scheduler_lock_nest s = 0 \<and> current_thread s = Some c \<and>
     st s c = RT_THREAD_RUNNING \<and> prio s c = p \<and> queues s (Ready p) = ts \<and> (\<forall>r<p. queues s (Ready r) = [])"

lemma yield_bit: "(x OR 8) AND 8 \<noteq> (0 :: u8)" "(x OR 8) AND 7 = x AND (7 :: u8)"
  by (simp_all add: bit.conj_disj_distrib2)

lemma yield_ring:
  assumes r: "ring p c ts s"
  shows "\<exists>s'. rt_thread_yield s = Some s' \<and> ring p (hd (ts @ [c])) (tl (ts @ [c])) s'"
proof -
  let ?s = "upd_tcb c (\<lambda>th. th\<lparr>remaining_tick := init_tick th, stat := stat th OR RT_THREAD_STAT_YIELD\<rparr>) s"
  have i: "sched_inv s" and l: "scheduler_lock_nest s = 0" and c: "current_thread s = Some c"
    and run: "st s c = RT_THREAD_RUNNING" and p: "prio s c = p" and q: "queues s (Ready p) = ts"
    and hi: "\<And>r. r < p \<Longrightarrow> queues s (Ready r) = []" using r by (simp_all add: ring_def)
  have st: "st ?s = st s" "prio ?s = prio s" by (auto simp: fun_eq_iff st_upd_tcb prio_upd_tcb yield_bit st_def prio_def)
  have "lists_inv {} ?s" by (rule upd_same) (use i in \<open>simp_all add: sched_inv_def st_def yield_bit\<close>)
  then have i': "sched_inv ?s" using i st by (simp add: sched_inv_def current_inv_def)
  have e: "rt_thread_yield s = rt_schedule ?s" using c by (simp add: rt_thread_yield_def rt_thread_self_def)
  have lk: "scheduler_lock_nest s' = 0" if "rt_schedule ?s = Some s'" for s' using rt_schedule_frame[OF that] l by simp
  show ?thesis
  proof (cases ts)
    case Nil
    obtain s' c' where s': "rt_schedule ?s = Some s'" "sched_inv s'" "current_thread s' = Some c'" "st s' c' = RT_THREAD_RUNNING"
      using schedule_contract[OF i', of c] c l run st by auto
    have cc: "current_thread ?s = Some c" using c by simp
    from i' cc have "s' = ?s \<or> queues s' = queues s \<and> prio s' = prio s \<and> current_thread s' = Some c"
    proof (cases rule: rt_schedule_cases)
      case (switch s2 t2 p2 ts2)
      have "p2 \<le> p" using switch(9) run st p by simp
      then have "queues s (Ready p2) = []" using hi[of p2] q Nil by (cases "p2 = p") auto
      then show ?thesis using switch(4) by simp
    qed (use s'(1) st in auto)
    then have "ring p c [] s'" using s' lk[OF s'(1)] st p q hi Nil c run by (auto simp: ring_def)
    then show ?thesis using e s'(1) Nil by simp
  next
    case (Cons t us)
    have y: "stat (tcb ?s c) AND RT_THREAD_STAT_YIELD \<noteq> 0" by (simp add: yield_bit)
    have "prio s t = p" using ready_inX[of "{}" s t p] i q Cons by (simp add: sched_inv_def)
    moreover obtain s' where "rt_schedule ?s = Some s'" "sched_inv s'" "current_thread s' = Some t" "st s' t = RT_THREAD_RUNNING"
      "queues s' (Ready p) = us @ [c]" "prio s' = prio ?s" "\<And>r. r < p \<Longrightarrow> queues s' (Ready r) = []"
      by (rule schedule_yield[OF i' _ _ _ y, of t us]) (use l c run st p q hi Cons in auto)
    ultimately show ?thesis using e lk st Cons by (auto simp: ring_def)
  qed
qed

lemma yields_ring:
  "ring p c ts s \<Longrightarrow> \<exists>s'. yields k s = Some s' \<and> ring p (hd (rotate k (c # ts))) (tl (rotate k (c # ts))) s'"
proof (induction k arbitrary: c ts s)
  case (Suc k)
  obtain s1 where s1: "rt_thread_yield s = Some s1" "ring p (hd (ts @ [c])) (tl (ts @ [c])) s1"
    using yield_ring[OF Suc.prems] by blast
  have "hd (ts @ [c]) # tl (ts @ [c]) = rotate1 (c # ts)" by (cases ts) simp_all
  then show ?case using Suc.IH[OF s1(2)] s1(1) by (simp add: rotate1_rotate_swap rotate_Suc)
qed simp

text \<open>
  C24. Round robin is fair: if the running thread and the threads that come after it yield in turn, and no
  higher priority becomes ready, then after k yields the threads of this priority stand rotated by k, so
  every one of them gets the processor within as many yields as there are threads.
\<close>

theorem round_robin_fair:
  assumes "ring p c ts s" and "t \<in> set (c # ts)"
  shows "\<exists>k \<le> length ts. \<exists>s'. yields k s = Some s' \<and> current_thread s' = Some t \<and> st s' t = RT_THREAD_RUNNING \<and>
    queues s' (Ready p) = tl (rotate k (c # ts)) \<and> sched_inv s'"
proof -
  obtain k where k: "k < length (c # ts)" "(c # ts) ! k = t" using assms(2) by (meson in_set_conv_nth)
  obtain s' where s': "yields k s = Some s'" "ring p (hd (rotate k (c # ts))) (tl (rotate k (c # ts))) s'"
    using yields_ring[OF assms(1)] by blast
  have "hd (rotate k (c # ts)) = t" using k by (simp add: hd_rotate_conv_nth)
  then show ?thesis using s' k(1) by (intro exI[of _ k]) (auto simp: ring_def)
qed

section \<open>Sleeping\<close>

text \<open>A turn of the timer check leaves the other timers in the list.\<close>

lemma rearm_others:
  assumes "timer_rearm l x s = Some s2" "\<not> soft_timer s x"
  shows "same_sched s s2" "y \<noteq> x \<Longrightarrow> y \<in> set (timer_lists s2 HardTimers) \<longleftrightarrow> y \<in> set (timer_lists s HardTimers)"
    "y \<noteq> x \<Longrightarrow> timeout_tick (timers s2 y) = timeout_tick (timers s y)" "rt_tick s2 = rt_tick s"
proof -
  let ?d = "deactivate x (timer_remove x s)"
  have sd: "same_sched s ?d" by (meson same_sched_timer same_sched_trans)
  have ns: "\<not> soft_timer ?d x" using assms(2) by simp
  consider "s2 = s" | "s2 = timer_remove x s" | "s2 = timer_linked x ?d"
    using assms(1) ns by (auto simp: timer_rearm_def Let_def start_linked split: if_splits)
  then have "same_sched s s2 \<and> rt_tick s2 = rt_tick s \<and>
     (y \<noteq> x \<longrightarrow> (y \<in> set (timer_lists s2 HardTimers) \<longleftrightarrow> y \<in> set (timer_lists s HardTimers)) \<and>
       timeout_tick (timers s2 y) = timeout_tick (timers s y))"
  proof cases
    case 3
    then show ?thesis
      using same_sched_trans[OF sd same_sched_linked] ns by (simp add: timer_linked_obs new_deadline_def)
  qed simp_all
  then show "same_sched s s2" "rt_tick s2 = rt_tick s"
    "y \<noteq> x \<Longrightarrow> y \<in> set (timer_lists s2 HardTimers) \<longleftrightarrow> y \<in> set (timer_lists s HardTimers)"
    "y \<noteq> x \<Longrightarrow> timeout_tick (timers s2 y) = timeout_tick (timers s y)" by blast+
qed

text \<open>
  What a sleeper asks of the callbacks of the application: they leave its timer alone and, once it has
  been woken, neither suspend it nor touch its error code.
\<close>

definition spares :: "tid \<Rightarrow> (nat \<Rightarrow> 'a timer_sys_scheme \<Rightarrow> 'a timer_sys_scheme option) \<Rightarrow> bool" where
  "spares t user \<longleftrightarrow> (\<forall>n s s'. user n s = Some s' \<longrightarrow>
     (ThreadTimer t \<in> set (timer_lists s HardTimers) \<longrightarrow> ThreadTimer t \<in> set (timer_lists s' HardTimers)) \<and>
     (runnable s t \<longrightarrow> runnable s' t) \<and> error (tcb s' t) = error (tcb s t))"

definition asleep :: "tid \<Rightarrow> rt_tick_t \<Rightarrow> 'a timer_sys_scheme \<Rightarrow> bool" where
  "asleep t d s \<longleftrightarrow> ThreadTimer t \<in> set (timer_lists s HardTimers) \<and> timeout_tick (timers s (ThreadTimer t)) = d"

definition woken_up :: "tid \<Rightarrow> 'a timer_sys_scheme \<Rightarrow> bool" where
  "woken_up t s \<longleftrightarrow> runnable s t \<and> error (tcb s t) = -2"

lemma timeout_frame:
  assumes "rt_thread_timeout u s = Some s'"
  shows "t \<noteq> u \<Longrightarrow> error (tcb s' t) = error (tcb s t)" and "sched.more s' = sched.more s"
  using assms rt_schedule_frame[of "rt_schedule_insert_thread u (list_unlink u (upd_tcb u (\<lambda>th. th\<lparr>error := -2\<rparr>) s))" s' t]
  by (auto simp: rt_thread_timeout_def split: if_splits)

lemma turn_asleep:
  assumes sp: "spares t user" and i: "isr_state s" and a: "asleep t d s" and x: "x \<noteq> ThreadTimer t"
    and f: "timeout_func user x (timer_expire ExpiringHard x s) = Some s1"
    and n: "starts_no_timer (timer_expire ExpiringHard x s) s1"
    and r: "timer_rearm ExpiringHard x s1 = Some s2" "\<not> soft_timer s1 x"
  shows "asleep t d s2"
proof -
  let ?s0 = "timer_expire ExpiringHard x s"
  have "ThreadTimer t \<in> set (timer_lists ?s0 HardTimers)" using a x by (simp add: asleep_def expire_obs(4))
  moreover have "timeout_tick (timers s1 (ThreadTimer t)) = d"
    using n a by (simp add: starts_no_timer_def asleep_def expire_obs)
  ultimately have "asleep t d s1"
    using f sp more_timer(2)[OF timeout_frame(2), of _ ?s0 s1]
    by (cases x) (auto simp: timeout_func_def asleep_def spares_def)
  then show ?thesis using rearm_others[OF r] x by (simp add: asleep_def)
qed

lemma turn_wakes:
  assumes sp: "spares t user" and i: "isr_state s" and a: "asleep t d s \<or> woken_up t s"
    and xl: "x \<in> set (timer_lists s HardTimers)"
    and f: "timeout_func user x (timer_expire ExpiringHard x s) = Some s1"
    and n: "starts_no_timer (timer_expire ExpiringHard x s) s1"
    and r: "timer_rearm ExpiringHard x s1 = Some s2" "\<not> soft_timer s1 x"
  shows "asleep t d s2 \<or> woken_up t s2"
proof -
  let ?s0 = "timer_expire ExpiringHard x s"
  have k: "kinv_at BASE_ISR (rt_tick s - 1) s" and e: "timer_lists s ExpiringHard = []" and c: "current_thread s \<noteq> None"
    using i by (simp_all add: isr_state_def)
  note same0 = same_schedD[OF expire_obs(6)[of s ExpiringHard x]]
  note same2 = same_schedD[OF rearm_others(1)[OF r]]
  have k0: "kinv_at BASE_ISR (rt_tick s - 1) ?s0" by (rule expire_kinv[OF k xl e])
  have woken2: "woken_up t s2" if "woken_up t s1" using that same2 by (simp add: woken_up_def runnable_def)
  have timed: "asleep t d s2 \<or> woken_up t s2" if x: "x = ThreadTimer u" for u
  proof -
    have u: "st ?s0 u = RT_THREAD_SUSPEND"
      using kinv_atD(4)[OF k] xl x same0(4) by (simp add: thread_timers_inv_def)
    have off: "ThreadTimer u \<notin> set (timer_lists ?s0 HardTimers)" using x by (simp add: expire_obs(4))
    obtain s' where s': "rt_thread_timeout u ?s0 = Some s'" "runnable s' u" "error (tcb s' u) = -2"
      "\<And>v. v \<noteq> u \<Longrightarrow> runnable s' v = runnable ?s0 v"
      using timeout_kinv[OF k0 u off] c same0(3) by metis
    have s1: "s1 = s'" using f x s'(1) by (simp add: timeout_func_def)
    show ?thesis
    proof (cases "u = t")
      case True
      then show ?thesis using woken2 s1 s'(2,3) by (simp add: woken_up_def)
    next
      case False
      have "woken_up t s1" if "woken_up t s"
        using that s'(4)[of t] timeout_frame(1)[OF s'(1), of t] False same0 s1 by (simp add: woken_up_def runnable_def)
      moreover have "asleep t d s2" if "asleep t d s" by (rule turn_asleep[OF sp i that _ f n r]) (use False x in simp)
      ultimately show ?thesis using a woken2 by blast
    qed
  qed
  show ?thesis
  proof (cases x)
    case (UserTimer m)
    have "user m ?s0 = Some s1" using f UserTimer by (simp add: timeout_func_def)
    moreover have "woken_up t ?s0" if "woken_up t s" using that same0(1,4) by (simp add: woken_up_def runnable_def)
    ultimately have "woken_up t s1" if "woken_up t s" using that sp unfolding spares_def woken_up_def by metis
    moreover have "asleep t d s2" if "asleep t d s" by (rule turn_asleep[OF sp i that _ f n r]) (use UserTimer in simp)
    ultimately show ?thesis using a woken2 by blast
  qed (use timed in blast)
qed

text \<open>One tick: a sleeper whose deadline is more than a tick away sleeps on, any other is woken.\<close>

lemma tick_sleeper:
  assumes t: "task_state s" and cb: "callbacks_ok user" and sp: "spares t user" and a: "asleep t d s"
  shows "\<exists>s'. rt_tick_increase user s = Some s' \<and> task_state s' \<and> rt_tick s' = rt_tick s + 1 \<and>
    (if dist (rt_tick s) d \<le> 1 then woken_up t s' else asleep t d s' \<and> dist (rt_tick s') d = dist (rt_tick s) d - 1)"
proof -
  have k: "kinv_at BASE_TASK (rt_tick s) s" using t by (simp add: task_state_def)
  have le: "dist (rt_tick s) d \<le> 0x7fffffff" using kinv_atD(5)[OF k] a by (force simp: deadlines_inv_def asleep_def)
  have start: "asleep t d s3 \<and> rt_tick s3 = rt_tick s + 1" if "sched.more s3 = sched.more (s\<lparr>rt_tick := rt_tick s + 1\<rparr>)" for s3
    using more_timer[OF that] a by (simp add: asleep_def)
  show ?thesis
  proof (cases "dist (rt_tick s) d \<le> 1")
    case True
    have "turn_keeps user (\<lambda>s. asleep t d s \<or> woken_up t s)"
      unfolding turn_keeps_def using turn_wakes[OF sp] by blast
    then obtain s' where s': "rt_tick_increase user s = Some s'" "task_state s'" "rt_tick s' = rt_tick s + 1"
      "\<forall>x \<in> set (timer_lists s' HardTimers). 0 < dist (rt_tick s') (timeout_tick (timers s' x))" "asleep t d s' \<or> woken_up t s'"
      using tick_increase_rule[OF t cb, of "\<lambda>s. asleep t d s \<or> woken_up t s"] start by blast
    have "dist (rt_tick s + 1) d = 0 \<or> dist (rt_tick s + 1) d > 0x7fffffff"
    proof -
      have e: "d - (rt_tick s + 1) = (d - rt_tick s) - 1" by simp
      have "dist (rt_tick s) d = unat (0 :: rt_tick_t) \<or> dist (rt_tick s) d = unat (1 :: rt_tick_t)" using True by auto
      then have "d - rt_tick s = 0 \<or> d - rt_tick s = 1" by (simp only: word_unat_eq_iff[symmetric])
      moreover have "unat (- 1 :: rt_tick_t) = 0xffffffff" by (simp add: unsigned_minus_1_eq_mask mask_eq_exp_minus_1)
      ultimately show ?thesis unfolding e by auto
    qed
    moreover have "0 < dist (rt_tick s + 1) d \<and> dist (rt_tick s + 1) d \<le> 0x7fffffff" if "asleep t d s'"
    proof -
      have "kinv_at BASE_TASK (rt_tick s') s'" using s'(2) by (simp add: task_state_def)
      from kinv_atD(5)[OF this] s'(3,4) that show ?thesis by (force simp: deadlines_inv_def asleep_def)
    qed
    ultimately have "woken_up t s'" using s'(5) by fastforce
    then show ?thesis using True s'(1,2,3) by auto
  next
    case False
    let ?P = "\<lambda>s'. asleep t d s' \<and> rt_tick s' = rt_tick s + 1"
    have "turn_keeps user ?P"
      unfolding turn_keeps_def
    proof (intro allI impI)
      fix s3 x s1 s2
      assume h: "isr_state s3" "?P s3" "due s3 x" "timeout_func user x (timer_expire ExpiringHard x s3) = Some s1"
        "starts_no_timer (timer_expire ExpiringHard x s3) s1" "timer_rearm ExpiringHard x s1 = Some s2" "\<not> soft_timer s1 x"
      have "x \<noteq> ThreadTimer t" using h(2,3) False by (auto simp: due_def asleep_def)
      then have "asleep t d s2" using turn_asleep[OF sp h(1) _ _ h(4-7)] h(2) by blast
      moreover have "rt_tick s2 = rt_tick s3" using rearm_others(4)[OF h(6,7)] h(5) by (simp add: starts_no_timer_def expire_obs)
      ultimately show "?P s2" using h(2) by simp
    qed
    then obtain s' where s': "rt_tick_increase user s = Some s'" "task_state s'" "?P s'"
      using tick_increase_rule[OF t cb, of ?P] start by blast
    have "dist (rt_tick s') d = dist (rt_tick s) d - 1"
      using not_due_next[of d "rt_tick s + 1"] le False s'(3) by simp
    then show ?thesis using False s' by auto
  qed
qed

primrec ticks ::
  "(nat \<Rightarrow> 'a timer_sys_scheme \<Rightarrow> 'a timer_sys_scheme option) \<Rightarrow> nat \<Rightarrow> 'a timer_sys_scheme \<Rightarrow> 'a timer_sys_scheme option" where
  "ticks user 0 s = Some s"
| "ticks user (Suc k) s = do { s1 \<leftarrow> rt_tick_increase user s; ticks user k s1 }"

lemma ticks_sleeper:
  assumes "task_state s" "callbacks_ok user" "spares t user" "asleep t d s"
  shows "(k < max 1 (dist (rt_tick s) d) \<longrightarrow> (\<exists>s'. ticks user k s = Some s' \<and> task_state s' \<and> asleep t d s')) \<and>
    (\<exists>s'. ticks user (max 1 (dist (rt_tick s) d)) s = Some s' \<and> task_state s' \<and> woken_up t s' \<and>
      rt_tick s' = rt_tick s + of_nat (max 1 (dist (rt_tick s) d)))"
  using assms(1,4)
proof (induction "dist (rt_tick s) d" arbitrary: s k)
  case 0
  then show ?case using tick_sleeper[OF _ assms(2,3), of s d] by (fastforce simp: max_def less_Suc_eq_0_disj)
next
  case (Suc n)
  obtain s1 where s1: "rt_tick_increase user s = Some s1" "task_state s1" "rt_tick s1 = rt_tick s + 1"
    "if dist (rt_tick s) d \<le> 1 then woken_up t s1 else asleep t d s1 \<and> dist (rt_tick s1) d = dist (rt_tick s) d - 1"
    using tick_sleeper[OF Suc.prems(1) assms(2,3) Suc.prems(2)] by blast
  show ?case
  proof (cases "n = 0")
    case True
    then have "dist (rt_tick s) d = 1" using Suc.hyps(2) by simp
    then show ?thesis using s1 Suc.prems by (auto simp: less_Suc_eq_0_disj)
  next
    case False
    then have d1: "asleep t d s1" "n = dist (rt_tick s1) d" "max 1 (dist (rt_tick s) d) = Suc (max 1 n)"
      using s1(4) Suc.hyps(2) by (auto split: if_splits)
    note IH = Suc.hyps(1)[OF d1(2) s1(2) d1(1)]
    show ?thesis
      unfolding d1(3) using IH[of "k - 1"] s1(1,3) d1(2) Suc.prems by (cases k) auto
  qed
qed

text \<open>Going to sleep.\<close>

lemma suspend_timers:
  "rt_thread_suspend t s = Some (r, s1) \<Longrightarrow> y \<noteq> ThreadTimer t \<Longrightarrow> timers s1 y = timers s y"
  "rt_thread_suspend t s = Some (r, s1) \<Longrightarrow> set (timer_lists s1 l) \<subseteq> set (timer_lists s l)"
  using more_timer(1,2)[of "upd_tcb t (set_stat RT_THREAD_SUSPEND) (rt_schedule_remove_thread t s)" s]
  by (auto simp: rt_thread_suspend_def rt_timer_stop_def deactivate_def Let_def split: if_splits)

lemma suspend_for_task:
  assumes t: "task_state s" and r: "runnable s t" and v: "v < HALF"
  shows "\<exists>s'. suspend_for t v s = Some s' \<and> task_state s' \<and> asleep t (rt_tick s + v) s' \<and> rt_tick s' = rt_tick s"
proof -
  let ?x = "ThreadTimer t"
  have k: "kinv_at BASE_TASK (rt_tick s) s" using t by (simp add: task_state_def)
  obtain s' where s': "suspend_for t v s = Some s'" "kinv_at BASE_TASK (rt_tick s) s'" "current_thread s' = current_thread s"
    "rt_tick s' = rt_tick s" "?x \<in> set (timer_lists s' HardTimers)" "timeout_tick (timers s' ?x) = rt_tick s + v"
    by (rule suspend_for_kinv[OF k r v]) (rule that)
  obtain s1 where s1: "rt_thread_suspend t s = Some (0, s1)" "kinv_at BASE_TASK (rt_tick s) s1" "st s1 t = RT_THREAD_SUSPEND"
    by (rule suspend_kinv[OF k r[unfolded runnable_def]]) (rule that)
  let ?s2 = "snd (rt_timer_control ?x (SET_TIME v) s1)"
  have k2: "kinv_at BASE_TASK (rt_tick s) ?s2" by (rule set_time_kinv[OF s1(2)])
  have "rt_timer_start ?x ?s2 = Some s'" using s'(1) s1(1) by (simp add: suspend_for_def)
  then have e: "s' = timer_linked ?x ?s2"
    using start_thread_timer(1)[OF k2, of t] v s1(3) same_schedD(4)[OF control_set_time(1), of ?x v s1] by simp
  have ns: "\<not> soft_timer ?s2 ?x" using kinv_atD(4)[OF k2] by (simp add: thread_timers_inv_def)
  have tm: "timers s' y = timers s y" if "y \<noteq> ?x" for y
    using that suspend_timers(1)[OF s1(1) that]
    by (simp add: e timer_linked_def timer_link_def Let_def deactivate_def rt_timer_control_def)
  have "intervals_ok s'"
    unfolding intervals_ok_def
  proof
    fix y show "periodic s' y \<longrightarrow> 0 < timer_init_tick (timers s' y) \<and> timer_init_tick (timers s' y) < HALF"
      using t tm[of y] kinv_atD(4)[OF s'(2)] by (cases "y = ?x") (auto simp: task_state_def intervals_ok_def thread_timers_inv_def)
  qed
  moreover have "timer_lists s' ExpiringHard = []"
    using t suspend_timers(2)[OF s1(1), of ExpiringHard] ns by (simp add: e linked_lists task_state_def)
  ultimately show ?thesis using s' t by (simp add: task_state_def asleep_def)
qed

lemma schedule_task:
  assumes t: "task_state s"
  shows "\<exists>s'. rt_schedule s = Some s' \<and> task_state s' \<and> sched.more s' = sched.more s"
proof -
  obtain s' where s': "rt_schedule s = Some s'" "kinv_at BASE_TASK (rt_tick s) s'" "current_thread s' \<noteq> None"
    using rt_schedule_kinv[of BASE_TASK "rt_tick s" s] t by (auto simp: task_state_def)
  have "sched.more s' = sched.more s" using rt_schedule_frame[OF s'(1)] by simp
  then show ?thesis using s' t more_timer[of s' s] by (simp add: task_state_def intervals_ok_def)
qed

lemma asleep_suspended: "task_state s \<Longrightarrow> asleep t d s \<Longrightarrow> st s t = RT_THREAD_SUSPEND"
  by (auto simp: task_state_def asleep_def thread_timers_inv_def dest!: kinv_atD(4))

text \<open>
  C26. A sleeper is woken exactly on time: after rt_thread_sleep with an interval of v ticks (v less than
  half the tick range) the thread is suspended before every tick interrupt but the one numbered v (the
  first one for v = 0), which leaves it able to run; the wake-up timeout is then reported as RT_EOK. The tick
  may wrap around, and any callbacks run meanwhile that keep the kernel invariant and spare this thread.
\<close>

theorem sleep_wakes_on_time:
  assumes "task_state s" "current_thread s = Some t" "st s t = RT_THREAD_RUNNING" "v < HALF"
    "callbacks_ok user" "spares t user"
  shows "\<exists>s1. rt_thread_sleep v s = Some s1 \<and>
    (\<forall>k < max 1 (unat v). \<exists>s'. ticks user k s1 = Some s' \<and> st s' t = RT_THREAD_SUSPEND) \<and>
    (\<exists>s'. ticks user (max 1 (unat v)) s1 = Some s' \<and> task_state s' \<and> runnable s' t \<and>
      error (tcb (rt_thread_sleep_tail t s') t) = 0)"
proof -
  have r: "runnable s t" using assms(3) by (simp add: runnable_def)
  obtain s2 where s2: "suspend_for t v s = Some s2" "task_state s2" "asleep t (rt_tick s + v) s2" "rt_tick s2 = rt_tick s"
    using suspend_for_task[OF assms(1) r assms(4)] by blast
  obtain s1 where s1: "rt_schedule s2 = Some s1" "task_state s1" "sched.more s1 = sched.more s2"
    using schedule_task[OF s2(2)] by blast
  have a: "asleep t (rt_tick s + v) s1" "dist (rt_tick s1) (rt_tick s + v) = unat v"
    using s2(3,4) more_timer[OF s1(3)] by (simp_all add: asleep_def)
  note sl = ticks_sleeper[OF s1(2) assms(5,6) a(1), unfolded a(2)]
  have "rt_thread_sleep v s = Some s1" using s2(1) s1(1) assms(2) by (simp add: rt_thread_sleep_def rt_thread_self_def)
  moreover have "\<exists>s'. ticks user k s1 = Some s' \<and> st s' t = RT_THREAD_SUSPEND" if "k < max 1 (unat v)" for k
    using sl[of k] that asleep_suspended by blast
  ultimately show ?thesis using sl[of 0] by (auto simp: woken_up_def rt_thread_sleep_tail_def)
qed


text \<open>
  rt_thread_mdelay(RT_WAITING_FOREVER), which the comment of rt_tick_from_millisecond allows, fails an
  assertion: every negative number of milliseconds becomes the largest tick, which rt_timer_start rejects.
\<close>

theorem mdelay_forever_asserts:
  assumes "task_state s" "current_thread s = Some t" "st s t = RT_THREAD_RUNNING" "sint ms < 0"
  shows "rt_thread_mdelay ms s = None"
proof -
  have k: "kinv_at BASE_TASK (rt_tick s) s" using assms(1) by (simp add: task_state_def)
  obtain s1 where s1: "rt_thread_suspend t s = Some (0, s1)"
    by (rule suspend_kinv[OF k, of t]) (use assms(3) that in auto)
  have "\<not> (- 1 :: rt_tick_t) < HALF" by (simp add: HALF_def word_less_nat_alt unsigned_minus_1_eq_mask mask_eq_exp_minus_1)
  then show ?thesis
    using s1 assms(2,4)
    by (simp add: rt_thread_mdelay_def rt_thread_sleep_def rt_thread_self_def suspend_for_def rt_tick_from_millisecond_def
        rt_timer_start_def Let_def)
qed

text \<open>
  Delaying without drift: rt_thread_delay_until wakes its caller at the tick that is the interval after
  the given reference, whenever it was called before that, and returns that tick as the next reference; called
  too late it returns at once with the current tick.
\<close>

theorem delay_until_no_drift:
  assumes "task_state s" "current_thread s = Some t" "st s t = RT_THREAD_RUNNING"
    "inc_tick < HALF" "callbacks_ok user" "spares t user"
  shows "if rt_tick s - tick < inc_tick
    then \<exists>s1 n s'. rt_thread_delay_until tick inc_tick s = Some (tick + inc_tick, s1) \<and>
      (\<forall>k<n. \<exists>s''. ticks user k s1 = Some s'' \<and> st s'' t = RT_THREAD_SUSPEND) \<and>
      ticks user n s1 = Some s' \<and> runnable s' t \<and> rt_tick s' = tick + inc_tick
    else rt_thread_delay_until tick inc_tick s = Some (rt_tick s, s)"
proof (cases "rt_tick s - tick < inc_tick")
  case True
  let ?v = "tick + inc_tick - rt_tick s"
  have e: "?v = inc_tick - (rt_tick s - tick)" by simp
  have v: "unat ?v = unat inc_tick - unat (rt_tick s - tick)" unfolding e
    by (rule unat_sub) (use True in \<open>simp add: word_less_nat_alt word_le_nat_alt\<close>)
  have lt: "?v < HALF" "0 < unat ?v" using v True assms(4) by (auto simp: word_less_nat_alt)
  have r: "runnable s t" using assms(3) by (simp add: runnable_def)
  obtain s2 where s2: "suspend_for t ?v s = Some s2" "task_state s2" "asleep t (rt_tick s + ?v) s2" "rt_tick s2 = rt_tick s"
    using suspend_for_task[OF assms(1) r lt(1)] by blast
  obtain s1 where s1: "rt_schedule s2 = Some s1" "task_state s1" "sched.more s1 = sched.more s2"
    using schedule_task[OF s2(2)] by blast
  have a: "asleep t (tick + inc_tick) s1" "rt_tick s1 = rt_tick s"
    using s2(3,4) more_timer[OF s1(3)] by (simp_all add: asleep_def)
  have m: "max 1 (dist (rt_tick s1) (tick + inc_tick)) = unat ?v" using lt(2) a(2) by simp
  note sl = ticks_sleeper[OF s1(2) assms(5,6) a(1), unfolded m]
  have call: "rt_thread_delay_until tick inc_tick s = Some (tick + inc_tick, s1)"
    using s2(1) s1(1) assms(2) True by (simp add: rt_thread_delay_until_def rt_thread_self_def rt_tick_get_def)
  obtain s' where "ticks user (unat ?v) s1 = Some s'" "runnable s' t" "rt_tick s' = tick + inc_tick"
    using sl[of 0] a(2) by (auto simp: woken_up_def)
  moreover have "\<exists>s''. ticks user k s1 = Some s'' \<and> st s'' t = RT_THREAD_SUSPEND" if "k < unat ?v" for k
    using sl[of k] that asleep_suspended by blast
  ultimately have "\<exists>s1 n s'. rt_thread_delay_until tick inc_tick s = Some (tick + inc_tick, s1) \<and>
      (\<forall>k<n. \<exists>s''. ticks user k s1 = Some s'' \<and> st s'' t = RT_THREAD_SUSPEND) \<and>
      ticks user n s1 = Some s' \<and> runnable s' t \<and> rt_tick s' = tick + inc_tick" using call by blast
  then show ?thesis using True by simp
next
  case False
  then show ?thesis using assms(2) by (simp add: rt_thread_delay_until_def rt_thread_self_def rt_tick_get_def)
qed

section \<open>The timer list\<close>

text \<open>
  Starting a hard timer puts it behind the timers that expire no later and before those that expire later,
  in wrapping arithmetic: the list stays sorted by deadline and timers of one deadline are served in the order
  they were started.
\<close>

theorem timer_start_sorted:
  assumes "kinv_at m b s" "timer_init_tick (timers s x) < HALF" "\<not> soft_timer s x"
    "\<And>t. x = ThreadTimer t \<Longrightarrow> st s t = RT_THREAD_SUSPEND"
  shows "\<exists>s'. rt_timer_start x s = Some s' \<and> kinv_at m b s' \<and>
    timeout_tick (timers s' x) = rt_tick s + timer_init_tick (timers s x) \<and> active s' x \<and>
    sorted (map (\<lambda>y. dist b (timeout_tick (timers s' y))) (timer_lists s' HardTimers)) \<and>
    (let d = (\<lambda>y. dist b (timeout_tick (timers s' y))); xs = removeAll x (timer_lists s HardTimers) in
     timer_lists s' HardTimers = takeWhile (\<lambda>y. d y \<le> d x) xs @ x # dropWhile (\<lambda>y. d y \<le> d x) xs)"
proof -
  let ?s = "timer_linked x s"
  let ?dl = "\<lambda>y. timeout_tick (timers ?s y)"
  let ?xs = "removeAll x (timer_lists s HardTimers)"
  have k: "kinv_at m b ?s" by (rule linked_kinv[OF assms(1,2,4)])
  have dl: "new_deadline x s = ?dl" by (simp add: fun_eq_iff timer_linked_obs(2))
  have new: "?dl x = rt_tick s + timer_init_tick (timers s x)" by (simp add: timer_linked_obs(2) new_deadline_def)
  note d = dist_new[OF kinv_atD(1)[OF assms(1)] assms(2), folded new]
  have old: "\<forall>y \<in> set ?xs. dist b (?dl y) \<le> m"
    using kinv_atD(5)[OF assms(1)] by (auto simp: deadlines_inv_def timer_linked_obs(2) new_deadline_def)
  have l: "timer_lists ?s HardTimers = timer_insert ?dl x ?xs" using assms(3) by (simp add: timer_linked_obs(3) dl)
  have "timer_insert ?dl x ?xs = takeWhile (\<lambda>y. dist b (?dl y) \<le> dist b (?dl x)) ?xs @ x #
      dropWhile (\<lambda>y. dist b (?dl y) \<le> dist b (?dl x)) ?xs"
    by (rule timer_insert_split) (use old d in \<open>force+\<close>)
  moreover have "rt_timer_start x s = Some ?s" using assms(2,3) by (simp add: start_linked Let_def)
  ultimately show ?thesis
    using k new l kinv_atD(5)[OF k] by (intro exI[of _ ?s]) (simp add: Let_def deadlines_inv_def timer_linked_obs(1))
qed

text \<open>
  A periodic timer of interval zero, due again as soon as it is restarted.
\<close>

definition restless :: "nat \<Rightarrow> 'a timer_sys_scheme \<Rightarrow> bool" where
  "restless n s \<longleftrightarrow> timer_lists s HardTimers = [UserTimer n] \<and> timer_lists s ExpiringHard = [] \<and>
     periodic s (UserTimer n) \<and> active s (UserTimer n) \<and> \<not> soft_timer s (UserTimer n) \<and>
     timer_init_tick (timers s (UserTimer n)) = 0 \<and> timeout_tick (timers s (UserTimer n)) = rt_tick s"

lemma restless_turn:
  assumes r: "restless n s" and user: "user n (timer_expire ExpiringHard (UserTimer n) s) = Some (timer_expire ExpiringHard (UserTimer n) s)"
  shows "\<exists>s2. timer_rearm ExpiringHard (UserTimer n) (timer_expire ExpiringHard (UserTimer n) s) = Some s2 \<and> restless n s2 \<and>
    rt_tick s2 = rt_tick s"
proof -
  let ?x = "UserTimer n"
  let ?e = "timer_expire ExpiringHard ?x s"
  let ?d = "deactivate ?x (timer_remove ?x ?e)"
  have f: "flag (timers ?e ?x) = flag (timers s ?x)" using r by (simp add: expire_obs(1) restless_def)
  have i: "timer_init_tick (timers ?d ?x) < HALF" "\<not> soft_timer ?d ?x"
    using r f by (simp_all add: restless_def expire_obs HALF_def)
  have "timer_rearm ExpiringHard ?x ?e = rt_timer_start ?x ?d"
    using r f by (simp add: timer_rearm_def Let_def flag_tests restless_def expire_obs(4))
  also have "\<dots> = Some (timer_linked ?x ?d)" using i by (simp add: start_linked Let_def)
  finally have e: "timer_rearm ExpiringHard ?x ?e = Some (timer_linked ?x ?d)" .
  have "timer_init_tick (timers (timer_linked ?x ?d) ?x) = 0"
    using r by (simp add: timer_linked_def timer_link_def Let_def deactivate_def expire_obs restless_def)
  then have "restless n (timer_linked ?x ?d)"
    using r f i(2) unfolding restless_def by (simp add: timer_linked_obs new_deadline_def expire_obs)
  then show ?thesis using e by (simp add: linked_rest expire_obs)
qed

lemma restless_loop:
  assumes user: "\<And>s. user n s = Some s" and res: "timer_check_loop (timeout_func user) (rt_tick s) s = Some y"
  shows "\<not> restless n s"
proof -
  have "timeout_func user = timeout_func user \<longrightarrow> rt_tick s = rt_tick s \<longrightarrow> \<not> restless n s"
  proof (rule timer_check_loop.raw_induct[where P = "\<lambda>func k s y. func = timeout_func user \<longrightarrow> k = rt_tick s \<longrightarrow> \<not> restless n s",
        OF _ res], intro impI notI)
    fix loop func k s y
    assume IH: "\<And>func k s y. loop func k s = Some y \<Longrightarrow> func = timeout_func user \<longrightarrow> k = rt_tick s \<longrightarrow> \<not> restless n s"
      and body: "(case timer_lists s HardTimers of [] \<Rightarrow> Some s
        | x # _ \<Rightarrow> if k - timeout_tick (timers s x) < HALF
            then func x (timer_expire ExpiringHard x s) \<bind>
              (\<lambda>s1. timer_rearm ExpiringHard x s1 \<bind> loop func (rt_tick_get s1)) else Some s) = Some y"
      and f: "func = timeout_func user" and k: "k = rt_tick s" and r: "restless n s"
    let ?e = "timer_expire ExpiringHard (UserTimer n) s"
    obtain s2 where s2: "timer_rearm ExpiringHard (UserTimer n) ?e = Some s2" "restless n s2" "rt_tick s2 = rt_tick s"
      using restless_turn[OF r, of user] user by blast
    have "0 < HALF" by (simp add: HALF_def word_less_nat_alt)
    then have "loop func (rt_tick ?e) s2 = Some y"
      using body f k r s2(1) user by (simp add: restless_def timeout_func_def rt_tick_get_def)
    then show False using IH[of func "rt_tick ?e" s2 y] f s2(2,3) by (simp add: expire_obs)
  qed
  then show ?thesis by simp
qed

text \<open>
  A periodic hard timer of interval zero, which rt_timer_start accepts, never lets the tick interrupt end:
  each turn of rt_timer_check finds it due again.
\<close>

theorem zero_interval_hangs:
  assumes "restless n s" "\<And>s. user n s = Some s"
  shows "rt_timer_check user s = None"
proof (rule ccontr)
  assume "rt_timer_check user s \<noteq> None"
  then obtain y where "timer_check_loop (timeout_func user) (rt_tick s) s = Some y" by (auto simp: rt_timer_check_def rt_tick_get_def)
  from restless_loop[OF assms(2) this] assms(1) show False by blast
qed

section \<open>The properties at work\<close>

text \<open>
  Threads 1, 2 and 3 share priority 10: thread 1 runs, the others wait for the processor, thread 0 idles.
\<close>

definition ring_demo :: ipc_sys where
  "ring_demo = (demo (Suspended (Sem 0)) [])
     \<lparr>tcb := (\<lambda>u. if u = 0 then demo_thread RT_THREAD_READY 31 else if u = 1 then demo_thread RT_THREAD_RUNNING 10
                 else if u = 2 \<or> u = 3 then demo_thread RT_THREAD_READY 10 else demo_thread RT_THREAD_INIT 20),
      queues := (\<lambda>q. if q = Ready 31 then [0] else if q = Ready 10 then [2, 3] else []),
      ready_priority_group := 2 ^ 31 OR 2 ^ 10\<rparr>"

lemma ring_demo_ring: "ring 10 1 [2, 3] ring_demo"
proof -
  have b: "bit (2 ^ 31 OR 2 ^ 10 :: u32) p \<longleftrightarrow> p = 31 \<or> p = 10" for p
    using bit_set_prio[of 10 "2 ^ 31" p] bit_exp_iff[of 31 p, where 'a = u32] by auto
  have "lists_inv {} ring_demo"
  proof (rule lists_invI)
    show "bit (ready_priority_group ring_demo) p \<longleftrightarrow> queues ring_demo (Ready p) \<noteq> []" for p
      using b[of p] by (simp add: ring_demo_def)
  qed (auto simp: ring_demo_def st_def prio_def prio_ok_def split: if_splits)
  moreover have "current_inv ring_demo" by (auto simp: current_inv_def ring_demo_def st_def)
  ultimately show ?thesis by (simp add: ring_def sched_inv_def ring_demo_def st_def prio_def)
qed

lemma schedule_highest_witness:
  "\<exists>s' c'. rt_schedule ring_demo = Some s' \<and> sched_inv s' \<and> current_thread s' = Some c' \<and> st s' c' = RT_THREAD_RUNNING \<and>
    (\<forall>p. \<forall>u \<in> set (queues s' (Ready p)). prio s' c' \<le> p)"
  using schedule_highest[of ring_demo 1] ring_demo_ring by (simp add: ring_def)

lemma round_robin_fair_witness:
  "\<exists>k \<le> length [2 :: nat, 3]. \<exists>s'. yields k ring_demo = Some s' \<and> current_thread s' = Some 3 \<and> st s' 3 = RT_THREAD_RUNNING \<and>
    queues s' (Ready 10) = tl (rotate k [1, 2, 3]) \<and> sched_inv s'"
  using round_robin_fair[OF ring_demo_ring, of 3] by simp

lemma demo_task: "task_state (demo (Suspended (Sem 0)) [])"
  using demo_kinv[of "Suspended (Sem 0)" "Sem 0" "[]"] by (simp add: task_state_def intervals_ok_def)

lemma quiet_callbacks: "callbacks_ok (\<lambda>n. Some)" "spares t (\<lambda>n. Some)"
  by (auto simp: callbacks_ok_def starts_no_timer_def spares_def)


lemma sleep_wakes_on_time_witness:
  "\<exists>s1. rt_thread_sleep 3 (demo (Suspended (Sem 0)) []) = Some s1 \<and>
    (\<forall>k < max 1 (unat (3 :: rt_tick_t)). \<exists>s'. ticks (\<lambda>n. Some) k s1 = Some s' \<and> st s' 1 = RT_THREAD_SUSPEND) \<and>
    (\<exists>s'. ticks (\<lambda>n. Some) (max 1 (unat (3 :: rt_tick_t))) s1 = Some s' \<and> task_state s' \<and> runnable s' 1 \<and>
      error (tcb (rt_thread_sleep_tail 1 s') 1) = 0)"
  using sleep_wakes_on_time[OF demo_task, of 1 3, OF _ _ _ quiet_callbacks]
  by (simp add: st_def HALF_def word_less_nat_alt)

lemma mdelay_forever_asserts_witness: "rt_thread_mdelay (- 1) (demo (Suspended (Sem 0)) []) = None"
  using mdelay_forever_asserts[OF demo_task, of 1 "- 1"] by (simp add: st_def)

lemma delay_until_no_drift_witness:
  "\<exists>s1 n s'. rt_thread_delay_until 98 5 (demo (Suspended (Sem 0)) []) = Some (98 + 5, s1) \<and>
      (\<forall>k<n. \<exists>s''. ticks (\<lambda>n. Some) k s1 = Some s'' \<and> st s'' 1 = RT_THREAD_SUSPEND) \<and>
      ticks (\<lambda>n. Some) n s1 = Some s' \<and> runnable s' 1 \<and> rt_tick s' = 98 + 5"
  using delay_until_no_drift[OF demo_task, of 1 5, OF _ _ _ quiet_callbacks, of 98]
  by (simp add: st_def HALF_def word_less_nat_alt)

text \<open>A hard timer started on an empty list; a periodic timer of interval zero that is due.\<close>

lemma timer_start_sorted_witness:
  "\<exists>s'. rt_timer_start (UserTimer 4) (demo (Suspended (Sem 0)) []) = Some s' \<and> kinv_at BASE_TASK 100 s' \<and>
    timeout_tick (timers s' (UserTimer 4)) = 100 + 0 \<and> active s' (UserTimer 4) \<and>
    sorted (map (\<lambda>y. dist 100 (timeout_tick (timers s' y))) (timer_lists s' HardTimers)) \<and>
    (let d = (\<lambda>y. dist 100 (timeout_tick (timers s' y))); xs = removeAll (UserTimer 4) [] in
     timer_lists s' HardTimers = takeWhile (\<lambda>y. d y \<le> d (UserTimer 4)) xs @ UserTimer 4 # dropWhile (\<lambda>y. d y \<le> d (UserTimer 4)) xs)"
  using timer_start_sorted[of BASE_TASK 100 "demo (Suspended (Sem 0)) []" "UserTimer 4"]
    demo_kinv[of "Suspended (Sem 0)" "Sem 0" "[]"] by (simp add: HALF_def word_less_nat_alt)

lemma zero_interval_hangs_witness:
  "rt_timer_check (\<lambda>n. Some) ((demo (Suspended (Sem 0)) [])
     \<lparr>timers := (\<lambda>x. \<lparr>flag = 3, timer_init_tick = 0, timeout_tick = 100\<rparr>),
      timer_lists := (\<lambda>l. if l = HardTimers then [UserTimer 7] else [])\<rparr>) = None"
  by (rule zero_interval_hangs[of 7]) (simp_all add: restless_def)

end
