(* ===== verification/RT_Boot.thy ===== *)
theory RT_Boot
  imports RT_Kernel_Props
begin

text \<open>
  Boot and idle: \<open>rtthread_startup\<close> of \<open>src/rt-thread/src/components.c\<close> and \<open>src/rt-thread/src/idle.c\<close>.
  The board support, the version banner and the debug prints touch no kernel list; the stack and the
  object of a dead thread go back to the heap, which appears as the list of threads released.
\<close>

section \<open>The idle thread\<close>

text \<open>The table of idle hooks: four slots, a hook being a number here.\<close>

abbreviation RT_IDLE_HOOK_LIST_SIZE :: nat where "RT_IDLE_HOOK_LIST_SIZE \<equiv> 4"

fun hook_replace :: "nat option \<Rightarrow> nat option \<Rightarrow> nat option list \<Rightarrow> nat option list option" where
  "hook_replace old new [] = None"
| "hook_replace old new (h # hs) =
     (if h = old then Some (new # hs) else map_option (Cons h) (hook_replace old new hs))"

definition rt_thread_idle_sethook :: "nat \<Rightarrow> nat option list \<Rightarrow> int \<times> nat option list" where
  "rt_thread_idle_sethook hook hooks =
     (case hook_replace None (Some hook) hooks of Some hs \<Rightarrow> (0, hs) | None \<Rightarrow> (-3, hooks))"

definition rt_thread_idle_delhook :: "nat \<Rightarrow> nat option list \<Rightarrow> int \<times> nat option list" where
  "rt_thread_idle_delhook hook hooks =
     (case hook_replace (Some hook) None hooks of Some hs \<Rightarrow> (0, hs) | None \<Rightarrow> (-6, hooks))"

definition has_defunct_thread :: "'a sched_scheme \<Rightarrow> bool" where
  "has_defunct_thread s \<longleftrightarrow> queues s Defunct \<noteq> []"

text \<open>
  \<open>rt_thread_idle_excute\<close>: the loop that empties the list of dead threads; the first component collects
  the threads whose stack and object are freed, in order.
\<close>

function reap :: "tid list \<Rightarrow> 'a sched_scheme \<Rightarrow> tid list \<times> 'a sched_scheme" where
  "reap freed s =
     (if has_defunct_thread s
      then let thread = hd (queues s Defunct) in reap (freed @ [thread]) (list_unlink thread s)
      else (freed, s))"
  by pat_completeness auto
termination
proof (relation "measure (\<lambda>(freed, s). length (queues s Defunct))")
  fix freed and s :: "'a sched_scheme" and x
  assume "has_defunct_thread s" "x = hd (queues s Defunct)"
  then have "x \<in> set (queues s Defunct)" by (simp add: has_defunct_thread_def)
  then have "length (removeAll x (queues s Defunct)) < length (queues s Defunct)" by (rule length_removeAll_less)
  then show "((freed @ [x], list_unlink x s), freed, s) \<in> measure (\<lambda>(freed, s). length (queues s Defunct))" by simp
qed simp

declare reap.simps [simp del]

definition rt_thread_idle_excute :: "'a sched_scheme \<Rightarrow> (tid list \<times> 'a sched_scheme) option" where
  "rt_thread_idle_excute s = (if interrupt_nest s = 0 then Some (reap [] s) else None)"

definition rt_thread_idle_init :: "tid \<Rightarrow> 'a timer_sys_scheme \<Rightarrow> 'a timer_sys_scheme option" where
  "rt_thread_idle_init idle s =
     do { s1 \<leftarrow> rt_thread_init idle (of_nat (RT_THREAD_PRIORITY_MAX - 1)) 32 s; rt_thread_startup idle s1 }"

section \<open>Boot\<close>

abbreviation RT_MAIN_THREAD_PRIORITY :: u8 where "RT_MAIN_THREAD_PRIORITY \<equiv> 10"

text \<open>\<open>obj\<close> and \<open>stack_ok\<close> are what the heap gives for the main thread; without memory the assertion fails.\<close>

definition rt_application_init :: "tid option \<Rightarrow> bool \<Rightarrow> 'a timer_sys_scheme \<Rightarrow> 'a timer_sys_scheme option" where
  "rt_application_init obj stack_ok s =
     do { (t, s1) \<leftarrow> rt_thread_create obj stack_ok RT_MAIN_THREAD_PRIORITY 20 s;
          case t of None \<Rightarrow> None | Some t \<Rightarrow> rt_thread_startup t s1 }"

definition rtthread_startup :: "tid option \<Rightarrow> bool \<Rightarrow> tid \<Rightarrow> 'a timer_sys_scheme \<Rightarrow> 'a timer_sys_scheme option" where
  "rtthread_startup obj stack_ok idle s =
     do { let s1 = rt_system_scheduler_init (rt_system_timer_init s);
          s2 \<leftarrow> rt_application_init obj stack_ok s1;
          s3 \<leftarrow> rt_system_timer_thread_init s2;
          s4 \<leftarrow> rt_thread_idle_init idle s3;
          rt_system_scheduler_start s4 }"

section \<open>Reaping\<close>

lemma reap_defunct:
  assumes "lists_inv {} s"
  shows "fst (reap freed s) = freed @ queues s Defunct \<and>
    (\<forall>l. queues (snd (reap freed s)) l = (if l = Defunct then [] else queues s l)) \<and>
    tcb (snd (reap freed s)) = tcb s \<and> current_thread (snd (reap freed s)) = current_thread s \<and>
    ready_priority_group (snd (reap freed s)) = ready_priority_group s \<and>
    sched.more (snd (reap freed s)) = sched.more s"
  using assms
proof (induction freed s rule: reap.induct)
  case (1 freed s)
  show ?case
  proof (cases "has_defunct_thread s")
    case False
    then show ?thesis by (simp add: reap.simps[of freed s] has_defunct_thread_def)
  next
    case True
    let ?t = "hd (queues s Defunct)"
    obtain ts where q: "queues s Defunct = ?t # ts" using True by (cases "queues s Defunct") (auto simp: has_defunct_thread_def)
    have d: "?t \<notin> set ts" using lists_inv_distinct[OF "1.prems", of Defunct] q by (metis distinct.simps(2))
    have st: "st s ?t = RT_THREAD_CLOSE" using lists_inv_defunct[OF "1.prems", of ?t] q by (metis list.set_intros(1))
    have "lists_inv {?t} (list_unlink ?t s)" using unlink_inv[OF "1.prems", of ?t] st by simp
    then have l: "lists_inv {} (list_unlink ?t s)" using leave_transit[of "{?t}" "list_unlink ?t s" ?t] st by simp
    have o: "?t \<notin> set (queues s l)" if "l \<noteq> Defunct" for l
      using lists_inv_unique[OF "1.prems", of ?t l Defunct] q that by (metis list.set_intros(1))
    have "removeAll ?t (queues s Defunct) = ts" using q d by (metis removeAll.simps(2) removeAll_id)
    then show ?thesis
      using "1.IH"[OF True refl l] True q o by (subst (1 2 3 4 5 6) reap.simps[of freed s]) (auto simp: Let_def)
  qed
qed

section \<open>The boot sequence\<close>

text \<open>Memory after reset: no thread initialised, no list in use, no timer running.\<close>

definition power_on :: "'a timer_sys_scheme \<Rightarrow> bool" where
  "power_on s \<longleftrightarrow> current_thread s = None \<and> interrupt_nest s = 0 \<and> (\<forall>l. queues s l = []) \<and>
     (\<forall>t. stat (tcb s t) = 0 \<and> current_priority (tcb s t) = 0 \<and> init_priority (tcb s t) = 0) \<and>
     (\<forall>x. flag (timers s x) = 0) \<and> (\<forall>l. timer_lists s l = [])"

text \<open>While threads are being set up: those of \<open>P\<close> are ready at their priority, and nothing runs yet.\<close>

definition booting :: "(tid \<Rightarrow> nat option) \<Rightarrow> 'a timer_sys_scheme \<Rightarrow> bool" where
  "booting P s \<longleftrightarrow> kinv_at BASE_TASK (rt_tick s) s \<and> current_thread s = None \<and> interrupt_nest s = 0 \<and>
     scheduler_lock_nest s = 0 \<and> (\<forall>l. timer_lists s l = []) \<and> (\<forall>x. flag (timers s x) = 0) \<and>
     (\<forall>t. if P t = None then st s t = RT_THREAD_INIT else st s t = RT_THREAD_READY \<and> P t = Some (prio s t))"

lemma boot_lists:
  assumes "power_on s"
  shows "booting Map.empty (rt_system_scheduler_init (rt_system_timer_init s))"
proof -
  let ?s = "rt_system_scheduler_init (rt_system_timer_init s)"
  have q: "queues ?s l = []" for l
    using assms by (cases l) (auto simp: power_on_def rt_system_scheduler_init_def rt_system_timer_init_def)
  have f: "tcb ?s = tcb s" "current_thread ?s = None" "interrupt_nest ?s = 0" "scheduler_lock_nest ?s = 0"
    "timer_lists ?s l = []" "flag (timers ?s x) = 0" "ready_priority_group ?s = 0" for l x
    using assms by (auto simp: power_on_def rt_system_scheduler_init_def rt_system_timer_init_def)
  have st: "st ?s t = RT_THREAD_INIT" for t using assms f(1) by (simp add: st_def power_on_def)
  have "lists_inv {} ?s"
    by (rule lists_invI) (use assms q f st in \<open>auto simp: prio_ok_def power_on_def\<close>)
  then have "sched_inv ?s" using f(2) st by (simp add: sched_inv_def current_inv_def)
  then show ?thesis
    using f st by (simp add: booting_def kinv_at_def base_ok_def timer_lists_inv_def thread_timers_inv_def deadlines_inv_def)
qed

text \<open>Initialising and starting one more thread.\<close>

lemma boot_thread:
  assumes b: "booting P s" and t: "P t = None" and p: "unat p < 32"
  shows "\<exists>s1 s'. thread_init static t p tick s = Some s1 \<and> rt_thread_startup t s1 = Some s' \<and>
    booting (P(t \<mapsto> unat p)) s' \<and> timer_thread s' = timer_thread s \<and> rt_tick s' = rt_tick s"
proof -
  have k: "kinv_at BASE_TASK (rt_tick s) s" and cur: "current_thread s = None" and tl: "\<And>l. timer_lists s l = []"
    and fl: "\<And>x. flag (timers s x) = 0" and st: "st s t = RT_THREAD_INIT"
    using b t by (simp_all add: booting_def)
  obtain s1 where s1: "thread_init static t p tick s = Some s1" "kinv_at BASE_TASK (rt_tick s) s1" "st s1 t = RT_THREAD_INIT"
    "current_thread s1 = None"
    using thread_init_kinv[OF k p init_unlinked(1)[OF k st], of static tick] tl cur by auto
  have e1: "tcb s1 u = (if u = t then tcb s1 t else tcb s u)" "init_priority (tcb s1 t) = p"
    "timer_lists s1 l = []" "flag (timers s1 x) = 0" "timer_thread s1 = timer_thread s"
    "rt_tick s1 = rt_tick s" "interrupt_nest s1 = interrupt_nest s" "scheduler_lock_nest s1 = scheduler_lock_nest s" for u l x
    using s1(1) p tl fl more_timer[of "upd_tcb t f s" s for f]
    by (auto simp: thread_init_def timer_init_def)
  obtain s' where s': "rt_thread_startup t s1 = Some s'" "kinv_at BASE_TASK (rt_tick s) s'" "current_thread s' = None"
    using startup_kinv[OF s1(2,3)] s1(4) by auto
  let ?m = "upd_tcb t (\<lambda>th. (set_priority (init_priority th) th)\<lparr>stat := RT_THREAD_SUSPEND\<rparr>) s1"
  have m: "sched.more (list_unlink t ?m) = sched.more s1" by simp
  have stop: "snd (rt_timer_stop (ThreadTimer t) (list_unlink t ?m)) = list_unlink t ?m"
    using e1(4) more_timer(1)[OF m] by (simp add: rt_timer_stop_def)
  have e: "s' = rt_schedule_insert_thread t (list_unlink t ?m)"
    using s'(1) s1(3,4) stop by (simp add: rt_thread_startup_def rt_thread_self_def rt_thread_resume_def st_upd_tcb Let_def)
  have m': "sched.more s' = sched.more s1" unfolding e by simp
  have th: "st s' u = (if u = t then RT_THREAD_READY else st s u)" "prio s' u = (if u = t then unat p else prio s u)" for u
    using e1(1)[of u] e1(2) s1(4) unfolding e by (auto simp: insert_st prio_def set_priority_def st_def)
  have ins: "interrupt_nest s' = interrupt_nest s" "scheduler_lock_nest s' = scheduler_lock_nest s"
    unfolding e using e1(7,8) by simp_all
  have "booting (P(t \<mapsto> unat p)) s'"
    using b s'(2,3) e1(3,4,6) more_timer[OF m'] th ins unfolding booting_def by simp
  then show ?thesis using s1(1) s'(1) more_timer[OF m'] e1(5,6) by auto
qed

text \<open>The first thread is started.\<close>

lemma boot_start:
  assumes b: "booting P s" and t: "P t \<noteq> None" and least: "\<forall>u p. P u = Some p \<longrightarrow> u \<noteq> t \<longrightarrow> the (P t) < p"
  shows "\<exists>s'. rt_system_scheduler_start s = Some s' \<and> task_state s' \<and> current_thread s' = Some t \<and>
    st s' t = RT_THREAD_RUNNING \<and> (\<forall>u. u \<noteq> t \<longrightarrow> st s' u = st s u) \<and>
    (\<forall>p u. u \<in> set (queues s' (Ready p)) \<longleftrightarrow> u \<noteq> t \<and> P u = Some p) \<and> interrupt_nest s' = 0 \<and> scheduler_lock_nest s' = 0"
proof -
  have k: "kinv_at BASE_TASK (rt_tick s) s" and cur: "current_thread s = None" and tl: "\<And>l. timer_lists s l = []"
    and th: "\<And>u. if P u = None then st s u = RT_THREAD_INIT else st s u = RT_THREAD_READY \<and> P u = Some (prio s u)"
    using b by (simp_all add: booting_def)
  note li = kinv_atD(6)[OF k]
  have rdy: "u \<in> set (queues s (Ready p)) \<longleftrightarrow> P u = Some p" for u p
    using lists_inv_ready[OF li, of u p] th[of u] by (auto split: if_splits)
  have pt: "P t = Some (prio s t)" "st s t = RT_THREAD_READY" using th[of t] t by simp_all
  have "t \<in> set (queues s (Ready (prio s t)))" using rdy pt(1) by simp
  then have "queues s (Ready (prio s t)) \<noteq> []" by auto
  then have g: "ready_priority_group s \<noteq> 0" using group_zero_iff[OF li] by auto
  obtain u q us where h: "get_highest_priority_thread s = Some (u, q)" "queues s (Ready q) = u # us"
    "q < 32" "\<And>v r. v \<in> set (queues s (Ready r)) \<Longrightarrow> q \<le> r" by (rule highest_ready[OF li g]) (rule that)
  have "q \<le> prio s t" using h(4)[of t "prio s t"] rdy pt(1) by simp
  moreover have "P u = Some q" using rdy[of u q] h(2) by simp
  ultimately have u: "u = t" using least pt(1) by force
  let ?c = "s\<lparr>current_thread := Some t\<rparr>"
  let ?s' = "upd_tcb t (\<lambda>th. th\<lparr>stat := RT_THREAD_RUNNING\<rparr>) (rt_schedule_remove_thread t ?c)"
  have res: "rt_system_scheduler_start s = Some ?s'" using h(1) u by (simp add: rt_system_scheduler_start_def Let_def)
  have sc: "st ?c = st s" "prio ?c = prio s" by (auto simp: fun_eq_iff st_def prio_def)
  have "lists_inv {t} ?s'"
    using remove_inv[of "{}" ?c t] li pt(2) sc prio_ok_st[OF li, of t] inv_mask[OF li, of t] lists_inv_prio[OF li, of t]
    by (intro upd_transit) (simp_all add: prio_ok_def prio_def)
  then have l: "lists_inv {} ?s'" using leave_transit[of "{t}" ?s' t] by (simp add: st_upd_tcb)
  have none: "st s v \<noteq> RT_THREAD_RUNNING" for v using th[of v] by (auto split: if_splits)
  have st': "st ?s' v = (if v = t then RT_THREAD_RUNNING else st s v)" for v by (simp add: st_upd_tcb sc)
  have "current_inv ?s'" using none st' by (auto simp: current_inv_def split: if_splits)
  then have i: "sched_inv ?s'" using l by (simp add: sched_inv_def)
  have m: "sched.more ?s' = sched.more s" by simp
  have "kinv_at BASE_TASK (rt_tick s) ?s'" by (rule kinv_at_sched_step[OF k m i]) (simp add: tl)
  moreover have "intervals_ok ?s'" using b more_timer(1)[OF m] by (simp add: intervals_ok_def booting_def)
  ultimately have "task_state ?s'" using tl more_timer[OF m] by (simp add: task_state_def)
  moreover have "v \<in> set (queues ?s' (Ready p)) \<longleftrightarrow> v \<noteq> t \<and> P v = Some p" for p v using rdy by auto
  ultimately show ?thesis using res st' b by (intro exI[of _ ?s']) (auto simp: booting_def)
qed

lemma boot_contract:
  assumes on: "power_on s" and d: "distinct [main, timer_thread s, idle]"
  shows "\<exists>s'. rtthread_startup (Some main) True idle s = Some s' \<and> task_state s' \<and> interrupt_nest s' = 0 \<and>
    scheduler_lock_nest s' = 0 \<and> current_thread s' = Some (timer_thread s) \<and> st s' (timer_thread s) = RT_THREAD_RUNNING \<and>
    set (queues s' (Ready 10)) = {main} \<and> set (queues s' (Ready 31)) = {idle} \<and>
    (\<forall>p. p \<noteq> 10 \<longrightarrow> p \<noteq> 31 \<longrightarrow> queues s' (Ready p) = [])"
proof -
  let ?s1 = "rt_system_scheduler_init (rt_system_timer_init s)"
  have e1: "timer_thread ?s1 = timer_thread s" by (simp add: rt_system_scheduler_init_def rt_system_timer_init_def)
  obtain a s2 where a: "thread_init False main 10 20 ?s1 = Some a" "rt_thread_startup main a = Some s2"
    "booting [main \<mapsto> 10] s2" "timer_thread s2 = timer_thread s"
    using boot_thread[OF boot_lists[OF on], where t = main and p = 10 and static = False and tick = 20] e1 by auto
  let ?s2 = "s2\<lparr>timer_lists := (timer_lists s2)(SoftTimers := [])\<rparr>"
  have "(timer_lists s2)(SoftTimers := []) = timer_lists s2" using a(3) by (auto simp: booting_def)
  then have s2: "?s2 = s2" by simp
  obtain c s3 where c: "thread_init True (timer_thread s) 4 10 s2 = Some c" "rt_thread_startup (timer_thread s) c = Some s3"
    "booting [main \<mapsto> 10, timer_thread s \<mapsto> 4] s3"
    using boot_thread[OF a(3), where t = "timer_thread s" and p = 4 and static = True and tick = 10] d by auto
  obtain e s4 where e: "thread_init True idle 31 32 s3 = Some e" "rt_thread_startup idle e = Some s4"
    "booting [main \<mapsto> 10, timer_thread s \<mapsto> 4, idle \<mapsto> 31] s4"
    using boot_thread[OF c(3), where t = idle and p = 31 and static = True and tick = 32] d by auto
  define P where "P = [main \<mapsto> (10 :: nat), timer_thread s \<mapsto> 4, idle \<mapsto> 31]"
  have P: "P (timer_thread s) = Some 4" "P u = Some p \<Longrightarrow> u \<noteq> timer_thread s \<Longrightarrow> u = main \<and> p = 10 \<or> u = idle \<and> p = 31"
    "P main = Some 10" "P idle = Some 31" for u p
    using d by (auto simp: P_def split: if_splits)
  have least: "\<forall>u p. P u = Some p \<longrightarrow> u \<noteq> timer_thread s \<longrightarrow> the (P (timer_thread s)) < p"
    using P(2) by (force simp: P(1))
  have t: "P (timer_thread s) \<noteq> None" by (simp add: P(1))
  obtain s5 where s5: "rt_system_scheduler_start s4 = Some s5" "task_state s5" "current_thread s5 = Some (timer_thread s)"
    "st s5 (timer_thread s) = RT_THREAD_RUNNING"
    "\<forall>p u. u \<in> set (queues s5 (Ready p)) \<longleftrightarrow> u \<noteq> timer_thread s \<and> P u = Some p"
    "interrupt_nest s5 = 0" "scheduler_lock_nest s5 = 0"
    using boot_start[OF e(3)[folded P_def] t least] by (elim exE conjE) (rule that)
  have who: "u \<noteq> timer_thread s \<and> P u = Some p \<longleftrightarrow> u = main \<and> p = 10 \<or> u = idle \<and> p = 31" for u p
    using P(2)[of u p] P(3,4) d by auto
  have q: "set (queues s5 (Ready p)) = (if p = 10 then {main} else if p = 31 then {idle} else {})" for p
    by (rule set_eqI) (simp add: s5(5) who)
  have n: "queues s5 (Ready p) = []" if "p \<noteq> 10" "p \<noteq> 31" for p using q[of p] that by simp
  have "rtthread_startup (Some main) True idle s = Some s5"
    using a c e s5(1) s2
    by (simp add: rtthread_startup_def rt_application_init_def rt_thread_create_def rt_system_timer_thread_init_def
        rt_thread_idle_init_def rt_thread_init_def Let_def)
  then show ?thesis using s5(2,3,4,6,7) q n by auto
qed

text \<open>
  C27. Booting establishes the kernel invariant: from reset memory, with memory for the main thread,
  rtthread_startup ends with the timer thread running, the main and the idle thread ready at their
  priorities and nothing else, the state every later property starts from; without memory for the main
  thread its assertion stops the boot.
\<close>

theorem boot_establishes_invariant:
  assumes "power_on s" "distinct [main, timer_thread s, idle]"
  shows "(\<exists>s'. rtthread_startup (Some main) True idle s = Some s' \<and> task_state s' \<and> interrupt_nest s' = 0 \<and>
      scheduler_lock_nest s' = 0 \<and> current_thread s' = Some (timer_thread s) \<and>
      st s' (timer_thread s) = RT_THREAD_RUNNING \<and> set (queues s' (Ready 10)) = {main} \<and>
      set (queues s' (Ready 31)) = {idle} \<and> (\<forall>p. p \<noteq> 10 \<longrightarrow> p \<noteq> 31 \<longrightarrow> queues s' (Ready p) = [])) \<and>
    rtthread_startup None b idle s = None \<and> rtthread_startup (Some main) False idle s = None"
  using boot_contract[OF assms]
  by (simp_all add: rtthread_startup_def rt_application_init_def rt_thread_create_def Let_def)

text \<open>
  C28. The idle thread reaps every dead thread: outside interrupts rt_thread_idle_excute ends, frees the
  threads of the defunct list once each and in their order, all of them closed, leaves that list empty and
  changes nothing else of the kernel.
\<close>

theorem idle_reaps_all:
  assumes "kinv_at m b s" "interrupt_nest s = 0"
  shows "\<exists>s'. rt_thread_idle_excute s = Some (queues s Defunct, s') \<and> distinct (queues s Defunct) \<and>
    (\<forall>t \<in> set (queues s Defunct). st s' t = RT_THREAD_CLOSE) \<and> \<not> has_defunct_thread s' \<and> kinv_at m b s' \<and>
    (\<forall>l. l \<noteq> Defunct \<longrightarrow> queues s' l = queues s l) \<and> tcb s' = tcb s \<and> current_thread s' = current_thread s"
proof -
  let ?s = "snd (reap [] s)"
  note li = kinv_atD(6)[OF assms(1)]
  have r: "fst (reap [] s) = queues s Defunct" "queues ?s l = (if l = Defunct then [] else queues s l)" "tcb ?s = tcb s"
    "current_thread ?s = current_thread s" "ready_priority_group ?s = ready_priority_group s"
    "sched.more ?s = sched.more s" for l
    using reap_defunct[OF li, of "[]"] by simp_all
  have st: "st ?s = st s" "prio ?s = prio s" by (auto simp: fun_eq_iff st_def prio_def r(3))
  have "lists_inv {} ?s"
    by (rule lists_invI) (use li in \<open>auto simp: r st lists_inv_bit lists_inv_ready split: if_splits dest: lists_invD\<close>)
  then have i: "sched_inv ?s" using kinv_atD(7)[OF assms(1)] by (simp add: sched_inv_def current_inv_def st r)
  have "kinv_at m b ?s"
    by (rule kinv_at_sched_step[OF assms(1) r(6) i]) (use kinv_atD(4)[OF assms(1)] in \<open>simp add: thread_timers_inv_def st\<close>)
  moreover have "rt_thread_idle_excute s = Some (queues s Defunct, ?s)"
    using assms(2) r(1) by (simp add: rt_thread_idle_excute_def prod_eq_iff)
  ultimately show ?thesis
    using lists_inv_distinct[OF li, of Defunct] lists_inv_defunct[OF li] r st by (auto simp: has_defunct_thread_def)
qed

section \<open>The properties at work\<close>

definition reset_memory :: ipc_sys where
  "reset_memory = (demo Defunct [])
     \<lparr>tcb := (\<lambda>u. \<lparr>stat = 0, current_priority = 0, init_priority = 0, number_mask = 0, error = 0, event_set = 0,
                   event_info = 0, init_tick = 0, remaining_tick = 0, static_object = False\<rparr>),
      queues := (\<lambda>l. []), ready_priority_group := 0, current_thread := None\<rparr>"

lemma boot_establishes_invariant_witness:
  "\<exists>s'. rtthread_startup (Some 1) True 0 reset_memory = Some s' \<and> task_state s' \<and> current_thread s' = Some 9 \<and>
    st s' 9 = RT_THREAD_RUNNING \<and> set (queues s' (Ready 10)) = {1} \<and> set (queues s' (Ready 31)) = {0}"
proof -
  have "power_on reset_memory" by (simp add: power_on_def reset_memory_def)
  moreover have t: "timer_thread reset_memory = 9" by (simp add: reset_memory_def demo_def)
  moreover have "distinct [1, timer_thread reset_memory, 0]" by (simp add: t)
  ultimately show ?thesis using boot_establishes_invariant[of reset_memory 1 0 True] by auto
qed

text \<open>A system with two dead threads.\<close>

definition dead_demo :: ipc_sys where
  "dead_demo = (demo (Suspended (Sem 0)) [])
     \<lparr>tcb := (\<lambda>u. if u = 5 \<or> u = 6 then demo_thread RT_THREAD_CLOSE 20 else tcb (demo (Suspended (Sem 0)) []) u),
      queues := (queues (demo (Suspended (Sem 0)) []))(Defunct := [5, 6])\<rparr>"

lemma idle_reaps_all_witness: "\<exists>s'. rt_thread_idle_excute dead_demo = Some ([5, 6], s') \<and> \<not> has_defunct_thread s'"
proof -
  let ?d = "demo (Suspended (Sem 0)) []"
  have k: "kinv_at BASE_TASK 100 ?d" using demo_kinv[of "Suspended (Sem 0)" "Sem 0" "[]"] by simp
  have "lists_inv {} dead_demo"
  proof (rule lists_invI)
    show "bit (ready_priority_group dead_demo) p \<longleftrightarrow> queues dead_demo (Ready p) \<noteq> []" for p
      using lists_inv_bit[OF kinv_atD(6)[OF k], of p] by (simp add: dead_demo_def)
  qed (auto simp: dead_demo_def demo_tcb st_def prio_def prio_ok_def split: if_splits)
  then have "sched_inv dead_demo" by (auto simp: sched_inv_def current_inv_def dead_demo_def demo_tcb st_def)
  then have "kinv_at BASE_TASK 100 dead_demo"
    by (simp add: kinv_at_def base_ok_def timer_lists_inv_def thread_timers_inv_def deadlines_inv_def dead_demo_def)
  moreover have "interrupt_nest dead_demo = 0" "queues dead_demo Defunct = [5, 6]" by (simp_all add: dead_demo_def)
  ultimately show ?thesis using idle_reaps_all[of BASE_TASK 100 dead_demo] by auto
qed

end
