(* ===== verification/RT_Semaphore.thy ===== *)
theory RT_Semaphore
  imports RT_Demo
begin

text \<open>
  Semaphores of \<open>src/rt-thread/src/ipc.c\<close>: every operation, the invariant that threads wait only on an
  empty semaphore, and the abstract counter with waiters the operations implement.
\<close>

section \<open>Operations\<close>

definition upd_sem :: "nat \<Rightarrow> u16 \<Rightarrow> ipc_sys \<Rightarrow> ipc_sys" where
  "upd_sem n v s = s\<lparr>sems := (sems s)(n := \<lparr>sem_value = v\<rparr>)\<rparr>"

text \<open>\<open>rt_sem_init\<close>; \<open>rt_sem_create\<close> gets what \<open>rt_object_allocate\<close> returned as its first argument.\<close>

definition rt_sem_init :: "nat \<Rightarrow> u32 \<Rightarrow> u8 \<Rightarrow> ipc_sys \<Rightarrow> ipc_sys option" where
  "rt_sem_init n value fl s =
     (if value < 0x10000
      then Some (set_object (Sem n) True fl (upd_sem n (ucast value) (rt_ipc_object_init (Suspended (Sem n)) s)))
      else None)"

definition rt_sem_create :: "nat option \<Rightarrow> u32 \<Rightarrow> u8 \<Rightarrow> ipc_sys \<Rightarrow> (nat option \<times> ipc_sys) option" where
  "rt_sem_create obj value fl s =
     (if not_in_interrupt s \<and> value < 0x10000
      then Some (case obj of
                   None \<Rightarrow> (None, s)
                 | Some n \<Rightarrow> (Some n, set_object (Sem n) False fl
                               (upd_sem n (ucast value) (rt_ipc_object_init (Suspended (Sem n)) s))))
      else None)"

definition rt_sem_detach :: "nat \<Rightarrow> ipc_sys \<Rightarrow> ipc_sys option" where
  "rt_sem_detach n s = (if ipc_static s (Sem n) then rt_ipc_list_resume_all (Suspended (Sem n)) s else None)"

definition rt_sem_delete :: "nat \<Rightarrow> ipc_sys \<Rightarrow> ipc_sys option" where
  "rt_sem_delete n s =
     (if not_in_interrupt s \<and> \<not> ipc_static s (Sem n) then rt_ipc_list_resume_all (Suspended (Sem n)) s else None)"

definition rt_sem_take :: "nat \<Rightarrow> 32 word \<Rightarrow> ipc_sys \<Rightarrow> (int option \<times> ipc_sys) option" where
  "rt_sem_take n time s =
     (if sem_value (sems s n) > 0 then Some (Some 0, upd_sem n (sem_value (sems s n) - 1) s)
      else if time = 0 then Some (Some (-2), s)
      else if \<not> in_thread_context s then None
      else do { t \<leftarrow> rt_thread_self s;
                s1 \<leftarrow> wait_on (Suspended (Sem n)) t (ipc_flag s (Sem n)) time (upd_tcb t (\<lambda>th. th\<lparr>error := 0\<rparr>) s);
                s2 \<leftarrow> rt_schedule s1;
                Some (None, s2) })"

definition rt_sem_trytake :: "nat \<Rightarrow> ipc_sys \<Rightarrow> (int option \<times> ipc_sys) option" where
  "rt_sem_trytake n = rt_sem_take n 0"

definition rt_sem_release :: "nat \<Rightarrow> ipc_sys \<Rightarrow> (int \<times> ipc_sys) option" where
  "rt_sem_release n s =
     (if queues s (Suspended (Sem n)) \<noteq> []
      then do { s1 \<leftarrow> rt_ipc_list_resume (Suspended (Sem n)) s; s2 \<leftarrow> rt_schedule s1; Some (0, s2) }
      else if sem_value (sems s n) < 0xffff then Some (0, upd_sem n (sem_value (sems s n) + 1) s)
      else Some (-3, s))"

text \<open>\<open>rt_sem_control\<close>: the argument of the reset command is cut to the 16 bits of the value.\<close>

definition rt_sem_control :: "nat \<Rightarrow> u64 option \<Rightarrow> ipc_sys \<Rightarrow> (int \<times> ipc_sys) option" where
  "rt_sem_control n reset s =
     (case reset of
        None \<Rightarrow> Some (-1, s)
      | Some value \<Rightarrow>
          do { s1 \<leftarrow> rt_ipc_list_resume_all (Suspended (Sem n)) s;
               s2 \<leftarrow> rt_schedule (upd_sem n (ucast value) s1);
               Some (0, s2) })"

section \<open>Frame\<close>

lemma upd_sem_obs [simp]:
  "sems (upd_sem n v s) m = (if m = n then \<lparr>sem_value = v\<rparr> else sems s m)"
  "queues (upd_sem n v s) = queues s" "tcb (upd_sem n v s) = tcb s" "current_thread (upd_sem n v s) = current_thread s"
  "runnable (upd_sem n v s) = runnable s" "interrupt_nest (upd_sem n v s) = interrupt_nest s"
  "rt_tick (upd_sem n v s) = rt_tick s"
  "mutexes (upd_sem n v s) = mutexes s" "events (upd_sem n v s) = events s"
  "mailboxes (upd_sem n v s) = mailboxes s" "mqs (upd_sem n v s) = mqs s"
  "scheduler_lock_nest (upd_sem n v s) = scheduler_lock_nest s"
  by (simp_all add: upd_sem_def runnable_def st_def fun_eq_iff)

lemma upd_sem_kinv [simp]: "kinv_at m b (upd_sem n v s) = kinv_at m b s"
  by (simp add: upd_sem_def)

lemma upd_sem_touches [simp]: "touches (Sem n) s (upd_sem n v s)"
  by (simp add: touches_def upd_sem_def)

section \<open>The abstract semaphore\<close>

text \<open>
  A count and the threads waiting, in the order they will be served. Releasing gives the token to the
  first waiter, else to the counter; taking decrements, fails or queues the caller.
\<close>

type_synonym abs_sem = "nat \<times> tid list"

definition sem_abs :: "nat \<Rightarrow> ipc_sys \<Rightarrow> abs_sem" where
  "sem_abs n s = (unat (sem_value (sems s n)), queues s (Suspended (Sem n)))"

fun spec_release :: "abs_sem \<Rightarrow> int \<times> abs_sem" where
  "spec_release (v, []) = (if v < 65535 then (0, (v + 1, [])) else (-3, (v, [])))"
| "spec_release (v, t # ts) = (0, (v, ts))"

fun spec_take :: "(tid list \<Rightarrow> tid list) \<Rightarrow> bool \<Rightarrow> abs_sem \<Rightarrow> int option \<times> abs_sem" where
  "spec_take queue poll (0, ts) = (if poll then (Some (-2), (0, ts)) else (None, (0, queue ts)))"
| "spec_take queue poll (Suc v, ts) = (Some 0, (v, ts))"

definition sem_inv :: "nat \<Rightarrow> ipc_sys \<Rightarrow> bool" where
  "sem_inv n s \<longleftrightarrow> (queues s (Suspended (Sem n)) \<noteq> [] \<longrightarrow> sem_value (sems s n) = 0)"

lemma sem_take_contract:
  assumes t: "in_task m b c s" and f: "wait_flag_ok (Sem n) s" and v: "timeout_ok time"
  shows "\<exists>r s'. rt_sem_take n time s = Some (r, s') \<and> kinv_at m b s' \<and> touches (Sem n) s s' \<and>
    current_thread s' \<noteq> None \<and> (r, sem_abs n s') = spec_take (queue_of (Sem n) c s) (time = 0) (sem_abs n s) \<and>
    (r = None \<longrightarrow> st s' c = RT_THREAD_SUSPEND \<and> error (tcb s' c) = 0)"
proof (cases "sem_value (sems s n) > 0")
  case True
  then have "unat (sem_value (sems s n)) = Suc (unat (sem_value (sems s n) - 1))"
    by (simp add: unat_minus_one word_gt_0 unat_gt_0)
  then have "sem_abs n s = (Suc (unat (sem_value (sems s n) - 1)), queues s (Suspended (Sem n)))"
    by (simp add: sem_abs_def)
  then show ?thesis using True in_taskD[OF t] by (simp add: rt_sem_take_def sem_abs_def)
next
  case False
  then have z: "sem_value (sems s n) = 0" by (simp add: word_gt_0)
  show ?thesis
  proof (cases "time = 0")
    case True
    then show ?thesis using z in_taskD[OF t] by (simp add: rt_sem_take_def sem_abs_def)
  next
    case time: False
    let ?s = "upd_tcb c (\<lambda>th. th\<lparr>error := 0\<rparr>) s"
    have t': "in_task m b c ?s" using t by simp
    obtain s1 s' where s': "wait_on (Suspended (Sem n)) c (ipc_flag s (Sem n)) time ?s = Some s1" "rt_schedule s1 = Some s'"
      "kinv_at m b s'" "current_thread s' \<noteq> None" "blocked (Suspended (Sem n)) (ipc_flag s (Sem n)) c ?s s'"
      using block_eff[OF in_taskD(1,7,3)[OF t'], of "ipc_flag s (Sem n)" "Suspended (Sem n)" "Sem n" time] f v
      unfolding wait_flag_ok_def timeout_ok_def by blast
    have "rt_sem_take n time s = Some (None, s')"
      using z time in_taskD(2,5)[OF t] s'(1,2) by (simp add: rt_sem_take_def rt_thread_self_def)
    moreover have tc: "touches (Sem n) s s'"
      using touches_trans[OF error_touches blocked_touches[OF s'(5), of "Sem n"]] by simp
    moreover have "sem_abs n s' = (0, queue_of (Sem n) c s (queues s (Suspended (Sem n))))"
    proof -
      have "(\<lambda>u. current_priority (tcb ?s u)) = (\<lambda>u. current_priority (tcb s u))" by (auto simp: fun_eq_iff)
      moreover have "sems s' = sems s" using more_ipc(3)[OF blockedD(7)[OF s'(5)]] by (simp add: upd_tcb_def)
      ultimately show ?thesis using blockedD(2)[OF s'(5)] z by (simp add: sem_abs_def queue_of_def)
    qed
    moreover have "error (tcb s' c) = 0" using stat_fields(1)[OF blockedD(4)[OF s'(5), of c]] by simp
    moreover have "sem_abs n s = (0, queues s (Suspended (Sem n)))" using z by (simp add: sem_abs_def)
    ultimately show ?thesis using s'(3,4) blockedD(1)[OF s'(5)] time by auto
  qed
qed

lemma sem_release_contract:
  assumes k: "kinv_at m b s" and c: "current_thread s \<noteq> None"
  shows "\<exists>r s'. rt_sem_release n s = Some (r, s') \<and> kinv_at m b s' \<and> touches (Sem n) s s' \<and>
    current_thread s' \<noteq> None \<and> (r, sem_abs n s') = spec_release (sem_abs n s) \<and>
    (\<forall>t ts. queues s (Suspended (Sem n)) = t # ts \<longrightarrow> runnable s' t \<and> error (tcb s' t) = error (tcb s t))"
proof (cases "queues s (Suspended (Sem n))")
  case Nil
  have "sem_value (sems s n) < 0xffff \<longleftrightarrow> unat (sem_value (sems s n)) < 65535"
    by (simp add: word_less_nat_alt)
  moreover have "unat (sem_value (sems s n) + 1) = unat (sem_value (sems s n)) + 1" if "unat (sem_value (sems s n)) < 65535"
    using that unat_add_lem[of "sem_value (sems s n)" 1] by simp
  ultimately show ?thesis using k c Nil by (simp add: rt_sem_release_def sem_abs_def)
next
  case (Cons t ts)
  obtain s1 s' where s': "rt_ipc_list_resume (Suspended (Sem n)) s = Some s1" "rt_schedule s1 = Some s'"
    "kinv_at m b s'" "current_thread s' \<noteq> None" "handed (Suspended (Sem n)) t s s'"
    using wake_eff[OF k c, of "Suspended (Sem n)" "Sem n" t ts] Cons by blast
  have "sems s' = sems s" by (rule more_ipc(3)[OF handedD(7)[OF s'(5)]])
  then have "sem_abs n s' = (unat (sem_value (sems s n)), ts)" using handedD(2)[OF s'(5)] Cons by (simp add: sem_abs_def)
  moreover have "rt_sem_release n s = Some (0, s')" using s'(1,2) Cons by (simp add: rt_sem_release_def)
  ultimately show ?thesis
    using s'(3,4) handed_touches[OF s'(5), of "Sem n"] handedD(1)[OF s'(5)] stat_fields(1)[OF handedD(4)[OF s'(5)]] Cons
    by (simp add: sem_abs_def)
qed

lemma sem_reset_contract:
  assumes k: "kinv_at m b s" and c: "current_thread s \<noteq> None"
  shows "\<exists>s'. rt_sem_control n (Some v) s = Some (0, s') \<and> kinv_at m b s' \<and> touches (Sem n) s s' \<and>
    current_thread s' \<noteq> None \<and> sem_abs n s' = (unat v mod 65536, []) \<and>
    (\<forall>t \<in> set (queues s (Suspended (Sem n))). runnable s' t \<and> error (tcb s' t) = -1)"
proof -
  let ?l = "Suspended (Sem n)"
  obtain s1 where s1: "rt_ipc_list_resume_all ?l s = Some s1" "kinv_at m b s1" "released ?l s s1" "kept s s1"
    using list_resume_all_eff[OF k, of ?l "Sem n"] by blast
  let ?s2 = "upd_sem n (ucast v) s1"
  have k2: "kinv_at m b ?s2" "current_thread ?s2 \<noteq> None" using s1(2) c keptD(1)[OF s1(4)] by simp_all
  obtain s' where s': "rt_schedule ?s2 = Some s'" "kinv_at m b s'" "current_thread s' \<noteq> None" "scheduled ?s2 s'"
    using schedule_eff[OF k2] by blast
  have "touches (Sem n) s s'"
    using touches_trans[OF released_touches[OF s1(3,4)] touches_trans[OF upd_sem_touches scheduled_touches[OF s'(4)]]] by blast
  moreover have "sems s' = sems ?s2" by (rule more_ipc(3)[OF scheduledD(7)[OF s'(4)]])
  then have "sem_abs n s' = (unat v mod 65536, [])"
    using scheduledD(1)[OF s'(4), of ?l] releasedD(1)[OF s1(3)]
    by (simp add: sem_abs_def unsigned_ucast_eq take_bit_eq_mod)
  moreover have "runnable s' t \<and> error (tcb s' t) = -1" if w: "t \<in> set (queues s ?l)" for t
  proof -
    obtain x where "runnable s1 t" "tcb s1 t = (tcb s t)\<lparr>error := -1, stat := x\<rparr>" using releasedD(3)[OF s1(3) w] by blast
    then show ?thesis using scheduledD(2)[OF s'(4), of t] stat_fields(1)[OF scheduledD(3)[OF s'(4), of t]] by simp
  qed
  moreover have "rt_sem_control n (Some v) s = Some (0, s')" using s1(1) s'(1) by (simp add: rt_sem_control_def)
  ultimately show ?thesis using s'(2,3) by blast
qed

text \<open>Threads wait only on an empty semaphore.\<close>

lemma sem_inv_abs: "sem_inv n s \<longleftrightarrow> (snd (sem_abs n s) \<noteq> [] \<longrightarrow> fst (sem_abs n s) = 0)"
  by (simp add: sem_inv_def sem_abs_def unat_eq_0)

lemma spec_take_inv:
  "(r, a') = spec_take q p a \<Longrightarrow> (snd a \<noteq> [] \<longrightarrow> fst a = 0) \<Longrightarrow> (snd a' \<noteq> [] \<longrightarrow> fst a' = 0)"
  by (cases "(q, p, a)" rule: spec_take.cases) (auto split: if_splits)

lemma spec_release_inv:
  "(r, a') = spec_release a \<Longrightarrow> (snd a \<noteq> [] \<longrightarrow> fst a = 0) \<Longrightarrow> (snd a' \<noteq> [] \<longrightarrow> fst a' = 0)"
  by (cases a rule: spec_release.cases) (auto split: if_splits)

lemma sem_inv_other: "touches i s s' \<Longrightarrow> i \<noteq> Sem n \<Longrightarrow> sem_inv n s \<Longrightarrow> sem_inv n s'"
  using touchesD(1)[of i s s' "Sem n"] touchesD(5)[of i s s' n] by (auto simp: sem_inv_def)

lemma sem_init_inv: "rt_sem_init n v fl s = Some s' \<Longrightarrow> sem_inv n s'"
  by (auto simp: rt_sem_init_def sem_inv_def set_object_def rt_ipc_object_init_def upd_sem_def split: if_splits)

section \<open>Properties\<close>

text \<open>
  C7. Taking a semaphore, called by the running thread outside interrupts, never trips an assertion and
  implements the abstract semaphore on every branch: a positive count is decremented at once, an empty
  one polls to a timeout error or queues the caller (FIFO or by priority, as the object was created) and
  suspends it, with its error cleared; the kernel invariant holds after and no other object is touched.
\<close>

theorem sem_take_refines:
  assumes "in_task m b c s" "wait_flag_ok (Sem n) s" "timeout_ok time"
  shows "\<exists>r s'. rt_sem_take n time s = Some (r, s') \<and>
    (r, sem_abs n s') = spec_take (queue_of (Sem n) c s) (time = 0) (sem_abs n s) \<and>
    (r = None \<longrightarrow> st s' c = RT_THREAD_SUSPEND \<and> error (tcb s' c) = 0) \<and> kinv_at m b s' \<and> touches (Sem n) s s'"
  using sem_take_contract[OF assms] by blast

theorem sem_take_refines_witness:
  "\<exists>r s'. rt_sem_take 0 5 (demo (Suspended (Sem 0)) [2]) = Some (r, s') \<and> r = None \<and> sem_abs 0 s' = (0, [2, 1])"
proof -
  let ?s = "demo (Suspended (Sem 0)) [2]"
  have "in_task 0x7ffffffe 100 (Suc 0) ?s" "wait_flag_ok (Sem 0) ?s" "timeout_ok 5"
    by (simp_all add: timeout_ok_def HALF_def)
  from sem_take_refines[OF this] show ?thesis
    by (auto simp: sem_abs_def queue_of_def enqueue_def)
qed

text \<open>
  C16. Releasing a semaphore, from a thread or an interrupt, hands the token to the first waiter, which
  becomes runnable with its error unchanged, and otherwise counts up to 65535, where it fails with
  -RT_EFULL and changes nothing.
\<close>

theorem sem_release_refines:
  assumes "kinv_at m b s" "current_thread s \<noteq> None"
  shows "\<exists>r s'. rt_sem_release n s = Some (r, s') \<and> (r, sem_abs n s') = spec_release (sem_abs n s) \<and>
    (\<forall>t ts. queues s (Suspended (Sem n)) = t # ts \<longrightarrow> runnable s' t \<and> error (tcb s' t) = error (tcb s t)) \<and>
    kinv_at m b s' \<and> touches (Sem n) s s'"
  using sem_release_contract[OF assms] by blast

theorem sem_release_refines_witness:
  "\<exists>s'. rt_sem_release 0 (demo (Suspended (Sem 0)) [2, 3]) = Some (0, s') \<and> sem_abs 0 s' = (0, [3]) \<and> runnable s' 2"
proof -
  let ?s = "demo (Suspended (Sem 0)) [2, 3]"
  have "kinv_at 0x7ffffffe 100 ?s" "current_thread ?s \<noteq> None" by (simp_all add: demo_kinv[of _ "Sem 0"])
  from sem_release_refines[OF this, of 0] show ?thesis by (auto simp: sem_abs_def)
qed

text \<open>
  Resetting a semaphore wakes every waiter with -RT_ERROR, so that none of them believes it holds a
  token, and leaves the low 16 bits of the new value and no waiter.
\<close>

theorem sem_reset_wakes_all:
  assumes "kinv_at m b s" "current_thread s \<noteq> None"
  shows "\<exists>s'. rt_sem_control n (Some v) s = Some (0, s') \<and> sem_abs n s' = (unat v mod 65536, []) \<and>
    (\<forall>t \<in> set (queues s (Suspended (Sem n))). runnable s' t \<and> error (tcb s' t) = -1) \<and>
    kinv_at m b s' \<and> touches (Sem n) s s'"
  using sem_reset_contract[OF assms] by blast

theorem sem_reset_wakes_all_witness:
  "\<exists>s'. rt_sem_control 0 (Some 0x10003) (demo (Suspended (Sem 0)) [2, 3]) = Some (0, s') \<and> sem_abs 0 s' = (3, []) \<and>
    error (tcb s' 2) = -1 \<and> error (tcb s' 3) = -1"
proof -
  let ?s = "demo (Suspended (Sem 0)) [2, 3]"
  have "kinv_at 0x7ffffffe 100 ?s" "current_thread ?s \<noteq> None" by (simp_all add: demo_kinv[of _ "Sem 0"])
  from sem_reset_wakes_all[OF this, of 0 "0x10003"] show ?thesis by auto
qed

text \<open>
  A waiting take under a locked scheduler does not wait: the caller is queued and marked suspended
  but keeps running, reads a clear error and returns RT_EOK without a token.
\<close>

theorem sem_take_locked_no_token:
  assumes "in_task m b c s" "wait_flag_ok (Sem n) s" "timeout_ok time" "time \<noteq> 0"
    "scheduler_lock_nest s \<noteq> 0" "sem_value (sems s n) = 0"
  shows "\<exists>s'. rt_sem_take n time s = Some (None, s') \<and> current_thread s' = Some c \<and> wait_result c s' = 0 \<and>
    st s' c = RT_THREAD_SUSPEND \<and> sem_value (sems s' n) = 0"
proof -
  let ?s = "upd_tcb c (\<lambda>th. th\<lparr>error := 0\<rparr>) s" and ?l = "Suspended (Sem n)"
  have t': "in_task m b c ?s" using assms(1) by simp
  obtain s' where s': "wait_on ?l c (ipc_flag s (Sem n)) time ?s = Some s'" "parked ?l (ipc_flag s (Sem n)) c ?s s'" "kept ?s s'"
    using wait_on_kinv[OF in_taskD(1,3)[OF t'], of "ipc_flag s (Sem n)" ?l "Sem n" time] assms(2,3)
    unfolding wait_flag_ok_def timeout_ok_def by blast
  have "rt_schedule s' = Some s'" using keptD(2)[OF s'(3)] assms(5) by (simp add: rt_schedule_def)
  then have "rt_sem_take n time s = Some (None, s')"
    using assms(4,6) in_taskD(2,5)[OF assms(1)] s'(1) by (simp add: rt_sem_take_def rt_thread_self_def)
  moreover have "sems s' = sems s" using more_ipc(3)[OF keptD(5)[OF s'(3)]] by (simp add: upd_tcb_def)
  moreover have "current_thread s' = Some c" using keptD(1)[OF s'(3)] in_taskD(2)[OF assms(1)] by simp
  moreover have "wait_result c s' = 0" using s'(2) by (simp add: parked_def wait_result_def)
  ultimately show ?thesis using parked_st[OF s'(2)] assms(6) by simp
qed

theorem sem_take_locked_no_token_witness:
  "\<exists>s'. rt_sem_take 0 5 (rt_enter_critical (demo (Suspended (Sem 0)) [])) = Some (None, s') \<and>
     current_thread s' = Some 1 \<and> wait_result 1 s' = 0 \<and> sem_value (sems s' 0) = 0"
proof -
  let ?s = "rt_enter_critical (demo (Suspended (Sem 0)) [])"
  have "in_task 0x7ffffffe 100 (Suc 0) ?s"
    using demo_in_task[of "Suspended (Sem 0)" "Sem 0" "[]"] critical_kinv[of "0x7ffffffe" 100 "demo (Suspended (Sem 0)) []"]
    by (simp add: in_task_def rt_enter_critical_def runnable_def st_def)
  from sem_take_locked_no_token[OF this, of 0 5] show ?thesis
    by (auto simp: timeout_ok_def HALF_def wait_flag_ok_def rt_enter_critical_def)
qed

end
