(* ===== verification/RT_Mutex.thy ===== *)
theory RT_Mutex
  imports RT_Demo
begin

text \<open>
  Mutexes of \<open>src/rt-thread/src/ipc.c\<close>: every operation, the ownership invariant, recursion, priority
  inheritance and the hand-over on release.
\<close>

section \<open>Operations\<close>

definition upd_mutex :: "nat \<Rightarrow> (rt_mutex \<Rightarrow> rt_mutex) \<Rightarrow> ipc_sys \<Rightarrow> ipc_sys" where
  "upd_mutex n f s = s\<lparr>mutexes := (mutexes s)(n := f (mutexes s n))\<rparr>"

definition mutex_fresh :: rt_mutex where
  "mutex_fresh = \<lparr>mutex_value = 1, original_priority = 0xff, hold = 0, owner = None\<rparr>"

definition rt_mutex_init :: "nat \<Rightarrow> u8 \<Rightarrow> ipc_sys \<Rightarrow> ipc_sys" where
  "rt_mutex_init n fl s =
     set_object (Mutex n) True fl (upd_mutex n (\<lambda>_. mutex_fresh) (rt_ipc_object_init (Suspended (Mutex n)) s))"

definition rt_mutex_create :: "nat option \<Rightarrow> u8 \<Rightarrow> ipc_sys \<Rightarrow> (nat option \<times> ipc_sys) option" where
  "rt_mutex_create obj fl s =
     (if not_in_interrupt s
      then Some (case obj of
                   None \<Rightarrow> (None, s)
                 | Some n \<Rightarrow> (Some n, set_object (Mutex n) False fl
                               (upd_mutex n (\<lambda>_. mutex_fresh) (rt_ipc_object_init (Suspended (Mutex n)) s))))
      else None)"

definition rt_mutex_detach :: "nat \<Rightarrow> ipc_sys \<Rightarrow> ipc_sys option" where
  "rt_mutex_detach n s = (if ipc_static s (Mutex n) then rt_ipc_list_resume_all (Suspended (Mutex n)) s else None)"

definition rt_mutex_delete :: "nat \<Rightarrow> ipc_sys \<Rightarrow> ipc_sys option" where
  "rt_mutex_delete n s =
     (if not_in_interrupt s \<and> \<not> ipc_static s (Mutex n) then rt_ipc_list_resume_all (Suspended (Mutex n)) s else None)"

text \<open>
  \<open>rt_mutex_take\<close>: by the owner, on a free mutex, polling, and waiting. The waiting caller lends its
  priority to the owner, whose absence would be a null pointer dereference.
\<close>

definition mutex_wait :: "nat \<Rightarrow> tid \<Rightarrow> 32 word \<Rightarrow> ipc_sys \<Rightarrow> (int option \<times> ipc_sys) option" where
  "mutex_wait n t time s =
     do { w \<leftarrow> owner (mutexes s n);
          s1 \<leftarrow> (if current_priority (tcb s t) < current_priority (tcb s w)
                 then rt_thread_control w (CHANGE_PRIORITY (current_priority (tcb s t))) s else Some s);
          s2 \<leftarrow> wait_on (Suspended (Mutex n)) t (ipc_flag s1 (Mutex n)) time s1;
          s3 \<leftarrow> rt_schedule s2;
          Some (None, s3) }"

definition rt_mutex_take :: "nat \<Rightarrow> 32 word \<Rightarrow> ipc_sys \<Rightarrow> (int option \<times> ipc_sys) option" where
  "rt_mutex_take n time s0 =
     (if \<not> in_thread_context s0 then None
      else do { t \<leftarrow> rt_thread_self s0;
                let s = upd_tcb t (\<lambda>th. th\<lparr>error := 0\<rparr>) s0;
                let mx = mutexes s n;
                if owner mx = Some t
                then if hold mx < 0xff then Some (Some 0, upd_mutex n (\<lambda>x. x\<lparr>hold := hold x + 1\<rparr>) s)
                     else Some (Some (-3), s)
                else if mutex_value mx > 0
                then let s1 = upd_mutex n (\<lambda>x. x\<lparr>mutex_value := mutex_value x - 1, owner := Some t,
                                                original_priority := current_priority (tcb s t)\<rparr>) s in
                     if hold mx < 0xff then Some (Some 0, upd_mutex n (\<lambda>x. x\<lparr>hold := hold x + 1\<rparr>) s1)
                     else Some (Some (-3), s1)
                else if time = 0 then Some (Some (-2), upd_tcb t (\<lambda>th. th\<lparr>error := -2\<rparr>) s)
                else mutex_wait n t time s })"

text \<open>
  \<open>rt_mutex_release\<close>. \<open>mutex_hand_over\<close> is the part with a waiter: under FIFO order the new owner gets the
  highest priority of the queue it leaves.
\<close>

definition mutex_hand_over :: "nat \<Rightarrow> tid \<Rightarrow> ipc_sys \<Rightarrow> (int \<times> ipc_sys) option" where
  "mutex_hand_over n w s =
     (let s1 = upd_mutex n (\<lambda>x. x\<lparr>owner := Some w, original_priority := current_priority (tcb s w)\<rparr>) s;
          max_priority_in_queue = rt_ipc_get_highest_priority (Suspended (Mutex n)) s1
      in do { s2 \<leftarrow> (if ipc_flag s1 (Mutex n) = RT_IPC_FLAG_FIFO \<and> current_priority (tcb s1 w) \<noteq> max_priority_in_queue
                     then rt_thread_control w (CHANGE_PRIORITY max_priority_in_queue) s1 else Some s1);
              if hold (mutexes s2 n) < 0xff
              then do { s3 \<leftarrow> rt_ipc_list_resume (Suspended (Mutex n)) (upd_mutex n (\<lambda>x. x\<lparr>hold := hold x + 1\<rparr>) s2);
                        s4 \<leftarrow> rt_schedule s3;
                        Some (0, s4) }
              else Some (-3, s2) })"

definition mutex_restore :: "nat \<Rightarrow> tid \<Rightarrow> ipc_sys \<Rightarrow> ipc_sys option" where
  "mutex_restore n t s =
     (if original_priority (mutexes s n) \<noteq> current_priority (tcb s t)
      then rt_thread_control t (CHANGE_PRIORITY (original_priority (mutexes s n))) s else Some s)"

definition mutex_pass :: "nat \<Rightarrow> ipc_sys \<Rightarrow> (int \<times> ipc_sys) option" where
  "mutex_pass n s =
     (case queues s (Suspended (Mutex n)) of
        w # _ \<Rightarrow> mutex_hand_over n w s
      | [] \<Rightarrow> if mutex_value (mutexes s n) < 0xffff
             then Some (0, upd_mutex n (\<lambda>x. x\<lparr>mutex_value := mutex_value x + 1, owner := None,
                                             original_priority := 0xff\<rparr>) s)
             else Some (-3, s))"

definition rt_mutex_release :: "nat \<Rightarrow> ipc_sys \<Rightarrow> (int \<times> ipc_sys) option" where
  "rt_mutex_release n s =
     (if \<not> in_thread_context s then None
      else do { t \<leftarrow> rt_thread_self s;
                if owner (mutexes s n) \<noteq> Some t then Some (-1, upd_tcb t (\<lambda>th. th\<lparr>error := -1\<rparr>) s)
                else let s1 = upd_mutex n (\<lambda>x. x\<lparr>hold := hold x - 1\<rparr>) s in
                     if hold (mutexes s1 n) \<noteq> 0 then Some (0, s1)
                     else do { s2 \<leftarrow> mutex_restore n t s1; mutex_pass n s2 } })"

definition rt_mutex_control :: "nat \<Rightarrow> ipc_sys \<Rightarrow> int \<times> ipc_sys" where
  "rt_mutex_control n s = (-1, s)"

section \<open>Frame\<close>

lemma upd_mutex_obs [simp]:
  "mutexes (upd_mutex n f s) k = (if k = n then f (mutexes s n) else mutexes s k)"
  "queues (upd_mutex n f s) = queues s" "tcb (upd_mutex n f s) = tcb s" "current_thread (upd_mutex n f s) = current_thread s"
  "interrupt_nest (upd_mutex n f s) = interrupt_nest s" "st (upd_mutex n f s) = st s"
  "rt_tick (upd_mutex n f s) = rt_tick s" "ipc_flag (upd_mutex n f s) = ipc_flag s" "ipc_static (upd_mutex n f s) = ipc_static s"
  "kinv_at m b (upd_mutex n f s) = kinv_at m b s" "runnable (upd_mutex n f s) = runnable s"
  by (simp_all add: upd_mutex_def runnable_def st_def fun_eq_iff)

lemma upd_mutex_touches [simp]: "touches (Mutex n) s (upd_mutex n f s)"
  by (simp add: touches_def upd_mutex_def)

text \<open>Changing a priority.\<close>

definition repriced :: "tid \<Rightarrow> u8 \<Rightarrow> ipc_sys \<Rightarrow> ipc_sys \<Rightarrow> bool" where
  "repriced t p s s' \<longleftrightarrow> (\<forall>u. u \<noteq> t \<longrightarrow> tcb s' u = tcb s u) \<and> tcb s' t = (set_priority p (tcb s t))\<lparr>stat := stat (tcb s' t)\<rparr> \<and>
     st s' = st s \<and> (\<forall>l. (\<forall>p. l \<noteq> Ready p) \<longrightarrow> queues s' l = queues s l) \<and> kept s s'"

lemma change_priority_eff:
  assumes k: "kinv_at m b s" and p: "unat p < 32"
  shows "\<exists>s'. rt_thread_control t (CHANGE_PRIORITY p) s = Some s' \<and> kinv_at m b s' \<and> repriced t p s s'"
proof -
  obtain s' where s': "rt_thread_change_priority t p s = Some s'" "kinv_at m b s'" "current_thread s' = current_thread s"
    "st s' = st s" "sched.more s' = sched.more s"
    using change_priority_kinv[OF k p] by metis
  have q: "queues s' l = queues s l" if "\<forall>p. l \<noteq> Ready p" for l
  proof (cases "st s t = RT_THREAD_READY")
    case True
    then have "removeAll t (queues s l) = queues s l"
      using runnable_free[OF k, of t l] that by (simp add: runnable_def)
    then show ?thesis using s'(1) p that True unfolding rt_thread_change_priority_def by auto
  qed (use s'(1) p in \<open>auto simp: rt_thread_change_priority_def\<close>)
  have "tcb s' u = tcb s u" if "u \<noteq> t" for u
    using s'(1) p that by (auto simp: rt_thread_change_priority_def)
  moreover have "tcb s' t = (set_priority p (tcb s t))\<lparr>stat := stat (tcb s' t)\<rparr>"
    using s'(1) p by (auto simp: rt_thread_change_priority_def set_stat_def set_priority_def)
  moreover have "scheduler_lock_nest s' = scheduler_lock_nest s" "interrupt_nest s' = interrupt_nest s"
    using s'(1) p by (auto simp: rt_thread_change_priority_def)
  ultimately have "repriced t p s s'"
    using s'(3,4) q more_timer(3,6)[OF s'(5)] by (simp add: repriced_def kept_def)
  then show ?thesis using s'(1,2) by (auto simp: rt_thread_control_def)
qed

lemma repriced_touches:
  assumes r: "repriced t p s s'"
  shows "touches i s s'"
proof -
  obtain x where x: "tcb s' t = (set_priority p (tcb s t))\<lparr>stat := x\<rparr>" using r by (auto simp: repriced_def)
  have e: "event_set (tcb s' u) = event_set (tcb s u)" "event_info (tcb s' u) = event_info (tcb s u)" for u
    using r x by (cases "u = t"; simp add: repriced_def set_priority_def)+
  show ?thesis
    by (rule touchesI[OF _ _ e]) (use r keptD(5)[of s s'] in \<open>simp_all add: repriced_def\<close>)
qed

section \<open>The abstract mutex\<close>

text \<open>An owner, how often it holds the mutex, and the waiters in order.\<close>

type_synonym abs_mutex = "tid option \<times> nat \<times> tid list"

definition mutex_abs :: "nat \<Rightarrow> ipc_sys \<Rightarrow> abs_mutex" where
  "mutex_abs n s = (owner (mutexes s n), unat (hold (mutexes s n)), queues s (Suspended (Mutex n)))"

fun spec_lock :: "(tid list \<Rightarrow> tid list) \<Rightarrow> bool \<Rightarrow> tid \<Rightarrow> abs_mutex \<Rightarrow> int option \<times> abs_mutex" where
  "spec_lock queue poll c (None, d, ws) = (Some 0, (Some c, 1, ws))"
| "spec_lock queue poll c (Some w, d, ws) =
     (if w = c then if d < 255 then (Some 0, (Some c, d + 1, ws)) else (Some (-3), (Some w, d, ws))
      else if poll then (Some (-2), (Some w, d, ws)) else (None, (Some w, d, queue ws)))"

fun spec_unlock :: "tid \<Rightarrow> abs_mutex \<Rightarrow> int \<times> abs_mutex" where
  "spec_unlock c (w, d, ws) =
     (if w \<noteq> Some c then (-1, (w, d, ws))
      else if d > 1 then (0, (w, d - 1, ws))
      else case ws of [] \<Rightarrow> (0, (None, 0, [])) | w' # ws' \<Rightarrow> (0, (Some w', 1, ws')))"

definition mutex_inv :: "nat \<Rightarrow> ipc_sys \<Rightarrow> bool" where
  "mutex_inv n s \<longleftrightarrow>
     (case owner (mutexes s n) of
        None \<Rightarrow> mutex_value (mutexes s n) = 1 \<and> hold (mutexes s n) = 0 \<and> queues s (Suspended (Mutex n)) = []
      | Some t \<Rightarrow> mutex_value (mutexes s n) = 0 \<and> hold (mutexes s n) \<noteq> 0 \<and> t \<notin> set (queues s (Suspended (Mutex n))) \<and>
          unat (original_priority (mutexes s n)) < 32)"

lemma mutex_inv_cong:
  "mutexes s' n = mutexes s n \<Longrightarrow> queues s' (Suspended (Mutex n)) = queues s (Suspended (Mutex n)) \<Longrightarrow>
   mutex_inv n s' = mutex_inv n s"
  by (simp add: mutex_inv_def split: option.split)

lemma mutex_inv_other: "touches i s s' \<Longrightarrow> i \<noteq> Mutex n \<Longrightarrow> mutex_inv n s \<Longrightarrow> mutex_inv n s'"
  using touchesD(1)[of i s s' "Mutex n"] touchesD(6)[of i s s' n] mutex_inv_cong[of s' n s] by simp

lemma mutex_wait_contract:
  assumes t: "in_task m b c s" and f: "wait_flag_ok (Mutex n) s" and v: "timeout_ok time"
    and i: "mutex_inv n s" and o: "owner (mutexes s n) = Some w" "w \<noteq> c"
  shows "\<exists>s'. mutex_wait n c time s = Some (None, s') \<and> kinv_at m b s' \<and> touches (Mutex n) s s' \<and>
    current_thread s' \<noteq> None \<and> mutexes s' = mutexes s \<and>
    queues s' (Suspended (Mutex n)) = queue_of (Mutex n) c s (queues s (Suspended (Mutex n))) \<and>
    st s' c = RT_THREAD_SUSPEND \<and> error (tcb s' c) = error (tcb s c) \<and>
    current_priority (tcb s' w) = min (current_priority (tcb s w)) (current_priority (tcb s c))"
proof -
  let ?l = "Suspended (Mutex n)" and ?p = "current_priority (tcb s c)"
  have p: "unat ?p < 32" using lists_inv_prio[OF kinv_atD(6)[OF in_taskD(1)[OF t]], of c] by (simp add: prio_ok_def)
  obtain s1 where s1: "(if ?p < current_priority (tcb s w) then rt_thread_control w (CHANGE_PRIORITY ?p) s else Some s) = Some s1"
    "kinv_at m b s1" "touches (Mutex n) s s1" "kept s s1" "runnable s1 c" "queues s1 ?l = queues s ?l"
    "current_priority (tcb s1 w) = min (current_priority (tcb s w)) ?p" "\<And>u. u \<noteq> w \<Longrightarrow> tcb s1 u = tcb s u"
  proof (cases "?p < current_priority (tcb s w)")
    case True
    obtain s1 where s1: "rt_thread_control w (CHANGE_PRIORITY ?p) s = Some s1" "kinv_at m b s1" "repriced w ?p s s1"
      using change_priority_eff[OF in_taskD(1)[OF t] p] by blast
    have r: "runnable s1 c" using s1(3) in_taskD(3)[OF t] by (simp add: repriced_def runnable_def)
    obtain x where "tcb s1 w = (set_priority ?p (tcb s w))\<lparr>stat := x\<rparr>" using s1(3) by (auto simp: repriced_def)
    then have "current_priority (tcb s1 w) = min (current_priority (tcb s w)) ?p" using True by (simp add: set_priority_def min.absorb2 less_imp_le)
    then show ?thesis using that[of s1] s1 True r repriced_touches[OF s1(3)] by (auto simp: repriced_def)
  next
    case False
    moreover from False have "current_priority (tcb s w) \<le> ?p" by (simp add: not_less)
    ultimately show ?thesis using that[of s] in_taskD[OF t] by (simp add: min.absorb1)
  qed
  have fl: "ipc_flag s1 = ipc_flag s" "mutexes s1 = mutexes s" using more_ipc[OF keptD(5)[OF s1(4)]] by simp_all
  have c1: "current_thread s1 \<noteq> None" using in_taskD(7)[OF t] keptD(1)[OF s1(4)] by simp
  obtain s2 s' where s': "wait_on ?l c (ipc_flag s1 (Mutex n)) time s1 = Some s2" "rt_schedule s2 = Some s'"
    "kinv_at m b s'" "current_thread s' \<noteq> None" "blocked ?l (ipc_flag s1 (Mutex n)) c s1 s'"
    using block_eff[OF s1(2) c1 s1(5), of "ipc_flag s1 (Mutex n)" ?l "Mutex n" time] f v
    unfolding wait_flag_ok_def timeout_ok_def fl by blast
  have ow: "w \<notin> set (queues s ?l)" using i o by (simp add: mutex_inv_def)
  have q: "queues s' ?l = queue_of (Mutex n) c s (queues s ?l)"
    unfolding blockedD(2)[OF s'(5)] queue_of_def fl s1(6)
    by (rule enqueue_cong) (metis s1(8) o(2) ow insert_iff)
  have "mutex_wait n c time s = Some (None, s')" using s1(1) s'(1,2) o by (simp add: mutex_wait_def)
  moreover have "touches (Mutex n) s s'" using touches_trans[OF s1(3) blocked_touches[OF s'(5)]] by blast
  moreover have "mutexes s' = mutexes s" using more_ipc(4)[OF blockedD(7)[OF s'(5)]] fl by simp
  moreover have "error (tcb s' c) = error (tcb s c)"
    using stat_fields(1)[OF blockedD(4)[OF s'(5), of c]] s1(8)[of c] o(2) by simp
  ultimately show ?thesis
    using s'(3,4) q blockedD(1)[OF s'(5)] stat_fields(4)[OF blockedD(4)[OF s'(5), of w]] s1(7) by auto
qed

lemma unat_hold_up: "hold mx < 0xff \<Longrightarrow> unat (hold mx + 1) = unat (hold mx) + 1"
  using unat_add_lem[of "hold mx" 1] by (simp add: word_less_nat_alt)

lemma mutex_take_contract:
  assumes t: "in_task m b c s" and f: "wait_flag_ok (Mutex n) s" and v: "timeout_ok time" and i: "mutex_inv n s"
  shows "\<exists>r s'. rt_mutex_take n time s = Some (r, s') \<and> kinv_at m b s' \<and> touches (Mutex n) s s' \<and>
    current_thread s' \<noteq> None \<and> mutex_inv n s' \<and>
    (r, mutex_abs n s') = spec_lock (queue_of (Mutex n) c s) (time = 0) c (mutex_abs n s) \<and>
    (r = None \<longrightarrow> st s' c = RT_THREAD_SUSPEND \<and> error (tcb s' c) = 0 \<and>
       (\<forall>w. owner (mutexes s n) = Some w \<longrightarrow>
          current_priority (tcb s' w) = min (current_priority (tcb s w)) (current_priority (tcb s c))))"
proof -
  let ?s = "upd_tcb c (\<lambda>th. th\<lparr>error := 0\<rparr>) s"
  have t': "in_task m b c ?s" using t by simp
  note d = in_taskD[OF t'] in_taskD(2,5)[OF t]
  have i': "mutex_inv n ?s" using i mutex_inv_cong[of ?s n s] by simp
  have up: "touches (Mutex n) s (upd_mutex n g ?s)" for g by (rule touches_trans[OF error_touches upd_mutex_touches])
  note sm = rt_mutex_take_def rt_thread_self_def mutex_abs_def mutex_inv_def
  show ?thesis
  proof (cases "owner (mutexes s n)")
    case None
    have p: "unat (current_priority (tcb s c)) < 32"
      using lists_inv_prio[OF kinv_atD(6)[OF in_taskD(1)[OF t]], of c] by (simp add: prio_ok_def)
    have "touches (Mutex n) s (upd_mutex n g (upd_mutex n h ?s))" for g h
      by (rule touches_trans[OF up upd_mutex_touches])
    then show ?thesis using None i d p by (simp add: sm)
  next
    case (Some w)
    show ?thesis
    proof (cases "w = c")
      case True
      have "hold (mutexes s n) + 1 \<noteq> 0" if "hold (mutexes s n) < 0xff"
        using unat_hold_up[OF that] by (metis Suc_eq_plus1 nat.distinct(1) unat_0)
      moreover have "hold (mutexes s n) < 0xff \<longleftrightarrow> unat (hold (mutexes s n)) < 255" by (simp add: word_less_nat_alt)
      ultimately show ?thesis using True Some i d up unat_hold_up[of "mutexes s n"] by (simp add: sm)
    next
      case wc: False
      have val: "mutex_value (mutexes s n) = 0" using i Some by (simp add: mutex_inv_def)
      show ?thesis
      proof (cases "time = 0")
        case True
        let ?s2 = "upd_tcb c (\<lambda>th. th\<lparr>error := -2\<rparr>) ?s"
        have "in_task m b c ?s2" using t' by simp
        moreover have "touches (Mutex n) s ?s2" by (rule touches_trans[OF error_touches error_touches])
        moreover have "mutex_inv n ?s2" using i mutex_inv_cong[of ?s2 n s] by simp
        moreover have "rt_mutex_take n time s = Some (Some (-2), ?s2)"
          using True wc Some val d by (simp add: rt_mutex_take_def rt_thread_self_def)
        moreover have "mutex_abs n ?s2 = mutex_abs n s" by (simp add: mutex_abs_def)
        moreover have "spec_lock (queue_of (Mutex n) c s) True c (mutex_abs n s) = (Some (-2), mutex_abs n s)"
          using wc Some by (simp add: mutex_abs_def)
        ultimately show ?thesis using in_taskD(1,7)[of m b c ?s2] True by auto
      next
        case time: False
        have f': "wait_flag_ok (Mutex n) ?s" using f by (simp add: wait_flag_ok_def)
        have o': "owner (mutexes ?s n) = Some w" using Some by simp
        obtain s' where s': "mutex_wait n c time ?s = Some (None, s')" "kinv_at m b s'" "touches (Mutex n) ?s s'"
          "current_thread s' \<noteq> None" "mutexes s' = mutexes ?s"
          "queues s' (Suspended (Mutex n)) = queue_of (Mutex n) c ?s (queues ?s (Suspended (Mutex n)))"
          "st s' c = RT_THREAD_SUSPEND" "error (tcb s' c) = error (tcb ?s c)"
          "current_priority (tcb s' w) = min (current_priority (tcb ?s w)) (current_priority (tcb ?s c))"
          using mutex_wait_contract[OF t' f' v i' o' wc] by blast
        have res: "rt_mutex_take n time s = Some (None, s')"
          using time wc Some val d s'(1) by (simp add: rt_mutex_take_def rt_thread_self_def)
        have tc: "touches (Mutex n) s s'" by (rule touches_trans[OF error_touches s'(3)])
        have pr: "current_priority (tcb s' w) = min (current_priority (tcb s w)) (current_priority (tcb s c))"
          using s'(9) by simp
        have "mutex_inv n s'" using s'(5,6) i wc Some by (simp add: mutex_inv_def)
        then show ?thesis using res tc pr s'(2,4,5,6,7,8) wc Some time by (simp add: mutex_abs_def)
      qed
    qed
  qed
qed

lemma hand_over_contract:
  assumes k: "kinv_at m b s" and c: "current_thread s \<noteq> None" and q: "queues s (Suspended (Mutex n)) = w # ws"
    and h: "hold (mutexes s n) = 0"
  shows "\<exists>s'. mutex_hand_over n w s = Some (0, s') \<and> kinv_at m b s' \<and> touches (Mutex n) s s' \<and> current_thread s' \<noteq> None \<and>
    mutexes s' n = (mutexes s n)\<lparr>owner := Some w, original_priority := current_priority (tcb s w), hold := 1\<rparr> \<and>
    queues s' (Suspended (Mutex n)) = ws \<and> runnable s' w \<and> error (tcb s' w) = error (tcb s w) \<and>
    (ipc_flag s (Mutex n) = RT_IPC_FLAG_FIFO \<longrightarrow> (\<forall>u \<in> set (w # ws). current_priority (tcb s' w) \<le> current_priority (tcb s u))) \<and>
    (\<forall>u. u \<noteq> w \<longrightarrow> current_priority (tcb s' u) = current_priority (tcb s u))"
proof -
  let ?l = "Suspended (Mutex n)"
  let ?s1 = "upd_mutex n (\<lambda>x. x\<lparr>owner := Some w, original_priority := current_priority (tcb s w)\<rparr>) s"
  let ?mp = "rt_ipc_get_highest_priority ?l ?s1"
  have k1: "kinv_at m b ?s1" using k by simp
  have mp: "unat ?mp < 32" "\<And>u. u \<in> set (w # ws) \<Longrightarrow> ?mp \<le> current_priority (tcb s u)"
    using highest_priority_le(1)[of ?l ?s1] highest_priority_le(2)[of _ ?s1 ?l] q by (simp_all add: word_le_nat_alt)
  let ?boost = "ipc_flag ?s1 (Mutex n) = RT_IPC_FLAG_FIFO \<and> current_priority (tcb ?s1 w) \<noteq> ?mp"
  obtain s2 where s2: "(if ?boost then rt_thread_control w (CHANGE_PRIORITY ?mp) ?s1 else Some ?s1) = Some s2"
    "kinv_at m b s2" "touches (Mutex n) ?s1 s2" "kept ?s1 s2" "queues s2 ?l = queues ?s1 ?l"
    "error (tcb s2 w) = error (tcb s w)" "\<And>u. u \<noteq> w \<Longrightarrow> tcb s2 u = tcb s u"
    "ipc_flag s (Mutex n) = RT_IPC_FLAG_FIFO \<Longrightarrow> current_priority (tcb s2 w) = ?mp"
  proof (cases ?boost)
    case True
    obtain s2 where s2: "rt_thread_control w (CHANGE_PRIORITY ?mp) ?s1 = Some s2" "kinv_at m b s2" "repriced w ?mp ?s1 s2"
      using change_priority_eff[OF k1 mp(1)] by blast
    obtain x where x: "tcb s2 w = (set_priority ?mp (tcb s w))\<lparr>stat := x\<rparr>" using s2(3) by (auto simp: repriced_def)
    have "error (tcb s2 w) = error (tcb s w)" "current_priority (tcb s2 w) = ?mp" using x by (simp_all add: set_priority_def)
    then show ?thesis using that[of s2] s2 True repriced_touches[OF s2(3)] by (auto simp: repriced_def)
  next
    case False
    then show ?thesis using that[of ?s1] k1 by auto
  qed
  have mx2: "mutexes s2 = mutexes ?s1" using more_ipc(4)[OF keptD(5)[OF s2(4)]] .
  let ?s3 = "upd_mutex n (\<lambda>x. x\<lparr>hold := hold x + 1\<rparr>) s2"
  have k3: "kinv_at m b ?s3" "current_thread ?s3 \<noteq> None" using s2(2) c keptD(1)[OF s2(4)] by simp_all
  have q3: "queues ?s3 ?l = w # ws" using s2(5) q by simp
  obtain s4 s' where s': "rt_ipc_list_resume ?l ?s3 = Some s4" "rt_schedule s4 = Some s'" "kinv_at m b s'"
    "current_thread s' \<noteq> None" "handed ?l w ?s3 s'"
    using wake_eff[OF k3, of ?l "Mutex n" w ws] q3 by blast
  have "mutexes s' = mutexes ?s3" by (rule more_ipc(4)[OF handedD(7)[OF s'(5)]])
  then have mx: "mutexes s' n = (mutexes s n)\<lparr>owner := Some w, original_priority := current_priority (tcb s w), hold := 1\<rparr>"
    using mx2 h by simp
  have res: "mutex_hand_over n w s = Some (0, s')"
    using s2(1) s'(1,2) mx2 h unfolding mutex_hand_over_def Let_def by simp
  have pr: "current_priority (tcb s' u) = current_priority (tcb s2 u)" "error (tcb s' u) = error (tcb s2 u)" for u
    using stat_fields[OF handedD(4)[OF s'(5), of u]] by simp_all
  have "touches (Mutex n) s s'"
    using touches_trans[OF upd_mutex_touches touches_trans[OF s2(3) touches_trans[OF upd_mutex_touches handed_touches[OF s'(5)]]]] by blast
  then show ?thesis
    using res mx s'(3,4) handedD(1,2)[OF s'(5)] q3 pr s2(6,7,8) mp(2) by simp
qed

lemma mutex_release_contract:
  assumes t: "in_task m b c s" and i: "mutex_inv n s"
  shows "\<exists>r s'. rt_mutex_release n s = Some (r, s') \<and> kinv_at m b s' \<and> touches (Mutex n) s s' \<and>
    current_thread s' \<noteq> None \<and> mutex_inv n s' \<and> (r, mutex_abs n s') = spec_unlock c (mutex_abs n s) \<and>
    (owner (mutexes s n) = Some c \<longrightarrow> hold (mutexes s n) = 1 \<longrightarrow>
       current_priority (tcb s' c) = original_priority (mutexes s n) \<and>
       (\<forall>w ws. queues s (Suspended (Mutex n)) = w # ws \<longrightarrow> runnable s' w \<and> error (tcb s' w) = error (tcb s w) \<and>
          original_priority (mutexes s' n) = current_priority (tcb s w) \<and>
          (ipc_flag s (Mutex n) = RT_IPC_FLAG_FIFO \<longrightarrow>
             (\<forall>u \<in> set (w # ws). current_priority (tcb s' w) \<le> current_priority (tcb s u)))))"
proof -
  note d = in_taskD[OF t]
  let ?l = "Suspended (Mutex n)"
  show ?thesis
  proof (cases "owner (mutexes s n) = Some c")
    case False
    let ?s = "upd_tcb c (\<lambda>th. th\<lparr>error := -1\<rparr>) s"
    have "in_task m b c ?s" using t by simp
    moreover have "mutex_inv n ?s" using i mutex_inv_cong[of ?s n s] by simp
    moreover have "rt_mutex_release n s = Some (-1, ?s)" using False d by (simp add: rt_mutex_release_def rt_thread_self_def)
    ultimately show ?thesis using False in_taskD(1,7)[of m b c ?s] by (simp add: mutex_abs_def)
  next
    case True
    have h: "hold (mutexes s n) \<noteq> 0" "c \<notin> set (queues s ?l)" "unat (original_priority (mutexes s n)) < 32"
      "mutex_value (mutexes s n) = 0"
      using i True by (simp_all add: mutex_inv_def)
    have hd: "unat (hold (mutexes s n) - 1) = unat (hold (mutexes s n)) - 1" using h(1) by (simp add: unat_minus_one)
    let ?s1 = "upd_mutex n (\<lambda>x. x\<lparr>hold := hold x - 1\<rparr>) s"
    show ?thesis
    proof (cases "hold (mutexes s n) = 1")
      case False
      then have "unat (hold (mutexes s n)) > 1" using h(1)
        by (metis One_nat_def less_one nat_neq_iff unat_1 unat_eq_0 word_unat_eq_iff)
      moreover have "hold (mutexes s n) - 1 \<noteq> 0" using False by simp
      moreover have "mutex_inv n ?s1" using i True False by (simp add: mutex_inv_def)
      ultimately show ?thesis using True d hd False
        by (simp add: rt_mutex_release_def rt_thread_self_def mutex_abs_def)
    next
      case one: True
      let ?op = "original_priority (mutexes s n)"
      have k1: "kinv_at m b ?s1" using d(1) by simp
      obtain s2 where s2: "mutex_restore n c ?s1 = Some s2"
        "kinv_at m b s2" "touches (Mutex n) ?s1 s2" "kept ?s1 s2" "queues s2 ?l = queues ?s1 ?l"
        "current_priority (tcb s2 c) = ?op" "\<And>u. u \<noteq> c \<Longrightarrow> tcb s2 u = tcb s u"
      proof (cases "?op = current_priority (tcb ?s1 c)")
        case False
        obtain s2 where s2: "rt_thread_control c (CHANGE_PRIORITY ?op) ?s1 = Some s2" "kinv_at m b s2" "repriced c ?op ?s1 s2"
          using change_priority_eff[OF k1 h(3)] by blast
        obtain x where x: "tcb s2 c = (set_priority ?op (tcb s c))\<lparr>stat := x\<rparr>" using s2(3) by (auto simp: repriced_def)
        have "current_priority (tcb s2 c) = ?op" using x by (simp add: set_priority_def)
        then show ?thesis using that[of s2] s2 False repriced_touches[OF s2(3)] by (auto simp: repriced_def mutex_restore_def)
      next
        case True
        then show ?thesis using that[of ?s1] k1 by (auto simp: mutex_restore_def)
      qed
      have mx2: "mutexes s2 = mutexes ?s1" "ipc_flag s2 = ipc_flag s" using more_ipc(1,4)[OF keptD(5)[OF s2(4)]] by simp_all
      have c2: "current_thread s2 \<noteq> None" using d(7) keptD(1)[OF s2(4)] by simp
      have t2: "touches (Mutex n) s s2" by (rule touches_trans[OF upd_mutex_touches s2(3)])
      have rel: "rt_mutex_release n s = mutex_pass n s2"
        using True d one s2(1) by (simp add: rt_mutex_release_def rt_thread_self_def)
      show ?thesis
      proof (cases "queues s ?l")
        case Nil
        let ?s' = "upd_mutex n (\<lambda>x. x\<lparr>mutex_value := mutex_value x + 1, owner := None, original_priority := 0xff\<rparr>) s2"
        have "rt_mutex_release n s = Some (0, ?s')" using rel s2(5) Nil h(4) mx2 by (simp add: mutex_pass_def)
        moreover have "touches (Mutex n) s ?s'" by (rule touches_trans[OF t2 upd_mutex_touches])
        ultimately show ?thesis using s2(2,5,6) c2 Nil one True h mx2 by (simp add: mutex_inv_def mutex_abs_def)
      next
        case (Cons w ws)
        have q2: "queues s2 ?l = w # ws" "hold (mutexes s2 n) = 0" using Cons s2(5) mx2 one by simp_all
        obtain s' where s': "mutex_hand_over n w s2 = Some (0, s')" "kinv_at m b s'" "touches (Mutex n) s2 s'" "current_thread s' \<noteq> None"
          "mutexes s' n = (mutexes s2 n)\<lparr>owner := Some w, original_priority := current_priority (tcb s2 w), hold := 1\<rparr>"
          "queues s' ?l = ws" "runnable s' w" "error (tcb s' w) = error (tcb s2 w)"
          "ipc_flag s2 (Mutex n) = RT_IPC_FLAG_FIFO \<longrightarrow> (\<forall>u \<in> set (w # ws). current_priority (tcb s' w) \<le> current_priority (tcb s2 u))"
          "\<And>u. u \<noteq> w \<Longrightarrow> current_priority (tcb s' u) = current_priority (tcb s2 u)"
          using hand_over_contract[OF s2(2) c2 q2] by blast
        have nw: "w \<noteq> c" "\<And>u. u \<in> set (w # ws) \<Longrightarrow> u \<noteq> c" using h(2) Cons by auto
        have dw: "w \<notin> set ws" using lists_inv_distinct[OF kinv_atD(6)[OF d(1)], of ?l] Cons by simp
        have tq: "tcb s2 u = tcb s u" if "u \<in> set (w # ws)" for u using s2(7)[OF nw(2)[OF that]] .
        have wp: "unat (current_priority (tcb s w)) < 32"
          using lists_inv_prio[OF kinv_atD(6)[OF d(1)], of w] by (simp add: prio_ok_def)
        have cp: "current_priority (tcb s' c) = ?op" using s'(10)[of c] nw(1) s2(6) by auto
        have inv': "mutex_inv n s'" using s'(5,6) dw wp tq[of w] mx2 h(4) by (simp add: mutex_inv_def)
        have "rt_mutex_release n s = Some (0, s')" using rel q2(1) s'(1) by (simp add: mutex_pass_def)
        moreover have "touches (Mutex n) s s'" by (rule touches_trans[OF t2 s'(3)])
        ultimately show ?thesis
          using s'(2,4,5,6,7,8,9) inv' cp Cons True one tq mx2 by (simp add: mutex_abs_def)
      qed
    qed
  qed
qed

lemma mutex_fresh_inv:
  "mutex_inv n (rt_mutex_init n fl s)"
  by (simp add: rt_mutex_init_def mutex_inv_def set_object_def rt_ipc_object_init_def upd_mutex_def mutex_fresh_def)

text \<open>The last release of a mutex nobody waits for, in full.\<close>

lemma mutex_release_unwaited:
  assumes t: "in_task m b c s" and i: "mutex_inv n s" and o: "owner (mutexes s n) = Some c" "hold (mutexes s n) = 1"
    and q: "queues s (Suspended (Mutex n)) = []" and r: "st s c = RT_THREAD_RUNNING"
  shows "\<exists>s'. rt_mutex_release n s = Some (0, s') \<and> current_thread s' = Some c \<and> st s' c = RT_THREAD_RUNNING \<and>
    current_priority (tcb s' c) = original_priority (mutexes s n) \<and> (\<forall>p. queues s' (Ready p) = queues s (Ready p))"
proof -
  have op: "unat (original_priority (mutexes s n)) < 32" "mutex_value (mutexes s n) = 0"
    using i o by (simp_all add: mutex_inv_def)
  let ?s1 = "upd_mutex n (\<lambda>x. x\<lparr>hold := hold x - 1\<rparr>) s"
  obtain s2 where s2: "mutex_restore n c ?s1 = Some s2" "current_thread s2 = Some c" "st s2 c = RT_THREAD_RUNNING"
    "current_priority (tcb s2 c) = original_priority (mutexes s n)" "queues s2 = queues s" "mutexes s2 = mutexes ?s1"
  proof (cases "original_priority (mutexes s n) = current_priority (tcb s c)")
    case True
    then show ?thesis using that[of ?s1] r in_taskD(2)[OF t] by (simp add: mutex_restore_def)
  next
    case False
    then show ?thesis
      using that[of "upd_tcb c (set_priority (original_priority (mutexes s n))) ?s1"] r op in_taskD(2)[OF t]
      by (simp add: mutex_restore_def rt_thread_control_def rt_thread_change_priority_def st_upd_tcb)
        (simp add: st_def set_priority_def)
  qed
  show ?thesis using s2 op q o in_taskD(2,5)[OF t]
    by (simp add: rt_mutex_release_def rt_thread_self_def mutex_pass_def)
qed

section \<open>Properties\<close>

text \<open>
  C8. Taking a mutex, by a thread outside interrupts, never trips an assertion, keeps the ownership
  invariant and implements the abstract mutex on every branch: a free one is owned with depth 1, the
  owner recurses up to depth 255 and then gets -RT_EFULL, others poll to -RT_ETIMEOUT or are queued and
  suspended, after which the owner's priority is at least the caller's.
\<close>

theorem mutex_take_refines:
  assumes "in_task m b c s" "wait_flag_ok (Mutex n) s" "timeout_ok time" "mutex_inv n s"
  shows "\<exists>r s'. rt_mutex_take n time s = Some (r, s') \<and>
    (r, mutex_abs n s') = spec_lock (queue_of (Mutex n) c s) (time = 0) c (mutex_abs n s) \<and>
    (r = None \<longrightarrow> st s' c = RT_THREAD_SUSPEND \<and> error (tcb s' c) = 0 \<and>
       (\<forall>w. owner (mutexes s n) = Some w \<longrightarrow>
          current_priority (tcb s' w) = min (current_priority (tcb s w)) (current_priority (tcb s c)))) \<and>
    mutex_inv n s' \<and> kinv_at m b s' \<and> touches (Mutex n) s s'"
  using mutex_take_contract[OF assms] by blast

theorem mutex_take_refines_witness:
  "\<exists>s'. rt_mutex_take 0 0 (demo (Suspended (Mutex 0)) []) = Some (Some 0, s') \<and> mutex_abs 0 s' = (Some 1, 1, [])"
proof -
  let ?s = "demo (Suspended (Mutex 0)) []"
  have "in_task 0x7ffffffe 100 (Suc 0) ?s" "wait_flag_ok (Mutex 0) ?s" "timeout_ok 0" "mutex_inv 0 ?s"
    by (simp_all add: timeout_ok_def mutex_inv_def)
  from mutex_take_refines[OF this] show ?thesis by (auto simp: mutex_abs_def)
qed

text \<open>
  C17. Releasing a mutex: only the owner may, others get -RT_ERROR; a nested release only decrements the
  depth; the last one frees the mutex or hands it, with depth 1, to the first waiter, which becomes
  runnable. The ownership invariant and the kernel invariant hold after.
\<close>

theorem mutex_release_refines:
  assumes "in_task m b c s" "mutex_inv n s"
  shows "\<exists>r s'. rt_mutex_release n s = Some (r, s') \<and> (r, mutex_abs n s') = spec_unlock c (mutex_abs n s) \<and>
    mutex_inv n s' \<and> kinv_at m b s' \<and> touches (Mutex n) s s'"
  using mutex_release_contract[OF assms] by blast

definition demo_owned :: "tid list \<Rightarrow> ipc_sys" where
  "demo_owned ts = (demo (Suspended (Mutex 0)) ts)\<lparr>mutexes := \<lambda>n.
     \<lparr>mutex_value = 0, original_priority = 12, hold = 1, owner = Some 1\<rparr>\<rparr>"

lemma demo_owned_ok:
  assumes "distinct ts" "0 \<notin> set ts" "1 \<notin> set ts"
  shows "in_task 0x7ffffffe 100 (Suc 0) (demo_owned ts)" "mutex_inv 0 (demo_owned ts)" "wait_flag_ok (Mutex 0) (demo_owned ts)"
  using demo_in_task[of "Suspended (Mutex 0)" "Mutex 0" ts] assms
  by (simp_all add: demo_owned_def in_task_def mutex_inv_def runnable_def st_def wait_flag_ok_def)

theorem mutex_release_refines_witness:
  "\<exists>s'. rt_mutex_release 0 (demo_owned [3, 2]) = Some (0, s') \<and> mutex_abs 0 s' = (Some 3, 1, [2])"
proof -
  have "in_task 0x7ffffffe 100 (Suc 0) (demo_owned [3, 2])" "mutex_inv 0 (demo_owned [3, 2])" by (simp_all add: demo_owned_ok)
  from mutex_release_refines[OF this] show ?thesis by (auto simp: mutex_abs_def demo_owned_def)
qed

text \<open>
  Priority inheritance ends with the last release: the owner's priority is back to what it was when
  it took the mutex; the thread served next has its own priority remembered for its release and, under
  FIFO order, is lifted to the highest priority of the queue it leaves.
\<close>

theorem mutex_release_restores:
  assumes "in_task m b c s" "mutex_inv n s" "owner (mutexes s n) = Some c" "hold (mutexes s n) = 1"
  shows "\<exists>s'. rt_mutex_release n s = Some (0, s') \<and> current_priority (tcb s' c) = original_priority (mutexes s n) \<and>
        (\<forall>v vs. queues s (Suspended (Mutex n)) = v # vs \<longrightarrow> runnable s' v \<and>
           original_priority (mutexes s' n) = current_priority (tcb s v) \<and>
           (ipc_flag s (Mutex n) = RT_IPC_FLAG_FIFO \<longrightarrow>
              (\<forall>u \<in> set (v # vs). current_priority (tcb s' v) \<le> current_priority (tcb s u))))"
proof -
  have "fst (spec_unlock c (mutex_abs n s)) = 0"
    using assms(3,4) by (simp add: mutex_abs_def split: list.split)
  then show ?thesis using mutex_release_contract[OF assms(1,2)] assms(3,4) by (metis fst_conv)
qed

theorem mutex_release_restores_witness:
  "\<exists>s'. rt_mutex_release 0 (demo_owned [3, 2]) = Some (0, s') \<and> current_priority (tcb s' 1) = 12 \<and>
     original_priority (mutexes s' 0) = 8 \<and> current_priority (tcb s' 3) \<le> 7"
proof -
  have h: "in_task 0x7ffffffe 100 (Suc 0) (demo_owned [3, 2])" "mutex_inv 0 (demo_owned [3, 2])" by (simp_all add: demo_owned_ok)
  have o: "owner (mutexes (demo_owned [3, 2]) 0) = Some (Suc 0)" "hold (mutexes (demo_owned [3, 2]) 0) = 1"
    by (simp_all add: demo_owned_def)
  from mutex_release_restores[OF h o] show ?thesis by (auto simp: demo_owned_def demo_tcb)
qed

text \<open>
  The last release of a mutex nobody waits for drops the owner back to its original priority but
  never reschedules: it keeps running even when the ready lists, which are left as they were, hold
  threads that now outrank it.
\<close>

theorem mutex_release_keeps_running:
  assumes "in_task m b c s" "mutex_inv n s" "owner (mutexes s n) = Some c" "hold (mutexes s n) = 1"
    "queues s (Suspended (Mutex n)) = []" "st s c = RT_THREAD_RUNNING"
  shows "\<exists>s'. rt_mutex_release n s = Some (0, s') \<and> current_thread s' = Some c \<and> st s' c = RT_THREAD_RUNNING \<and>
    current_priority (tcb s' c) = original_priority (mutexes s n) \<and> (\<forall>p. queues s' (Ready p) = queues s (Ready p))"
  using mutex_release_unwaited[OF assms] .

theorem mutex_release_keeps_running_witness:
  "\<exists>s'. rt_mutex_release 0 (demo_owned []) = Some (0, s') \<and> current_thread s' = Some 1 \<and> current_priority (tcb s' 1) = 12"
proof -
  have "in_task 0x7ffffffe 100 (Suc 0) (demo_owned [])" "mutex_inv 0 (demo_owned [])" by (simp_all add: demo_owned_ok)
  moreover have "owner (mutexes (demo_owned []) 0) = Some (Suc 0)" "hold (mutexes (demo_owned []) 0) = 1"
    "queues (demo_owned []) (Suspended (Mutex 0)) = []" "st (demo_owned []) (Suc 0) = RT_THREAD_RUNNING"
    by (simp_all add: demo_owned_def st_def)
  ultimately obtain s' where "rt_mutex_release 0 (demo_owned []) = Some (0, s')" "current_thread s' = Some (Suc 0)"
    "current_priority (tcb s' (Suc 0)) = original_priority (mutexes (demo_owned []) 0)"
    using mutex_release_keeps_running[of "0x7ffffffe" 100 "Suc 0" "demo_owned []" 0] by blast
  then show ?thesis by (simp add: demo_owned_def)
qed

end
