(* ===== verification/RT_Event.thy ===== *)
theory RT_Event
  imports RT_Demo
begin

text \<open>
  Event sets of \<open>src/rt-thread/src/ipc.c\<close>: every operation, the invariant that no waiting thread's
  condition holds, and the abstract scan that sending implements.
\<close>

section \<open>Operations\<close>

abbreviation RT_EVENT_FLAG_AND :: u8 where "RT_EVENT_FLAG_AND \<equiv> 1"
abbreviation RT_EVENT_FLAG_OR :: u8 where "RT_EVENT_FLAG_OR \<equiv> 2"
abbreviation RT_EVENT_FLAG_CLEAR :: u8 where "RT_EVENT_FLAG_CLEAR \<equiv> 4"

definition upd_event :: "nat \<Rightarrow> (u32 \<Rightarrow> u32) \<Rightarrow> ipc_sys \<Rightarrow> ipc_sys" where
  "upd_event n f s = s\<lparr>events := (events s)(n := \<lparr>event_bits = f (event_bits (events s n))\<rparr>)\<rparr>"

definition rt_event_init :: "nat \<Rightarrow> u8 \<Rightarrow> ipc_sys \<Rightarrow> ipc_sys" where
  "rt_event_init n fl s =
     upd_event n (\<lambda>_. 0) (rt_ipc_object_init (Suspended (Event n)) (set_object (Event n) True fl s))"

definition rt_event_create :: "nat option \<Rightarrow> u8 \<Rightarrow> ipc_sys \<Rightarrow> (nat option \<times> ipc_sys) option" where
  "rt_event_create obj fl s =
     (if not_in_interrupt s
      then Some (case obj of
                   None \<Rightarrow> (None, s)
                 | Some n \<Rightarrow> (Some n, upd_event n (\<lambda>_. 0)
                               (rt_ipc_object_init (Suspended (Event n)) (set_object (Event n) False fl s))))
      else None)"

definition rt_event_detach :: "nat \<Rightarrow> ipc_sys \<Rightarrow> ipc_sys option" where
  "rt_event_detach n s = (if ipc_static s (Event n) then rt_ipc_list_resume_all (Suspended (Event n)) s else None)"

definition rt_event_delete :: "nat \<Rightarrow> ipc_sys \<Rightarrow> ipc_sys option" where
  "rt_event_delete n s =
     (if \<not> ipc_static s (Event n) \<and> not_in_interrupt s then rt_ipc_list_resume_all (Suspended (Event n)) s else None)"

text \<open>
  The loop of \<open>rt_event_send\<close> over the waiters. It steps to the next node before it resumes a thread, so
  it runs over the list as it was. The result is the code so far, \<open>need_schedule\<close> and the state; a waiter
  with neither flag ends it with \<open>-RT_EINVAL\<close>.
\<close>

definition event_wake :: "nat \<Rightarrow> tid \<Rightarrow> ipc_sys \<Rightarrow> ipc_sys" where
  "event_wake n t s =
     (let s1 = (if event_info (tcb s t) AND RT_EVENT_FLAG_CLEAR \<noteq> 0
                then upd_event n (\<lambda>b. b AND NOT (event_set (tcb s t))) s else s)
      in snd (rt_thread_resume t s1))"

fun event_scan :: "nat \<Rightarrow> tid list \<Rightarrow> bool \<Rightarrow> ipc_sys \<Rightarrow> int \<times> bool \<times> ipc_sys" where
  "event_scan n [] need s = (0, need, s)"
| "event_scan n (t # ts) need s =
     (let th = tcb s t; b = event_bits (events s n) in
      if event_info th AND RT_EVENT_FLAG_AND \<noteq> 0
      then if event_set th AND b = event_set th then event_scan n ts True (event_wake n t s) else event_scan n ts need s
      else if event_info th AND RT_EVENT_FLAG_OR \<noteq> 0
      then if event_set th AND b \<noteq> 0
           then event_scan n ts True (event_wake n t (upd_tcb t (\<lambda>th. th\<lparr>event_set := event_set th AND b\<rparr>) s))
           else event_scan n ts need s
      else (-10, need, s))"

definition rt_event_send :: "nat \<Rightarrow> u32 \<Rightarrow> ipc_sys \<Rightarrow> (int \<times> ipc_sys) option" where
  "rt_event_send n ev s =
     (if ev = 0 then Some (-1, s)
      else let s1 = upd_event n (\<lambda>b. b OR ev) s;
               (r, need_schedule, s2) = event_scan n (queues s1 (Suspended (Event n))) False s1
           in if r \<noteq> 0 then Some (r, s2)
              else if need_schedule then do { s3 \<leftarrow> rt_schedule s2; Some (0, s3) } else Some (0, s2))"

text \<open>
  \<open>rt_event_recv\<close>: the code and what is stored through \<open>recved\<close>, or \<open>None\<close> when the caller waits;
  \<open>event_recv_tail\<close> is the end of the waiting branch.
\<close>

definition event_satisfied :: "u8 \<Rightarrow> u32 \<Rightarrow> u32 \<Rightarrow> bool" where
  "event_satisfied opt ev b =
     (if opt AND RT_EVENT_FLAG_AND \<noteq> 0 then b AND ev = ev else b AND ev \<noteq> 0)"

definition rt_event_recv ::
  "nat \<Rightarrow> u32 \<Rightarrow> u8 \<Rightarrow> 32 word \<Rightarrow> ipc_sys \<Rightarrow> ((int \<times> u32 option) option \<times> ipc_sys) option" where
  "rt_event_recv n ev opt timeout s0 =
     (if \<not> in_thread_context s0 then None
      else if ev = 0 then Some (Some (-1, None), s0)
      else do { t \<leftarrow> rt_thread_self s0;
                let s = upd_tcb t (\<lambda>th. th\<lparr>error := 0\<rparr>) s0;
                let b = event_bits (events s n);
                if opt AND RT_EVENT_FLAG_AND = 0 \<and> opt AND RT_EVENT_FLAG_OR = 0 then None
                else if event_satisfied opt ev b
                then let s1 = upd_tcb t (\<lambda>th. th\<lparr>event_set := b AND ev, event_info := opt\<rparr>) s
                     in Some (Some (0, Some (b AND ev)),
                              if opt AND RT_EVENT_FLAG_CLEAR \<noteq> 0 then upd_event n (\<lambda>b. b AND NOT ev) s1 else s1)
                else if timeout = 0 then Some (Some (-2, None), upd_tcb t (\<lambda>th. th\<lparr>error := -2\<rparr>) s)
                else do { s1 \<leftarrow> wait_on (Suspended (Event n)) t (ipc_flag s (Event n)) timeout
                                  (upd_tcb t (\<lambda>th. th\<lparr>event_set := ev, event_info := opt\<rparr>) s);
                          s2 \<leftarrow> rt_schedule s1;
                          Some (None, s2) } })"

definition event_recv_tail :: "tid \<Rightarrow> ipc_sys \<Rightarrow> int \<times> u32 option" where
  "event_recv_tail t s =
     (if error (tcb s t) \<noteq> 0 then (error (tcb s t), None) else (error (tcb s t), Some (event_set (tcb s t))))"

definition rt_event_control :: "nat \<Rightarrow> bool \<Rightarrow> ipc_sys \<Rightarrow> (int \<times> ipc_sys) option" where
  "rt_event_control n reset s =
     (if reset
      then do { s1 \<leftarrow> rt_ipc_list_resume_all (Suspended (Event n)) s;
                s2 \<leftarrow> rt_schedule (upd_event n (\<lambda>_. 0) s1);
                Some (0, s2) }
      else Some (-1, s))"

section \<open>Frame\<close>

lemma upd_event_obs [simp]:
  "event_bits (events (upd_event n f s) k) = (if k = n then f (event_bits (events s n)) else event_bits (events s k))"
  "queues (upd_event n f s) = queues s" "tcb (upd_event n f s) = tcb s" "current_thread (upd_event n f s) = current_thread s"
  "interrupt_nest (upd_event n f s) = interrupt_nest s" "st (upd_event n f s) = st s"
  "rt_tick (upd_event n f s) = rt_tick s" "ipc_flag (upd_event n f s) = ipc_flag s" "ipc_static (upd_event n f s) = ipc_static s"
  "kinv_at m b (upd_event n f s) = kinv_at m b s" "runnable (upd_event n f s) = runnable s"
  "scheduler_lock_nest (upd_event n f s) = scheduler_lock_nest s"
  by (simp_all add: upd_event_def runnable_def st_def fun_eq_iff)

lemma upd_event_touches [simp]: "touches (Event n) s (upd_event n f s)"
  by (simp add: touches_def upd_event_def)

text \<open>Writing the event fields of a thread that waits on no other object.\<close>

abbreviation set_event :: "tid \<Rightarrow> u32 \<Rightarrow> u8 \<Rightarrow> ipc_sys \<Rightarrow> ipc_sys" where
  "set_event t e i \<equiv> upd_tcb t (\<lambda>th. th\<lparr>event_set := e, event_info := i\<rparr>)"

lemma event_field_kinv: "kinv_at m b s \<Longrightarrow> kinv_at m b (set_event t e i s)"
  by (rule upd_kinv) (simp_all add: st_def)

lemma event_field_touches:
  assumes "\<And>j. j \<noteq> i \<Longrightarrow> t \<notin> set (queues s (Suspended j))"
  shows "touches i s (set_event t e x s)"
proof -
  have "u \<noteq> t" if "j \<noteq> i" "u \<in> set (queues s (Suspended j))" for u j using assms that by blast
  then show ?thesis unfolding touches_def upd_tcb_def by simp
qed

lemma event_wake_eff:
  assumes k: "kinv_at m b s" and q: "t \<in> set (queues s (Suspended (Event n)))"
  shows "kinv_at m b (event_wake n t s)" "touches (Event n) s (event_wake n t s)"
    "current_thread (event_wake n t s) = current_thread s"
    "event_bits (events (event_wake n t s) n) =
       (if event_info (tcb s t) AND RT_EVENT_FLAG_CLEAR \<noteq> 0 then event_bits (events s n) AND NOT (event_set (tcb s t))
        else event_bits (events s n))"
    "queues (event_wake n t s) (Suspended (Event n)) = removeAll t (queues s (Suspended (Event n)))"
    "runnable (event_wake n t s) t"
    "tcb (event_wake n t s) = (tcb s)(t := (tcb s t)\<lparr>stat := stat (tcb (event_wake n t s) t)\<rparr>)"
proof -
  define s1 where "s1 = (if event_info (tcb s t) AND RT_EVENT_FLAG_CLEAR \<noteq> 0
                then upd_event n (\<lambda>b. b AND NOT (event_set (tcb s t))) s else s)"
  have s1: "kinv_at m b s1" "tcb s1 = tcb s" "queues s1 = queues s" "current_thread s1 = current_thread s" "touches (Event n) s s1"
    using k by (simp_all add: s1_def)
  have "st s t = RT_THREAD_SUSPEND" by (rule lists_inv_suspended[OF kinv_atD(6)[OF k] q])
  then have st1: "st s1 t = RT_THREAD_SUSPEND" using st_cong[of s1 t s] s1(2) by simp
  obtain s2 where s2: "rt_thread_resume t s1 = (0, s2)" "kinv_at m b s2" "woken t s1 s2" "kept s1 s2"
    using resume_eff[OF s1(1) st1] by blast
  have e: "event_wake n t s = s2" using s2(1) by (simp add: event_wake_def s1_def)
  have ev: "events s2 = events s1" by (rule more_ipc(5)[OF keptD(5)[OF s2(4)]])
  show "kinv_at m b (event_wake n t s)" unfolding e by (rule s2(2))
  show "touches (Event n) s (event_wake n t s)" unfolding e
    using touches_trans[OF s1(5) woken_touches[OF s1(1) _ s2(3,4)]] q s1(3) by simp
  show "current_thread (event_wake n t s) = current_thread s" unfolding e using keptD(1)[OF s2(4)] s1(4) by simp
  show "event_bits (events (event_wake n t s) n) =
       (if event_info (tcb s t) AND RT_EVENT_FLAG_CLEAR \<noteq> 0 then event_bits (events s n) AND NOT (event_set (tcb s t))
        else event_bits (events s n))" unfolding e ev by (simp add: s1_def)
  show "queues (event_wake n t s) (Suspended (Event n)) = removeAll t (queues s (Suspended (Event n)))"
    unfolding e using s2(3) s1(3) by (simp add: woken_def)
  show "runnable (event_wake n t s) t" unfolding e using s2(3) by (simp add: woken_def)
  show "tcb (event_wake n t s) = (tcb s)(t := (tcb s t)\<lparr>stat := stat (tcb (event_wake n t s) t)\<rparr>)"
    unfolding e by (rule conjunct1[OF conjunct2[OF s2(3)[unfolded woken_def s1(2)]]])
qed

section \<open>The abstract scan\<close>

text \<open>
  A waiter is a thread with its options and the events it asks for. The scan serves, in order, every
  waiter whose condition holds, tells it what it got, and clears what it asked to have cleared before it
  looks at the next one.
\<close>

type_synonym waiter = "tid \<times> u8 \<times> u32"

definition event_got :: "u8 \<Rightarrow> u32 \<Rightarrow> u32 \<Rightarrow> u32" where
  "event_got opt ev b = (if opt AND RT_EVENT_FLAG_AND \<noteq> 0 then ev else ev AND b)"

definition event_left :: "u8 \<Rightarrow> u32 \<Rightarrow> u32 \<Rightarrow> u32" where
  "event_left opt v b = (if opt AND RT_EVENT_FLAG_CLEAR \<noteq> 0 then b AND NOT v else b)"

fun spec_scan :: "u32 \<Rightarrow> waiter list \<Rightarrow> (tid \<times> u32) list \<times> waiter list \<times> u32" where
  "spec_scan b [] = ([], [], b)"
| "spec_scan b ((t, opt, ev) # ws) =
     (if event_satisfied opt ev b
      then let (wk, rest, b') = spec_scan (event_left opt (event_got opt ev b) b) ws in ((t, event_got opt ev b) # wk, rest, b')
      else let (wk, rest, b') = spec_scan b ws in (wk, (t, opt, ev) # rest, b'))"

definition view :: "ipc_sys \<Rightarrow> tid \<Rightarrow> waiter" where
  "view s t = (t, event_info (tcb s t), event_set (tcb s t))"

definition event_waiters :: "nat \<Rightarrow> ipc_sys \<Rightarrow> waiter list" where
  "event_waiters n s = map (view s) (queues s (Suspended (Event n)))"

definition option_ok :: "u8 \<Rightarrow> bool" where
  "option_ok opt \<longleftrightarrow> opt AND RT_EVENT_FLAG_AND \<noteq> 0 \<or> opt AND RT_EVENT_FLAG_OR \<noteq> 0"

lemma view_cong: "(\<And>u. u \<in> set ts \<Longrightarrow> tcb s' u = tcb s u) \<Longrightarrow> map (view s') ts = map (view s) ts"
  by (simp add: view_def)

text \<open>\<open>got t v\<close>: thread \<open>t\<close> has been woken with \<open>v\<close> in its \<open>event_set\<close>.\<close>

definition got :: "ipc_sys \<Rightarrow> ipc_sys \<Rightarrow> tid \<times> u32 \<Rightarrow> bool" where
  "got s s' x \<longleftrightarrow> (case x of (t, v) \<Rightarrow> runnable s' t \<and> event_set (tcb s' t) = v \<and> error (tcb s' t) = error (tcb s t))"

definition scanned :: "nat \<Rightarrow> tid list \<Rightarrow> (tid \<times> u32) list \<Rightarrow> waiter list \<Rightarrow> u32 \<Rightarrow> ipc_sys \<Rightarrow> ipc_sys \<Rightarrow> bool" where
  "scanned n xs wk rest b' s s' \<longleftrightarrow> touches (Event n) s s' \<and> current_thread s' = current_thread s \<and>
     event_bits (events s' n) = b' \<and> queues s' (Suspended (Event n)) = xs @ map fst rest \<and>
     (\<forall>x \<in> set wk. got s s' x) \<and> (\<forall>u. u \<notin> fst ` set wk \<longrightarrow> tcb s' u = tcb s u)"

lemma spec_scan_sub:
  "spec_scan b ws = (wk, rest, b') \<Longrightarrow> fst ` set wk \<subseteq> fst ` set ws \<and> set rest \<subseteq> set ws"
proof (induction b ws arbitrary: wk rest b' rule: spec_scan.induct)
  case (2 b t opt ev ws)
  show ?case
  proof (cases "event_satisfied opt ev b")
    case True
    obtain wk1 rest1 b2 where r: "spec_scan (event_left opt (event_got opt ev b) b) ws = (wk1, rest1, b2)"
      by (rule prod_cases3)
    then have e: "wk = (t, event_got opt ev b) # wk1" "rest = rest1" using 2(3) True by simp_all
    show ?thesis unfolding e using 2(1)[OF True r] by auto
  next
    case False
    obtain wk1 rest1 b2 where r: "spec_scan b ws = (wk1, rest1, b2)" by (rule prod_cases3)
    then have e: "wk = wk1" "rest = (t, opt, ev) # rest1" using 2(3) False by simp_all
    show ?thesis unfolding e using 2(2)[OF False r] by auto
  qed
qed simp

text \<open>One waiter of the loop, served.\<close>

definition event_serve :: "nat \<Rightarrow> tid \<Rightarrow> ipc_sys \<Rightarrow> ipc_sys" where
  "event_serve n t s =
     (let th = tcb s t; b = event_bits (events s n) in
      event_wake n t (if event_info th AND RT_EVENT_FLAG_AND \<noteq> 0 then s
                      else upd_tcb t (\<lambda>th. th\<lparr>event_set := event_set th AND b\<rparr>) s))"

lemma event_scan_Cons:
  assumes "option_ok (event_info (tcb s t))"
  shows "event_scan n (t # ts) need s =
     (if event_satisfied (event_info (tcb s t)) (event_set (tcb s t)) (event_bits (events s n))
      then event_scan n ts True (event_serve n t s) else event_scan n ts need s)"
  using assms by (simp add: option_ok_def event_satisfied_def event_serve_def Let_def and.commute)

lemma event_set_kinv: "kinv_at m b s \<Longrightarrow> kinv_at m b (upd_tcb t (\<lambda>th. th\<lparr>event_set := e (event_set th)\<rparr>) s)"
  by (rule upd_kinv) (simp_all add: st_def)

lemma event_set_touches:
  assumes "\<And>j. j \<noteq> i \<Longrightarrow> t \<notin> set (queues s (Suspended j))"
  shows "touches i s (upd_tcb t (\<lambda>th. th\<lparr>event_set := e (event_set th)\<rparr>) s)"
proof -
  have "u \<noteq> t" if "j \<noteq> i" "u \<in> set (queues s (Suspended j))" for u j using assms that by blast
  then show ?thesis unfolding touches_def upd_tcb_def by simp
qed

lemma event_serve_eff:
  assumes k: "kinv_at m b s" and q: "t \<in> set (queues s (Suspended (Event n)))"
  defines "v \<equiv> event_got (event_info (tcb s t)) (event_set (tcb s t)) (event_bits (events s n))"
  shows "kinv_at m b (event_serve n t s)"
    "scanned n (removeAll t (queues s (Suspended (Event n)))) [(t, v)] []
       (event_left (event_info (tcb s t)) v (event_bits (events s n))) s (event_serve n t s)"
proof -
  define s1 where "s1 = (if event_info (tcb s t) AND RT_EVENT_FLAG_AND \<noteq> 0 then s
     else upd_tcb t (\<lambda>th. th\<lparr>event_set := event_set th AND event_bits (events s n)\<rparr>) s)"
  have t1: "touches (Event n) s s1"
    using event_set_touches[of "Event n" t s "\<lambda>e. e AND event_bits (events s n)"] unique_waiter(1)[OF k q] by (auto simp: s1_def)
  have s1: "kinv_at m b s1" "queues s1 = queues s" "current_thread s1 = current_thread s"
    "event_set (tcb s1 t) = v" "event_info (tcb s1 t) = event_info (tcb s t)" "error (tcb s1 t) = error (tcb s t)"
    "\<And>u. u \<noteq> t \<Longrightarrow> tcb s1 u = tcb s u" "events s1 = events s"
    using k event_set_kinv[OF k, of t "\<lambda>e. e AND event_bits (events s n)"]
    by (simp_all add: s1_def v_def event_got_def upd_tcb_def)
  have e: "event_serve n t s = event_wake n t s1" by (simp add: event_serve_def s1_def)
  note w = event_wake_eff[OF s1(1), of t n, unfolded s1(2), OF q]
  obtain x where x: "tcb (event_wake n t s1) = (tcb s1)(t := (tcb s1 t)\<lparr>stat := x\<rparr>)" using w(7) by blast
  show "kinv_at m b (event_serve n t s)" unfolding e by (rule w(1))
  show "scanned n (removeAll t (queues s (Suspended (Event n)))) [(t, v)] []
       (event_left (event_info (tcb s t)) v (event_bits (events s n))) s (event_serve n t s)"
    unfolding e scanned_def
    using touches_trans[OF t1 w(2)] w(3,4,5,6) s1 by (simp add: x got_def event_left_def)
qed

lemma event_scan_contract:
  assumes "kinv_at m b s" "queues s (Suspended (Event n)) = xs @ ts" "\<forall>t \<in> set ts. option_ok (event_info (tcb s t))"
    "spec_scan (event_bits (events s n)) (map (view s) ts) = (wk, rest, b')"
  shows "\<exists>s'. event_scan n ts need s = (0, need \<or> wk \<noteq> [], s') \<and> kinv_at m b s' \<and> scanned n xs wk rest b' s s'"
  using assms
proof (induction ts arbitrary: s xs need wk rest b')
  case Nil
  then show ?case by (simp add: scanned_def)
next
  case (Cons t ts)
  let ?l = "Suspended (Event n)" and ?opt = "event_info (tcb s t)" and ?ev = "event_set (tcb s t)" and ?b = "event_bits (events s n)"
  have tq: "t \<in> set (queues s ?l)" using Cons.prems(2) by simp
  have d: "distinct (xs @ t # ts)" using lists_inv_distinct[OF kinv_atD(6)[OF Cons.prems(1)], of ?l] Cons.prems(2) by simp
  have ok: "option_ok ?opt" using Cons.prems(3) by simp
  have vt: "view s t = (t, ?opt, ?ev)" by (simp add: view_def)
  show ?case
  proof (cases "event_satisfied ?opt ?ev ?b")
    case True
    let ?v = "event_got ?opt ?ev ?b" and ?s1 = "event_serve n t s"
    note e = event_serve_eff[OF Cons.prems(1) tq]
    have tcb1: "tcb ?s1 u = tcb s u" if "u \<noteq> t" for u using e(2) that by (simp add: scanned_def)
    have q1: "queues ?s1 ?l = xs @ ts" "event_bits (events ?s1 n) = event_left ?opt ?v ?b"
      using e(2) d Cons.prems(2) by (simp_all add: scanned_def)
    have tcbs: "tcb ?s1 u = tcb s u" if "u \<in> set ts" for u by (rule tcb1) (use d that in auto)
    have vw: "map (view ?s1) ts = map (view s) ts" by (rule view_cong, rule tcbs)
    obtain wk1 rest1 b1 where r: "spec_scan (event_left ?opt ?v ?b) (map (view s) ts) = (wk1, rest1, b1)" by (rule prod_cases3)
    have w: "wk = (t, ?v) # wk1" "rest = rest1" "b' = b1" using Cons.prems(4) True r by (simp_all add: vt)
    have ok1: "\<forall>u \<in> set ts. option_ok (event_info (tcb ?s1 u))" using Cons.prems(3) tcbs by simp
    obtain s' where s': "event_scan n ts True ?s1 = (0, True, s')" "kinv_at m b s'" "scanned n xs wk1 rest1 b1 ?s1 s'"
      using Cons.IH[OF e(1) q1(1) ok1, unfolded vw q1(2), OF r, of True] by auto
    have res: "event_scan n (t # ts) need s = (0, need \<or> wk \<noteq> [], s')"
      unfolding event_scan_Cons[OF ok] using True s'(1) w(1) by simp
    have sub: "fst ` set wk1 \<subseteq> set ts" using conjunct1[OF spec_scan_sub[OF r]] by (force simp: view_def)
    have "t \<notin> fst ` set wk1" using sub d by auto
    then have tk: "tcb s' t = tcb ?s1 t" using s'(3) by (simp add: scanned_def)
    have "got s s' (t, ?v)" using e(2) tk by (simp add: scanned_def got_def runnable_def st_def)
    moreover have "got s s' x" if x: "x \<in> set wk1" for x
    proof -
      have "fst x \<in> set ts" using x sub by blast
      then have "tcb ?s1 (fst x) = tcb s (fst x)" by (rule tcbs)
      moreover have "got ?s1 s' x" using s'(3) x by (simp add: scanned_def)
      ultimately show ?thesis by (simp add: got_def split: prod.splits)
    qed
    moreover have "tcb s' u = tcb s u" if "u \<notin> fst ` set wk" for u
      using s'(3) that tcb1[of u] by (simp add: scanned_def w)
    moreover have "touches (Event n) s s'" using touches_trans[of "Event n" s ?s1 s'] e(2) s'(3) by (simp add: scanned_def)
    ultimately have "scanned n xs wk rest b' s s'" using e(2) s'(3) by (simp add: scanned_def w)
    then show ?thesis using res s'(2) by blast
  next
    case False
    obtain wk1 rest1 b1 where r: "spec_scan ?b (map (view s) ts) = (wk1, rest1, b1)" by (rule prod_cases3)
    have w: "wk = wk1" "rest = view s t # rest1" "b' = b1" using Cons.prems(4) False r by (simp_all add: vt)
    obtain s' where s': "event_scan n ts need s = (0, need \<or> wk1 \<noteq> [], s')" "kinv_at m b s'" "scanned n (xs @ [t]) wk1 rest1 b1 s s'"
      using Cons.IH[of s "xs @ [t]", OF Cons.prems(1) _ _ r] Cons.prems(2,3) by auto
    have "event_scan n (t # ts) need s = (0, need \<or> wk \<noteq> [], s')"
      unfolding event_scan_Cons[OF ok] using False s'(1) w(1) by simp
    moreover have "scanned n xs wk rest b' s s'" using s'(3) by (simp add: scanned_def w view_def)
    ultimately show ?thesis using s'(2) by blast
  qed
qed

section \<open>No waiter's condition holds\<close>

definition event_inv :: "nat \<Rightarrow> ipc_sys \<Rightarrow> bool" where
  "event_inv n s \<longleftrightarrow> (\<forall>(t, opt, ev) \<in> set (event_waiters n s).
     option_ok opt \<and> \<not> event_satisfied opt ev (event_bits (events s n)))"

definition below :: "u32 \<Rightarrow> u32 \<Rightarrow> bool" where
  "below b' b \<longleftrightarrow> (\<forall>i. bit b' i \<longrightarrow> bit b i)"

lemma below_left: "below b' (event_left opt v b) \<Longrightarrow> below b' b"
  by (auto simp: below_def event_left_def bit_simps split: if_splits)

lemma satisfied_below: "event_satisfied opt ev b' \<Longrightarrow> below b' b \<Longrightarrow> event_satisfied opt ev b"
  unfolding event_satisfied_def below_def by (auto simp: bit_eq_iff bit_simps split: if_splits)

lemma spec_scan_unsatisfied:
  "spec_scan b ws = (wk, rest, b') \<Longrightarrow> below b' b \<and> (\<forall>(t, opt, ev) \<in> set rest. \<not> event_satisfied opt ev b')"
proof (induction b ws arbitrary: wk rest b' rule: spec_scan.induct)
  case (2 b t opt ev ws)
  show ?case
  proof (cases "event_satisfied opt ev b")
    case True
    obtain wk1 rest1 b2 where r: "spec_scan (event_left opt (event_got opt ev b) b) ws = (wk1, rest1, b2)"
      by (rule prod_cases3)
    then have e: "rest = rest1" "b' = b2" using 2(3) True by simp_all
    show ?thesis unfolding e using 2(1)[OF True r] below_left by blast
  next
    case False
    obtain wk1 rest1 b2 where r: "spec_scan b ws = (wk1, rest1, b2)" by (rule prod_cases3)
    then have e: "rest = (t, opt, ev) # rest1" "b' = b2" using 2(3) False by simp_all
    show ?thesis unfolding e using 2(2)[OF False r] False satisfied_below by auto
  qed
qed (simp add: below_def)

lemma spec_scan_disjoint:
  "spec_scan b ws = (wk, rest, b') \<Longrightarrow> distinct (map fst ws) \<Longrightarrow> fst ` set wk \<inter> fst ` set rest = {}"
proof (induction b ws arbitrary: wk rest b' rule: spec_scan.induct)
  case (2 b t opt ev ws)
  show ?case
  proof (cases "event_satisfied opt ev b")
    case True
    obtain wk1 rest1 b2 where r: "spec_scan (event_left opt (event_got opt ev b) b) ws = (wk1, rest1, b2)"
      by (rule prod_cases3)
    then have e: "wk = (t, event_got opt ev b) # wk1" "rest = rest1" using 2(3) True by simp_all
    show ?thesis unfolding e using 2(1)[OF True r] 2(4) spec_scan_sub[OF r] by auto
  next
    case False
    obtain wk1 rest1 b2 where r: "spec_scan b ws = (wk1, rest1, b2)" by (rule prod_cases3)
    then have e: "wk = wk1" "rest = (t, opt, ev) # rest1" using 2(3) False by simp_all
    show ?thesis unfolding e using 2(2)[OF False r] 2(4) spec_scan_sub[OF r] by auto
  qed
qed simp

lemma event_waiters_keep:
  assumes "queues s' (Suspended (Event n)) = queues s (Suspended (Event n))"
    "\<And>t. t \<in> set (queues s (Suspended (Event n))) \<Longrightarrow>
       event_set (tcb s' t) = event_set (tcb s t) \<and> event_info (tcb s' t) = event_info (tcb s t)"
  shows "event_waiters n s' = event_waiters n s"
  using assms by (simp add: event_waiters_def view_def)

lemma event_inv_other: "touches i s s' \<Longrightarrow> i \<noteq> Event n \<Longrightarrow> event_inv n s \<Longrightarrow> event_inv n s'"
  using event_waiters_keep[of s' n s] touchesD(1,10)[of i s s' "Event n"] touchesD(7)[of i s s' n]
  by (simp add: event_inv_def)

lemma event_inv_below:
  assumes "event_inv n s" "event_waiters n s' = event_waiters n s" "below (event_bits (events s' n)) (event_bits (events s n))"
  shows "event_inv n s'"
  using assms satisfied_below by (auto simp: event_inv_def)

lemma event_send_contract:
  assumes k: "kinv_at m b s" and c: "current_thread s \<noteq> None" and i: "event_inv n s" and e: "ev \<noteq> 0"
    and sp: "spec_scan (event_bits (events s n) OR ev) (event_waiters n s) = (wk, rest, b')"
  shows "\<exists>s'. rt_event_send n ev s = Some (0, s') \<and> kinv_at m b s' \<and> touches (Event n) s s' \<and> current_thread s' \<noteq> None \<and>
    event_bits (events s' n) = b' \<and> event_waiters n s' = rest \<and> (\<forall>x \<in> set wk. got s s' x) \<and> event_inv n s'"
proof -
  let ?l = "Suspended (Event n)" and ?s1 = "upd_event n (\<lambda>b. b OR ev) s"
  have opts: "\<forall>t \<in> set (queues ?s1 ?l). option_ok (event_info (tcb ?s1 t))"
    using i by (auto simp: event_inv_def event_waiters_def view_def)
  have vw: "map (view ?s1) (queues ?s1 ?l) = event_waiters n s" by (simp add: event_waiters_def view_def)
  have b1: "event_bits (events ?s1 n) = event_bits (events s n) OR ev" by simp
  have k1: "kinv_at m b ?s1" using k by simp
  obtain s2 where s2: "event_scan n (queues ?s1 ?l) False ?s1 = (0, wk \<noteq> [], s2)" "kinv_at m b s2" "scanned n [] wk rest b' ?s1 s2"
    using event_scan_contract[OF k1, of n "[]" "queues ?s1 ?l" wk rest b' False] opts sp unfolding vw b1 by auto
  have c2: "current_thread s2 \<noteq> None" using s2(3) c by (simp add: scanned_def)
  obtain s' where s': "(if wk \<noteq> [] then rt_schedule s2 else Some s2) = Some s'" "kinv_at m b s'" "current_thread s' \<noteq> None"
    "scheduled s2 s'"
  proof (cases "wk = []")
    case True
    have "scheduled s2 s2" by (simp add: scheduled_def)
    then show ?thesis using that[of s2] True s2(2) c2 by simp
  next
    case False
    then show ?thesis using that schedule_eff[OF s2(2) c2] by auto
  qed
  have res: "rt_event_send n ev s = Some (0, s')" using s2(1) s'(1) e unfolding rt_event_send_def Let_def by (auto split: if_splits)
  have tch: "touches (Event n) s s'"
    using touches_trans[OF upd_event_touches touches_trans[OF conjunct1[OF s2(3)[unfolded scanned_def]] scheduled_touches[OF s'(4)]]] .
  have fld: "error (tcb s' u) = error (tcb s2 u)" "event_set (tcb s' u) = event_set (tcb s2 u)" "event_info (tcb s' u) = event_info (tcb s2 u)" for u
    using stat_fields[OF scheduledD(3)[OF s'(4), of u]] by simp_all
  have ev2: "event_bits (events s' n) = b'" using more_ipc(5)[OF scheduledD(7)[OF s'(4)]] s2(3) by (simp add: scanned_def)
  have gt: "got s s' x" if x: "x \<in> set wk" for x
  proof -
    have "got ?s1 s2 x" using s2(3) x by (simp add: scanned_def)
    then show ?thesis using scheduledD(2)[OF s'(4)] fld by (simp add: got_def split: prod.splits)
  qed
  have dist: "distinct (map fst (event_waiters n s))"
    using lists_inv_distinct[OF kinv_atD(6)[OF k], of ?l] by (simp add: event_waiters_def comp_def view_def)
  have "view s' (fst x) = x" if x: "x \<in> set rest" for x
  proof -
    have "fst x \<notin> fst ` set wk" using spec_scan_disjoint[OF sp dist] x by auto
    then have "view s' (fst x) = view s (fst x)" using s2(3) fld by (simp add: scanned_def view_def)
    moreover have "x \<in> set (event_waiters n s)" using spec_scan_sub[OF sp] x by blast
    then have "view s (fst x) = x" by (auto simp: event_waiters_def view_def)
    ultimately show ?thesis by simp
  qed
  then have "map (view s') (map fst rest) = rest" by (simp add: map_idI)
  moreover have "queues s' ?l = map fst rest" using scheduledD(1)[OF s'(4), of ?l] s2(3) by (simp add: scanned_def)
  ultimately have w: "event_waiters n s' = rest" by (simp add: event_waiters_def)
  have "option_ok opt' \<and> \<not> event_satisfied opt' ev' b'" if x: "(t, opt', ev') \<in> set rest" for t opt' ev'
  proof -
    have "(t, opt', ev') \<in> set (event_waiters n s)" using spec_scan_sub[OF sp] x by blast
    then show ?thesis using i spec_scan_unsatisfied[OF sp] x by (auto simp: event_inv_def)
  qed
  then have "event_inv n s'" unfolding event_inv_def w ev2 by blast
  then show ?thesis using res s'(2,3) tch ev2 w gt by blast
qed

lemma event_recv_contract:
  assumes t: "in_task m b c s" and f: "wait_flag_ok (Event n) s" and v: "timeout_ok timeout" and i: "event_inv n s"
    and e: "ev \<noteq> 0" and o: "option_ok opt"
  defines "bits \<equiv> event_bits (events s n)"
  shows "\<exists>r s'. rt_event_recv n ev opt timeout s = Some (r, s') \<and> kinv_at m b s' \<and> touches (Event n) s s' \<and>
    current_thread s' \<noteq> None \<and> event_inv n s' \<and>
    (if event_satisfied opt ev bits
     then r = Some (0, Some (bits AND ev)) \<and> event_bits (events s' n) = event_left opt ev bits \<and>
       event_waiters n s' = event_waiters n s
     else event_bits (events s' n) = bits \<and>
       (if timeout = 0 then r = Some (-2, None) \<and> event_waiters n s' = event_waiters n s
        else r = None \<and> st s' c = RT_THREAD_SUSPEND \<and> error (tcb s' c) = 0 \<and> view s' c = (c, opt, ev) \<and>
          queues s' (Suspended (Event n)) = queue_of (Event n) c s (queues s (Suspended (Event n)))))"
proof -
  let ?l = "Suspended (Event n)" and ?s = "upd_tcb c (\<lambda>th. th\<lparr>error := 0\<rparr>) s"
  note d = in_taskD[OF t]
  have free: "c \<notin> set (queues s (Suspended j))" for j by (rule runnable_unlinked[OF d(1,3)])
  have t': "in_task m b c ?s" using t by simp
  have ops: "\<not> (opt AND RT_EVENT_FLAG_AND = 0 \<and> opt AND RT_EVENT_FLAG_OR = 0)" using o by (auto simp: option_ok_def)
  have keep: "event_waiters n s' = event_waiters n s" if "queues s' ?l = queues s ?l" "\<And>u. u \<noteq> c \<Longrightarrow> tcb s' u = tcb s u" for s'
  proof -
    have "u \<noteq> c" if "u \<in> set (queues s ?l)" for u using free that by blast
    then show ?thesis using event_waiters_keep[of s' n s] that by simp
  qed
  show ?thesis
  proof (cases "event_satisfied opt ev bits")
    case True
    let ?s1 = "set_event c (bits AND ev) opt ?s"
    let ?s' = "if opt AND RT_EVENT_FLAG_CLEAR \<noteq> 0 then upd_event n (\<lambda>b. b AND NOT ev) ?s1 else ?s1"
    have k1: "kinv_at m b ?s1" by (rule event_field_kinv[OF in_taskD(1)[OF t']])
    have "touches (Event n) ?s ?s1" by (rule event_field_touches) (simp add: free)
    then have t1: "touches (Event n) s ?s1" by (rule touches_trans[OF error_touches])
    then have t2: "touches (Event n) s ?s'" using touches_trans[OF t1 upd_event_touches] by simp
    have ev1: "events ?s1 = events s" by (simp add: upd_tcb_def)
    have b': "event_bits (events ?s' n) = event_left opt ev bits" by (simp add: event_left_def bits_def ev1)
    have w: "event_waiters n ?s' = event_waiters n s" by (rule keep) simp_all
    have "below (event_left opt ev bits) bits" by (auto simp: below_def event_left_def bit_simps)
    then have "below (event_bits (events ?s' n)) (event_bits (events s n))" unfolding b' by (simp add: bits_def)
    then have inv: "event_inv n ?s'" by (rule event_inv_below[OF i w])
    have "rt_event_recv n ev opt timeout s = Some (Some (0, Some (bits AND ev)), ?s')"
      using e d ops True by (simp add: rt_event_recv_def rt_thread_self_def Let_def bits_def)
    then show ?thesis using True k1 t2 b' w inv d(2) by auto
  next
    case unsat: False
    show ?thesis
    proof (cases "timeout = 0")
      case True
      let ?s' = "upd_tcb c (\<lambda>th. th\<lparr>error := -2\<rparr>) ?s"
      have it: "in_task m b c ?s'" using t' by simp
      have tch: "touches (Event n) s ?s'" by (rule touches_trans[OF error_touches error_touches])
      have w: "event_waiters n ?s' = event_waiters n s" by (rule keep) simp_all
      have b': "event_bits (events ?s' n) = bits" by (simp add: upd_tcb_def bits_def)
      have inv: "event_inv n ?s'" by (rule event_inv_below[OF i w]) (simp add: below_def)
      have "rt_event_recv n ev opt timeout s = Some (Some (-2, None), ?s')"
        using e d ops unsat True by (simp add: rt_event_recv_def rt_thread_self_def Let_def bits_def)
      then show ?thesis using unsat True in_taskD(1,7)[OF it] tch b' w inv by auto
    next
      case time: False
      let ?s1 = "set_event c ev opt ?s"
      have k1: "kinv_at m b ?s1" by (rule event_field_kinv[OF in_taskD(1)[OF t']])
      have "touches (Event n) ?s ?s1" by (rule event_field_touches) (simp add: free)
      then have t1: "touches (Event n) s ?s1" by (rule touches_trans[OF error_touches])
      have r1: "runnable ?s1 c" using d(3) by (simp add: runnable_def st_def)
      have fl: "ipc_flag ?s1 = ipc_flag s" "events ?s1 = events s" by (simp_all add: upd_tcb_def)
      have c1: "current_thread ?s1 \<noteq> None" using d(2) by simp
      obtain s2 s' where s': "wait_on ?l c (ipc_flag s (Event n)) timeout ?s1 = Some s2" "rt_schedule s2 = Some s'"
        "kinv_at m b s'" "current_thread s' \<noteq> None" "blocked ?l (ipc_flag s (Event n)) c ?s1 s'"
        using block_eff[OF k1 c1 r1, of "ipc_flag s (Event n)" ?l "Event n" timeout] f v
        unfolding wait_flag_ok_def timeout_ok_def by blast
      have res: "rt_event_recv n ev opt timeout s = Some (None, s')"
        using e d ops unsat time s'(1,2) by (simp add: rt_event_recv_def rt_thread_self_def Let_def bits_def)
      have tch: "touches (Event n) s s'" using touches_trans[OF t1 blocked_touches[OF s'(5)]] by simp
      have b': "event_bits (events s' n) = bits" using more_ipc(5)[OF blockedD(7)[OF s'(5)]] fl by (simp add: bits_def)
      have "(\<lambda>u. current_priority (tcb ?s1 u)) = (\<lambda>u. current_priority (tcb s u))" by (auto simp: fun_eq_iff)
      then have q: "queues s' ?l = queue_of (Event n) c s (queues s ?l)" using blockedD(2)[OF s'(5)] by (simp add: queue_of_def)
      have vs: "view s' u = view ?s1 u" for u using stat_fields[OF blockedD(4)[OF s'(5), of u]] by (simp add: view_def)
      have vc: "view s' c = (c, opt, ev)" unfolding vs by (simp add: view_def)
      have vo: "view s' u = view s u" if "u \<noteq> c" for u unfolding vs using that by (simp add: view_def)
      have inv: "event_inv n s'"
      proof -
        have "x \<in> set (event_waiters n s)" if "x \<in> set (event_waiters n s')" "x \<noteq> (c, opt, ev)" for x
          using that vc vo unfolding event_waiters_def q queue_of_def by fastforce
        then show ?thesis using i o unsat unfolding event_inv_def b' bits_def by fast
      qed
      have "error (tcb s' c) = 0" using stat_fields(1)[OF blockedD(4)[OF s'(5), of c]] by simp
      then show ?thesis using res s'(3,4) tch b' q vc inv blockedD(1)[OF s'(5)] unsat time by auto
    qed
  qed
qed

lemma event_init_inv: "event_inv n (rt_event_init n fl s)"
  by (simp add: rt_event_init_def event_inv_def event_waiters_def rt_ipc_object_init_def upd_event_def)

section \<open>Properties\<close>

text \<open>
  C18. Sending events, from a thread or an interrupt, serves the waiters exactly as the abstract scan
  does: in queue order, each whose AND or OR condition holds in the remaining bits becomes runnable,
  reads the events it was served on return, and consumes them if it asked to; the others stay queued with
  a condition that does not hold. The kernel invariant is kept and no other object is touched.
\<close>

theorem event_send_refines:
  assumes "kinv_at m b s" "current_thread s \<noteq> None" "event_inv n s" "ev \<noteq> 0"
    "spec_scan (event_bits (events s n) OR ev) (event_waiters n s) = (wk, rest, b')"
  shows "\<exists>s'. rt_event_send n ev s = Some (0, s') \<and> event_bits (events s' n) = b' \<and> event_waiters n s' = rest \<and>
    (\<forall>(t, v) \<in> set wk. runnable s' t \<and> (error (tcb s t) = 0 \<longrightarrow> event_recv_tail t s' = (0, Some v))) \<and>
    event_inv n s' \<and> kinv_at m b s' \<and> touches (Event n) s s'"
proof -
  obtain s' where "rt_event_send n ev s = Some (0, s')" "kinv_at m b s'" "touches (Event n) s s'"
    "event_bits (events s' n) = b'" "event_waiters n s' = rest" "\<forall>x \<in> set wk. got s s' x" "event_inv n s'"
    using event_send_contract[OF assms] by blast
  then show ?thesis by (fastforce simp: got_def event_recv_tail_def)
qed

definition demo_events :: ipc_sys where
  "demo_events = set_event 3 6 2 (set_event 2 5 5 (demo (Suspended (Event 0)) [2, 3]))"

lemma demo_events_ok:
  "kinv_at 0x7ffffffe 100 demo_events" "current_thread demo_events \<noteq> None" "event_inv 0 demo_events"
  "event_waiters 0 demo_events = [(2, 5, 5), (3, 2, 6)]" "event_bits (events demo_events 0) = 0"
  "error (tcb demo_events 2) = 0"
  using event_field_kinv[OF event_field_kinv[OF demo_kinv[of "Suspended (Event 0)" "Event 0" "[2, 3]"]], of 3 2 6 2 5 5]
  by (simp_all add: demo_events_def event_inv_def event_waiters_def view_def option_ok_def event_satisfied_def demo_tcb)

theorem event_send_refines_witness:
  "\<exists>s'. rt_event_send 0 7 demo_events = Some (0, s') \<and> event_bits (events s' 0) = 2 \<and> event_waiters 0 s' = [] \<and>
     event_recv_tail 2 s' = (0, Some 5)"
proof -
  have "spec_scan (event_bits (events demo_events 0) OR 7) (event_waiters 0 demo_events) = ([(2, 5), (3, 2)], [], 2)"
    by (simp add: demo_events_ok(4,5) event_satisfied_def event_got_def event_left_def)
  from event_send_refines[OF demo_events_ok(1-3) _ this] show ?thesis by (auto simp: demo_events_ok(6))
qed

text \<open>
  C19. Receiving events: a satisfied condition returns the matching bits at once and clears the requested
  ones when asked to; otherwise a poll returns -RT_ETIMEOUT and a waiting call is queued with its
  request recorded, and no waiter's condition ever holds after it returns.
\<close>

theorem event_recv_refines:
  assumes "in_task m b c s" "wait_flag_ok (Event n) s" "timeout_ok timeout" "event_inv n s" "ev \<noteq> 0" "option_ok opt"
  shows "\<exists>r s'. rt_event_recv n ev opt timeout s = Some (r, s') \<and>
    (if event_satisfied opt ev (event_bits (events s n))
     then r = Some (0, Some (event_bits (events s n) AND ev)) \<and> event_waiters n s' = event_waiters n s \<and>
       event_bits (events s' n) = event_left opt ev (event_bits (events s n))
     else event_bits (events s' n) = event_bits (events s n) \<and>
       (if timeout = 0 then r = Some (-2, None) \<and> event_waiters n s' = event_waiters n s
        else r = None \<and> st s' c = RT_THREAD_SUSPEND \<and> view s' c = (c, opt, ev) \<and>
          queues s' (Suspended (Event n)) = queue_of (Event n) c s (queues s (Suspended (Event n))))) \<and>
    event_inv n s' \<and> kinv_at m b s' \<and> touches (Event n) s s'"
  using event_recv_contract[OF assms] by (auto split: if_splits)

theorem event_recv_refines_witness:
  "\<exists>s'. rt_event_recv 0 6 2 10 (demo (Suspended (Event 0)) []) = Some (None, s') \<and> view s' 1 = (1, 2, 6) \<and>
     queues s' (Suspended (Event 0)) = [1]"
proof -
  let ?s = "demo (Suspended (Event 0)) []"
  have "in_task 0x7ffffffe 100 (Suc 0) ?s" "wait_flag_ok (Event 0) ?s" "timeout_ok 10" "event_inv 0 ?s" "(6::u32) \<noteq> 0" "option_ok 2"
    by (simp_all add: timeout_ok_def HALF_def event_inv_def event_waiters_def option_ok_def)
  from event_recv_refines[OF this] show ?thesis
    by (auto simp: event_satisfied_def queue_of_def enqueue_def)
qed

end
