(* ===== verification/RT_Mailbox.thy ===== *)
theory RT_Mailbox
  imports RT_Demo RT_Fifo
begin

text \<open>
  Mailboxes of \<open>src/rt-thread/src/ipc.c\<close>: the ring of one-word mails and every operation on it, blocking
  senders and receivers included. The ring interprets the bounded queue contract of \<open>RT_Fifo\<close>.
\<close>

section \<open>The ring\<close>

text \<open>Storing at the input side, in front of the output side, and fetching; a store outside the pool is \<open>None\<close>.\<close>

definition mb_push :: "u64 \<Rightarrow> rt_mailbox \<Rightarrow> (int \<times> rt_mailbox) option" where
  "mb_push v mb =
     do { pool \<leftarrow> write_at (mb_pool mb) (unat (in_offset mb)) v;
          let i = in_offset mb + 1;
          let mb1 = mb\<lparr>mb_pool := pool, in_offset := (if i \<ge> mb_size mb then 0 else i)\<rparr>;
          Some (if mb_entry mb1 < 0xffff then (0, mb1\<lparr>mb_entry := mb_entry mb1 + 1\<rparr>) else (-3, mb1)) }"

definition mb_push_front :: "u64 \<Rightarrow> rt_mailbox \<Rightarrow> rt_mailbox option" where
  "mb_push_front v mb =
     (let out = (if out_offset mb > 0 then out_offset mb - 1 else mb_size mb - 1) in
      do { pool \<leftarrow> write_at (mb_pool mb) (unat out) v;
           Some (mb\<lparr>mb_pool := pool, out_offset := out, mb_entry := mb_entry mb + 1\<rparr>) })"

definition mb_pop :: "rt_mailbox \<Rightarrow> (u64 \<times> rt_mailbox) option" where
  "mb_pop mb =
     do { v \<leftarrow> read_at (mb_pool mb) (unat (out_offset mb));
          let out = out_offset mb + 1;
          Some (v, mb\<lparr>out_offset := (if out \<ge> mb_size mb then 0 else out),
                      mb_entry := (if mb_entry mb > 0 then mb_entry mb - 1 else mb_entry mb)\<rparr>) }"

section \<open>Operations\<close>

definition upd_mb :: "nat \<Rightarrow> rt_mailbox \<Rightarrow> ipc_sys \<Rightarrow> ipc_sys" where
  "upd_mb n mb s = s\<lparr>mailboxes := (mailboxes s)(n := mb)\<rparr>"

definition mb_fresh :: "u64 list \<Rightarrow> u16 \<Rightarrow> rt_mailbox" where
  "mb_fresh pool size' = \<lparr>mb_pool = pool, mb_size = size', mb_entry = 0, in_offset = 0, out_offset = 0\<rparr>"

text \<open>\<open>rt_mb_init\<close> cuts the size to 16 bits; the pool is the memory the caller passes.\<close>

definition rt_mb_init :: "nat \<Rightarrow> u64 list \<Rightarrow> rt_size_t \<Rightarrow> u8 \<Rightarrow> ipc_sys \<Rightarrow> ipc_sys" where
  "rt_mb_init n pool size' fl s =
     rt_ipc_object_init (Senders (Mailbox n)) (upd_mb n (mb_fresh pool (ucast size'))
       (rt_ipc_object_init (Suspended (Mailbox n)) (set_object (Mailbox n) True fl s)))"

text \<open>\<open>rt_mb_create\<close>, given what the object and the pool allocation return.\<close>

definition rt_mb_create ::
  "nat option \<Rightarrow> u64 list option \<Rightarrow> rt_size_t \<Rightarrow> u8 \<Rightarrow> ipc_sys \<Rightarrow> (nat option \<times> ipc_sys) option" where
  "rt_mb_create obj pool size' fl s =
     (if not_in_interrupt s
      then Some (case (obj, pool) of
                   (Some n, Some p) \<Rightarrow>
                     (Some n, rt_ipc_object_init (Senders (Mailbox n)) (upd_mb n (mb_fresh p (ucast size'))
                       (rt_ipc_object_init (Suspended (Mailbox n)) (set_object (Mailbox n) False fl s))))
                 | (_, _) \<Rightarrow> (None, s))
      else None)"

definition rt_mb_detach :: "nat \<Rightarrow> ipc_sys \<Rightarrow> ipc_sys option" where
  "rt_mb_detach n s = (if ipc_static s (Mailbox n) then resume_both (Mailbox n) s else None)"

definition rt_mb_delete :: "nat \<Rightarrow> ipc_sys \<Rightarrow> ipc_sys option" where
  "rt_mb_delete n s = (if not_in_interrupt s \<and> \<not> ipc_static s (Mailbox n) then resume_both (Mailbox n) s else None)"

text \<open>
  \<open>rt_mb_send_wait\<close>: \<open>mb_send_loop\<close> is one evaluation of its waiting loop and what follows it. A waiting
  call is resumed by \<open>mb_send_resumed\<close>, with the timeout and the tick it had when it blocked.
\<close>

definition mb_deliver :: "nat \<Rightarrow> u64 \<Rightarrow> ipc_sys \<Rightarrow> (int option \<times> ipc_sys) option" where
  "mb_deliver n v s =
     do { (r, mb) \<leftarrow> mb_push v (mailboxes s n);
          let s1 = upd_mb n mb s;
          if r \<noteq> 0 then Some (Some r, s1)
          else do { s2 \<leftarrow> wake_first (Suspended (Mailbox n)) s1; Some (Some 0, s2) } }"

definition mb_send_loop :: "nat \<Rightarrow> u64 \<Rightarrow> 32 word \<Rightarrow> tid option \<Rightarrow> ipc_sys \<Rightarrow> (int option \<times> ipc_sys) option" where
  "mb_send_loop n v timeout thread s =
     (if mb_entry (mailboxes s n) = mb_size (mailboxes s n)
      then do { t \<leftarrow> thread;
                let s1 = upd_tcb t (\<lambda>th. th\<lparr>error := 0\<rparr>) s;
                if timeout = 0 then Some (Some (-3), s1)
                else if \<not> in_thread_context s1 then None
                else do { s2 \<leftarrow> wait_on (Senders (Mailbox n)) t (ipc_flag s1 (Mailbox n)) timeout s1;
                          s3 \<leftarrow> rt_schedule s2;
                          Some (None, s3) } }
      else mb_deliver n v s)"

definition rt_mb_send_wait :: "nat \<Rightarrow> u64 \<Rightarrow> 32 word \<Rightarrow> ipc_sys \<Rightarrow> (int option \<times> ipc_sys) option" where
  "rt_mb_send_wait n v timeout s =
     (if mb_entry (mailboxes s n) = mb_size (mailboxes s n) \<and> timeout = 0 then Some (Some (-3), s)
      else mb_send_loop n v timeout (rt_thread_self s) s)"

definition mb_send_resumed ::
  "nat \<Rightarrow> u64 \<Rightarrow> 32 word \<Rightarrow> rt_tick_t \<Rightarrow> tid \<Rightarrow> ipc_sys \<Rightarrow> (int option \<times> ipc_sys) option" where
  "mb_send_resumed n v timeout start t s =
     (if error (tcb s t) \<noteq> 0 then Some (Some (error (tcb s t)), s)
      else mb_send_loop n v (remaining_timeout timeout start s) (Some t) s)"

definition rt_mb_send :: "nat \<Rightarrow> u64 \<Rightarrow> ipc_sys \<Rightarrow> (int option \<times> ipc_sys) option" where
  "rt_mb_send n v = rt_mb_send_wait n v 0"

definition rt_mb_urgent :: "nat \<Rightarrow> u64 \<Rightarrow> ipc_sys \<Rightarrow> (int \<times> ipc_sys) option" where
  "rt_mb_urgent n v s =
     (if mb_entry (mailboxes s n) = mb_size (mailboxes s n) then Some (-3, s)
      else do { mb \<leftarrow> mb_push_front v (mailboxes s n);
                s2 \<leftarrow> wake_first (Suspended (Mailbox n)) (upd_mb n mb s);
                Some (0, s2) })"

text \<open>\<open>rt_mb_recv\<close>, split in the same way; the second component of the result is what is stored in \<open>*value\<close>.\<close>

definition mb_fetch :: "nat \<Rightarrow> ipc_sys \<Rightarrow> ((int \<times> u64 option) option \<times> ipc_sys) option" where
  "mb_fetch n s =
     do { (v, mb) \<leftarrow> mb_pop (mailboxes s n);
          s2 \<leftarrow> wake_first (Senders (Mailbox n)) (upd_mb n mb s);
          Some (Some (0, Some v), s2) }"

definition mb_recv_loop :: "nat \<Rightarrow> 32 word \<Rightarrow> tid option \<Rightarrow> ipc_sys \<Rightarrow> ((int \<times> u64 option) option \<times> ipc_sys) option" where
  "mb_recv_loop n timeout thread s =
     (if mb_entry (mailboxes s n) = 0
      then do { t \<leftarrow> thread;
                let s1 = upd_tcb t (\<lambda>th. th\<lparr>error := 0\<rparr>) s;
                if timeout = 0 then Some (Some (-2, None), upd_tcb t (\<lambda>th. th\<lparr>error := -2\<rparr>) s1)
                else if \<not> in_thread_context s1 then None
                else do { s2 \<leftarrow> wait_on (Suspended (Mailbox n)) t (ipc_flag s1 (Mailbox n)) timeout s1;
                          s3 \<leftarrow> rt_schedule s2;
                          Some (None, s3) } }
      else mb_fetch n s)"

definition rt_mb_recv :: "nat \<Rightarrow> 32 word \<Rightarrow> ipc_sys \<Rightarrow> ((int \<times> u64 option) option \<times> ipc_sys) option" where
  "rt_mb_recv n timeout s =
     (if mb_entry (mailboxes s n) = 0 \<and> timeout = 0 then Some (Some (-2, None), s)
      else mb_recv_loop n timeout (rt_thread_self s) s)"

definition mb_recv_resumed ::
  "nat \<Rightarrow> 32 word \<Rightarrow> rt_tick_t \<Rightarrow> tid \<Rightarrow> ipc_sys \<Rightarrow> ((int \<times> u64 option) option \<times> ipc_sys) option" where
  "mb_recv_resumed n timeout start t s =
     (if error (tcb s t) \<noteq> 0 then Some (Some (error (tcb s t), None), s)
      else mb_recv_loop n (remaining_timeout timeout start s) (Some t) s)"

definition rt_mb_control :: "nat \<Rightarrow> bool \<Rightarrow> ipc_sys \<Rightarrow> (int \<times> ipc_sys) option" where
  "rt_mb_control n reset s =
     (if reset
      then do { s1 \<leftarrow> resume_both (Mailbox n) s;
                s2 \<leftarrow> rt_schedule (upd_mb n ((mailboxes s1 n)\<lparr>mb_entry := 0, in_offset := 0, out_offset := 0\<rparr>) s1);
                Some (0, s2) }
      else Some (-1, s))"

section \<open>The ring is a bounded queue\<close>

definition mbox_ok :: "rt_mailbox \<Rightarrow> bool" where
  "mbox_ok mb \<longleftrightarrow> length (mb_pool mb) = unat (mb_size mb) \<and> unat (mb_entry mb) \<le> unat (mb_size mb) \<and>
     (0 < unat (mb_size mb) \<longrightarrow> unat (out_offset mb) < unat (mb_size mb) \<and>
        unat (in_offset mb) = (unat (out_offset mb) + unat (mb_entry mb)) mod unat (mb_size mb))"

definition mbox_elems :: "rt_mailbox \<Rightarrow> u64 list" where
  "mbox_elems mb = map (\<lambda>k. mb_pool mb ! ((unat (out_offset mb) + k) mod unat (mb_size mb))) [0..<unat (mb_entry mb)]"

lemma length_mbox_elems [simp]: "length (mbox_elems mb) = unat (mb_entry mb)"
  by (simp add: mbox_elems_def)

lemma nth_mbox_elems:
  "k < unat (mb_entry mb) \<Longrightarrow> mbox_elems mb ! k = mb_pool mb ! ((unat (out_offset mb) + k) mod unat (mb_size mb))"
  unfolding mbox_elems_def by (subst nth_map) simp_all

text \<open>Advancing an offset as the code does is adding one modulo the size.\<close>

lemma offset_step:
  fixes i sz :: u16
  assumes "unat i < unat sz"
  shows "unat (if i + 1 \<ge> sz then 0 else i + 1) = (unat i + 1) mod unat sz"
proof -
  have "unat sz < 2 ^ LENGTH(16)" by (rule unsigned_less)
  then have "unat sz \<le> 65535" by simp
  then have u: "unat (i + 1) = unat i + 1" using assms unat_add_lem[of i 1] by simp
  show ?thesis
  proof (cases "unat i + 1 = unat sz")
    case True
    then have "i + 1 \<ge> sz" by (simp add: word_le_nat_alt u)
    then show ?thesis using True by simp
  next
    case False
    then have "unat i + 1 < unat sz" "\<not> i + 1 \<ge> sz" using assms by (simp_all add: word_le_nat_alt u)
    then show ?thesis by (simp add: u)
  qed
qed

lemma ring_index: "k < sz \<Longrightarrow> (o1 + 1 + k) mod sz = ((o1 + 1) mod sz + k) mod (sz :: nat)"
  by (simp add: mod_add_left_eq)

lemma ring_distinct:
  assumes "j < k" "k < (sz :: nat)"
  shows "(x + j) mod sz \<noteq> (x + k) mod sz"
proof
  assume "(x + j) mod sz = (x + k) mod sz"
  then have "(x + k - (x + j)) mod sz = 0" using assms by (metis mod_eq_dvd_iff_nat less_imp_le_nat nat_add_left_cancel_le mod_eq_0_iff_dvd)
  then show False using assms by simp
qed

lemma push_eff:
  assumes ok: "mbox_ok mb" and room: "unat (mb_entry mb) < unat (mb_size mb)"
  shows "\<exists>mb'. mb_push v mb = Some (0, mb') \<and> mbox_ok mb' \<and> mb_size mb' = mb_size mb \<and> mbox_elems mb' = mbox_elems mb @ [v]"
proof -
  let ?i = "unat (in_offset mb)" and ?o = "unat (out_offset mb)" and ?e = "unat (mb_entry mb)" and ?n = "unat (mb_size mb)"
  have n: "0 < ?n" "?n < 65536" using room unsigned_less[of "mb_size mb", where ?'a = nat] by simp_all
  have i: "?i = (?o + ?e) mod ?n" "?i < ?n" "?o < ?n" "length (mb_pool mb) = ?n" using ok n(1) by (simp_all add: mbox_ok_def)
  define mb' where "mb' = mb\<lparr>mb_pool := (mb_pool mb)[?i := v],
     in_offset := (if in_offset mb + 1 \<ge> mb_size mb then 0 else in_offset mb + 1), mb_entry := mb_entry mb + 1\<rparr>"
  have e': "unat (mb_entry mb + 1) = ?e + 1" using unat_add_lem[of "mb_entry mb" 1] room n by simp
  have lt: "mb_entry mb < 0xffff" using room n by (simp add: word_less_nat_alt)
  have res: "mb_push v mb = Some (0, mb')" using i lt by (simp add: mb_push_def mb'_def)
  have "unat (in_offset mb') = (?i + 1) mod ?n" unfolding mb'_def using offset_step[OF i(2)] by simp
  also have "\<dots> = (?o + (?e + 1)) mod ?n" unfolding i(1) by (simp add: mod_Suc_eq)
  finally have "mbox_ok mb'" using i room e' by (simp add: mbox_ok_def mb'_def)
  moreover have "mbox_elems mb' = mbox_elems mb @ [v]"
  proof -
    have "(mb_pool mb)[?i := v] ! ((?o + k) mod ?n) = mb_pool mb ! ((?o + k) mod ?n)" if "k < ?e" for k
      using ring_distinct[of k ?e ?n ?o] that room i by (simp add: nth_list_update_neq)
    then show ?thesis using i n by (simp add: mbox_elems_def mb'_def e' nth_list_update_eq)
  qed
  ultimately show ?thesis using res by (auto simp: mb'_def)
qed

lemma pop_eff:
  assumes ok: "mbox_ok mb" and e: "mbox_elems mb = v # vs"
  shows "\<exists>mb'. mb_pop mb = Some (v, mb') \<and> mbox_ok mb' \<and> mb_size mb' = mb_size mb \<and> mbox_elems mb' = vs"
proof -
  let ?i = "unat (in_offset mb)" and ?o = "unat (out_offset mb)" and ?e = "unat (mb_entry mb)" and ?n = "unat (mb_size mb)"
  have l: "?e = length vs + 1" using length_mbox_elems[of mb] e by simp
  then have n: "0 < ?n" using ok by (simp add: mbox_ok_def)
  have i: "?i = (?o + ?e) mod ?n" "?o < ?n" "length (mb_pool mb) = ?n" "?e \<le> ?n" using ok n by (simp_all add: mbox_ok_def)
  define mb' where "mb' = mb\<lparr>out_offset := (if out_offset mb + 1 \<ge> mb_size mb then 0 else out_offset mb + 1),
     mb_entry := mb_entry mb - 1\<rparr>"
  have pos: "mb_entry mb > 0" using l by (simp add: word_gt_0 unat_gt_0[symmetric] unat_eq_0[symmetric])
  have e': "unat (mb_entry mb - 1) = length vs" using l pos by (simp add: unat_minus_one word_gt_0)
  have hd: "v = mb_pool mb ! ?o" using nth_mbox_elems[of 0 mb] l e i by simp
  have res: "mb_pop mb = Some (v, mb')" using i n pos hd by (simp add: mb_pop_def mb'_def)
  have o': "unat (out_offset mb') = (?o + 1) mod ?n" unfolding mb'_def using offset_step[OF i(2)] by simp
  have "mbox_ok mb'" using i n e' l o' by (simp add: mbox_ok_def mb'_def mod_add_left_eq)
  moreover have "mbox_elems mb' = vs"
  proof (rule nth_equalityI)
    show len: "length (mbox_elems mb') = length vs" by (simp add: mb'_def e')
    show "mbox_elems mb' ! k = vs ! k" if "k < length (mbox_elems mb')" for k
    proof -
      have k: "k < length vs" using that len by simp
      have "mbox_elems mb' ! k = mb_pool mb ! (((?o + 1) mod ?n + k) mod ?n)"
        using nth_mbox_elems[of k mb'] k e' o' by (simp add: mb'_def)
      also have "\<dots> = mbox_elems mb ! (k + 1)"
        using nth_mbox_elems[of "k + 1" mb] k l by (simp add: mod_add_left_eq)
      finally show ?thesis using e by simp
    qed
  qed
  ultimately show ?thesis using res by (auto simp: mb'_def)
qed

lemma push_front_eff:
  assumes ok: "mbox_ok mb" and room: "unat (mb_entry mb) < unat (mb_size mb)"
  shows "\<exists>mb'. mb_push_front v mb = Some mb' \<and> mbox_ok mb' \<and> mb_size mb' = mb_size mb \<and> mbox_elems mb' = v # mbox_elems mb"
proof -
  let ?i = "unat (in_offset mb)" and ?o = "unat (out_offset mb)" and ?e = "unat (mb_entry mb)" and ?n = "unat (mb_size mb)"
  have n: "0 < ?n" "?n < 65536" using room unsigned_less[of "mb_size mb", where ?'a = nat] by simp_all
  have i: "?i = (?o + ?e) mod ?n" "?o < ?n" "length (mb_pool mb) = ?n" using ok n(1) by (simp_all add: mbox_ok_def)
  have nz: "mb_size mb \<noteq> 0" using n(1) by (metis unat_0 less_irrefl)
  define out where "out = (if out_offset mb > 0 then out_offset mb - 1 else mb_size mb - 1)"
  define p where "p = unat out"
  have p: "p = (if ?o > 0 then ?o - 1 else ?n - 1)"
    using nz unat_minus_one[of "mb_size mb"] unat_minus_one[of "out_offset mb"]
    by (auto simp: p_def out_def word_gt_0 unat_eq_0)
  then have pn: "p < ?n" "(p + 1) mod ?n = ?o" using i n by auto
  define mb' where "mb' = mb\<lparr>mb_pool := (mb_pool mb)[p := v], out_offset := out, mb_entry := mb_entry mb + 1\<rparr>"
  have e': "unat (mb_entry mb + 1) = ?e + 1" using unat_add_lem[of "mb_entry mb" 1] room n by simp
  have res: "mb_push_front v mb = Some mb'" using i pn by (simp add: mb_push_front_def mb'_def out_def[symmetric] p_def[symmetric])
  have shift: "(p + (k + 1)) mod ?n = (?o + k) mod ?n" for k
    using pn(2) mod_add_left_eq[of "p + 1" ?n k] by (simp add: add.assoc add.commute)
  have "mbox_ok mb'" using i room e' pn shift[of ?e] by (simp add: mbox_ok_def mb'_def p_def[symmetric])
  moreover have "mbox_elems mb' = v # mbox_elems mb"
  proof -
    have ne: "(mb_pool mb)[p := v] ! ((?o + k) mod ?n) = mb_pool mb ! ((?o + k) mod ?n)" if "k < ?e" for k
      using ring_distinct[of 0 "k + 1" ?n p] that room pn shift[of k] by (simp add: nth_list_update_neq)
    show ?thesis
    proof (rule nth_equalityI)
      show len: "length (mbox_elems mb') = length (v # mbox_elems mb)" by (simp add: mb'_def e')
      show "mbox_elems mb' ! k = (v # mbox_elems mb) ! k" if "k < length (mbox_elems mb')" for k
      proof (cases k)
        case 0
        then show ?thesis using nth_mbox_elems[of 0 mb'] pn i by (simp add: mb'_def e' p_def[symmetric])
      next
        case (Suc j)
        then have j: "j < ?e" using that len by simp
        have "mbox_elems mb' ! k = (mb_pool mb)[p := v] ! ((p + (j + 1)) mod ?n)"
          using nth_mbox_elems[of k mb'] Suc j by (simp add: mb'_def e' p_def[symmetric])
        then show ?thesis using ne[OF j] nth_mbox_elems[OF j] Suc unfolding shift by simp
      qed
    qed
  qed
  ultimately show ?thesis using res by (auto simp: mb'_def)
qed

definition mb_put1 :: "rt_mailbox \<Rightarrow> u64 \<Rightarrow> rt_mailbox option" where
  "mb_put1 mb v = (if mb_entry mb = mb_size mb then None else map_option snd (mb_push v mb))"

definition mb_get1 :: "rt_mailbox \<Rightarrow> (u64 \<times> rt_mailbox) option" where
  "mb_get1 mb = (if mb_entry mb = 0 then None else mb_pop mb)"

lemma entry_room: "mbox_ok mb \<Longrightarrow> mb_entry mb \<noteq> mb_size mb \<longleftrightarrow> unat (mb_entry mb) < unat (mb_size mb)"
  by (auto simp: mbox_ok_def word_unat_eq_iff)

lemma entry_zero: "mb_entry mb = 0 \<longleftrightarrow> mbox_elems mb = []"
  by (simp add: mbox_elems_def unat_eq_0)

interpretation mb_fifo: bounded_fifo mbox_ok "\<lambda>mb. unat (mb_size mb)" mbox_elems mb_put1 mb_get1
proof unfold_locales
  fix q assume ok: "mbox_ok q"
  show "length (mbox_elems q) \<le> unat (mb_size q)" using ok by (simp add: mbox_ok_def)
  show "mb_put1 q x = None" if "length (mbox_elems q) = unat (mb_size q)" for x
    using that by (simp add: mb_put1_def word_unat_eq_iff)
  show "\<exists>q'. mb_put1 q x = Some q' \<and> mbox_ok q' \<and> unat (mb_size q') = unat (mb_size q) \<and> mbox_elems q' = mbox_elems q @ [x]"
    if "length (mbox_elems q) < unat (mb_size q)" for x
    using push_eff[OF ok, of x] that entry_room[OF ok] by (auto simp: mb_put1_def)
  show "mb_get1 q = None" if "mbox_elems q = []" using that by (simp add: mb_get1_def entry_zero)
  show "\<exists>q'. mb_get1 q = Some (y, q') \<and> mbox_ok q' \<and> unat (mb_size q') = unat (mb_size q) \<and> mbox_elems q' = ys"
    if "mbox_elems q = y # ys" for y ys
    using pop_eff[OF ok that] that by (auto simp: mb_get1_def entry_zero)
qed

section \<open>The abstract mailbox\<close>

text \<open>The mails in order, the receivers waiting and the senders waiting.\<close>

type_synonym abs_mb = "u64 list \<times> tid list \<times> tid list"

definition mb_abs :: "nat \<Rightarrow> ipc_sys \<Rightarrow> abs_mb" where
  "mb_abs n s = (mbox_elems (mailboxes s n), queues s (Suspended (Mailbox n)), queues s (Senders (Mailbox n)))"

definition mb_capacity :: "nat \<Rightarrow> ipc_sys \<Rightarrow> nat" where
  "mb_capacity n s = unat (mb_size (mailboxes s n))"

fun spec_send :: "nat \<Rightarrow> (tid list \<Rightarrow> tid list) \<Rightarrow> bool \<Rightarrow> u64 \<Rightarrow> abs_mb \<Rightarrow> int option \<times> abs_mb" where
  "spec_send cap queue poll v (es, rs, ss) =
     (if length es < cap then (Some 0, (es @ [v], tl rs, ss))
      else if poll then (Some (-3), (es, rs, ss)) else (None, (es, rs, queue ss)))"

fun spec_urgent :: "nat \<Rightarrow> u64 \<Rightarrow> abs_mb \<Rightarrow> int \<times> abs_mb" where
  "spec_urgent cap v (es, rs, ss) =
     (if length es < cap then (0, (v # es, tl rs, ss)) else (-3, (es, rs, ss)))"

fun spec_recv :: "(tid list \<Rightarrow> tid list) \<Rightarrow> bool \<Rightarrow> abs_mb \<Rightarrow> (int \<times> u64 option) option \<times> abs_mb" where
  "spec_recv queue poll ([], rs, ss) =
     (if poll then (Some (-2, None), ([], rs, ss)) else (None, ([], queue rs, ss)))"
| "spec_recv queue poll (e # es, rs, ss) = (Some (0, Some e), (es, rs, tl ss))"

lemma upd_mb_obs [simp]:
  "mailboxes (upd_mb n x s) k = (if k = n then x else mailboxes s k)"
  "queues (upd_mb n x s) = queues s" "tcb (upd_mb n x s) = tcb s" "current_thread (upd_mb n x s) = current_thread s"
  "interrupt_nest (upd_mb n x s) = interrupt_nest s" "st (upd_mb n x s) = st s" "ipc_flag (upd_mb n x s) = ipc_flag s"
  "kinv_at m b (upd_mb n x s) = kinv_at m b s" "runnable (upd_mb n x s) = runnable s"
  by (simp_all add: upd_mb_def runnable_def st_def fun_eq_iff)

lemma upd_mb_touches [simp]: "touches (Mailbox n) s (upd_mb n x s)"
  by (simp add: touches_def upd_mb_def)

text \<open>Storing a mail, or taking one, and waking the first thread of the list that waits for it.\<close>

lemma mb_wake_contract:
  assumes k: "kinv_at m b s" and c: "current_thread s \<noteq> None" and l: "l = Suspended (Mailbox n) \<or> l = Senders (Mailbox n)"
  shows "\<exists>s'. wake_first l (upd_mb n x s) = Some s' \<and> kinv_at m b s' \<and> current_thread s' \<noteq> None \<and>
    touches (Mailbox n) s s' \<and> mailboxes s' n = x \<and> queues s' l = tl (queues s l) \<and>
    (\<forall>l'. (\<forall>p. l' \<noteq> Ready p) \<longrightarrow> l' \<noteq> l \<longrightarrow> queues s' l' = queues s l') \<and>
    (\<forall>t ts. queues s l = t # ts \<longrightarrow> runnable s' t \<and> error (tcb s' t) = error (tcb s t))"
proof -
  have k1: "kinv_at m b (upd_mb n x s)" "current_thread (upd_mb n x s) \<noteq> None" using k c by simp_all
  obtain s' where s': "wake_first l (upd_mb n x s) = Some s'" "kinv_at m b s'" "current_thread s' \<noteq> None"
    "touches (Mailbox n) (upd_mb n x s) s'" "queues s' l = tl (queues (upd_mb n x s) l)"
    "\<forall>l'. (\<forall>p. l' \<noteq> Ready p) \<longrightarrow> l' \<noteq> l \<longrightarrow> queues s' l' = queues (upd_mb n x s) l'"
    "timer_sys.more s' = timer_sys.more (upd_mb n x s)"
    "\<forall>t ts. queues (upd_mb n x s) l = t # ts \<longrightarrow> runnable s' t \<and> error (tcb s' t) = error (tcb (upd_mb n x s) t)"
    using wake_first_eff[OF k1 l] by blast
  have "mailboxes s' n = x" using more_ipc(6)[OF s'(7)] by simp
  then show ?thesis using s' touches_trans[OF upd_mb_touches s'(4)] by simp
qed

lemma mb_send_contract:
  assumes k: "kinv_at m b s" and c: "current_thread s \<noteq> None" and ok: "mbox_ok (mailboxes s n)"
    and w: "timeout \<noteq> 0 \<Longrightarrow> in_task m b c s \<and> wait_flag_ok (Mailbox n) s \<and> timeout_ok timeout"
  shows "\<exists>r s'. rt_mb_send_wait n v timeout s = Some (r, s') \<and> kinv_at m b s' \<and> current_thread s' \<noteq> None \<and>
    touches (Mailbox n) s s' \<and> mbox_ok (mailboxes s' n) \<and> mb_capacity n s' = mb_capacity n s \<and>
    (r, mb_abs n s') = spec_send (mb_capacity n s) (queue_of (Mailbox n) c s) (timeout = 0) v (mb_abs n s) \<and>
    (r = None \<longrightarrow> st s' c = RT_THREAD_SUSPEND \<and> error (tcb s' c) = 0) \<and>
    (\<forall>t ts. r = Some 0 \<longrightarrow> queues s (Suspended (Mailbox n)) = t # ts \<longrightarrow> runnable s' t \<and> error (tcb s' t) = error (tcb s t))"
proof (cases "mb_entry (mailboxes s n) = mb_size (mailboxes s n)")
  case False
  then have room: "unat (mb_entry (mailboxes s n)) < unat (mb_size (mailboxes s n))" using entry_room[OF ok] by simp
  obtain x where x: "mb_push v (mailboxes s n) = Some (0, x)" "mbox_ok x" "mb_size x = mb_size (mailboxes s n)"
    "mbox_elems x = mbox_elems (mailboxes s n) @ [v]"
    using push_eff[OF ok room] by blast
  obtain s' where s': "wake_first (Suspended (Mailbox n)) (upd_mb n x s) = Some s'" "kinv_at m b s'" "current_thread s' \<noteq> None"
    "touches (Mailbox n) s s'" "mailboxes s' n = x" "queues s' (Suspended (Mailbox n)) = tl (queues s (Suspended (Mailbox n)))"
    "\<forall>l'. (\<forall>p. l' \<noteq> Ready p) \<longrightarrow> l' \<noteq> Suspended (Mailbox n) \<longrightarrow> queues s' l' = queues s l'"
    "\<forall>t ts. queues s (Suspended (Mailbox n)) = t # ts \<longrightarrow> runnable s' t \<and> error (tcb s' t) = error (tcb s t)"
    using mb_wake_contract[OF k c, of "Suspended (Mailbox n)" n x] by blast
  have "rt_mb_send_wait n v timeout s = Some (Some 0, s')"
    using False x(1) s'(1) by (simp add: rt_mb_send_wait_def mb_send_loop_def mb_deliver_def)
  moreover have "mb_abs n s' = (mbox_elems (mailboxes s n) @ [v], tl (queues s (Suspended (Mailbox n))), queues s (Senders (Mailbox n)))"
    using s'(5,6,7) x(4) by (simp add: mb_abs_def)
  ultimately show ?thesis using s'(2,3,4,5,8) x(2,3) room by (simp add: mb_capacity_def mb_abs_def)
next
  case full: True
  show ?thesis
  proof (cases "timeout = 0")
    case True
    then show ?thesis using full k c ok by (simp add: rt_mb_send_wait_def mb_abs_def mb_capacity_def)
  next
    case False
    note ww = w[OF False]
    note d = in_taskD[OF conjunct1[OF ww]]
    obtain s1 s' where s': "wait_on (Senders (Mailbox n)) c (ipc_flag s (Mailbox n)) timeout (upd_tcb c (\<lambda>th. th\<lparr>error := 0\<rparr>) s) = Some s1"
      "rt_schedule s1 = Some s'" "kinv_at m b s'" "current_thread s' \<noteq> None" "touches (Mailbox n) s s'"
      "st s' c = RT_THREAD_SUSPEND" "error (tcb s' c) = 0"
      "queues s' (Senders (Mailbox n)) = queue_of (Mailbox n) c s (queues s (Senders (Mailbox n)))"
      "\<forall>l'. (\<forall>p. l' \<noteq> Ready p) \<longrightarrow> l' \<noteq> Senders (Mailbox n) \<longrightarrow> queues s' l' = queues s l'" "timer_sys.more s' = timer_sys.more s"
      using wait_here_eff[of m b c s "Mailbox n" timeout "Senders (Mailbox n)"] ww by blast
    have it: "in_thread_context (upd_tcb c (\<lambda>th. th\<lparr>error := 0\<rparr>) s)" using d(5) by (simp add: in_thread_context_def)
    have "rt_mb_send_wait n v timeout s = Some (None, s')"
      using full False d(2) it s'(1,2) by (simp add: rt_mb_send_wait_def mb_send_loop_def rt_thread_self_def)
    moreover have "mailboxes s' = mailboxes s" by (rule more_ipc(6)[OF s'(10)])
    moreover have "mb_abs n s' = (mbox_elems (mailboxes s n), queues s (Suspended (Mailbox n)),
        queue_of (Mailbox n) c s (queues s (Senders (Mailbox n))))"
      using s'(8,9) \<open>mailboxes s' = mailboxes s\<close> by (simp add: mb_abs_def)
    ultimately show ?thesis using s'(3-7) full False ok by (simp add: mb_abs_def mb_capacity_def)
  qed
qed

lemma mb_urgent_contract:
  assumes k: "kinv_at m b s" and c: "current_thread s \<noteq> None" and ok: "mbox_ok (mailboxes s n)"
  shows "\<exists>r s'. rt_mb_urgent n v s = Some (r, s') \<and> kinv_at m b s' \<and> current_thread s' \<noteq> None \<and>
    touches (Mailbox n) s s' \<and> mbox_ok (mailboxes s' n) \<and> mb_capacity n s' = mb_capacity n s \<and>
    (r, mb_abs n s') = spec_urgent (mb_capacity n s) v (mb_abs n s)"
proof (cases "mb_entry (mailboxes s n) = mb_size (mailboxes s n)")
  case False
  then have room: "unat (mb_entry (mailboxes s n)) < unat (mb_size (mailboxes s n))" using entry_room[OF ok] by simp
  obtain x where x: "mb_push_front v (mailboxes s n) = Some x" "mbox_ok x" "mb_size x = mb_size (mailboxes s n)"
    "mbox_elems x = v # mbox_elems (mailboxes s n)"
    using push_front_eff[OF ok room] by blast
  obtain s' where s': "wake_first (Suspended (Mailbox n)) (upd_mb n x s) = Some s'" "kinv_at m b s'" "current_thread s' \<noteq> None"
    "touches (Mailbox n) s s'" "mailboxes s' n = x" "queues s' (Suspended (Mailbox n)) = tl (queues s (Suspended (Mailbox n)))"
    "\<forall>l'. (\<forall>p. l' \<noteq> Ready p) \<longrightarrow> l' \<noteq> Suspended (Mailbox n) \<longrightarrow> queues s' l' = queues s l'"
    using mb_wake_contract[OF k c, of "Suspended (Mailbox n)" n x] by blast
  have "rt_mb_urgent n v s = Some (0, s')" using False x(1) s'(1) by (simp add: rt_mb_urgent_def)
  then show ?thesis using s' x room by (simp add: mb_capacity_def mb_abs_def)
next
  case True
  then show ?thesis using k c ok by (simp add: rt_mb_urgent_def mb_abs_def mb_capacity_def)
qed

lemma mb_recv_contract:
  assumes k: "kinv_at m b s" and c: "current_thread s \<noteq> None" and ok: "mbox_ok (mailboxes s n)"
    and w: "timeout \<noteq> 0 \<Longrightarrow> in_task m b c s \<and> wait_flag_ok (Mailbox n) s \<and> timeout_ok timeout"
  shows "\<exists>r s'. rt_mb_recv n timeout s = Some (r, s') \<and> kinv_at m b s' \<and> current_thread s' \<noteq> None \<and>
    touches (Mailbox n) s s' \<and> mbox_ok (mailboxes s' n) \<and> mb_capacity n s' = mb_capacity n s \<and>
    (r, mb_abs n s') = spec_recv (queue_of (Mailbox n) c s) (timeout = 0) (mb_abs n s) \<and>
    (r = None \<longrightarrow> st s' c = RT_THREAD_SUSPEND \<and> error (tcb s' c) = 0) \<and>
    (\<forall>t ts. mbox_elems (mailboxes s n) \<noteq> [] \<longrightarrow> queues s (Senders (Mailbox n)) = t # ts \<longrightarrow>
       runnable s' t \<and> error (tcb s' t) = error (tcb s t))"
proof (cases "mbox_elems (mailboxes s n)")
  case (Cons e es)
  obtain x where x: "mb_pop (mailboxes s n) = Some (e, x)" "mbox_ok x" "mb_size x = mb_size (mailboxes s n)" "mbox_elems x = es"
    using pop_eff[OF ok Cons] by blast
  have ne: "mb_entry (mailboxes s n) \<noteq> 0" using Cons entry_zero by simp
  obtain s' where s': "wake_first (Senders (Mailbox n)) (upd_mb n x s) = Some s'" "kinv_at m b s'" "current_thread s' \<noteq> None"
    "touches (Mailbox n) s s'" "mailboxes s' n = x" "queues s' (Senders (Mailbox n)) = tl (queues s (Senders (Mailbox n)))"
    "\<forall>l'. (\<forall>p. l' \<noteq> Ready p) \<longrightarrow> l' \<noteq> Senders (Mailbox n) \<longrightarrow> queues s' l' = queues s l'"
    "\<forall>t ts. queues s (Senders (Mailbox n)) = t # ts \<longrightarrow> runnable s' t \<and> error (tcb s' t) = error (tcb s t)"
    using mb_wake_contract[OF k c, of "Senders (Mailbox n)" n x] by blast
  have "rt_mb_recv n timeout s = Some (Some (0, Some e), s')"
    using ne x(1) s'(1) by (simp add: rt_mb_recv_def mb_recv_loop_def mb_fetch_def)
  then show ?thesis using s' x Cons by (simp add: mb_capacity_def mb_abs_def)
next
  case Nil
  then have z: "mb_entry (mailboxes s n) = 0" using entry_zero by simp
  show ?thesis
  proof (cases "timeout = 0")
    case True
    then show ?thesis using z Nil k c ok by (simp add: rt_mb_recv_def mb_abs_def mb_capacity_def)
  next
    case False
    note ww = w[OF False]
    note d = in_taskD[OF conjunct1[OF ww]]
    obtain s1 s' where s': "wait_on (Suspended (Mailbox n)) c (ipc_flag s (Mailbox n)) timeout (upd_tcb c (\<lambda>th. th\<lparr>error := 0\<rparr>) s) = Some s1"
      "rt_schedule s1 = Some s'" "kinv_at m b s'" "current_thread s' \<noteq> None" "touches (Mailbox n) s s'"
      "st s' c = RT_THREAD_SUSPEND" "error (tcb s' c) = 0"
      "queues s' (Suspended (Mailbox n)) = queue_of (Mailbox n) c s (queues s (Suspended (Mailbox n)))"
      "\<forall>l'. (\<forall>p. l' \<noteq> Ready p) \<longrightarrow> l' \<noteq> Suspended (Mailbox n) \<longrightarrow> queues s' l' = queues s l'" "timer_sys.more s' = timer_sys.more s"
      using wait_here_eff[of m b c s "Mailbox n" timeout "Suspended (Mailbox n)"] ww by blast
    have it: "in_thread_context (upd_tcb c (\<lambda>th. th\<lparr>error := 0\<rparr>) s)" using d(5) by (simp add: in_thread_context_def)
    have "rt_mb_recv n timeout s = Some (None, s')"
      using z False d(2) it s'(1,2) by (simp add: rt_mb_recv_def mb_recv_loop_def rt_thread_self_def)
    moreover have "mailboxes s' = mailboxes s" by (rule more_ipc(6)[OF s'(10)])
    moreover have "mb_abs n s' = ([], queue_of (Mailbox n) c s (queues s (Suspended (Mailbox n))), queues s (Senders (Mailbox n)))"
      using s'(8,9) \<open>mailboxes s' = mailboxes s\<close> Nil by (simp add: mb_abs_def)
    ultimately show ?thesis using s'(3-7) Nil False ok by (simp add: mb_abs_def mb_capacity_def)
  qed
qed

lemma mb_reset_contract:
  assumes k: "kinv_at m b s" and c: "current_thread s \<noteq> None" and ok: "mbox_ok (mailboxes s n)"
  shows "\<exists>s'. rt_mb_control n True s = Some (0, s') \<and> kinv_at m b s' \<and> current_thread s' \<noteq> None \<and>
    touches (Mailbox n) s s' \<and> mbox_ok (mailboxes s' n) \<and> mb_capacity n s' = mb_capacity n s \<and> mb_abs n s' = ([], [], []) \<and>
    (\<forall>t \<in> set (queues s (Suspended (Mailbox n))) \<union> set (queues s (Senders (Mailbox n))). runnable s' t \<and> error (tcb s' t) = -1)"
proof -
  obtain s1 where s1: "resume_both (Mailbox n) s = Some s1" "kinv_at m b s1" "kept s s1" "touches (Mailbox n) s s1"
    "queues s1 (Suspended (Mailbox n)) = []" "queues s1 (Senders (Mailbox n)) = []"
    "\<forall>t \<in> set (queues s (Suspended (Mailbox n))) \<union> set (queues s (Senders (Mailbox n))). runnable s1 t \<and> error (tcb s1 t) = -1"
    using resume_both_eff[OF k, of "Mailbox n"] by blast
  let ?x = "(mailboxes s1 n)\<lparr>mb_entry := 0, in_offset := 0, out_offset := 0\<rparr>"
  let ?s2 = "upd_mb n ?x s1"
  have k2: "kinv_at m b ?s2" "current_thread ?s2 \<noteq> None" using s1(2) c keptD(1)[OF s1(3)] by simp_all
  obtain s' where s': "rt_schedule ?s2 = Some s'" "kinv_at m b s'" "current_thread s' \<noteq> None" "scheduled ?s2 s'"
    using schedule_eff[OF k2] by blast
  have mx: "mailboxes s' n = ?x" "mailboxes s1 n = mailboxes s n"
    using more_ipc(6)[OF scheduledD(7)[OF s'(4)]] more_ipc(6)[OF keptD(5)[OF s1(3)]] by simp_all
  have "mb_abs n s' = ([], [], [])"
    using mx scheduledD(1)[OF s'(4), of "Suspended (Mailbox n)"] scheduledD(1)[OF s'(4), of "Senders (Mailbox n)"] s1(5,6)
    by (simp add: mb_abs_def mbox_elems_def)
  moreover have "mbox_ok (mailboxes s' n)" using mx ok by (simp add: mbox_ok_def)
  moreover have "touches (Mailbox n) s s'"
    by (rule touches_trans[OF s1(4) touches_trans[OF upd_mb_touches scheduled_touches[OF s'(4)]]])
  moreover have "rt_mb_control n True s = Some (0, s')" using s1(1) s'(1) by (simp add: rt_mb_control_def)
  ultimately show ?thesis using s'(2,3) mx s1(7) schedule_keeps_error[OF s'(4)] by (simp add: mb_capacity_def)
qed

text \<open>A woken sender or receiver that finds an error returns it; else it tries again as a fresh call would.\<close>

lemma mb_send_resumed_eq:
  assumes "current_thread s = Some t" "error (tcb s t) = 0" "remaining_timeout timeout start s \<noteq> 0"
  shows "mb_send_resumed n v timeout start t s = rt_mb_send_wait n v (remaining_timeout timeout start s) s"
  using assms by (simp add: mb_send_resumed_def rt_mb_send_wait_def rt_thread_self_def)

lemma mb_recv_resumed_eq:
  assumes "current_thread s = Some t" "error (tcb s t) = 0" "remaining_timeout timeout start s \<noteq> 0"
  shows "mb_recv_resumed n timeout start t s = rt_mb_recv n (remaining_timeout timeout start s) s"
  using assms by (simp add: mb_recv_resumed_def rt_mb_recv_def rt_thread_self_def)

section \<open>Properties\<close>

text \<open>
  C9. Sending to a mailbox implements the abstract mailbox on every branch: with room the mail is
  appended and the first receiver is woken; without, a poll returns -RT_EFULL and a waiting call is
  queued with the senders. The pool is never written out of bounds and the kernel invariant is kept.
\<close>

theorem mb_send_refines:
  assumes "in_task m b c s" "wait_flag_ok (Mailbox n) s" "timeout_ok timeout" "mbox_ok (mailboxes s n)"
  shows "\<exists>r s'. rt_mb_send_wait n v timeout s = Some (r, s') \<and>
    (r, mb_abs n s') = spec_send (mb_capacity n s) (queue_of (Mailbox n) c s) (timeout = 0) v (mb_abs n s) \<and>
    (\<forall>t ts. r = Some 0 \<longrightarrow> queues s (Suspended (Mailbox n)) = t # ts \<longrightarrow> runnable s' t \<and> error (tcb s' t) = error (tcb s t)) \<and>
    (r = None \<longrightarrow> st s' c = RT_THREAD_SUSPEND) \<and>
    mbox_ok (mailboxes s' n) \<and> mb_capacity n s' = mb_capacity n s \<and> kinv_at m b s' \<and> touches (Mailbox n) s s'"
  using mb_send_contract[OF in_taskD(1,7)[OF assms(1)] assms(4), of timeout c v] assms(1-3) by blast

theorem mb_send_refines_witness:
  "\<exists>s'. rt_mb_send_wait 0 42 0 (demo (Suspended (Mailbox 0)) [2, 3]) = Some (Some 0, s') \<and>
     mb_abs 0 s' = ([42], [3], []) \<and> runnable s' 2"
proof -
  let ?s = "demo (Suspended (Mailbox 0)) [2, 3]"
  have "in_task 0x7ffffffe 100 (Suc 0) ?s" "wait_flag_ok (Mailbox 0) ?s" "timeout_ok 0" "mbox_ok (mailboxes ?s 0)"
    by (simp_all add: timeout_ok_def mbox_ok_def)
  from mb_send_refines[OF this, of 42] show ?thesis by (auto simp: mb_abs_def mbox_elems_def mb_capacity_def)
qed

text \<open>
  C20. Receiving from a mailbox implements the abstract mailbox on every branch: the oldest mail is
  returned and the first sender is woken; an empty mailbox polls to -RT_ETIMEOUT or queues the caller.
\<close>

theorem mb_recv_refines:
  assumes "in_task m b c s" "wait_flag_ok (Mailbox n) s" "timeout_ok timeout" "mbox_ok (mailboxes s n)"
  shows "\<exists>r s'. rt_mb_recv n timeout s = Some (r, s') \<and>
    (r, mb_abs n s') = spec_recv (queue_of (Mailbox n) c s) (timeout = 0) (mb_abs n s) \<and>
    (\<forall>t ts. mbox_elems (mailboxes s n) \<noteq> [] \<longrightarrow> queues s (Senders (Mailbox n)) = t # ts \<longrightarrow>
       runnable s' t \<and> error (tcb s' t) = error (tcb s t)) \<and>
    (r = None \<longrightarrow> st s' c = RT_THREAD_SUSPEND) \<and>
    mbox_ok (mailboxes s' n) \<and> mb_capacity n s' = mb_capacity n s \<and> kinv_at m b s' \<and> touches (Mailbox n) s s'"
  using mb_recv_contract[OF in_taskD(1,7)[OF assms(1)] assms(4), of timeout c] assms(1-3) by blast

theorem mb_recv_refines_witness:
  "\<exists>s'. rt_mb_recv 0 (-1) (demo (Senders (Mailbox 0)) []) = Some (None, s') \<and> mb_abs 0 s' = ([], [1], [])"
proof -
  let ?s = "demo (Senders (Mailbox 0)) []"
  have "in_task 0x7ffffffe 100 (Suc 0) ?s" "wait_flag_ok (Mailbox 0) ?s" "timeout_ok (-1)" "mbox_ok (mailboxes ?s 0)"
    by (simp_all add: timeout_ok_def mbox_ok_def)
  from mb_recv_refines[OF this] show ?thesis by (auto simp: mb_abs_def mbox_elems_def queue_of_def enqueue_def)
qed

text \<open>
  An urgent mail goes in front of every queued one, or is refused with -RT_EFULL: sending urgently
  and then receiving gives that mail back and leaves the rest as it was.
\<close>

theorem mb_urgent_first:
  assumes "kinv_at m b s" "current_thread s \<noteq> None" "mbox_ok (mailboxes s n)" "length (fst (mb_abs n s)) < mb_capacity n s"
  shows "\<exists>s1 s2. rt_mb_urgent n v s = Some (0, s1) \<and> rt_mb_recv n 0 s1 = Some (Some (0, Some v), s2) \<and>
    fst (mb_abs n s2) = fst (mb_abs n s) \<and> kinv_at m b s2"
proof -
  have ab: "mb_abs n s = (mbox_elems (mailboxes s n), queues s (Suspended (Mailbox n)), queues s (Senders (Mailbox n)))"
    by (simp add: mb_abs_def)
  obtain s1 where s1: "rt_mb_urgent n v s = Some (0, s1)" "kinv_at m b s1" "current_thread s1 \<noteq> None"
    "mbox_ok (mailboxes s1 n)"
    "mb_abs n s1 = (v # mbox_elems (mailboxes s n), tl (queues s (Suspended (Mailbox n))), queues s (Senders (Mailbox n)))"
    using mb_urgent_contract[OF assms(1-3), of v] assms(4) by (auto simp: ab)
  obtain s2 where "rt_mb_recv n 0 s1 = Some (Some (0, Some v), s2)" "kinv_at m b s2"
    "fst (mb_abs n s2) = mbox_elems (mailboxes s n)"
    using mb_recv_contract[OF s1(2-4), of 0] s1(5) by auto
  then show ?thesis using s1(1) by (auto simp: ab)
qed

theorem mb_urgent_first_witness:
  "\<exists>s1 s2. rt_mb_urgent 0 7 (demo (Suspended (Mailbox 0)) []) = Some (0, s1) \<and> rt_mb_recv 0 0 s1 = Some (Some (0, Some 7), s2)"
proof -
  let ?s = "demo (Suspended (Mailbox 0)) []"
  have "kinv_at 0x7ffffffe 100 ?s" "current_thread ?s \<noteq> None" "mbox_ok (mailboxes ?s 0)"
    "length (fst (mb_abs 0 ?s)) < mb_capacity 0 ?s"
    by (simp_all add: demo_kinv[of _ "Mailbox 0"] mbox_ok_def mb_abs_def mb_capacity_def)
  from mb_urgent_first[OF this] show ?thesis by blast
qed

text \<open>
  Whatever sequence of non-blocking sends and receives is made on the ring of a mailbox, the mails
  received followed by those still queued are the mails that were queued followed by those accepted, in
  order, and at most its size are queued.
\<close>

theorem mailbox_stream:
  assumes "mbox_ok mb" "mb_fifo.run ops mb = (ins, outs, mb')"
  shows "mbox_elems mb @ ins = outs @ mbox_elems mb' \<and> length (mbox_elems mb') \<le> unat (mb_size mb) \<and> mbox_ok mb'"
  using mb_fifo.run_fifo[OF assms] mb_fifo.bounded[of mb'] by simp

theorem mailbox_stream_witness:
  "(case mb_fifo.run [Put 1, Put 2, Put 3, Get, Put 4, Get, Get] (mb_fresh [0, 0] 2) of (ins, outs, mb') \<Rightarrow>
     ins = outs @ mbox_elems mb' \<and> outs = [1, 2, 4])"
proof -
  obtain ins outs mb' where r: "mb_fifo.run [Put 1, Put 2, Put 3, Get, Put 4, Get, Get] (mb_fresh [0, 0] 2) = (ins, outs, mb')"
    by (rule prod_cases3)
  have ok: "mbox_ok (mb_fresh [0, 0] 2)" by (simp add: mbox_ok_def mb_fresh_def)
  have "outs = [1, 2, 4]"
    using r by (auto simp: mb_put1_def mb_get1_def mb_fresh_def mb_push_def mb_pop_def word_le_nat_alt Let_def)
  then show ?thesis using mailbox_stream[OF ok r] r by (simp add: mbox_elems_def mb_fresh_def)
qed

end
