(* ===== verification/RT_MsgQueue.thy ===== *)
theory RT_MsgQueue
  imports RT_Demo
begin

text \<open>
  Message queues of \<open>src/rt-thread/src/ipc.c\<close>: the pool of blocks with its free list and its message list,
  linked through the blocks, and every operation. Sending and receiving open a window with interrupts
  enabled while they copy; the block in flight is then on neither list, so the list manipulations are
  separate steps and the invariant has the set of blocks in flight.
\<close>

section \<open>The pool\<close>

definition mq_take_free :: "rt_messagequeue \<Rightarrow> (nat \<times> rt_messagequeue) option" where
  "mq_take_free q =
     (case msg_queue_free q of None \<Rightarrow> None | Some b \<Rightarrow> Some (b, q\<lparr>msg_queue_free := msg_next q b\<rparr>))"

text \<open>Copying the sender's bytes into a block; outside the block the copy is undefined.\<close>

definition mq_write :: "nat \<Rightarrow> u8 list \<Rightarrow> rt_messagequeue \<Rightarrow> rt_messagequeue option" where
  "mq_write b buffer q =
     do { d \<leftarrow> memcpy (msg_data q b) 0 buffer 0 (length buffer);
          Some (q\<lparr>msg_data := (msg_data q)(b := d)\<rparr>) }"

definition mq_count_up :: "rt_messagequeue \<Rightarrow> int \<times> rt_messagequeue" where
  "mq_count_up q = (if mq_entry q < 0xffff then (0, q\<lparr>mq_entry := mq_entry q + 1\<rparr>) else (-3, q))"

definition mq_link_tail :: "nat \<Rightarrow> rt_messagequeue \<Rightarrow> int \<times> rt_messagequeue" where
  "mq_link_tail b q =
     (let q1 = (case msg_queue_tail q of
                  Some t \<Rightarrow> q\<lparr>msg_next := (msg_next q)(t := Some b)\<rparr> | None \<Rightarrow> q)
      in mq_count_up (q1\<lparr>msg_queue_tail := Some b,
                         msg_queue_head := (if msg_queue_head q = None then Some b else msg_queue_head q)\<rparr>))"

definition mq_link_head :: "nat \<Rightarrow> rt_messagequeue \<Rightarrow> int \<times> rt_messagequeue" where
  "mq_link_head b q =
     mq_count_up (q\<lparr>msg_next := (msg_next q)(b := msg_queue_head q), msg_queue_head := Some b,
                    msg_queue_tail := (if msg_queue_tail q = None then Some b else msg_queue_tail q)\<rparr>)"

text \<open>Taking the first message off the list; without one the code would follow a null pointer.\<close>

definition mq_unlink :: "rt_messagequeue \<Rightarrow> (nat \<times> rt_messagequeue) option" where
  "mq_unlink q =
     (case msg_queue_head q of
        None \<Rightarrow> None
      | Some b \<Rightarrow> Some (b, q\<lparr>msg_queue_head := msg_next q b,
                            msg_queue_tail := (if msg_queue_tail q = Some b then None else msg_queue_tail q)\<rparr>))"

definition mq_count_down :: "rt_messagequeue \<Rightarrow> rt_messagequeue" where
  "mq_count_down q = q\<lparr>mq_entry := (if mq_entry q > 0 then mq_entry q - 1 else mq_entry q)\<rparr>"

definition mq_free :: "nat \<Rightarrow> rt_messagequeue \<Rightarrow> rt_messagequeue" where
  "mq_free b q = q\<lparr>msg_next := (msg_next q)(b := msg_queue_free q), msg_queue_free := Some b\<rparr>"

section \<open>Operations\<close>

definition upd_mq :: "nat \<Rightarrow> rt_messagequeue \<Rightarrow> ipc_sys \<Rightarrow> ipc_sys" where
  "upd_mq n q s = s\<lparr>mqs := (mqs s)(n := q)\<rparr>"

definition rt_align :: "rt_size_t \<Rightarrow> rt_size_t" where
  "rt_align size' = (size' + 3) AND NOT 3"

text \<open>
  The pool as \<open>rt_mq_init\<close> and \<open>rt_mq_create\<close> leave it: the loop pushes every block on the free list. The
  memory's old contents are an argument. Sizes are cut to 16 bits; a block's link is one pointer.
\<close>

definition mq_fresh :: "u16 \<Rightarrow> u16 \<Rightarrow> (nat \<Rightarrow> nat option) \<Rightarrow> (nat \<Rightarrow> u8 list) \<Rightarrow> rt_messagequeue" where
  "mq_fresh msize cap' links data =
     fold mq_free [0..<unat cap']
       \<lparr>msg_size = msize, max_msgs = cap', mq_entry = 0, msg_next = links, msg_data = data,
        msg_queue_head = None, msg_queue_tail = None, msg_queue_free = None\<rparr>"

definition rt_mq_init ::
  "nat \<Rightarrow> (nat \<Rightarrow> nat option) \<Rightarrow> (nat \<Rightarrow> u8 list) \<Rightarrow> rt_size_t \<Rightarrow> rt_size_t \<Rightarrow> u8 \<Rightarrow> ipc_sys \<Rightarrow> ipc_sys" where
  "rt_mq_init n links data msize pool_size fl s =
     (let ms = (ucast (rt_align msize) :: u16); mx = (ucast (pool_size div (ucast ms + 8)) :: u16) in
      rt_ipc_object_init (Senders (MsgQueue n)) (upd_mq n (mq_fresh ms mx links data)
        (rt_ipc_object_init (Suspended (MsgQueue n)) (set_object (MsgQueue n) True fl s))))"

definition rt_mq_create ::
  "nat option \<Rightarrow> ((nat \<Rightarrow> nat option) \<times> (nat \<Rightarrow> u8 list)) option \<Rightarrow> rt_size_t \<Rightarrow> rt_size_t \<Rightarrow> u8 \<Rightarrow> ipc_sys \<Rightarrow>
   (nat option \<times> ipc_sys) option" where
  "rt_mq_create obj pool msize cap' fl s =
     (if not_in_interrupt s
      then Some (case (obj, pool) of
                   (Some n, Some (links, data)) \<Rightarrow>
                     (Some n, rt_ipc_object_init (Senders (MsgQueue n))
                        (upd_mq n (mq_fresh (ucast (rt_align msize)) (ucast cap') links data)
                          (rt_ipc_object_init (Suspended (MsgQueue n)) (set_object (MsgQueue n) False fl s))))
                 | (_, _) \<Rightarrow> (None, s))
      else None)"

definition rt_mq_detach :: "nat \<Rightarrow> ipc_sys \<Rightarrow> ipc_sys option" where
  "rt_mq_detach n s = (if ipc_static s (MsgQueue n) then resume_both (MsgQueue n) s else None)"

definition rt_mq_delete :: "nat \<Rightarrow> ipc_sys \<Rightarrow> ipc_sys option" where
  "rt_mq_delete n s = (if not_in_interrupt s \<and> \<not> ipc_static s (MsgQueue n) then resume_both (MsgQueue n) s else None)"

text \<open>\<open>rt_mq_send_wait\<close>, split as the mailbox is; the message is a byte list and its length the size argument.\<close>

definition mq_deliver :: "nat \<Rightarrow> u8 list \<Rightarrow> ipc_sys \<Rightarrow> (int option \<times> ipc_sys) option" where
  "mq_deliver n buffer s =
     do { (b, q1) \<leftarrow> mq_take_free (mqs s n);
          q2 \<leftarrow> mq_write b buffer (q1\<lparr>msg_next := (msg_next q1)(b := None)\<rparr>);
          let (r, q3) = mq_link_tail b q2;
          if r \<noteq> 0 then Some (Some r, upd_mq n q3 s)
          else do { s2 \<leftarrow> wake_first (Suspended (MsgQueue n)) (upd_mq n q3 s); Some (Some 0, s2) } }"

definition mq_send_loop :: "nat \<Rightarrow> u8 list \<Rightarrow> 32 word \<Rightarrow> tid option \<Rightarrow> ipc_sys \<Rightarrow> (int option \<times> ipc_sys) option" where
  "mq_send_loop n buffer timeout thread s =
     (if msg_queue_free (mqs s n) = None
      then do { t \<leftarrow> thread;
                let s1 = upd_tcb t (\<lambda>th. th\<lparr>error := 0\<rparr>) s;
                if timeout = 0 then Some (Some (-3), s1)
                else if \<not> in_thread_context s1 then None
                else do { s2 \<leftarrow> wait_on (Senders (MsgQueue n)) t (ipc_flag s1 (MsgQueue n)) timeout s1;
                          s3 \<leftarrow> rt_schedule s2;
                          Some (None, s3) } }
      else mq_deliver n buffer s)"

definition rt_mq_send_wait :: "nat \<Rightarrow> u8 list \<Rightarrow> 32 word \<Rightarrow> ipc_sys \<Rightarrow> (int option \<times> ipc_sys) option" where
  "rt_mq_send_wait n buffer timeout s =
     (if buffer = [] then None
      else if length buffer > unat (msg_size (mqs s n)) then Some (Some (-1), s)
      else if msg_queue_free (mqs s n) = None \<and> timeout = 0 then Some (Some (-3), s)
      else mq_send_loop n buffer timeout (rt_thread_self s) s)"

definition mq_send_resumed ::
  "nat \<Rightarrow> u8 list \<Rightarrow> 32 word \<Rightarrow> rt_tick_t \<Rightarrow> tid \<Rightarrow> ipc_sys \<Rightarrow> (int option \<times> ipc_sys) option" where
  "mq_send_resumed n buffer timeout start t s =
     (if error (tcb s t) \<noteq> 0 then Some (Some (error (tcb s t)), s)
      else mq_send_loop n buffer (remaining_timeout timeout start s) (Some t) s)"

definition rt_mq_send :: "nat \<Rightarrow> u8 list \<Rightarrow> ipc_sys \<Rightarrow> (int option \<times> ipc_sys) option" where
  "rt_mq_send n buffer = rt_mq_send_wait n buffer 0"

definition rt_mq_urgent :: "nat \<Rightarrow> u8 list \<Rightarrow> ipc_sys \<Rightarrow> (int \<times> ipc_sys) option" where
  "rt_mq_urgent n buffer s =
     (if buffer = [] then None
      else if length buffer > unat (msg_size (mqs s n)) then Some (-1, s)
      else if msg_queue_free (mqs s n) = None then Some (-3, s)
      else do { (b, q1) \<leftarrow> mq_take_free (mqs s n);
                q2 \<leftarrow> mq_write b buffer q1;
                let (r, q3) = mq_link_head b q2;
                if r \<noteq> 0 then Some (r, upd_mq n q3 s)
                else do { s2 \<leftarrow> wake_first (Suspended (MsgQueue n)) (upd_mq n q3 s); Some (0, s2) } })"

text \<open>\<open>rt_mq_recv\<close>: what is stored in the caller's buffer is the second component of the result.\<close>

definition mq_fetch :: "nat \<Rightarrow> rt_size_t \<Rightarrow> ipc_sys \<Rightarrow> ((int \<times> u8 list option) option \<times> ipc_sys) option" where
  "mq_fetch n size' s =
     do { (b, q1) \<leftarrow> mq_unlink (mqs s n);
          let q2 = mq_count_down q1;
          let len = (if unat size' > unat (msg_size q2) then unat (msg_size q2) else unat size');
          let out = take len (msg_data q2 b);
          s2 \<leftarrow> wake_first (Senders (MsgQueue n)) (upd_mq n (mq_free b q2) s);
          Some (Some (0, Some out), s2) }"

definition mq_recv_loop ::
  "nat \<Rightarrow> rt_size_t \<Rightarrow> 32 word \<Rightarrow> tid option \<Rightarrow> ipc_sys \<Rightarrow> ((int \<times> u8 list option) option \<times> ipc_sys) option" where
  "mq_recv_loop n size' timeout thread s =
     (if mq_entry (mqs s n) = 0
      then if \<not> in_thread_context s then None
           else do { t \<leftarrow> thread;
                     let s1 = upd_tcb t (\<lambda>th. th\<lparr>error := 0\<rparr>) s;
                     if timeout = 0 then Some (Some (-2, None), upd_tcb t (\<lambda>th. th\<lparr>error := -2\<rparr>) s1)
                     else do { s2 \<leftarrow> wait_on (Suspended (MsgQueue n)) t (ipc_flag s1 (MsgQueue n)) timeout s1;
                               s3 \<leftarrow> rt_schedule s2;
                               Some (None, s3) } }
      else mq_fetch n size' s)"

definition rt_mq_recv ::
  "nat \<Rightarrow> rt_size_t \<Rightarrow> 32 word \<Rightarrow> ipc_sys \<Rightarrow> ((int \<times> u8 list option) option \<times> ipc_sys) option" where
  "rt_mq_recv n size' timeout s =
     (if size' = 0 then None
      else if mq_entry (mqs s n) = 0 \<and> timeout = 0 then Some (Some (-2, None), s)
      else mq_recv_loop n size' timeout (rt_thread_self s) s)"

definition mq_recv_resumed ::
  "nat \<Rightarrow> rt_size_t \<Rightarrow> 32 word \<Rightarrow> rt_tick_t \<Rightarrow> tid \<Rightarrow> ipc_sys \<Rightarrow> ((int \<times> u8 list option) option \<times> ipc_sys) option" where
  "mq_recv_resumed n size' timeout start t s =
     (if error (tcb s t) \<noteq> 0 then Some (Some (error (tcb s t), None), s)
      else mq_recv_loop n size' (remaining_timeout timeout start s) (Some t) s)"

text \<open>The loop of the reset command, which moves every message to the free list.\<close>

partial_function (option) mq_drain :: "rt_messagequeue \<Rightarrow> rt_messagequeue option" where
  "mq_drain q = (case mq_unlink q of None \<Rightarrow> Some q | Some bq \<Rightarrow> mq_drain (mq_free (fst bq) (snd bq)))"

definition rt_mq_control :: "nat \<Rightarrow> bool \<Rightarrow> ipc_sys \<Rightarrow> (int \<times> ipc_sys) option" where
  "rt_mq_control n reset s =
     (if reset
      then do { s1 \<leftarrow> resume_both (MsgQueue n) s;
                q \<leftarrow> mq_drain (mqs s1 n);
                s2 \<leftarrow> rt_schedule (upd_mq n (q\<lparr>mq_entry := 0\<rparr>) s1);
                Some (0, s2) }
      else Some (-1, s))"

section \<open>The lists through the blocks\<close>

fun chain :: "(nat \<Rightarrow> nat option) \<Rightarrow> nat option \<Rightarrow> nat list \<Rightarrow> bool" where
  "chain nx p [] \<longleftrightarrow> p = None"
| "chain nx p (b # bs) \<longleftrightarrow> p = Some b \<and> chain nx (nx b) bs"

lemma chain_upd [simp]: "b \<notin> set bs \<Longrightarrow> chain (nx(b := x)) p bs = chain nx p bs"
  by (induction bs arbitrary: p) auto

lemma chain_snoc:
  assumes "chain nx p us" "us \<noteq> []" "distinct us" "b \<notin> set us" "nx b = None"
  shows "chain (nx(last us := Some b)) p (us @ [b])"
  using assms
proof (induction us arbitrary: p)
  case (Cons u us)
  show ?case
  proof (cases us)
    case Nil
    then show ?thesis using Cons.prems by auto
  next
    case (Cons v vs)
    then have "last us \<in> set us" by simp
    then have "u \<noteq> last us" using Cons.prems(3) by auto
    then show ?thesis using Cons.IH[of "nx u"] Cons.prems \<open>us = v # vs\<close> by auto
  qed
qed simp

lemma chain_head: "chain nx p bs \<Longrightarrow> p = (case bs of [] \<Rightarrow> None | b # _ \<Rightarrow> Some b)"
  by (cases bs) auto

text \<open>
  \<open>fs\<close> is the free list, \<open>us\<close> the messages in order and \<open>F\<close> the blocks in flight: together they are all
  blocks of the pool, each once.
\<close>

definition mq_lists :: "nat set \<Rightarrow> rt_messagequeue \<Rightarrow> nat list \<Rightarrow> nat list \<Rightarrow> bool" where
  "mq_lists F q fs us \<longleftrightarrow>
     chain (msg_next q) (msg_queue_free q) fs \<and> chain (msg_next q) (msg_queue_head q) us \<and>
     msg_queue_tail q = (if us = [] then None else Some (last us)) \<and>
     distinct (fs @ us) \<and> F \<inter> set (fs @ us) = {} \<and> F \<union> set (fs @ us) = {..<unat (max_msgs q)} \<and>
     length us = unat (mq_entry q) \<and> (\<forall>b < unat (max_msgs q). length (msg_data q b) = unat (msg_size q))"

lemma mq_listsD:
  assumes "mq_lists F q fs us"
  shows "chain (msg_next q) (msg_queue_free q) fs" "chain (msg_next q) (msg_queue_head q) us"
    "msg_queue_tail q = (if us = [] then None else Some (last us))" "distinct (fs @ us)" "F \<inter> set (fs @ us) = {}"
    "F \<union> set (fs @ us) = {..<unat (max_msgs q)}" "length us = unat (mq_entry q)"
    "b < unat (max_msgs q) \<Longrightarrow> length (msg_data q b) = unat (msg_size q)"
  using assms by (simp_all add: mq_lists_def)

lemma in_flight:
  assumes "mq_lists F q fs us" "b \<in> F"
  shows "b \<notin> set fs" "b \<notin> set us" "b < unat (max_msgs q)"
  using mq_listsD(5,6)[OF assms(1)] assms(2) by auto

lemma free_none_iff: "mq_lists F q fs us \<Longrightarrow> msg_queue_free q = None \<longleftrightarrow> fs = []"
  using chain_head[OF mq_listsD(1), of F q fs us] by (auto split: list.splits)

lemma take_free_step:
  assumes "mq_lists F q (b # fs) us"
  shows "mq_take_free q = Some (b, q\<lparr>msg_queue_free := msg_next q b\<rparr>)"
    "mq_lists (insert b F) (q\<lparr>msg_queue_free := msg_next q b\<rparr>) fs us"
  using assms by (auto simp: mq_take_free_def mq_lists_def)

lemma link_step:
  assumes "mq_lists F q fs us" "b \<in> F"
  shows "mq_lists F (q\<lparr>msg_next := (msg_next q)(b := x)\<rparr>) fs us"
  using assms in_flight[OF assms] by (simp add: mq_lists_def)

lemma write_step:
  assumes m: "mq_lists F q fs us" and b: "b \<in> F" and l: "length buffer \<le> unat (msg_size q)"
  shows "mq_write b buffer q = Some (q\<lparr>msg_data := (msg_data q)(b := buffer @ drop (length buffer) (msg_data q b))\<rparr>)"
    "mq_lists F (q\<lparr>msg_data := (msg_data q)(b := buffer @ drop (length buffer) (msg_data q b))\<rparr>) fs us"
proof -
  have "length (msg_data q b) = unat (msg_size q)" using mq_listsD(8)[OF m in_flight(3)[OF m b]] .
  then show "mq_write b buffer q = Some (q\<lparr>msg_data := (msg_data q)(b := buffer @ drop (length buffer) (msg_data q b))\<rparr>)"
    "mq_lists F (q\<lparr>msg_data := (msg_data q)(b := buffer @ drop (length buffer) (msg_data q b))\<rparr>) fs us"
    using m l by (auto simp: mq_write_def memcpy_def mq_lists_def)
qed

lemma count_room:
  assumes m: "mq_lists F q fs us" and b: "b \<in> F"
  shows "mq_entry q < 0xffff" "unat (mq_entry q + 1) = unat (mq_entry q) + 1"
proof -
  have "finite (F \<union> set (fs @ us))" unfolding mq_listsD(6)[OF m] by simp
  then have "card (insert b (set us)) \<le> card (F \<union> set (fs @ us))" using b by (intro card_mono) auto
  also have "\<dots> = unat (max_msgs q)" unfolding mq_listsD(6)[OF m] by simp
  also have "\<dots> < 2 ^ LENGTH(16)" by (rule unsigned_less)
  finally have "Suc (length us) < 65536"
    using in_flight(2)[OF m b] mq_listsD(4)[OF m] by (simp add: distinct_card)
  then show "mq_entry q < 0xffff" "unat (mq_entry q + 1) = unat (mq_entry q) + 1"
    using mq_listsD(7)[OF m] unat_add_lem[of "mq_entry q" 1] by (simp_all add: word_less_nat_alt)
qed

lemma link_tail_step:
  assumes m: "mq_lists F q fs us" and b: "b \<in> F" and n: "msg_next q b = None"
  shows "\<exists>q'. mq_link_tail b q = (0, q') \<and> mq_lists (F - {b}) q' fs (us @ [b]) \<and> msg_data q' = msg_data q \<and>
    max_msgs q' = max_msgs q \<and> msg_size q' = msg_size q"
proof -
  note fl = in_flight[OF m b] and room = count_room[OF m b]
  let ?nx = "case msg_queue_tail q of Some t \<Rightarrow> (msg_next q)(t := Some b) | None \<Rightarrow> msg_next q"
  let ?q' = "q\<lparr>msg_next := ?nx, msg_queue_tail := Some b,
     msg_queue_head := (if msg_queue_head q = None then Some b else msg_queue_head q), mq_entry := mq_entry q + 1\<rparr>"
  have r: "mq_link_tail b q = (0, ?q')" using room(1)
    by (simp add: mq_link_tail_def mq_count_up_def Let_def split: option.split)
  have t: "chain ?nx (if msg_queue_head q = None then Some b else msg_queue_head q) (us @ [b])"
  proof (cases us)
    case Nil
    then show ?thesis using mq_listsD(2,3)[OF m] n by simp
  next
    case (Cons u us')
    have "chain ((msg_next q)(last us := Some b)) (msg_queue_head q) (us @ [b])"
      by (rule chain_snoc[OF mq_listsD(2)[OF m]]) (use Cons mq_listsD(4)[OF m] fl n in auto)
    moreover have "msg_queue_head q = Some u" "msg_queue_tail q = Some (last us)"
      using chain_head[OF mq_listsD(2)[OF m]] mq_listsD(3)[OF m] Cons by simp_all
    ultimately show ?thesis by simp
  qed
  have f: "chain ?nx (msg_queue_free q) fs"
  proof (cases "us = []")
    case False
    then have "last us \<notin> set fs" using mq_listsD(4)[OF m] last_in_set[of us] by auto
    then show ?thesis using mq_listsD(1,3)[OF m] False by simp
  qed (use mq_listsD(1,3)[OF m] in simp)
  have "mq_lists (F - {b}) ?q' fs (us @ [b])"
    using t f mq_listsD(4-8)[OF m] fl b room(2) unfolding mq_lists_def by auto
  then show ?thesis using r by auto
qed

lemma link_head_step:
  assumes m: "mq_lists F q fs us" and b: "b \<in> F"
  shows "\<exists>q'. mq_link_head b q = (0, q') \<and> mq_lists (F - {b}) q' fs (b # us) \<and> msg_data q' = msg_data q \<and>
    max_msgs q' = max_msgs q \<and> msg_size q' = msg_size q"
proof -
  note fl = in_flight[OF m b] and room = count_room[OF m b]
  let ?q' = "q\<lparr>msg_next := (msg_next q)(b := msg_queue_head q), msg_queue_head := Some b,
     msg_queue_tail := (if msg_queue_tail q = None then Some b else msg_queue_tail q), mq_entry := mq_entry q + 1\<rparr>"
  have r: "mq_link_head b q = (0, ?q')" using room(1) by (simp add: mq_link_head_def mq_count_up_def)
  have "mq_lists (F - {b}) ?q' fs (b # us)"
    using mq_listsD(1-8)[OF m] fl b room(2) unfolding mq_lists_def by auto
  then show ?thesis using r by auto
qed

lemma unlink_step:
  assumes m: "mq_lists F q fs (b # us)"
  shows "\<exists>q'. mq_unlink q = Some (b, q') \<and> mq_lists (insert b F) (mq_count_down q') fs us \<and> msg_data q' = msg_data q \<and>
    max_msgs q' = max_msgs q \<and> msg_size q' = msg_size q"
proof -
  let ?q' = "q\<lparr>msg_queue_head := msg_next q b, msg_queue_tail := (if msg_queue_tail q = Some b then None else msg_queue_tail q)\<rparr>"
  have h: "msg_queue_head q = Some b" "b \<notin> set us" using mq_listsD(2,4)[OF m] by auto
  have tl: "msg_queue_tail ?q' = (if us = [] then None else Some (last us))"
    using mq_listsD(3)[OF m] h(2) by (cases us rule: rev_cases) auto
  have e: "unat (mq_entry q) = Suc (length us)" using mq_listsD(7)[OF m] by simp
  then have e': "mq_entry q > 0" "unat (mq_entry q - 1) = length us"
    by (simp_all add: word_gt_0 unat_minus_one unat_eq_0[symmetric])
  have "mq_lists (insert b F) (mq_count_down ?q') fs us"
    using mq_listsD(1,2,4-8)[OF m] tl e' h unfolding mq_lists_def mq_count_down_def by auto
  moreover have "mq_unlink q = Some (b, ?q')" using h by (simp add: mq_unlink_def)
  ultimately show ?thesis by auto
qed

lemma free_step:
  assumes m: "mq_lists F q fs us" and b: "b \<in> F"
  shows "mq_lists (F - {b}) (mq_free b q) (b # fs) us"
  using mq_listsD(1-8)[OF m] in_flight[OF m b] b unfolding mq_lists_def mq_free_def by auto

lemma fresh_lists:
  assumes "\<And>b. b < unat cap' \<Longrightarrow> length (data b) = unat msize"
  shows "mq_lists {} (mq_fresh msize cap' links data) (rev [0..<unat cap']) []"
proof -
  let ?q0 = "\<lparr>msg_size = msize, max_msgs = cap', mq_entry = 0, msg_next = links, msg_data = data,
        msg_queue_head = None, msg_queue_tail = None, msg_queue_free = None\<rparr>"
  have "mq_lists {j..<unat cap'} (fold mq_free [0..<j] ?q0) (rev [0..<j]) []" if "j \<le> unat cap'" for j
    using that
  proof (induction j)
    case 0
    then show ?case using assms by (auto simp: mq_lists_def)
  next
    case (Suc j)
    have "{j..<unat cap'} - {j} = {Suc j..<unat cap'}" by auto
    then show ?case using free_step[OF Suc.IH, of j] Suc.prems by simp
  qed
  from this[of "unat cap'"] show ?thesis by (simp add: mq_fresh_def)
qed

section \<open>Interleaved senders and receivers\<close>

text \<open>
  Every atomic step any number of senders, urgent senders and receivers can take on one queue, in any
  order: claim a free block, fill and link it at either end, unlink the first message, put its block
  back. The set is the blocks in flight.
\<close>

inductive mq_step :: "rt_messagequeue \<times> nat set \<Rightarrow> rt_messagequeue \<times> nat set \<Rightarrow> bool" where
  claim: "mq_take_free q = Some (b, q') \<Longrightarrow> mq_step (q, F) (q', insert b F)"
| send: "b \<in> F \<Longrightarrow> length buffer \<le> unat (msg_size q) \<Longrightarrow>
    mq_write b buffer (q\<lparr>msg_next := (msg_next q)(b := None)\<rparr>) = Some q1 \<Longrightarrow> mq_link_tail b q1 = (r, q') \<Longrightarrow>
    mq_step (q, F) (q', F - {b})"
| urgent: "b \<in> F \<Longrightarrow> length buffer \<le> unat (msg_size q) \<Longrightarrow> mq_write b buffer q = Some q1 \<Longrightarrow>
    mq_link_head b q1 = (r, q') \<Longrightarrow> mq_step (q, F) (q', F - {b})"
| unlink: "mq_unlink q = Some (b, q') \<Longrightarrow> mq_step (q, F) (mq_count_down q', insert b F)"
| free: "b \<in> F \<Longrightarrow> mq_step (q, F) (mq_free b q, F - {b})"

inductive mq_reachable :: "rt_messagequeue \<Rightarrow> rt_messagequeue \<times> nat set \<Rightarrow> bool" for q0 where
  start: "mq_reachable q0 (q0, {})"
| step: "mq_reachable q0 x \<Longrightarrow> mq_step x y \<Longrightarrow> mq_reachable q0 y"

lemma mq_step_lists:
  assumes "mq_step x y" "mq_lists (snd x) (fst x) fs us"
  shows "\<exists>fs' us'. mq_lists (snd y) (fst y) fs' us'"
  using assms
proof (induction rule: mq_step.induct)
  case (claim q b q' F)
  then obtain fs' where "fs = b # fs'"
    using chain_head[OF mq_listsD(1)[OF claim(2)]] by (auto simp: mq_take_free_def split: option.splits list.splits)
  then show ?case using take_free_step[of F q b fs' us] claim by auto
next
  case (send b F buffer q q1 r q')
  have l: "mq_lists F (q\<lparr>msg_next := (msg_next q)(b := None)\<rparr>) fs us" using link_step[of F q fs us b] send by simp
  have "mq_lists F q1 fs us" "msg_next q1 b = None" using write_step[OF l send(1)] send(2,3) by auto
  then show ?case using link_tail_step[of F q1 fs us b] send by auto
next
  case (urgent b F buffer q q1 r q')
  have "mq_lists F q1 fs us" using write_step[of F q fs us b buffer] urgent by auto
  then show ?case using link_head_step[of F q1 fs us b] urgent by auto
next
  case (unlink q b q' F)
  then obtain us' where "us = b # us'"
    using chain_head[OF mq_listsD(2)[OF unlink(2)]] by (auto simp: mq_unlink_def split: option.splits list.splits)
  then show ?case using unlink_step[of F q fs b us'] unlink by auto
next
  case (free b F q)
  then show ?case using free_step[of F q fs us b] by auto
qed

lemma mq_reachable_lists:
  assumes "mq_lists {} q0 fs us"
  shows "mq_reachable q0 x \<Longrightarrow> \<exists>fs us. mq_lists (snd x) (fst x) fs us"
  by (induction rule: mq_reachable.induct) (use assms mq_step_lists in force)+

text \<open>The reset loop ends with every block free.\<close>

lemma unlink_uncounted:
  assumes m: "mq_lists {} (q\<lparr>mq_entry := of_nat (length (b # us))\<rparr>) fs (b # us)"
  shows "\<exists>q'. mq_unlink q = Some (b, q') \<and> mq_lists {b} (q'\<lparr>mq_entry := of_nat (length us)\<rparr>) fs us \<and>
    max_msgs q' = max_msgs q \<and> msg_size q' = msg_size q"
proof -
  let ?q' = "q\<lparr>msg_queue_head := msg_next q b, msg_queue_tail := (if msg_queue_tail q = Some b then None else msg_queue_tail q)\<rparr>"
  have h: "msg_queue_head q = Some b" using mq_listsD(2)[OF m] by simp
  have pos: "(of_nat (length (b # us)) :: u16) > 0"
    using mq_listsD(7)[OF m] by (auto simp: word_gt_0)
  obtain x where x: "mq_unlink (q\<lparr>mq_entry := of_nat (length (b # us))\<rparr>) = Some (b, x)" "mq_lists {b} (mq_count_down x) fs us"
    using unlink_step[OF m] by auto
  have "x = ?q'\<lparr>mq_entry := of_nat (length (b # us))\<rparr>" using x(1) h by (cases q) (auto simp: mq_unlink_def)
  then have "mq_count_down x = ?q'\<lparr>mq_entry := of_nat (length us)\<rparr>" using pos by (simp add: mq_count_down_def)
  then have "mq_lists {b} (?q'\<lparr>mq_entry := of_nat (length us)\<rparr>) fs us" using x(2) by (simp only:)
  moreover have "mq_unlink q = Some (b, ?q')" using h by (simp add: mq_unlink_def)
  ultimately show ?thesis by auto
qed

lemma mq_drain_eff:
  "mq_lists {} (q\<lparr>mq_entry := of_nat (length us)\<rparr>) fs us \<Longrightarrow>
   \<exists>q' fs'. mq_drain q = Some q' \<and> mq_lists {} (q'\<lparr>mq_entry := 0\<rparr>) fs' [] \<and> max_msgs q' = max_msgs q \<and> msg_size q' = msg_size q"
proof (induction us arbitrary: q fs)
  case Nil
  have "mq_unlink q = None" using chain_head[OF mq_listsD(2)[OF Nil]] by (simp add: mq_unlink_def)
  then show ?case using Nil by (auto simp: mq_drain.simps[of q])
next
  case (Cons b us)
  obtain q1 where q1: "mq_unlink q = Some (b, q1)" "mq_lists {b} (q1\<lparr>mq_entry := of_nat (length us)\<rparr>) fs us"
    "max_msgs q1 = max_msgs q" "msg_size q1 = msg_size q"
    using unlink_uncounted[OF Cons.prems] by blast
  have "mq_free b (q1\<lparr>mq_entry := of_nat (length us)\<rparr>) = (mq_free b q1)\<lparr>mq_entry := of_nat (length us)\<rparr>"
    by (cases q1) (simp add: mq_free_def)
  then have "mq_lists {} ((mq_free b q1)\<lparr>mq_entry := of_nat (length us)\<rparr>) (b # fs) us"
    using free_step[OF q1(2), of b] by simp
  from Cons.IH[OF this] show ?case using q1 by (simp add: mq_drain.simps[of q] mq_free_def)
qed

section \<open>The abstract message queue\<close>

text \<open>
  With no block in flight: the messages, each of the block size, the receivers and the senders waiting.
\<close>

definition mq_ok :: "rt_messagequeue \<Rightarrow> bool" where
  "mq_ok q \<longleftrightarrow> (\<exists>fs us. mq_lists {} q fs us)"

primrec walk :: "(nat \<Rightarrow> nat option) \<Rightarrow> nat \<Rightarrow> nat option \<Rightarrow> nat list" where
  "walk nx 0 p = []"
| "walk nx (Suc k) p = (case p of None \<Rightarrow> [] | Some b \<Rightarrow> b # walk nx k (nx b))"

lemma walk_chain: "chain nx p bs \<Longrightarrow> walk nx (length bs) p = bs"
  by (induction bs arbitrary: p) auto

definition mq_msgs :: "rt_messagequeue \<Rightarrow> u8 list list" where
  "mq_msgs q = map (msg_data q) (walk (msg_next q) (unat (mq_entry q)) (msg_queue_head q))"

lemma mq_msgs_lists: "mq_lists F q fs us \<Longrightarrow> mq_msgs q = map (msg_data q) us"
  using walk_chain[OF mq_listsD(2)] mq_listsD(7) by (metis mq_msgs_def)

type_synonym abs_mq = "u8 list list \<times> tid list \<times> tid list"

definition mq_abs :: "nat \<Rightarrow> ipc_sys \<Rightarrow> abs_mq" where
  "mq_abs n s = (mq_msgs (mqs s n), queues s (Suspended (MsgQueue n)), queues s (Senders (MsgQueue n)))"

definition mq_capacity :: "nat \<Rightarrow> ipc_sys \<Rightarrow> nat" where
  "mq_capacity n s = unat (max_msgs (mqs s n))"

text \<open>What the block of an accepted message holds: the sender's bytes, then what the block held before.\<close>

definition stored :: "u8 list \<Rightarrow> nat \<Rightarrow> u8 list \<Rightarrow> bool" where
  "stored buffer size' d \<longleftrightarrow> length d = size' \<and> take (length buffer) d = buffer"

lemma mq_full_iff:
  assumes "mq_lists {} q fs us"
  shows "msg_queue_free q = None \<longleftrightarrow> length us = unat (max_msgs q)"
proof -
  have "card (set (fs @ us)) = unat (max_msgs q)" using mq_listsD(6)[OF assms] by simp
  then have "length fs + length us = unat (max_msgs q)"
    using distinct_card[OF mq_listsD(4)[OF assms]] by simp
  then show ?thesis using free_none_iff[OF assms] by auto
qed

lemma mq_push_eff:
  assumes m: "mq_lists {} q fs us" and f: "msg_queue_free q \<noteq> None" and l: "length buffer \<le> unat (msg_size q)"
  shows "\<exists>b q1 q2 q3 d. mq_take_free q = Some (b, q1) \<and> mq_write b buffer (q1\<lparr>msg_next := (msg_next q1)(b := None)\<rparr>) = Some q2 \<and>
    mq_link_tail b q2 = (0, q3) \<and> mq_ok q3 \<and> mq_msgs q3 = mq_msgs q @ [d] \<and> stored buffer (unat (msg_size q)) d \<and>
    max_msgs q3 = max_msgs q \<and> msg_size q3 = msg_size q"
proof -
  obtain b fs' where fs: "fs = b # fs'" using f free_none_iff[OF m] by (cases fs) auto
  have m0: "mq_lists {} q (b # fs') us" using m fs by simp
  let ?q1 = "q\<lparr>msg_queue_free := msg_next q b\<rparr>"
  note t = take_free_step[OF m0]
  let ?q1' = "?q1\<lparr>msg_next := (msg_next ?q1)(b := None)\<rparr>"
  have m1: "mq_lists {b} ?q1' fs' us" using link_step[OF t(2), of b None] by simp
  let ?d = "buffer @ drop (length buffer) (msg_data q b)"
  let ?q2 = "?q1'\<lparr>msg_data := (msg_data ?q1')(b := ?d)\<rparr>"
  have w: "mq_write b buffer ?q1' = Some ?q2" "mq_lists {b} ?q2 fs' us"
    using write_step[OF m1, of b buffer] l by simp_all
  obtain q3 where q3: "mq_link_tail b ?q2 = (0, q3)" "mq_lists ({b} - {b}) q3 fs' (us @ [b])" "msg_data q3 = msg_data ?q2"
    "max_msgs q3 = max_msgs ?q2" "msg_size q3 = msg_size ?q2"
    using link_tail_step[OF w(2), of b] by auto
  have q3': "mq_lists {} q3 fs' (us @ [b])" using q3(2) by simp
  have "b \<notin> set us" using mq_listsD(4)[OF m0] by auto
  then have "mq_msgs q3 = mq_msgs q @ [?d]"
    unfolding mq_msgs_lists[OF q3'] mq_msgs_lists[OF m] q3(3) by simp
  moreover have "b < unat (max_msgs q)" using mq_listsD(6)[OF m0] by auto
  then have "stored buffer (unat (msg_size q)) ?d" using mq_listsD(8)[OF m0, of b] l by (simp add: stored_def)
  ultimately show ?thesis using t(1) w(1) q3(1,4,5) q3' unfolding mq_ok_def by fastforce
qed

lemma mq_push_front_eff:
  assumes m: "mq_lists {} q fs us" and f: "msg_queue_free q \<noteq> None" and l: "length buffer \<le> unat (msg_size q)"
  shows "\<exists>b q1 q2 q3 d. mq_take_free q = Some (b, q1) \<and> mq_write b buffer q1 = Some q2 \<and>
    mq_link_head b q2 = (0, q3) \<and> mq_ok q3 \<and> mq_msgs q3 = d # mq_msgs q \<and> stored buffer (unat (msg_size q)) d \<and>
    max_msgs q3 = max_msgs q \<and> msg_size q3 = msg_size q"
proof -
  obtain b fs' where fs: "fs = b # fs'" using f free_none_iff[OF m] by (cases fs) auto
  have m0: "mq_lists {} q (b # fs') us" using m fs by simp
  let ?q1 = "q\<lparr>msg_queue_free := msg_next q b\<rparr>"
  note t = take_free_step[OF m0]
  let ?d = "buffer @ drop (length buffer) (msg_data q b)"
  let ?q2 = "?q1\<lparr>msg_data := (msg_data ?q1)(b := ?d)\<rparr>"
  have w: "mq_write b buffer ?q1 = Some ?q2" "mq_lists {b} ?q2 fs' us"
    using write_step[OF t(2), of b buffer] l by simp_all
  obtain q3 where q3: "mq_link_head b ?q2 = (0, q3)" "mq_lists ({b} - {b}) q3 fs' (b # us)" "msg_data q3 = msg_data ?q2"
    "max_msgs q3 = max_msgs ?q2" "msg_size q3 = msg_size ?q2"
    using link_head_step[OF w(2), of b] by auto
  have q3': "mq_lists {} q3 fs' (b # us)" using q3(2) by simp
  have "b \<notin> set us" using mq_listsD(4)[OF m0] by auto
  then have "mq_msgs q3 = ?d # mq_msgs q"
    unfolding mq_msgs_lists[OF q3'] mq_msgs_lists[OF m] q3(3) by simp
  moreover have "b < unat (max_msgs q)" using mq_listsD(6)[OF m0] by auto
  then have "stored buffer (unat (msg_size q)) ?d" using mq_listsD(8)[OF m0, of b] l by (simp add: stored_def)
  ultimately show ?thesis using t(1) w(1) q3(1,4,5) q3' unfolding mq_ok_def by fastforce
qed

lemma mq_pop_eff:
  assumes m: "mq_lists {} q fs us" and e: "mq_msgs q = d # ds"
  shows "\<exists>b q1. mq_unlink q = Some (b, q1) \<and> msg_data q1 b = d \<and> mq_ok (mq_free b (mq_count_down q1)) \<and>
    mq_msgs (mq_free b (mq_count_down q1)) = ds \<and> max_msgs q1 = max_msgs q \<and> msg_size q1 = msg_size q"
proof -
  obtain b us' where us: "us = b # us'" "d = msg_data q b" "ds = map (msg_data q) us'"
    using e mq_msgs_lists[OF m] by auto
  obtain q1 where q1: "mq_unlink q = Some (b, q1)" "mq_lists {b} (mq_count_down q1) fs us'" "msg_data q1 = msg_data q"
    "max_msgs q1 = max_msgs q" "msg_size q1 = msg_size q"
    using unlink_step[of "{}" q fs b us'] m us(1) by auto
  have f: "mq_lists {} (mq_free b (mq_count_down q1)) (b # fs) us'" using free_step[OF q1(2), of b] by simp
  have "mq_msgs (mq_free b (mq_count_down q1)) = ds"
    unfolding mq_msgs_lists[OF f] us(3) using q1(3) by (simp add: mq_free_def mq_count_down_def)
  then show ?thesis using q1 f us(2) unfolding mq_ok_def by auto
qed

lemma upd_mq_obs [simp]:
  "mqs (upd_mq n x s) k = (if k = n then x else mqs s k)"
  "queues (upd_mq n x s) = queues s" "tcb (upd_mq n x s) = tcb s" "current_thread (upd_mq n x s) = current_thread s"
  "interrupt_nest (upd_mq n x s) = interrupt_nest s" "st (upd_mq n x s) = st s" "ipc_flag (upd_mq n x s) = ipc_flag s"
  "kinv_at m b (upd_mq n x s) = kinv_at m b s" "runnable (upd_mq n x s) = runnable s"
  by (simp_all add: upd_mq_def runnable_def st_def fun_eq_iff)

lemma upd_mq_touches [simp]: "touches (MsgQueue n) s (upd_mq n x s)"
  by (simp add: touches_def upd_mq_def)

lemma mq_wake_contract:
  assumes k: "kinv_at m b s" and c: "current_thread s \<noteq> None" and l: "l = Suspended (MsgQueue n) \<or> l = Senders (MsgQueue n)"
  shows "\<exists>s'. wake_first l (upd_mq n x s) = Some s' \<and> kinv_at m b s' \<and> current_thread s' \<noteq> None \<and>
    touches (MsgQueue n) s s' \<and> mqs s' n = x \<and> queues s' l = tl (queues s l) \<and>
    (\<forall>l'. (\<forall>p. l' \<noteq> Ready p) \<longrightarrow> l' \<noteq> l \<longrightarrow> queues s' l' = queues s l') \<and>
    (\<forall>t ts. queues s l = t # ts \<longrightarrow> runnable s' t \<and> error (tcb s' t) = error (tcb s t))"
proof -
  have k1: "kinv_at m b (upd_mq n x s)" "current_thread (upd_mq n x s) \<noteq> None" using k c by simp_all
  obtain s' where s': "wake_first l (upd_mq n x s) = Some s'" "kinv_at m b s'" "current_thread s' \<noteq> None"
    "touches (MsgQueue n) (upd_mq n x s) s'" "queues s' l = tl (queues (upd_mq n x s) l)"
    "\<forall>l'. (\<forall>p. l' \<noteq> Ready p) \<longrightarrow> l' \<noteq> l \<longrightarrow> queues s' l' = queues (upd_mq n x s) l'"
    "timer_sys.more s' = timer_sys.more (upd_mq n x s)"
    "\<forall>t ts. queues (upd_mq n x s) l = t # ts \<longrightarrow> runnable s' t \<and> error (tcb s' t) = error (tcb (upd_mq n x s) t)"
    using wake_first_eff[OF k1 l] by blast
  have "mqs s' n = x" using more_ipc(7)[OF s'(7)] by simp
  then show ?thesis using s' touches_trans[OF upd_mq_touches s'(4)] by simp
qed

text \<open>What a call does, beside its result: the invariants and the object's capacity are kept.\<close>

definition mq_call_ok :: "nat \<Rightarrow> rt_tick_t \<Rightarrow> nat \<Rightarrow> ipc_sys \<Rightarrow> ipc_sys \<Rightarrow> bool" where
  "mq_call_ok m b n s s' \<longleftrightarrow> kinv_at m b s' \<and> current_thread s' \<noteq> None \<and> touches (MsgQueue n) s s' \<and> mq_ok (mqs s' n) \<and>
     max_msgs (mqs s' n) = max_msgs (mqs s n) \<and> msg_size (mqs s' n) = msg_size (mqs s n)"

lemma mq_full_eq: "mq_ok q \<Longrightarrow> msg_queue_free q = None \<longleftrightarrow> length (mq_msgs q) = unat (max_msgs q)"
  using mq_full_iff mq_msgs_lists by (auto simp: mq_ok_def)

lemma mq_empty_eq: "mq_ok q \<Longrightarrow> mq_entry q = 0 \<longleftrightarrow> mq_msgs q = []"
proof -
  assume "mq_ok q"
  then obtain fs us where m: "mq_lists {} q fs us" by (auto simp: mq_ok_def)
  then show ?thesis using mq_listsD(7)[OF m] mq_msgs_lists[OF m] by (auto simp: unat_eq_0[symmetric])
qed

lemma mq_send_contract:
  assumes k: "kinv_at m b s" and c: "current_thread s \<noteq> None" and ok: "mq_ok (mqs s n)"
    and l: "buffer \<noteq> []" "length buffer \<le> unat (msg_size (mqs s n))"
    and w: "timeout \<noteq> 0 \<Longrightarrow> in_task m b c s \<and> wait_flag_ok (MsgQueue n) s \<and> timeout_ok timeout"
    and ab: "mq_abs n s = (es, rs, ss)"
  shows "\<exists>r s'. rt_mq_send_wait n buffer timeout s = Some (r, s') \<and> mq_call_ok m b n s s' \<and>
    (if length es < mq_capacity n s
     then r = Some 0 \<and> (\<exists>d. stored buffer (unat (msg_size (mqs s n))) d \<and> mq_abs n s' = (es @ [d], tl rs, ss)) \<and>
       (\<forall>t ts. rs = t # ts \<longrightarrow> runnable s' t \<and> error (tcb s' t) = error (tcb s t))
     else if timeout = 0 then r = Some (-3) \<and> mq_abs n s' = (es, rs, ss)
     else r = None \<and> mq_abs n s' = (es, rs, queue_of (MsgQueue n) c s ss) \<and> st s' c = RT_THREAD_SUSPEND \<and> error (tcb s' c) = 0)"
proof -
  have q: "mq_msgs (mqs s n) = es" "queues s (Suspended (MsgQueue n)) = rs" "queues s (Senders (MsgQueue n)) = ss"
    using ab by (simp_all add: mq_abs_def)
  obtain fs us where m: "mq_lists {} (mqs s n) fs us" using ok by (auto simp: mq_ok_def)
  have "length us \<le> unat (max_msgs (mqs s n))"
  proof -
    have "card (set us) \<le> card {..<unat (max_msgs (mqs s n))}"
      using mq_listsD(6)[OF m] by (intro card_mono) auto
    then show ?thesis using mq_listsD(4)[OF m] by (simp add: distinct_card)
  qed
  then have le: "length es \<le> unat (max_msgs (mqs s n))" using mq_msgs_lists[OF m] q(1) by auto
  show ?thesis
  proof (cases "msg_queue_free (mqs s n) = None")
    case False
    then have lt: "length es < mq_capacity n s" using le mq_full_eq[OF ok] q(1) by (simp add: mq_capacity_def)
    obtain b' q1 q2 q3 d where x: "mq_take_free (mqs s n) = Some (b', q1)"
      "mq_write b' buffer (q1\<lparr>msg_next := (msg_next q1)(b' := None)\<rparr>) = Some q2" "mq_link_tail b' q2 = (0, q3)" "mq_ok q3"
      "mq_msgs q3 = mq_msgs (mqs s n) @ [d]" "stored buffer (unat (msg_size (mqs s n))) d"
      "max_msgs q3 = max_msgs (mqs s n)" "msg_size q3 = msg_size (mqs s n)"
      using mq_push_eff[OF m False l(2)] by blast
    obtain s' where s': "wake_first (Suspended (MsgQueue n)) (upd_mq n q3 s) = Some s'" "kinv_at m b s'" "current_thread s' \<noteq> None"
      "touches (MsgQueue n) s s'" "mqs s' n = q3" "queues s' (Suspended (MsgQueue n)) = tl (queues s (Suspended (MsgQueue n)))"
      "\<forall>l'. (\<forall>p. l' \<noteq> Ready p) \<longrightarrow> l' \<noteq> Suspended (MsgQueue n) \<longrightarrow> queues s' l' = queues s l'"
      "\<forall>t ts. queues s (Suspended (MsgQueue n)) = t # ts \<longrightarrow> runnable s' t \<and> error (tcb s' t) = error (tcb s t)"
      using mq_wake_contract[OF k c, of "Suspended (MsgQueue n)" n q3] by blast
    have "rt_mq_send_wait n buffer timeout s = Some (Some 0, s')"
      using l False x(1,2,3) s'(1) by (auto simp: rt_mq_send_wait_def mq_send_loop_def mq_deliver_def)
    moreover have "mq_abs n s' = (es @ [d], tl rs, ss)" using s'(5,6,7) x(5) q by (simp add: mq_abs_def)
    ultimately show ?thesis using s'(2,3,4,5,8) x lt q(2) by (auto simp: mq_call_ok_def)
  next
    case full: True
    have nlt: "\<not> length es < mq_capacity n s" using full mq_full_eq[OF ok] q(1) by (simp add: mq_capacity_def)
    show ?thesis
    proof (cases "timeout = 0")
      case True
      then show ?thesis using full nlt l k c ok ab by (auto simp: rt_mq_send_wait_def mq_call_ok_def)
    next
      case False
      note ww = w[OF False]
      note d = in_taskD[OF conjunct1[OF ww]]
      obtain s1 s' where s': "wait_on (Senders (MsgQueue n)) c (ipc_flag s (MsgQueue n)) timeout (upd_tcb c (\<lambda>th. th\<lparr>error := 0\<rparr>) s) = Some s1"
        "rt_schedule s1 = Some s'" "kinv_at m b s'" "current_thread s' \<noteq> None" "touches (MsgQueue n) s s'"
        "st s' c = RT_THREAD_SUSPEND" "error (tcb s' c) = 0"
        "queues s' (Senders (MsgQueue n)) = queue_of (MsgQueue n) c s (queues s (Senders (MsgQueue n)))"
        "\<forall>l'. (\<forall>p. l' \<noteq> Ready p) \<longrightarrow> l' \<noteq> Senders (MsgQueue n) \<longrightarrow> queues s' l' = queues s l'" "timer_sys.more s' = timer_sys.more s"
        using wait_here_eff[of m b c s "MsgQueue n" timeout "Senders (MsgQueue n)"] ww by blast
      have it: "in_thread_context (upd_tcb c (\<lambda>th. th\<lparr>error := 0\<rparr>) s)" using d(5) by (simp add: in_thread_context_def)
      have "rt_mq_send_wait n buffer timeout s = Some (None, s')"
        using l full False d(2) it s'(1,2) by (simp add: rt_mq_send_wait_def mq_send_loop_def rt_thread_self_def)
      moreover have same: "mqs s' = mqs s" by (rule more_ipc(7)[OF s'(10)])
      moreover have "mq_abs n s' = (es, rs, queue_of (MsgQueue n) c s ss)" using s'(8,9) q same by (simp add: mq_abs_def)
      ultimately show ?thesis using s'(3-7) nlt False ok by (simp add: mq_call_ok_def)
    qed
  qed
qed

lemma mq_recv_contract:
  assumes k: "kinv_at m b s" and c: "current_thread s \<noteq> None" and ok: "mq_ok (mqs s n)" and sz: "size' \<noteq> 0"
    and w: "timeout \<noteq> 0 \<Longrightarrow> in_task m b c s \<and> wait_flag_ok (MsgQueue n) s \<and> timeout_ok timeout"
    and ab: "mq_abs n s = (es, rs, ss)"
  shows "\<exists>r s'. rt_mq_recv n size' timeout s = Some (r, s') \<and> mq_call_ok m b n s s' \<and>
    (case es of
       d # ds \<Rightarrow> r = Some (0, Some (take (min (unat size') (unat (msg_size (mqs s n)))) d)) \<and> mq_abs n s' = (ds, rs, tl ss) \<and>
         (\<forall>t ts. ss = t # ts \<longrightarrow> runnable s' t \<and> error (tcb s' t) = error (tcb s t))
     | [] \<Rightarrow> if timeout = 0 then r = Some (-2, None) \<and> mq_abs n s' = ([], rs, ss)
            else r = None \<and> mq_abs n s' = ([], queue_of (MsgQueue n) c s rs, ss) \<and> st s' c = RT_THREAD_SUSPEND \<and> error (tcb s' c) = 0)"
proof -
  have q: "mq_msgs (mqs s n) = es" "queues s (Suspended (MsgQueue n)) = rs" "queues s (Senders (MsgQueue n)) = ss"
    using ab by (simp_all add: mq_abs_def)
  obtain fs us where m: "mq_lists {} (mqs s n) fs us" using ok by (auto simp: mq_ok_def)
  show ?thesis
  proof (cases es)
    case (Cons d ds)
    then have e: "mq_msgs (mqs s n) = d # ds" using q by simp
    then have ne: "mq_entry (mqs s n) \<noteq> 0" using mq_empty_eq[OF ok] by simp
    obtain b' q1 where x: "mq_unlink (mqs s n) = Some (b', q1)" "msg_data q1 b' = d" "mq_ok (mq_free b' (mq_count_down q1))"
      "mq_msgs (mq_free b' (mq_count_down q1)) = ds" "max_msgs q1 = max_msgs (mqs s n)" "msg_size q1 = msg_size (mqs s n)"
      using mq_pop_eff[OF m e] by blast
    let ?q = "mq_free b' (mq_count_down q1)"
    obtain s' where s': "wake_first (Senders (MsgQueue n)) (upd_mq n ?q s) = Some s'" "kinv_at m b s'" "current_thread s' \<noteq> None"
      "touches (MsgQueue n) s s'" "mqs s' n = ?q" "queues s' (Senders (MsgQueue n)) = tl (queues s (Senders (MsgQueue n)))"
      "\<forall>l'. (\<forall>p. l' \<noteq> Ready p) \<longrightarrow> l' \<noteq> Senders (MsgQueue n) \<longrightarrow> queues s' l' = queues s l'"
      "\<forall>t ts. queues s (Senders (MsgQueue n)) = t # ts \<longrightarrow> runnable s' t \<and> error (tcb s' t) = error (tcb s t)"
      using mq_wake_contract[OF k c, of "Senders (MsgQueue n)" n ?q] by blast
    have ms: "msg_size (mq_count_down q1) = msg_size (mqs s n)" "msg_data (mq_count_down q1) b' = d"
      "max_msgs ?q = max_msgs (mqs s n)" "msg_size ?q = msg_size (mqs s n)"
      using x by (simp_all add: mq_count_down_def mq_free_def)
    have "rt_mq_recv n size' timeout s = Some (Some (0, Some (take (min (unat size') (unat (msg_size (mqs s n)))) d)), s')"
      using ne sz x(1) s'(1) ms by (simp add: rt_mq_recv_def mq_recv_loop_def mq_fetch_def Let_def min_def)
    then show ?thesis using s'(2-8) x(3,4) ms Cons q by (simp add: mq_call_ok_def mq_abs_def)
  next
    case Nil
    then have z: "mq_entry (mqs s n) = 0" using mq_empty_eq[OF ok] q by simp
    show ?thesis
    proof (cases "timeout = 0")
      case True
      then show ?thesis using z Nil sz k c ok ab by (simp add: rt_mq_recv_def mq_call_ok_def)
    next
      case False
      note ww = w[OF False]
      note d = in_taskD[OF conjunct1[OF ww]]
      obtain s1 s' where s': "wait_on (Suspended (MsgQueue n)) c (ipc_flag s (MsgQueue n)) timeout (upd_tcb c (\<lambda>th. th\<lparr>error := 0\<rparr>) s) = Some s1"
        "rt_schedule s1 = Some s'" "kinv_at m b s'" "current_thread s' \<noteq> None" "touches (MsgQueue n) s s'"
        "st s' c = RT_THREAD_SUSPEND" "error (tcb s' c) = 0"
        "queues s' (Suspended (MsgQueue n)) = queue_of (MsgQueue n) c s (queues s (Suspended (MsgQueue n)))"
        "\<forall>l'. (\<forall>p. l' \<noteq> Ready p) \<longrightarrow> l' \<noteq> Suspended (MsgQueue n) \<longrightarrow> queues s' l' = queues s l'" "timer_sys.more s' = timer_sys.more s"
        using wait_here_eff[of m b c s "MsgQueue n" timeout "Suspended (MsgQueue n)"] ww by blast
      have "rt_mq_recv n size' timeout s = Some (None, s')"
        using sz z False d(2,5) s'(1,2) by (simp add: rt_mq_recv_def mq_recv_loop_def rt_thread_self_def)
      moreover have same: "mqs s' = mqs s" by (rule more_ipc(7)[OF s'(10)])
      moreover have "mq_abs n s' = ([], queue_of (MsgQueue n) c s rs, ss)" using s'(8,9) q same Nil by (simp add: mq_abs_def)
      ultimately show ?thesis using s'(3-7) Nil False ok by (simp add: mq_call_ok_def)
    qed
  qed
qed

lemma mq_urgent_contract:
  assumes k: "kinv_at m b s" and c: "current_thread s \<noteq> None" and ok: "mq_ok (mqs s n)"
    and l: "buffer \<noteq> []" "length buffer \<le> unat (msg_size (mqs s n))" and ab: "mq_abs n s = (es, rs, ss)"
  shows "\<exists>r s'. rt_mq_urgent n buffer s = Some (r, s') \<and> mq_call_ok m b n s s' \<and>
    (if msg_queue_free (mqs s n) = None then r = -3 \<and> mq_abs n s' = (es, rs, ss)
     else r = 0 \<and> (\<exists>d. stored buffer (unat (msg_size (mqs s n))) d \<and> mq_abs n s' = (d # es, tl rs, ss)))"
proof (cases "msg_queue_free (mqs s n) = None")
  case True
  then show ?thesis using l k c ok ab by (auto simp: rt_mq_urgent_def mq_call_ok_def)
next
  case False
  have q: "mq_msgs (mqs s n) = es" "queues s (Suspended (MsgQueue n)) = rs" "queues s (Senders (MsgQueue n)) = ss"
    using ab by (simp_all add: mq_abs_def)
  obtain fs us where m: "mq_lists {} (mqs s n) fs us" using ok by (auto simp: mq_ok_def)
  obtain b' q1 q2 q3 d where x: "mq_take_free (mqs s n) = Some (b', q1)"
    "mq_write b' buffer q1 = Some q2" "mq_link_head b' q2 = (0, q3)" "mq_ok q3"
    "mq_msgs q3 = d # mq_msgs (mqs s n)" "stored buffer (unat (msg_size (mqs s n))) d"
    "max_msgs q3 = max_msgs (mqs s n)" "msg_size q3 = msg_size (mqs s n)"
    using mq_push_front_eff[OF m False l(2)] by blast
  obtain s' where s': "wake_first (Suspended (MsgQueue n)) (upd_mq n q3 s) = Some s'" "kinv_at m b s'" "current_thread s' \<noteq> None"
    "touches (MsgQueue n) s s'" "mqs s' n = q3" "queues s' (Suspended (MsgQueue n)) = tl (queues s (Suspended (MsgQueue n)))"
    "\<forall>l'. (\<forall>p. l' \<noteq> Ready p) \<longrightarrow> l' \<noteq> Suspended (MsgQueue n) \<longrightarrow> queues s' l' = queues s l'"
    using mq_wake_contract[OF k c, of "Suspended (MsgQueue n)" n q3] by blast
  have "rt_mq_urgent n buffer s = Some (0, s')" using l False x(1,2,3) s'(1) by (auto simp: rt_mq_urgent_def)
  then show ?thesis using False s' x q by (auto simp: mq_call_ok_def mq_abs_def)
qed

lemma mq_reset_contract:
  assumes k: "kinv_at m b s" and c: "current_thread s \<noteq> None" and ok: "mq_ok (mqs s n)"
  shows "\<exists>s'. rt_mq_control n True s = Some (0, s') \<and> mq_call_ok m b n s s' \<and> mq_abs n s' = ([], [], []) \<and>
    (\<forall>t \<in> set (queues s (Suspended (MsgQueue n))) \<union> set (queues s (Senders (MsgQueue n))). runnable s' t \<and> error (tcb s' t) = -1)"
proof -
  obtain s1 where s1: "resume_both (MsgQueue n) s = Some s1" "kinv_at m b s1" "kept s s1" "touches (MsgQueue n) s s1"
    "queues s1 (Suspended (MsgQueue n)) = []" "queues s1 (Senders (MsgQueue n)) = []"
    "\<forall>t \<in> set (queues s (Suspended (MsgQueue n))) \<union> set (queues s (Senders (MsgQueue n))). runnable s1 t \<and> error (tcb s1 t) = -1"
    using resume_both_eff[OF k, of "MsgQueue n"] by blast
  have same: "mqs s1 = mqs s" by (rule more_ipc(7)[OF keptD(5)[OF s1(3)]])
  obtain fs us where m: "mq_lists {} (mqs s n) fs us" using ok by (auto simp: mq_ok_def)
  have "(mqs s n)\<lparr>mq_entry := of_nat (length us)\<rparr> = mqs s n"
    using mq_listsD(7)[OF m] by simp
  then have m': "mq_lists {} ((mqs s n)\<lparr>mq_entry := of_nat (length us)\<rparr>) fs us" using m by simp
  obtain q fs' where q: "mq_drain (mqs s n) = Some q" "mq_lists {} (q\<lparr>mq_entry := 0\<rparr>) fs' []"
    "max_msgs q = max_msgs (mqs s n)" "msg_size q = msg_size (mqs s n)"
    using mq_drain_eff[OF m'] by blast
  let ?s2 = "upd_mq n (q\<lparr>mq_entry := 0\<rparr>) s1"
  have k2: "kinv_at m b ?s2" "current_thread ?s2 \<noteq> None" using s1(2) c keptD(1)[OF s1(3)] by simp_all
  obtain s' where s': "rt_schedule ?s2 = Some s'" "kinv_at m b s'" "current_thread s' \<noteq> None" "scheduled ?s2 s'"
    using schedule_eff[OF k2] by blast
  have mx: "mqs s' n = q\<lparr>mq_entry := 0\<rparr>" using more_ipc(7)[OF scheduledD(7)[OF s'(4)]] by simp
  have "mq_ok (mqs s' n)" unfolding mx mq_ok_def using q(2) by blast
  moreover have "mq_abs n s' = ([], [], [])"
    using mx scheduledD(1)[OF s'(4), of "Suspended (MsgQueue n)"] scheduledD(1)[OF s'(4), of "Senders (MsgQueue n)"] s1(5,6)
    by (simp add: mq_abs_def mq_msgs_def)
  moreover have "touches (MsgQueue n) s s'"
    by (rule touches_trans[OF s1(4) touches_trans[OF upd_mq_touches scheduled_touches[OF s'(4)]]])
  moreover have "rt_mq_control n True s = Some (0, s')" using s1(1) q(1) s'(1) same by (simp add: rt_mq_control_def)
  ultimately show ?thesis using s'(2,3) mx q(3,4) s1(7) schedule_keeps_error[OF s'(4)] by (simp add: mq_call_ok_def)
qed

section \<open>Properties\<close>

text \<open>
  C10. Sending a message of acceptable size: with a free block a copy is appended, padded to the block
  size, and the first receiver is woken; without one a poll returns -RT_EFULL and a waiting call is
  queued with the senders. Blocks and both invariants are kept, and no other object is touched.
\<close>

theorem mq_send_refines:
  assumes "in_task m b c s" "wait_flag_ok (MsgQueue n) s" "timeout_ok timeout" "mq_ok (mqs s n)"
    "buffer \<noteq> []" "length buffer \<le> unat (msg_size (mqs s n))" "mq_abs n s = (es, rs, ss)"
  shows "\<exists>r s'. rt_mq_send_wait n buffer timeout s = Some (r, s') \<and> mq_call_ok m b n s s' \<and>
    (if length es < mq_capacity n s
     then r = Some 0 \<and> (\<exists>d. stored buffer (unat (msg_size (mqs s n))) d \<and> mq_abs n s' = (es @ [d], tl rs, ss)) \<and>
       (\<forall>t ts. rs = t # ts \<longrightarrow> runnable s' t \<and> error (tcb s' t) = error (tcb s t))
     else if timeout = 0 then r = Some (-3) \<and> mq_abs n s' = (es, rs, ss)
     else r = None \<and> mq_abs n s' = (es, rs, queue_of (MsgQueue n) c s ss) \<and> st s' c = RT_THREAD_SUSPEND)"
  using mq_send_contract[OF in_taskD(1,7)[OF assms(1)] assms(4-6) _ assms(7), of timeout c] assms(1-3) by (auto split: if_splits)

lemma demo_mqs:
  "mqs (demo l ts) n = \<lparr>msg_size = 4, max_msgs = 2, mq_entry = 0, msg_next = (\<lambda>b. if b = 1 then Some 0 else None),
     msg_data = (\<lambda>b. replicate 4 0), msg_queue_head = None, msg_queue_tail = None, msg_queue_free = Some 1\<rparr>"
  by (simp add: demo_def)

lemma demo_mq_ok: "mq_ok (mqs (demo l ts) n)"
  unfolding mq_ok_def by (rule exI[of _ "[1, 0]"], rule exI[of _ "[]"]) (auto simp: demo_mqs mq_lists_def)

theorem mq_send_refines_witness:
  "\<exists>s'. rt_mq_send_wait 0 [7, 8] 0 (demo (Suspended (MsgQueue 0)) [2]) = Some (Some 0, s') \<and> runnable s' 2 \<and>
     (\<exists>d. take (length [7, 8 :: u8]) d = [7, 8] \<and> mq_abs 0 s' = ([d], [], []))"
proof -
  let ?s = "demo (Suspended (MsgQueue 0)) [2]"
  have "in_task 0x7ffffffe 100 (Suc 0) ?s" "wait_flag_ok (MsgQueue 0) ?s" "timeout_ok 0" "mq_ok (mqs ?s 0)"
    "[7, 8] \<noteq> ([] :: u8 list)" "length [7, 8 :: u8] \<le> unat (msg_size (mqs ?s 0))" "mq_abs 0 ?s = ([], [2], [])"
    by (simp_all add: timeout_ok_def demo_mq_ok) (simp_all add: demo_mqs mq_abs_def mq_msgs_def)
  from mq_send_refines[OF this] show ?thesis by (auto simp: mq_capacity_def demo_mqs stored_def)
qed

text \<open>
  A message sent to an empty queue and then received comes back whole, whatever its length up to the
  block size, when the receiver asks for that length; the queue is empty again.
\<close>

theorem mq_roundtrip:
  assumes "kinv_at m b s" "current_thread s \<noteq> None" "mq_ok (mqs s n)" "buffer \<noteq> []"
    "length buffer \<le> unat (msg_size (mqs s n))" "mq_abs n s = ([], rs, ss)" "0 < mq_capacity n s"
  shows "\<exists>s1 s2. rt_mq_send n buffer s = Some (Some 0, s1) \<and>
    rt_mq_recv n (of_nat (length buffer)) 0 s1 = Some (Some (0, Some buffer), s2) \<and> fst (mq_abs n s2) = [] \<and> kinv_at m b s2"
proof -
  obtain s1 d where s1: "rt_mq_send_wait n buffer 0 s = Some (Some 0, s1)" "mq_call_ok m b n s s1"
    "stored buffer (unat (msg_size (mqs s n))) d" "mq_abs n s1 = ([d], tl rs, ss)"
    using mq_send_contract[OF assms(1-5) _ assms(6), of 0] assms(7) by (auto split: if_splits)
  note c1 = s1(2)[unfolded mq_call_ok_def]
  have "unat (msg_size (mqs s n)) < 2 ^ LENGTH(16)" by (rule unsigned_less)
  then have len: "length buffer < 65536" using assms(5) by simp
  then have u: "unat (of_nat (length buffer) :: rt_size_t) = length buffer" by (intro unat_of_nat_small) simp
  then have nz: "(of_nat (length buffer) :: rt_size_t) \<noteq> 0" using assms(4) by (metis length_0_conv unat_0)
  have "take (min (length buffer) (unat (msg_size (mqs s1 n)))) d = buffer"
    using s1(3) assms(5) c1 by (simp add: stored_def min_def)
  then obtain s2 where "rt_mq_recv n (of_nat (length buffer)) 0 s1 = Some (Some (0, Some buffer), s2)"
    "mq_call_ok m b n s1 s2" "mq_abs n s2 = ([], tl rs, tl ss)"
    using mq_recv_contract[OF _ _ _ nz _ s1(4), of m b 0] c1 u by auto
  then show ?thesis using s1(1) by (auto simp: rt_mq_send_def mq_call_ok_def)
qed

theorem mq_roundtrip_witness:
  "\<exists>s1 s2. rt_mq_send 0 [9, 9, 9] (demo (Suspended (MsgQueue 0)) []) = Some (Some 0, s1) \<and>
     rt_mq_recv 0 3 0 s1 = Some (Some (0, Some [9, 9, 9]), s2)"
proof -
  let ?s = "demo (Suspended (MsgQueue 0)) []"
  have "kinv_at 0x7ffffffe 100 ?s" "current_thread ?s \<noteq> None" "mq_ok (mqs ?s 0)" "[9, 9, 9] \<noteq> ([] :: u8 list)"
    "length [9, 9, 9 :: u8] \<le> unat (msg_size (mqs ?s 0))" "mq_abs 0 ?s = ([], [], [])" "0 < mq_capacity 0 ?s"
    by (simp_all add: demo_kinv[of _ "MsgQueue 0"] demo_mq_ok) (simp_all add: demo_mqs mq_abs_def mq_msgs_def mq_capacity_def)
  from mq_roundtrip[OF this] show ?thesis by auto
qed

text \<open>
  C21. Resetting a message queue ends: every message goes back to the free list, every waiting receiver
  and sender is woken with -RT_ERROR, and the queue is empty with all its blocks free.
\<close>

theorem mq_reset_terminates:
  assumes "kinv_at m b s" "current_thread s \<noteq> None" "mq_ok (mqs s n)"
  shows "\<exists>s'. rt_mq_control n True s = Some (0, s') \<and> mq_abs n s' = ([], [], []) \<and> mq_call_ok m b n s s' \<and>
    (\<forall>t \<in> set (queues s (Suspended (MsgQueue n))) \<union> set (queues s (Senders (MsgQueue n))). runnable s' t \<and> error (tcb s' t) = -1)"
  using mq_reset_contract[OF assms] by blast

theorem mq_reset_terminates_witness:
  "\<exists>s'. rt_mq_control 0 True (demo (Suspended (MsgQueue 0)) [2, 3]) = Some (0, s') \<and> error (tcb s' 2) = -1 \<and> error (tcb s' 3) = -1"
proof -
  let ?s = "demo (Suspended (MsgQueue 0)) [2, 3]"
  have "kinv_at 0x7ffffffe 100 ?s" "current_thread ?s \<noteq> None" "mq_ok (mqs ?s 0)"
    by (simp_all add: demo_kinv[of _ "MsgQueue 0"] demo_mq_ok)
  from mq_reset_terminates[OF this] show ?thesis by auto
qed

text \<open>
  C22. However the steps of any number of senders, urgent senders and receivers interleave on a fresh
  queue, every block of the pool is free, queued or in flight, and in exactly one place; the entry count
  is the number of queued messages.
\<close>

theorem mq_blocks_never_lost:
  assumes "mq_reachable (mq_fresh msize cap' links data) (q, F)" "\<And>b. length (data b) = unat msize"
  shows "\<exists>fs us. mq_lists F q fs us"
  using mq_reachable_lists[OF fresh_lists assms(1)] assms(2) by simp

theorem mq_blocks_never_lost_witness:
  "\<exists>q. mq_reachable (mq_fresh 4 2 (\<lambda>b. None) (\<lambda>b. replicate 4 0)) (q, {1}) \<and> (\<exists>fs us. mq_lists {1} q fs us)"
proof -
  let ?q = "mq_fresh 4 2 (\<lambda>b. None) (\<lambda>b. replicate 4 0)"
  have f: "msg_queue_free ?q = Some 1" by (simp add: mq_fresh_def mq_free_def upt_rec)
  have "mq_step (?q, {}) (?q\<lparr>msg_queue_free := msg_next ?q 1\<rparr>, insert 1 {})"
    by (rule mq_step.claim) (simp add: mq_take_free_def f)
  then have "mq_reachable ?q (?q\<lparr>msg_queue_free := msg_next ?q 1\<rparr>, {1})"
    using mq_reachable.step[OF mq_reachable.start] by blast
  then show ?thesis using mq_blocks_never_lost[of 4 2 "\<lambda>b. None" "\<lambda>b. replicate 4 0"] by fastforce
qed

end
