(* ===== verification/RT_System.thy ===== *)
theory RT_System
  imports RT_Boot RT_Semaphore RT_Mutex RT_Event RT_Mailbox RT_MsgQueue
begin

text \<open>
  The system as a whole: threads calling the kernel, and tick interrupts between the calls. The invariant
  joins that of the kernel with those of all IPC objects, and a step relation says which calls a running
  thread makes; everything reachable satisfies the invariant and no well-formed call fails an assertion.
\<close>

section \<open>What the calls leave alone\<close>

text \<open>
  The calls only start and stop the timers of threads: from \<open>s0\<close> to \<open>s\<close> the timer objects and the modes of
  the IPC objects are as they were and no check loop has been entered.
\<close>

definition framed :: "ipc_sys \<Rightarrow> ipc_sys \<Rightarrow> bool" where
  "framed s0 s \<longleftrightarrow> (\<forall>n. timers s (UserTimer n) = timers s0 (UserTimer n)) \<and> ipc_flag s = ipc_flag s0 \<and>
     (timer_lists s0 ExpiringHard = [] \<longrightarrow> timer_lists s ExpiringHard = [])"

named_theorems frames \<open>what a step that succeeds has kept\<close>

lemma framed_refl [simp]: "framed s s"
  by (simp add: framed_def)

lemma framed_trans: "framed a b \<Longrightarrow> framed b c \<Longrightarrow> framed a c"
  by (simp add: framed_def)

lemma framed_more:
  "sched.more s' = sched.more s \<Longrightarrow> framed s0 s' = framed s0 s"
  "sched.more s' = sched.more s \<Longrightarrow> framed s' s0 = framed s s0"
  using more_timer(1,2)[of s' s] more_ipc(1)[OF more_timer(6), of s' s] by (simp_all add: framed_def)

lemma framed_upd [simp]:
  "framed s0 (upd_tcb t f s) = framed s0 s" "framed s0 (list_unlink t s) = framed s0 s"
  "framed s0 (list_append l t s) = framed s0 s" "framed s0 (rt_schedule_remove_thread t s) = framed s0 s"
  "framed s0 (rt_schedule_insert_thread t s) = framed s0 s" "framed s0 (s\<lparr>queues := q\<rparr>) = framed s0 s"
  "framed (upd_tcb t f s) s0 = framed s s0" "framed (list_unlink t s) s0 = framed s s0"
  "framed (list_append l t s) s0 = framed s s0" "framed (rt_schedule_remove_thread t s) s0 = framed s s0"
  "framed (rt_schedule_insert_thread t s) s0 = framed s s0" "framed (s\<lparr>queues := q\<rparr>) s0 = framed s s0"
  by (rule framed_more; simp)+

lemma framed_objects [simp]:
  "framed s0 (upd_sem n v s) = framed s0 s" "framed s0 (upd_mutex n g s) = framed s0 s"
  "framed s0 (upd_event n h s) = framed s0 s" "framed s0 (upd_mb n mb s) = framed s0 s"
  "framed s0 (upd_mq n q s) = framed s0 s"
  "framed (upd_sem n v s) s0 = framed s s0" "framed (upd_mutex n g s) s0 = framed s s0"
  "framed (upd_event n h s) s0 = framed s s0" "framed (upd_mb n mb s) s0 = framed s s0"
  "framed (upd_mq n q s) s0 = framed s s0"
  by (simp_all add: framed_def upd_sem_def upd_mutex_def upd_event_def upd_mb_def upd_mq_def)

lemma framed_schedule [frames]: "rt_schedule s = Some s' \<Longrightarrow> framed s s'"
  using rt_schedule_frame[of s s'] framed_more(1)[of s' s s] by simp

lemma framed_stop [simp]: "framed s0 s \<Longrightarrow> framed s0 (snd (rt_timer_stop (ThreadTimer t) s))"
  by (simp add: framed_def rt_timer_stop_def deactivate_def upd_timer_def timer_remove_def)

lemma framed_resume [simp]: "framed s0 s \<Longrightarrow> framed s0 (snd (rt_thread_resume t s))"
  by (simp add: rt_thread_resume_def)

lemma framed_suspend [frames]: "rt_thread_suspend t s = Some (r, s') \<Longrightarrow> framed s s'"
  by (auto simp: rt_thread_suspend_def Let_def split: if_splits)

lemma framed_start [frames]:
  assumes "rt_timer_start (ThreadTimer t) (snd (rt_timer_control (ThreadTimer t) (SET_TIME v) s)) = Some s'"
  shows "framed s s'"
proof -
  let ?c = "snd (rt_timer_control (ThreadTimer t) (SET_TIME v) s)"
  have "framed s (timer_linked (ThreadTimer t) ?c)"
    by (simp add: framed_def linked_lists)
       (simp add: timer_linked_def timer_link_def Let_def deactivate_def rt_timer_control_def upd_timer_def timer_remove_def)
  then show ?thesis using assms framed_resume[of s "timer_linked (ThreadTimer t) (snd (rt_timer_control (ThreadTimer t) (SET_TIME v) s))"]
    by (auto simp: start_linked Let_def dest!: frames split: if_splits; blast intro: framed_trans)
qed

lemma framed_list_suspend [frames]: "rt_ipc_list_suspend l t fl s = Some s' \<Longrightarrow> framed s s'"
  by (auto simp: rt_ipc_list_suspend_def dest!: frames split: bind_splits)

lemma framed_wait [frames]: "wait_on l t fl time s = Some s' \<Longrightarrow> framed s s'"
  by (auto simp: wait_on_def dest!: frames split: bind_splits if_splits; blast intro: framed_trans)

lemma framed_list_resume [frames]: "rt_ipc_list_resume l s = Some s' \<Longrightarrow> framed s s'"
  by (auto simp: rt_ipc_list_resume_def split: list.splits)

lemma framed_resume_all [frames]:
  assumes "rt_ipc_list_resume_all l s = Some s'"
  shows "framed s s'"
proof (rule rt_ipc_list_resume_all.raw_induct[where P = "\<lambda>l s s'. framed s s'", OF _ assms])
  fix loop and l and s s' :: ipc_sys
  assume IH: "\<And>l s s'. loop l s = Some s' \<Longrightarrow> framed s s'"
    and body: "(case queues s l of [] \<Rightarrow> Some s
      | t # x \<Rightarrow> loop l (snd (rt_thread_resume t (upd_tcb t (\<lambda>th. th\<lparr>error := -1\<rparr>) s)))) = Some s'"
  show "framed s s'"
  proof (cases "queues s l")
    case (Cons t ts)
    have "framed (snd (rt_thread_resume t (upd_tcb t (\<lambda>th. th\<lparr>error := -1\<rparr>) s))) s'" using IH body Cons by simp
    moreover have "framed s (snd (rt_thread_resume t (upd_tcb t (\<lambda>th. th\<lparr>error := -1\<rparr>) s)))" by simp
    ultimately show ?thesis by (rule framed_trans[rotated])
  qed (use body in simp)
qed

lemma framed_wake [frames]: "wake_first l s = Some s' \<Longrightarrow> framed s s'"
  by (auto simp: wake_first_def dest!: frames split: bind_splits if_splits; blast intro: framed_trans)

lemma framed_resume_both [frames]: "resume_both i s = Some s' \<Longrightarrow> framed s s'"
  by (auto simp: resume_both_def dest!: frames split: bind_splits; blast intro: framed_trans)

lemma framed_priority [frames]: "rt_thread_control t (CHANGE_PRIORITY p) s = Some s' \<Longrightarrow> framed s s'"
  by (auto simp: rt_thread_control_def rt_thread_change_priority_def split: if_splits)

text \<open>The calls.\<close>

lemma framed_sem [frames]:
  "rt_sem_take n time s = Some (r, s') \<Longrightarrow> framed s s'"
  "rt_sem_release n s = Some (q, s') \<Longrightarrow> framed s s'"
  "rt_sem_control n v s = Some (q, s') \<Longrightarrow> framed s s'"
  by (auto simp: rt_sem_take_def rt_sem_release_def rt_sem_control_def dest!: frames split: bind_splits if_splits option.splits;
      blast intro: framed_trans)+

lemma framed_mutex_wait [frames]: "mutex_wait n t time s = Some (r, s') \<Longrightarrow> framed s s'"
  by (auto simp: mutex_wait_def dest!: frames split: bind_splits if_splits; blast intro: framed_trans)

lemma framed_mutex_pass [frames]: "mutex_pass n s = Some (r, s') \<Longrightarrow> framed s s'"
  by (auto simp: mutex_pass_def mutex_hand_over_def Let_def dest!: frames split: bind_splits if_splits list.splits;
      blast intro: framed_trans)

lemma framed_mutex [frames]:
  "rt_mutex_take n time s = Some (r, s') \<Longrightarrow> framed s s'"
  "rt_mutex_release n s = Some (q, s') \<Longrightarrow> framed s s'"
  by (auto simp: rt_mutex_take_def rt_mutex_release_def mutex_restore_def Let_def dest!: frames split: bind_splits if_splits;
      blast intro: framed_trans)+

lemma framed_event_scan [frames]: "event_scan n ts need s = (r, need', s') \<Longrightarrow> framed s s'"
proof (induction n ts need s arbitrary: r need' s' rule: event_scan.induct)
  case (2 n t ts need s)
  have w: "framed s1 (event_wake n t s1)" for s1
    by (simp add: event_wake_def Let_def)
  have w': "framed s (event_wake n t (upd_tcb t f s))" for f using w[of "upd_tcb t f s"] by simp
  show ?case using 2 by (auto simp: Let_def split: if_splits intro: framed_trans[OF w] framed_trans[OF w'])
qed simp

lemma framed_event [frames]:
  "rt_event_send n ev s = Some (q, s') \<Longrightarrow> framed s s'"
  "rt_event_recv n ev opt time s = Some (r, s') \<Longrightarrow> framed s s'"
  by (auto simp: rt_event_send_def rt_event_recv_def Let_def dest!: frames split: bind_splits if_splits prod.splits;
      blast intro: framed_trans)+

lemma framed_mb_steps [frames]:
  "mb_deliver n v s = Some (r, s') \<Longrightarrow> framed s s'"
  "mb_fetch n s = Some (q, s') \<Longrightarrow> framed s s'"
  by (auto simp: mb_deliver_def mb_fetch_def Let_def dest!: frames split: bind_splits if_splits)

lemma framed_mb [frames]:
  "rt_mb_send_wait n v time s = Some (r, s') \<Longrightarrow> framed s s'"
  "rt_mb_recv n time s = Some (q, s') \<Longrightarrow> framed s s'"
  "rt_mb_urgent n v s = Some (p, s') \<Longrightarrow> framed s s'"
  "rt_mb_control n b s = Some (p, s') \<Longrightarrow> framed s s'"
  by (auto simp: rt_mb_send_wait_def mb_send_loop_def rt_mb_recv_def mb_recv_loop_def rt_mb_urgent_def rt_mb_control_def Let_def
      dest!: frames split: bind_splits if_splits; blast intro: framed_trans)+

lemma framed_mq_steps [frames]:
  "mq_deliver n buf s = Some (r, s') \<Longrightarrow> framed s s'"
  "mq_fetch n size' s = Some (q, s') \<Longrightarrow> framed s s'"
  by (auto simp: mq_deliver_def mq_fetch_def Let_def dest!: frames split: bind_splits if_splits prod.splits)

lemma framed_mq [frames]:
  "rt_mq_send_wait n buf time s = Some (r, s') \<Longrightarrow> framed s s'"
  "rt_mq_recv n size' time s = Some (q, s') \<Longrightarrow> framed s s'"
  "rt_mq_urgent n buf s = Some (p, s') \<Longrightarrow> framed s s'"
  "rt_mq_control n b s = Some (p, s') \<Longrightarrow> framed s s'"
  by (auto simp: rt_mq_send_wait_def mq_send_loop_def rt_mq_recv_def mq_recv_loop_def rt_mq_urgent_def rt_mq_control_def Let_def
      dest!: frames split: bind_splits if_splits prod.splits; blast intro: framed_trans)+

section \<open>Thread calls and the objects\<close>

text \<open>
  What the thread calls and the tick do to the objects: waiters may leave, nobody enters, and neither an
  object nor what a thread asks of an event set changes.
\<close>

definition leaves :: "ipc_sys \<Rightarrow> ipc_sys \<Rightarrow> bool" where
  "leaves s0 s \<longleftrightarrow> timer_sys.more s = timer_sys.more s0 \<and>
     (\<forall>i. set (queues s (Suspended i)) \<subseteq> set (queues s0 (Suspended i))) \<and>
     (\<forall>t. event_set (tcb s t) = event_set (tcb s0 t) \<and> event_info (tcb s t) = event_info (tcb s0 t))"

lemma leaves_refl [simp]: "leaves s s"
  by (simp add: leaves_def)

lemma leaves_trans: "leaves a b \<Longrightarrow> leaves b c \<Longrightarrow> leaves a c"
  unfolding leaves_def by (simp, blast)

lemma leaves_upd_tcb:
  "leaves s0 s \<Longrightarrow> (\<And>th. event_set (f th) = event_set th \<and> event_info (f th) = event_info th) \<Longrightarrow> leaves s0 (upd_tcb t f s)"
  by (simp add: leaves_def more_timer(6)[of "upd_tcb t f s" s])

lemma leaves_lists [simp]:
  "leaves s0 s \<Longrightarrow> leaves s0 (list_unlink t s)" "leaves s0 s \<Longrightarrow> leaves s0 (rt_schedule_remove_thread t s)"
  "leaves s0 s \<Longrightarrow> leaves s0 (rt_schedule_insert_thread t s)"
  using more_timer(6)[of "list_unlink t s" s] more_timer(6)[of "rt_schedule_remove_thread t s" s]
    more_timer(6)[of "rt_schedule_insert_thread t s" s]
  by (auto simp: leaves_def)

lemma leaves_same: "same_sched s s' \<Longrightarrow> timer_sys.more s' = timer_sys.more s \<Longrightarrow> leaves s0 s \<Longrightarrow> leaves s0 s'"
  using same_schedD(1,2)[of s s'] by (simp add: leaves_def)

lemma leaves_schedule: "rt_schedule s = Some s' \<Longrightarrow> leaves s s'"
  using rt_schedule_frame[of s s'] schedule_waiting[of s s'] more_timer(6)[of s' s] by (simp add: leaves_def)

lemma leaves_resume: "leaves s (snd (rt_thread_resume t s))"
  using leaves_same[OF stop_same(1) stop_same(3), of s "list_unlink t s" "ThreadTimer t"] by (simp add: rt_thread_resume_def)

lemma leaves_suspend: "rt_thread_suspend t s = Some (r, s') \<Longrightarrow> leaves s s'"
  by (auto simp: rt_thread_suspend_def Let_def split: if_splits intro!: leaves_same[OF stop_same(1) stop_same(3)] leaves_upd_tcb)

lemma leaves_timeout: "rt_thread_timeout t s = Some s' \<Longrightarrow> leaves s s'"
  using leaves_trans[OF _ leaves_schedule, of s "rt_schedule_insert_thread t (list_unlink t (upd_tcb t (\<lambda>th. th\<lparr>error := -2\<rparr>) s))" s']
  by (simp add: rt_thread_timeout_def leaves_upd_tcb split: if_splits)

lemma leaves_linked: "leaves s (timer_linked x s)"
  by (rule leaves_same[OF same_sched_linked linked_rest(4)]) simp

lemma leaves_start: "rt_timer_start x s = Some s' \<Longrightarrow> leaves s s'"
  using leaves_linked[of s x] leaves_resume[of "timer_linked x s" "timer_thread s"]
  by (auto simp: start_linked Let_def dest!: leaves_schedule split: if_splits; blast intro: leaves_trans)

lemma leaves_suspend_for: "suspend_for t v s = Some s' \<Longrightarrow> leaves s s'"
  using leaves_same[OF control_set_time(1,5)]
  by (auto simp: suspend_for_def dest!: leaves_suspend leaves_start split: bind_splits; blast intro: leaves_trans)

lemma leaves_sleep: "rt_thread_sleep v s = Some s' \<Longrightarrow> leaves s s'"
  by (auto simp: rt_thread_sleep_def dest!: leaves_suspend_for leaves_schedule split: bind_splits; blast intro: leaves_trans)

lemma leaves_yield: "rt_thread_yield s = Some s' \<Longrightarrow> leaves s s'"
  using leaves_trans[OF leaves_upd_tcb leaves_schedule, of s s
      "\<lambda>th. th\<lparr>remaining_tick := init_tick th, stat := stat th OR RT_THREAD_STAT_YIELD\<rparr>"]
  by (auto simp: rt_thread_yield_def split: bind_splits)

lemma leaves_startup: "rt_thread_startup t s = Some s' \<Longrightarrow> leaves s s'"
  using leaves_trans[OF leaves_upd_tcb leaves_resume, of s s "\<lambda>th. (set_priority (init_priority th) th)\<lparr>stat := RT_THREAD_SUSPEND\<rparr>" t t]
  by (auto simp: rt_thread_startup_def Let_def set_priority_def dest!: leaves_schedule split: if_splits; blast intro: leaves_trans)

lemma leaves_priority: "rt_thread_change_priority t p s = Some s' \<Longrightarrow> leaves s s'"
  by (auto simp: rt_thread_change_priority_def set_priority_def intro!: leaves_upd_tcb leaves_lists(3) split: if_splits)

section \<open>The invariant of all objects\<close>

definition objects_inv :: "ipc_sys \<Rightarrow> bool" where
  "objects_inv s \<longleftrightarrow> (\<forall>i. wait_flag_ok i s) \<and>
     (\<forall>n. sem_inv n s \<and> mutex_inv n s \<and> event_inv n s \<and> mbox_ok (mailboxes s n) \<and> mq_ok (mqs s n))"

lemma objects_leave:
  assumes o: "objects_inv s" and l: "leaves s s'"
  shows "objects_inv s'"
proof -
  have sub: "set (queues s' (Suspended i)) \<subseteq> set (queues s (Suspended i))" for i using l by (simp add: leaves_def)
  have nil: "queues s (Suspended i) = [] \<Longrightarrow> queues s' (Suspended i) = []" for i using sub[of i] by auto
  have v: "view s' = view s" using l by (auto simp: fun_eq_iff view_def leaves_def)
  note eq = more_ipc[of s' s] and ev = event_inv_def event_waiters_def v
  have "timer_sys.more s' = timer_sys.more s" using l by (simp add: leaves_def)
  note eq = more_ipc[OF this]
  show ?thesis
    unfolding objects_inv_def
  proof (intro conjI allI)
    fix n
    show "event_inv n s'" using o sub[of "Event n"] unfolding objects_inv_def ev eq set_map by blast
    have "mutex_inv n s" "sem_inv n s" using o by (simp_all add: objects_inv_def)
    then show "mutex_inv n s'" "sem_inv n s'" using nil sub[of "Mutex n"]
      by (auto simp: mutex_inv_def sem_inv_def eq split: option.splits)
  qed (use o in \<open>simp_all add: objects_inv_def eq wait_flag_ok_def\<close>)
qed

text \<open>A call on one object, which restores its invariant.\<close>

fun object_inv :: "ipc_id \<Rightarrow> ipc_sys \<Rightarrow> bool" where
  "object_inv (Sem n) s = sem_inv n s"
| "object_inv (Mutex n) s = mutex_inv n s"
| "object_inv (Event n) s = event_inv n s"
| "object_inv (Mailbox n) s = mbox_ok (mailboxes s n)"
| "object_inv (MsgQueue n) s = mq_ok (mqs s n)"
| "object_inv (MemPool n) s = True"
| "object_inv (DataQueue n) s = True"
| "object_inv (Completion n) s = True"

lemma objects_touch:
  assumes o: "objects_inv s" and t: "touches i s s'" and f: "framed s s'" and own: "object_inv i s'"
  shows "objects_inv s'"
proof -
  note td = touchesD(5-9)[OF t]
  have "wait_flag_ok j s'" for j using o f by (simp add: objects_inv_def wait_flag_ok_def framed_def)
  moreover have "sem_inv n s'" for n using o own sem_inv_other[OF t, of n] by (cases "i = Sem n") (auto simp: objects_inv_def)
  moreover have "mutex_inv n s'" for n using o own mutex_inv_other[OF t, of n] by (cases "i = Mutex n") (auto simp: objects_inv_def)
  moreover have "event_inv n s'" for n using o own event_inv_other[OF t, of n] by (cases "i = Event n") (auto simp: objects_inv_def)
  moreover have "mbox_ok (mailboxes s' n)" for n using o own td(4)[of n] by (cases "i = Mailbox n") (auto simp: objects_inv_def)
  moreover have "mq_ok (mqs s' n)" for n using o own td(5)[of n] by (cases "i = MsgQueue n") (auto simp: objects_inv_def)
  ultimately show ?thesis by (simp add: objects_inv_def)
qed

lemma framed_threads [frames]:
  "suspend_for t v s = Some s' \<Longrightarrow> framed s s'"
  "rt_thread_yield s = Some s' \<Longrightarrow> framed s s'"
  "rt_thread_change_priority t p s = Some s' \<Longrightarrow> framed s s'"
  by (auto simp: suspend_for_def rt_thread_yield_def rt_thread_change_priority_def
      dest!: frames split: bind_splits if_splits intro: framed_trans)

lemma framed_sleep [frames]: "rt_thread_sleep v s = Some s' \<Longrightarrow> framed s s'"
  by (auto simp: rt_thread_sleep_def dest!: frames split: bind_splits intro: framed_trans)

lemma framed_startup [frames]:
  assumes "rt_thread_startup t s = Some s'"
  shows "framed s s'"
proof -
  let ?r = "snd (rt_thread_resume t (upd_tcb t (\<lambda>th. (set_priority (init_priority th) th)\<lparr>stat := RT_THREAD_SUSPEND\<rparr>) s))"
  have "framed s ?r" by simp
  moreover have "s' = ?r \<or> rt_schedule ?r = Some s'" using assms by (auto simp: rt_thread_startup_def Let_def split: if_splits)
  ultimately show ?thesis using framed_schedule framed_trans by blast
qed

section \<open>The calls of a thread\<close>

text \<open>
  The kernel calls that change state, with their arguments; a call that waits ends at its scheduling
  point. \<open>exec\<close> drops the code the call returns.
\<close>

datatype call =
    SemTake nat "32 word" | SemRelease nat | SemReset nat u64
  | MutexTake nat "32 word" | MutexRelease nat
  | EventSend nat u32 | EventRecv nat u32 u8 "32 word"
  | MbSend nat u64 "32 word" | MbUrgent nat u64 | MbRecv nat "32 word" | MbReset nat
  | MqSend nat "u8 list" "32 word" | MqUrgent nat "u8 list" | MqRecv nat rt_size_t "32 word" | MqReset nat
  | Yield | Sleep rt_tick_t | Startup tid | Resume tid | ChangePriority tid u8 | EnterCritical | ExitCritical

fun exec :: "call \<Rightarrow> ipc_sys \<Rightarrow> ipc_sys option" where
  "exec (SemTake n time) s = map_option snd (rt_sem_take n time s)"
| "exec (SemRelease n) s = map_option snd (rt_sem_release n s)"
| "exec (SemReset n v) s = map_option snd (rt_sem_control n (Some v) s)"
| "exec (MutexTake n time) s = map_option snd (rt_mutex_take n time s)"
| "exec (MutexRelease n) s = map_option snd (rt_mutex_release n s)"
| "exec (EventSend n ev) s = map_option snd (rt_event_send n ev s)"
| "exec (EventRecv n ev opt time) s = map_option snd (rt_event_recv n ev opt time s)"
| "exec (MbSend n v time) s = map_option snd (rt_mb_send_wait n v time s)"
| "exec (MbUrgent n v) s = map_option snd (rt_mb_urgent n v s)"
| "exec (MbRecv n time) s = map_option snd (rt_mb_recv n time s)"
| "exec (MbReset n) s = map_option snd (rt_mb_control n True s)"
| "exec (MqSend n buf time) s = map_option snd (rt_mq_send_wait n buf time s)"
| "exec (MqUrgent n buf) s = map_option snd (rt_mq_urgent n buf s)"
| "exec (MqRecv n size' time) s = map_option snd (rt_mq_recv n size' time s)"
| "exec (MqReset n) s = map_option snd (rt_mq_control n True s)"
| "exec Yield s = rt_thread_yield s"
| "exec (Sleep v) s = rt_thread_sleep v s"
| "exec (Startup t) s = rt_thread_startup t s"
| "exec (Resume t) s = Some (snd (rt_thread_resume t s))"
| "exec (ChangePriority t p) s = rt_thread_control t (CHANGE_PRIORITY p) s"
| "exec EnterCritical s = Some (rt_enter_critical s)"
| "exec ExitCritical s = rt_exit_critical s"

text \<open>What the assertions ask of the arguments, and that a started thread has been initialised.\<close>

fun call_ok :: "call \<Rightarrow> ipc_sys \<Rightarrow> bool" where
  "call_ok (SemTake n time) s \<longleftrightarrow> timeout_ok time"
| "call_ok (MutexTake n time) s \<longleftrightarrow> timeout_ok time"
| "call_ok (EventRecv n ev opt time) s \<longleftrightarrow> timeout_ok time \<and> option_ok opt"
| "call_ok (MbSend n v time) s \<longleftrightarrow> timeout_ok time"
| "call_ok (MbRecv n time) s \<longleftrightarrow> timeout_ok time"
| "call_ok (MqSend n buf time) s \<longleftrightarrow> timeout_ok time \<and> buf \<noteq> []"
| "call_ok (MqUrgent n buf) s \<longleftrightarrow> buf \<noteq> []"
| "call_ok (MqRecv n size' time) s \<longleftrightarrow> timeout_ok time \<and> size' \<noteq> 0"
| "call_ok (Sleep v) s \<longleftrightarrow> v < HALF"
| "call_ok (Startup t) s \<longleftrightarrow> st s t = RT_THREAD_INIT"
| "call_ok (ChangePriority t p) s \<longleftrightarrow> unat p < 32"
| "call_ok _ s \<longleftrightarrow> True"

definition system_inv :: "ipc_sys \<Rightarrow> bool" where
  "system_inv s \<longleftrightarrow> task_state s \<and> objects_inv s"

text \<open>The caller: the current thread, not suspended, outside interrupts.\<close>

definition caller :: "tid \<Rightarrow> ipc_sys \<Rightarrow> bool" where
  "caller c s \<longleftrightarrow> current_thread s = Some c \<and> st s c = RT_THREAD_RUNNING \<and> interrupt_nest s = 0"

lemma system_invI:
  assumes s: "system_inv s" and k: "kinv_at BASE_TASK (rt_tick s) s'" and c: "current_thread s' \<noteq> None" and f: "framed s s'"
    and o: "objects_inv s'"
  shows "system_inv s'"
proof -
  have t: "task_state s" using s by (simp add: system_inv_def)
  have tk: "rt_tick s' = rt_tick s" using kinv_atD(1)[OF k] by (auto simp: base_ok_def)
  have "intervals_ok s'"
    unfolding intervals_ok_def
  proof
    fix x show "periodic s' x \<longrightarrow> 0 < timer_init_tick (timers s' x) \<and> timer_init_tick (timers s' x) < HALF"
    proof (cases x)
      case (ThreadTimer u)
      then show ?thesis using kinv_atD(4)[OF k] by (simp add: thread_timers_inv_def)
    next
      case (UserTimer n)
      then show ?thesis using f t by (simp add: framed_def task_state_def intervals_ok_def)
    qed
  qed
  then have "task_state s'" using k c tk f t by (simp add: task_state_def framed_def)
  then show ?thesis using o by (simp add: system_inv_def)
qed

lemma system_call:
  assumes s: "system_inv s" and k: "kinv_at BASE_TASK (rt_tick s) s'" and c: "current_thread s' \<noteq> None" and f: "framed s s'"
    and t: "touches i s s'" and i: "object_inv i s'"
  shows "system_inv s'"
  by (rule system_invI[OF s k c f objects_touch[OF _ t f i]]) (use s in \<open>simp add: system_inv_def\<close>)

lemma system_thread_call:
  assumes s: "system_inv s" and k: "kinv_at BASE_TASK (rt_tick s) s'" and c: "current_thread s' \<noteq> None" and f: "framed s s'"
    and l: "leaves s s'"
  shows "system_inv s'"
  by (rule system_invI[OF s k c f objects_leave[OF _ l]]) (use s in \<open>simp add: system_inv_def\<close>)

lemma system_invD:
  assumes "system_inv s"
  shows "kinv_at BASE_TASK (rt_tick s) s" "current_thread s \<noteq> None" "wait_flag_ok i s" "sem_inv n s" "mutex_inv n s"
    "event_inv n s" "mbox_ok (mailboxes s n)" "mq_ok (mqs s n)"
  using assms by (simp_all add: system_inv_def task_state_def objects_inv_def)

lemma caller_task: "system_inv s \<Longrightarrow> caller c s \<Longrightarrow> in_task BASE_TASK (rt_tick s) c s"
  by (simp add: caller_def in_task_def runnable_def system_invD(1))

definition safe :: "ipc_sys option \<Rightarrow> bool" where
  "safe r \<longleftrightarrow> (\<exists>s'. r = Some s' \<and> system_inv s')"

text \<open>The semaphore invariant across a call, read off its specification.\<close>

lemma sem_abs_inv: "sem_inv n s \<longleftrightarrow> (snd (sem_abs n s) \<noteq> [] \<longrightarrow> fst (sem_abs n s) = 0)"
  by (simp add: sem_inv_def sem_abs_def unat_eq_0)

lemma safe_sem:
  assumes s: "system_inv s"
  shows "caller c s \<Longrightarrow> timeout_ok time \<Longrightarrow> safe (exec (SemTake n time) s)"
    and "safe (exec (SemRelease n) s)" and "safe (exec (SemReset n v) s)"
proof -
  note d = system_invD[OF s]
  show "safe (exec (SemTake n time) s)" if c: "caller c s" and t: "timeout_ok time"
  proof -
    obtain r s' where r: "rt_sem_take n time s = Some (r, s')" "kinv_at BASE_TASK (rt_tick s) s'" "touches (Sem n) s s'"
      "current_thread s' \<noteq> None" "(r, sem_abs n s') = spec_take (queue_of (Sem n) c s) (time = 0) (sem_abs n s)"
      using sem_take_contract[OF caller_task[OF s c] d(3) t] by blast
    have "sem_inv n s'" using spec_take_inv[OF r(5)] d(4)[of n] by (simp add: sem_abs_inv)
    then show ?thesis using system_call[OF s r(2,4) framed_sem(1)[OF r(1)] r(3)] r(1) by (simp add: safe_def)
  qed
  obtain q s' where r: "rt_sem_release n s = Some (q, s')" "kinv_at BASE_TASK (rt_tick s) s'" "touches (Sem n) s s'"
    "current_thread s' \<noteq> None" "(q, sem_abs n s') = spec_release (sem_abs n s)"
    using sem_release_contract[OF d(1,2)] by blast
  have "sem_inv n s'" using spec_release_inv[OF r(5)] d(4)[of n] by (simp add: sem_abs_inv)
  then show "safe (exec (SemRelease n) s)"
    using system_call[OF s r(2,4) framed_sem(2)[OF r(1)] r(3)] r(1) by (simp add: safe_def)
  obtain s' where r: "rt_sem_control n (Some v) s = Some (0, s')" "kinv_at BASE_TASK (rt_tick s) s'" "touches (Sem n) s s'"
    "current_thread s' \<noteq> None" "sem_abs n s' = (unat v mod 65536, [])"
    using sem_reset_contract[OF d(1,2)] by blast
  have "sem_inv n s'" using r(5) by (simp add: sem_abs_inv)
  then show "safe (exec (SemReset n v) s)"
    using system_call[OF s r(2,4) framed_sem(3)[OF r(1)] r(3)] r(1) by (simp add: safe_def)
qed

lemma safe_mutex:
  assumes s: "system_inv s" and c: "caller c s"
  shows "timeout_ok time \<Longrightarrow> safe (exec (MutexTake n time) s)" and "safe (exec (MutexRelease n) s)"
proof -
  note d = system_invD[OF s] and ct = caller_task[OF s c]
  show "safe (exec (MutexTake n time) s)" if t: "timeout_ok time"
  proof -
    obtain r s' where r: "rt_mutex_take n time s = Some (r, s')" "kinv_at BASE_TASK (rt_tick s) s'" "touches (Mutex n) s s'"
      "current_thread s' \<noteq> None" "mutex_inv n s'" using mutex_take_contract[OF ct d(3) t d(5)] by blast
    then show ?thesis using system_call[OF s r(2,4) framed_mutex(1)[OF r(1)] r(3)] by (simp add: safe_def)
  qed
  obtain q s' where r: "rt_mutex_release n s = Some (q, s')" "kinv_at BASE_TASK (rt_tick s) s'" "touches (Mutex n) s s'"
    "current_thread s' \<noteq> None" "mutex_inv n s'" using mutex_release_contract[OF ct d(5)] by blast
  then show "safe (exec (MutexRelease n) s)"
    using system_call[OF s r(2,4) framed_mutex(2)[OF r(1)] r(3)] by (simp add: safe_def)
qed

lemma safe_event:
  assumes s: "system_inv s"
  shows "safe (exec (EventSend n ev) s)"
    and "caller c s \<Longrightarrow> timeout_ok time \<Longrightarrow> option_ok opt \<Longrightarrow> safe (exec (EventRecv n ev opt time) s)"
proof -
  note d = system_invD[OF s]
  show "safe (exec (EventSend n ev) s)"
  proof (cases "ev = 0")
    case True
    then show ?thesis using s by (simp add: safe_def rt_event_send_def)
  next
    case False
    obtain wk rest b' where sp: "spec_scan (event_bits (events s n) OR ev) (event_waiters n s) = (wk, rest, b')" by (metis prod_cases3)
    obtain s' where r: "rt_event_send n ev s = Some (0, s')" "kinv_at BASE_TASK (rt_tick s) s'" "touches (Event n) s s'"
      "current_thread s' \<noteq> None" "event_inv n s'" using event_send_contract[OF d(1,2) d(6) False sp] by blast
    then show ?thesis using system_call[OF s r(2,4) framed_event(1)[OF r(1)] r(3)] by (simp add: safe_def)
  qed
  show "safe (exec (EventRecv n ev opt time) s)" if c: "caller c s" and t: "timeout_ok time" "option_ok opt"
  proof (cases "ev = 0")
    case True
    then show ?thesis using s in_taskD(5)[OF caller_task[OF s c]] by (simp add: safe_def rt_event_recv_def)
  next
    case False
    obtain r s' where r: "rt_event_recv n ev opt time s = Some (r, s')" "kinv_at BASE_TASK (rt_tick s) s'" "touches (Event n) s s'"
      "current_thread s' \<noteq> None" "event_inv n s'" using event_recv_contract[OF caller_task[OF s c] d(3) t(1) d(6) False t(2)] by blast
    then show ?thesis using system_call[OF s r(2,4) framed_event(2)[OF r(1)] r(3)] by (simp add: safe_def)
  qed
qed

lemma safe_mailbox:
  assumes s: "system_inv s"
  shows "time = 0 \<or> caller c s \<and> timeout_ok time \<Longrightarrow> safe (exec (MbSend n v time) s)" and "safe (exec (MbUrgent n v) s)"
    and "time = 0 \<or> caller c s \<and> timeout_ok time \<Longrightarrow> safe (exec (MbRecv n time) s)" and "safe (exec (MbReset n) s)"
proof -
  note d = system_invD[OF s]
  have w: "in_task BASE_TASK (rt_tick s) c s \<and> wait_flag_ok (Mailbox n) s \<and> timeout_ok time" if "time = 0 \<or> caller c s \<and> timeout_ok time" "time \<noteq> 0"
    using caller_task[OF s] d(3) that by simp
  show "safe (exec (MbSend n v time) s)" if t: "time = 0 \<or> caller c s \<and> timeout_ok time"
  proof -
    obtain r s' where r: "rt_mb_send_wait n v time s = Some (r, s')" "kinv_at BASE_TASK (rt_tick s) s'" "touches (Mailbox n) s s'"
      "current_thread s' \<noteq> None" "mbox_ok (mailboxes s' n)" using mb_send_contract[OF d(1,2,7) w[OF t]] by blast
    then show ?thesis using system_call[OF s r(2,4) framed_mb(1)[OF r(1)] r(3)] by (simp add: safe_def)
  qed
  show "safe (exec (MbRecv n time) s)" if t: "time = 0 \<or> caller c s \<and> timeout_ok time"
  proof -
    obtain r s' where r: "rt_mb_recv n time s = Some (r, s')" "kinv_at BASE_TASK (rt_tick s) s'" "touches (Mailbox n) s s'"
      "current_thread s' \<noteq> None" "mbox_ok (mailboxes s' n)" using mb_recv_contract[OF d(1,2,7) w[OF t]] by blast
    then show ?thesis using system_call[OF s r(2,4) framed_mb(2)[OF r(1)] r(3)] by (simp add: safe_def)
  qed
  obtain q s' where r: "rt_mb_urgent n v s = Some (q, s')" "kinv_at BASE_TASK (rt_tick s) s'" "touches (Mailbox n) s s'"
    "current_thread s' \<noteq> None" "mbox_ok (mailboxes s' n)" using mb_urgent_contract[OF d(1,2,7)] by blast
  then show "safe (exec (MbUrgent n v) s)"
    using system_call[OF s r(2,4) framed_mb(3)[OF r(1)] r(3)] by (simp add: safe_def)
  obtain s' where r: "rt_mb_control n True s = Some (0, s')" "kinv_at BASE_TASK (rt_tick s) s'" "touches (Mailbox n) s s'"
    "current_thread s' \<noteq> None" "mbox_ok (mailboxes s' n)" using mb_reset_contract[OF d(1,2,7)] by blast
  then show "safe (exec (MbReset n) s)"
    using system_call[OF s r(2,4) framed_mb(4)[OF r(1)] r(3)] by (simp add: safe_def)
qed

lemma safe_mq_call:
  assumes s: "system_inv s" and ok: "mq_call_ok BASE_TASK (rt_tick s) n s s'" and f: "framed s s'"
  shows "safe (Some s')"
  using system_call[OF s _ _ f, of "MsgQueue n"] ok by (simp add: mq_call_ok_def safe_def)

lemma safe_msgqueue:
  assumes s: "system_inv s"
  shows "time = 0 \<or> caller c s \<and> timeout_ok time \<Longrightarrow> buf \<noteq> [] \<Longrightarrow> safe (exec (MqSend n buf time) s)"
    and "buf \<noteq> [] \<Longrightarrow> safe (exec (MqUrgent n buf) s)"
    and "time = 0 \<or> caller c s \<and> timeout_ok time \<Longrightarrow> size' \<noteq> 0 \<Longrightarrow> safe (exec (MqRecv n size' time) s)" and "safe (exec (MqReset n) s)"
proof -
  note d = system_invD[OF s]
  have w: "in_task BASE_TASK (rt_tick s) c s \<and> wait_flag_ok (MsgQueue n) s \<and> timeout_ok time" if "time = 0 \<or> caller c s \<and> timeout_ok time" "time \<noteq> 0"
    using caller_task[OF s] d(3) that by simp
  obtain es rs ss where ab: "mq_abs n s = (es, rs, ss)" by (metis prod_cases3)
  show "safe (exec (MqSend n buf time) s)" if t: "time = 0 \<or> caller c s \<and> timeout_ok time" and b: "buf \<noteq> []"
  proof (cases "length buf \<le> unat (msg_size (mqs s n))")
    case True
    obtain r s' where r: "rt_mq_send_wait n buf time s = Some (r, s')" "mq_call_ok BASE_TASK (rt_tick s) n s s'"
      using mq_send_contract[OF d(1,2,8) b True w[OF t] ab] by blast
    then show ?thesis using safe_mq_call[OF s r(2) framed_mq(1)[OF r(1)]] by simp
  next
    case False
    then show ?thesis using s b by (simp add: rt_mq_send_wait_def safe_def)
  qed
  show "safe (exec (MqUrgent n buf) s)" if b: "buf \<noteq> []"
  proof (cases "length buf \<le> unat (msg_size (mqs s n))")
    case True
    obtain r s' where r: "rt_mq_urgent n buf s = Some (r, s')" "mq_call_ok BASE_TASK (rt_tick s) n s s'"
      using mq_urgent_contract[OF d(1,2,8) b True ab] by blast
    then show ?thesis using safe_mq_call[OF s r(2) framed_mq(3)[OF r(1)]] by simp
  next
    case False
    then show ?thesis using s b by (simp add: rt_mq_urgent_def safe_def)
  qed
  show "safe (exec (MqRecv n size' time) s)" if t: "time = 0 \<or> caller c s \<and> timeout_ok time" and z: "size' \<noteq> 0"
  proof -
    obtain r s' where r: "rt_mq_recv n size' time s = Some (r, s')" "mq_call_ok BASE_TASK (rt_tick s) n s s'"
      using mq_recv_contract[OF d(1,2,8) z w[OF t] ab] by blast
    then show ?thesis using safe_mq_call[OF s r(2) framed_mq(2)[OF r(1)]] by simp
  qed
  obtain s' where r: "rt_mq_control n True s = Some (0, s')" "mq_call_ok BASE_TASK (rt_tick s) n s s'"
    using mq_reset_contract[OF d(1,2,8)] by blast
  then show "safe (exec (MqReset n) s)" using safe_mq_call[OF s r(2) framed_mq(4)[OF r(1)]] by simp
qed

lemma lock_system:
  assumes "system_inv s"
  shows "system_inv (s\<lparr>scheduler_lock_nest := k\<rparr>)"
proof -
  have k: "kinv_at BASE_TASK (rt_tick s) (s\<lparr>scheduler_lock_nest := k\<rparr>)"
    using system_invD(1)[OF assms]
    by (simp add: kinv_at_def base_ok_def sched_inv_def current_inv_def st_def timer_lists_inv_def thread_timers_inv_def deadlines_inv_def)
  show ?thesis
    by (rule system_thread_call[OF assms k]) (use system_invD(2)[OF assms] in \<open>simp_all add: framed_def leaves_def\<close>)
qed

lemma safe_schedule: "system_inv s \<Longrightarrow> safe (rt_schedule s)"
  using rt_schedule_kinv[of BASE_TASK "rt_tick s" s] system_invD(1,2)[of s] framed_schedule[of s] leaves_schedule[of s]
    system_thread_call[of s] unfolding safe_def by blast

lemma safe_thread:
  assumes s: "system_inv s" and c: "caller c s"
  shows "safe (exec Yield s)" and "v < HALF \<Longrightarrow> safe (exec (Sleep v) s)"
    and "st s t = RT_THREAD_INIT \<Longrightarrow> safe (exec (Startup t) s)" and "safe (exec (Resume t) s)"
    and "unat p < 32 \<Longrightarrow> safe (exec (ChangePriority t p) s)" and "safe (exec EnterCritical s)" and "safe (exec ExitCritical s)"
proof -
  note d = system_invD(1,2)[OF s]
  have c': "current_thread s = Some c" "st s c = RT_THREAD_RUNNING" using c by (simp_all add: caller_def)
  show "safe (exec Yield s)"
    using yield_kinv[OF d(1) c'(1)] framed_threads(2)[of s] leaves_yield[of s] system_thread_call[OF s] unfolding safe_def by auto
  show "safe (exec (Sleep v) s)" if "v < HALF"
    using sleep_kinv[OF d(1) c' that] framed_sleep[of v s] leaves_sleep[of v s] system_thread_call[OF s] unfolding safe_def by auto
  show "safe (exec (Startup t) s)" if t: "st s t = RT_THREAD_INIT"
  proof -
    have "current_thread s \<noteq> Some t" using t c' by auto
    from startup_kinv[OF d(1) t this] d(2) show ?thesis
      using framed_startup[of t s] leaves_startup[of t s] system_thread_call[OF s] unfolding safe_def by auto
  qed
  have "current_thread (snd (rt_thread_resume t s)) = current_thread s"
    by (simp add: rt_thread_resume_def same_schedD(3)[OF stop_same(1)])
  then show "safe (exec (Resume t) s)"
    using system_thread_call[OF s resume_kinv[OF d(1)] _ _ leaves_resume] d(2) by (simp add: safe_def)
  show "safe (exec (ChangePriority t p) s)" if p: "unat p < 32"
  proof -
    obtain s' where s': "rt_thread_change_priority t p s = Some s'" "kinv_at BASE_TASK (rt_tick s) s'"
      "current_thread s' = current_thread s" by (rule change_priority_kinv[OF d(1) p]) (rule that)
    then show ?thesis
      using system_thread_call[OF s s'(2) _ framed_threads(3)[OF s'(1)] leaves_priority[OF s'(1)]] d(2)
      by (simp add: safe_def rt_thread_control_def)
  qed
  show "safe (exec EnterCritical s)" using lock_system[OF s] by (simp add: safe_def rt_enter_critical_def)
  show "safe (exec ExitCritical s)"
    using safe_schedule[OF lock_system[OF s]] lock_system[OF s] by (simp add: rt_exit_critical_def Let_def safe_def)
qed

lemmas safe_anywhere = safe_sem(2,3) safe_event(1) safe_mailbox(2,4) safe_msgqueue(2,4)

lemma safe_call:
  assumes "system_inv s" "caller c s" "call_ok a s"
  shows "safe (exec a s)"
  using assms(3) safe_anywhere[OF assms(1)] safe_sem(1)[OF assms(1,2)] safe_mutex[OF assms(1,2)] safe_event(2)[OF assms(1,2)]
    safe_mailbox(1,3)[OF assms(1), where c = c] safe_msgqueue(1,3)[OF assms(1), where c = c] safe_thread[OF assms(1,2)] assms(2)
  by (cases a) (simp_all del: exec.simps)

section \<open>Interrupts\<close>

text \<open>\<open>src/rt-thread/src/irq.c\<close>; the hooks are null.\<close>

definition rt_interrupt_enter :: "'a sched_scheme \<Rightarrow> 'a sched_scheme" where
  "rt_interrupt_enter s = s\<lparr>interrupt_nest := interrupt_nest s + 1\<rparr>"

definition rt_interrupt_leave :: "'a sched_scheme \<Rightarrow> 'a sched_scheme" where
  "rt_interrupt_leave s = s\<lparr>interrupt_nest := interrupt_nest s - 1\<rparr>"

definition rt_interrupt_get_nest :: "'a sched_scheme \<Rightarrow> u8" where
  "rt_interrupt_get_nest s = interrupt_nest s"

text \<open>The calls an interrupt handler may make: those that never wait.\<close>

fun isr_call :: "call \<Rightarrow> bool" where
  "isr_call (SemRelease n) \<longleftrightarrow> True"
| "isr_call (EventSend n ev) \<longleftrightarrow> True"
| "isr_call (MbSend n v time) \<longleftrightarrow> time = 0"
| "isr_call (MbUrgent n v) \<longleftrightarrow> True"
| "isr_call (MqSend n buf time) \<longleftrightarrow> time = 0 \<and> buf \<noteq> []"
| "isr_call (MqUrgent n buf) \<longleftrightarrow> buf \<noteq> []"
| "isr_call _ \<longleftrightarrow> False"

lemma safe_isr:
  assumes "system_inv s" "isr_call a"
  shows "safe (exec a s)"
  using assms(2) safe_sem(2)[OF assms(1)] safe_event(1)[OF assms(1)] safe_mailbox(1,2)[OF assms(1)]
    safe_msgqueue(1,2)[OF assms(1)] by (cases a) (simp_all del: exec.simps)

lemma nest_system:
  assumes "system_inv s"
  shows "system_inv (s\<lparr>interrupt_nest := k\<rparr>)"
proof -
  have k: "kinv_at BASE_TASK (rt_tick s) (s\<lparr>interrupt_nest := k\<rparr>)"
    using system_invD(1)[OF assms]
    by (simp add: kinv_at_def base_ok_def sched_inv_def current_inv_def st_def timer_lists_inv_def thread_timers_inv_def deadlines_inv_def)
  show ?thesis
    by (rule system_thread_call[OF assms k]) (use system_invD(2)[OF assms] in \<open>simp_all add: framed_def leaves_def\<close>)
qed

text \<open>
  The tick interrupt: the callbacks of the application's timers keep the invariants and start no timers.
\<close>

definition callbacks_sound :: "(nat \<Rightarrow> ipc_sys \<Rightarrow> ipc_sys option) \<Rightarrow> bool" where
  "callbacks_sound user \<longleftrightarrow> callbacks_ok user \<and> (\<forall>n s s'. user n s = Some s' \<longrightarrow> objects_inv s \<longrightarrow> objects_inv s')"

lemma rearm_more:
  assumes "timer_rearm l x s = Some s2" "\<not> soft_timer s x"
  shows "leaves s s2"
proof -
  have "timer_sys.more s2 = timer_sys.more s"
    using assms linked_rest(4)[of x "deactivate x (timer_remove x s)"]
    by (auto simp: timer_rearm_def Let_def start_linked split: if_splits)
  then show ?thesis by (rule leaves_same[OF rearm_others(1)[OF assms]]) simp
qed

lemma expire_leaves: "leaves s (timer_expire l x s)"
  by (rule leaves_same[OF expire_obs(6)]) (simp_all add: timer_expire_def Let_def)

lemma turn_objects:
  assumes "callbacks_sound user"
  shows "turn_keeps user objects_inv"
  unfolding turn_keeps_def
proof (intro allI impI)
  fix s x s1 s2
  assume o: "objects_inv s" and f: "timeout_func user x (timer_expire ExpiringHard x s) = Some s1"
    and r: "timer_rearm ExpiringHard x s1 = Some s2" "\<not> soft_timer s1 x"
  have o0: "objects_inv (timer_expire ExpiringHard x s)" by (rule objects_leave[OF o expire_leaves])
  have "objects_inv s1"
  proof (cases x)
    case (ThreadTimer t)
    then show ?thesis using f objects_leave[OF o0 leaves_timeout] by (simp add: timeout_func_def)
  next
    case (UserTimer n)
    then show ?thesis using f o0 assms by (auto simp: timeout_func_def callbacks_sound_def)
  qed
  then show "objects_inv s2" by (rule objects_leave[OF _ rearm_more[OF r]])
qed

lemma safe_tick:
  assumes s: "system_inv s" and cb: "callbacks_sound user"
  shows "safe (rt_tick_increase user s)"
proof -
  have st: "objects_inv s3" if m: "sched.more s3 = sched.more (s\<lparr>rt_tick := rt_tick s + 1\<rparr>)" and th: "same_threads s s3" for s3
  proof (rule objects_leave)
    show "leaves s s3" using th more_timer(6)[OF m] by (simp add: leaves_def same_threads_def)
  qed (use s in \<open>simp add: system_inv_def\<close>)
  show ?thesis
    using tick_increase_rule[OF _ _ _ turn_objects[OF cb], of s] st s cb
    unfolding safe_def system_inv_def callbacks_sound_def by blast
qed

section \<open>Every reachable state\<close>

text \<open>
  One step: a call by the running thread, a call or a tick inside an interrupt, entering and leaving an
  interrupt, and scheduling. \<open>user\<close> are the timer callbacks.
\<close>

inductive sys_step :: "(nat \<Rightarrow> ipc_sys \<Rightarrow> ipc_sys option) \<Rightarrow> ipc_sys \<Rightarrow> ipc_sys \<Rightarrow> bool" for user where
  call: "caller c s \<Longrightarrow> call_ok a s \<Longrightarrow> exec a s = Some s' \<Longrightarrow> sys_step user s s'"
| isr: "interrupt_nest s \<noteq> 0 \<Longrightarrow> isr_call a \<Longrightarrow> exec a s = Some s' \<Longrightarrow> sys_step user s s'"
| tick: "interrupt_nest s \<noteq> 0 \<Longrightarrow> rt_tick_increase user s = Some s' \<Longrightarrow> sys_step user s s'"
| enter: "interrupt_nest s \<noteq> 0xff \<Longrightarrow> sys_step user s (rt_interrupt_enter s)"
| leave: "interrupt_nest s \<noteq> 0 \<Longrightarrow> sys_step user s (rt_interrupt_leave s)"
| reschedule: "rt_schedule s = Some s' \<Longrightarrow> sys_step user s s'"

inductive reachable :: "(nat \<Rightarrow> ipc_sys \<Rightarrow> ipc_sys option) \<Rightarrow> ipc_sys \<Rightarrow> ipc_sys \<Rightarrow> bool" for user s0 where
  start: "reachable user s0 s0"
| step: "reachable user s0 s \<Longrightarrow> sys_step user s s' \<Longrightarrow> reachable user s0 s'"

lemma step_system:
  assumes "sys_step user s s'" "system_inv s" "callbacks_sound user"
  shows "system_inv s'"
  using assms(1)
proof cases
  case (call c a)
  then show ?thesis using safe_call[OF assms(2) call(1,2)] by (simp add: safe_def)
next
  case (isr a)
  then show ?thesis using safe_isr[OF assms(2) isr(2)] by (simp add: safe_def)
next
  case tick
  then show ?thesis using safe_tick[OF assms(2,3)] by (auto simp: safe_def)
next
  case reschedule
  then show ?thesis using safe_schedule[OF assms(2)] by (auto simp: safe_def)
qed (use nest_system[OF assms(2)] in \<open>simp_all add: rt_interrupt_enter_def rt_interrupt_leave_def\<close>)

lemma reachable_system: "reachable user s0 s \<Longrightarrow> system_inv s0 \<Longrightarrow> callbacks_sound user \<Longrightarrow> system_inv s"
  by (induction rule: reachable.induct) (auto intro: step_system)

section \<open>Properties\<close>



text \<open>
  C29. Initialising an object establishes its part of the invariant: rt_sem_init (for values of 16 bits),
  rt_mutex_init, rt_event_init, rt_mb_init on a pool of the size given, and rt_mq_init on blocks of the
  aligned message size, with every block on the free list.
\<close>

theorem objects_initialised:
  assumes "v < 0x10000" "length pool = unat (ucast size' :: u16)"
    "\<And>b. length (data b) = unat (ucast (rt_align msize) :: u16)"
  shows "(\<exists>s'. rt_sem_init n v fl s = Some s' \<and> sem_inv n s' \<and> sem_abs n s' = (unat v, [])) \<and>
    mutex_inv n (rt_mutex_init n fl s) \<and> event_inv n (rt_event_init n fl s) \<and>
    mbox_ok (mailboxes (rt_mb_init n pool size' fl s) n) \<and>
    mq_lists {} (mqs (rt_mq_init n links data msize pool_size fl s) n)
      (rev [0..<unat (ucast (pool_size div (ucast (ucast (rt_align msize) :: u16) + 8)) :: u16)]) []"
proof -
  obtain s' where s': "rt_sem_init n v fl s = Some s'" using assms(1) by (simp add: rt_sem_init_def)
  have "unat (ucast v :: u16) = unat v"
    using assms(1) by (simp add: unsigned_ucast_eq take_bit_nat_eq_self_iff word_less_nat_alt)
  then have "sem_abs n s' = (unat v, [])"
    using s' by (auto simp: rt_sem_init_def sem_abs_def set_object_def rt_ipc_object_init_def upd_sem_def split: if_splits)
  moreover have "mbox_ok (mailboxes (rt_mb_init n pool size' fl s) n)"
    using assms(2) by (simp add: rt_mb_init_def mbox_ok_def mb_fresh_def upd_mb_def rt_ipc_object_init_def)
  moreover have "mqs (rt_mq_init n links data msize pool_size fl s) n =
      mq_fresh (ucast (rt_align msize)) (ucast (pool_size div (ucast (ucast (rt_align msize) :: u16) + 8))) links data"
    by (simp add: rt_mq_init_def Let_def rt_ipc_object_init_def upd_mq_def)
  ultimately show ?thesis
    using s' sem_init_inv[OF s'] mutex_fresh_inv event_init_inv fresh_lists[OF assms(3)] by simp
qed

section \<open>The properties at work\<close>

lemma demo_system: "system_inv (demo (Suspended (Sem 0)) [])"
proof -
  let ?d = "demo (Suspended (Sem 0)) []"
  have "objects_inv ?d"
    by (simp add: objects_inv_def sem_inv_def mutex_inv_def event_inv_def event_waiters_def mbox_ok_def demo_mq_ok)
  then show ?thesis using demo_task by (simp add: system_inv_def)
qed

lemma quiet_sound: "callbacks_sound (\<lambda>n. Some)"
  by (simp add: callbacks_sound_def quiet_callbacks)

lemma demo_reachable: "\<exists>s. sem_value (sems s 0) = 1 \<and> reachable (\<lambda>n. Some) (demo (Suspended (Sem 0)) []) s"
proof -
  let ?d = "demo (Suspended (Sem 0)) []"
  have "caller 1 ?d" by (simp add: caller_def st_def)
  moreover have "exec (SemRelease 0) ?d = Some (upd_sem 0 1 ?d)" by (simp add: rt_sem_release_def)
  ultimately have "sys_step (\<lambda>n. Some) ?d (upd_sem 0 1 ?d)" by (intro sys_step.call[of 1 ?d "SemRelease 0"]) simp_all
  then have "reachable (\<lambda>n. Some) ?d (upd_sem 0 1 ?d)" by (rule reachable.step[OF reachable.start])
  then show ?thesis by (intro exI[of _ "upd_sem 0 1 ?d"]) simp
qed



lemma objects_initialised_witness:
  "(\<exists>s'. rt_sem_init 3 7 0 (demo Defunct []) = Some s' \<and> sem_inv 3 s' \<and> sem_abs 3 s' = (7, [])) \<and>
    mbox_ok (mailboxes (rt_mb_init 3 [0, 0] 2 0 (demo Defunct [])) 3) \<and>
    mq_lists {} (mqs (rt_mq_init 3 (\<lambda>b. None) (\<lambda>b. replicate 8 0) 5 48 0 (demo Defunct [])) 3) [2, 1, 0] []"
proof -
  have a: "rt_align 5 = 8" by (simp add: rt_align_def)
  have r: "rev [0..<3] = [2, 1, 0 :: nat]" by (simp add: upt_rec)
  show ?thesis
    using objects_initialised[of 7 "[0, 0]" 2 "\<lambda>b. replicate 8 0" 5 3 0 "demo Defunct []" "\<lambda>b. None" 48] by (simp add: a r)
qed

end
