(* ===== verification/RT_List.thy ===== *)
theory RT_List
  imports RT_Thread
begin

text \<open>
  The lists of \<open>src/rt-thread/include/rtservice.h\<close> on pointers: doubly linked rings of nodes embedded in
  the objects, with a node of its own as the head of each list, and singly linked chains. The scheduler,
  timer and IPC theories use one store from list heads to the threads linked there; the pointer lists are
  shown to implement it, through an interface both satisfy.
\<close>

section \<open>Doubly linked lists\<close>

record 'a links =
  next_of :: "'a \<Rightarrow> 'a"
  prev_of :: "'a \<Rightarrow> 'a"

definition set_next :: "'a \<Rightarrow> 'a \<Rightarrow> 'a links \<Rightarrow> 'a links" where
  "set_next x y m = m\<lparr>next_of := (next_of m)(x := y)\<rparr>"

definition set_prev :: "'a \<Rightarrow> 'a \<Rightarrow> 'a links \<Rightarrow> 'a links" where
  "set_prev x y m = m\<lparr>prev_of := (prev_of m)(x := y)\<rparr>"

definition rt_list_init :: "'a \<Rightarrow> 'a links \<Rightarrow> 'a links" where
  "rt_list_init l m = set_next l l (set_prev l l m)"

text \<open>Four assignments each, in the order of the code.\<close>

definition rt_list_insert_after :: "'a \<Rightarrow> 'a \<Rightarrow> 'a links \<Rightarrow> 'a links" where
  "rt_list_insert_after l n m =
     (let m1 = set_prev (next_of m l) n m;
          m2 = set_next n (next_of m1 l) m1;
          m3 = set_next l n m2
      in set_prev n l m3)"

definition rt_list_insert_before :: "'a \<Rightarrow> 'a \<Rightarrow> 'a links \<Rightarrow> 'a links" where
  "rt_list_insert_before l n m =
     (let m1 = set_next (prev_of m l) n m;
          m2 = set_prev n (prev_of m1 l) m1;
          m3 = set_prev l n m2
      in set_next n l m3)"

definition rt_list_remove :: "'a \<Rightarrow> 'a links \<Rightarrow> 'a links" where
  "rt_list_remove n m =
     (let m1 = set_prev (next_of m n) (prev_of m n) m;
          m2 = set_next (prev_of m1 n) (next_of m1 n) m1;
          m3 = set_prev n n m2
      in set_next n (prev_of m3 n) m3)"

definition rt_list_isempty :: "'a \<Rightarrow> 'a links \<Rightarrow> bool" where
  "rt_list_isempty l m \<longleftrightarrow> next_of m l = l"

partial_function (option) list_len_loop :: "'a \<Rightarrow> 'a \<Rightarrow> nat \<Rightarrow> 'a links \<Rightarrow> nat option" where
  "list_len_loop l p len m = (if next_of m p \<noteq> l then list_len_loop l (next_of m p) (len + 1) m else Some len)"

definition rt_list_len :: "'a \<Rightarrow> 'a links \<Rightarrow> nat option" where
  "rt_list_len l m = list_len_loop l l 0 m"

lemma set_link_obs [simp]:
  "next_of (set_next x y m) = (next_of m)(x := y)" "prev_of (set_next x y m) = prev_of m"
  "prev_of (set_prev x y m) = (prev_of m)(x := y)" "next_of (set_prev x y m) = next_of m"
  by (simp_all add: set_next_def set_prev_def)

section \<open>Rings\<close>

text \<open>
  \<open>seg m p xs q\<close>: the links lead from \<open>p\<close> through \<open>xs\<close> to \<open>q\<close>, forwards and back; a ring returns to its head.
\<close>

fun seg :: "'a links \<Rightarrow> 'a \<Rightarrow> 'a list \<Rightarrow> 'a \<Rightarrow> bool" where
  "seg m p [] q \<longleftrightarrow> next_of m p = q \<and> prev_of m q = p"
| "seg m p (x # xs) q \<longleftrightarrow> next_of m p = x \<and> prev_of m x = p \<and> seg m x xs q"

definition ring_of :: "'a links \<Rightarrow> 'a \<Rightarrow> 'a list \<Rightarrow> bool" where
  "ring_of m h xs \<longleftrightarrow> seg m h xs h \<and> distinct (h # xs)"

lemma seg_append: "seg m p (xs @ y # ys) q \<longleftrightarrow> seg m p xs y \<and> seg m y ys q"
  by (induction xs arbitrary: p) auto

lemma seg_frame:
  "seg m p xs q \<Longrightarrow> (\<And>x. x \<in> set (p # xs) \<Longrightarrow> next_of m' x = next_of m x) \<Longrightarrow>
   (\<And>x. x \<in> set (xs @ [q]) \<Longrightarrow> prev_of m' x = prev_of m x) \<Longrightarrow> seg m' p xs q"
  by (induction xs arbitrary: p) auto

lemma seg_ends: "seg m p xs q \<Longrightarrow> next_of m p = hd (xs @ [q]) \<and> prev_of m q = last (p # xs)"
  by (induction xs arbitrary: p) auto

lemma ring_rotate: "ring_of m h (xs @ y # ys) \<Longrightarrow> ring_of m y (ys @ h # xs)"
  by (auto simp: ring_of_def seg_append)

text \<open>Inserting after a node is inserting before its successor.\<close>

lemma insert_after_eq:
  "prev_of m (next_of m p) = p \<Longrightarrow> n \<noteq> p \<Longrightarrow> n \<noteq> next_of m p \<Longrightarrow>
   rt_list_insert_after p n m = rt_list_insert_before (next_of m p) n m"
  by (cases m) (auto simp: rt_list_insert_after_def rt_list_insert_before_def Let_def set_next_def set_prev_def fun_upd_twist)

lemma insert_before_ring:
  assumes r: "ring_of m h xs" and n: "n \<notin> set (h # xs)"
  shows "ring_of (rt_list_insert_before h n m) h (xs @ [n])"
proof -
  let ?p = "last (h # xs)"
  have s: "seg m h xs h" and d: "distinct (h # xs)" using r by (simp_all add: ring_of_def)
  have p: "prev_of m h = ?p" using seg_ends[OF s] by simp
  let ?m = "rt_list_insert_before h n m"
  have nx: "next_of ?m = (next_of m)(?p := n, n := h)" and pv: "prev_of ?m = (prev_of m)(n := ?p, h := n)"
    by (simp_all add: rt_list_insert_before_def Let_def p)
  show ?thesis
  proof (cases xs rule: rev_cases)
    case Nil
    then show ?thesis using n d by (simp add: ring_of_def nx pv)
  next
    case (snoc ys y)
    have sy: "seg m h ys y" using s by (simp add: snoc seg_append)
    have "seg ?m h ys y" by (rule seg_frame[OF sy]) (use d n snoc in \<open>auto simp: nx pv\<close>)
    then show ?thesis using d n by (auto simp: ring_of_def snoc seg_append nx pv)
  qed
qed

lemma insert_before_member:
  assumes "ring_of m h (xs @ y # ys)" "n \<notin> set (h # xs @ y # ys)"
  shows "ring_of (rt_list_insert_before y n m) h (xs @ n # y # ys)"
proof -
  have "ring_of (rt_list_insert_before y n m) y ((ys @ h # xs) @ [n])"
    by (rule insert_before_ring[OF ring_rotate[OF assms(1)]]) (use assms(2) in auto)
  then have "ring_of (rt_list_insert_before y n m) y (ys @ h # (xs @ [n]))" by simp
  from ring_rotate[OF this] show ?thesis by simp
qed

lemma insert_after_ring:
  assumes r: "ring_of m h xs" and n: "n \<notin> set (h # xs)"
  shows "ring_of (rt_list_insert_after h n m) h (n # xs)"
proof (cases xs)
  case Nil
  then show ?thesis
    using insert_before_ring[OF r n] insert_after_eq[of m h n] r n by (simp add: ring_of_def)
next
  case (Cons y ys)
  then have "rt_list_insert_after h n m = rt_list_insert_before y n m"
    using insert_after_eq[of m h n] r n by (simp add: ring_of_def)
  then show ?thesis using insert_before_member[of m h "[]" y ys n] r n Cons by simp
qed

lemma remove_ring:
  assumes r: "ring_of m h (xs @ n # ys)"
  shows "ring_of (rt_list_remove n m) h (xs @ ys)" "ring_of (rt_list_remove n m) n []"
proof -
  let ?p = "last (h # xs)" and ?q = "hd (ys @ [h])"
  have s: "seg m h xs n" "seg m n ys h" and d: "distinct (h # xs @ n # ys)" using r by (simp_all add: ring_of_def seg_append)
  have pq: "prev_of m n = ?p" "next_of m n = ?q" using seg_ends[OF s(1)] seg_ends[OF s(2)] by simp_all
  let ?m = "rt_list_remove n m"
  have ne: "n \<noteq> ?p" "n \<noteq> ?q" using d by (auto simp: hd_append)
  have nx: "next_of ?m = (next_of m)(?p := ?q, n := n)" and pv: "prev_of ?m = (prev_of m)(?q := ?p, n := n)"
    using ne pq by (auto simp: rt_list_remove_def Let_def fun_eq_iff)
  show "ring_of ?m n []" by (simp add: ring_of_def nx pv)
  have left: "seg ?m h xs ?q"
  proof (cases xs rule: rev_cases)
    case Nil
    then show ?thesis using ne by (auto simp: nx pv)
  next
    case (snoc zs z)
    have "seg m h zs z" using s(1) by (simp add: snoc seg_append)
    then have "seg ?m h zs z" by (rule seg_frame) (use d snoc in \<open>auto simp: nx pv hd_append split: if_splits dest: hd_in_set\<close>)
    then show ?thesis using ne d by (auto simp: snoc seg_append nx pv)
  qed
  show "ring_of ?m h (xs @ ys)"
  proof (cases ys)
    case Nil
    then show ?thesis using left d by (simp add: ring_of_def)
  next
    case (Cons y zs)
    have "seg m y zs h" using s(2) by (simp add: Cons)
    then have "seg ?m y zs h" by (rule seg_frame) (use d Cons in \<open>auto simp: nx pv split: if_splits dest: last_in_set\<close>)
    then show ?thesis using left d by (auto simp: ring_of_def Cons seg_append)
  qed
qed

text \<open>Rings that share no node with the one changed stay as they are.\<close>

lemma ring_frame:
  assumes "ring_of m k zs" "\<And>x. x \<in> set (k # zs) \<Longrightarrow> next_of m' x = next_of m x \<and> prev_of m' x = prev_of m x"
  shows "ring_of m' k zs"
  using assms by (auto simp: ring_of_def intro: seg_frame)

lemma insert_before_frame:
  assumes "ring_of m h xs" "set (k # zs) \<inter> set (n # h # xs) = {}" "ring_of m k zs"
  shows "ring_of (rt_list_insert_before h n m) k zs"
proof (rule ring_frame[OF assms(3)])
  fix x assume "x \<in> set (k # zs)"
  moreover have "prev_of m h \<in> set (h # xs)" using assms(1) seg_ends[of m h xs h] by (auto simp: ring_of_def)
  ultimately show "next_of (rt_list_insert_before h n m) x = next_of m x \<and> prev_of (rt_list_insert_before h n m) x = prev_of m x"
    using assms(2) by (auto simp: rt_list_insert_before_def Let_def)
qed

lemma remove_frame:
  assumes "ring_of m n xs" "set (k # zs) \<inter> set (n # xs) = {}" "ring_of m k zs"
  shows "ring_of (rt_list_remove n m) k zs"
proof (rule ring_frame[OF assms(3)])
  fix x assume "x \<in> set (k # zs)"
  moreover have "prev_of m n \<in> set (n # xs)" "next_of m n \<in> set (n # xs)"
    using assms(1) seg_ends[of m n xs n] by (auto simp: ring_of_def hd_append dest: hd_in_set)
  ultimately show "next_of (rt_list_remove n m) x = next_of m x \<and> prev_of (rt_list_remove n m) x = prev_of m x"
    using assms(2) by (auto simp: rt_list_remove_def Let_def)
qed

lemma remove_alone: "ring_of m n [] \<Longrightarrow> rt_list_remove n m = m"
  by (cases m) (simp add: ring_of_def rt_list_remove_def Let_def set_next_def set_prev_def fun_upd_idem)

lemma len_loop:
  "seg m p xs h \<Longrightarrow> h \<notin> set xs \<Longrightarrow> list_len_loop h p len m = Some (len + length xs)"
proof (induction xs arbitrary: p len)
  case Nil
  then show ?case by (simp add: list_len_loop.simps[of h p len m])
next
  case (Cons x xs)
  then have "list_len_loop h p len m = list_len_loop h x (len + 1) m" by (subst list_len_loop.simps) auto
  then show ?case using Cons by simp
qed

lemma ring_obs:
  assumes "ring_of m h xs"
  shows "rt_list_isempty h m \<longleftrightarrow> xs = []" "rt_list_len h m = Some (length xs)" "xs \<noteq> [] \<Longrightarrow> next_of m h = hd xs"
  using assms len_loop[of m h xs h 0] by (cases xs; auto simp: ring_of_def rt_list_isempty_def rt_list_len_def)+

lemma init_ring: "ring_of (rt_list_init h m) h []"
  by (simp add: ring_of_def rt_list_init_def)

section \<open>The interface the kernel uses\<close>

text \<open>
  What the kernel relies on: lists that share no member, linking a thread that is in none of them at the
  tail or the head of a list, unlinking it from wherever it is, and reading the first member.
\<close>

definition apart :: "('h \<Rightarrow> 't list) \<Rightarrow> bool" where
  "apart q \<longleftrightarrow> (\<forall>l. distinct (q l)) \<and> (\<forall>l l' t. t \<in> set (q l) \<longrightarrow> t \<in> set (q l') \<longrightarrow> l = l')"

definition first_of :: "('h \<Rightarrow> 't list) \<Rightarrow> 'h \<Rightarrow> 't option" where
  "first_of q l = (case q l of [] \<Rightarrow> None | t # _ \<Rightarrow> Some t)"

locale thread_lists =
  fixes rep :: "'m \<Rightarrow> ('h \<Rightarrow> 't list) \<Rightarrow> bool"
    and link_tail :: "'h \<Rightarrow> 't \<Rightarrow> 'm \<Rightarrow> 'm" and link_head :: "'h \<Rightarrow> 't \<Rightarrow> 'm \<Rightarrow> 'm"
    and unlink :: "'t \<Rightarrow> 'm \<Rightarrow> 'm" and first :: "'h \<Rightarrow> 'm \<Rightarrow> 't option"
  assumes rep_apart: "rep m q \<Longrightarrow> apart q"
    and tail_law: "rep m q \<Longrightarrow> \<forall>k. t \<notin> set (q k) \<Longrightarrow> rep (link_tail l t m) (q(l := q l @ [t]))"
    and head_law: "rep m q \<Longrightarrow> \<forall>k. t \<notin> set (q k) \<Longrightarrow> rep (link_head l t m) (q(l := t # q l))"
    and unlink_law: "rep m q \<Longrightarrow> rep (unlink t m) (\<lambda>l. removeAll t (q l))"
    and first_law: "rep m q \<Longrightarrow> first l m = first_of q l"

datatype ('h, 't) list_op = LinkTail 'h 't | LinkHead 'h 't | Unlink 't

fun on_lists :: "('h, 't) list_op list \<Rightarrow> ('h \<Rightarrow> 't list) \<Rightarrow> ('h \<Rightarrow> 't list)" where
  "on_lists [] q = q"
| "on_lists (LinkTail l t # ops) q = on_lists ops (q(l := q l @ [t]))"
| "on_lists (LinkHead l t # ops) q = on_lists ops (q(l := t # q l))"
| "on_lists (Unlink t # ops) q = on_lists ops (\<lambda>l. removeAll t (q l))"

text \<open>Only unlinked threads are linked.\<close>

fun legal :: "('h, 't) list_op list \<Rightarrow> ('h \<Rightarrow> 't list) \<Rightarrow> bool" where
  "legal [] q \<longleftrightarrow> True"
| "legal (LinkTail l t # ops) q \<longleftrightarrow> (\<forall>k. t \<notin> set (q k)) \<and> legal ops (q(l := q l @ [t]))"
| "legal (LinkHead l t # ops) q \<longleftrightarrow> (\<forall>k. t \<notin> set (q k)) \<and> legal ops (q(l := t # q l))"
| "legal (Unlink t # ops) q \<longleftrightarrow> legal ops (\<lambda>l. removeAll t (q l))"

context thread_lists
begin

fun run :: "('h, 't) list_op list \<Rightarrow> 'm \<Rightarrow> 'm" where
  "run [] m = m"
| "run (LinkTail l t # ops) m = run ops (link_tail l t m)"
| "run (LinkHead l t # ops) m = run ops (link_head l t m)"
| "run (Unlink t # ops) m = run ops (unlink t m)"

lemma run_rep: "rep m q \<Longrightarrow> legal ops q \<Longrightarrow> rep (run ops m) (on_lists ops q)"
  by (induction ops q arbitrary: m rule: on_lists.induct) (auto intro: tail_law head_law unlink_law)

lemma run_first: "rep m q \<Longrightarrow> legal ops q \<Longrightarrow> first l (run ops m) = first_of (on_lists ops q) l"
  by (rule first_law[OF run_rep])

text \<open>The queue discipline: what is linked at the tail of an empty list comes out first.\<close>

lemma tail_then_first: "rep m q \<Longrightarrow> \<forall>k. t \<notin> set (q k) \<Longrightarrow> q l = [] \<Longrightarrow> first l (link_tail l t m) = Some t"
  using first_law[OF tail_law] by (fastforce simp: first_of_def)

end

text \<open>The pointer lists: the nodes are the list heads and the threads' own nodes.\<close>

definition on_pointers :: "('h + 't) links \<Rightarrow> ('h \<Rightarrow> 't list) \<Rightarrow> bool" where
  "on_pointers m q \<longleftrightarrow> apart q \<and> (\<forall>l. ring_of m (Inl l) (map Inr (q l))) \<and>
     (\<forall>t. (\<forall>l. t \<notin> set (q l)) \<longrightarrow> ring_of m (Inr t) [])"

definition first_entry :: "'h \<Rightarrow> ('h + 't) links \<Rightarrow> 't option" where
  "first_entry l m =
     (if rt_list_isempty (Inl l) m then None else case next_of m (Inl l) of Inr t \<Rightarrow> Some t | Inl k \<Rightarrow> None)"

lemma on_pointersD:
  assumes "on_pointers m q"
  shows "apart q" "ring_of m (Inl l) (map Inr (q l))" "(\<forall>l. t \<notin> set (q l)) \<Longrightarrow> ring_of m (Inr t) []"
  using assms by (simp_all add: on_pointers_def)

lemma apart_insert:
  "apart q \<Longrightarrow> \<forall>k. t \<notin> set (q k) \<Longrightarrow> mset ts = add_mset t (mset (q l)) \<Longrightarrow> apart (q(l := ts))"
proof -
  assume a: "apart q" and t: "\<forall>k. t \<notin> set (q k)" and m: "mset ts = add_mset t (mset (q l))"
  have "set ts = insert t (set (q l))" using arg_cong[OF m, of set_mset] by simp
  moreover have "distinct ts" using a t m by (metis apart_def distinct.simps(2) mset.simps(2) mset_eq_imp_distinct_iff)
  ultimately show ?thesis using a t unfolding apart_def by (auto split: if_splits)
qed

text \<open>A link operation that turns one list's ring into another and leaves the rest.\<close>

lemma on_pointers_link:
  assumes r: "on_pointers m q" and t: "\<forall>k. t \<notin> set (q k)" and ts: "mset ts = add_mset t (mset (q l))"
    and new: "ring_of m' (Inl l) (map Inr ts)"
    and other: "\<And>k zs. set (k # zs) \<inter> set (Inr t # Inl l # map Inr (q l)) = {} \<Longrightarrow> ring_of m k zs \<Longrightarrow> ring_of m' k zs"
  shows "on_pointers m' (q(l := ts))"
  unfolding on_pointers_def
proof (intro conjI allI impI)
  note rd = on_pointersD[OF r]
  have set: "set ts = insert t (set (q l))" using arg_cong[OF ts, of set_mset] by simp
  show "apart (q(l := ts))" by (rule apart_insert[OF rd(1) t ts])
  show "ring_of m' (Inl k) (map Inr ((q(l := ts)) k))" for k
  proof (cases "k = l")
    case False
    have "ring_of m' (Inl k) (map Inr (q k))"
      by (rule other[OF _ rd(2)]) (use rd(1) t False in \<open>auto simp: apart_def\<close>)
    then show ?thesis using False by simp
  qed (use new in simp)
  show "ring_of m' (Inr u) []" if u: "\<forall>k. u \<notin> set ((q(l := ts)) k)" for u
  proof -
    have ul: "u \<notin> set ts" "\<And>k. k \<noteq> l \<Longrightarrow> u \<notin> set (q k)" using u by (metis fun_upd_apply)+
    then have out: "\<forall>k. u \<notin> set (q k)" "u \<noteq> t" using set by (metis insert_iff)+
    show ?thesis by (rule other[OF _ rd(3)[OF out(1)]]) (use out in auto)
  qed
qed

lemma on_pointers_unlink:
  assumes r: "on_pointers m q"
  shows "on_pointers (rt_list_remove (Inr t) m) (\<lambda>l. removeAll t (q l))"
proof (cases "\<forall>l. t \<notin> set (q l)")
  case True
  then have "(\<lambda>l. removeAll t (q l)) = q" by (simp add: fun_eq_iff)
  then show ?thesis using r remove_alone[OF on_pointersD(3)[OF r True]] by simp
next
  case False
  note rd = on_pointersD[OF r]
  obtain l where l: "t \<in> set (q l)" using False by blast
  obtain xs ys where q: "q l = xs @ t # ys" using split_list[OF l] by blast
  let ?m = "rt_list_remove (Inr t) m"
  have d: "t \<notin> set xs" "t \<notin> set ys" using rd(1) q by (auto simp: apart_def dest!: spec[of _ l])
  have only: "k = l" if "t \<in> set (q k)" for k using rd(1) l that by (auto simp: apart_def)
  have ring: "ring_of m (Inl l) (map Inr xs @ Inr t # map Inr ys)" using rd(2)[of l] q by simp
  have other: "ring_of ?m k zs" if "set (k # zs) \<inter> set (Inl l # map Inr (q l)) = {}" "ring_of m k zs" for k zs
    by (rule remove_frame[OF ring_rotate[OF ring] _ that(2)]) (use that(1) q in auto)
  show ?thesis
    unfolding on_pointers_def
  proof (intro conjI allI impI)
    show "apart (\<lambda>l. removeAll t (q l))" using rd(1) by (auto simp: apart_def distinct_removeAll)
    show "ring_of ?m (Inl k) (map Inr (removeAll t (q k)))" for k
    proof (cases "k = l")
      case True
      then show ?thesis using remove_ring(1)[OF ring] q d by simp
    next
      case k: False
      then have "t \<notin> set (q k)" using only by auto
      moreover have "ring_of ?m (Inl k) (map Inr (q k))"
        by (rule other[OF _ rd(2)]) (use rd(1) k in \<open>auto simp: apart_def\<close>)
      ultimately show ?thesis by simp
    qed
    show "ring_of ?m (Inr u) []" if u: "\<forall>k. u \<notin> set (removeAll t (q k))" for u
    proof (cases "u = t")
      case True
      then show ?thesis using remove_ring(2)[OF ring] by simp
    next
      case ut: False
      then have out: "\<forall>k. u \<notin> set (q k)" using u by simp
      show ?thesis by (rule other[OF _ rd(3)[OF out]]) (use out in auto)
    qed
  qed
qed

lemma on_pointers_tail:
  assumes r: "on_pointers m q" and t: "\<forall>k. t \<notin> set (q k)"
  shows "on_pointers (rt_list_insert_before (Inl l) (Inr t) m) (q(l := q l @ [t]))"
proof (rule on_pointers_link[OF r t])
  show "ring_of (rt_list_insert_before (Inl l) (Inr t) m) (Inl l) (map Inr (q l @ [t]))"
    using insert_before_ring[OF on_pointersD(2)[OF r, of l], of "Inr t"] t by auto
qed (use insert_before_frame[OF on_pointersD(2)[OF r]] in auto)

lemma on_pointers_head:
  assumes r: "on_pointers m q" and t: "\<forall>k. t \<notin> set (q k)"
  shows "on_pointers (rt_list_insert_after (Inl l) (Inr t) m) (q(l := t # q l))"
proof (rule on_pointers_link[OF r t])
  note ring = on_pointersD(2)[OF r, of l]
  show "ring_of (rt_list_insert_after (Inl l) (Inr t) m) (Inl l) (map Inr (t # q l))"
    using insert_after_ring[OF ring, of "Inr t"] t by auto
  fix k zs assume dis: "set (k # zs) \<inter> set (Inr t # Inl l # map Inr (q l)) = {}" and kz: "ring_of m k zs"
  show "ring_of (rt_list_insert_after (Inl l) (Inr t) m) k zs"
  proof (cases "q l")
    case Nil
    then have "rt_list_insert_after (Inl l) (Inr t) m = rt_list_insert_before (Inl l) (Inr t) m"
      using insert_after_eq[of m "Inl l" "Inr t"] ring by (simp add: ring_of_def)
    then show ?thesis using insert_before_frame[OF ring dis kz] by simp
  next
    case (Cons u us)
    have "t \<noteq> u" using t Cons by (metis list.set_intros(1))
    then have "rt_list_insert_after (Inl l) (Inr t) m = rt_list_insert_before (Inr u) (Inr t) m"
      using insert_after_eq[of m "Inl l" "Inr t"] ring Cons by (simp add: ring_of_def)
    moreover have "ring_of m (Inr u) (map Inr us @ [Inl l])" using ring_rotate[of m "Inl l" "[]"] ring Cons by simp
    then have "ring_of (rt_list_insert_before (Inr u) (Inr t) m) k zs"
      by (rule insert_before_frame[OF _ _ kz]) (use dis Cons in auto)
    ultimately show ?thesis by simp
  qed
qed simp

interpretation ptr: thread_lists on_pointers "\<lambda>l t. rt_list_insert_before (Inl l) (Inr t)"
  "\<lambda>l t. rt_list_insert_after (Inl l) (Inr t)" "\<lambda>t. rt_list_remove (Inr t)" first_entry
proof unfold_locales
  fix m :: "('h + 't) links" and q l
  assume r: "on_pointers m q"
  show "first_entry l m = first_of q l"
    using ring_obs(1,3)[OF on_pointersD(2)[OF r, of l]]
    by (cases "q l") (auto simp: first_entry_def first_of_def)
qed (auto intro: on_pointers_tail on_pointers_head on_pointers_unlink dest: on_pointersD(1))

text \<open>The store of the kernel model satisfies the same interface.\<close>

definition in_store :: "'a sched_scheme \<Rightarrow> (rt_list_head \<Rightarrow> tid list) \<Rightarrow> bool" where
  "in_store s q \<longleftrightarrow> queues s = q \<and> apart q"

interpretation store: thread_lists in_store list_append list_push list_unlink "\<lambda>l s. first_of (queues s) l"
proof unfold_locales
  fix s :: "'a sched_scheme" and q l t
  assume s: "in_store s q"
  then have a: "apart q" by (simp add: in_store_def)
  show "in_store (list_unlink t s) (\<lambda>l. removeAll t (q l))"
    using s by (auto simp: in_store_def apart_def list_unlink_def distinct_removeAll)
  show "in_store (list_append l t s) (q(l := q l @ [t]))" if "\<forall>k. t \<notin> set (q k)"
    using s apart_insert[OF a that, of "q l @ [t]" l] by (simp add: in_store_def list_append_def)
  show "in_store (list_push l t s) (q(l := t # q l))" if "\<forall>k. t \<notin> set (q k)"
    using s apart_insert[OF a that, of "t # q l" l] by (simp add: in_store_def list_push_def)
qed (simp_all add: in_store_def)

lemma lists_inv_store: "lists_inv X s \<Longrightarrow> in_store s (queues s)"
  using lists_invD(1,2)[of X s] by (auto simp: in_store_def apart_def)



section \<open>Singly linked lists\<close>

type_synonym 'a slinks = "'a \<Rightarrow> 'a option"

definition rt_slist_init :: "'a \<Rightarrow> 'a slinks \<Rightarrow> 'a slinks" where
  "rt_slist_init l m = m(l := None)"

partial_function (option) rt_slist_tail :: "'a \<Rightarrow> 'a slinks \<Rightarrow> 'a option" where
  "rt_slist_tail l m = (case m l of Some n \<Rightarrow> rt_slist_tail n m | None \<Rightarrow> Some l)"

definition rt_slist_append :: "'a \<Rightarrow> 'a \<Rightarrow> 'a slinks \<Rightarrow> 'a slinks option" where
  "rt_slist_append l n m = do { node \<leftarrow> rt_slist_tail l m; Some (m(node := Some n, n := None)) }"

definition rt_slist_insert :: "'a \<Rightarrow> 'a \<Rightarrow> 'a slinks \<Rightarrow> 'a slinks" where
  "rt_slist_insert l n m = (let m1 = m(n := m l) in m1(l := Some n))"

partial_function (option) slist_len_loop :: "'a option \<Rightarrow> nat \<Rightarrow> 'a slinks \<Rightarrow> nat option" where
  "slist_len_loop list len m = (case list of None \<Rightarrow> Some len | Some n \<Rightarrow> slist_len_loop (m n) (len + 1) m)"

definition rt_slist_len :: "'a \<Rightarrow> 'a slinks \<Rightarrow> nat option" where
  "rt_slist_len l m = slist_len_loop (m l) 0 m"

partial_function (option) slist_find :: "'a \<Rightarrow> 'a \<Rightarrow> 'a slinks \<Rightarrow> 'a option" where
  "slist_find node n m =
     (case m node of None \<Rightarrow> Some node | Some k \<Rightarrow> if k = n then Some node else slist_find k n m)"

definition rt_slist_remove :: "'a \<Rightarrow> 'a \<Rightarrow> 'a slinks \<Rightarrow> 'a slinks option" where
  "rt_slist_remove l n m =
     do { node \<leftarrow> slist_find l n m;
          Some (case m node of None \<Rightarrow> m | Some k \<Rightarrow> m(node := m k)) }"

definition rt_slist_isempty :: "'a \<Rightarrow> 'a slinks \<Rightarrow> bool" where
  "rt_slist_isempty l m \<longleftrightarrow> m l = None"

definition rt_slist_first :: "'a \<Rightarrow> 'a slinks \<Rightarrow> 'a option" where
  "rt_slist_first l m = m l"

definition rt_slist_next :: "'a \<Rightarrow> 'a slinks \<Rightarrow> 'a option" where
  "rt_slist_next n m = m n"

fun schain :: "'a slinks \<Rightarrow> 'a \<Rightarrow> 'a list \<Rightarrow> bool" where
  "schain m l [] \<longleftrightarrow> m l = None"
| "schain m l (x # xs) \<longleftrightarrow> m l = Some x \<and> schain m x xs"

lemma schain_Cons: "m l = Some x \<Longrightarrow> schain m x xs \<Longrightarrow> schain m l (x # xs)"
  by simp

lemma schain_frame: "schain m l xs \<Longrightarrow> (\<And>x. x \<in> set (l # xs) \<Longrightarrow> m' x = m x) \<Longrightarrow> schain m' l xs"
  by (induction xs arbitrary: l) auto

lemma slist_tail_chain: "schain m l xs \<Longrightarrow> rt_slist_tail l m = Some (last (l # xs))"
proof (induction xs arbitrary: l)
  case Nil
  then show ?case by (simp add: rt_slist_tail.simps[of l])
next
  case (Cons x xs)
  then show ?case using rt_slist_tail.simps[of l m] by simp
qed

lemma slist_append_chain:
  "schain m l xs \<Longrightarrow> distinct (l # xs) \<Longrightarrow> n \<notin> set (l # xs) \<Longrightarrow>
   \<exists>m'. rt_slist_append l n m = Some m' \<and> schain m' l (xs @ [n])"
proof -
  assume c: "schain m l xs" and d: "distinct (l # xs)" "n \<notin> set (l # xs)"
  have "schain (m(last (l # xs) := Some n, n := None)) l (xs @ [n])"
    using c d
  proof (induction xs arbitrary: l)
    case (Cons x xs)
    define p where "p = last (x # xs)"
    have r: "schain (m(p := Some n, n := None)) x (xs @ [n])"
      unfolding p_def by (rule Cons.IH) (use Cons.prems in auto)
    have "l \<noteq> p" using Cons.prems(2) last_in_set[of "x # xs"] unfolding p_def by (metis distinct.simps(2) list.simps(3))
    then have "(m(p := Some n, n := None)) l = Some x" using Cons.prems by auto
    from schain_Cons[OF this r] show ?case by (simp only: p_def last_ConsR append_Cons list.distinct simp_thms)
  qed simp
  then show ?thesis using slist_tail_chain[OF c] by (simp add: rt_slist_append_def)
qed

lemma slist_insert_chain:
  assumes c: "schain m l xs" and d: "distinct (l # xs)" and n: "n \<notin> set (l # xs)"
  shows "schain (rt_slist_insert l n m) l (n # xs)"
proof (cases xs)
  case (Cons x ys)
  have "schain m x ys" using c Cons by simp
  then have "schain (rt_slist_insert l n m) x ys"
    by (rule schain_frame) (use d n Cons in \<open>auto simp: rt_slist_insert_def\<close>)
  then show ?thesis using c d n Cons by (auto simp: rt_slist_insert_def)
qed (use c n in \<open>auto simp: rt_slist_insert_def\<close>)

lemma slist_len_chain: "schain m l xs \<Longrightarrow> rt_slist_len l m = Some (length xs)"
proof -
  have "schain m l xs \<Longrightarrow> slist_len_loop (m l) k m = Some (k + length xs)" for k
  proof (induction xs arbitrary: l k)
    case Nil
    then show ?case by (simp add: slist_len_loop.simps[of None])
  next
    case (Cons x xs)
    then show ?case using slist_len_loop.simps[of "Some x" k m] by simp
  qed
  then show "schain m l xs \<Longrightarrow> ?thesis" by (simp add: rt_slist_len_def)
qed

text \<open>Removing a member; a node that is not in the list leaves it as it is.\<close>

lemma slist_find_chain:
  "schain m l (xs @ n # ys) \<Longrightarrow> n \<notin> set xs \<Longrightarrow> slist_find l n m = Some (last (l # xs)) \<and> m (last (l # xs)) = Some n"
proof (induction xs arbitrary: l)
  case Nil
  then show ?case using slist_find.simps[of l n m] by simp
next
  case (Cons x xs)
  then show ?case using slist_find.simps[of l n m] by auto
qed

lemma slist_remove_chain:
  assumes c: "schain m l (xs @ n # ys)" and d: "distinct (l # xs @ n # ys)"
  shows "\<exists>m'. rt_slist_remove l n m = Some m' \<and> schain m' l (xs @ ys)"
proof -
  have f: "slist_find l n m = Some (last (l # xs))" "m (last (l # xs)) = Some n"
    using slist_find_chain[OF c] d by auto
  have "schain (m(last (l # xs) := m n)) l (xs @ ys)"
    using c d
  proof (induction xs arbitrary: l)
    case Nil
    show ?case
    proof (cases ys)
      case (Cons y zs)
      have "schain m y zs" using Nil.prems Cons by simp
      then have "schain (m(l := m n)) y zs" by (rule schain_frame) (use Nil.prems Cons in auto)
      from schain_Cons[OF _ this, of l] show ?thesis using Nil.prems(1) Cons by (simp only: append_Nil last.simps schain.simps fun_upd_same simp_thms if_True)
    qed (use Nil.prems in simp)
  next
    case (Cons x xs)
    define p where "p = last (x # xs)"
    have r: "schain (m(p := m n)) x (xs @ ys)"
      unfolding p_def by (rule Cons.IH) (use Cons.prems in auto)
    have "p \<in> set (x # xs)" unfolding p_def by (rule last_in_set) simp
    then have "l \<noteq> p" using Cons.prems(2) by auto
    then have "(m(p := m n)) l = Some x" using Cons.prems by simp
    from schain_Cons[OF this r] show ?case by (simp only: p_def last_ConsR append_Cons list.distinct simp_thms)
  qed
  then show ?thesis using f by (simp add: rt_slist_remove_def)
qed

text \<open>
  A singly linked chain behaves as the list of its members: rt_slist_append puts a new node last,
  rt_slist_insert puts it first, rt_slist_remove takes one node out and keeps the order of the others,
  rt_slist_len counts the members, and rt_slist_first and rt_slist_isempty agree with the list.
\<close>

theorem slist_is_list:
  assumes c: "schain m l xs" and d: "distinct (l # xs)" and n: "n \<notin> set (l # xs)"
    and e: "xs = ys @ k # zs"
  shows "(\<exists>m'. rt_slist_append l n m = Some m' \<and> schain m' l (xs @ [n])) \<and>
    schain (rt_slist_insert l n m) l (n # xs) \<and>
    (\<exists>m'. rt_slist_remove l k m = Some m' \<and> schain m' l (ys @ zs)) \<and>
    rt_slist_len l m = Some (length xs) \<and> rt_slist_first l m = Some (hd xs) \<and>
    rt_slist_tail l m = Some (last xs) \<and> \<not> rt_slist_isempty l m"
proof -
  have "m l = Some (hd xs)" using c e by (cases ys) auto
  moreover have "last (l # xs) = last xs" using e by simp
  ultimately show ?thesis
    using slist_append_chain[OF c d n] slist_insert_chain[OF c d n] slist_len_chain[OF c] slist_tail_chain[OF c]
      slist_remove_chain[of m l ys k zs] c d e
    by (simp add: rt_slist_first_def rt_slist_isempty_def)
qed

lemma slist_is_list_witness:
  "rt_slist_len (0::nat) ((\<lambda>x. None)(0 := Some 1, 1 := Some 2)) = Some 2"
  using slist_is_list[of "(\<lambda>x. None)(0 := Some 1, 1 := Some 2)" "0::nat" "[1, 2]" 3 "[1]" 2 "[]"] by simp

end
