(* ===== verification/RT_MemHeap.thy ===== *)
theory RT_MemHeap
  imports RT_List RT_Semaphore
begin

text \<open>
  The memory heap of \<open>src/rt-thread/src/memheap.c\<close>, which is the system heap in this configuration
  (\<open>RT_USING_MEMHEAP_AS_HEAP\<close>): the block headers in a store indexed by address, the two rings that link
  them, the semaphore that locks a heap, and every operation. Pointers are 64-bit words and the counters
  of a heap 32-bit ones, as in the code.
\<close>

unbundle bit_operations_syntax

section \<open>State\<close>

record rt_memheap_item =
  magic :: u32
  pool_ptr :: u64
  item_next :: u64
  item_prev :: u64
  next_free :: u64
  prev_free :: u64
  owner_thread_name :: "u8 list"

record rt_memheap =
  start_addr :: u64
  pool_size :: u32
  available_size :: u32
  max_used_size :: u32
  block_list :: u64
  free_list :: u64

text \<open>
  \<open>items\<close> holds the header at each address and \<open>bytes\<close> the payload bytes; the header of the free list is the
  member \<open>free_header\<close> of the heap's struct, so its address is that of the heap plus the member's offset.
  \<open>memheap_list\<close> is the container of the memory heap class, and \<open>thread_name\<close> the bytes from a thread's
  name on. \<open>system_heap\<close> is the address of the static \<open>_heap\<close>.
\<close>

record mem_sys =
  kernel :: ipc_sys
  items :: "u64 \<Rightarrow> rt_memheap_item"
  memheaps :: "u64 \<Rightarrow> rt_memheap"
  memheap_list :: "u64 list"
  system_heap :: u64
  bytes :: "u64 \<Rightarrow> u8"
  thread_name :: "tid \<Rightarrow> nat \<Rightarrow> u8"
  rt_errno :: int

abbreviation RT_MEMHEAP_MAGIC :: u32 where "RT_MEMHEAP_MAGIC \<equiv> 0x1ea01ea0"
abbreviation RT_MEMHEAP_MASK :: u32 where "RT_MEMHEAP_MASK \<equiv> 0xfffffffe"
abbreviation MEM_USED :: u32 where "MEM_USED \<equiv> 0x1ea01ea1"
abbreviation RT_MEMHEAP_SIZE :: u64 where "RT_MEMHEAP_SIZE \<equiv> 56"
abbreviation RT_MEMHEAP_MINIALLOC :: u64 where "RT_MEMHEAP_MINIALLOC \<equiv> 12"

definition free_header :: "u64 \<Rightarrow> u64" where
  "free_header h = h + 72"

definition heap_lock :: "u64 \<Rightarrow> nat" where
  "heap_lock h = unat h"

definition upd_item :: "u64 \<Rightarrow> (rt_memheap_item \<Rightarrow> rt_memheap_item) \<Rightarrow> mem_sys \<Rightarrow> mem_sys" where
  "upd_item a f s = s\<lparr>items := (items s)(a := f (items s a))\<rparr>"

definition upd_heap :: "u64 \<Rightarrow> (rt_memheap \<Rightarrow> rt_memheap) \<Rightarrow> mem_sys \<Rightarrow> mem_sys" where
  "upd_heap h f s = s\<lparr>memheaps := (memheaps s)(h := f (memheaps s h))\<rparr>"

definition set_block_next :: "u64 \<Rightarrow> u64 \<Rightarrow> mem_sys \<Rightarrow> mem_sys" where
  "set_block_next a x = upd_item a (\<lambda>i. i\<lparr>item_next := x\<rparr>)"

definition set_block_prev :: "u64 \<Rightarrow> u64 \<Rightarrow> mem_sys \<Rightarrow> mem_sys" where
  "set_block_prev a x = upd_item a (\<lambda>i. i\<lparr>item_prev := x\<rparr>)"

definition set_free_next :: "u64 \<Rightarrow> u64 \<Rightarrow> mem_sys \<Rightarrow> mem_sys" where
  "set_free_next a x = upd_item a (\<lambda>i. i\<lparr>next_free := x\<rparr>)"

definition set_free_prev :: "u64 \<Rightarrow> u64 \<Rightarrow> mem_sys \<Rightarrow> mem_sys" where
  "set_free_prev a x = upd_item a (\<lambda>i. i\<lparr>prev_free := x\<rparr>)"

definition MEMITEM_SIZE :: "u64 \<Rightarrow> mem_sys \<Rightarrow> u64" where
  "MEMITEM_SIZE a s = item_next (items s a) - a - RT_MEMHEAP_SIZE"

definition RT_MEMHEAP_IS_USED :: "u64 \<Rightarrow> mem_sys \<Rightarrow> bool" where
  "RT_MEMHEAP_IS_USED a s \<longleftrightarrow> magic (items s a) AND 1 \<noteq> 0"

text \<open>\<open>RT_ALIGN\<close> and \<open>RT_ALIGN_DOWN\<close> with \<open>RT_ALIGN_SIZE\<close> 4, on \<open>rt_size_t\<close>.\<close>

definition RT_ALIGN4 :: "u64 \<Rightarrow> u64" where
  "RT_ALIGN4 n = (n + 4 - 1) AND NOT 3"

definition RT_ALIGN_DOWN4 :: "u64 \<Rightarrow> u64" where
  "RT_ALIGN_DOWN4 n = n AND NOT 3"

definition request_size :: "u64 \<Rightarrow> u64" where
  "request_size n = (if RT_ALIGN4 n < RT_MEMHEAP_MINIALLOC then RT_MEMHEAP_MINIALLOC else RT_ALIGN4 n)"

section \<open>Calls that may wait for the lock\<close>

text \<open>
  A call ends (\<open>Done\<close>), fails an assertion (\<open>Fail\<close>), or waits for a heap's lock: then the rest of the
  function is a continuation of the code the wait returned and of the state the caller finds when it runs
  again.
\<close>

datatype 'r run = Fail | Done 'r mem_sys | Wait mem_sys "int \<Rightarrow> mem_sys \<Rightarrow> 'r run"

primrec bind_run :: "'a run \<Rightarrow> ('a \<Rightarrow> mem_sys \<Rightarrow> 'b run) \<Rightarrow> 'b run" where
  "bind_run Fail f = Fail"
| "bind_run (Done r s) f = f r s"
| "bind_run (Wait s k) f = Wait s (\<lambda>e s'. bind_run (k e s') f)"

definition rt_set_errno :: "int \<Rightarrow> mem_sys \<Rightarrow> mem_sys" where
  "rt_set_errno e s =
     (if interrupt_nest (kernel s) \<noteq> 0 then s\<lparr>rt_errno := e\<rparr>
      else case current_thread (kernel s) of
             None \<Rightarrow> s\<lparr>rt_errno := e\<rparr>
           | Some t \<Rightarrow> s\<lparr>kernel := upd_tcb t (\<lambda>th. th\<lparr>error := e\<rparr>) (kernel s)\<rparr>)"

definition take_lock :: "u64 \<Rightarrow> mem_sys \<Rightarrow> int run" where
  "take_lock h s =
     (case rt_sem_take (heap_lock h) (-1) (kernel s) of
        None \<Rightarrow> Fail
      | Some (Some e, k) \<Rightarrow> Done e (s\<lparr>kernel := k\<rparr>)
      | Some (None, k) \<Rightarrow> Wait (s\<lparr>kernel := k\<rparr>) Done)"

definition release_lock :: "u64 \<Rightarrow> 'r \<Rightarrow> mem_sys \<Rightarrow> 'r run" where
  "release_lock h r s =
     (case rt_sem_release (heap_lock h) (kernel s) of
        None \<Rightarrow> Fail
      | Some (_, k) \<Rightarrow> Done r (s\<lparr>kernel := k\<rparr>))"

section \<open>Lists of blocks\<close>

text \<open>The pointer assignments the operations share, in the order of the code.\<close>

definition free_insert :: "u64 \<Rightarrow> u64 \<Rightarrow> mem_sys \<Rightarrow> mem_sys" where
  "free_insert h a s =
     (let fl = free_list (memheaps s h);
          s1 = set_free_next a (next_free (items s fl)) s;
          s2 = set_free_prev a fl s1;
          s3 = set_free_prev (next_free (items s2 fl)) a s2
      in set_free_next fl a s3)"

definition free_unlink :: "u64 \<Rightarrow> mem_sys \<Rightarrow> mem_sys" where
  "free_unlink a s =
     (let s1 = set_free_prev (next_free (items s a)) (prev_free (items s a)) s
      in set_free_next (prev_free (items s1 a)) (next_free (items s1 a)) s1)"

text \<open>A new free block right after \<open>a\<close>: its header is written and linked in the block list.\<close>

definition new_block :: "u64 \<Rightarrow> u64 \<Rightarrow> u64 \<Rightarrow> mem_sys \<Rightarrow> mem_sys" where
  "new_block h a b s =
     (let s1 = upd_item b (\<lambda>i. i\<lparr>magic := RT_MEMHEAP_MAGIC, pool_ptr := h, owner_thread_name := [32, 32, 32, 32]\<rparr>) s;
          s2 = set_block_prev b a s1;
          s3 = set_block_next b (item_next (items s2 a)) s2;
          s4 = set_block_prev (item_next (items s3 a)) b s3
      in set_block_next a b s4)"

text \<open>The high-water mark: \<open>max_used_size\<close> never drops below what is in use.\<close>

definition note_used :: "u64 \<Rightarrow> mem_sys \<Rightarrow> mem_sys" where
  "note_used h s =
     (let H = memheaps s h
      in if pool_size H - available_size H > max_used_size H
         then upd_heap h (\<lambda>H. H\<lparr>max_used_size := pool_size H - available_size H\<rparr>) s else s)"

section \<open>Initialisation\<close>

definition rt_memheap_init :: "u64 \<Rightarrow> u64 \<Rightarrow> u64 \<Rightarrow> mem_sys \<Rightarrow> mem_sys option" where
  "rt_memheap_init h start sz s =
     (if h = 0 then None
      else let s0 = s\<lparr>memheap_list := h # memheap_list s\<rparr>;
               pool = ucast (RT_ALIGN_DOWN4 sz) :: u32;
               available = ucast (ucast pool - 2 * RT_MEMHEAP_SIZE) :: u32;
               fh = free_header h;
               s1 = upd_heap h (\<lambda>H. H\<lparr>start_addr := start, pool_size := pool, available_size := available,
                                       max_used_size := pool - available\<rparr>) s0;
               s2 = upd_item fh (\<lambda>i. i\<lparr>magic := RT_MEMHEAP_MAGIC, pool_ptr := h, item_next := 0, item_prev := 0,
                                       next_free := fh, prev_free := fh\<rparr>) s1;
               s3 = upd_heap h (\<lambda>H. H\<lparr>free_list := fh\<rparr>) s2;
               s4 = upd_item start (\<lambda>i. i\<lparr>magic := RT_MEMHEAP_MAGIC, pool_ptr := h, item_next := 0, item_prev := 0,
                                       next_free := start, prev_free := start,
                                       owner_thread_name := [32, 32, 32, 32]\<rparr>) s3;
               s5 = set_block_next start (start + ucast available + RT_MEMHEAP_SIZE) s4;
               s6 = set_block_prev start (item_next (items s5 start)) s5;
               s7 = upd_heap h (\<lambda>H. H\<lparr>block_list := start\<rparr>) s6;
               s8 = free_insert h start s7;
               tail = item_next (items s8 start);
               s9 = upd_item tail (\<lambda>i. i\<lparr>magic := MEM_USED, pool_ptr := h, item_next := start, item_prev := start,
                                       next_free := 0, prev_free := 0\<rparr>) s8
           in map_option (\<lambda>k. s9\<lparr>kernel := k\<rparr>) (rt_sem_init (heap_lock h) 1 RT_IPC_FLAG_FIFO (kernel s9)))"

text \<open>
  The assertions on the class of the heap object hold for the members of the class's container;
  \<open>rt_object_detach\<close> takes the heap out of it.
\<close>

definition is_memheap :: "u64 \<Rightarrow> mem_sys \<Rightarrow> bool" where
  "is_memheap h s \<longleftrightarrow> h \<noteq> 0 \<and> h \<in> set (memheap_list s)"

definition rt_memheap_detach :: "u64 \<Rightarrow> mem_sys \<Rightarrow> mem_sys option" where
  "rt_memheap_detach h s =
     (if is_memheap h s
      then map_option (\<lambda>k. s\<lparr>kernel := k, memheap_list := removeAll h (memheap_list s)\<rparr>)
             (rt_sem_detach (heap_lock h) (kernel s))
      else None)"

section \<open>Allocation\<close>

text \<open>First fit along the free list; \<open>free_size\<close> is a 32-bit local.\<close>

partial_function (option) memheap_find :: "u64 \<Rightarrow> u64 \<Rightarrow> u64 \<Rightarrow> u32 \<Rightarrow> mem_sys \<Rightarrow> (u64 \<times> u32) option" where
  "memheap_find h sz header free_size s =
     (if header \<noteq> free_list (memheaps s h) \<and> ucast free_size < sz
      then let fs = ucast (MEMITEM_SIZE header s) :: u32
           in memheap_find h sz (if (ucast fs :: u64) < sz then next_free (items s header) else header) fs s
      else Some (header, free_size))"

text \<open>The block found is split when a header and a minimal payload fit behind the request.\<close>

definition alloc_split :: "u64 \<Rightarrow> u64 \<Rightarrow> u64 \<Rightarrow> mem_sys \<Rightarrow> mem_sys" where
  "alloc_split h a sz s =
     (let b = a + sz + RT_MEMHEAP_SIZE;
          s1 = free_unlink a (new_block h a b s);
          s2 = set_free_prev a 0 (set_free_next a 0 s1);
          s3 = free_insert h b s2
      in note_used h (upd_heap h (\<lambda>H. H\<lparr>available_size :=
           ucast (ucast (available_size H) - sz - RT_MEMHEAP_SIZE)\<rparr>) s3))"

definition alloc_whole :: "u64 \<Rightarrow> u64 \<Rightarrow> u32 \<Rightarrow> mem_sys \<Rightarrow> mem_sys" where
  "alloc_whole h a free_size s =
     (let s1 = note_used h (upd_heap h (\<lambda>H. H\<lparr>available_size := available_size H - free_size\<rparr>) s);
          s2 = free_unlink a s1
      in set_free_prev a 0 (set_free_next a 0 s2))"

definition owner_tag :: "mem_sys \<Rightarrow> u8 list" where
  "owner_tag s = (case current_thread (kernel s) of
                    Some t \<Rightarrow> map (thread_name s t) [0..<4]
                  | None \<Rightarrow> [78, 79, 78, 69])"

definition alloc_block :: "u64 \<Rightarrow> u64 \<Rightarrow> mem_sys \<Rightarrow> (u64 \<times> mem_sys) option" where
  "alloc_block h sz s =
     do { (a, free_size) \<leftarrow> memheap_find h sz (next_free (items s (free_list (memheaps s h)))) 0 s;
          Some (if (ucast free_size :: u64) \<ge> sz
                then let s1 = (if (ucast free_size :: u64) \<ge> sz + RT_MEMHEAP_SIZE + RT_MEMHEAP_MINIALLOC
                               then alloc_split h a sz s else alloc_whole h a free_size s);
                         s2 = upd_item a (\<lambda>i. i\<lparr>magic := MEM_USED, owner_thread_name := owner_tag s1\<rparr>) s1
                     in (a + RT_MEMHEAP_SIZE, s2)
                else (0, s)) }"

definition rt_memheap_alloc :: "u64 \<Rightarrow> u64 \<Rightarrow> mem_sys \<Rightarrow> u64 run" where
  "rt_memheap_alloc h n s =
     (if \<not> is_memheap h s then Fail
      else let sz = request_size n
           in if sz < ucast (available_size (memheaps s h))
              then bind_run (take_lock h s) (\<lambda>e s1.
                     if e \<noteq> 0 then Done 0 (rt_set_errno e s1)
                     else case alloc_block h sz s1 of None \<Rightarrow> Fail | Some (p, s2) \<Rightarrow> release_lock h p s2)
              else Done 0 s)"

section \<open>Release\<close>

text \<open>Merging with the previous and with the next block; the first answers the block now in hand.\<close>

definition merge_left :: "u64 \<Rightarrow> u64 \<Rightarrow> mem_sys \<Rightarrow> u64 \<times> mem_sys" where
  "merge_left h a s =
     (let s1 = upd_heap h (\<lambda>H. H\<lparr>available_size := ucast (ucast (available_size H) + RT_MEMHEAP_SIZE)\<rparr>) s;
          s2 = set_block_next (item_prev (items s1 a)) (item_next (items s1 a)) s1;
          s3 = set_block_prev (item_next (items s2 a)) (item_prev (items s2 a)) s2
      in (item_prev (items s3 a), s3))"

definition merge_right :: "u64 \<Rightarrow> u64 \<Rightarrow> mem_sys \<Rightarrow> mem_sys" where
  "merge_right h a s =
     (let s1 = upd_heap h (\<lambda>H. H\<lparr>available_size := ucast (ucast (available_size H) + RT_MEMHEAP_SIZE)\<rparr>) s;
          b = item_next (items s1 a);
          s2 = set_block_prev (item_next (items s1 b)) a s1;
          s3 = set_block_next a (item_next (items s2 b)) s2
      in free_unlink b s3)"

definition free_block :: "u64 \<Rightarrow> u64 \<Rightarrow> mem_sys \<Rightarrow> mem_sys" where
  "free_block h a s =
     (let s1 = upd_item a (\<lambda>i. i\<lparr>magic := RT_MEMHEAP_MAGIC\<rparr>) s;
          s2 = upd_heap h (\<lambda>H. H\<lparr>available_size := ucast (ucast (available_size H) + MEMITEM_SIZE a s1)\<rparr>) s1;
          left = \<not> RT_MEMHEAP_IS_USED (item_prev (items s2 a)) s2;
          (b, s3) = (if left then merge_left h a s2 else (a, s2));
          s4 = (if \<not> RT_MEMHEAP_IS_USED (item_next (items s3 b)) s3 then merge_right h b s3 else s3);
          s5 = (if \<not> left then free_insert h b s4 else s4)
      in upd_item b (\<lambda>i. i\<lparr>owner_thread_name := [32, 32, 32, 32]\<rparr>) s5)"

definition rt_memheap_free :: "u64 \<Rightarrow> mem_sys \<Rightarrow> unit run" where
  "rt_memheap_free ptr s =
     (if ptr = 0 then Done () s
      else let a = ptr - RT_MEMHEAP_SIZE
           in if magic (items s a) = MEM_USED \<and>
                 magic (items s (item_next (items s a))) AND RT_MEMHEAP_MASK = RT_MEMHEAP_MAGIC \<and>
                 is_memheap (pool_ptr (items s a)) s
              then let h = pool_ptr (items s a)
                   in bind_run (take_lock h s) (\<lambda>e s1.
                        if e \<noteq> 0 then Done () (rt_set_errno e s1) else release_lock h () (free_block h a s1))
              else Fail)"

section \<open>Reallocation\<close>

definition copy_bytes :: "u64 \<Rightarrow> u64 \<Rightarrow> u64 \<Rightarrow> mem_sys \<Rightarrow> mem_sys" where
  "copy_bytes d p n s = s\<lparr>bytes := (\<lambda>x. if x - d < n then bytes s (p + (x - d)) else bytes s x)\<rparr>"

definition fill_bytes :: "u64 \<Rightarrow> u8 \<Rightarrow> u64 \<Rightarrow> mem_sys \<Rightarrow> mem_sys" where
  "fill_bytes d c n s = s\<lparr>bytes := (\<lambda>x. if x - d < n then c else bytes s x)\<rparr>"

definition block_unlink :: "u64 \<Rightarrow> mem_sys \<Rightarrow> mem_sys" where
  "block_unlink a s =
     (let s1 = set_block_prev (item_next (items s a)) (item_prev (items s a)) s
      in set_block_next (item_prev (items s1 a)) (item_next (items s1 a)) s1)"

text \<open>
  Growing in place: the free block behind moves up. The old header of that block may lie under the new one,
  and is not read again once the new one is written.
\<close>

definition expand_block :: "u64 \<Rightarrow> u64 \<Rightarrow> u64 \<Rightarrow> u64 \<Rightarrow> mem_sys \<Rightarrow> mem_sys" where
  "expand_block h a oldsize newsize s =
     (let b = item_next (items s a);
          s1 = note_used h (upd_heap h (\<lambda>H. H\<lparr>available_size :=
                 ucast (ucast (available_size H) - (newsize - oldsize))\<rparr>) s);
          s2 = block_unlink b (free_unlink b s1);
          c = a + RT_MEMHEAP_SIZE + newsize
      in free_insert h c (new_block h a c s2))"

definition can_expand :: "u64 \<Rightarrow> u64 \<Rightarrow> u64 \<Rightarrow> mem_sys \<Rightarrow> bool" where
  "can_expand a oldsize newsize s \<longleftrightarrow>
     (let b = item_next (items s a)
      in \<not> RT_MEMHEAP_IS_USED b s \<and>
         scast (ucast (MEMITEM_SIZE b s) :: 32 word) + oldsize > newsize + RT_MEMHEAP_MINIALLOC)"

text \<open>Shrinking in place: the rest becomes a free block, merged with a free block behind it.\<close>

definition shrink_block :: "u64 \<Rightarrow> u64 \<Rightarrow> u64 \<Rightarrow> mem_sys \<Rightarrow> mem_sys" where
  "shrink_block h a newsize s =
     (let b = a + newsize + RT_MEMHEAP_SIZE;
          s1 = new_block h a b s;
          s2 = (if \<not> RT_MEMHEAP_IS_USED (item_next (items s1 b)) s1
                then let f = item_next (items s1 b);
                         t1 = upd_heap h (\<lambda>H. H\<lparr>available_size :=
                                ucast (ucast (available_size H) - MEMITEM_SIZE f s1)\<rparr>) s1;
                         t2 = set_block_prev (item_next (items t1 f)) b t1;
                         t3 = set_block_next b (item_next (items t2 f)) t2
                     in free_unlink f t3
                else s1);
          s3 = free_insert h b s2
      in upd_heap h (\<lambda>H. H\<lparr>available_size := ucast (ucast (available_size H) + MEMITEM_SIZE b s3)\<rparr>) s3)"

text \<open>Moving: the data go to a new block, then the old one is freed.\<close>

definition realloc_move :: "u64 \<Rightarrow> u64 \<Rightarrow> u64 \<Rightarrow> u64 \<Rightarrow> mem_sys \<Rightarrow> u64 run" where
  "realloc_move h ptr oldsize newsize s =
     bind_run (rt_memheap_alloc h newsize s) (\<lambda>p s1.
       if p \<noteq> 0
       then bind_run (rt_memheap_free ptr (copy_bytes p ptr (if oldsize < newsize then oldsize else newsize) s1))
              (\<lambda>_ s2. Done p s2)
       else Done p s1)"

definition rt_memheap_realloc :: "u64 \<Rightarrow> u64 \<Rightarrow> u64 \<Rightarrow> mem_sys \<Rightarrow> u64 run" where
  "rt_memheap_realloc h ptr n s =
     (if \<not> is_memheap h s then Fail
      else if n = 0 then bind_run (rt_memheap_free ptr s) (\<lambda>_ s1. Done 0 s1)
      else let newsize = request_size n
           in if ptr = 0 then rt_memheap_alloc h newsize s
              else let a = ptr - RT_MEMHEAP_SIZE;
                       oldsize = MEMITEM_SIZE a s
                   in if newsize > oldsize
                      then bind_run (take_lock h s) (\<lambda>e s1.
                             if e \<noteq> 0 then Done 0 (rt_set_errno e s1)
                             else if \<not> item_next (items s1 a) > a then Fail
                             else if can_expand a oldsize newsize s1
                             then release_lock h ptr (expand_block h a oldsize newsize s1)
                             else bind_run (release_lock h () s1) (\<lambda>_ s2. realloc_move h ptr oldsize newsize s2))
                      else if newsize + RT_MEMHEAP_SIZE + RT_MEMHEAP_MINIALLOC \<ge> oldsize then Done ptr s
                      else bind_run (take_lock h s) (\<lambda>e s1.
                             if e \<noteq> 0 then Done 0 (rt_set_errno e s1)
                             else release_lock h ptr (shrink_block h a newsize s1)))"

section \<open>The system heap\<close>

text \<open>
  \<open>rt_memheap_setname\<close> writes up to 16 bytes of a name over the free-list links of a used block; byte 8 is
  the first byte of the second link.
\<close>

definition set_byte :: "nat \<Rightarrow> u8 \<Rightarrow> u64 \<Rightarrow> u64" where
  "set_byte i b w = (w AND NOT (push_bit (8 * i) 0xff)) OR push_bit (8 * i) (ucast b)"

fun name_scan :: "(nat \<Rightarrow> u8) \<Rightarrow> nat \<Rightarrow> nat \<Rightarrow> nat \<Rightarrow> u64 \<Rightarrow> nat \<times> u64" where
  "name_scan nm off 0 index w = (index, w)"
| "name_scan nm off (Suc k) index w =
     (if nm (off + index) = 0 then (index, w) else name_scan nm off k (index + 1) (set_byte index (nm (off + index)) w))"

abbreviation RT_NAME_MAX :: nat where "RT_NAME_MAX \<equiv> 8"

definition rt_memheap_setname :: "(nat \<Rightarrow> u8) \<Rightarrow> u64 \<Rightarrow> mem_sys \<Rightarrow> mem_sys" where
  "rt_memheap_setname nm a s =
     (let (index, w) = name_scan nm 0 8 0 (next_free (items s a));
          s1 = set_free_next a w s
      in if nm index = 0
         then if index < 8 then set_free_next a (set_byte index 0 w) s1
              else set_free_prev a (set_byte 0 0 (prev_free (items s1 a))) s1
         else let (j, v) = name_scan nm 8 (RT_NAME_MAX - 8) 0 (prev_free (items s1 a))
              in set_free_prev a (if nm (8 + j) = 0 then set_byte j 0 v else v) s1)"

definition rt_mem_set_tag :: "u64 \<Rightarrow> (nat \<Rightarrow> u8) option \<Rightarrow> mem_sys \<Rightarrow> mem_sys" where
  "rt_mem_set_tag ptr name s =
     (case name of Some nm \<Rightarrow> if ptr \<noteq> 0 then rt_memheap_setname nm (ptr - RT_MEMHEAP_SIZE) s else s | None \<Rightarrow> s)"

text \<open>The tag of the calling thread, or \<open><null>\<close> before the scheduler runs.\<close>

definition tag_owner :: "u64 \<Rightarrow> mem_sys \<Rightarrow> mem_sys" where
  "tag_owner ptr s =
     rt_memheap_setname
       (case current_thread (kernel s) of
          Some t \<Rightarrow> thread_name s t
        | None \<Rightarrow> (\<lambda>i. if i < 6 then [60, 110, 117, 108, 108, 62] ! i else 0)) (ptr - RT_MEMHEAP_SIZE) s"

definition rt_system_heap_init :: "u64 \<Rightarrow> u64 \<Rightarrow> mem_sys \<Rightarrow> mem_sys option" where
  "rt_system_heap_init begin_addr end_addr s =
     rt_memheap_init (system_heap s) begin_addr (ucast (ucast end_addr - ucast begin_addr :: u32)) s"

text \<open>The other heaps in the order of the container, which does not change during the call.\<close>

fun malloc_others :: "u64 list \<Rightarrow> u64 \<Rightarrow> mem_sys \<Rightarrow> u64 run" where
  "malloc_others [] n s = Done 0 s"
| "malloc_others (h # hs) n s =
     (if h = system_heap s then malloc_others hs n s
      else bind_run (rt_memheap_alloc h n s) (\<lambda>p s1. if p \<noteq> 0 then Done p s1 else malloc_others hs n s1))"

definition rt_malloc :: "u64 \<Rightarrow> mem_sys \<Rightarrow> u64 run" where
  "rt_malloc n s =
     bind_run (bind_run (rt_memheap_alloc (system_heap s) n s) (\<lambda>p s1.
                 if p = 0 then malloc_others (memheap_list s1) n s1 else Done p s1))
       (\<lambda>p s1. Done p (if p = 0 then s1 else tag_owner p s1))"

definition rt_free :: "u64 \<Rightarrow> mem_sys \<Rightarrow> unit run" where
  "rt_free rmem s = rt_memheap_free rmem s"

definition rt_realloc :: "u64 \<Rightarrow> u64 \<Rightarrow> mem_sys \<Rightarrow> u64 run" where
  "rt_realloc rmem newsize s =
     (if rmem = 0 then rt_malloc newsize s
      else if newsize = 0 then bind_run (rt_free rmem s) (\<lambda>_ s1. Done 0 s1)
      else let a = rmem - RT_MEMHEAP_SIZE
           in bind_run (bind_run (rt_memheap_realloc (pool_ptr (items s a)) rmem newsize s) (\<lambda>p s1.
                if p = 0
                then bind_run (rt_malloc newsize s1) (\<lambda>q s2.
                       if q \<noteq> 0
                       then let oldsize = MEMITEM_SIZE a s2;
                                s3 = copy_bytes q rmem (if newsize > oldsize then oldsize else newsize) s2
                            in bind_run (rt_free rmem s3) (\<lambda>_ s4. Done q s4)
                       else Done q s2)
                else Done p s1))
              (\<lambda>p s1. Done p (if p = 0 then s1 else tag_owner p s1)))"

definition rt_calloc :: "u64 \<Rightarrow> u64 \<Rightarrow> mem_sys \<Rightarrow> u64 run" where
  "rt_calloc cnt n s =
     bind_run (rt_malloc (cnt * n) s) (\<lambda>p s1. Done p (if p \<noteq> 0 then fill_bytes p 0 (cnt * n) s1 else s1))"

text \<open>\<open>rt_memory_info\<close>: total, used and the high-water mark of the system heap.\<close>

definition rt_memory_info :: "mem_sys \<Rightarrow> u32 \<times> u32 \<times> u32" where
  "rt_memory_info s =
     (let H = memheaps s (system_heap s) in (pool_size H, pool_size H - available_size H, max_used_size H))"

end
