(* ===== verification/RT_MemHeap_Layout.thy ===== *)
theory RT_MemHeap_Layout
  imports RT_MemHeap
begin

text \<open>
  How the headers of a heap lie in memory: a list of blocks, each a payload size and whether it is used,
  determines the address of every header; the two rings, the magic numbers and the pool pointers are as that
  list says. Each pointer manipulation of the operations is a step between such layouts.
\<close>

section \<open>Addresses\<close>

type_synonym block = "nat \<times> bool"

fun starts :: "u64 \<Rightarrow> block list \<Rightarrow> u64 list" where
  "starts a [] = []"
| "starts a (b # bs) = a # starts (a + 56 + of_nat (fst b)) bs"

fun after :: "u64 \<Rightarrow> block list \<Rightarrow> u64" where
  "after a [] = a"
| "after a (b # bs) = after (a + 56 + of_nat (fst b)) bs"

fun frees :: "u64 \<Rightarrow> block list \<Rightarrow> u64 list" where
  "frees a [] = []"
| "frees a (b # bs) = (if snd b then [] else [a]) @ frees (a + 56 + of_nat (fst b)) bs"

definition total :: "block list \<Rightarrow> nat" where
  "total bs = sum_list (map (\<lambda>b. 56 + fst b) bs)"

definition free_bytes :: "block list \<Rightarrow> nat" where
  "free_bytes bs = sum_list (map (\<lambda>b. if snd b then 0 else fst b) bs)"

definition headers :: "u64 \<Rightarrow> block list \<Rightarrow> u64 list" where
  "headers a bs = starts a bs @ [after a bs]"

lemma total_simps [simp]: "total [] = 0" "total (b # bs) = 56 + fst b + total bs" "total (xs @ ys) = total xs + total ys"
  by (simp_all add: total_def)

lemma free_bytes_simps [simp]:
  "free_bytes [] = 0" "free_bytes (b # bs) = (if snd b then 0 else fst b) + free_bytes bs"
  "free_bytes (xs @ ys) = free_bytes xs + free_bytes ys"
  by (simp_all add: free_bytes_def)

lemma free_le_total: "free_bytes bs \<le> total bs"
  by (induction bs) auto

lemma after_append [simp]: "after a (xs @ ys) = after (after a xs) ys"
  by (induction xs arbitrary: a) auto

lemma starts_append [simp]: "starts a (xs @ ys) = starts a xs @ starts (after a xs) ys"
  by (induction xs arbitrary: a) auto

lemma frees_append [simp]: "frees a (xs @ ys) = frees a xs @ frees (after a xs) ys"
  by (induction xs arbitrary: a) auto

lemma frees_starts: "set (frees a bs) \<subseteq> set (starts a bs)"
  by (induction bs arbitrary: a) auto

lemma length_starts [simp]: "length (starts a bs) = length bs"
  by (induction bs arbitrary: a) auto

lemma headers_split: "headers a (xs @ ys) = starts a xs @ headers (after a xs) ys"
  by (simp add: headers_def)

lemma headers_Cons: "headers a (b # bs) = a # headers (a + 56 + of_nat (fst b)) bs"
  by (simp add: headers_def)

lemma hd_headers [simp]: "hd (headers a bs) = a" "headers a bs \<noteq> []"
  by (cases bs; simp add: headers_def)+

lemma tl_headers: "headers a bs = a # tl (headers a bs)"
  using hd_headers[of a bs] by (metis list.collapse)

lemma starts_split: "x \<in> set (starts a bs) \<Longrightarrow> \<exists>xs b ys. bs = xs @ b # ys \<and> x = after a xs"
proof (induction bs arbitrary: a)
  case (Cons b bs)
  show ?case
  proof (cases "x = a")
    case True
    then show ?thesis by (intro exI[of _ "[]"]) auto
  next
    case False
    then have "x \<in> set (starts (a + 56 + of_nat (fst b)) bs)" using Cons.prems by simp
    then obtain xs c ys where "bs = xs @ c # ys" "x = after (a + 56 + of_nat (fst b)) xs" using Cons.IH by blast
    then show ?thesis by (intro exI[of _ "b # xs"] exI[of _ c] exI[of _ ys]) simp
  qed
qed simp

lemma frees_split: "x \<in> set (frees a bs) \<Longrightarrow> \<exists>xs n ys. bs = xs @ (n, False) # ys \<and> x = after a xs"
proof (induction bs arbitrary: a)
  case (Cons b bs)
  show ?case
  proof (cases "x = a \<and> \<not> snd b")
    case True
    then show ?thesis by (intro exI[of _ "[]"] exI[of _ "fst b"] exI[of _ bs]) (auto simp: prod_eq_iff)
  next
    case False
    then have "x \<in> set (frees (a + 56 + of_nat (fst b)) bs)" using Cons.prems by (auto split: if_splits)
    then obtain xs n ys where "bs = xs @ (n, False) # ys" "x = after (a + 56 + of_nat (fst b)) xs" using Cons.IH by blast
    then show ?thesis by (intro exI[of _ "b # xs"] exI[of _ n] exI[of _ ys]) simp
  qed
qed simp

text \<open>While the blocks fit in the address space no address wraps.\<close>

lemma unat_add56: "unat (a::u64) + 56 + n < 2 ^ 64 \<Longrightarrow> unat (a + 56 + of_nat n) = unat a + 56 + n"
  by (simp add: unat_word_ariths unsigned_of_nat take_bit_nat_eq_self mod_add_left_eq)

lemma unat_after: "unat a + total bs < 2 ^ 64 \<Longrightarrow> unat (after a bs) = unat a + total bs"
proof (induction bs arbitrary: a)
  case (Cons b bs)
  have "unat (a + 56 + of_nat (fst b)) = unat a + 56 + fst b" by (rule unat_add56) (use Cons.prems in simp)
  then show ?case using Cons by simp
qed simp

lemma starts_range:
  "unat a + total bs < 2 ^ 64 \<Longrightarrow> x \<in> set (starts a bs) \<Longrightarrow> unat a \<le> unat x \<and> unat x < unat a + total bs"
proof (induction bs arbitrary: a)
  case (Cons b bs)
  have "unat (a + 56 + of_nat (fst b)) = unat a + 56 + fst b" by (rule unat_add56) (use Cons.prems in simp)
  then show ?case using Cons.prems Cons.IH[of "a + 56 + of_nat (fst b)"] by auto
qed simp

lemma headers_range:
  "unat a + total bs < 2 ^ 64 \<Longrightarrow> x \<in> set (headers a bs) \<Longrightarrow> unat a \<le> unat x \<and> unat x \<le> unat a + total bs"
  using starts_range[of a bs x] by (auto simp: headers_def unat_after)

lemma headers_distinct: "unat a + total bs < 2 ^ 64 \<Longrightarrow> distinct (headers a bs)"
proof (induction bs arbitrary: a)
  case (Cons b bs)
  have e: "unat (a + 56 + of_nat (fst b)) = unat a + 56 + fst b" by (rule unat_add56) (use Cons.prems in simp)
  have "a \<notin> set (headers (a + 56 + of_nat (fst b)) bs)"
    using headers_range[of "a + 56 + of_nat (fst b)" bs a] e Cons.prems by auto
  then show ?case using Cons e by (simp add: headers_Cons)
qed (simp add: headers_def)

lemma frees_distinct: "unat a + total bs < 2 ^ 64 \<Longrightarrow> distinct (frees a bs)"
proof (induction bs arbitrary: a)
  case (Cons b bs)
  have e: "unat (a + 56 + of_nat (fst b)) = unat a + 56 + fst b" by (rule unat_add56) (use Cons.prems in simp)
  have "a \<notin> set (frees (a + 56 + of_nat (fst b)) bs)"
    using starts_range[of "a + 56 + of_nat (fst b)" bs a] frees_starts[of "a + 56 + of_nat (fst b)" bs] e Cons.prems by auto
  then show ?case using Cons e by simp
qed simp

section \<open>Layouts\<close>

definition blk :: "mem_sys \<Rightarrow> u64 links" where
  "blk s = \<lparr>next_of = (\<lambda>a. item_next (items s a)), prev_of = (\<lambda>a. item_prev (items s a))\<rparr>"

definition fre :: "mem_sys \<Rightarrow> u64 links" where
  "fre s = \<lparr>next_of = (\<lambda>a. next_free (items s a)), prev_of = (\<lambda>a. prev_free (items s a))\<rparr>"

definition hdr :: "mem_sys \<Rightarrow> u64 \<Rightarrow> u32 \<times> u64" where
  "hdr s a = (magic (items s a), pool_ptr (items s a))"

definition mark :: "u64 \<Rightarrow> block \<Rightarrow> u32 \<times> u64" where
  "mark h b = (if snd b then MEM_USED else RT_MEMHEAP_MAGIC, h)"

text \<open>
  \<open>X\<close> holds the free blocks that are not in the free list at the moment; between operations it is empty.
\<close>

definition outside :: "u64 \<Rightarrow> u64 \<Rightarrow> block list \<Rightarrow> bool" where
  "outside x a bs \<longleftrightarrow> unat x < unat a \<or> unat a + total bs < unat x"

definition layout ::
  "u64 set \<Rightarrow> u64 \<Rightarrow> u64 \<Rightarrow> block list \<Rightarrow> u64 list \<Rightarrow> u64 links \<Rightarrow> u64 links \<Rightarrow> (u64 \<Rightarrow> u32 \<times> u64) \<Rightarrow> bool" where
  "layout X h a bs fs B F D \<longleftrightarrow>
     bs \<noteq> [] \<and> unat a + total bs + 56 < 2 ^ 64 \<and> outside (free_header h) a bs \<and>
     ring_of B a (tl (headers a bs)) \<and> ring_of F (free_header h) fs \<and>
     map D (starts a bs) = map (mark h) bs \<and> D (after a bs) = (MEM_USED, h) \<and>
     set fs = set (frees a bs) - X \<and> X \<subseteq> set (frees a bs)"

lemma layoutD:
  assumes "layout X h a bs fs B F D"
  shows "bs \<noteq> []" "unat a + total bs + 56 < 2 ^ 64" "outside (free_header h) a bs"
    "ring_of B a (tl (headers a bs))" "ring_of F (free_header h) fs" "map D (starts a bs) = map (mark h) bs"
    "D (after a bs) = (MEM_USED, h)" "set fs = set (frees a bs) - X" "X \<subseteq> set (frees a bs)"
    "distinct (headers a bs)" "distinct fs" "free_header h \<notin> set (headers a bs)"
proof -
  have r: "ring_of F (free_header h) fs" using assms unfolding layout_def by blast
  then show "ring_of F (free_header h) fs" "distinct fs" by (simp_all add: ring_of_def)
  show "distinct (headers a bs)" using assms headers_distinct[of a bs] unfolding layout_def by simp
  show "free_header h \<notin> set (headers a bs)"
    using assms headers_range[of a bs "free_header h"] unfolding layout_def outside_def by auto
qed (use assms in \<open>simp_all only: layout_def simp_thms\<close>)

text \<open>The neighbours of a block in the ring of blocks.\<close>

lemma seg_pair: "seg m p zs q \<Longrightarrow> p # zs = us @ x # y # vs \<Longrightarrow> next_of m x = y \<and> prev_of m y = x"
  by (cases us) (auto simp: seg_append)

lemma ring_start: "ring_of B a (tl (headers a bs)) \<longleftrightarrow> seg B a (tl (headers a bs)) a \<and> distinct (headers a bs)"
  using tl_headers[of a bs] by (metis ring_of_def)

lemma headers_at: "headers a (xs @ b # ys) = starts a xs @ after a xs # headers (after a xs + 56 + of_nat (fst b)) ys"
  by (simp add: headers_split headers_Cons)

lemma block_next:
  assumes "layout X h a (xs @ b # ys) fs B F D"
  shows "next_of B (after a xs) = after a xs + 56 + of_nat (fst b)" "prev_of B (after a xs + 56 + of_nat (fst b)) = after a xs"
proof -
  let ?y = "after a xs + 56 + of_nat (fst b)"
  note r = layoutD(4)[OF assms]
  have "headers a (xs @ b # ys) = starts a xs @ after a xs # ?y # tl (headers ?y ys)"
    unfolding headers_at using tl_headers[of ?y ys] by simp
  then have "\<exists>us vs. a # tl (headers a (xs @ b # ys)) = us @ after a xs # ?y # vs"
    using tl_headers[of a "xs @ b # ys"] by metis
  then obtain us vs where e: "a # tl (headers a (xs @ b # ys)) = us @ after a xs # ?y # vs" by blast
  have s: "seg B a (tl (headers a (xs @ b # ys))) a" using r by (simp add: ring_of_def)
  show "next_of B (after a xs) = ?y" "prev_of B ?y = after a xs" using seg_pair[OF s e] by simp_all
qed

lemma block_prev_first:
  assumes "layout X h a bs fs B F D"
  shows "prev_of B a = after a bs" "next_of B (after a bs) = a"
proof -
  have s: "seg B a (tl (headers a bs)) a" using layoutD(4)[OF assms] by (simp add: ring_of_def)
  obtain ts where "tl (headers a bs) = ts @ [after a bs]"
    using layoutD(1)[OF assms] by (cases bs) (auto simp: headers_def)
  then show "prev_of B a = after a bs" "next_of B (after a bs) = a" using s by (simp_all add: seg_append)
qed

text \<open>What the magic number of a block says.\<close>

lemma block_mark:
  assumes "layout X h a (xs @ b # ys) fs B F D"
  shows "D (after a xs) = mark h b"
  using layoutD(6)[OF assms] by simp

text \<open>Where a block lies.\<close>

lemma block_addr:
  assumes "layout X h a (xs @ b # ys) fs B F D"
  shows "unat (after a xs) = unat a + total xs"
    "unat (after a xs + 56 + of_nat (fst b)) = unat a + total xs + 56 + fst b"
proof -
  show 1: "unat (after a xs) = unat a + total xs" by (rule unat_after) (use layoutD(2)[OF assms] in simp)
  show "unat (after a xs + 56 + of_nat (fst b)) = unat a + total xs + 56 + fst b"
    using unat_add56[of "after a xs" "fst b"] layoutD(2)[OF assms] 1 by simp
qed

section \<open>Skipping a node\<close>

text \<open>Unlinking as this code does it: the neighbours pass the node by, which keeps its own links.\<close>

definition skip :: "'a \<Rightarrow> 'a links \<Rightarrow> 'a links" where
  "skip n m = set_next (prev_of m n) (next_of m n) (set_prev (next_of m n) (prev_of m n) m)"

lemma remove_skip: "n \<noteq> next_of m n \<Longrightarrow> n \<noteq> prev_of m n \<Longrightarrow> rt_list_remove n m = set_next n n (set_prev n n (skip n m))"
  by (cases m) (auto simp: rt_list_remove_def skip_def Let_def set_next_def set_prev_def fun_upd_twist)

lemma skip_ring:
  assumes r: "ring_of m h (xs @ n # ys)"
  shows "ring_of (skip n m) h (xs @ ys)"
proof -
  have s: "seg m h xs n" "seg m n ys h" and d: "distinct (h # xs @ n # ys)" using r by (simp_all add: ring_of_def seg_append)
  have "n \<noteq> next_of m n" using seg_ends[OF s(2)] d by (auto simp: hd_append)
  moreover have "n \<noteq> prev_of m n" using seg_ends[OF s(1)] d by auto
  ultimately have "rt_list_remove n m = set_next n n (set_prev n n (skip n m))" by (rule remove_skip)
  then have "ring_of (set_next n n (set_prev n n (skip n m))) h (xs @ ys)" using remove_ring(1)[OF r] by simp
  then show ?thesis by (rule ring_frame) (use d in auto)
qed

lemma skip_after:
  assumes r: "ring_of m h (xs @ [p, n] @ ys)"
  shows "prev_of m n = p"
  using r by (auto simp: ring_of_def seg_append)

section \<open>Steps between layouts\<close>

lemma layout_frame:
  assumes "layout X h a bs fs B F D"
    "\<And>x. x \<in> set (headers a bs) \<Longrightarrow> next_of B' x = next_of B x \<and> prev_of B' x = prev_of B x \<and> D' x = D x"
    "\<And>x. x \<in> set (free_header h # fs) \<Longrightarrow> next_of F' x = next_of F x \<and> prev_of F' x = prev_of F x"
  shows "layout X h a bs fs B' F' D'"
proof -
  have "set (a # tl (headers a bs)) = set (headers a bs)" using tl_headers[of a bs] by metis
  then have "ring_of B' a (tl (headers a bs))" using ring_frame[OF layoutD(4)[OF assms(1)], of B'] assms(2) by auto
  moreover have "ring_of F' (free_header h) fs" using ring_frame[OF layoutD(5)[OF assms(1)], of F'] assms(3) by auto
  moreover have "map D' (starts a bs) = map D (starts a bs)" "D' (after a bs) = D (after a bs)"
    using assms(2) by (auto simp: headers_def)
  ultimately show ?thesis using assms(1) unfolding layout_def by simp
qed

lemma layout_free_insert:
  assumes l: "layout X h a bs fs B F D" and x: "x \<in> X"
  shows "layout (X - {x}) h a bs (x # fs) B (rt_list_insert_after (free_header h) x F) D"
proof -
  note d = layoutD[OF l]
  have xf: "x \<in> set (frees a bs)" using d(9) x by blast
  then have "x \<in> set (headers a bs)" using frees_starts[of a bs] by (auto simp: headers_def)
  then have "x \<notin> set (free_header h # fs)" using d(12,8) x by auto
  then have "ring_of (rt_list_insert_after (free_header h) x F) (free_header h) (x # fs)" by (rule insert_after_ring[OF d(5)])
  then show ?thesis using l x xf unfolding layout_def by auto
qed

lemma layout_free_skip:
  assumes l: "layout X h a bs fs B F D" and x: "x \<in> set fs"
  shows "layout (insert x X) h a bs (remove1 x fs) B (skip x F) D"
proof -
  note d = layoutD[OF l]
  obtain us vs where fs: "fs = us @ x # vs" using x by (meson split_list)
  then have e: "remove1 x fs = us @ vs" using d(11) by (simp add: remove1_append)
  have "ring_of (skip x F) (free_header h) (us @ vs)" by (rule skip_ring) (use d(5) fs in simp)
  moreover have "set (us @ vs) = set (frees a bs) - insert x X" using d(8,11) fs by auto
  moreover have "x \<in> set (frees a bs)" using d(8) x by blast
  ultimately show ?thesis using l unfolding layout_def e by simp
qed

lemma at_start:
  assumes "layout X h a (xs @ b # ys) fs B F D"
  shows "after a xs \<notin> set (starts a xs)" "after a xs \<notin> set (headers (after a xs + 56 + of_nat (fst b)) ys)"
    "after a xs \<in> set (headers a (xs @ b # ys))" "after a xs + 56 + of_nat (fst b) \<in> set (headers a (xs @ b # ys))"
proof -
  show "after a xs \<notin> set (starts a xs)" "after a xs \<notin> set (headers (after a xs + 56 + of_nat (fst b)) ys)"
    using layoutD(10)[OF assms] by (auto simp: headers_at)
  show "after a xs \<in> set (headers a (xs @ b # ys))" by (simp add: headers_at)
  have "after a xs + 56 + of_nat (fst b) \<in> set (headers (after a xs + 56 + of_nat (fst b)) ys)"
    using hd_headers hd_in_set by metis
  then show "after a xs + 56 + of_nat (fst b) \<in> set (headers a (xs @ b # ys))" by (simp add: headers_at)
qed

lemma layout_mark:
  assumes l: "layout X h a (xs @ (n, u) # ys) fs B F D" and x: "x = after a xs" and u: "\<not> u \<longrightarrow> x \<in> X"
  shows "layout (if v then X - {x} else insert x X) h a (xs @ (n, v) # ys) fs B F (D(x := mark h (n, v)))"
proof -
  note d = layoutD[OF l]
  note at = at_start[OF l, folded x]
  have h: "headers a (xs @ (n, v) # ys) = headers a (xs @ (n, u) # ys)" by (simp add: headers_at)
  have t: "total (xs @ (n, v) # ys) = total (xs @ (n, u) # ys)" by simp
  have nf: "x \<notin> set (frees a xs)" "x \<notin> set (frees (x + 56 + of_nat n) ys)"
    using at(1,2) frees_starts[of a xs] frees_starts[of "x + 56 + of_nat n" ys] by (auto simp: headers_def)
  have ns: "x \<notin> set (starts (x + 56 + of_nat n) ys)" "x \<noteq> after (x + 56 + of_nat n) ys"
    using at(2) by (auto simp: headers_def)
  have f: "set (frees a (xs @ (n, v) # ys)) = (if v then set (frees a (xs @ (n, u) # ys)) - {x} else insert x (set (frees a (xs @ (n, u) # ys))))"
    using nf x by auto
  have X: "u \<longrightarrow> x \<notin> X" using d(9) nf x by auto
  have "map (D(x := mark h (n, v))) (starts a (xs @ (n, v) # ys)) = map (mark h) (xs @ (n, v) # ys)"
    using d(6) at(1) ns x by (simp add: mark_def)
  moreover have "(D(x := mark h (n, v))) (after a (xs @ (n, v) # ys)) = (MEM_USED, h)" using d(7) ns x by simp
  moreover have "set fs = set (frees a (xs @ (n, v) # ys)) - (if v then X - {x} else insert x X)"
    using d(8) f nf x u X by auto
  moreover have "(if v then X - {x} else insert x X) \<subseteq> set (frees a (xs @ (n, v) # ys))" using d(9) f by auto
  ultimately show ?thesis using d(2,3,4,5) unfolding layout_def outside_def h t by simp
qed

lemma tl_headers_at:
  "\<exists>us. tl (headers a (xs @ b # ys)) = us @ headers (after a xs + 56 + of_nat (fst b)) ys \<and>
    a # us = starts a xs @ [after a xs]"
  by (cases xs) (auto simp: headers_def)

lemma layout_new_block:
  assumes l: "layout X h a (xs @ (n, u) # ys) fs B F D" and n: "n = m + 56 + k"
    and x: "x = after a xs" and y: "y = x + 56 + of_nat m"
  shows "layout (insert y X) h a (xs @ (m, u) # (k, False) # ys) fs (rt_list_insert_after x y B) F (D(y := (RT_MEMHEAP_MAGIC, h)))"
    "y \<notin> X" "y \<notin> set (headers a (xs @ (n, u) # ys))"
proof -
  note d = layoutD[OF l]
  let ?z = "x + 56 + of_nat n"
  have z: "y + 56 + of_nat k = ?z" using n y by simp
  have xy: "unat x = unat a + total xs" "unat ?z = unat a + total xs + 56 + n" using block_addr[OF l] x by simp_all
  have uy: "unat y = unat x + 56 + m" unfolding y by (rule unat_add56) (use xy n d(2) in simp)
  have zs: "unat z \<ge> unat ?z" if "z \<in> set (headers ?z ys)" for z
    by (rule conjunct1[OF headers_range[OF _ that]]) (use xy(2) d(2) in simp)
  have xs: "unat z < unat x" if "z \<in> set (starts a xs)" for z
    using starts_range[OF _ that] xy(1) d(2) by simp
  have old: "headers a (xs @ (n, u) # ys) = starts a xs @ x # headers ?z ys" by (simp add: headers_at x)
  have new: "headers a (xs @ (m, u) # (k, False) # ys) = starts a xs @ x # y # headers ?z ys"
    by (simp only: headers_at headers_Cons fst_conv x[symmetric] y[symmetric] z)
  show y_new: "y \<notin> set (headers a (xs @ (n, u) # ys))" unfolding old using zs xs xy uy n by fastforce
  then have yX: "y \<notin> X" using d(9) frees_starts[of a "xs @ (n, u) # ys"] by (auto simp: headers_def)
  show "y \<notin> X" by (rule yX)
  obtain us where us: "tl (headers a (xs @ (n, u) # ys)) = us @ headers ?z ys" "a # us = starts a xs @ [x]"
    using tl_headers_at[of a xs "(n, u)" ys] x by auto
  have newtl: "tl (headers a (xs @ (m, u) # (k, False) # ys)) = us @ y # headers ?z ys"
    unfolding new using us(2) by (cases "starts a xs") auto
  have "rt_list_insert_after x y B = rt_list_insert_before ?z y B"
  proof -
    have "next_of B x = ?z" "prev_of B ?z = x" using block_next[OF l] x by simp_all
    moreover have "y \<noteq> x" "y \<noteq> ?z" using xy(2) uy n xy(1) by auto
    ultimately show ?thesis using insert_after_eq[of B x y] by simp
  qed
  moreover have "ring_of (rt_list_insert_before ?z y B) a (us @ y # ?z # tl (headers ?z ys))"
  proof (rule insert_before_member)
    have e: "us @ ?z # tl (headers ?z ys) = tl (headers a (xs @ (n, u) # ys))" using us(1) tl_headers[of ?z ys] by simp
    show "ring_of B a (us @ ?z # tl (headers ?z ys))" unfolding e by (rule d(4))
    have "set (a # us @ ?z # tl (headers ?z ys)) = set (headers a (xs @ (n, u) # ys))"
      unfolding e using tl_headers[of a "xs @ (n, u) # ys"] by metis
    then show "y \<notin> set (a # us @ ?z # tl (headers ?z ys))" using y_new by simp
  qed
  ultimately have ring: "ring_of (rt_list_insert_after x y B) a (tl (headers a (xs @ (m, u) # (k, False) # ys)))"
    unfolding newtl using tl_headers[of ?z ys] by simp
  have fr: "set (frees a (xs @ (m, u) # (k, False) # ys)) = insert y (set (frees a (xs @ (n, u) # ys)))"
    by (simp add: x[symmetric] y[symmetric] z del: of_nat_add)
  have fsn: "y \<notin> set fs" using d(8) y_new frees_starts[of a "xs @ (n, u) # ys"] by (auto simp: headers_def)
  have D1: "map (D(y := (RT_MEMHEAP_MAGIC, h))) (starts a (xs @ (m, u) # (k, False) # ys)) = map (mark h) (xs @ (m, u) # (k, False) # ys)"
    using d(6) y_new by (auto simp: headers_def mark_def x[symmetric] y[symmetric] z)
  have D2: "(D(y := (RT_MEMHEAP_MAGIC, h))) (after a (xs @ (m, u) # (k, False) # ys)) = (MEM_USED, h)"
    using d(7) y_new by (auto simp: headers_def x[symmetric] y[symmetric] z)
  show "layout (insert y X) h a (xs @ (m, u) # (k, False) # ys) fs (rt_list_insert_after x y B) F (D(y := (RT_MEMHEAP_MAGIC, h)))"
    unfolding layout_def
    using d(2,3,5) ring D1 D2 n fr fsn d(8,9) by (auto simp: outside_def)
qed

lemma layout_merge:
  assumes l: "layout X h a (xs @ (n, u) # (m, False) # ys) fs B F D"
    and x: "x = after a xs" and y: "y = x + 56 + of_nat n" and yX: "y \<in> X"
  shows "layout (X - {y}) h a (xs @ (n + 56 + m, u) # ys) fs (skip y B) F D"
proof -
  note d = layoutD[OF l]
  let ?z = "y + 56 + of_nat m"
  have z: "x + 56 + of_nat (n + 56 + m) = ?z" using y by simp
  have old: "headers a (xs @ (n, u) # (m, False) # ys) = starts a xs @ x # y # headers ?z ys"
    by (simp only: headers_at headers_Cons fst_conv x[symmetric] y[symmetric])
  have new: "headers a (xs @ (n + 56 + m, u) # ys) = starts a xs @ x # headers ?z ys"
    by (simp only: headers_at headers_Cons fst_conv x[symmetric] z)
  have oldtl: "a # tl (headers a (xs @ (n, u) # (m, False) # ys)) = starts a xs @ x # y # headers ?z ys"
    using tl_headers[of a] old by metis
  obtain us where us: "a # us = starts a xs @ [x]" using x by (cases xs) auto
  have tls: "tl (headers a (xs @ (n, u) # (m, False) # ys)) = us @ y # headers ?z ys"
    "tl (headers a (xs @ (n + 56 + m, u) # ys)) = us @ headers ?z ys"
    unfolding old new using us by (cases "starts a xs"; auto)+
  have "ring_of (skip y B) a (us @ headers ?z ys)" by (rule skip_ring) (use d(4) tls(1) in simp)
  then have ring: "ring_of (skip y B) a (tl (headers a (xs @ (n + 56 + m, u) # ys)))" by (simp add: tls(2))
  have dist: "y \<notin> set (frees a xs)" "y \<noteq> x" "y \<notin> set (frees ?z ys)"
    using d(10) frees_starts[of a xs] frees_starts[of ?z ys] unfolding old by (auto simp: headers_def)
  have fr: "set (frees a (xs @ (n, u) # (m, False) # ys)) = insert y (set (frees a (xs @ (n + 56 + m, u) # ys)))"
    by (simp add: x[symmetric] y[symmetric] z del: of_nat_add)
  have fy: "y \<notin> set (frees a (xs @ (n + 56 + m, u) # ys))"
    using dist by (simp add: x[symmetric] z del: of_nat_add)
  have D1: "map D (starts a (xs @ (n + 56 + m, u) # ys)) = map (mark h) (xs @ (n + 56 + m, u) # ys)"
    using d(6) by (simp add: mark_def x[symmetric] y[symmetric] z del: of_nat_add)
  have D2: "D (after a (xs @ (n + 56 + m, u) # ys)) = (MEM_USED, h)"
    using d(7) by (simp add: x[symmetric] y[symmetric] z del: of_nat_add)
  show ?thesis
    unfolding layout_def using d(2,3,5) ring D1 D2 fr fy d(8,9) yX by (auto simp: outside_def)
qed

end
