(* ===== verification/RT_MemHeap_Ops.thy ===== *)
theory RT_MemHeap_Ops
  imports RT_MemHeap_Layout
begin

text \<open>
  The critical sections of the memory heap against the layout of its blocks: what allocating, freeing,
  growing and shrinking do to the list of blocks, to the counters and to everything else.
\<close>

section \<open>What the assignments change\<close>

lemma blk_obs [simp]:
  "blk (set_block_next a x s) = set_next a x (blk s)" "blk (set_block_prev a x s) = set_prev a x (blk s)"
  "blk (set_free_next a x s) = blk s" "blk (set_free_prev a x s) = blk s" "blk (upd_heap h f s) = blk s"
  by (auto simp: blk_def set_block_next_def set_block_prev_def set_free_next_def set_free_prev_def upd_item_def
      upd_heap_def set_next_def set_prev_def fun_eq_iff)

lemma fre_obs [simp]:
  "fre (set_free_next a x s) = set_next a x (fre s)" "fre (set_free_prev a x s) = set_prev a x (fre s)"
  "fre (set_block_next a x s) = fre s" "fre (set_block_prev a x s) = fre s" "fre (upd_heap h f s) = fre s"
  by (auto simp: fre_def set_block_next_def set_block_prev_def set_free_next_def set_free_prev_def upd_item_def
      upd_heap_def set_next_def set_prev_def fun_eq_iff)

lemma hdr_obs [simp]:
  "hdr (set_free_next a x s) = hdr s" "hdr (set_free_prev a x s) = hdr s"
  "hdr (set_block_next a x s) = hdr s" "hdr (set_block_prev a x s) = hdr s" "hdr (upd_heap h f s) = hdr s"
  by (auto simp: hdr_def set_block_next_def set_block_prev_def set_free_next_def set_free_prev_def upd_item_def
      upd_heap_def fun_eq_iff)

lemma upd_item_links:
  "(\<And>i. item_next (f i) = item_next i \<and> item_prev (f i) = item_prev i) \<Longrightarrow> blk (upd_item a f s) = blk s"
  "(\<And>i. next_free (f i) = next_free i \<and> prev_free (f i) = prev_free i) \<Longrightarrow> fre (upd_item a f s) = fre s"
  by (auto simp: blk_def fre_def upd_item_def fun_eq_iff)

lemma hdr_upd_item: "hdr (upd_item a f s) = (hdr s)(a := (magic (f (items s a)), pool_ptr (f (items s a))))"
  by (auto simp: hdr_def upd_item_def fun_eq_iff)

lemma link_fields:
  "item_next (items s a) = next_of (blk s) a" "item_prev (items s a) = prev_of (blk s) a"
  "next_free (items s a) = next_of (fre s) a" "prev_free (items s a) = prev_of (fre s) a"
  "magic (items s a) = fst (hdr s a)" "pool_ptr (items s a) = snd (hdr s a)"
  by (simp_all add: blk_def fre_def hdr_def)

lemma heap_obs [simp]:
  "memheaps (set_block_next a x s) = memheaps s" "memheaps (set_block_prev a x s) = memheaps s"
  "memheaps (set_free_next a x s) = memheaps s" "memheaps (set_free_prev a x s) = memheaps s"
  "memheaps (upd_item a f s) = memheaps s"
  "memheaps (upd_heap h g s) k = (if k = h then g (memheaps s h) else memheaps s k)"
  by (simp_all add: set_block_next_def set_block_prev_def set_free_next_def set_free_prev_def upd_item_def upd_heap_def)

text \<open>The parts of the state no critical section touches.\<close>

definition rest_of :: "mem_sys \<Rightarrow> ipc_sys \<times> u64 list \<times> u64 \<times> (u64 \<Rightarrow> u8) \<times> (tid \<Rightarrow> nat \<Rightarrow> u8) \<times> int" where
  "rest_of s = (kernel s, memheap_list s, system_heap s, bytes s, thread_name s, rt_errno s)"

definition same_heap :: "u64 \<Rightarrow> mem_sys \<Rightarrow> mem_sys \<Rightarrow> bool" where
  "same_heap h s s' \<longleftrightarrow> start_addr (memheaps s' h) = start_addr (memheaps s h) \<and>
     pool_size (memheaps s' h) = pool_size (memheaps s h) \<and> block_list (memheaps s' h) = block_list (memheaps s h) \<and>
     free_list (memheaps s' h) = free_list (memheaps s h)"

text \<open>\<open>only h P s s'\<close>: between the states only headers in \<open>P\<close> and the counters of heap \<open>h\<close> change.\<close>

definition only :: "u64 \<Rightarrow> u64 set \<Rightarrow> mem_sys \<Rightarrow> mem_sys \<Rightarrow> bool" where
  "only h P s s' \<longleftrightarrow> rest_of s' = rest_of s \<and> (\<forall>k. k \<noteq> h \<longrightarrow> memheaps s' k = memheaps s k) \<and> same_heap h s s' \<and>
     (\<forall>x. x \<notin> P \<longrightarrow> items s' x = items s x)"

lemma only_refl [simp]: "only h P s s"
  by (simp add: only_def same_heap_def)

lemma only_trans: "only h P s s1 \<Longrightarrow> only h P s1 s2 \<Longrightarrow> only h P s s2"
  by (simp add: only_def same_heap_def)

lemma only_upd_item: "only h P s s1 \<Longrightarrow> a \<in> P \<Longrightarrow> only h P s (upd_item a f s1)"
  by (auto simp: only_def same_heap_def upd_item_def rest_of_def)

lemma only_set:
  "only h P s s1 \<Longrightarrow> a \<in> P \<Longrightarrow> only h P s (set_block_next a x s1)"
  "only h P s s1 \<Longrightarrow> a \<in> P \<Longrightarrow> only h P s (set_block_prev a x s1)"
  "only h P s s1 \<Longrightarrow> a \<in> P \<Longrightarrow> only h P s (set_free_next a x s1)"
  "only h P s s1 \<Longrightarrow> a \<in> P \<Longrightarrow> only h P s (set_free_prev a x s1)"
  by (simp_all add: set_block_next_def set_block_prev_def set_free_next_def set_free_prev_def only_upd_item)

lemma only_upd_available: "only h P s s1 \<Longrightarrow> only h P s (upd_heap h (\<lambda>H. H\<lparr>available_size := e H\<rparr>) s1)"
  by (simp add: only_def same_heap_def upd_heap_def rest_of_def)

lemma only_note_used: "only h P s s1 \<Longrightarrow> only h P s (note_used h s1)"
  by (simp add: only_def same_heap_def note_used_def upd_heap_def rest_of_def Let_def)

section \<open>A heap and its blocks\<close>

definition held :: "u64 set \<Rightarrow> u64 \<Rightarrow> block list \<Rightarrow> u64 list \<Rightarrow> mem_sys \<Rightarrow> bool" where
  "held X h bs fs s \<longleftrightarrow>
     layout X h (start_addr (memheaps s h)) bs fs (blk s) (fre s) (hdr s) \<and>
     free_list (memheaps s h) = free_header h \<and> block_list (memheaps s h) = start_addr (memheaps s h)"

text \<open>The addresses a heap may write: its pool's headers and the header of its free list.\<close>

definition zone :: "u64 \<Rightarrow> block list \<Rightarrow> mem_sys \<Rightarrow> u64 set" where
  "zone h bs s = insert (free_header h)
     {x. unat (start_addr (memheaps s h)) \<le> unat x \<and> unat x \<le> unat (start_addr (memheaps s h)) + total bs}"

lemma zone_only: "only h P s s' \<Longrightarrow> total bs' = total bs \<Longrightarrow> zone h bs' s' = zone h bs s"
  by (simp add: zone_def only_def same_heap_def)

lemma held_layout: "held X h bs fs s \<Longrightarrow> layout X h (start_addr (memheaps s h)) bs fs (blk s) (fre s) (hdr s)"
  by (simp add: held_def)

lemma held_cong:
  "blk s' = blk s \<Longrightarrow> fre s' = fre s \<Longrightarrow> hdr s' = hdr s \<Longrightarrow> same_heap h s s' \<Longrightarrow> held X h bs fs s' = held X h bs fs s"
  by (simp add: held_def same_heap_def)

lemma held_zone:
  assumes "held X h bs fs s"
  shows "x \<in> set (headers (start_addr (memheaps s h)) bs) \<Longrightarrow> x \<in> zone h bs s"
    "x \<in> set fs \<Longrightarrow> x \<in> zone h bs s" "x \<in> X \<Longrightarrow> x \<in> zone h bs s" "free_header h \<in> zone h bs s"
proof -
  note d = layoutD[OF held_layout[OF assms]]
  have 1: "x \<in> set (headers (start_addr (memheaps s h)) bs) \<Longrightarrow> x \<in> zone h bs s" for x
    using headers_range[of "start_addr (memheaps s h)" bs x] d(2) by (simp add: zone_def)
  then show "x \<in> set (headers (start_addr (memheaps s h)) bs) \<Longrightarrow> x \<in> zone h bs s" .
  have "x \<in> set (frees (start_addr (memheaps s h)) bs) \<Longrightarrow> x \<in> zone h bs s" for x
    using 1 frees_starts[of "start_addr (memheaps s h)" bs] by (auto simp: headers_def)
  then show "x \<in> set fs \<Longrightarrow> x \<in> zone h bs s" "x \<in> X \<Longrightarrow> x \<in> zone h bs s" using d(8,9) by blast+
  show "free_header h \<in> zone h bs s" by (simp add: zone_def)
qed

lemma seg_closed:
  "seg m p ys q \<Longrightarrow> x \<in> set (p # ys) \<Longrightarrow> next_of m x \<in> set (ys @ [q])"
  "seg m p ys q \<Longrightarrow> x \<in> set (ys @ [q]) \<Longrightarrow> prev_of m x \<in> set (p # ys)"
  by (induction ys arbitrary: p) auto

lemma ring_closed:
  assumes "ring_of m k xs" "x \<in> set (k # xs)"
  shows "next_of m x \<in> set (k # xs)" "prev_of m x \<in> set (k # xs)"
  using assms seg_closed[of m k xs k x] by (auto simp: ring_of_def)

lemma held_closed:
  assumes "held X h bs fs s"
  shows "x \<in> set (free_header h # fs) \<Longrightarrow> next_of (fre s) x \<in> zone h bs s \<and> prev_of (fre s) x \<in> zone h bs s"
    "x \<in> set (headers (start_addr (memheaps s h)) bs) \<Longrightarrow> next_of (blk s) x \<in> zone h bs s \<and> prev_of (blk s) x \<in> zone h bs s"
proof -
  let ?a = "start_addr (memheaps s h)"
  note d = layoutD[OF held_layout[OF assms]]
  show "x \<in> set (free_header h # fs) \<Longrightarrow> next_of (fre s) x \<in> zone h bs s \<and> prev_of (fre s) x \<in> zone h bs s"
    using ring_closed[OF d(5)] held_zone(2,4)[OF assms] by (metis set_ConsD)
  show "x \<in> set (headers ?a bs) \<Longrightarrow> next_of (blk s) x \<in> zone h bs s \<and> prev_of (blk s) x \<in> zone h bs s"
    using ring_closed[OF d(4)] held_zone(1)[OF assms] tl_headers[of ?a bs] by metis
qed

section \<open>Steps\<close>

lemma free_insert_links:
  assumes "free_list (memheaps s h) = f" "next_of (fre s) f \<noteq> x" "x \<noteq> f"
  shows "fre (free_insert h x s) = rt_list_insert_after f x (fre s)"
  using assms by (cases "fre s") (auto simp: free_insert_def rt_list_insert_after_def Let_def link_fields set_next_def
      set_prev_def fun_eq_iff)

lemma free_insert_obs [simp]:
  "blk (free_insert h x s) = blk s" "hdr (free_insert h x s) = hdr s" "memheaps (free_insert h x s) = memheaps s"
  by (simp_all add: free_insert_def Let_def)

lemma free_unlink_obs [simp]:
  "blk (free_unlink x s) = blk s" "hdr (free_unlink x s) = hdr s" "memheaps (free_unlink x s) = memheaps s"
  "fre (free_unlink x s) = skip x (fre s)"
  by (simp_all add: free_unlink_def Let_def link_fields skip_def)

lemma block_unlink_obs [simp]:
  "fre (block_unlink x s) = fre s" "hdr (block_unlink x s) = hdr s" "memheaps (block_unlink x s) = memheaps s"
  "blk (block_unlink x s) = skip x (blk s)"
  by (simp_all add: block_unlink_def Let_def link_fields skip_def)

lemma new_block_obs [simp]:
  "fre (new_block h x y s) = fre s" "memheaps (new_block h x y s) = memheaps s"
  "hdr (new_block h x y s) = (hdr s)(y := (RT_MEMHEAP_MAGIC, h))"
  by (simp_all add: new_block_def Let_def upd_item_links hdr_upd_item)

lemma new_block_links:
  assumes "next_of (blk s) x \<noteq> y" "y \<noteq> x"
  shows "blk (new_block h x y s) = rt_list_insert_after x y (blk s)"
  using assms by (cases "blk s") (auto simp: new_block_def rt_list_insert_after_def Let_def link_fields upd_item_links
      set_next_def set_prev_def fun_eq_iff)

text \<open>A block that waits for its place in the free list gets it.\<close>

lemma free_insert_step:
  assumes l: "held X h bs fs s" and x: "x \<in> X"
  shows "held (X - {x}) h bs (x # fs) (free_insert h x s)" "only h (zone h bs s) s (free_insert h x s)"
proof -
  note hl = held_layout[OF l] and z = held_zone[OF l]
  note d = layoutD[OF hl]
  have f: "free_list (memheaps s h) = free_header h" using l by (simp add: held_def)
  have "x \<in> set (headers (start_addr (memheaps s h)) bs)"
    using d(9) x frees_starts[of "start_addr (memheaps s h)" bs] by (auto simp: headers_def)
  then have n: "x \<notin> set (free_header h # fs)" using d(8,12) x by auto
  then have "next_of (fre s) (free_header h) \<noteq> x" using ring_closed(1)[OF d(5), of "free_header h"] by auto
  then have "fre (free_insert h x s) = rt_list_insert_after (free_header h) x (fre s)" using free_insert_links[OF f] n by simp
  then show "held (X - {x}) h bs (x # fs) (free_insert h x s)"
    using layout_free_insert[OF hl x] l by (simp add: held_def)
  have "next_of (fre s) (free_header h) \<in> zone h bs s" using held_closed(1)[OF l, of "free_header h"] by simp
  then show "only h (zone h bs s) s (free_insert h x s)"
    using z(3)[OF x] z(4) n by (auto simp: free_insert_def Let_def link_fields f intro!: only_set)
qed

text \<open>A free block leaves the free list.\<close>

lemma free_unlink_step:
  assumes l: "held X h bs fs s" and x: "x \<in> set fs"
  shows "held (insert x X) h bs (remove1 x fs) (free_unlink x s)" "only h (zone h bs s) s (free_unlink x s)"
proof -
  show "held (insert x X) h bs (remove1 x fs) (free_unlink x s)"
    using layout_free_skip[OF held_layout[OF l] x] l by (simp add: held_def)
  have "next_of (fre s) x \<in> zone h bs s \<and> prev_of (fre s) x \<in> zone h bs s" using held_closed(1)[OF l] x by simp
  then show "only h (zone h bs s) s (free_unlink x s)"
    by (auto simp: free_unlink_def Let_def link_fields intro!: only_set)
qed

text \<open>A block is cut in two; the second part waits to be listed.\<close>

lemma new_block_step:
  assumes l: "held X h (xs @ (n, u) # ys) fs s" and n: "n = m + 56 + k"
    and x: "x = after (start_addr (memheaps s h)) xs" and y: "y = x + 56 + of_nat m"
  shows "held (insert y X) h (xs @ (m, u) # (k, False) # ys) fs (new_block h x y s)"
    "only h (zone h (xs @ (n, u) # ys) s) s (new_block h x y s)"
proof -
  note hl = held_layout[OF l]
  note nb = layout_new_block[OF hl n x y] and nx = block_next[OF hl]
  have a: "x \<in> set (headers (start_addr (memheaps s h)) (xs @ (n, u) # ys))"
    "next_of (blk s) x \<in> set (headers (start_addr (memheaps s h)) (xs @ (n, u) # ys))"
    using at_start(3,4)[OF hl] nx x by simp_all
  then have "y \<noteq> x" "next_of (blk s) x \<noteq> y" using nb(3) by auto
  note b = new_block_links[OF this(2,1)]
  then show h': "held (insert y X) h (xs @ (m, u) # (k, False) # ys) fs (new_block h x y s)"
    using nb(1) l by (simp add: held_def)
  let ?Z = "zone h (xs @ (n, u) # ys) s"
  have "y \<in> ?Z" using held_zone(3)[OF h', of y] n by (simp add: zone_def add.assoc)
  moreover have "x \<in> ?Z" "next_of (blk s) x \<in> ?Z" using held_zone(1)[OF l] a by simp_all
  ultimately show "only h ?Z s (new_block h x y s)" using \<open>y \<noteq> x\<close>
    by (auto simp: new_block_def Let_def link_fields upd_item_links intro!: only_set only_upd_item)
qed

text \<open>A block absorbs the free block behind it, which is not listed.\<close>

lemma merge_step:
  assumes l: "held X h (xs @ (n, u) # (m, False) # ys) fs s"
    and y: "y = after (start_addr (memheaps s h)) xs + 56 + of_nat n" and yX: "y \<in> X"
    and s': "blk s' = skip y (blk s)" "fre s' = fre s" "hdr s' = hdr s" "same_heap h s s'"
  shows "held (X - {y}) h (xs @ (n + 56 + m, u) # ys) fs s'"
  using layout_merge[OF held_layout[OF l] refl y yX] l s' by (simp add: held_def same_heap_def)

text \<open>The magic number of a block changes.\<close>

lemma mark_step:
  assumes l: "held X h (xs @ (n, u) # ys) fs s" and x: "x = after (start_addr (memheaps s h)) xs" and u: "\<not> u \<longrightarrow> x \<in> X"
    and f: "\<And>i. item_next (f i) = item_next i \<and> item_prev (f i) = item_prev i"
      "\<And>i. next_free (f i) = next_free i \<and> prev_free (f i) = prev_free i"
      "\<And>i. magic (f i) = fst (mark h (n, v)) \<and> pool_ptr (f i) = pool_ptr i"
  shows "held (if v then X - {x} else insert x X) h (xs @ (n, v) # ys) fs (upd_item x f s)"
    "only h (zone h (xs @ (n, u) # ys) s) s (upd_item x f s)"
proof -
  note hl = held_layout[OF l]
  have "pool_ptr (items s x) = h" using block_mark[OF hl] x by (simp add: link_fields mark_def)
  then have "hdr (upd_item x f s) = (hdr s)(x := mark h (n, v))" using f(3) by (simp add: hdr_upd_item mark_def)
  then show "held (if v then X - {x} else insert x X) h (xs @ (n, v) # ys) fs (upd_item x f s)"
    using layout_mark[OF hl x u, of v] l f(1,2) unfolding held_def by (simp add: upd_item_links)
  have "x \<in> zone h (xs @ (n, u) # ys) s" using held_zone(1)[OF l] at_start(3)[OF hl] x by simp
  then show "only h (zone h (xs @ (n, u) # ys) s) s (upd_item x f s)" by (simp add: only_upd_item)
qed

text \<open>Clearing the free links of a block that is not listed.\<close>

lemma clear_step:
  assumes l: "held X h bs fs s" and x: "x \<in> X"
  shows "held X h bs fs (set_free_prev x p (set_free_next x q s))"
    "only h (zone h bs s) s (set_free_prev x p (set_free_next x q s))"
proof -
  note d = layoutD[OF held_layout[OF l]]
  have "x \<in> set (headers (start_addr (memheaps s h)) bs)"
    using d(9) x frees_starts[of "start_addr (memheaps s h)" bs] by (auto simp: headers_def)
  then have n: "x \<notin> set (free_header h # fs)" using d(8,12) x by auto
  have "layout X h (start_addr (memheaps s h)) bs fs (blk s) (set_prev x p (set_next x q (fre s))) (hdr s)"
    by (rule layout_frame[OF held_layout[OF l]]) (use n in auto)
  then show "held X h bs fs (set_free_prev x p (set_free_next x q s))" using l by (simp add: held_def)
  show "only h (zone h bs s) s (set_free_prev x p (set_free_next x q s))"
    using held_zone(3)[OF l x] by (intro only_set only_refl)
qed

section \<open>What the headers say\<close>

lemma item_size:
  assumes l: "held X h (xs @ (n, u) # ys) fs s" and x: "x = after (start_addr (memheaps s h)) xs"
  shows "MEMITEM_SIZE x s = of_nat n" "item_next (items s x) = x + 56 + of_nat n"
  using block_next(1)[OF held_layout[OF l]] x by (simp_all add: MEMITEM_SIZE_def link_fields)

lemma used_mark: "hdr s x = mark h b \<Longrightarrow> RT_MEMHEAP_IS_USED x s = snd b"
  by (auto simp: RT_MEMHEAP_IS_USED_def link_fields mark_def)

lemma is_used:
  assumes l: "held X h (xs @ (n, u) # ys) fs s" and x: "x = after (start_addr (memheaps s h)) xs"
  shows "RT_MEMHEAP_IS_USED x s = u"
  using used_mark[OF block_mark[OF held_layout[OF l]]] x by simp

lemma tail_used: "held X h bs fs s \<Longrightarrow> RT_MEMHEAP_IS_USED (after (start_addr (memheaps s h)) bs) s"
  using layoutD(7)[OF held_layout] by (simp add: RT_MEMHEAP_IS_USED_def link_fields)

text \<open>The blocks on both sides of a block.\<close>

definition frees_right :: "block list \<Rightarrow> bool" where
  "frees_right ys \<longleftrightarrow> (case ys of [] \<Rightarrow> False | b # _ \<Rightarrow> \<not> snd b)"

lemma right_used:
  assumes l: "held X h (xs @ (n, u) # ys) fs s" and x: "x = after (start_addr (memheaps s h)) xs"
  shows "RT_MEMHEAP_IS_USED (item_next (items s x)) s \<longleftrightarrow> \<not> frees_right ys"
proof (cases ys)
  case Nil
  then show ?thesis using item_size(2)[OF l x] tail_used[OF l] x by (simp add: frees_right_def)
next
  case (Cons b zs)
  have "held X h ((xs @ [(n, u)]) @ (fst b, snd b) # zs) fs s" using l Cons by simp
  from is_used[OF this] show ?thesis using item_size(2)[OF l x] x Cons by (simp add: frees_right_def)
qed

definition frees_left :: "block list \<Rightarrow> bool" where
  "frees_left xs \<longleftrightarrow> xs \<noteq> [] \<and> \<not> snd (last xs)"

lemma left_used:
  assumes l: "held X h (xs @ b # ys) fs s" and x: "x = after (start_addr (memheaps s h)) xs"
  shows "RT_MEMHEAP_IS_USED (item_prev (items s x)) s \<longleftrightarrow> \<not> frees_left xs"
    "xs = zs @ [c] \<Longrightarrow> item_prev (items s x) = after (start_addr (memheaps s h)) zs"
proof -
  show p: "item_prev (items s x) = after (start_addr (memheaps s h)) zs" if "xs = zs @ [c]" for zs c
    using block_next(2)[of X h "start_addr (memheaps s h)" zs c "b # ys" fs "blk s"] held_layout[OF l] x that
    by (simp add: link_fields)
  show "RT_MEMHEAP_IS_USED (item_prev (items s x)) s \<longleftrightarrow> \<not> frees_left xs"
  proof (cases xs rule: rev_cases)
    case Nil
    then show ?thesis using block_prev_first(1)[OF held_layout[OF l]] tail_used[OF l] x by (simp add: frees_left_def link_fields)
  next
    case (snoc zs c)
    have "held X h (zs @ (fst c, snd c) # b # ys) fs s" using l snoc by simp
    from is_used[OF this refl] show ?thesis using p[OF snoc] snoc by (simp add: frees_left_def)
  qed
qed

section \<open>Searching the free list\<close>

lemma unat_ucast_small: "unat (w :: u64) < 2 ^ 32 \<Longrightarrow> unat (ucast w :: u32) = unat w"
  by (simp add: unsigned_ucast_eq unsigned_take_bit_eq take_bit_nat_eq_self)

lemma ucast_back: "unat (w :: u64) < 2 ^ 32 \<Longrightarrow> (ucast (ucast w :: u32) :: u64) = w"
  by (simp add: word_unat_eq_iff unat_ucast_up unat_ucast_small)

lemma find_spec:
  assumes "seg (fre s) p us fl" "fl \<notin> set us" "free_list (memheaps s h) = fl" "ucast f0 < sz"
    "\<And>x. x \<in> set us \<Longrightarrow> unat (MEMITEM_SIZE x s) < 2 ^ 32"
  shows "\<exists>a g. memheap_find h sz (next_of (fre s) p) f0 s = Some (a, g) \<and>
    ((\<forall>x\<in>set us. MEMITEM_SIZE x s < sz) \<and> ucast g < sz \<or> a \<in> set us \<and> ucast g = MEMITEM_SIZE a s \<and> sz \<le> ucast g)"
  using assms
proof (induction us arbitrary: p f0)
  case Nil
  then show ?case by (simp add: memheap_find.simps[of h sz fl])
next
  case (Cons x us)
  let ?g = "ucast (MEMITEM_SIZE x s) :: u32"
  have g: "(ucast ?g :: u64) = MEMITEM_SIZE x s" by (rule ucast_back) (use Cons.prems(5)[of x] in simp)
  have x: "next_of (fre s) p = x" "x \<noteq> fl" using Cons.prems(1,2) by auto
  note e = memheap_find.simps[of h sz x f0 s]
  show ?case
  proof (cases "MEMITEM_SIZE x s < sz")
    case True
    have "\<exists>a g. memheap_find h sz (next_of (fre s) x) ?g s = Some (a, g) \<and>
      ((\<forall>x\<in>set us. MEMITEM_SIZE x s < sz) \<and> ucast g < sz \<or> a \<in> set us \<and> ucast g = MEMITEM_SIZE a s \<and> sz \<le> ucast g)"
      by (rule Cons.IH) (use Cons.prems True g in auto)
    moreover have "memheap_find h sz (next_of (fre s) p) f0 s = memheap_find h sz (next_of (fre s) x) ?g s"
      unfolding x(1) by (subst e) (use Cons.prems x True g in \<open>simp add: Let_def link_fields\<close>)
    ultimately show ?thesis using True by auto
  next
    case False
    have "memheap_find h sz (next_of (fre s) p) f0 s = memheap_find h sz x ?g s"
      unfolding x(1) by (subst e) (use Cons.prems x False g in \<open>simp add: Let_def\<close>)
    also have "\<dots> = Some (x, ?g)"
      by (subst memheap_find.simps) (use False g in \<open>simp add: Let_def\<close>)
    finally show ?thesis using False g by auto
  qed
qed

section \<open>The invariant\<close>

definition sizes_ok :: "block list \<Rightarrow> bool" where
  "sizes_ok bs \<longleftrightarrow> (\<forall>b\<in>set bs. 12 \<le> fst b \<and> 4 dvd fst b)"

definition coalesced :: "block list \<Rightarrow> bool" where
  "coalesced bs \<longleftrightarrow> successively (\<lambda>b c. snd b \<or> snd c) bs"

text \<open>The counters: the pool is the blocks and the headers, and what is available is what is free.\<close>

definition accounts :: "block list \<Rightarrow> rt_memheap \<Rightarrow> bool" where
  "accounts bs H \<longleftrightarrow> total bs + 56 = unat (pool_size H) \<and> unat (pool_size H) < 2 ^ 31 \<and>
     unat (available_size H) = free_bytes bs \<and> unat (pool_size H) \<le> unat (max_used_size H) + free_bytes bs \<and>
     unat (max_used_size H) \<le> unat (pool_size H)"

definition heap_inv :: "u64 \<Rightarrow> block list \<Rightarrow> u64 list \<Rightarrow> mem_sys \<Rightarrow> bool" where
  "heap_inv h bs fs s \<longleftrightarrow> held {} h bs fs s \<and> sizes_ok bs \<and> coalesced bs \<and> accounts bs (memheaps s h) \<and>
     unat (start_addr (memheaps s h)) > 0 \<and> 4 dvd unat (start_addr (memheaps s h))"

lemma heap_invD:
  assumes "heap_inv h bs fs s"
  shows "held {} h bs fs s" "sizes_ok bs" "coalesced bs" "accounts bs (memheaps s h)"
    "unat (start_addr (memheaps s h)) > 0" "4 dvd unat (start_addr (memheaps s h))"
  using assms by (simp_all add: heap_inv_def)

lemma sizes_ok_simps [simp]:
  "sizes_ok []" "sizes_ok (b # bs) \<longleftrightarrow> 12 \<le> fst b \<and> 4 dvd fst b \<and> sizes_ok bs" "sizes_ok (xs @ ys) \<longleftrightarrow> sizes_ok xs \<and> sizes_ok ys"
  by (auto simp: sizes_ok_def)

lemma coalesced_mid:
  "coalesced (xs @ b # ys) \<longleftrightarrow> coalesced xs \<and> coalesced ys \<and> (snd b \<or> \<not> frees_left xs \<and> \<not> frees_right ys)"
  unfolding coalesced_def frees_left_def frees_right_def
  by (cases ys) (auto simp: successively_append_iff successively_Cons)

lemma coalesced_Cons: "coalesced (b # ys) \<longleftrightarrow> coalesced ys \<and> (snd b \<or> \<not> frees_right ys)"
  using coalesced_mid[of "[]" b ys] by (simp add: coalesced_def frees_left_def)

lemma coalesced_small [simp]: "coalesced []" "coalesced [b]"
  by (simp_all add: coalesced_def)

lemma frees_left_snoc [simp]: "frees_left (xs @ [b]) \<longleftrightarrow> \<not> snd b" "\<not> frees_left []"
  by (simp_all add: frees_left_def)

lemma frees_right_Cons [simp]: "frees_right (b # ys) \<longleftrightarrow> \<not> snd b" "\<not> frees_right []"
  by (simp_all add: frees_right_def)

text \<open>Counter arithmetic: 32-bit counters updated through 64-bit expressions.\<close>

lemma counter_sub:
  "unat (x :: u64) \<le> unat (c :: u32) \<Longrightarrow> unat (ucast (ucast c - x) :: u32) = unat c - unat x"
proof -
  assume x: "unat x \<le> unat c"
  have "unat c < 2 ^ 32" using unsigned_less[of c] by simp
  moreover have "unat ((ucast c :: u64) - x) = unat c - unat x"
    using unat_sub[of x "ucast c"] x by (simp add: word_le_nat_alt unat_ucast_up)
  ultimately show ?thesis by (simp add: unat_ucast_small)
qed

lemma counter_add:
  "unat (c :: u32) + unat (x :: u64) < 2 ^ 32 \<Longrightarrow> unat (ucast (ucast c + x) :: u32) = unat c + unat x"
proof -
  assume x: "unat c + unat x < 2 ^ 32"
  have "unat ((ucast c :: u64) + x) = unat c + unat x"
    using x by (simp add: unat_word_ariths unat_ucast_up)
  then show ?thesis using x by (simp add: unat_ucast_small)
qed

lemma note_used_obs [simp]:
  "blk (note_used h s) = blk s" "fre (note_used h s) = fre s" "hdr (note_used h s) = hdr s"
  "available_size (memheaps (note_used h s) h) = available_size (memheaps s h)"
  "pool_size (memheaps (note_used h s) h) = pool_size (memheaps s h)"
  "start_addr (memheaps (note_used h s) h) = start_addr (memheaps s h)"
  "same_heap h s (note_used h s)"
  by (simp_all add: note_used_def Let_def same_heap_def)

lemma note_used_max:
  assumes "unat (available_size (memheaps s h)) \<le> unat (pool_size (memheaps s h))"
  shows "unat (max_used_size (memheaps (note_used h s) h)) =
    max (unat (max_used_size (memheaps s h))) (unat (pool_size (memheaps s h)) - unat (available_size (memheaps s h)))"
proof -
  have "unat (pool_size (memheaps s h) - available_size (memheaps s h)) =
    unat (pool_size (memheaps s h)) - unat (available_size (memheaps s h))"
    by (rule unat_sub) (use assms in \<open>simp add: word_le_nat_alt\<close>)
  then show ?thesis by (simp add: note_used_def Let_def word_less_nat_alt max_def)
qed

text \<open>Once the counter of available bytes is right, noting the mark gives the accounts again.\<close>

lemma accounts_note:
  assumes "accounts bs H0" "total bs' = total bs" "unat (available_size (memheaps s h)) = free_bytes bs'"
    "pool_size (memheaps s h) = pool_size H0" "max_used_size (memheaps s h) = max_used_size H0"
  shows "accounts bs' (memheaps (note_used h s) h)"
proof -
  have "free_bytes bs' \<le> unat (pool_size H0)" using assms(1,2) free_le_total[of bs'] by (simp add: accounts_def)
  then show ?thesis using assms note_used_max[of s h] by (auto simp: accounts_def max_def)
qed

section \<open>Allocating\<close>

definition carve :: "nat \<Rightarrow> nat \<Rightarrow> block list" where
  "carve k n = (if n \<ge> k + 68 then [(k, True), (n - k - 56, False)] else [(n, True)])"

lemma total_carve: "k \<le> n \<Longrightarrow> total (carve k n) = 56 + n"
  by (auto simp: carve_def)

lemma only_step: "only h P s s1 \<Longrightarrow> only h P' s1 s2 \<Longrightarrow> P' = P \<Longrightarrow> only h P s s2"
  using only_trans by blast

lemma only_heap: "only h P s s' \<Longrightarrow> start_addr (memheaps s' h) = start_addr (memheaps s h) \<and>
    pool_size (memheaps s' h) = pool_size (memheaps s h)"
  by (simp add: only_def same_heap_def)

lemma held_heap:
  "held X h bs fs s \<Longrightarrow> same_heap h s s' \<Longrightarrow> blk s' = blk s \<Longrightarrow> fre s' = fre s \<Longrightarrow> hdr s' = hdr s \<Longrightarrow> held X h bs fs s'"
  using held_cong by blast

lemma same_heap_counters [simp]:
  "same_heap h s (upd_heap h (\<lambda>H. H\<lparr>available_size := e H\<rparr>) s)"
  "same_heap h s s"
  by (simp_all add: same_heap_def)

lemma same_heap_trans: "same_heap h s s1 \<Longrightarrow> same_heap h s1 s2 \<Longrightarrow> same_heap h s s2"
  by (simp add: same_heap_def)

lemma heaps_note: "memheaps (set_free_prev a p (set_free_next a q s)) = memheaps s"
  by simp

lemma alloc_split_step:
  assumes i: "heap_inv h (xs @ (n, False) # ys) fs s" and x: "x = after (start_addr (memheaps s h)) xs"
    and k: "12 \<le> unat sz" "4 dvd unat sz" "unat sz + 68 \<le> n"
  shows "\<exists>fs'. held {x} h (xs @ (unat sz, False) # (n - unat sz - 56, False) # ys) fs' (alloc_split h x sz s) \<and>
    only h (zone h (xs @ (n, False) # ys) s) s (alloc_split h x sz s) \<and>
    accounts (xs @ (unat sz, True) # (n - unat sz - 56, False) # ys) (memheaps (alloc_split h x sz s) h)"
proof -
  let ?a = "start_addr (memheaps s h)" and ?bs = "xs @ (n, False) # ys"
  let ?bs' = "xs @ (unat sz, False) # (n - unat sz - 56, False) # ys"
  note d = heap_invD[OF i]
  define y where "y = x + sz + RT_MEMHEAP_SIZE"
  have y: "y = x + 56 + of_nat (unat sz)" by (simp add: y_def)
  define s1 where "s1 = new_block h x y s"
  have n: "n = unat sz + 56 + (n - unat sz - 56)" using k by simp
  have tot: "total ?bs' = total ?bs" using k by simp
  have xf: "x \<in> set fs" using layoutD(8)[OF held_layout[OF d(1)]] x by simp
  note 1 = new_block_step[OF d(1) n x y, folded s1_def]
  have xy: "x \<noteq> y" using layoutD(10)[OF held_layout[OF 1(1)]] only_heap[OF 1(2)] x y by (auto simp: headers_at headers_Cons)
  note 2 = free_unlink_step[OF 1(1) xf]
  define s2 where "s2 = set_free_prev x 0 (set_free_next x 0 (free_unlink x s1))"
  note 3 = clear_step[OF 2(1) insertI1, of 0 0, folded s2_def]
  have "y \<in> {x, y}" by simp
  note 4 = free_insert_step[OF 3(1) this]
  have "{x, y} - {y} = {x}" using xy by auto
  then have h4: "held {x} h ?bs' (y # remove1 x fs) (free_insert h y s2)" using 4(1) by simp
  have z: "zone h ?bs' s1 = zone h ?bs s" "zone h ?bs' (free_unlink x s1) = zone h ?bs s" "zone h ?bs' s2 = zone h ?bs s"
    using zone_only[OF 1(2) tot] zone_only[OF only_step[OF 1(2) 2(2)] tot] zone_only[OF only_step[OF only_step[OF 1(2) 2(2)] 3(2)] tot]
      zone_only[OF 1(2) tot] by simp_all
  have o4: "only h (zone h ?bs s) s (free_insert h y s2)"
    by (rule only_trans[OF only_trans[OF only_trans[OF 1(2)]]]) (use 2(2) 3(2) 4(2) z in simp_all)
  define s3 where "s3 = upd_heap h (\<lambda>H. H\<lparr>available_size := ucast (ucast (available_size H) - sz - RT_MEMHEAP_SIZE)\<rparr>) (free_insert h y s2)"
  have e: "alloc_split h x sz s = note_used h s3"
    by (simp add: alloc_split_def Let_def s3_def s2_def s1_def y_def)
  have hp: "memheaps s2 = memheaps s" by (simp add: s2_def s1_def)
  have "held {x} h ?bs' (y # remove1 x fs) (note_used h s3)"
    by (rule held_heap[OF h4]) (simp_all add: s3_def same_heap_def note_used_def Let_def)
  moreover have "only h (zone h ?bs s) s (note_used h s3)"
    unfolding s3_def by (rule only_note_used, rule only_upd_available[OF o4])
  moreover have "accounts (xs @ (unat sz, True) # (n - unat sz - 56, False) # ys) (memheaps (note_used h s3) h)"
  proof (rule accounts_note[OF d(4)])
    have av: "unat (available_size (memheaps s h)) = free_bytes xs + n + free_bytes ys" using d(4) by (simp add: accounts_def)
    have "unat (available_size (memheaps s h)) < 2 ^ 32" using unsigned_less[of "available_size (memheaps s h)"] by simp
    then have "unat (sz + 56) = unat sz + 56" using k av by (simp add: unat_word_ariths)
    then have "unat (ucast (ucast (available_size (memheaps s h)) - (sz + 56)) :: u32) = free_bytes xs + n + free_bytes ys - (unat sz + 56)"
      using counter_sub[of "sz + 56" "available_size (memheaps s h)"] av k by simp
    then show "unat (available_size (memheaps s3 h)) = free_bytes (xs @ (unat sz, True) # (n - unat sz - 56, False) # ys)"
      using k by (simp add: s3_def hp diff_diff_eq)
  qed (use k in \<open>simp_all add: s3_def hp\<close>)
  ultimately show ?thesis unfolding e by blast
qed

lemma alloc_whole_step:
  assumes i: "heap_inv h (xs @ (n, False) # ys) fs s" and x: "x = after (start_addr (memheaps s h)) xs" and g: "unat g = n"
  shows "\<exists>fs'. held {x} h (xs @ (n, False) # ys) fs' (alloc_whole h x g s) \<and>
    only h (zone h (xs @ (n, False) # ys) s) s (alloc_whole h x g s) \<and>
    accounts (xs @ (n, True) # ys) (memheaps (alloc_whole h x g s) h)"
proof -
  let ?bs = "xs @ (n, False) # ys"
  note d = heap_invD[OF i]
  define s1 where "s1 = upd_heap h (\<lambda>H. H\<lparr>available_size := available_size H - g\<rparr>) s"
  have xf: "x \<in> set fs" using layoutD(8)[OF held_layout[OF d(1)]] x by simp
  have h1: "held {} h ?bs fs (note_used h s1)"
    by (rule held_heap[OF d(1)]) (simp_all add: s1_def same_heap_def note_used_def Let_def)
  have o1: "only h (zone h ?bs s) s (note_used h s1)"
    unfolding s1_def by (rule only_note_used, rule only_upd_available) simp
  note 2 = free_unlink_step[OF h1 xf]
  note 3 = clear_step[OF 2(1) insertI1, of 0 0]
  have e: "alloc_whole h x g s = set_free_prev x 0 (set_free_next x 0 (free_unlink x (note_used h s1)))"
    by (simp add: alloc_whole_def Let_def s1_def)
  have z: "zone h ?bs (note_used h s1) = zone h ?bs s" by (rule zone_only[OF o1 refl])
  then have z': "zone h ?bs (free_unlink x (note_used h s1)) = zone h ?bs s"
    using zone_only[OF 2(2) refl] by simp
  have "only h (zone h ?bs s) s (alloc_whole h x g s)"
    unfolding e by (rule only_trans[OF only_trans[OF o1]]) (use 2(2) 3(2) z z' in simp_all)
  moreover have "accounts (xs @ (n, True) # ys) (memheaps (note_used h s1) h)"
  proof (rule accounts_note[OF d(4)])
    have "unat (available_size (memheaps s h)) = free_bytes xs + n + free_bytes ys" using d(4) by (simp add: accounts_def)
    then show "unat (available_size (memheaps s1 h)) = free_bytes (xs @ (n, True) # ys)"
      using g unat_sub[of g "available_size (memheaps s h)"] by (simp add: s1_def word_le_nat_alt)
  qed (simp_all add: s1_def)
  ultimately show ?thesis using 3(1) unfolding e by auto
qed

lemma inv_total: "heap_inv h bs fs s \<Longrightarrow> total bs < 2 ^ 31"
  using heap_invD(4)[of h bs fs s] by (simp add: accounts_def)

lemma inv_size:
  assumes i: "heap_inv h (xs @ (n, u) # ys) fs s" and x: "x = after (start_addr (memheaps s h)) xs"
  shows "MEMITEM_SIZE x s = of_nat n" "unat (MEMITEM_SIZE x s) = n" "n < 2 ^ 31" "12 \<le> n" "4 dvd n"
proof -
  show 1: "MEMITEM_SIZE x s = of_nat n" by (rule item_size(1)[OF heap_invD(1)[OF i] x])
  show n: "n < 2 ^ 31" using inv_total[OF i] by simp
  then show "unat (MEMITEM_SIZE x s) = n" unfolding 1 by (intro unat_of_nat_small) simp
  show "12 \<le> n" "4 dvd n" using heap_invD(2)[OF i] by simp_all
qed

lemma inv_free:
  assumes i: "heap_inv h bs fs s"
  shows "x \<in> set fs \<longleftrightarrow> (\<exists>xs n ys. bs = xs @ (n, False) # ys \<and> x = after (start_addr (memheaps s h)) xs)"
proof -
  let ?a = "start_addr (memheaps s h)"
  have "set fs = set (frees ?a bs)" using layoutD(8)[OF held_layout[OF heap_invD(1)[OF i]]] by simp
  moreover have "x \<in> set (frees ?a bs) \<longleftrightarrow> (\<exists>xs n ys. bs = xs @ (n, False) # ys \<and> x = after ?a xs)" (is "_ = ?R")
  proof
    assume ?R
    then show "x \<in> set (frees ?a bs)" by fastforce
  qed (rule frees_split)
  ultimately show ?thesis by simp
qed

text \<open>
  Allocating: either no free block is large enough, or the first one found becomes used, cut to the request
  if the rest can be a block.
\<close>

lemma alloc_block_spec:
  assumes i: "heap_inv h bs fs s" and k: "12 \<le> unat sz" "4 dvd unat sz"
  shows "\<exists>p s'. alloc_block h sz s = Some (p, s') \<and>
    ((p = 0 \<and> s' = s \<and> (\<forall>n. (n, False) \<in> set bs \<longrightarrow> n < unat sz)) \<or>
     (\<exists>xs n ys fs'. bs = xs @ (n, False) # ys \<and> unat sz \<le> n \<and> p = after (start_addr (memheaps s h)) xs + 56 \<and>
        heap_inv h (xs @ carve (unat sz) n @ ys) fs' s' \<and> only h (zone h bs s) s s'))"
proof -
  let ?a = "start_addr (memheaps s h)" and ?fl = "free_list (memheaps s h)"
  note d = heap_invD[OF i]
  note ld = layoutD[OF held_layout[OF d(1)]]
  have fl: "?fl = free_header h" using d(1) by (simp add: held_def)
  have pos: "ucast (0 :: u32) < sz" using k by (simp add: word_gt_0 unat_eq_zero) auto
  have "\<exists>a g. memheap_find h sz (next_of (fre s) ?fl) 0 s = Some (a, g) \<and>
    ((\<forall>x\<in>set fs. MEMITEM_SIZE x s < sz) \<and> ucast g < sz \<or> a \<in> set fs \<and> ucast g = MEMITEM_SIZE a s \<and> sz \<le> ucast g)"
  proof (rule find_spec[OF _ _ refl pos])
    show "seg (fre s) ?fl fs ?fl" "?fl \<notin> set fs" using ld(5) fl by (simp_all add: ring_of_def)
    fix x assume "x \<in> set fs"
    then obtain xs n ys where x: "bs = xs @ (n, False) # ys" "x = after ?a xs" using inv_free[OF i] by blast
    then show "unat (MEMITEM_SIZE x s) < 2 ^ 32" using inv_size(2,3)[of h xs n False ys fs s x] i by simp
  qed
  then obtain x g where f: "memheap_find h sz (next_of (fre s) ?fl) 0 s = Some (x, g)"
    and c: "(\<forall>x\<in>set fs. MEMITEM_SIZE x s < sz) \<and> ucast g < sz \<or> x \<in> set fs \<and> ucast g = MEMITEM_SIZE x s \<and> sz \<le> ucast g"
    by blast
  show ?thesis
  proof (cases "sz \<le> ucast g")
    case False
    then have small: "\<forall>x\<in>set fs. MEMITEM_SIZE x s < sz" using c by auto
    have "n < unat sz" if nb: "(n, False) \<in> set bs" for n
    proof -
      obtain xs ys where b: "bs = xs @ (n, False) # ys" using split_list[OF nb] by blast
      then have "after ?a xs \<in> set fs" using inv_free[OF i] by blast
      then have "MEMITEM_SIZE (after ?a xs) s < sz" using small by blast
      then show ?thesis using inv_size(2)[of h xs n False ys fs s "after ?a xs"] i b by (simp add: word_less_nat_alt)
    qed
    then show ?thesis using f False by (auto simp: alloc_block_def link_fields not_le)
  next
    case True
    then have xf: "x \<in> set fs" and g: "ucast g = MEMITEM_SIZE x s" using c by auto
    obtain xs n ys where b: "bs = xs @ (n, False) # ys" and x: "x = after ?a xs" using xf inv_free[OF i] by blast
    note ib = i[unfolded b] and db = d[unfolded b]
    note sz = inv_size[OF ib x]
    have gn: "unat g = n" using g sz(2) unat_ucast_up[of g, where 'b = 64] by simp
    have le: "unat sz \<le> n" using True g sz(2) by (simp add: word_le_nat_alt)
    let ?f = "\<lambda>s1 (i :: rt_memheap_item). i\<lparr>magic := MEM_USED, owner_thread_name := owner_tag s1\<rparr>"
    have big: "sz + RT_MEMHEAP_SIZE + RT_MEMHEAP_MINIALLOC \<le> ucast g \<longleftrightarrow> unat sz + 68 \<le> n"
    proof -
      have "unat (sz + RT_MEMHEAP_SIZE + RT_MEMHEAP_MINIALLOC) = unat sz + 68"
        using le sz(3) by (simp add: unat_word_ariths)
      then show ?thesis using gn by (simp only: word_le_nat_alt unat_ucast_up) (simp add: unat_ucast_up)
    qed
    have co: "coalesced (xs @ carve (unat sz) n @ ys)" "sizes_ok (xs @ carve (unat sz) n @ ys)"
      using db(3) db(2) k le by (auto simp: carve_def coalesced_mid coalesced_Cons dvd_diff_nat)
    show ?thesis
    proof (cases "unat sz + 68 \<le> n")
      case split: True
      let ?s1 = "alloc_split h x sz s"
      obtain fs' where h1: "held {x} h (xs @ (unat sz, False) # (n - unat sz - 56, False) # ys) fs' ?s1"
        and o1: "only h (zone h bs s) s ?s1"
        and ac: "accounts (xs @ (unat sz, True) # (n - unat sz - 56, False) # ys) (memheaps ?s1 h)"
        using alloc_split_step[OF ib x k split] b by auto
      have x1: "x = after (start_addr (memheaps ?s1 h)) xs" using only_heap[OF o1] x by simp
      have "held {} h (xs @ (unat sz, True) # (n - unat sz - 56, False) # ys) fs' (upd_item x (?f ?s1) ?s1)"
        "only h (zone h (xs @ (unat sz, False) # (n - unat sz - 56, False) # ys) ?s1) ?s1 (upd_item x (?f ?s1) ?s1)"
        using mark_step[OF h1 x1, of "?f ?s1" True] by (simp_all add: mark_def)
      moreover have "zone h (xs @ (unat sz, False) # (n - unat sz - 56, False) # ys) ?s1 = zone h bs s"
        by (rule zone_only[OF o1]) (use split b in simp)
      ultimately have "heap_inv h (xs @ carve (unat sz) n @ ys) fs' (upd_item x (?f ?s1) ?s1)"
        "only h (zone h bs s) s (upd_item x (?f ?s1) ?s1)"
        using co ac split only_heap[OF o1] d(5,6) only_trans[OF o1] by (simp_all add: heap_inv_def carve_def)
      moreover have "alloc_block h sz s = Some (x + 56, upd_item x (?f ?s1) ?s1)"
        using f True split big by (simp add: alloc_block_def link_fields Let_def)
      ultimately show ?thesis using b x le by blast
    next
      case whole: False
      let ?s1 = "alloc_whole h x g s"
      obtain fs' where h1: "held {x} h (xs @ (n, False) # ys) fs' ?s1" and o1: "only h (zone h bs s) s ?s1"
        and ac: "accounts (xs @ (n, True) # ys) (memheaps ?s1 h)"
        using alloc_whole_step[OF ib x gn] b by auto
      have x1: "x = after (start_addr (memheaps ?s1 h)) xs" using only_heap[OF o1] x by simp
      have "held {} h (xs @ (n, True) # ys) fs' (upd_item x (?f ?s1) ?s1)"
        "only h (zone h (xs @ (n, False) # ys) ?s1) ?s1 (upd_item x (?f ?s1) ?s1)"
        using mark_step[OF h1 x1, of "?f ?s1" True] by (simp_all add: mark_def)
      moreover have "zone h (xs @ (n, False) # ys) ?s1 = zone h bs s" by (rule zone_only[OF o1]) (use b in simp)
      ultimately have "heap_inv h (xs @ carve (unat sz) n @ ys) fs' (upd_item x (?f ?s1) ?s1)"
        "only h (zone h bs s) s (upd_item x (?f ?s1) ?s1)"
        using co ac whole only_heap[OF o1] d(5,6) only_trans[OF o1] by (simp_all add: heap_inv_def carve_def)
      moreover have "alloc_block h sz s = Some (x + 56, upd_item x (?f ?s1) ?s1)"
        using f True whole big by (simp add: alloc_block_def link_fields Let_def)
      ultimately show ?thesis using b x le by blast
    qed
  qed
qed

section \<open>Freeing\<close>

lemma held_neighbours:
  assumes l: "held X h bs fs s" and x: "x \<in> set (headers (start_addr (memheaps s h)) bs)"
  shows "next_of (blk s) x \<noteq> x" "prev_of (blk s) x \<noteq> x"
proof -
  let ?a = "start_addr (memheaps s h)"
  note d = layoutD[OF held_layout[OF l]]
  obtain ts where ts: "tl (headers ?a bs) = ts" "ts \<noteq> []" using d(1) by (cases bs) (auto simp: headers_def)
  have r: "ring_of (blk s) ?a ts" using d(4) ts by simp
  have "x \<in> set (?a # ts)" using x tl_headers[of ?a bs] ts(1) by metis
  then obtain us vs where u: "?a # ts = us @ x # vs" using split_list[of x "?a # ts"] by blast
  have "\<exists>zs. ring_of (blk s) x zs \<and> zs \<noteq> []"
  proof (cases us)
    case Nil
    then show ?thesis using r u ts(2) by auto
  next
    case (Cons v us')
    then have "ring_of (blk s) x (vs @ ?a # us')" using r u ring_rotate[of "blk s" ?a us' x vs] by simp
    then show ?thesis by blast
  qed
  then obtain zs where zs: "ring_of (blk s) x zs" "zs \<noteq> []" by blast
  have s: "seg (blk s) x zs x" and nx: "x \<notin> set zs" using zs(1) by (simp_all add: ring_of_def)
  have "next_of (blk s) x \<in> set zs" "prev_of (blk s) x \<in> set zs" using seg_ends[OF s] zs(2) by simp_all
  then show "next_of (blk s) x \<noteq> x" "prev_of (blk s) x \<noteq> x" using nx by auto
qed

definition more_available :: "u64 \<Rightarrow> u64 \<Rightarrow> mem_sys \<Rightarrow> mem_sys \<Rightarrow> bool" where
  "more_available h k s s' \<longleftrightarrow>
     available_size (memheaps s' h) = ucast (ucast (available_size (memheaps s h)) + k) \<and>
     max_used_size (memheaps s' h) = max_used_size (memheaps s h)"

lemma merge_left_step:
  assumes l: "held X h (zs @ (m, False) # (n, False) # ys) fs s"
    and x: "x = after (start_addr (memheaps s h)) zs + 56 + of_nat m" and xX: "x \<in> X"
  shows "fst (merge_left h x s) = after (start_addr (memheaps s h)) zs"
    "held (X - {x}) h (zs @ (m + 56 + n, False) # ys) fs (snd (merge_left h x s))"
    "only h (zone h (zs @ (m, False) # (n, False) # ys) s) s (snd (merge_left h x s))"
    "more_available h 56 s (snd (merge_left h x s))"
proof -
  let ?bs = "zs @ (m, False) # (n, False) # ys" and ?a = "start_addr (memheaps s h)"
  have at: "x = after ?a (zs @ [(m, False)])" using x by simp
  have l': "held X h ((zs @ [(m, False)]) @ (n, False) # ys) fs s" using l by simp
  have xh: "x \<in> set (headers ?a ?bs)" using at_start(3)[OF held_layout[OF l']] at by simp
  note nb = held_neighbours[OF l xh]
  have pv: "prev_of (blk s) x = after ?a zs" using block_next(2)[OF held_layout[OF l]] x by simp
  show "fst (merge_left h x s) = after ?a zs" using pv nb by (auto simp: merge_left_def Let_def link_fields)
  have b: "blk (snd (merge_left h x s)) = skip x (blk s)"
    using nb by (cases "blk s") (auto simp: merge_left_def Let_def link_fields skip_def set_next_def set_prev_def fun_eq_iff)
  show "held (X - {x}) h (zs @ (m + 56 + n, False) # ys) fs (snd (merge_left h x s))"
    by (rule merge_step[OF l x xX b]) (simp_all add: merge_left_def Let_def same_heap_def)
  have "next_of (blk s) x \<in> zone h ?bs s" "prev_of (blk s) x \<in> zone h ?bs s" using held_closed(2)[OF l xh] by simp_all
  then show "only h (zone h ?bs s) s (snd (merge_left h x s))"
    using nb by (auto simp: merge_left_def Let_def link_fields intro!: only_set only_upd_available)
  show "more_available h 56 s (snd (merge_left h x s))" by (simp add: more_available_def merge_left_def Let_def)
qed

text \<open>A block absorbs the listed free block behind it.\<close>

lemma absorb_step:
  assumes l: "held X h (xs @ (n, u) # (k, False) # ys) fs s"
    and c: "c = after (start_addr (memheaps s h)) xs + 56 + of_nat n" and free: "c \<notin> X"
    and s': "blk s' = skip c (blk s)" "fre s' = skip c (fre s)" "hdr s' = hdr s" "same_heap h s s'"
  shows "held X h (xs @ (n + 56 + k, u) # ys) (remove1 c fs) s'" "c \<in> set fs"
proof -
  show cf: "c \<in> set fs" using layoutD(8)[OF held_layout[OF l]] c free by auto
  have "held (insert c X - {c}) h (xs @ (n + 56 + k, u) # ys) (remove1 c fs) s'"
  proof (rule merge_step[OF free_unlink_step(1)[OF l cf]])
    show "blk s' = skip c (blk (free_unlink c s))" "fre s' = fre (free_unlink c s)" "hdr s' = hdr (free_unlink c s)"
      "same_heap h (free_unlink c s) s'" using s' by (simp_all add: same_heap_def)
    show "c = after (start_addr (memheaps (free_unlink c s) h)) xs + 56 + of_nat n" by (simp add: c)
  qed simp
  moreover have "insert c X - {c} = X" using free by auto
  ultimately show "held X h (xs @ (n + 56 + k, u) # ys) (remove1 c fs) s'" by simp
qed

lemma merge_right_step:
  assumes l: "held X h (xs @ (n, False) # (k, False) # ys) fs s"
    and x: "x = after (start_addr (memheaps s h)) xs" and free: "x + 56 + of_nat n \<notin> X"
  shows "\<exists>fs'. held X h (xs @ (n + 56 + k, False) # ys) fs' (merge_right h x s)"
    "only h (zone h (xs @ (n, False) # (k, False) # ys) s) s (merge_right h x s)"
    "more_available h 56 s (merge_right h x s)"
proof -
  let ?bs = "xs @ (n, False) # (k, False) # ys" and ?a = "start_addr (memheaps s h)"
  define c where "c = x + 56 + of_nat n"
  have nx: "next_of (blk s) x = c" "prev_of (blk s) c = x" using block_next[OF held_layout[OF l]] x c_def by simp_all
  have ch: "c \<in> set (headers ?a ?bs)" "x \<in> set (headers ?a ?bs)"
    using at_start(3,4)[OF held_layout[OF l]] x c_def by simp_all
  have cx: "c = after ?a xs + 56 + of_nat n" "c \<notin> X" using x c_def free by simp_all
  have "blk (merge_right h x s) = skip c (blk s)" "fre (merge_right h x s) = skip c (fre s)"
    "hdr (merge_right h x s) = hdr s" "same_heap h s (merge_right h x s)"
    by (simp_all add: merge_right_def Let_def link_fields skip_def nx same_heap_def)
  note ab = absorb_step[OF l cx this]
  then show "\<exists>fs'. held X h (xs @ (n + 56 + k, False) # ys) fs' (merge_right h x s)" by blast
  note cf = ab(2)
  let ?Z = "zone h ?bs s"
  define t where "t = set_block_next x (next_of (blk s) c) (set_block_prev (next_of (blk s) c) x
    (upd_heap h (\<lambda>H. H\<lparr>available_size := ucast (ucast (available_size H) + RT_MEMHEAP_SIZE)\<rparr>) s))"
  have e: "merge_right h x s = free_unlink c t" by (simp add: merge_right_def t_def Let_def link_fields nx)
  have zz: "x \<in> ?Z" "next_of (blk s) c \<in> ?Z" using held_zone(1)[OF l] held_closed(2)[OF l] ch by auto
  have ot: "only h ?Z s t" unfolding t_def using zz by (intro only_set only_upd_available only_refl)
  have "next_of (fre s) c \<in> ?Z \<and> prev_of (fre s) c \<in> ?Z" using held_closed(1)[OF l] cf by simp
  then show "only h ?Z s (merge_right h x s)"
    unfolding e using ot by (auto simp: free_unlink_def Let_def link_fields t_def intro!: only_set)
  show "more_available h 56 s (merge_right h x s)" unfolding e by (simp add: more_available_def t_def)
qed

text \<open>
  Freeing a block: it joins the free block before it and the free block behind it, if they are free.
\<close>

definition joined_left :: "block list \<Rightarrow> nat \<Rightarrow> block list \<times> nat" where
  "joined_left xs n = (if frees_left xs then (butlast xs, fst (last xs) + 56 + n) else (xs, n))"

definition joined_right :: "nat \<Rightarrow> block list \<Rightarrow> nat \<times> block list" where
  "joined_right n ys = (if frees_right ys then (n + 56 + fst (hd ys), tl ys) else (n, ys))"

definition release :: "block list \<Rightarrow> nat \<Rightarrow> block list \<Rightarrow> block list" where
  "release xs n ys =
     (let (xs', m) = joined_left xs n; (k, ys') = joined_right m ys in xs' @ (k, False) # ys')"

lemma total_release: "total (release xs n ys) = total (xs @ (n, True) # ys)"
proof -
  have "total xs = total (butlast xs) + 56 + fst (last xs)" if "xs \<noteq> []"
    using that by (cases xs rule: rev_cases) auto
  moreover have "total ys = 56 + fst (hd ys) + total (tl ys)" if "ys \<noteq> []" using that by (cases ys) auto
  ultimately show ?thesis
    by (auto simp: release_def joined_left_def joined_right_def frees_left_def frees_right_def Let_def split: list.splits)
qed

lemma release_ok:
  assumes "sizes_ok (xs @ (n, True) # ys)" "coalesced (xs @ (n, True) # ys)"
  shows "sizes_ok (release xs n ys)" "coalesced (release xs n ys)" "free_bytes (xs @ (n, True) # ys) \<le> free_bytes (release xs n ys)"
proof -
  have L: "\<exists>zs m. xs = zs @ [(m, False)] \<and> \<not> frees_left zs" if f: "frees_left xs"
  proof -
    obtain zs b where b: "xs = zs @ [b]" using f unfolding frees_left_def by (cases xs rule: rev_cases) auto
    then have "coalesced (zs @ b # (n, True) # ys)" using assms(2) by simp
    then show ?thesis using b f by (cases b) (auto simp: coalesced_mid)
  qed
  have R: "\<exists>zs m. ys = (m, False) # zs \<and> \<not> frees_right zs" if "frees_right ys"
    using that assms(2) by (cases ys) (auto simp: coalesced_mid coalesced_Cons)
  have C: "coalesced xs" "coalesced ys" "sizes_ok xs" "sizes_ok ys" using assms by (simp_all add: coalesced_mid)
  have "sizes_ok (release xs n ys) \<and> coalesced (release xs n ys) \<and> free_bytes (xs @ (n, True) # ys) \<le> free_bytes (release xs n ys)"
    using assms L R C by (cases "frees_left xs"; cases "frees_right ys")
      (fastforce simp: release_def joined_left_def joined_right_def coalesced_mid coalesced_Cons)+
  then show "sizes_ok (release xs n ys)" "coalesced (release xs n ys)" "free_bytes (xs @ (n, True) # ys) \<le> free_bytes (release xs n ys)"
    by simp_all
qed

lemma free_mark_step:
  assumes i: "heap_inv h (xs @ (n, True) # ys) fs s" and x: "x = after (start_addr (memheaps s h)) xs"
    and s2: "s2 = upd_heap h (\<lambda>H. H\<lparr>available_size := ucast (ucast (available_size H) + MEMITEM_SIZE x s1)\<rparr>) s1"
      "s1 = upd_item x (\<lambda>i. i\<lparr>magic := RT_MEMHEAP_MAGIC\<rparr>) s"
  shows "held {x} h (xs @ (n, False) # ys) fs s2" "only h (zone h (xs @ (n, True) # ys) s) s s2"
    "unat (available_size (memheaps s2 h)) = free_bytes xs + n + free_bytes ys"
    "max_used_size (memheaps s2 h) = max_used_size (memheaps s h)" "memheaps s1 = memheaps s"
proof -
  note d = heap_invD[OF i]
  have m: "held (insert x {}) h (xs @ (n, False) # ys) fs s1" "only h (zone h (xs @ (n, True) # ys) s) s s1"
    using mark_step[OF d(1) x, of "\<lambda>i. i\<lparr>magic := RT_MEMHEAP_MAGIC\<rparr>" False] unfolding s2(2) by (simp_all add: mark_def)
  show "held {x} h (xs @ (n, False) # ys) fs s2" by (rule held_heap[OF m(1)]) (simp_all add: s2(1))
  show "only h (zone h (xs @ (n, True) # ys) s) s s2" unfolding s2(1) by (rule only_upd_available[OF m(2)])
  show hp: "memheaps s1 = memheaps s" by (simp add: s2(2))
  have "blk s1 = blk s" unfolding s2(2) by (rule upd_item_links) simp
  then have "MEMITEM_SIZE x s1 = MEMITEM_SIZE x s" by (simp add: MEMITEM_SIZE_def link_fields)
  then have sz: "unat (MEMITEM_SIZE x s1) = n" using inv_size(2)[OF i x] by simp
  have t: "total (xs @ (n, True) # ys) < 2 ^ 31" by (rule inv_total[OF i])
  have av: "unat (available_size (memheaps s h)) = free_bytes xs + free_bytes ys" using d(4) by (simp add: accounts_def)
  then show "unat (available_size (memheaps s2 h)) = free_bytes xs + n + free_bytes ys"
    using counter_add[of "available_size (memheaps s h)" "MEMITEM_SIZE x s1"] sz t free_le_total[of xs] free_le_total[of ys]
    by (simp add: s2(1) hp)
  show "max_used_size (memheaps s2 h) = max_used_size (memheaps s h)" by (simp add: s2)
qed

definition counters :: "u64 \<Rightarrow> nat \<Rightarrow> u32 \<Rightarrow> mem_sys \<Rightarrow> bool" where
  "counters h k mx s \<longleftrightarrow> unat (available_size (memheaps s h)) = k \<and> max_used_size (memheaps s h) = mx"

lemma counters_more:
  "counters h k mx s \<Longrightarrow> more_available h 56 s s' \<Longrightarrow> k + 56 < 2 ^ 32 \<Longrightarrow> counters h (k + 56) mx s'"
  using counter_add[of "available_size (memheaps s h)" 56] by (simp add: counters_def more_available_def)

lemma left_stage:
  assumes l: "held {x} h (xs @ (n, False) # ys) fs s" and x: "x = after (start_addr (memheaps s h)) xs"
    and c: "counters h (free_bytes xs + n + free_bytes ys) mx s" and t: "total (xs @ (n, False) # ys) < 2 ^ 31"
    and j: "joined_left xs n = (xs', m)"
  shows "\<exists>s'. (if \<not> RT_MEMHEAP_IS_USED (item_prev (items s x)) s then merge_left h x s else (x, s)) =
      (after (start_addr (memheaps s h)) xs', s') \<and>
    held (if frees_left xs then {} else {x}) h (xs' @ (m, False) # ys) fs s' \<and> only h (zone h (xs @ (n, False) # ys) s) s s' \<and>
    counters h (free_bytes xs' + m + free_bytes ys) mx s' \<and> total (xs' @ (m, False) # ys) = total (xs @ (n, False) # ys)"
proof (cases "frees_left xs")
  case False
  then have "xs' = xs" "m = n" using j by (simp_all add: joined_left_def)
  then show ?thesis using False left_used(1)[OF l x] l x c by auto
next
  case True
  define zs where "zs = butlast xs"
  define k where "k = fst (last xs)"
  have xs: "xs = zs @ [(k, False)]" using True unfolding zs_def k_def frees_left_def by (cases "last xs") (metis append_butlast_last_id snd_conv fst_conv)
  have jj: "xs' = zs" "m = k + 56 + n" using j True by (simp_all add: joined_left_def zs_def k_def)
  have l': "held {x} h (zs @ (k, False) # (n, False) # ys) fs s" using l xs by simp
  have x': "x = after (start_addr (memheaps s h)) zs + 56 + of_nat k" using x xs by simp
  note 1 = merge_left_step[OF l' x' singletonI]
  have "counters h (free_bytes xs + n + free_bytes ys + 56) mx (snd (merge_left h x s))"
    by (rule counters_more[OF c 1(4)]) (use t free_le_total[of xs] free_le_total[of ys] in simp)
  then have "counters h (free_bytes xs' + m + free_bytes ys) mx (snd (merge_left h x s))" using xs jj by (simp add: ac_simps)
  then show ?thesis using True left_used(1)[OF l x] 1(1-3) xs jj by (cases "merge_left h x s") simp
qed

lemma right_stage:
  assumes l: "held X h (xs @ (n, False) # ys) fs s" and x: "x = after (start_addr (memheaps s h)) xs"
    and X: "X \<subseteq> {x}" and c: "counters h (free_bytes xs + n + free_bytes ys) mx s" and t: "total (xs @ (n, False) # ys) < 2 ^ 31"
    and j: "joined_right n ys = (m, ys')"
  shows "\<exists>fs' s'. (if \<not> RT_MEMHEAP_IS_USED (item_next (items s x)) s then merge_right h x s else s) = s' \<and>
    held X h (xs @ (m, False) # ys') fs' s' \<and> only h (zone h (xs @ (n, False) # ys) s) s s' \<and>
    counters h (free_bytes xs + m + free_bytes ys') mx s' \<and> total (xs @ (m, False) # ys') = total (xs @ (n, False) # ys)"
proof (cases "frees_right ys")
  case False
  then have "ys' = ys" "m = n" using j by (simp_all add: joined_right_def)
  then show ?thesis using False right_used[OF l x] l c by auto
next
  case True
  then obtain k zs where ys: "ys = (k, False) # zs" by (cases ys) auto
  have jj: "ys' = zs" "m = n + 56 + k" using j True ys by (simp_all add: joined_right_def)
  have l': "held X h (xs @ (n, False) # (k, False) # zs) fs s" using l ys by simp
  have "x + 56 + of_nat n \<notin> X"
    using X held_neighbours(1)[OF l, of x] at_start(3)[OF held_layout[OF l]] block_next(1)[OF held_layout[OF l]] x by auto
  note 1 = merge_right_step[OF l' x this]
  have "counters h (free_bytes xs + n + free_bytes ys + 56) mx (merge_right h x s)"
    by (rule counters_more[OF c 1(3)]) (use t free_le_total[of xs] free_le_total[of ys] in simp)
  then have "counters h (free_bytes xs + m + free_bytes ys') mx (merge_right h x s)" using ys jj by (simp add: ac_simps)
  then show ?thesis using True right_used[OF l x] 1(1,2) ys jj by auto
qed

lemma accounts_release:
  assumes "accounts bs H0" "counters h (free_bytes bs') (max_used_size H0) s" "pool_size (memheaps s h) = pool_size H0"
    "total bs' = total bs" "free_bytes bs \<le> free_bytes bs'"
  shows "accounts bs' (memheaps s h)"
  using assms by (simp add: accounts_def counters_def)

lemma free_block_spec:
  assumes i: "heap_inv h (xs @ (n, True) # ys) fs s" and x: "x = after (start_addr (memheaps s h)) xs"
  shows "\<exists>fs'. heap_inv h (release xs n ys) fs' (free_block h x s)"
    "only h (zone h (xs @ (n, True) # ys) s) s (free_block h x s)"
proof -
  let ?bs = "xs @ (n, True) # ys" and ?a = "start_addr (memheaps s h)" and ?mx = "max_used_size (memheaps s h)"
  let ?Z = "zone h ?bs s"
  note d = heap_invD[OF i]
  define s1 where "s1 = upd_item x (\<lambda>i. i\<lparr>magic := RT_MEMHEAP_MAGIC\<rparr>) s"
  define s2 where "s2 = upd_heap h (\<lambda>H. H\<lparr>available_size := ucast (ucast (available_size H) + MEMITEM_SIZE x s1)\<rparr>) s1"
  note m = free_mark_step[OF i x s2_def s1_def]
  have t: "total (xs @ (n, False) # ys) < 2 ^ 31" using inv_total[OF i] by simp
  obtain xs' m where j: "joined_left xs n = (xs', m)" by fastforce
  obtain k ys' where r: "joined_right m ys = (k, ys')" by fastforce
  have rel: "release xs n ys = xs' @ (k, False) # ys'" by (simp add: release_def j r)
  have c2: "counters h (free_bytes xs + n + free_bytes ys) ?mx s2" using m(3,4) by (simp add: counters_def)
  have x2: "x = after (start_addr (memheaps s2 h)) xs" using only_heap[OF m(2)] x by simp
  obtain s3 where 3: "(if \<not> RT_MEMHEAP_IS_USED (item_prev (items s2 x)) s2 then merge_left h x s2 else (x, s2)) = (after ?a xs', s3)"
    "held (if frees_left xs then {} else {x}) h (xs' @ (m, False) # ys) fs s3" "only h (zone h (xs @ (n, False) # ys) s2) s2 s3"
    "counters h (free_bytes xs' + m + free_bytes ys) ?mx s3" "total (xs' @ (m, False) # ys) = total (xs @ (n, False) # ys)"
    using left_stage[OF m(1) x2 c2 t j] only_heap[OF m(2)] by auto
  have "zone h (xs @ (n, False) # ys) s2 = ?Z" by (rule zone_only[OF m(2)]) simp
  then have o3: "only h ?Z s s3" using only_trans[OF m(2)] 3(3) by simp
  define b where "b = after ?a xs'"
  have b3: "b = after (start_addr (memheaps s3 h)) xs'" using only_heap[OF o3] by (simp add: b_def)
  have bx: "\<not> frees_left xs \<Longrightarrow> b = x" using j x by (simp add: b_def joined_left_def)
  have X: "(if frees_left xs then {} else {x}) \<subseteq> {b}" using bx by auto
  obtain fs4 s4 where 4: "(if \<not> RT_MEMHEAP_IS_USED (item_next (items s3 b)) s3 then merge_right h b s3 else s3) = s4"
    "held (if frees_left xs then {} else {x}) h (xs' @ (k, False) # ys') fs4 s4" "only h (zone h (xs' @ (m, False) # ys) s3) s3 s4"
    "counters h (free_bytes xs' + k + free_bytes ys') ?mx s4" "total (xs' @ (k, False) # ys') = total (xs' @ (m, False) # ys)"
    using right_stage[OF 3(2) b3 X 3(4) _ r] t 3(5) by auto
  have "zone h (xs' @ (m, False) # ys) s3 = ?Z" by (rule zone_only[OF o3]) (use 3(5) in simp)
  then have o4: "only h ?Z s s4" using only_trans[OF o3] 4(3) by simp
  define s5 where "s5 = (if \<not> frees_left xs then free_insert h b s4 else s4)"
  have z4: "zone h (xs' @ (k, False) # ys') s4 = ?Z" by (rule zone_only[OF o4]) (use 4(5) 3(5) in simp)
  have 5: "\<exists>fs5. held {} h (xs' @ (k, False) # ys') fs5 s5" "only h ?Z s s5" "memheaps s5 = memheaps s4"
    using 4(2) free_insert_step[of "{x}" h "xs' @ (k, False) # ys'" fs4 s4 x] bx o4 only_trans[OF o4] z4
    by (auto simp: s5_def)
  let ?f = "\<lambda>i :: rt_memheap_item. i\<lparr>owner_thread_name := [32, 32, 32, 32]\<rparr>"
  have e: "free_block h x s = upd_item b ?f s5"
    unfolding free_block_def Let_def s1_def[symmetric] s2_def[symmetric] 3(1) prod.case b_def[symmetric] 4(1)
    by (simp only: left_used(1)[OF m(1) x2] s5_def not_not)
  obtain fs5 where h5: "held {} h (xs' @ (k, False) # ys') fs5 s5" using 5(1) by blast
  have "held {} h (xs' @ (k, False) # ys') fs5 (upd_item b ?f s5)"
    by (rule held_heap[OF h5]) (auto simp: upd_item_links hdr_upd_item same_heap_def link_fields fun_eq_iff)
  moreover have "b \<in> ?Z" using b3 z4 held_zone(1)[OF 4(2)] at_start(3)[OF held_layout[OF 4(2)]] only_heap[OF o4] by (simp add: b_def)
  then show o6: "only h ?Z s (free_block h x s)" unfolding e by (rule only_upd_item[OF 5(2)])
  moreover have "accounts (xs' @ (k, False) # ys') (memheaps (upd_item b ?f s5) h)"
  proof (rule accounts_release[OF d(4)])
    show "counters h (free_bytes (xs' @ (k, False) # ys')) ?mx (upd_item b ?f s5)" using 4(4) 5(3) by (simp add: counters_def ac_simps)
    show "pool_size (memheaps (upd_item b ?f s5) h) = pool_size (memheaps s h)" using only_heap[OF 5(2)] by simp
    show "total (xs' @ (k, False) # ys') = total ?bs" using 4(5) 3(5) by simp
    show "free_bytes ?bs \<le> free_bytes (xs' @ (k, False) # ys')" using release_ok(3)[OF d(2,3)] rel by simp
  qed
  moreover have "sizes_ok (xs' @ (k, False) # ys')" "coalesced (xs' @ (k, False) # ys')"
    using release_ok(1,2)[OF d(2,3)] rel by simp_all
  ultimately show "\<exists>fs'. heap_inv h (release xs n ys) fs' (free_block h x s)"
    using d(5,6) only_heap[OF o6] unfolding rel e heap_inv_def by auto
qed

section \<open>Growing and shrinking in place\<close>

lemma expand_step:
  assumes i: "heap_inv h (xs @ (n, True) # (m, False) # ys) fs s" and x: "x = after (start_addr (memheaps s h)) xs"
    and sz: "n < unat sz" "4 dvd unat sz" "unat sz + 12 < n + m" and o: "unat old = n"
  shows "\<exists>fs'. heap_inv h (xs @ (unat sz, True) # (n + m - unat sz, False) # ys) fs' (expand_block h x old sz s)"
    "only h (zone h (xs @ (n, True) # (m, False) # ys) s) s (expand_block h x old sz s)"
proof -
  let ?bs = "xs @ (n, True) # (m, False) # ys" and ?a = "start_addr (memheaps s h)"
  let ?bs' = "xs @ (unat sz, True) # (n + m - unat sz, False) # ys" and ?Z = "zone h ?bs s"
  note d = heap_invD[OF i]
  define c where "c = x + 56 + of_nat n"
  have nx: "next_of (blk s) x = c" "prev_of (blk s) c = x" using block_next[OF held_layout[OF d(1)]] x c_def by simp_all
  have ch: "c \<in> set (headers ?a ?bs)" using at_start(4)[OF held_layout[OF d(1)]] x c_def by simp
  define s0 where "s0 = upd_heap h (\<lambda>H. H\<lparr>available_size := ucast (ucast (available_size H) - (sz - old))\<rparr>) s"
  define s1 where "s1 = note_used h s0"
  have o1: "only h ?Z s s1" unfolding s1_def s0_def by (intro only_note_used only_upd_available only_refl)
  have h1: "held {} h ?bs fs s1"
    by (rule held_heap[OF d(1)]) (simp_all add: s1_def s0_def same_heap_def note_used_def Let_def)
  define s2 where "s2 = block_unlink c (free_unlink c s1)"
  have c1: "c = after (start_addr (memheaps s1 h)) xs + 56 + of_nat n" using only_heap[OF o1] x c_def by simp
  have l2: "blk s2 = skip c (blk s1)" "fre s2 = skip c (fre s1)" "hdr s2 = hdr s1" "same_heap h s1 s2"
    by (simp_all add: s2_def same_heap_def)
  note h2 = absorb_step[OF h1 c1 _ l2, simplified]
  note f2 = free_unlink_step(2)[OF h1 h2(2)]
  have z1: "zone h ?bs s1 = ?Z" by (rule zone_only[OF o1 refl])
  have "next_of (blk s1) c \<in> ?Z" "prev_of (blk s1) c \<in> ?Z"
    using held_closed(2)[OF h1, of c] ch only_heap[OF o1] z1 by auto
  then have o2: "only h ?Z s s2"
    using only_trans[OF o1] f2 z1 by (auto simp: s2_def block_unlink_def Let_def link_fields intro!: only_set)
  have n3: "n + 56 + m = unat sz + 56 + (n + m - unat sz)" using sz by simp
  have x2: "x = after (start_addr (memheaps s2 h)) xs" using only_heap[OF o2] x by simp
  define y where "y = x + 56 + sz"
  have y: "y = x + 56 + of_nat (unat sz)" by (simp add: y_def)
  note 3 = new_block_step[OF h2(1) n3 x2 y]
  note 4 = free_insert_step[OF 3(1) insertI1]
  have t: "total (xs @ (n + 56 + m, True) # ys) = total ?bs" "total ?bs' = total ?bs" using sz by simp_all
  have z2: "zone h (xs @ (n + 56 + m, True) # ys) s2 = ?Z" by (rule zone_only[OF o2 t(1)])
  then have o3: "only h ?Z s (new_block h x y s2)" using only_trans[OF o2] 3(2) by simp
  have z3: "zone h ?bs' (new_block h x y s2) = ?Z" by (rule zone_only[OF o3 t(2)])
  then have o4: "only h ?Z s (free_insert h y (new_block h x y s2))" using only_trans[OF o3] 4(2) by simp
  have e: "expand_block h x old sz s = free_insert h y (new_block h x y s2)"
    unfolding expand_block_def Let_def link_fields nx s0_def[symmetric] s1_def[symmetric] s2_def[symmetric] y_def ..
  show "only h ?Z s (expand_block h x old sz s)" unfolding e by (rule o4)
  have hp: "memheaps (free_insert h y (new_block h x y s2)) = memheaps s1" by (simp add: s2_def)
  have "unat (sz - old) = unat sz - n" using unat_sub[of old sz] sz(1) o by (simp add: word_le_nat_alt)
  moreover have "unat (available_size (memheaps s h)) = free_bytes xs + m + free_bytes ys" using d(4) by (simp add: accounts_def)
  ultimately have "unat (available_size (memheaps s0 h)) = free_bytes ?bs'"
    using counter_sub[of "sz - old" "available_size (memheaps s h)"] sz by (simp add: s0_def)
  then have "accounts ?bs' (memheaps s1 h)"
    unfolding s1_def by (intro accounts_note[OF d(4) t(2)]) (simp_all add: s0_def)
  moreover have "4 dvd n" "4 dvd m" "12 \<le> n" using d(2) by simp_all
  then have "sizes_ok ?bs'" using d(2) sz by (simp add: dvd_diff_nat)
  moreover have "coalesced ?bs'" using d(3) by (simp add: coalesced_mid coalesced_Cons)
  ultimately have "heap_inv h ?bs' (y # remove1 c fs) (expand_block h x old sz s)"
    using 4(1) d(5,6) only_heap[OF o4] unfolding e heap_inv_def hp by simp
  then show "\<exists>fs'. heap_inv h ?bs' fs' (expand_block h x old sz s)" by blast
qed

text \<open>What shrinking cuts off joins a free block behind it.\<close>

definition shrink_merge :: "u64 \<Rightarrow> u64 \<Rightarrow> mem_sys \<Rightarrow> mem_sys" where
  "shrink_merge h b s =
     (let f = item_next (items s b);
          t1 = upd_heap h (\<lambda>H. H\<lparr>available_size := ucast (ucast (available_size H) - MEMITEM_SIZE f s)\<rparr>) s;
          t2 = set_block_prev (item_next (items t1 f)) b t1;
          t3 = set_block_next b (item_next (items t2 f)) t2
      in free_unlink f t3)"

lemma shrink_merge_step:
  assumes l: "held X h (xs @ (n, False) # (k, False) # ys) fs s"
    and x: "x = after (start_addr (memheaps s h)) xs" and free: "x + 56 + of_nat n \<notin> X"
    and c: "counters h (k + r) mx s" and k: "k < 2 ^ 31"
  shows "\<exists>fs'. held X h (xs @ (n + 56 + k, False) # ys) fs' (shrink_merge h x s)"
    "only h (zone h (xs @ (n, False) # (k, False) # ys) s) s (shrink_merge h x s)"
    "counters h r mx (shrink_merge h x s)"
proof -
  let ?bs = "xs @ (n, False) # (k, False) # ys" and ?a = "start_addr (memheaps s h)"
  define f where "f = x + 56 + of_nat n"
  have nx: "next_of (blk s) x = f" "prev_of (blk s) f = x" using block_next[OF held_layout[OF l]] x f_def by simp_all
  have fh: "f \<in> set (headers ?a ?bs)" "x \<in> set (headers ?a ?bs)"
    using at_start(3,4)[OF held_layout[OF l]] x f_def by simp_all
  have fx: "f = after ?a xs + 56 + of_nat n" "f \<notin> X" using x f_def free by simp_all
  have l': "held X h ((xs @ [(n, False)]) @ (k, False) # ys) fs s" using l by simp
  have sz: "MEMITEM_SIZE f s = of_nat k" by (rule item_size(1)[OF l']) (simp add: fx)
  define t where "t = set_block_next x (next_of (blk s) f) (set_block_prev (next_of (blk s) f) x
    (upd_heap h (\<lambda>H. H\<lparr>available_size := ucast (ucast (available_size H) - (of_nat k :: u64))\<rparr>) s))"
  have e: "shrink_merge h x s = free_unlink f t" by (simp add: shrink_merge_def t_def Let_def link_fields nx sz)
  have "blk (shrink_merge h x s) = skip f (blk s)" "fre (shrink_merge h x s) = skip f (fre s)"
    "hdr (shrink_merge h x s) = hdr s" "same_heap h s (shrink_merge h x s)"
    by (simp_all add: e t_def skip_def nx same_heap_def)
  note ab = absorb_step[OF l fx this]
  then show "\<exists>fs'. held X h (xs @ (n + 56 + k, False) # ys) fs' (shrink_merge h x s)" by blast
  let ?Z = "zone h ?bs s"
  have zz: "x \<in> ?Z" "next_of (blk s) f \<in> ?Z" using held_zone(1)[OF l] held_closed(2)[OF l] fh by auto
  have ot: "only h ?Z s t" unfolding t_def using zz by (intro only_set only_upd_available only_refl)
  have "next_of (fre s) f \<in> ?Z \<and> prev_of (fre s) f \<in> ?Z" using held_closed(1)[OF l] ab(2) by simp
  then show "only h ?Z s (shrink_merge h x s)"
    unfolding e using ot by (auto simp: free_unlink_def Let_def link_fields t_def intro!: only_set)
  have "unat (of_nat k :: u64) = k" using k by (intro unat_of_nat_small) simp
  then show "counters h r mx (shrink_merge h x s)"
    using c counter_sub[of "of_nat k" "available_size (memheaps s h)"] unfolding e by (simp add: counters_def t_def)
qed

definition shrunk :: "nat \<Rightarrow> nat \<Rightarrow> block list \<Rightarrow> block list" where
  "shrunk n k ys = (let (m, ys') = joined_right (n - k - 56) ys in (k, True) # (m, False) # ys')"

lemma shrink_step:
  assumes i: "heap_inv h (xs @ (n, True) # ys) fs s" and x: "x = after (start_addr (memheaps s h)) xs"
    and sz: "12 \<le> unat sz" "4 dvd unat sz" "unat sz + 68 < n"
  shows "\<exists>fs'. heap_inv h (xs @ shrunk n (unat sz) ys) fs' (shrink_block h x sz s)"
    "only h (zone h (xs @ (n, True) # ys) s) s (shrink_block h x sz s)"
proof -
  let ?bs = "xs @ (n, True) # ys" and ?a = "start_addr (memheaps s h)" and ?Z = "zone h (xs @ (n, True) # ys) s"
  let ?mx = "max_used_size (memheaps s h)"
  note d = heap_invD[OF i]
  define k where "k = n - unat sz - 56"
  have nk: "n = unat sz + 56 + k" using sz by (simp add: k_def)
  define b where "b = x + sz + RT_MEMHEAP_SIZE"
  have b: "b = x + 56 + of_nat (unat sz)" by (simp add: b_def)
  define s1 where "s1 = new_block h x b s"
  note 1 = new_block_step[OF d(1) nk x b, folded s1_def]
  let ?us = "xs @ [(unat sz, True)]"
  have h1: "held {b} h (?us @ (k, False) # ys) fs s1" using 1(1) by simp
  have b1: "b = after (start_addr (memheaps s1 h)) ?us" using only_heap[OF 1(2)] x b by simp
  obtain m ys' where j: "joined_right k ys = (m, ys')" by fastforce
  have av: "unat (available_size (memheaps s h)) = free_bytes xs + free_bytes ys" using d(4) by (simp add: accounts_def)
  have tn: "total ?bs < 2 ^ 31" by (rule inv_total[OF i])
  define s2 where "s2 = (if \<not> RT_MEMHEAP_IS_USED (item_next (items s1 b)) s1 then shrink_merge h b s1 else s1)"
  have tot: "total (?us @ (k, False) # ys) = total ?bs" using nk by simp
  have z1: "zone h (?us @ (k, False) # ys) s1 = ?Z" by (rule zone_only[OF 1(2) tot])
  have "\<exists>fs2. held {b} h (?us @ (m, False) # ys') fs2 s2 \<and> only h ?Z s s2 \<and> counters h (free_bytes xs + free_bytes ys') ?mx s2 \<and>
    total (?us @ (m, False) # ys') = total ?bs"
  proof (cases "frees_right ys")
    case False
    then have "ys' = ys" "m = k" using j by (simp_all add: joined_right_def)
    moreover have "s2 = s1" using right_used[OF h1 b1] False by (simp add: s2_def)
    ultimately show ?thesis using h1 1(2) av tot by (auto simp: counters_def s1_def)
  next
    case True
    then obtain q zs where ys: "ys = (q, False) # zs" by (cases ys) auto
    have jj: "ys' = zs" "m = k + 56 + q" using j True ys by (simp_all add: joined_right_def)
    have l': "held {b} h (?us @ (k, False) # (q, False) # zs) fs s1" using h1 ys by simp
    have nb: "b + 56 + of_nat k \<notin> {b}"
      using held_neighbours(1)[OF h1, of b] at_start(3)[OF held_layout[OF h1]] block_next(1)[OF held_layout[OF h1]] b1 by auto
    have c1: "counters h (q + (free_bytes xs + free_bytes zs)) ?mx s1" using av ys by (simp add: counters_def s1_def)
    have "s2 = shrink_merge h b s1" using right_used[OF h1 b1] True by (simp add: s2_def)
    moreover have "q < 2 ^ 31" using tn ys by simp
    ultimately show ?thesis
      using shrink_merge_step[OF l' b1 nb c1] only_trans[OF 1(2)] z1 tot jj ys by auto
  qed
  then obtain fs2 where h2: "held {b} h (?us @ (m, False) # ys') fs2 s2" and o2: "only h ?Z s s2"
    and c2: "counters h (free_bytes xs + free_bytes ys') ?mx s2" and t2: "total (?us @ (m, False) # ys') = total ?bs" by blast
  note 3 = free_insert_step[OF h2 singletonI]
  have z2: "zone h (?us @ (m, False) # ys') s2 = ?Z" by (rule zone_only[OF o2 t2])
  define s3 where "s3 = free_insert h b s2"
  have o3: "only h ?Z s s3" using only_trans[OF o2] 3(2) z2 by (simp add: s3_def)
  have h3: "held {} h (?us @ (m, False) # ys') (b # fs2) s3" using 3(1) by (simp add: s3_def)
  define s4 where "s4 = upd_heap h (\<lambda>H. H\<lparr>available_size := ucast (ucast (available_size H) + MEMITEM_SIZE b s3)\<rparr>) s3"
  have e: "shrink_block h x sz s = s4"
    unfolding shrink_block_def Let_def b_def[symmetric] s1_def[symmetric] shrink_merge_def[unfolded Let_def, symmetric]
      s2_def[symmetric] s3_def[symmetric] s4_def ..
  have o4: "only h ?Z s s4" unfolding s4_def by (rule only_upd_available[OF o3])
  then show "only h ?Z s (shrink_block h x sz s)" unfolding e .
  have h4: "held {} h (?us @ (m, False) # ys') (b # fs2) s4" by (rule held_heap[OF h3]) (simp_all add: s4_def)
  have "b = after (start_addr (memheaps s3 h)) ?us" using only_heap[OF o3] x b by simp
  then have "MEMITEM_SIZE b s3 = of_nat m" by (rule item_size(1)[OF h3])
  moreover have "m < 2 ^ 31" using t2 tn by simp
  ultimately have "unat (MEMITEM_SIZE b s3) = m" by (simp add: unat_of_nat_small)
  moreover have "counters h (free_bytes xs + free_bytes ys') ?mx s3" using c2 by (simp add: s3_def counters_def)
  moreover have "free_bytes xs + free_bytes ys' + m < 2 ^ 32"
    using t2 tn free_le_total[of xs] free_le_total[of ys'] by simp
  ultimately have c4: "counters h (free_bytes (?us @ (m, False) # ys')) ?mx s4"
    using counter_add[of "available_size (memheaps s3 h)" "MEMITEM_SIZE b s3"] by (simp add: counters_def s4_def)
  have sh: "xs @ shrunk n (unat sz) ys = ?us @ (m, False) # ys'" using j by (simp add: shrunk_def k_def)
  have fb: "free_bytes ?bs \<le> free_bytes (?us @ (m, False) # ys')"
    using j by (auto simp: joined_right_def frees_right_def split: if_splits list.splits)
  have ac: "accounts (?us @ (m, False) # ys') (memheaps s4 h)"
    by (rule accounts_release[OF d(4) c4 _ t2 fb]) (use only_heap[OF o4] in simp)
  have "4 dvd n" "4 dvd k" "12 \<le> k" using d(2) sz by (simp_all add: k_def dvd_diff_nat)
  then have "sizes_ok (?us @ (m, False) # ys') \<and> coalesced (?us @ (m, False) # ys')"
  proof (cases "frees_right ys")
    case True
    then obtain q zs where "ys = (q, False) # zs" by (cases ys) auto
    then show ?thesis using d(2,3) sz j \<open>4 dvd k\<close> \<open>12 \<le> k\<close> by (auto simp: joined_right_def coalesced_mid coalesced_Cons)
  next
    case False
    then show ?thesis using d(2,3) sz j \<open>4 dvd k\<close> \<open>12 \<le> k\<close> by (auto simp: joined_right_def coalesced_mid coalesced_Cons)
  qed
  then have "heap_inv h (xs @ shrunk n (unat sz) ys) (b # fs2) (shrink_block h x sz s)"
    unfolding e sh heap_inv_def using h4 ac d(5,6) only_heap[OF o4] by simp
  then show "\<exists>fs'. heap_inv h (xs @ shrunk n (unat sz) ys) fs' (shrink_block h x sz s)" by blast
qed

end
