(* ===== verification/RT_MemHeap_Props.thy ===== *)
theory RT_MemHeap_Props
  imports RT_MemHeap_Ops
begin

text \<open>
  The memory heap as its clients see it: the regions handed out, what \<open>rt_malloc\<close>, \<open>rt_free\<close>,
  \<open>rt_realloc\<close> and \<open>rt_calloc\<close> do to them when no other thread holds a lock, over any number of heaps, and
  the consequences for every sequence of calls.
\<close>

section \<open>The lock\<close>

definition lock_free :: "u64 \<Rightarrow> mem_sys \<Rightarrow> bool" where
  "lock_free h s \<longleftrightarrow> sem_value (sems (kernel s) (heap_lock h)) = 1 \<and> queues (kernel s) (Suspended (Sem (heap_lock h))) = []"

lemma kernel_obs [simp]:
  "blk (s\<lparr>kernel := k\<rparr>) = blk s" "fre (s\<lparr>kernel := k\<rparr>) = fre s" "hdr (s\<lparr>kernel := k\<rparr>) = hdr s"
  "heap_inv h bs fs (s\<lparr>kernel := k\<rparr>) = heap_inv h bs fs s" "zone h bs (s\<lparr>kernel := k\<rparr>) = zone h bs s"
  by (simp_all add: blk_def fre_def hdr_def[abs_def] heap_inv_def held_def zone_def)

lemma bytes_obs [simp]:
  "blk (s\<lparr>bytes := k\<rparr>) = blk s" "fre (s\<lparr>bytes := k\<rparr>) = fre s" "hdr (s\<lparr>bytes := k\<rparr>) = hdr s"
  "heap_inv h bs fs (s\<lparr>bytes := k\<rparr>) = heap_inv h bs fs s" "zone h bs (s\<lparr>bytes := k\<rparr>) = zone h bs s"
  by (simp_all add: blk_def fre_def hdr_def[abs_def] heap_inv_def held_def zone_def)

definition lock_taken :: "u64 \<Rightarrow> mem_sys \<Rightarrow> mem_sys" where
  "lock_taken h s = s\<lparr>kernel := upd_sem (heap_lock h) 0 (kernel s)\<rparr>"

lemma lock_taken_obs [simp]:
  "heap_inv h bs fs (lock_taken k s) = heap_inv h bs fs s" "zone h bs (lock_taken k s) = zone h bs s"
  "memheaps (lock_taken h s) = memheaps s" "items (lock_taken h s) = items s" "blk (lock_taken k s) = blk s"
  "bytes (lock_taken h s) = bytes s" "MEMITEM_SIZE x (lock_taken h s) = MEMITEM_SIZE x s"
  by (simp_all add: lock_taken_def MEMITEM_SIZE_def)

lemma take_lock_free: "lock_free h s \<Longrightarrow> take_lock h s = Done 0 (lock_taken h s)"
  by (simp add: take_lock_def lock_free_def rt_sem_take_def lock_taken_def)

text \<open>Releasing restores the kernel's state.\<close>

lemma release_lock_free:
  assumes "lock_free h s" "kernel s' = kernel (lock_taken h s)"
  shows "release_lock h r s' = Done r (s'\<lparr>kernel := kernel s\<rparr>)"
proof -
  have "sems (kernel s) (heap_lock h) = \<lparr>sem_value = 1\<rparr>" using assms(1) by (simp add: lock_free_def)
  then have "upd_sem (heap_lock h) 1 (upd_sem (heap_lock h) 0 (kernel s)) = kernel s"
    by (simp add: upd_sem_def fun_upd_idem)
  then show ?thesis using assms by (simp add: release_lock_def rt_sem_release_def lock_taken_def lock_free_def)
qed

lemma only_kernel:
  assumes "only h P (lock_taken h s) s'"
  shows "only h P s (s'\<lparr>kernel := kernel s\<rparr>)" "kernel s' = kernel (lock_taken h s)"
  using assms by (auto simp: only_def rest_of_def same_heap_def lock_taken_def)

lemma same_kernel [simp]: "(lock_taken h s)\<lparr>kernel := kernel s\<rparr> = s"
  by (simp add: lock_taken_def)

section \<open>One heap\<close>

lemma unat_and_not3: "unat (w AND NOT 3 :: u64) = unat w - unat w mod 4"
proof -
  have "w AND NOT 3 = push_bit 2 (drop_bit 2 w)"
  proof (rule bit_word_eqI)
    fix n assume "n < LENGTH(64)"
    have "bit (3 :: u64) n \<longleftrightarrow> n < LENGTH(64) \<and> n < 2" using bit_mask_iff[of 2 n, where 'a = u64] by (simp add: mask_eq_exp_minus_1)
    then show "bit (w AND NOT 3) n = bit (push_bit 2 (drop_bit 2 w)) n"
      using \<open>n < LENGTH(64)\<close> by (cases "n < 2") (auto simp: bit_simps simp flip: add_2_eq_Suc)
  qed
  moreover have "unat w < 2 ^ 64" using unsigned_less[of w] by simp
  then have "unat w div 4 * 4 < 2 ^ 64" by simp
  ultimately have "unat (w AND NOT 3) = unat w div 4 * 4"
    by (simp add: unsigned_push_bit_eq unsigned_drop_bit_eq push_bit_eq_mult drop_bit_eq_div take_bit_nat_eq_self unat_word_ariths unat_div)
  then show ?thesis by (simp add: minus_mod_eq_div_mult)
qed

lemma align_down: "unat (RT_ALIGN_DOWN4 n) = unat n - unat n mod 4"
  unfolding RT_ALIGN_DOWN4_def by (rule unat_and_not3)

lemma align_up: "4 dvd unat (RT_ALIGN4 n)" "unat n \<le> 2 ^ 64 - 4 \<Longrightarrow> unat n \<le> unat (RT_ALIGN4 n) \<and> unat (RT_ALIGN4 n) \<le> unat n + 3"
proof -
  have e: "unat (RT_ALIGN4 n) = unat (n + 3) - unat (n + 3) mod 4"
    using unat_and_not3[of "n + 3"] by (simp add: RT_ALIGN4_def add.commute)
  then show "4 dvd unat (RT_ALIGN4 n)" by (simp add: minus_mod_eq_mult_div)
  assume "unat n \<le> 2 ^ 64 - 4"
  then have "unat (n + 3) = unat n + 3" by (simp add: unat_word_ariths)
  then show "unat n \<le> unat (RT_ALIGN4 n) \<and> unat (RT_ALIGN4 n) \<le> unat n + 3"
    using e mod_less_divisor[of 4 "unat n + 3"] by simp
qed

lemma request_dvd: "4 dvd unat (request_size n)" "12 \<le> unat (request_size n)"
  using align_up(1)[of n] by (auto simp: request_size_def word_less_nat_alt)

lemma request_covers: "unat n \<le> 2 ^ 64 - 4 \<Longrightarrow> unat n \<le> unat (request_size n)"
  using align_up(2)[of n] by (auto simp: request_size_def word_less_nat_alt)

lemma memheap_alloc_spec:
  assumes i: "heap_inv h bs fs s" and l: "lock_free h s" and m: "is_memheap h s"
    and k_def: "k = unat (request_size n)"
  shows "\<exists>p s'. rt_memheap_alloc h n s = Done p s' \<and>
    ((p = 0 \<and> s' = s \<and> (free_bytes bs \<le> k \<or> (\<forall>j. (j, False) \<in> set bs \<longrightarrow> j < k))) \<or>
     (\<exists>xs j ys fs'. bs = xs @ (j, False) # ys \<and> k \<le> j \<and> p = after (start_addr (memheaps s h)) xs + 56 \<and>
        heap_inv h (xs @ carve k j @ ys) fs' s' \<and> only h (zone h bs s) s s'))"
proof (cases "request_size n < ucast (available_size (memheaps s h))")
  case False
  moreover have "unat (available_size (memheaps s h)) = free_bytes bs" using heap_invD(4)[OF i] by (simp add: accounts_def)
  ultimately have "free_bytes bs \<le> k" by (simp add: word_less_nat_alt unat_ucast_up k_def)
  then show ?thesis using False m by (simp add: rt_memheap_alloc_def Let_def)
next
  case True
  obtain p s1 where a: "alloc_block h (request_size n) (lock_taken h s) = Some (p, s1)"
    and c: "(p = 0 \<and> s1 = lock_taken h s \<and> (\<forall>j. (j, False) \<in> set bs \<longrightarrow> j < k)) \<or>
     (\<exists>xs j ys fs'. bs = xs @ (j, False) # ys \<and> k \<le> j \<and> p = after (start_addr (memheaps s h)) xs + 56 \<and>
        heap_inv h (xs @ carve k j @ ys) fs' s1 \<and> only h (zone h bs s) (lock_taken h s) s1)"
    using alloc_block_spec[of h bs fs "lock_taken h s" "request_size n", unfolded lock_taken_obs, OF i request_dvd(2,1)]
    unfolding k_def by blast
  have k1: "kernel s1 = kernel (lock_taken h s)" using c only_kernel(2) by blast
  have r: "rt_memheap_alloc h n s = Done p (s1\<lparr>kernel := kernel s\<rparr>)"
    using m True a take_lock_free[OF l] release_lock_free[OF l k1] by (simp add: rt_memheap_alloc_def Let_def)
  show ?thesis
    using c
  proof
    assume "p = 0 \<and> s1 = lock_taken h s \<and> (\<forall>j. (j, False) \<in> set bs \<longrightarrow> j < k)"
    then show ?thesis using r by simp
  next
    assume "\<exists>xs j ys fs'. bs = xs @ (j, False) # ys \<and> k \<le> j \<and> p = after (start_addr (memheaps s h)) xs + 56 \<and>
        heap_inv h (xs @ carve k j @ ys) fs' s1 \<and> only h (zone h bs s) (lock_taken h s) s1"
    then show ?thesis using r only_kernel(1) by auto
  qed
qed

lemma block_ptr:
  assumes i: "heap_inv h (xs @ (n, u) # ys) fs s" and x: "x = after (start_addr (memheaps s h)) xs"
  shows "unat (x + 56) = unat (start_addr (memheaps s h)) + total xs + 56" "x + 56 \<noteq> 0" "4 dvd unat (x + 56)"
    "unat (x + 56) + n \<le> unat (start_addr (memheaps s h)) + total (xs @ (n, u) # ys)"
proof -
  note d = heap_invD[OF i] and l = layoutD(2)[OF held_layout[OF heap_invD(1)[OF i]]]
  have "unat x = unat (start_addr (memheaps s h)) + total xs" using block_addr(1)[OF held_layout[OF d(1)]] x by simp
  then show 1: "unat (x + 56) = unat (start_addr (memheaps s h)) + total xs + 56"
    using l unat_add56[of x 0] by simp
  then show "x + 56 \<noteq> 0" by auto
  have "4 dvd total bs" if "sizes_ok bs" for bs
    using that by (induction bs) (auto simp: dvd_add)
  then show "4 dvd unat (x + 56)" using 1 d(2,6) by (simp add: dvd_add)
  show "unat (x + 56) + n \<le> unat (start_addr (memheaps s h)) + total (xs @ (n, u) # ys)" using 1 by simp
qed

lemma guard_magic:
  assumes i: "heap_inv h (xs @ (n, u) # ys) fs s" and x: "x = after (start_addr (memheaps s h)) xs"
  shows "magic (items s (item_next (items s x))) AND RT_MEMHEAP_MASK = RT_MEMHEAP_MAGIC"
proof -
  note l = held_layout[OF heap_invD(1)[OF i]]
  have "item_next (items s x) = after (start_addr (memheaps s h)) (xs @ [(n, u)])"
    using item_size(2)[OF heap_invD(1)[OF i] x] x by simp
  moreover have "fst (hdr s (after (start_addr (memheaps s h)) (xs @ [(n, u)]))) \<in> {MEM_USED, RT_MEMHEAP_MAGIC}"
  proof (cases ys)
    case Nil
    then show ?thesis using layoutD(7)[OF l] by simp
  next
    case (Cons b zs)
    then have "layout {} h (start_addr (memheaps s h)) ((xs @ [(n, u)]) @ b # zs) fs (blk s) (fre s) (hdr s)" using l by simp
    from block_mark[OF this] show ?thesis by (simp add: mark_def)
  qed
  ultimately show ?thesis by (auto simp: link_fields)
qed

lemma memheap_free_spec:
  assumes i: "heap_inv h (xs @ (n, True) # ys) fs s" and l: "lock_free h s" and m: "is_memheap h s"
    and p: "p = after (start_addr (memheaps s h)) xs + 56"
  shows "\<exists>s' fs'. rt_memheap_free p s = Done () s' \<and> heap_inv h (release xs n ys) fs' s' \<and>
    only h (zone h (xs @ (n, True) # ys) s) s s'"
proof -
  let ?x = "after (start_addr (memheaps s h)) xs" and ?s1 = "lock_taken h s"
  have "hdr s ?x = (MEM_USED, h)"
    using block_mark[OF held_layout[OF heap_invD(1)[OF i]]] by (simp add: mark_def)
  then have hd: "magic (items s ?x) = MEM_USED" "pool_ptr (items s ?x) = h" by (simp_all add: link_fields)
  have i1: "heap_inv h (xs @ (n, True) # ys) fs ?s1" using i by simp
  have x1: "?x = after (start_addr (memheaps ?s1 h)) xs" by simp
  note f = free_block_spec[OF i1 x1]
  let ?s2 = "free_block h ?x ?s1"
  have o: "only h (zone h (xs @ (n, True) # ys) s) ?s1 ?s2" using f(2) by simp
  have "rt_memheap_free p s = Done () (?s2\<lparr>kernel := kernel s\<rparr>)"
    using block_ptr(2)[OF i refl] guard_magic[OF i refl] hd m p take_lock_free[OF l] release_lock_free[OF l only_kernel(2)[OF o]]
    by (simp add: rt_memheap_free_def Let_def)
  then show ?thesis using f(1) only_kernel(1)[OF o] by auto
qed

section \<open>Regions\<close>

text \<open>The payloads of the used blocks, by address and size.\<close>

fun regions :: "u64 \<Rightarrow> block list \<Rightarrow> (u64 \<times> nat) list" where
  "regions a [] = []"
| "regions a (b # bs) = (if snd b then [(a + 56, fst b)] else []) @ regions (a + 56 + of_nat (fst b)) bs"

lemma regions_append [simp]: "regions a (xs @ ys) = regions a xs @ regions (after a xs) ys"
  by (induction xs arbitrary: a) auto

lemma regions_split: "(p, n) \<in> set (regions a bs) \<Longrightarrow> \<exists>xs ys. bs = xs @ (n, True) # ys \<and> p = after a xs + 56"
proof (induction bs arbitrary: a)
  case (Cons b bs)
  show ?case
  proof (cases "snd b \<and> (p, n) = (a + 56, fst b)")
    case True
    then show ?thesis by (intro exI[of _ "[]"] exI[of _ bs]) (auto simp: prod_eq_iff)
  next
    case False
    then have "(p, n) \<in> set (regions (a + 56 + of_nat (fst b)) bs)" using Cons.prems by (auto split: if_splits)
    then obtain xs ys where "bs = xs @ (n, True) # ys" "p = after (a + 56 + of_nat (fst b)) xs + 56" using Cons.IH by blast
    then show ?thesis by (intro exI[of _ "b # xs"] exI[of _ ys]) simp
  qed
qed simp

lemma regions_carve: "\<exists>j'. k \<le> j \<longrightarrow> k \<le> j' \<and> regions a (carve k j @ ys) = (a + 56, j') # regions (a + 56 + of_nat j) ys"
proof (cases "k + 68 \<le> j")
  case True
  then have "j = k + 56 + (j - k - 56)" by simp
  then have "(of_nat j :: u64) = of_nat (k + 56 + (j - k - 56))" by simp
  then have "a + 56 + of_nat k + 56 + of_nat (j - k - 56) = a + 56 + of_nat j" by (simp only: of_nat_add) simp
  then show ?thesis using True by (intro exI[of _ k]) (simp only: carve_def if_True append_Cons append_Nil regions.simps fst_conv snd_conv
      if_False order_refl simp_thms)
qed (auto simp: carve_def intro: exI[of _ j])

lemma regions_joined_right:
  "joined_right n ys = (m, zs) \<Longrightarrow> regions (a + of_nat m) zs = regions (a + of_nat n) ys"
  by (cases ys) (auto simp: joined_right_def frees_right_def ac_simps split: if_splits)

lemma regions_release: "regions a (release xs n ys) = regions a xs @ regions (after a xs + 56 + of_nat n) ys"
proof -
  obtain xs' m where j: "joined_left xs n = (xs', m)" by fastforce
  obtain k zs where r: "joined_right m ys = (k, zs)" by fastforce
  have 1: "regions a xs' = regions a xs \<and> after a xs' + 56 + of_nat m = after a xs + 56 + of_nat n"
  proof (cases "frees_left xs")
    case True
    then obtain us q where "xs = us @ [(q, False)]"
      unfolding frees_left_def by (cases xs rule: rev_cases) (auto simp: prod_eq_iff)
    then show ?thesis using j by (auto simp: joined_left_def ac_simps)
  qed (use j in \<open>auto simp: joined_left_def\<close>)
  have "regions a (release xs n ys) = regions a xs' @ regions (after a xs' + 56 + of_nat k) zs" by (simp add: release_def j r)
  then show ?thesis using 1 regions_joined_right[OF r, of "after a xs' + 56"] by simp
qed

text \<open>Freeing what was just allocated restores the blocks.\<close>

lemma release_carve:
  assumes "coalesced (xs @ (j, False) # ys)" "k \<le> j"
  shows "carve k j = (j', True) # zs \<Longrightarrow> release xs j' (zs @ ys) = xs @ (j, False) # ys"
  using assms by (auto simp: carve_def coalesced_mid release_def joined_left_def joined_right_def split: if_splits)

section \<open>Reallocating in one heap\<close>

lemma realloc_expand:
  assumes i: "heap_inv h (xs @ (n, True) # ys) fs s" and x: "x = after (start_addr (memheaps s h)) xs"
    and k: "n < unat k" "unat k < 2 ^ 64 - 12"
  shows "can_expand x (of_nat n) k s \<longleftrightarrow> (\<exists>m zs. ys = (m, False) # zs \<and> unat k + 12 < n + m)"
proof (cases "frees_right ys")
  case False
  then have "\<not> can_expand x (of_nat n) k s"
    using right_used[OF heap_invD(1)[OF i] x] by (simp add: can_expand_def Let_def)
  then show ?thesis using False by (auto simp: frees_right_def)
next
  case True
  then obtain m zs where ys: "ys = (m, False) # zs" by (cases ys) auto
  define b where "b = item_next (items s x)"
  have i': "heap_inv h ((xs @ [(n, True)]) @ (m, False) # zs) fs s" using i ys by simp
  have b: "b = after (start_addr (memheaps s h)) (xs @ [(n, True)])"
    using item_size(2)[OF heap_invD(1)[OF i] x] x b_def by simp
  note sz = inv_size(1,3)[OF i' b]
  have n: "n < 2 ^ 31" by (rule inv_size(3)[OF i x])
  have "sint (of_nat m :: u32) = int m"
    using sz(2) by (simp add: signed_of_nat signed_take_bit_int_eq_self)
  then have "(scast (ucast (of_nat m :: u64) :: u32) :: u64) = of_nat m"
    using sz(2) by (simp add: scast_eq)
  then have "can_expand x (of_nat n) k s \<longleftrightarrow> of_nat m + of_nat n > k + 12"
    using True right_used[OF heap_invD(1)[OF i] x] sz(1) b_def by (simp add: can_expand_def Let_def)
  also have "\<dots> \<longleftrightarrow> unat k + 12 < n + m"
  proof -
    have "unat (k + 12) = unat k + 12" using k(2) by (simp add: unat_word_ariths)
    moreover have "of_nat m + of_nat n = (of_nat (n + m) :: u64)" by simp
    moreover have "unat (of_nat (n + m) :: u64) = n + m" by (rule unat_of_nat_small) (use n sz(2) in simp)
    ultimately show ?thesis by (simp only: word_less_nat_alt)
  qed
  finally show ?thesis using ys by simp
qed

lemma request_bound: "unat r \<le> 2 ^ 64 - 16 \<Longrightarrow> unat (request_size r) < 2 ^ 64 - 12"
  using align_up(2)[of r] by (auto simp: request_size_def)

lemma of_nat_le_request: "n < 2 ^ 31 \<Longrightarrow> k > (of_nat n :: u64) \<longleftrightarrow> n < unat k"
  by (simp add: word_less_nat_alt unat_of_nat_small)

text \<open>In place the block keeps its address and the regions behind it stay; otherwise the block moves.\<close>

lemma memheap_realloc_spec:
  assumes i: "heap_inv h (xs @ (n, True) # ys) fs s" and l: "lock_free h s" and m: "is_memheap h s"
    and p: "p = after (start_addr (memheaps s h)) xs + 56" and r: "r \<noteq> 0" "unat r \<le> 2 ^ 64 - 16"
  shows "(\<exists>s' fs' n' zs. rt_memheap_realloc h p r s = Done p s' \<and> unat (request_size r) \<le> n' \<and>
      heap_inv h (xs @ (n', True) # zs) fs' s' \<and> regions (p + of_nat n') zs = regions (p + of_nat n) ys \<and>
      only h (zone h (xs @ (n, True) # ys) s) s s') \<or>
    n < unat (request_size r) \<and> rt_memheap_realloc h p r s = realloc_move h p (of_nat n) (request_size r) s"
proof -
  define x where "x = after (start_addr (memheaps s h)) xs"
  define k where "k = request_size r"
  let ?s1 = "lock_taken h s"
  have px: "p - 56 = x" "p \<noteq> 0" "p = x + 56" using p block_ptr(2)[OF i refl] by (simp_all add: x_def)
  note sz = inv_size[OF i x_def]
  have i1: "heap_inv h (xs @ (n, True) # ys) fs ?s1" and x1: "x = after (start_addr (memheaps ?s1 h)) xs"
    using i by (simp_all add: x_def)
  note tl = take_lock_free[OF l]
  have body: "rt_memheap_realloc h p r s =
     (if k > of_nat n
      then bind_run (take_lock h s) (\<lambda>e s1.
             if e \<noteq> 0 then Done 0 (rt_set_errno e s1)
             else if \<not> item_next (items s1 x) > x then Fail
             else if can_expand x (of_nat n) k s1
             then release_lock h p (expand_block h x (of_nat n) k s1)
             else bind_run (release_lock h () s1) (\<lambda>_ s2. realloc_move h p (of_nat n) k s2))
      else if k + RT_MEMHEAP_SIZE + RT_MEMHEAP_MINIALLOC \<ge> of_nat n then Done p s
      else bind_run (take_lock h s) (\<lambda>e s1.
             if e \<noteq> 0 then Done 0 (rt_set_errno e s1)
             else release_lock h p (shrink_block h x k s1)))"
    unfolding rt_memheap_realloc_def k_def[symmetric] Let_def px(1) sz(1) using m r(1) px(2) by (simp only: if_False not_not simp_thms)
  show ?thesis
  proof (cases "n < unat k")
    case True
    have "unat (x + 56 + of_nat n) = unat x + 56 + n"
      using block_addr[OF held_layout[OF heap_invD(1)[OF i]]] x_def by simp
    then have nx: "item_next (items ?s1 x) > x"
      using item_size(2)[OF heap_invD(1)[OF i1] x1] by (simp add: word_less_nat_alt)
    have e: "can_expand x (of_nat n) k ?s1 \<longleftrightarrow> (\<exists>m zs. ys = (m, False) # zs \<and> unat k + 12 < n + m)"
      by (rule realloc_expand[OF i1 x1 True]) (use request_bound[OF r(2)] in \<open>simp add: k_def\<close>)
    show ?thesis
    proof (cases "can_expand x (of_nat n) k ?s1")
      case False
      have "release_lock h () ?s1 = Done () s" using release_lock_free[OF l refl] by simp
      then have "rt_memheap_realloc h p r s = realloc_move h p (of_nat n) k s"
        using True False nx of_nat_le_request[OF sz(3)] by (simp add: body tl)
      then show ?thesis using True by (simp add: k_def)
    next
      case c: True
      then obtain q zs where ys: "ys = (q, False) # zs" "unat k + 12 < n + q" using e by blast
      have i2: "heap_inv h (xs @ (n, True) # (q, False) # zs) fs ?s1" using i1 ys(1) by simp
      have "4 dvd unat k" using request_dvd by (simp add: k_def)
      note ex = expand_step[OF i2 x1 True this ys(2), of "of_nat n"]
      have on: "unat (of_nat n :: u64) = n" using sz(3) by (intro unat_of_nat_small) simp
      let ?t = "expand_block h x (of_nat n) k ?s1"
      have o: "only h (zone h (xs @ (n, True) # ys) s) ?s1 ?t" using ex(2)[OF on] ys(1) by simp
      have "rt_memheap_realloc h p r s = Done p (?t\<lparr>kernel := kernel s\<rparr>)"
        using True c nx of_nat_le_request[OF sz(3)] release_lock_free[OF l only_kernel(2)[OF o]] by (simp add: body tl)
      moreover have "regions (p + of_nat (unat k)) ((n + q - unat k, False) # zs) = regions (p + of_nat n) ys"
      proof -
        have "(of_nat (unat k) :: u64) + of_nat (n + q - unat k) = of_nat (unat k + (n + q - unat k))" by (rule of_nat_add[symmetric])
        also have "unat k + (n + q - unat k) = n + q" using ys(2) by simp
        finally have eq: "k + of_nat (n + q - unat k) = of_nat n + of_nat q" by simp
        have "p + k + 56 + of_nat (n + q - unat k) = p + 56 + (k + of_nat (n + q - unat k))" by (simp only: ac_simps)
        also have "\<dots> = p + of_nat n + 56 + of_nat q" unfolding eq by (simp only: ac_simps)
        finally have "p + k + 56 + of_nat (n + q - unat k) = p + of_nat n + 56 + of_nat q" .
        then show ?thesis by (simp only: ys(1) regions.simps fst_conv snd_conv if_False append_Nil ucast_id of_nat_unat)
      qed
      ultimately show ?thesis using ex(1)[OF on] only_kernel(1)[OF o] unfolding k_def[symmetric] by fastforce
    qed
  next
    case False
    have le: "k + RT_MEMHEAP_SIZE + RT_MEMHEAP_MINIALLOC \<ge> of_nat n \<longleftrightarrow> n \<le> unat k + 68"
    proof -
      have "unat (k + RT_MEMHEAP_SIZE + RT_MEMHEAP_MINIALLOC) = unat k + 68" using False sz(3) by (simp add: unat_word_ariths)
      moreover have "unat (of_nat n :: u64) = n" using sz(3) by (intro unat_of_nat_small) simp
      ultimately show ?thesis by (simp only: word_le_nat_alt)
    qed
    show ?thesis
    proof (cases "n \<le> unat k + 68")
      case True
      then have "rt_memheap_realloc h p r s = Done p s" using le False of_nat_le_request[OF sz(3)] by (simp add: body)
      then show ?thesis using i False by (intro disjI1 exI[of _ s] exI[of _ fs] exI[of _ n] exI[of _ ys]) (simp add: k_def)
    next
      case c: False
      have k12: "12 \<le> unat k" "4 dvd unat k" using request_dvd by (simp_all add: k_def)
      have lt: "unat k + 68 < n" using c by simp
      note sh = shrink_step[OF i1 x1 k12 lt]
      let ?t = "shrink_block h x k ?s1"
      have o: "only h (zone h (xs @ (n, True) # ys) s) ?s1 ?t" using sh(2) by simp
      have e: "rt_memheap_realloc h p r s = Done p (?t\<lparr>kernel := kernel s\<rparr>)"
        using False c le of_nat_le_request[OF sz(3)] release_lock_free[OF l only_kernel(2)[OF o]] by (simp add: body tl)
      obtain j zs where j: "joined_right (n - unat k - 56) ys = (j, zs)" by fastforce
      have shr: "shrunk n (unat k) ys = (unat k, True) # (j, False) # zs" unfolding shrunk_def j by simp
      have "regions (p + k + 56 + of_nat j) zs = regions (p + k + 56 + of_nat (n - unat k - 56)) ys"
        by (rule regions_joined_right[OF j])
      also have "p + k + 56 + of_nat (n - unat k - 56) = p + of_nat n"
      proof -
        have "n = unat k + 56 + (n - unat k - 56)" using c by simp
        then have "(of_nat n :: u64) = of_nat (unat k + 56 + (n - unat k - 56))" by simp
        then show ?thesis by (simp only: of_nat_add) simp
      qed
      finally have "regions (p + of_nat (unat k)) ((j, False) # zs) = regions (p + of_nat n) ys" by simp
      moreover obtain fs' where "heap_inv h (xs @ (unat k, True) # (j, False) # zs) fs' ?t" using sh(1) unfolding shr by blast
      ultimately show ?thesis using e only_kernel(1)[OF o] unfolding k_def[symmetric] by fastforce
    qed
  qed
qed

end
