(* ===== verification/RT_Malloc.thy ===== *)
theory RT_Malloc
  imports RT_MemHeap_Props
begin

text \<open>
  The system heap: several memory heaps (\<open>src/driver/board.c\<close> makes two), searched in turn by \<open>rt_malloc\<close>.
  The regions the clients hold are the abstraction; the theorems say what each call does to them, for any
  layout of the heaps and any sequence of calls.
\<close>

section \<open>All heaps together\<close>

definition hzone :: "u64 \<Rightarrow> mem_sys \<Rightarrow> u64 set" where
  "hzone h s = insert (free_header h)
     {x. unat (start_addr (memheaps s h)) \<le> unat x \<and>
         unat x + 56 \<le> unat (start_addr (memheaps s h)) + unat (pool_size (memheaps s h))}"

definition heaps_ok :: "(u64 \<Rightarrow> block list) \<Rightarrow> mem_sys \<Rightarrow> bool" where
  "heaps_ok Bs s \<longleftrightarrow> distinct (memheap_list s) \<and> system_heap s \<in> set (memheap_list s) \<and>
     (\<forall>h\<in>set (memheap_list s). h \<noteq> 0 \<and> lock_free h s \<and> (\<exists>fs. heap_inv h (Bs h) fs s)) \<and>
     (\<forall>h\<in>set (memheap_list s). \<forall>k\<in>set (memheap_list s). h \<noteq> k \<longrightarrow> hzone h s \<inter> hzone k s = {})"

definition live :: "(u64 \<Rightarrow> block list) \<Rightarrow> mem_sys \<Rightarrow> (u64 \<times> nat) set" where
  "live Bs s = (\<Union>h\<in>set (memheap_list s). set (regions (start_addr (memheaps s h)) (Bs h)))"

lemma zone_hzone: "heap_inv h bs fs s \<Longrightarrow> zone h bs s = hzone h s"
  using heap_invD(4)[of h bs fs s] by (auto simp: zone_def hzone_def accounts_def)

lemma heap_inv_frame:
  assumes i: "heap_inv h bs fs s" and m: "memheaps s' h = memheaps s h"
    and y: "\<And>x. x \<in> insert (free_header h) (set (headers (start_addr (memheaps s h)) bs)) \<Longrightarrow> items s' x = items s x"
  shows "heap_inv h bs fs s'"
proof -
  note d = heap_invD[OF i]
  have fs: "set fs \<subseteq> set (headers (start_addr (memheaps s h)) bs)"
    using layoutD(8)[OF held_layout[OF d(1)]] frees_starts[of "start_addr (memheaps s h)" bs] by (auto simp: headers_def)
  have "layout {} h (start_addr (memheaps s h)) bs fs (blk s') (fre s') (hdr s')"
    by (rule layout_frame[OF held_layout[OF d(1)]]) (use y fs in \<open>auto simp: blk_def fre_def hdr_def\<close>)
  then show ?thesis using i m by (simp add: heap_inv_def held_def)
qed

lemma headers_hzone: "heap_inv h bs fs s \<Longrightarrow> x \<in> insert (free_header h) (set (headers (start_addr (memheaps s h)) bs)) \<Longrightarrow> x \<in> hzone h s"
  using held_zone(1,4)[OF heap_invD(1)] zone_hzone by blast

text \<open>A step of one heap leaves the others as they are.\<close>

lemma heaps_ok_step:
  assumes ok: "heaps_ok Bs s" and h: "h \<in> set (memheap_list s)" and i: "heap_inv h bs fs s'" and o: "only h (hzone h s) s s'"
  shows "heaps_ok (Bs(h := bs)) s'" "k \<noteq> h \<Longrightarrow> start_addr (memheaps s' k) = start_addr (memheaps s k)"
    "start_addr (memheaps s' h) = start_addr (memheaps s h)" "memheap_list s' = memheap_list s"
proof -
  have r: "memheap_list s' = memheap_list s" "system_heap s' = system_heap s" "kernel s' = kernel s"
    using o by (simp_all add: only_def rest_of_def)
  have hp: "memheaps s' k = memheaps s k" if "k \<noteq> h" for k using o that by (simp add: only_def)
  have sh: "same_heap h s s'" using o by (simp add: only_def)
  have hz: "hzone k s' = hzone k s" for k using hp[of k] sh by (cases "k = h") (simp_all add: hzone_def same_heap_def)
  have "\<exists>fs. heap_inv k (Bs k) fs s'" if k: "k \<in> set (memheap_list s)" "k \<noteq> h" for k
  proof -
    obtain fs where fs: "heap_inv k (Bs k) fs s" using ok k by (auto simp: heaps_ok_def)
    have disj: "hzone k s \<inter> hzone h s = {}" using ok k h unfolding heaps_ok_def by blast
    have "items s' x = items s x" if "x \<in> insert (free_header k) (set (headers (start_addr (memheaps s k)) (Bs k)))" for x
      using headers_hzone[OF fs that] disj o unfolding only_def by blast
    then have "heap_inv k (Bs k) fs s'" by (intro heap_inv_frame[OF fs hp[OF k(2)]]) blast
    then show ?thesis by blast
  qed
  then show "heaps_ok (Bs(h := bs)) s'"
    using ok i by (auto simp: heaps_ok_def r hz lock_free_def)
  show "memheap_list s' = memheap_list s" by (rule r)
  show "k \<noteq> h \<Longrightarrow> start_addr (memheaps s' k) = start_addr (memheaps s k)" using hp by simp
  show "start_addr (memheaps s' h) = start_addr (memheaps s h)" using sh by (simp add: same_heap_def)
qed

lemma live_step:
  assumes "memheap_list s' = memheap_list s" "h \<in> set (memheap_list s)"
    "\<And>k. start_addr (memheaps s' k) = start_addr (memheaps s k)"
  shows "live (Bs(h := bs)) s' = set (regions (start_addr (memheaps s h)) bs) \<union>
    (\<Union>k\<in>set (memheap_list s) - {h}. set (regions (start_addr (memheaps s k)) (Bs k)))"
  using assms by (auto simp: live_def split: if_splits)

lemma live_split:
  assumes "h \<in> set (memheap_list s)"
  shows "live Bs s = set (regions (start_addr (memheaps s h)) (Bs h)) \<union>
    (\<Union>k\<in>set (memheap_list s) - {h}. set (regions (start_addr (memheaps s k)) (Bs k)))"
  using assms by (auto simp: live_def)

section \<open>Regions do not overlap\<close>

lemma regions_range:
  "unat a + total bs < 2 ^ 64 \<Longrightarrow> (p, n) \<in> set (regions a bs) \<Longrightarrow> unat a + 56 \<le> unat p \<and> unat p + n \<le> unat a + total bs"
proof (induction bs arbitrary: a)
  case (Cons b bs)
  have e: "unat (a + 56 + of_nat (fst b)) = unat a + 56 + fst b" by (rule unat_add56) (use Cons.prems in simp)
  have e0: "unat (a + 56) = unat a + 56" using unat_add56[of a 0] Cons.prems(1) by simp
  from Cons.prems(2) consider "p = a + 56" "n = fst b" | "(p, n) \<in> set (regions (a + 56 + of_nat (fst b)) bs)"
    by (auto split: if_splits)
  then show ?case using Cons.IH[of "a + 56 + of_nat (fst b)"] e e0 Cons.prems(1) by cases auto
qed simp

definition apart_regions :: "u64 \<times> nat \<Rightarrow> u64 \<times> nat \<Rightarrow> bool" where
  "apart_regions r q \<longleftrightarrow> unat (fst r) + snd r \<le> unat (fst q) \<or> unat (fst q) + snd q \<le> unat (fst r)"

lemma regions_apart:
  "unat a + total bs < 2 ^ 64 \<Longrightarrow> r \<in> set (regions a bs) \<Longrightarrow> q \<in> set (regions a bs) \<Longrightarrow> r \<noteq> q \<Longrightarrow> apart_regions r q"
proof (induction bs arbitrary: a)
  case (Cons b bs)
  let ?a = "a + 56 + of_nat (fst b)"
  have e: "unat ?a = unat a + 56 + fst b" by (rule unat_add56) (use Cons.prems in simp)
  have e0: "unat (a + 56) = unat a + 56" using unat_add56[of a 0] Cons.prems(1) by simp
  have rest: "unat a + 112 + fst b \<le> unat (fst x)" if "x \<in> set (regions ?a bs)" for x
    using regions_range[of ?a bs "fst x" "snd x"] that e Cons.prems(1) by auto
  have "r \<in> set (regions ?a bs) \<or> r = (a + 56, fst b)" "q \<in> set (regions ?a bs) \<or> q = (a + 56, fst b)"
    using Cons.prems(2,3) by (auto split: if_splits)
  then show ?case
    using Cons.IH[of ?a] Cons.prems(1,4) e rest[of r] rest[of q] e0 by (auto simp: apart_regions_def)
qed simp

lemma regions_distinct: "unat a + total bs < 2 ^ 64 \<Longrightarrow> distinct (regions a bs)"
proof (induction bs arbitrary: a)
  case (Cons b bs)
  have e: "unat (a + 56 + of_nat (fst b)) = unat a + 56 + fst b" by (rule unat_add56) (use Cons.prems in simp)
  have e0: "unat (a + 56) = unat a + 56" using unat_add56[of a 0] Cons.prems by simp
  have "(a + 56, fst b) \<notin> set (regions (a + 56 + of_nat (fst b)) bs)"
    using regions_range[of "a + 56 + of_nat (fst b)" bs "a + 56" "fst b"] e e0 Cons.prems by auto
  then show ?case using Cons e by simp
qed simp

lemma heap_regions:
  assumes "heap_inv h bs fs s" "(p, n) \<in> set (regions (start_addr (memheaps s h)) bs)"
  shows "unat (start_addr (memheaps s h)) + 56 \<le> unat p" "12 \<le> n"
    "unat p + n + 56 \<le> unat (start_addr (memheaps s h)) + unat (pool_size (memheaps s h))" "4 dvd unat p" "p \<noteq> 0"
proof -
  obtain xs ys where b: "bs = xs @ (n, True) # ys" "p = after (start_addr (memheaps s h)) xs + 56"
    using regions_split[OF assms(2)] by blast
  note i = assms(1)[unfolded b(1)]
  show "unat (start_addr (memheaps s h)) + 56 \<le> unat p" "4 dvd unat p" "p \<noteq> 0" using block_ptr(1,2,3)[OF i refl] b(2) by simp_all
  show "12 \<le> n" by (rule inv_size(4)[OF i refl])
  show "unat p + n + 56 \<le> unat (start_addr (memheaps s h)) + unat (pool_size (memheaps s h))"
    using block_ptr(4)[OF i refl] heap_invD(4)[OF i] b(2) by (simp add: accounts_def)
qed

lemma live_heap:
  assumes "heaps_ok Bs s" "(p, n) \<in> live Bs s"
  shows "\<exists>h fs. h \<in> set (memheap_list s) \<and> heap_inv h (Bs h) fs s \<and> lock_free h s \<and> is_memheap h s \<and>
    (p, n) \<in> set (regions (start_addr (memheaps s h)) (Bs h))"
proof -
  obtain h where h: "h \<in> set (memheap_list s)" "(p, n) \<in> set (regions (start_addr (memheaps s h)) (Bs h))"
    using assms(2) unfolding live_def by blast
  moreover have "h \<noteq> 0" "lock_free h s" "\<exists>fs. heap_inv h (Bs h) fs s" using assms(1) h(1) unfolding heaps_ok_def by blast+
  ultimately show ?thesis unfolding is_memheap_def by blast
qed

lemma live_apart:
  assumes ok: "heaps_ok Bs s" and r: "r \<in> live Bs s" "q \<in> live Bs s" "r \<noteq> q"
  shows "apart_regions r q"
proof -
  obtain p n where pn: "r = (p, n)" by (cases r)
  obtain u m where um: "q = (u, m)" by (cases q)
  obtain h fs where h: "h \<in> set (memheap_list s)" "heap_inv h (Bs h) fs s"
    "(p, n) \<in> set (regions (start_addr (memheaps s h)) (Bs h))" using live_heap[OF ok r(1)[unfolded pn]] by blast
  obtain k gs where k: "k \<in> set (memheap_list s)" "heap_inv k (Bs k) gs s"
    "(u, m) \<in> set (regions (start_addr (memheaps s k)) (Bs k))" using live_heap[OF ok r(2)[unfolded um]] by blast
  show ?thesis
  proof (cases "h = k")
    case True
    show ?thesis
      by (rule regions_apart[of "start_addr (memheaps s h)" "Bs h"])
        (use layoutD(2)[OF held_layout[OF heap_invD(1)[OF h(2)]]] h(3) k(3) True pn um r(3) in simp_all)
  next
    case False
    then have d: "hzone h s \<inter> hzone k s = {}" using ok h(1) k(1) unfolding heaps_ok_def by blast
    note hr = heap_regions[OF h(2,3)] and kr = heap_regions[OF k(2,3)]
    have in_h: "x \<in> hzone h s" if "unat p \<le> unat x" "unat x < unat p + n" for x
      using hr(1,3) that by (simp add: hzone_def)
    have in_k: "x \<in> hzone k s" if "unat u \<le> unat x" "unat x < unat u + m" for x
      using kr(1,3) that by (simp add: hzone_def)
    show ?thesis
    proof (rule ccontr)
      assume "\<not> apart_regions r q"
      then have ov: "unat u < unat p + n" "unat p < unat u + m" by (simp_all add: apart_regions_def pn um)
      show False
      proof (cases "unat u \<le> unat p")
        case True
        then have "p \<in> hzone h s" "p \<in> hzone k s" using in_h[of p] in_k[of p] ov hr(2) by simp_all
        then show False using d by blast
      next
        case False
        then have "u \<in> hzone h s" "u \<in> hzone k s" using in_h[of u] in_k[of u] ov kr(2) by simp_all
        then show False using d by blast
      qed
    qed
  qed
qed

lemma live_unique: "heaps_ok Bs s \<Longrightarrow> (p, n) \<in> live Bs s \<Longrightarrow> (p, m) \<in> live Bs s \<Longrightarrow> m = n"
proof -
  assume ok: "heaps_ok Bs s" and l: "(p, n) \<in> live Bs s" "(p, m) \<in> live Bs s"
  show "m = n"
  proof (rule ccontr)
    assume "m \<noteq> n"
    then have a: "apart_regions (p, n) (p, m)" using live_apart[OF ok l] by simp
    obtain h fs where "heap_inv h (Bs h) fs s" "(p, n) \<in> set (regions (start_addr (memheaps s h)) (Bs h))"
      using live_heap[OF ok l(1)] by blast
    then have "12 \<le> n" by (rule heap_regions(2))
    moreover obtain k gs where "heap_inv k (Bs k) gs s" "(p, m) \<in> set (regions (start_addr (memheaps s k)) (Bs k))"
      using live_heap[OF ok l(2)] by blast
    then have "12 \<le> m" by (rule heap_regions(2))
    ultimately show False using a by (simp add: apart_regions_def)
  qed
qed

section \<open>The calls\<close>

text \<open>No free block is large enough, or the request is not below what is available.\<close>

definition no_room :: "nat \<Rightarrow> block list \<Rightarrow> bool" where
  "no_room k bs \<longleftrightarrow> free_bytes bs \<le> k \<or> (\<forall>j. (j, False) \<in> set bs \<longrightarrow> j < k)"

lemma free_not_live:
  assumes ok: "heaps_ok Bs s" and h: "h \<in> set (memheap_list s)" and i: "heap_inv h (xs @ (j, False) # ys) fs s"
    and p: "p = after (start_addr (memheaps s h)) xs + 56"
    and h': "h' \<in> set (memheap_list s)" "heap_inv h' (Bs h') fs' s" "(p, q) \<in> set (regions (start_addr (memheaps s h')) (Bs h'))"
    and b: "Bs h = xs @ (j, False) # ys"
  shows False
proof (cases "h' = h")
  case True
  then obtain us vs where u: "Bs h = us @ (q, True) # vs" "p = after (start_addr (memheaps s h)) us + 56"
    using regions_split[OF h'(3)] by blast
  have "hdr s (p - 56) = (RT_MEMHEAP_MAGIC, h)"
    using block_mark[OF held_layout[OF heap_invD(1)[OF i]]] p by (simp add: mark_def)
  moreover have "heap_inv h (us @ (q, True) # vs) fs' s" using h'(2) u(1) True by simp
  then have "hdr s (p - 56) = (MEM_USED, h)"
    using block_mark[OF held_layout[OF heap_invD(1)]] u(2) by (fastforce simp: mark_def)
  ultimately show False by simp
next
  case False
  note r = heap_regions[OF h'(2,3)]
  have "p \<in> hzone h' s" using r(1,2,3) by (simp add: hzone_def)
  moreover have "p \<in> hzone h s"
    using block_ptr(1,4)[OF i refl] heap_invD(4)[OF i] p by (simp add: hzone_def accounts_def)
  ultimately show False using ok h h'(1) False unfolding heaps_ok_def by blast
qed

lemma heap_alloc:
  assumes ok: "heaps_ok Bs s" and h: "h \<in> set (memheap_list s)" and k: "k = unat (request_size n)"
  shows "\<exists>p s'. rt_memheap_alloc h n s = Done p s' \<and>
    ((p = 0 \<and> s' = s \<and> no_room k (Bs h)) \<or>
     (\<exists>Bs' j. p \<noteq> 0 \<and> heaps_ok Bs' s' \<and> rest_of s' = rest_of s \<and> k \<le> j \<and> live Bs' s' = insert (p, j) (live Bs s) \<and>
       p \<notin> fst ` live Bs s))"
proof -
  obtain fs where i: "heap_inv h (Bs h) fs s" and l: "lock_free h s" and m: "is_memheap h s"
    using ok h unfolding heaps_ok_def is_memheap_def by blast
  obtain p s' where a: "rt_memheap_alloc h n s = Done p s'"
    and c: "(p = 0 \<and> s' = s \<and> (free_bytes (Bs h) \<le> k \<or> (\<forall>j. (j, False) \<in> set (Bs h) \<longrightarrow> j < k))) \<or>
     (\<exists>xs j ys fs'. Bs h = xs @ (j, False) # ys \<and> k \<le> j \<and> p = after (start_addr (memheaps s h)) xs + 56 \<and>
        heap_inv h (xs @ carve k j @ ys) fs' s' \<and> only h (zone h (Bs h) s) s s')"
    using memheap_alloc_spec[OF i l m k] by blast
  show ?thesis
    using c
  proof
    assume "p = 0 \<and> s' = s \<and> (free_bytes (Bs h) \<le> k \<or> (\<forall>j. (j, False) \<in> set (Bs h) \<longrightarrow> j < k))"
    then show ?thesis using a by (simp add: no_room_def)
  next
    let ?a = "start_addr (memheaps s h)"
    assume "\<exists>xs j ys fs'. Bs h = xs @ (j, False) # ys \<and> k \<le> j \<and> p = after ?a xs + 56 \<and>
        heap_inv h (xs @ carve k j @ ys) fs' s' \<and> only h (zone h (Bs h) s) s s'"
    then obtain xs j ys fs' where b: "Bs h = xs @ (j, False) # ys" "k \<le> j" "p = after ?a xs + 56"
      and i': "heap_inv h (xs @ carve k j @ ys) fs' s'" and o: "only h (zone h (Bs h) s) s s'" by blast
    have o': "only h (hzone h s) s s'" using o zone_hzone[OF i] by simp
    note st = heaps_ok_step[OF ok h i' o']
    have sa: "start_addr (memheaps s' k) = start_addr (memheaps s k)" for k using st(2,3) by (cases "k = h") simp_all
    obtain j' where j': "k \<le> j'" "regions (after ?a xs) (carve k j @ ys) = (p, j') # regions (after ?a xs + 56 + of_nat j) ys"
      using regions_carve[of k j "after ?a xs" ys] b(2,3) by blast
    have lv: "live (Bs(h := xs @ carve k j @ ys)) s' = insert (p, j') (live Bs s)"
      using j'(2) b(1) by (auto simp: live_step[OF st(4) h sa] live_split[OF h])
    have "p \<notin> fst ` live Bs s"
    proof
      assume "p \<in> fst ` live Bs s"
      then obtain q where q: "(p, q) \<in> live Bs s" by auto
      obtain h' fs'' where h': "h' \<in> set (memheap_list s)" "heap_inv h' (Bs h') fs'' s" "(p, q) \<in> set (regions (start_addr (memheaps s h')) (Bs h'))"
        using live_heap[OF ok q] by blast
      show False by (rule free_not_live[OF ok h i[unfolded b(1)] b(3) h' b(1)])
    qed
    moreover have "p \<noteq> 0" using block_ptr(2)[of h xs j False ys fs s] i b by simp
    moreover have "rest_of s' = rest_of s" using o by (simp add: only_def)
    ultimately show ?thesis using a st(1) lv j'(1) by blast
  qed
qed

lemma live_once:
  assumes ok: "heaps_ok Bs s" and h: "h \<in> set (memheap_list s)" and b: "Bs h = xs @ (n, True) # ys"
    "p = after (start_addr (memheaps s h)) xs + 56"
  shows "(p, n) \<notin> set (regions (start_addr (memheaps s h)) xs) \<union> set (regions (after (start_addr (memheaps s h)) xs + 56 + of_nat n) ys) \<union>
    (\<Union>k\<in>set (memheap_list s) - {h}. set (regions (start_addr (memheaps s k)) (Bs k)))" (is "_ \<notin> ?R \<union> ?O")
proof -
  let ?a = "start_addr (memheaps s h)"
  obtain fs where i: "heap_inv h (Bs h) fs s" using ok h unfolding heaps_ok_def by blast
  have r: "(p, n) \<in> set (regions ?a (Bs h))" using b by simp
  have "(p, n) \<notin> ?R"
    using regions_distinct[of ?a "Bs h"] layoutD(2)[OF held_layout[OF heap_invD(1)[OF i]]] b by auto
  moreover have "(p, n) \<notin> ?O"
  proof
    assume "(p, n) \<in> ?O"
    then obtain k where k: "k \<in> set (memheap_list s)" "k \<noteq> h" "(p, n) \<in> set (regions (start_addr (memheaps s k)) (Bs k))" by blast
    obtain gs where "heap_inv k (Bs k) gs s" using ok k(1) unfolding heaps_ok_def by blast
    note kr = heap_regions[OF this k(3)] and hr = heap_regions[OF i r]
    have "p \<in> hzone k s" "p \<in> hzone h s" using kr(1,3) hr(1,3) by (simp_all add: hzone_def)
    then show False using ok h k(1,2) unfolding heaps_ok_def by blast
  qed
  ultimately show ?thesis by blast
qed

lemma heap_free:
  assumes ok: "heaps_ok Bs s" and p: "(p, n) \<in> live Bs s"
  shows "\<exists>s' Bs'. rt_memheap_free p s = Done () s' \<and> heaps_ok Bs' s' \<and> rest_of s' = rest_of s \<and>
    live Bs' s' = live Bs s - {(p, n)}"
proof -
  obtain h fs where h: "h \<in> set (memheap_list s)" and i: "heap_inv h (Bs h) fs s" and l: "lock_free h s" and m: "is_memheap h s"
    and r: "(p, n) \<in> set (regions (start_addr (memheaps s h)) (Bs h))" using live_heap[OF ok p] by blast
  let ?a = "start_addr (memheaps s h)"
  obtain xs ys where b: "Bs h = xs @ (n, True) # ys" "p = after ?a xs + 56" using regions_split[OF r] by blast
  obtain s' fs' where f: "rt_memheap_free p s = Done () s'" "heap_inv h (release xs n ys) fs' s'" "only h (zone h (Bs h) s) s s'"
    using memheap_free_spec[OF i[unfolded b(1)] l m b(2)] b(1) by auto
  have o: "only h (hzone h s) s s'" using f(3) zone_hzone[OF i] by simp
  note st = heaps_ok_step[OF ok h f(2) o]
  have sa: "start_addr (memheaps s' k) = start_addr (memheaps s k)" for k using st(2,3) by (cases "k = h") simp_all
  let ?O = "\<Union>k\<in>set (memheap_list s) - {h}. set (regions (start_addr (memheaps s k)) (Bs k))"
  let ?R = "set (regions ?a xs) \<union> set (regions (after ?a xs + 56 + of_nat n) ys)"
  have new: "live (Bs(h := release xs n ys)) s' = ?R \<union> ?O"
    using regions_release[of ?a xs n ys] by (auto simp: live_step[OF st(4) h sa])
  have old: "live Bs s = insert (p, n) (?R \<union> ?O)" using b by (auto simp: live_split[OF h])
  have "(p, n) \<notin> ?R \<union> ?O" by (rule live_once[OF ok h b])
  then have "live (Bs(h := release xs n ys)) s' = live Bs s - {(p, n)}" unfolding new old by blast
  moreover have "rest_of s' = rest_of s" using f(3) by (simp add: only_def)
  ultimately show ?thesis using f(1) st(1) by blast
qed

text \<open>Tagging an allocated block overwrites only its own unused links.\<close>

lemma setname_frame: "(\<And>t w. P t \<Longrightarrow> P (set_free_next a w t)) \<Longrightarrow> (\<And>t w. P t \<Longrightarrow> P (set_free_prev a w t)) \<Longrightarrow> P s \<Longrightarrow>
  P (rt_memheap_setname nm a s)"
  by (auto simp: rt_memheap_setname_def Let_def split: prod.splits)

lemma heap_tag:
  assumes ok: "heaps_ok Bs s" and p: "(p, n) \<in> live Bs s"
  shows "heaps_ok Bs (tag_owner p s)" "rest_of (tag_owner p s) = rest_of s" "live Bs (tag_owner p s) = live Bs s"
proof -
  obtain h fs where h: "h \<in> set (memheap_list s)" and i: "heap_inv h (Bs h) fs s"
    and r: "(p, n) \<in> set (regions (start_addr (memheaps s h)) (Bs h))" using live_heap[OF ok p] by blast
  let ?a = "start_addr (memheaps s h)" and ?x = "p - RT_MEMHEAP_SIZE"
  obtain xs ys where b: "Bs h = xs @ (n, True) # ys" "p = after ?a xs + 56" using regions_split[OF r] by blast
  have x: "?x = after ?a xs" using b(2) by simp
  have hx: "?x \<in> set (headers ?a (Bs h))" unfolding x b(1) by (rule at_start(3)[OF held_layout[OF heap_invD(1)[OF i[unfolded b(1)]]]])
  have nf: "?x \<noteq> free_header h" "?x \<notin> set fs"
  proof -
    show "?x \<noteq> free_header h" using layoutD(12)[OF held_layout[OF heap_invD(1)[OF i]]] hx by auto
    show "?x \<notin> set fs"
    proof
      assume "?x \<in> set fs"
      then obtain us m vs where u: "Bs h = us @ (m, False) # vs" "?x = after ?a us" using inv_free[OF i] by blast
      have "hdr s ?x = (RT_MEMHEAP_MAGIC, h)" using block_mark[OF held_layout[OF heap_invD(1)[OF i[unfolded u(1)]]]] u(2) by (simp add: mark_def)
      moreover have "hdr s ?x = (MEM_USED, h)" using block_mark[OF held_layout[OF heap_invD(1)[OF i[unfolded b(1)]]]] x by (simp add: mark_def)
      ultimately show False by simp
    qed
  qed
  let ?P = "\<lambda>t. heap_inv h (Bs h) fs t \<and> only h (hzone h s) s t"
  have z: "?x \<in> hzone h s" using headers_hzone[OF i] hx by blast
  have P: "?P t" if "?P u" "t = set_free_next ?x w u \<or> t = set_free_prev ?x w u" for t u w
  proof -
    have "layout {} h (start_addr (memheaps u h)) (Bs h) fs (blk t) (fre t) (hdr t)"
      by (rule layout_frame[OF held_layout[OF heap_invD(1)[OF conjunct1[OF that(1)]]]]) (use nf that(2) in auto)
    moreover have "memheaps t = memheaps u" using that(2) by auto
    ultimately have "heap_inv h (Bs h) fs t" using that(1) by (simp add: heap_inv_def held_def)
    then show ?thesis using that z only_set(3,4) by blast
  qed
  have "?P (tag_owner p s)"
    unfolding tag_owner_def
  proof (rule setname_frame[of ?P])
    show "?P s" using i by simp
    show "?P (set_free_next ?x w t)" "?P (set_free_prev ?x w t)" if "?P t" for t w
      using P[OF that, of "set_free_next ?x w t" w] P[OF that, of "set_free_prev ?x w t" w] by blast+
  qed
  then have i': "heap_inv h (Bs h) fs (tag_owner p s)" and o: "only h (hzone h s) s (tag_owner p s)" by blast+
  note st = heaps_ok_step[OF ok h i' o]
  show "heaps_ok Bs (tag_owner p s)" using st(1) by simp
  show "rest_of (tag_owner p s) = rest_of s" using o by (simp add: only_def)
  have "start_addr (memheaps (tag_owner p s) k) = start_addr (memheaps s k)" for k using st(2,3) by (cases "k = h") simp_all
  then show "live Bs (tag_owner p s) = live Bs s" using st(4) by (simp add: live_def)
qed

text \<open>What a successful allocation of at least \<open>k\<close> bytes does.\<close>

definition allocated :: "(u64 \<Rightarrow> block list) \<Rightarrow> mem_sys \<Rightarrow> nat \<Rightarrow> u64 \<Rightarrow> mem_sys \<Rightarrow> bool" where
  "allocated Bs s k p s' \<longleftrightarrow>
     (\<exists>Bs' j. p \<noteq> 0 \<and> heaps_ok Bs' s' \<and> rest_of s' = rest_of s \<and> k \<le> j \<and> live Bs' s' = insert (p, j) (live Bs s) \<and>
       p \<notin> fst ` live Bs s)"

lemma heap_alloc_cases:
  assumes "heaps_ok Bs s" "h \<in> set (memheap_list s)"
  obtains "rt_memheap_alloc h n s = Done 0 s" "no_room (unat (request_size n)) (Bs h)"
  | p s' where "rt_memheap_alloc h n s = Done p s'" "allocated Bs s (unat (request_size n)) p s'" "p \<noteq> 0"
  using heap_alloc[OF assms refl, of n] unfolding allocated_def by blast

lemma malloc_others_spec:
  assumes "heaps_ok Bs s" "set hs \<subseteq> set (memheap_list s)"
  shows "malloc_others hs n s = Done 0 s \<and> (\<forall>h\<in>set hs. h \<noteq> system_heap s \<longrightarrow> no_room (unat (request_size n)) (Bs h)) \<or>
    (\<exists>p s'. malloc_others hs n s = Done p s' \<and> allocated Bs s (unat (request_size n)) p s' \<and> p \<noteq> 0)"
  using assms(2)
proof (induction hs)
  case (Cons h hs)
  show ?case
  proof (cases "h = system_heap s")
    case True
    then show ?thesis using Cons by auto
  next
    case False
    have h: "h \<in> set (memheap_list s)" using Cons.prems by simp
    show ?thesis by (rule heap_alloc_cases[OF assms(1) h, of n]) (use Cons False in auto)
  qed
qed simp

lemma malloc_spec:
  assumes ok: "heaps_ok Bs s"
  shows "rt_malloc n s = Done 0 s \<and> (\<forall>h\<in>set (memheap_list s). no_room (unat (request_size n)) (Bs h)) \<or>
    (\<exists>p s'. rt_malloc n s = Done p s' \<and> allocated Bs s (unat (request_size n)) p s' \<and> p \<noteq> 0)"
proof -
  let ?k = "unat (request_size n)"
  have tag: "allocated Bs s ?k p (tag_owner p s')" if al: "allocated Bs s ?k p s'" for p s'
  proof -
    obtain Bs' j where a: "p \<noteq> 0" "heaps_ok Bs' s'" "rest_of s' = rest_of s" "?k \<le> j"
      "live Bs' s' = insert (p, j) (live Bs s)" "p \<notin> fst ` live Bs s" using al unfolding allocated_def by blast
    have "(p, j) \<in> live Bs' s'" using a(5) by simp
    from heap_tag[OF a(2) this] show ?thesis using a unfolding allocated_def by metis
  qed
  have sh: "system_heap s \<in> set (memheap_list s)" using ok by (simp add: heaps_ok_def)
  show ?thesis
  proof (rule heap_alloc_cases[OF ok sh, of n])
    fix p s' assume "rt_memheap_alloc (system_heap s) n s = Done p s'" "allocated Bs s ?k p s'" "p \<noteq> 0"
    then show ?thesis using tag by (simp add: rt_malloc_def)
  next
    assume a: "rt_memheap_alloc (system_heap s) n s = Done 0 s" "no_room ?k (Bs (system_heap s))"
    have "malloc_others (memheap_list s) n s = Done 0 s \<and>
        (\<forall>h\<in>set (memheap_list s). h \<noteq> system_heap s \<longrightarrow> no_room ?k (Bs h)) \<or>
      (\<exists>p s'. malloc_others (memheap_list s) n s = Done p s' \<and> allocated Bs s ?k p s' \<and> p \<noteq> 0)"
      by (rule malloc_others_spec[OF ok]) simp
    then show ?thesis
    proof
      assume "malloc_others (memheap_list s) n s = Done 0 s \<and>
        (\<forall>h\<in>set (memheap_list s). h \<noteq> system_heap s \<longrightarrow> no_room ?k (Bs h))"
      then show ?thesis using a by (auto simp: rt_malloc_def)
    next
      assume "\<exists>p s'. malloc_others (memheap_list s) n s = Done p s' \<and> allocated Bs s ?k p s' \<and> p \<noteq> 0"
      then obtain p s' where "malloc_others (memheap_list s) n s = Done p s'" "allocated Bs s ?k p s'" "p \<noteq> 0" by blast
      then show ?thesis using a(1) tag by (simp add: rt_malloc_def)
    qed
  qed
qed

section \<open>Moving data\<close>

lemma bytes_heaps [simp]: "heaps_ok Bs (s\<lparr>bytes := b\<rparr>) = heaps_ok Bs s" "live Bs (s\<lparr>bytes := b\<rparr>) = live Bs s"
  by (simp_all add: heaps_ok_def live_def hzone_def lock_free_def)

lemma copy_heaps [simp]: "heaps_ok Bs (copy_bytes q p c s) = heaps_ok Bs s" "live Bs (copy_bytes q p c s) = live Bs s"
  by (simp_all add: copy_bytes_def)

lemma rest_fields:
  "rest_of s' = rest_of s \<Longrightarrow> bytes s' = bytes s" "rest_of s' = rest_of s \<Longrightarrow> kernel s' = kernel s"
  "rest_of s' = rest_of s \<Longrightarrow> memheap_list s' = memheap_list s" "rest_of s' = rest_of s \<Longrightarrow> system_heap s' = system_heap s"
  by (simp_all add: rest_of_def)

lemma u64_bound: "unat (w :: u64) < 2 ^ 64"
  using unsigned_less[of w] by simp

lemma unat_sub_wrap:
  assumes "unat (x :: u64) < unat y"
  shows "unat (x - y) = 2 ^ 64 + unat x - unat y"
proof -
  have d: "unat (y - x) = unat y - unat x" using assms unat_sub[of x y] by (simp add: word_le_nat_alt)
  have "unat ((x - y) + (y - x)) = (unat (x - y) + unat (y - x)) mod 2 ^ 64" by (simp only: unat_word_ariths) simp
  then have "(unat (x - y) + unat (y - x)) mod 2 ^ 64 = 0" by simp
  then obtain k where k: "unat (x - y) + unat (y - x) = 2 ^ 64 * k" by auto
  moreover have "0 < unat (y - x)" using d assms by simp
  moreover note u64_bound[of "x - y"] u64_bound[of "y - x"]
  ultimately have "k = 1" by (cases k rule: nat.exhaust; cases "k - 1") auto
  then show ?thesis using k d assms u64_bound[of y] by simp
qed

text \<open>Only bytes changed, and none of a region that is kept.\<close>

definition moved :: "(u64 \<times> nat) set \<Rightarrow> u64 \<Rightarrow> u64 \<Rightarrow> nat \<Rightarrow> mem_sys \<Rightarrow> mem_sys \<Rightarrow> bool" where
  "moved L p q c s s' \<longleftrightarrow> (\<forall>i<c. bytes s' (q + of_nat i) = bytes s (p + of_nat i)) \<and>
     (\<forall>r\<in>L. \<forall>i < snd r. bytes s' (fst r + of_nat i) = bytes s (fst r + of_nat i))"

lemma copy_moved:
  assumes ok: "heaps_ok Bs s" and q: "(q, j) \<in> live Bs s" and c: "unat c \<le> j"
  shows "moved (live Bs s - {(q, j)}) p q (unat c) s (copy_bytes q p c s)"
  unfolding moved_def
proof (intro conjI allI impI ballI)
  fix i assume i: "i < unat c"
  have "i < 2 ^ 64" using i u64_bound[of c] by simp
  then have "unat (of_nat i :: u64) = i" by (intro unat_of_nat_small) simp
  then have "(of_nat i :: u64) < c" using i by (simp only: word_less_nat_alt)
  then show "bytes (copy_bytes q p c s) (q + of_nat i) = bytes s (p + of_nat i)" by (simp add: copy_bytes_def)
next
  fix r i assume r: "r \<in> live Bs s - {(q, j)}" and i: "i < snd r"
  obtain h fs where h: "heap_inv h (Bs h) fs s" "(q, j) \<in> set (regions (start_addr (memheaps s h)) (Bs h))"
    using live_heap[OF ok q] by blast
  obtain k gs where k: "heap_inv k (Bs k) gs s" "(fst r, snd r) \<in> set (regions (start_addr (memheaps s k)) (Bs k))"
    using live_heap[OF ok, of "fst r" "snd r"] r by auto
  have bound: "unat (start_addr (memheaps s u)) + unat (pool_size (memheaps s u)) < 2 ^ 64" if "heap_inv u bs fs s" for u bs fs
    using layoutD(2)[OF held_layout[OF heap_invD(1)[OF that]]] heap_invD(4)[OF that] by (simp add: accounts_def)
  note hr = heap_regions(3)[OF h] and kr = heap_regions(3)[OF k]
  have ui: "unat (fst r + of_nat i) = unat (fst r) + i"
    using kr bound[OF k(1)] i by (simp add: unat_word_ariths unsigned_of_nat take_bit_nat_eq_self mod_add_left_eq)
  have ap: "apart_regions (q, j) r" using live_apart[OF ok q, of r] r by auto
  have "\<not> fst r + of_nat i - q < c"
  proof
    assume a: "fst r + of_nat i - q < c"
    show False
    proof (cases "unat q \<le> unat (fst r + of_nat i)")
      case True
      then have "unat (fst r + of_nat i - q) = unat (fst r) + i - unat q"
        using unat_sub[of q "fst r + of_nat i"] ui by (simp add: word_le_nat_alt)
      then show False using a ap i c True ui by (auto simp: apart_regions_def word_less_nat_alt)
    next
      case False
      have "unat (fst r + of_nat i - q) = 2 ^ 64 + unat (fst r) + i - unat q"
        using unat_sub_wrap[of "fst r + of_nat i" q] False ui by simp
      then show False using a c hr bound[OF h(1)] by (simp add: word_less_nat_alt)
    qed
  qed
  then show "bytes (copy_bytes q p c s) (fst r + of_nat i) = bytes s (fst r + of_nat i)" by (simp add: copy_bytes_def)
qed

section \<open>Reallocating\<close>

definition reallocated ::
  "(u64 \<Rightarrow> block list) \<Rightarrow> mem_sys \<Rightarrow> u64 \<Rightarrow> nat \<Rightarrow> nat \<Rightarrow> nat \<Rightarrow> u64 \<Rightarrow> mem_sys \<Rightarrow> bool" where
  "reallocated Bs s p n k c q s' \<longleftrightarrow>
     (\<exists>Bs' j. q \<noteq> 0 \<and> heaps_ok Bs' s' \<and> kernel s' = kernel s \<and> k \<le> j \<and>
       live Bs' s' = insert (q, j) (live Bs s - {(p, n)}) \<and> moved (live Bs s - {(p, n)}) p q c s s')"

lemma moved_mono: "moved L p q c s s' \<Longrightarrow> L' \<subseteq> L \<Longrightarrow> c' \<le> c \<Longrightarrow> moved L' p q c' s s'"
  by (auto simp: moved_def)

lemma live_size:
  assumes ok: "heaps_ok Bs s" and p: "(p, n) \<in> live Bs s"
  shows "MEMITEM_SIZE (p - RT_MEMHEAP_SIZE) s = of_nat n" "n < 2 ^ 31" "p \<noteq> 0"
proof -
  obtain h fs where i: "heap_inv h (Bs h) fs s" and r: "(p, n) \<in> set (regions (start_addr (memheaps s h)) (Bs h))"
    using live_heap[OF ok p] by blast
  obtain xs ys where b: "Bs h = xs @ (n, True) # ys" "p = after (start_addr (memheaps s h)) xs + 56" using regions_split[OF r] by blast
  have x: "p - RT_MEMHEAP_SIZE = after (start_addr (memheaps s h)) xs" using b(2) by simp
  show "MEMITEM_SIZE (p - RT_MEMHEAP_SIZE) s = of_nat n" "n < 2 ^ 31" using inv_size(1,3)[OF i[unfolded b(1)] x] by simp_all
  show "p \<noteq> 0" by (rule heap_regions(5)[OF i r])
qed

text \<open>Copying into a fresh region and freeing the old one.\<close>

lemma copy_and_free:
  assumes ok: "heaps_ok Bs s" and p: "(p, n) \<in> live Bs s" and a: "allocated Bs s k q s1" and c: "unat c \<le> k"
  shows "\<exists>s'. rt_memheap_free p (copy_bytes q p c s1) = Done () s' \<and> reallocated Bs s p n k (unat c) q s'"
proof -
  obtain Bs' j where a: "q \<noteq> 0" "heaps_ok Bs' s1" "rest_of s1 = rest_of s" "k \<le> j"
    "live Bs' s1 = insert (q, j) (live Bs s)" "q \<notin> fst ` live Bs s" using a unfolding allocated_def by blast
  let ?t = "copy_bytes q p c s1"
  have ok': "heaps_ok Bs' ?t" and p': "(p, n) \<in> live Bs' ?t" using a(2,5) p by simp_all
  obtain s' Bs'' where f: "rt_memheap_free p ?t = Done () s'" "heaps_ok Bs'' s'" "rest_of s' = rest_of ?t"
    "live Bs'' s' = live Bs' ?t - {(p, n)}" using heap_free[OF ok' p'] by blast
  have ne: "(q, j) \<noteq> (p, n)" "(q, j) \<notin> live Bs s" using a(6) p by force+
  have "moved (live Bs' s1 - {(q, j)}) p q (unat c) s1 ?t"
    by (rule copy_moved[OF a(2)]) (use a(4,5) c in auto)
  then have "moved (live Bs s - {(p, n)}) p q (unat c) s1 ?t"
    by (rule moved_mono) (use a(5) ne in auto)
  then have "moved (live Bs s - {(p, n)}) p q (unat c) s s'"
    using rest_fields(1)[OF f(3)] rest_fields(1)[OF a(3)] by (simp add: moved_def)
  moreover have "live Bs'' s' = insert (q, j) (live Bs s - {(p, n)})" using f(4) a(5) ne by auto
  moreover have "kernel s' = kernel s"
    using rest_fields(2)[OF f(3)] rest_fields(2)[OF a(3)] by (simp add: copy_bytes_def)
  ultimately show ?thesis using f(1,2) a(1,4) unfolding reallocated_def by blast
qed

lemma request_idem: "unat r \<le> 2 ^ 64 - 16 \<Longrightarrow> request_size (request_size r) = request_size r"
proof -
  assume r: "unat r \<le> 2 ^ 64 - 16"
  let ?k = "request_size r"
  have k: "unat ?k \<le> 2 ^ 64 - 4" "4 dvd unat ?k" "12 \<le> unat ?k" using request_bound[OF r] request_dvd[of r] by simp_all
  have "unat ?k \<le> unat (RT_ALIGN4 ?k) \<and> unat (RT_ALIGN4 ?k) \<le> unat ?k + 3" "4 dvd unat (RT_ALIGN4 ?k)"
    using align_up[of ?k] k(1) by simp_all
  then have "unat (RT_ALIGN4 ?k) = unat ?k" using k(2) by presburger
  then have "RT_ALIGN4 ?k = ?k" by (simp add: word_unat_eq_iff)
  then show ?thesis using k(3) by (simp add: request_size_def[of ?k] word_less_nat_alt)
qed

lemma realloc_move_spec:
  assumes ok: "heaps_ok Bs s" and p: "(p, n) \<in> live Bs s" and h: "h \<in> set (memheap_list s)"
    and r: "unat r \<le> 2 ^ 64 - 16" "n < unat (request_size r)"
  shows "realloc_move h p (of_nat n) (request_size r) s = Done 0 s \<or>
    (\<exists>q s'. realloc_move h p (of_nat n) (request_size r) s = Done q s' \<and> reallocated Bs s p n (unat (request_size r)) n q s' \<and> q \<noteq> 0)"
proof (rule heap_alloc_cases[OF ok h, of "request_size r"])
  assume "rt_memheap_alloc h (request_size r) s = Done 0 s"
  then show ?thesis by (simp add: realloc_move_def)
next
  fix q s1 assume a: "rt_memheap_alloc h (request_size r) s = Done q s1"
    "allocated Bs s (unat (request_size (request_size r))) q s1" "q \<noteq> 0"
  have n: "unat (of_nat n :: u64) = n" using live_size(2)[OF ok p] by (intro unat_of_nat_small) simp
  have lt: "(of_nat n :: u64) < request_size r" using r(2) n by (simp only: word_less_nat_alt)
  have "\<exists>s'. rt_memheap_free p (copy_bytes q p (of_nat n) s1) = Done () s' \<and>
    reallocated Bs s p n (unat (request_size r)) (unat (of_nat n :: u64)) q s'"
    by (rule copy_and_free[OF ok p a(2)[unfolded request_idem[OF r(1)]]]) (use n r(2) in simp)
  then show ?thesis using a(1,3) lt n by (auto simp: realloc_move_def)
qed

text \<open>Reallocating within the heap the block belongs to.\<close>

lemma heap_realloc:
  assumes ok: "heaps_ok Bs s" and p: "(p, n) \<in> live Bs s" and r: "r \<noteq> 0" "unat r \<le> 2 ^ 64 - 16"
  defines "h \<equiv> pool_ptr (items s (p - RT_MEMHEAP_SIZE))"
  shows "rt_memheap_realloc h p r s = Done 0 s \<or>
    (\<exists>q s'. rt_memheap_realloc h p r s = Done q s' \<and>
      reallocated Bs s p n (unat (request_size r)) (min n (unat r)) q s' \<and> q \<noteq> 0)"
proof -
  obtain h' fs where h: "h' \<in> set (memheap_list s)" and i: "heap_inv h' (Bs h') fs s" and l: "lock_free h' s" and m: "is_memheap h' s"
    and rg: "(p, n) \<in> set (regions (start_addr (memheaps s h')) (Bs h'))" using live_heap[OF ok p] by blast
  let ?a = "start_addr (memheaps s h')"
  obtain xs ys where b: "Bs h' = xs @ (n, True) # ys" "p = after ?a xs + 56" using regions_split[OF rg] by blast
  note i' = i[unfolded b(1)]
  have "hdr s (after ?a xs) = (MEM_USED, h')" using block_mark[OF held_layout[OF heap_invD(1)[OF i']]] by (simp add: mark_def)
  then have hh: "h = h'" using b(2) by (simp add: h_def link_fields)
  let ?k = "unat (request_size r)"
  have "(\<exists>s' fs' n' zs. rt_memheap_realloc h' p r s = Done p s' \<and> ?k \<le> n' \<and>
      heap_inv h' (xs @ (n', True) # zs) fs' s' \<and> regions (p + of_nat n') zs = regions (p + of_nat n) ys \<and>
      only h' (zone h' (xs @ (n, True) # ys) s) s s') \<or>
    n < ?k \<and> rt_memheap_realloc h' p r s = realloc_move h' p (of_nat n) (request_size r) s"
    by (rule memheap_realloc_spec[OF i' l m b(2) r])
  then show ?thesis
  proof
    assume "n < ?k \<and> rt_memheap_realloc h' p r s = realloc_move h' p (of_nat n) (request_size r) s"
    then have n: "n < ?k" and e: "rt_memheap_realloc h' p r s = realloc_move h' p (of_nat n) (request_size r) s" by blast+
    have "reallocated Bs s p n ?k (min n (unat r)) q s'" if "reallocated Bs s p n ?k n q s'" for q s'
      using that moved_mono[OF _ order_refl, of _ p q n s s' "min n (unat r)"] unfolding reallocated_def by fastforce
    then show ?thesis using realloc_move_spec[OF ok p h r(2) n] unfolding hh e by blast
  next
    assume "\<exists>s' fs' n' zs. rt_memheap_realloc h' p r s = Done p s' \<and> ?k \<le> n' \<and>
      heap_inv h' (xs @ (n', True) # zs) fs' s' \<and> regions (p + of_nat n') zs = regions (p + of_nat n) ys \<and>
      only h' (zone h' (xs @ (n, True) # ys) s) s s'"
    then obtain s' fs' n' zs where e: "rt_memheap_realloc h' p r s = Done p s'" "?k \<le> n'"
      and i2: "heap_inv h' (xs @ (n', True) # zs) fs' s'" and z: "regions (p + of_nat n') zs = regions (p + of_nat n) ys"
      and o: "only h' (zone h' (xs @ (n, True) # ys) s) s s'" by blast
    have o': "only h' (hzone h' s) s s'" using o zone_hzone[OF i] b(1) by simp
    note st = heaps_ok_step[OF ok h i2 o']
    have sa: "start_addr (memheaps s' k) = start_addr (memheaps s k)" for k using st(2,3) by (cases "k = h'") simp_all
    let ?B = "Bs(h' := xs @ (n', True) # zs)"
    let ?R = "set (regions ?a xs) \<union> set (regions (p + of_nat n) ys) \<union>
      (\<Union>k\<in>set (memheap_list s) - {h'}. set (regions (start_addr (memheaps s k)) (Bs k)))"
    have new: "live ?B s' = insert (p, n') ?R" using z b(2) by (auto simp: live_step[OF st(4) h sa])
    have old: "live Bs s = insert (p, n) ?R" using b by (auto simp: live_split[OF h])
    have "(p, n) \<notin> ?R" using live_once[OF ok h b] b(2) by simp
    then have "live ?B s' = insert (p, n') (live Bs s - {(p, n)})" unfolding new old by blast
    moreover have "rest_of s' = rest_of s" using o by (simp add: only_def)
    then have "bytes s' = bytes s" "kernel s' = kernel s" by (rule rest_fields)+
    moreover have "p \<noteq> 0" by (rule live_size(3)[OF ok p])
    ultimately have "reallocated Bs s p n ?k (min n (unat r)) p s'"
      using st(1) e(2) unfolding reallocated_def moved_def by (intro exI[of _ ?B] exI[of _ n']) simp
    then show ?thesis using e(1) \<open>p \<noteq> 0\<close> unfolding hh by blast
  qed
qed

lemma realloc_spec:
  assumes ok: "heaps_ok Bs s" and p: "(p, n) \<in> live Bs s" and r: "r \<noteq> 0" "unat r \<le> 2 ^ 64 - 16"
  shows "rt_realloc p r s = Done 0 s \<or>
    (\<exists>q s'. rt_realloc p r s = Done q s' \<and> reallocated Bs s p n (unat (request_size r)) (min n (unat r)) q s')"
proof -
  let ?k = "unat (request_size r)" and ?c = "min n (unat r)" and ?a = "p - RT_MEMHEAP_SIZE"
  note sz = live_size[OF ok p]
  have tag: "reallocated Bs s p n ?k ?c q (tag_owner q s')" if re: "reallocated Bs s p n ?k ?c q s'" for q s'
  proof -
    obtain Bs' j where a: "q \<noteq> 0" "heaps_ok Bs' s'" "kernel s' = kernel s" "?k \<le> j"
      "live Bs' s' = insert (q, j) (live Bs s - {(p, n)})" "moved (live Bs s - {(p, n)}) p q ?c s s'"
      using re unfolding reallocated_def by blast
    have "(q, j) \<in> live Bs' s'" using a(5) by simp
    note t = heap_tag[OF a(2) this]
    have "bytes (tag_owner q s') = bytes s'" "kernel (tag_owner q s') = kernel s'" using rest_fields(1,2)[OF t(2)] by simp_all
    then show ?thesis using a t(1,3) unfolding reallocated_def moved_def by metis
  qed
  have body: "rt_realloc p r s =
    bind_run (bind_run (rt_memheap_realloc (pool_ptr (items s ?a)) p r s) (\<lambda>q s1.
                if q = 0
                then bind_run (rt_malloc r s1) (\<lambda>q s2.
                       if q \<noteq> 0
                       then let oldsize = MEMITEM_SIZE ?a s2;
                                s3 = copy_bytes q p (if r > oldsize then oldsize else r) s2
                            in bind_run (rt_free p s3) (\<lambda>_ s4. Done q s4)
                       else Done q s2)
                else Done q s1))
              (\<lambda>q s1. Done q (if q = 0 then s1 else tag_owner q s1))"
    using sz(3) r(1) unfolding rt_realloc_def Let_def by simp
  have "rt_memheap_realloc (pool_ptr (items s ?a)) p r s = Done 0 s \<or>
    (\<exists>q s'. rt_memheap_realloc (pool_ptr (items s ?a)) p r s = Done q s' \<and> reallocated Bs s p n ?k ?c q s' \<and> q \<noteq> 0)"
    by (rule heap_realloc[OF ok p r])
  then show ?thesis
  proof
    assume "\<exists>q s'. rt_memheap_realloc (pool_ptr (items s ?a)) p r s = Done q s' \<and> reallocated Bs s p n ?k ?c q s' \<and> q \<noteq> 0"
    then obtain q s' where "rt_memheap_realloc (pool_ptr (items s ?a)) p r s = Done q s'" "reallocated Bs s p n ?k ?c q s'" "q \<noteq> 0"
      by blast
    then show ?thesis using tag by (simp add: body)
  next
    assume e: "rt_memheap_realloc (pool_ptr (items s ?a)) p r s = Done 0 s"
    from malloc_spec[OF ok, of r] show ?thesis
    proof (elim disjE conjE exE)
      assume "rt_malloc r s = Done 0 s"
      then show ?thesis using e by (simp add: body)
    next
      fix q s2 assume m: "rt_malloc r s = Done q s2" "allocated Bs s ?k q s2" "q \<noteq> 0"
      obtain Bs' j where a: "heaps_ok Bs' s2" "live Bs' s2 = insert (q, j) (live Bs s)" using m(2) unfolding allocated_def by blast
      have os: "MEMITEM_SIZE ?a s2 = of_nat n" by (rule live_size(1)[OF a(1)]) (use a(2) p in simp)
      have n: "unat (of_nat n :: u64) = n" using sz(2) by (intro unat_of_nat_small) simp
      define c where "c = (if r > of_nat n then of_nat n else r)"
      have c: "unat c = ?c" using n by (auto simp: c_def word_less_nat_alt min_def)
      have "unat r \<le> ?k" by (rule request_covers) (use r(2) in simp)
      then have "unat c \<le> ?k" using c by simp
      then obtain s' where f: "rt_memheap_free p (copy_bytes q p c s2) = Done () s'" "reallocated Bs s p n ?k (unat c) q s'"
        using copy_and_free[OF ok p m(2)] by blast
      have "rt_realloc p r s = Done q (tag_owner q s')"
        by (simp only: body e m(1) m(3) os c_def[symmetric] Let_def rt_free_def f(1) bind_run.simps if_True if_False simp_thms)
      then show ?thesis using tag f(2) c by metis
    qed
  qed
qed

end
