(* ===== verification/RT_Malloc_Props.thy ===== *)
theory RT_Malloc_Props
  imports RT_Malloc
begin

text \<open>
  The properties of the system heap: initialisation, every call for any layout of the heaps, every sequence
  of calls, the counters, and the requests whose size wraps.
\<close>

section \<open>Initialisation\<close>

definition init_ok :: "u64 \<Rightarrow> u64 \<Rightarrow> u64 \<Rightarrow> bool" where
  "init_ok h start sz \<longleftrightarrow> h \<noteq> 0 \<and> 0 < unat start \<and> 4 dvd unat start \<and> 124 \<le> unat sz \<and> unat sz < 2 ^ 31 \<and>
     unat start + unat sz < 2 ^ 64 \<and>
     (unat (free_header h) < unat start \<or> unat start + unat sz < unat (free_header h))"

lemma init_layout:
  assumes i: "init_ok h start sz" and n: "n = unat (RT_ALIGN_DOWN4 sz) - 112"
    and p: "pool = (ucast (RT_ALIGN_DOWN4 sz) :: u32)" and a: "av = (ucast (ucast pool - 2 * RT_MEMHEAP_SIZE) :: u32)"
  shows "unat pool = n + 112" "unat av = n" "ucast av = (of_nat n :: u64)" "12 \<le> n" "4 dvd n" "n + 112 < 2 ^ 31" "n + 112 \<le> unat sz"
proof -
  have d: "unat (RT_ALIGN_DOWN4 sz) = unat sz - unat sz mod 4" by (rule align_down)
  have "unat sz mod 4 < 4" by simp
  then have m: "unat sz - unat sz mod 4 \<ge> 124"
  proof -
    have "124 \<le> unat sz" using i by (simp add: init_ok_def)
    moreover have "unat sz - unat sz mod 4 = 4 * (unat sz div 4)" by (simp add: minus_mod_eq_mult_div)
    ultimately show ?thesis by simp
  qed
  have "unat sz - unat sz mod 4 \<le> unat sz" by simp
  then have lt: "unat (RT_ALIGN_DOWN4 sz) < 2 ^ 31" using d i unfolding init_ok_def by linarith
  then have up: "unat pool = unat (RT_ALIGN_DOWN4 sz)" using unat_ucast_small[of "RT_ALIGN_DOWN4 sz"] p by simp
  then show "unat pool = n + 112" using d m n by simp
  have "unat (2 * RT_MEMHEAP_SIZE) = 112" by simp
  then show av: "unat av = n" using counter_sub[of "2 * RT_MEMHEAP_SIZE" pool] up d m n a by simp
  show "ucast av = (of_nat n :: u64)" using ucast_eq_of_nat_unat[of av] av by simp
  show "12 \<le> n" "n + 112 < 2 ^ 31" "n + 112 \<le> unat sz" using d m lt n by linarith+
  show "4 dvd n" using n d by (simp add: minus_mod_eq_mult_div dvd_diff_nat)
qed

lemma rt_sem_init_lock:
  "\<exists>k'. rt_sem_init (heap_lock h) 1 RT_IPC_FLAG_FIFO k = Some k' \<and> sem_value (sems k' (heap_lock h)) = 1 \<and>
     queues k' (Suspended (Sem (heap_lock h))) = [] \<and>
     (\<forall>g. g \<noteq> h \<longrightarrow> sem_value (sems k' (heap_lock g)) = sem_value (sems k (heap_lock g)) \<and>
       queues k' (Suspended (Sem (heap_lock g))) = queues k (Suspended (Sem (heap_lock g))))"
  by (simp add: rt_sem_init_def set_object_def upd_sem_def rt_ipc_object_init_def heap_lock_def word_unat_eq_iff[symmetric])

lemma links_upd_item:
  "blk (upd_item a f s) = set_next a (item_next (f (items s a))) (set_prev a (item_prev (f (items s a))) (blk s))"
  "fre (upd_item a f s) = set_next a (next_free (f (items s a))) (set_prev a (prev_free (f (items s a))) (fre s))"
  by (auto simp: blk_def fre_def upd_item_def set_next_def set_prev_def fun_eq_iff)

lemma list_obs [simp]:
  "blk (s\<lparr>memheap_list := k\<rparr>) = blk s" "fre (s\<lparr>memheap_list := k\<rparr>) = fre s" "hdr (s\<lparr>memheap_list := k\<rparr>) = hdr s"
  by (simp_all add: blk_def fre_def hdr_def[abs_def])

lemma memheap_init_fields:
  assumes i: "init_ok h start sz" and n: "n = unat (RT_ALIGN_DOWN4 sz) - 112"
  defines "fh \<equiv> free_header h" and "te \<equiv> start + 56 + of_nat n"
  shows "\<exists>s'. rt_memheap_init h start sz s = Some s' \<and> lock_free h s' \<and>
    (\<forall>g. g \<noteq> h \<longrightarrow> memheaps s' g = memheaps s g \<and> lock_free g s' = lock_free g s) \<and>
    memheap_list s' = h # memheap_list s \<and> system_heap s' = system_heap s \<and> bytes s' = bytes s \<and>
    start_addr (memheaps s' h) = start \<and> pool_size (memheaps s' h) = ucast (RT_ALIGN_DOWN4 sz) \<and>
    unat (available_size (memheaps s' h)) = n \<and> unat (max_used_size (memheaps s' h)) = 112 \<and>
    block_list (memheaps s' h) = start \<and> free_list (memheaps s' h) = fh \<and>
    blk s' = set_prev te start (set_next te start (set_prev start te (set_next start te (set_prev fh 0 (set_next fh 0 (blk s)))))) \<and>
    fre s' = set_prev te 0 (set_next te 0 (set_prev fh start (set_next fh start (set_prev start fh (set_next start fh (fre s)))))) \<and>
    hdr s' = (hdr s)(fh := (RT_MEMHEAP_MAGIC, h), start := (RT_MEMHEAP_MAGIC, h), te := (MEM_USED, h)) \<and>
    (\<forall>x. x \<noteq> fh \<and> x \<noteq> start \<and> x \<noteq> te \<longrightarrow> items s' x = items s x)"
proof -
  define pool where "pool = (ucast (RT_ALIGN_DOWN4 sz) :: u32)"
  define av where "av = (ucast (ucast pool - 2 * RT_MEMHEAP_SIZE) :: u32)"
  note l = init_layout[OF i n pool_def av_def]
  have "unat te = unat start + 56 + n"
    unfolding te_def by (rule unat_add56) (use i l(7) in \<open>simp add: init_ok_def\<close>)
  then have ne: "start \<noteq> fh" "te \<noteq> start" "te \<noteq> fh" using i l(7) by (auto simp: init_ok_def fh_def)
  obtain k' where k: "rt_sem_init (heap_lock h) 1 RT_IPC_FLAG_FIFO (kernel s) = Some k'"
    "sem_value (sems k' (heap_lock h)) = 1" "queues k' (Suspended (Sem (heap_lock h))) = []"
    "\<forall>g. g \<noteq> h \<longrightarrow> sem_value (sems k' (heap_lock g)) = sem_value (sems (kernel s) (heap_lock g)) \<and>
       queues k' (Suspended (Sem (heap_lock g))) = queues (kernel s) (Suspended (Sem (heap_lock g)))"
    using rt_sem_init_lock[of h "kernel s"] by blast
  have mx: "unat (pool - av) = 112" using unat_sub[of av pool] l(1,2) by (simp add: word_le_nat_alt)
  have h0: "h \<noteq> 0" using i by (simp add: init_ok_def)
  have te: "start + ucast av + RT_MEMHEAP_SIZE = te" unfolding te_def l(3) by (simp only: ac_simps)
  define s3 where "s3 = upd_heap h (\<lambda>H. H\<lparr>free_list := fh\<rparr>) (upd_item fh (\<lambda>i. i\<lparr>magic := RT_MEMHEAP_MAGIC, pool_ptr := h,
    item_next := 0, item_prev := 0, next_free := fh, prev_free := fh\<rparr>) (upd_heap h (\<lambda>H. H\<lparr>start_addr := start, pool_size := pool,
    available_size := av, max_used_size := pool - av\<rparr>) (s\<lparr>memheap_list := h # memheap_list s\<rparr>)))"
  define s4 where "s4 = upd_item start (\<lambda>i. i\<lparr>magic := RT_MEMHEAP_MAGIC, pool_ptr := h, item_next := 0, item_prev := 0,
    next_free := start, prev_free := start, owner_thread_name := [32, 32, 32, 32]\<rparr>) s3"
  define s7 where "s7 = upd_heap h (\<lambda>H. H\<lparr>block_list := start\<rparr>) (set_block_prev start te (set_block_next start te s4))"
  define s8 where "s8 = free_insert h start s7"
  define s9 where "s9 = upd_item te (\<lambda>i. i\<lparr>magic := MEM_USED, pool_ptr := h, item_next := start, item_prev := start,
    next_free := 0, prev_free := 0\<rparr>) s8"
  have nx: "item_next (items (set_block_next start te s4) start) = te" by (simp add: link_fields)
  have nx8: "item_next (items s8 start) = te" by (simp add: link_fields s8_def s7_def)
  have init: "rt_memheap_init h start sz s = Some (s9\<lparr>kernel := k'\<rparr>)"
  proof -
    have "kernel s9 = kernel s"
      by (simp add: s9_def s8_def s7_def s4_def s3_def upd_item_def upd_heap_def free_insert_def Let_def set_block_next_def
          set_block_prev_def set_free_next_def set_free_prev_def)
    then show ?thesis
      unfolding rt_memheap_init_def Let_def pool_def[symmetric] av_def[symmetric] fh_def[symmetric] if_not_P[OF h0]
        s3_def[symmetric] s4_def[symmetric] te nx s7_def[symmetric] s8_def[symmetric] nx8 s9_def[symmetric]
      using k(1) by simp
  qed
  have mh: "memheaps s9 g = (if g = h then (memheaps s h)\<lparr>start_addr := start, pool_size := pool, available_size := av,
    max_used_size := pool - av, free_list := fh, block_list := start\<rparr> else memheaps s g)" for g
    by (simp add: s9_def s8_def s7_def s4_def s3_def upd_heap_def)
  have rest: "memheap_list s9 = h # memheap_list s" "system_heap s9 = system_heap s" "bytes s9 = bytes s"
    by (simp_all add: s9_def s8_def s7_def s4_def s3_def upd_item_def upd_heap_def free_insert_def Let_def set_block_next_def
        set_block_prev_def set_free_next_def set_free_prev_def)
  have B: "blk s9 = set_prev te start (set_next te start (set_prev start te (set_next start te (set_prev fh 0 (set_next fh 0 (blk s))))))"
    by (cases "blk s") (use ne in \<open>auto simp: s9_def s8_def s7_def s4_def s3_def links_upd_item set_next_def set_prev_def fun_eq_iff\<close>)
  have f3: "fre s3 = set_next fh fh (set_prev fh fh (fre s))" by (simp add: s3_def links_upd_item)
  have f7: "fre s7 = set_next start start (set_prev start start (fre s3))" by (simp add: s7_def s4_def links_upd_item)
  have "fre s8 = rt_list_insert_after fh start (fre s7)"
    unfolding s8_def by (rule free_insert_links) (use ne f3 f7 in \<open>simp_all add: s7_def s4_def s3_def upd_heap_def\<close>)
  then have F: "fre s9 = set_prev te 0 (set_next te 0 (set_prev fh start (set_next fh start (set_prev start fh (set_next start fh (fre s))))))"
    by (cases "fre s") (use ne f3 f7 in \<open>auto simp: s9_def links_upd_item rt_list_insert_after_def Let_def set_next_def set_prev_def fun_eq_iff\<close>)
  have D: "hdr s9 = (hdr s)(fh := (RT_MEMHEAP_MAGIC, h), start := (RT_MEMHEAP_MAGIC, h), te := (MEM_USED, h))"
    by (simp add: s9_def s8_def s7_def s4_def s3_def hdr_upd_item)
  have it: "items s9 x = items s x" if "x \<noteq> fh" "x \<noteq> start" "x \<noteq> te" for x
  proof -
    have nf: "next_of (fre s7) fh = fh" using f3 f7 ne by simp
    have fl: "free_list (memheaps s7 h) = fh" by (simp add: s7_def s4_def s3_def)
    have "only h {fh, start, te} s7 s8"
      unfolding s8_def free_insert_def Let_def fl by (intro only_set only_refl) (use nf ne in \<open>auto simp: link_fields\<close>)
    then have "items s8 x = items s7 x" using that by (simp add: only_def)
    then show ?thesis using that
      by (simp add: s9_def s7_def s4_def s3_def upd_item_def upd_heap_def set_block_next_def set_block_prev_def)
  qed
  have lf: "lock_free h (s9\<lparr>kernel := k'\<rparr>)" "\<And>g. g \<noteq> h \<Longrightarrow> lock_free g (s9\<lparr>kernel := k'\<rparr>) = lock_free g s"
    using k by (simp_all add: lock_free_def)
  show ?thesis
    by (intro exI[of _ "s9\<lparr>kernel := k'\<rparr>"] conjI allI impI)
      (use init lf mh rest B F D it l(2) mx in \<open>simp_all add: pool_def\<close>)
qed

lemma memheap_init_heap:
  assumes i: "init_ok h start sz" and n: "n = unat (RT_ALIGN_DOWN4 sz) - 112"
  shows "\<exists>s'. rt_memheap_init h start sz s = Some s' \<and> heap_inv h [(n, False)] [start] s' \<and> lock_free h s' \<and>
    memheap_list s' = h # memheap_list s \<and> system_heap s' = system_heap s \<and> bytes s' = bytes s \<and>
    (\<forall>g. g \<noteq> h \<longrightarrow> memheaps s' g = memheaps s g \<and> lock_free g s' = lock_free g s) \<and>
    hzone h s' = insert (free_header h) {x. unat start \<le> unat x \<and> unat x + 56 \<le> unat start + unat (RT_ALIGN_DOWN4 sz)} \<and>
    (\<forall>x. x \<notin> hzone h s' \<longrightarrow> items s' x = items s x)"
proof -
  let ?fh = "free_header h" and ?te = "start + 56 + of_nat n"
  note l = init_layout[OF i n refl refl]
  obtain s' where s': "rt_memheap_init h start sz s = Some s'" "lock_free h s'"
    "\<forall>g. g \<noteq> h \<longrightarrow> memheaps s' g = memheaps s g \<and> lock_free g s' = lock_free g s"
    "memheap_list s' = h # memheap_list s" "system_heap s' = system_heap s" "bytes s' = bytes s"
    and H: "start_addr (memheaps s' h) = start" "pool_size (memheaps s' h) = ucast (RT_ALIGN_DOWN4 sz)"
    "unat (available_size (memheaps s' h)) = n" "unat (max_used_size (memheaps s' h)) = 112"
    "block_list (memheaps s' h) = start" "free_list (memheaps s' h) = ?fh"
    and L: "blk s' = set_prev ?te start (set_next ?te start (set_prev start ?te (set_next start ?te (set_prev ?fh 0 (set_next ?fh 0 (blk s))))))"
    "fre s' = set_prev ?te 0 (set_next ?te 0 (set_prev ?fh start (set_next ?fh start (set_prev start ?fh (set_next start ?fh (fre s))))))"
    "hdr s' = (hdr s)(?fh := (RT_MEMHEAP_MAGIC, h), start := (RT_MEMHEAP_MAGIC, h), ?te := (MEM_USED, h))"
    and it: "\<forall>x. x \<noteq> ?fh \<and> x \<noteq> start \<and> x \<noteq> ?te \<longrightarrow> items s' x = items s x"
    using memheap_init_fields[OF i n, of s] by blast
  have te: "unat ?te = unat start + 56 + n" by (rule unat_add56) (use i l(7) in \<open>simp add: init_ok_def\<close>)
  have "unat start \<noteq> unat ?fh" "unat ?te \<noteq> unat start" "unat ?te \<noteq> unat ?fh" using te i l(7) unfolding init_ok_def by linarith+
  then have ne: "start \<noteq> ?fh" "?te \<noteq> start" "?te \<noteq> ?fh" by metis+
  have z: "(56 :: u64) + of_nat n \<noteq> 0" using ne(2) by (auto simp: add.assoc)
  have pool: "unat (pool_size (memheaps s' h)) = n + 112" using l(1) H(2) by simp
  have "layout {} h start [(n, False)] [start] (blk s') (fre s') (hdr s')"
    using ne z te i l(7) unfolding layout_def L by (auto simp: headers_def ring_of_def mark_def outside_def init_ok_def)
  then have "held {} h [(n, False)] [start] s'" using H by (simp add: held_def)
  moreover have "accounts [(n, False)] (memheaps s' h)" using pool H(3,4) l(6) by (simp add: accounts_def)
  ultimately have "heap_inv h [(n, False)] [start] s'" using l(4,5) H(1) i by (simp add: heap_inv_def init_ok_def)
  moreover have "unat (RT_ALIGN_DOWN4 sz) = n + 112" using n l(4,7) align_down[of sz] by linarith
  then have hz: "hzone h s' = insert ?fh {x. unat start \<le> unat x \<and> unat x + 56 \<le> unat start + unat (RT_ALIGN_DOWN4 sz)}"
    using pool H(1) by (simp add: hzone_def)
  moreover have "start \<in> hzone h s'" "?te \<in> hzone h s'" "?fh \<in> hzone h s'" using te pool H(1) by (simp_all add: hzone_def)
  then have "\<forall>x. x \<notin> hzone h s' \<longrightarrow> items s' x = items s x" using it by metis
  ultimately show ?thesis using s' by blast
qed

lemma memheap_init_world:
  assumes "init_ok h start sz" "heaps_ok Bs s \<or> memheap_list s = [] \<and> h = system_heap s" "h \<notin> set (memheap_list s)"
    "\<forall>k\<in>set (memheap_list s). hzone k s \<inter>
       insert (free_header h) {x. unat start \<le> unat x \<and> unat x + 56 \<le> unat start + unat (RT_ALIGN_DOWN4 sz)} = {}"
  shows "\<exists>s'. rt_memheap_init h start sz s = Some s' \<and>
    heaps_ok (Bs(h := [(unat (RT_ALIGN_DOWN4 sz) - 112, False)])) s' \<and>
    live (Bs(h := [(unat (RT_ALIGN_DOWN4 sz) - 112, False)])) s' = live Bs s \<and> bytes s' = bytes s"
proof -
  define n where "n = unat (RT_ALIGN_DOWN4 sz) - 112"
  let ?Z = "insert (free_header h) {x. unat start \<le> unat x \<and> unat x + 56 \<le> unat start + unat (RT_ALIGN_DOWN4 sz)}"
  obtain s' where s': "rt_memheap_init h start sz s = Some s'" "heap_inv h [(n, False)] [start] s'" "lock_free h s'"
    "memheap_list s' = h # memheap_list s" "system_heap s' = system_heap s" "bytes s' = bytes s"
    "\<forall>g. g \<noteq> h \<longrightarrow> memheaps s' g = memheaps s g \<and> lock_free g s' = lock_free g s" "hzone h s' = ?Z"
    "\<forall>x. x \<notin> hzone h s' \<longrightarrow> items s' x = items s x"
    using memheap_init_heap[OF assms(1) n_def, of s] by blast
  have ok: "heaps_ok Bs s" if "memheap_list s \<noteq> []" using assms(2) that by blast
  have hz: "hzone k s' = hzone k s" if "k \<noteq> h" for k using s'(7) that by (simp add: hzone_def)
  have other: "k \<noteq> 0 \<and> lock_free k s' \<and> (\<exists>fs. heap_inv k (Bs k) fs s')" if k: "k \<in> set (memheap_list s)" for k
  proof -
    have kh: "k \<noteq> h" and ok': "heaps_ok Bs s" using k assms(3) ok by (cases "memheap_list s"; force)+
    obtain fs where fs: "heap_inv k (Bs k) fs s" "k \<noteq> 0" "lock_free k s" using ok' k unfolding heaps_ok_def by blast
    have "items s' x = items s x" if "x \<in> insert (free_header k) (set (headers (start_addr (memheaps s k)) (Bs k)))" for x
      using headers_hzone[OF fs(1) that] assms(4) k s'(8,9) by blast
    moreover have "memheaps s' k = memheaps s k" using s'(7) kh by simp
    ultimately have "heap_inv k (Bs k) fs s'" using heap_inv_frame[OF fs(1)] by blast
    then show ?thesis using fs s'(7) kh by blast
  qed
  let ?B = "Bs(h := [(n, False)])"
  have "heaps_ok ?B s'"
    unfolding heaps_ok_def
  proof (intro conjI ballI impI)
    show "distinct (memheap_list s')" using s'(4) assms(3) ok by (cases "memheap_list s = []") (auto simp: heaps_ok_def)
    show "system_heap s' \<in> set (memheap_list s')" using s'(4,5) assms(2) ok by (auto simp: heaps_ok_def)
    fix k assume k: "k \<in> set (memheap_list s')"
    show "k \<noteq> 0" "lock_free k s'" "\<exists>fs. heap_inv k (?B k) fs s'"
      using k other[of k] s'(2,3,4) assms(1,3) by (auto simp: init_ok_def)
    fix g assume g: "g \<in> set (memheap_list s')" "k \<noteq> g"
    have "hzone k s \<inter> hzone g s = {}" if "k \<in> set (memheap_list s)" "g \<in> set (memheap_list s)"
      using ok that g(2) unfolding heaps_ok_def by (metis empty_iff empty_set)
    then show "hzone k s' \<inter> hzone g s' = {}"
      using k g s'(4,8) assms(4) hz by (cases "k = h"; cases "g = h") (auto simp: hz)
  qed
  moreover have "regions (start_addr (memheaps s' k)) (?B k) = regions (start_addr (memheaps s k)) (Bs k)"
    if "k \<in> set (memheap_list s)" for k
    using that s'(7) assms(3) by (cases "k = h") auto
  then have "live ?B s' = live Bs s" by (simp add: live_def s'(4))
  ultimately show ?thesis using s'(1,6) unfolding n_def by blast
qed

section \<open>A heap to run on\<close>

definition demo_heap :: mem_sys where
  "demo_heap = \<lparr>kernel = undefined, items = (\<lambda>x. undefined), memheaps = (\<lambda>h. undefined), memheap_list = [],
     system_heap = 0x1000, bytes = (\<lambda>x. 0), thread_name = (\<lambda>t i. 0), rt_errno = 0\<rparr>"

lemma request_demo: "request_size 100 = 100" "request_size 0xFFFFFFFFFFFFFFF8 = 0xFFFFFFFFFFFFFFF8"
  "request_size 0xFFFFFFFFFFFFFFFF = 12" "request_size 12 = 12"
  by (simp_all add: request_size_def RT_ALIGN4_def)

lemma demo_init: "\<exists>s Bs. heaps_ok Bs s \<and> live Bs s = {} \<and> memheap_list s = [0x1000] \<and> Bs 0x1000 = [(912, False)] \<and> system_heap s = 0x1000"
proof -
  have ok: "init_ok 0x1000 0x10000 1024" by (simp add: init_ok_def free_header_def)
  have al: "unat (RT_ALIGN_DOWN4 1024) = 1024" by (simp add: align_down)
  obtain s' where s': "rt_memheap_init 0x1000 0x10000 1024 demo_heap = Some s'"
    "heaps_ok ((\<lambda>h. [])(0x1000 := [(unat (RT_ALIGN_DOWN4 1024) - 112, False)])) s'"
    "live ((\<lambda>h. [])(0x1000 := [(unat (RT_ALIGN_DOWN4 1024) - 112, False)])) s' = live (\<lambda>h. []) demo_heap"
    using memheap_init_world[OF ok, of "\<lambda>h. []" demo_heap] by (auto simp: demo_heap_def)
  moreover have "memheap_list s' = [0x1000]" "system_heap s' = 0x1000"
    using memheap_init_heap[OF ok refl, of demo_heap] s'(1) by (auto simp: demo_heap_def)
  ultimately show ?thesis by (intro exI[of _ s'] exI[of _ "(\<lambda>h. [])(0x1000 := [(912, False)])"]) (simp add: al live_def demo_heap_def)
qed

lemma demo_alloc:
  "\<exists>s Bs p. heaps_ok Bs s \<and> live Bs s = {(p, 100)} \<and> Bs 0x1000 = [(100, True), (756, False)] \<and>
     memheap_list s = [0x1000] \<and> p = start_addr (memheaps s 0x1000) + 56"
proof -
  obtain s Bs where s: "heaps_ok Bs s" "memheap_list s = [0x1000]" "Bs 0x1000 = [(912, False)]" using demo_init by blast
  have h: "0x1000 \<in> set (memheap_list s)" using s(2) by simp
  obtain fs where i: "heap_inv 0x1000 [(912, False)] fs s" and l: "lock_free 0x1000 s" and m: "is_memheap 0x1000 s"
    using s h unfolding heaps_ok_def is_memheap_def by (metis (no_types))
  let ?a = "start_addr (memheaps s 0x1000)"
  have k: "(100 :: nat) = unat (request_size 100)" by (simp add: request_demo)
  obtain p s' where "(p = 0 \<and> s' = s \<and> (free_bytes [(912, False)] \<le> 100 \<or> (\<forall>j. (j, False) \<in> set [(912 :: nat, False)] \<longrightarrow> j < 100))) \<or>
     (\<exists>xs j ys fs'. [(912, False)] = xs @ (j, False) # ys \<and> 100 \<le> j \<and> p = after ?a xs + 56 \<and>
        heap_inv 0x1000 (xs @ carve 100 j @ ys) fs' s' \<and> only 0x1000 (zone 0x1000 [(912, False)] s) s s')"
    using memheap_alloc_spec[OF i l m k] by (elim exE conjE) (rule that)
  then have "\<exists>xs j ys fs'. [(912, False)] = xs @ (j, False) # ys \<and> 100 \<le> j \<and> p = after ?a xs + 56 \<and>
        heap_inv 0x1000 (xs @ carve 100 j @ ys) fs' s' \<and> only 0x1000 (zone 0x1000 [(912, False)] s) s s'" by simp
  then obtain xs j ys fs' where b: "[(912, False)] = xs @ (j, False) # ys" "p = after ?a xs + 56"
    "heap_inv 0x1000 (xs @ carve 100 j @ ys) fs' s'" "only 0x1000 (zone 0x1000 [(912, False)] s) s s'" by blast
  have "xs = [] \<and> j = 912 \<and> ys = []" using b(1) by (cases xs) auto
  then have bs: "xs @ carve 100 j @ ys = [(100, True), (756, False)]" and p: "p = ?a + 56" using b(2) by (simp_all add: carve_def)
  have o: "only 0x1000 (hzone 0x1000 s) s s'" using b(4) zone_hzone[OF i] by simp
  note st = heaps_ok_step[OF s(1) h b(3)[unfolded bs] o]
  have "live (Bs(0x1000 := [(100, True), (756, False)])) s' = {(p, 100)}" using st(3,4) s(2) p by (simp add: live_def)
  then show ?thesis using st p s(2)
    by (intro exI[of _ s'] exI[of _ "Bs(0x1000 := [(100, True), (756, False)])"] exI[of _ p]) simp
qed

section \<open>Sequences of calls\<close>

text \<open>
  A program that uses the heap: \<open>C\<close> is the set of pointers it holds. Between its calls the other threads may
  change the kernel's state as long as the locks are free again, and the program may overwrite its regions,
  which can hold what look like block headers.
\<close>

definition in_region :: "u64 \<Rightarrow> mem_sys \<Rightarrow> u64 \<Rightarrow> bool" where
  "in_region p s x \<longleftrightarrow> unat p \<le> unat x \<and> unat x < unat p + unat (MEMITEM_SIZE (p - RT_MEMHEAP_SIZE) s)"

inductive heap_reach :: "mem_sys \<Rightarrow> u64 set \<Rightarrow> bool" where
  start: "heaps_ok Bs s \<Longrightarrow> live Bs s = {} \<Longrightarrow> heap_reach s {}"
| malloc: "heap_reach s C \<Longrightarrow> rt_malloc n s = Done p s' \<Longrightarrow> heap_reach s' (if p = 0 then C else insert p C)"
| calloc: "heap_reach s C \<Longrightarrow> rt_calloc m n s = Done p s' \<Longrightarrow> heap_reach s' (if p = 0 then C else insert p C)"
| free: "heap_reach s C \<Longrightarrow> p \<in> insert 0 C \<Longrightarrow> rt_free p s = Done () s' \<Longrightarrow> heap_reach s' (C - {p})"
| realloc: "heap_reach s C \<Longrightarrow> p \<in> C \<Longrightarrow> r \<noteq> 0 \<Longrightarrow> unat r \<le> 2 ^ 64 - 16 \<Longrightarrow> rt_realloc p r s = Done q s' \<Longrightarrow>
    heap_reach s' (if q = 0 then C else insert q (C - {p}))"
| scribble: "heap_reach s C \<Longrightarrow> (\<And>x. its x \<noteq> items s x \<Longrightarrow> \<exists>p\<in>C. in_region p s x) \<Longrightarrow> heap_reach (s\<lparr>items := its, bytes := b\<rparr>) C"
| others: "heap_reach s C \<Longrightarrow> (\<And>h. h \<in> set (memheap_list s) \<Longrightarrow> lock_free h (s\<lparr>kernel := k\<rparr>)) \<Longrightarrow> heap_reach (s\<lparr>kernel := k\<rparr>) C"

text \<open>No header lies in a region.\<close>

lemma regions_headers:
  "unat a + total bs < 2 ^ 64 \<Longrightarrow> x \<in> set (headers a bs) \<Longrightarrow> (p, n) \<in> set (regions a bs) \<Longrightarrow> unat p \<le> unat x \<Longrightarrow>
   unat x < unat p + n \<Longrightarrow> False"
proof (induction bs arbitrary: a)
  case (Cons b bs)
  let ?a = "a + 56 + of_nat (fst b)"
  have e: "unat ?a = unat a + 56 + fst b" by (rule unat_add56) (use Cons.prems in simp)
  have e0: "unat (a + 56) = unat a + 56" using unat_add56[of a 0] Cons.prems(1) by simp
  have x: "x = a \<or> x \<in> set (headers ?a bs)" using Cons.prems(2) by (simp add: headers_Cons)
  have p: "(p, n) \<in> set (regions ?a bs) \<or> p = a + 56 \<and> n = fst b" using Cons.prems(3) by (auto split: if_splits)
  have xr: "unat ?a \<le> unat x" if "x \<in> set (headers ?a bs)" using headers_range[of ?a bs x] that e Cons.prems(1) by simp
  have pr: "unat a < unat p" using p e e0 regions_range[of ?a bs p n] Cons.prems(1) by auto
  show ?case using Cons.IH[of ?a] x p xr pr e e0 Cons.prems(1,4,5) by auto
qed (simp add: headers_def)

lemma reach_write:
  assumes ok: "heaps_ok Bs s" and w: "\<And>x. its x \<noteq> items s x \<Longrightarrow> \<exists>(p, n)\<in>live Bs s. unat p \<le> unat x \<and> unat x < unat p + n"
  shows "heaps_ok Bs (s\<lparr>items := its\<rparr>)"
proof -
  have "\<exists>fs. heap_inv h (Bs h) fs (s\<lparr>items := its\<rparr>)" if h: "h \<in> set (memheap_list s)" for h
  proof -
    let ?a = "start_addr (memheaps s h)"
    obtain fs where i: "heap_inv h (Bs h) fs s" using ok h unfolding heaps_ok_def by blast
    have "its x = items s x" if x: "x \<in> insert (free_header h) (set (headers ?a (Bs h)))" for x
    proof (rule ccontr)
      assume "its x \<noteq> items s x"
      then obtain p n where p: "(p, n) \<in> live Bs s" "unat p \<le> unat x" "unat x < unat p + n" using w by blast
      obtain k gs where k: "k \<in> set (memheap_list s)" "heap_inv k (Bs k) gs s" "(p, n) \<in> set (regions (start_addr (memheaps s k)) (Bs k))"
        using live_heap[OF ok p(1)] by blast
      have "x \<in> hzone k s" using heap_regions(1,3)[OF k(2,3)] p(2,3) by (simp add: hzone_def)
      moreover have "x \<in> hzone h s" by (rule headers_hzone[OF i x])
      ultimately have kh: "k = h" using ok h k(1) unfolding heaps_ok_def by blast
      note d = layoutD[OF held_layout[OF heap_invD(1)[OF i]]]
      have "x \<noteq> free_header h"
        using d(3) heap_regions(1,3)[OF k(2,3)] p(2,3) heap_invD(4)[OF i] unfolding kh outside_def accounts_def by auto
      then have "x \<in> set (headers ?a (Bs h))" using x by simp
      then show False using regions_headers[OF _ _ k(3)[unfolded kh] p(2,3)] d(2) by simp
    qed
    then have "heap_inv h (Bs h) fs (s\<lparr>items := its\<rparr>)" by (intro heap_inv_frame[OF i]) simp_all
    then show ?thesis by blast
  qed
  then show ?thesis using ok by (auto simp: heaps_ok_def hzone_def lock_free_def)
qed

lemma reach_malloc:
  assumes ok: "heaps_ok Bs s" and m: "rt_malloc n s = Done p s'"
  shows "\<exists>Bs'. heaps_ok Bs' s' \<and> (if p = 0 then fst ` live Bs s else insert p (fst ` live Bs s)) = fst ` live Bs' s'"
  using malloc_spec[OF ok, of n]
proof (elim disjE conjE exE)
  assume "rt_malloc n s = Done 0 s"
  then show ?thesis using m ok by auto
next
  fix q t assume "rt_malloc n s = Done q t" "allocated Bs s (unat (request_size n)) q t" "q \<noteq> 0"
  then have q: "allocated Bs s (unat (request_size n)) p s'" "p \<noteq> 0" using m by simp_all
  then obtain Bs' j where "heaps_ok Bs' s'" "live Bs' s' = insert (p, j) (live Bs s)" unfolding allocated_def by blast
  then show ?thesis using q(2) by (intro exI[of _ Bs']) simp
qed

lemma live_items [simp]: "live Bs (s\<lparr>items := its\<rparr>) = live Bs s" "live Bs (s\<lparr>kernel := k\<rparr>) = live Bs s"
  by (simp_all add: live_def)

lemma fst_remove:
  assumes ok: "heaps_ok Bs s" and p: "(p, n) \<in> live Bs s"
  shows "fst ` (live Bs s - {(p, n)}) = fst ` live Bs s - {p}"
proof -
  have "fst r \<noteq> p" if "r \<in> live Bs s" "r \<noteq> (p, n)" for r
    using live_unique[OF ok p, of "snd r"] that by (cases r) auto
  then show ?thesis by force
qed

lemma reach_sound: "heap_reach s C \<Longrightarrow> \<exists>Bs. heaps_ok Bs s \<and> C = fst ` live Bs s"
proof (induction rule: heap_reach.induct)
  case (start Bs s)
  then show ?case by auto
next
  case (malloc s C n p s')
  then show ?case using reach_malloc by blast
next
  case (calloc s C m n p s')
  then obtain Bs where ok: "heaps_ok Bs s" "C = fst ` live Bs s" by blast
  obtain q t where m: "rt_malloc (m * n) s = Done q t" using malloc_spec[OF ok(1), of "m * n"] by blast
  then have p: "q = p" "s' = (if p \<noteq> 0 then fill_bytes p 0 (m * n) t else t)" using calloc.hyps(2) by (auto simp: rt_calloc_def)
  obtain Bs' where "heaps_ok Bs' t" "(if p = 0 then C else insert p C) = fst ` live Bs' t"
    using reach_malloc[OF ok(1) m] ok(2) p(1) by blast
  then show ?case using p(2) by (auto simp: fill_bytes_def)
next
  case (free s C p s')
  then obtain Bs where ok: "heaps_ok Bs s" "C = fst ` live Bs s" by blast
  show ?case
  proof (cases "p \<in> C")
    case False
    then have "p = 0" "s' = s" using free.hyps(2,3) by (auto simp: rt_free_def rt_memheap_free_def)
    then show ?thesis using False ok by auto
  next
    case True
    then obtain n where n: "(p, n) \<in> live Bs s" using ok(2) by auto
    obtain t Bs' where "rt_memheap_free p s = Done () t" "heaps_ok Bs' t" "live Bs' t = live Bs s - {(p, n)}"
      using heap_free[OF ok(1) n] by blast
    then show ?thesis using free.hyps(3) fst_remove[OF ok(1) n] ok(2) by (intro exI[of _ Bs']) (simp add: rt_free_def)
  qed
next
  case (realloc s C p r q s')
  then obtain Bs where ok: "heaps_ok Bs s" "C = fst ` live Bs s" by blast
  obtain n where n: "(p, n) \<in> live Bs s" using ok(2) realloc.hyps(2) by auto
  show ?case
    using realloc_spec[OF ok(1) n realloc.hyps(3,4)]
  proof (elim disjE exE conjE)
    assume "rt_realloc p r s = Done 0 s"
    then show ?thesis using realloc.hyps(5) ok by auto
  next
    fix q' t assume e: "rt_realloc p r s = Done q' t" "reallocated Bs s p n (unat (request_size r)) (min n (unat r)) q' t"
    then obtain Bs' j where b: "q' \<noteq> 0" "heaps_ok Bs' t" "live Bs' t = insert (q', j) (live Bs s - {(p, n)})"
      unfolding reallocated_def by blast
    have "q' = q" "t = s'" using e(1) realloc.hyps(5) by simp_all
    then show ?thesis using b fst_remove[OF ok(1) n] ok(2) by (intro exI[of _ Bs']) simp
  qed
next
  case (scribble s C its b)
  then obtain Bs where ok: "heaps_ok Bs s" "C = fst ` live Bs s" by blast
  have "heaps_ok Bs (s\<lparr>items := its\<rparr>)"
  proof (rule reach_write[OF ok(1)])
    fix x assume "its x \<noteq> items s x"
    then obtain p where p: "p \<in> C" "in_region p s x" using scribble.hyps(2) by blast
    then obtain n where n: "(p, n) \<in> live Bs s" using ok(2) by auto
    have "unat (of_nat n :: u64) = n" using live_size(2)[OF ok(1) n] by (intro unat_of_nat_small) simp
    then show "\<exists>(p, n)\<in>live Bs s. unat p \<le> unat x \<and> unat x < unat p + n"
      using n p(2) live_size(1)[OF ok(1) n] by (auto simp: in_region_def)
  qed
  moreover have "s\<lparr>items := its, bytes := b\<rparr> = (s\<lparr>items := its\<rparr>)\<lparr>bytes := b\<rparr>" by simp
  ultimately show ?case using ok(2) by (metis bytes_heaps live_items(1))
next
  case (others s C k)
  then obtain Bs where ok: "heaps_ok Bs s" "C = fst ` live Bs s" by blast
  have "heaps_ok Bs (s\<lparr>kernel := k\<rparr>)"
    using ok(1) others.hyps(2) by (auto simp: heaps_ok_def hzone_def)
  then show ?case using ok(2) by auto
qed

lemma all_free_one:
  assumes "coalesced bs" "bs \<noteq> []" "regions a bs = []"
  shows "\<exists>n. bs = [(n, False)]"
proof -
  have nu: "\<not> snd b" if "b \<in> set bs" for b
    using that assms(3) by (induction bs arbitrary: a) (auto split: if_splits)
  obtain c cs where bs: "bs = c # cs" using assms(2) by (cases bs) auto
  have "cs = []"
    using assms(1) nu unfolding bs by (cases cs) (auto simp: coalesced_Cons)
  then show ?thesis using nu bs by (cases c) auto
qed

lemma free_used_total: "free_bytes bs + sum_list (map snd (regions a bs)) + 56 * length bs = total bs"
proof (induction bs arbitrary: a)
  case (Cons b bs)
  show ?case using Cons.IH[of "a + 56 + of_nat (fst b)"] by simp
qed simp

section \<open>The properties\<close>

text \<open>
  Initialising a heap on an aligned pool of at least 124 bytes, apart from the heaps there are, makes the
  pool one free block of all but the two headers: the invariant of all heaps holds, with this one in addition
  and no region handed out in it, and the regions of the others are as before.
\<close>

theorem memheap_init_correct:
  assumes "init_ok h start sz" "heaps_ok Bs s \<or> memheap_list s = [] \<and> h = system_heap s" "h \<notin> set (memheap_list s)"
    "\<forall>k\<in>set (memheap_list s). hzone k s \<inter>
       insert (free_header h) {x. unat start \<le> unat x \<and> unat x + 56 \<le> unat start + unat (RT_ALIGN_DOWN4 sz)} = {}"
  shows "\<exists>s'. rt_memheap_init h start sz s = Some s' \<and>
    heaps_ok (Bs(h := [(unat (RT_ALIGN_DOWN4 sz) - 112, False)])) s' \<and>
    live (Bs(h := [(unat (RT_ALIGN_DOWN4 sz) - 112, False)])) s' = live Bs s \<and> bytes s' = bytes s"
  by (rule memheap_init_world[OF assms])

lemma memheap_init_correct_witness:
  "\<exists>s' Bs. rt_memheap_init 0x1000 0x10000 1024 demo_heap = Some s' \<and> heaps_ok Bs s' \<and> live Bs s' = {}"
proof -
  have "init_ok 0x1000 0x10000 1024" by (simp add: init_ok_def free_header_def)
  moreover have l: "memheap_list demo_heap = []" and "0x1000 = system_heap demo_heap" by (simp_all add: demo_heap_def)
  then have "heaps_ok (\<lambda>h. []) demo_heap \<or> memheap_list demo_heap = [] \<and> 0x1000 = system_heap demo_heap" by simp
  moreover have "0x1000 \<notin> set (memheap_list demo_heap)" by (simp add: l)
  moreover have "\<forall>k\<in>set (memheap_list demo_heap). hzone k demo_heap \<inter> insert (free_header 0x1000)
    {x. unat (0x10000 :: u64) \<le> unat x \<and> unat x + 56 \<le> unat (0x10000 :: u64) + unat (RT_ALIGN_DOWN4 1024)} = {}" by (simp add: l)
  ultimately have "\<exists>s'. rt_memheap_init 0x1000 0x10000 1024 demo_heap = Some s' \<and>
    heaps_ok ((\<lambda>h. [])(0x1000 := [(unat (RT_ALIGN_DOWN4 1024) - 112, False)])) s' \<and>
    live ((\<lambda>h. [])(0x1000 := [(unat (RT_ALIGN_DOWN4 1024) - 112, False)])) s' = live (\<lambda>h. []) demo_heap \<and> bytes s' = bytes demo_heap"
    by (rule memheap_init_correct)
  moreover have "live (\<lambda>h. []) demo_heap = {}" by (simp add: live_def)
  ultimately show ?thesis by metis
qed

text \<open>
  C11. rt_malloc hands out a region of at least the size asked for (sizes that do not wrap when aligned),
  4-byte aligned, not overlapping any region in use, and changes nothing else a client sees; it returns NULL,
  without any change, only if in every heap the request is not below the bytes available or no free block is
  large enough.
\<close>

theorem malloc_correct:
  assumes "heaps_ok Bs s"
  shows "rt_malloc n s = Done 0 s \<and> (\<forall>h\<in>set (memheap_list s). no_room (unat (request_size n)) (Bs h)) \<or>
    (\<exists>p s' Bs' j. rt_malloc n s = Done p s' \<and> p \<noteq> 0 \<and> heaps_ok Bs' s' \<and> rest_of s' = rest_of s \<and>
      (unat n \<le> 2 ^ 64 - 4 \<longrightarrow> unat n \<le> j) \<and> live Bs' s' = insert (p, j) (live Bs s) \<and> 4 dvd unat p \<and>
      (\<forall>r\<in>live Bs s. apart_regions (p, j) r))"
  using malloc_spec[OF assms, of n]
proof (elim disjE conjE exE)
  fix p s' assume m: "rt_malloc n s = Done p s'" "allocated Bs s (unat (request_size n)) p s'" "p \<noteq> 0"
  obtain Bs' j where a: "heaps_ok Bs' s'" "rest_of s' = rest_of s" "unat (request_size n) \<le> j"
    "live Bs' s' = insert (p, j) (live Bs s)" "p \<notin> fst ` live Bs s" using m(2) unfolding allocated_def by blast
  have pj: "(p, j) \<in> live Bs' s'" using a(4) by simp
  have "4 dvd unat p" using live_heap[OF a(1) pj] heap_regions(4) by blast
  moreover have "apart_regions (p, j) r" if "r \<in> live Bs s" for r
    by (rule live_apart[OF a(1) pj]) (use that a(4,5) in force)+
  moreover have "unat n \<le> 2 ^ 64 - 4 \<longrightarrow> unat n \<le> j" using request_covers[of n] a(3) by auto
  ultimately show ?thesis using m(1,3) a(1,2,4) by blast
qed blast

lemma malloc_correct_witness: "\<exists>s p s'. rt_malloc 100 s = Done p s' \<and> p \<noteq> 0"
proof -
  obtain s Bs where s: "heaps_ok Bs s" "memheap_list s = [0x1000]" "Bs 0x1000 = [(912, False)]" using demo_init by blast
  have "\<not> no_room (unat (request_size 100)) (Bs 0x1000)" by (simp add: no_room_def s(3) request_demo)
  then have "\<not> (\<forall>h\<in>set (memheap_list s). no_room (unat (request_size 100)) (Bs h))" using s(2) by simp
  then show ?thesis using malloc_correct[OF s(1), of 100] by blast
qed

text \<open>
  C13. rt_free takes exactly the region of its argument away from the regions in use: the call returns, all
  other regions keep their place and size, and no byte of memory changes.
\<close>

theorem free_correct:
  assumes "heaps_ok Bs s" "(p, n) \<in> live Bs s"
  shows "\<exists>s' Bs'. rt_free p s = Done () s' \<and> heaps_ok Bs' s' \<and> rest_of s' = rest_of s \<and> live Bs' s' = live Bs s - {(p, n)}"
  unfolding rt_free_def by (rule heap_free[OF assms])

lemma free_correct_witness: "\<exists>s p s' Bs'. rt_free p s = Done () s' \<and> heaps_ok Bs' s' \<and> live Bs' s' = {}"
proof -
  obtain s Bs p where s: "heaps_ok Bs s" "live Bs s = {(p, 100)}" using demo_alloc by blast
  have "(p, 100) \<in> live Bs s" using s(2) by simp
  from free_correct[OF s(1) this] show ?thesis using s(2) by (metis Diff_cancel)
qed

text \<open>
  C12. rt_realloc of a region in use to a size that does not wrap returns NULL and changes nothing, or returns
  a region of at least that size in place of the old one: the bytes up to the smaller of the two sizes are
  those of the old region, and the bytes of all other regions stay.
\<close>

theorem realloc_correct:
  assumes "heaps_ok Bs s" "(p, n) \<in> live Bs s" "r \<noteq> 0" "unat r \<le> 2 ^ 64 - 16"
  shows "rt_realloc p r s = Done 0 s \<or>
    (\<exists>q s' Bs' j. rt_realloc p r s = Done q s' \<and> q \<noteq> 0 \<and> heaps_ok Bs' s' \<and> kernel s' = kernel s \<and> unat r \<le> j \<and>
      live Bs' s' = insert (q, j) (live Bs s - {(p, n)}) \<and>
      (\<forall>i < min n (unat r). bytes s' (q + of_nat i) = bytes s (p + of_nat i)) \<and>
      (\<forall>(q', m)\<in>live Bs s - {(p, n)}. \<forall>i<m. bytes s' (q' + of_nat i) = bytes s (q' + of_nat i)))"
proof -
  have "unat r \<le> unat (request_size r)" by (rule request_covers) (use assms(4) in simp)
  then show ?thesis using realloc_spec[OF assms] unfolding reallocated_def moved_def case_prod_beta by fastforce
qed

lemma realloc_correct_witness: "\<exists>s p q s' Bs' j. rt_realloc p 400 s = Done q s' \<and> (q = 0 \<or> heaps_ok Bs' s' \<and> live Bs' s' = {(q, j)})"
proof -
  obtain s Bs p where s: "heaps_ok Bs s" "live Bs s = {(p, 100)}" using demo_alloc by blast
  have pl: "(p, 100) \<in> live Bs s" using s(2) by simp
  have "(400 :: u64) \<noteq> 0" "unat (400 :: u64) \<le> 2 ^ 64 - 16" by simp_all
  from realloc_correct[OF s(1) pl this] show ?thesis using s(2) by (metis Diff_cancel)
qed





text \<open>
  C14. Allocating from a heap and freeing the result gives the heap's list of blocks back: the split is undone
  by merging, and as much is available as before.
\<close>

theorem alloc_free_roundtrip:
  assumes "heap_inv h bs fs s" "lock_free h s" "is_memheap h s" "rt_memheap_alloc h n s = Done p s1" "p \<noteq> 0"
  shows "\<exists>s2 fs2. rt_memheap_free p s1 = Done () s2 \<and> heap_inv h bs fs2 s2 \<and>
    available_size (memheaps s2 h) = available_size (memheaps s h) \<and> kernel s2 = kernel s"
proof -
  let ?k = "unat (request_size n)"
  have "\<exists>xs j ys fs'. bs = xs @ (j, False) # ys \<and> ?k \<le> j \<and> p = after (start_addr (memheaps s h)) xs + 56 \<and>
        heap_inv h (xs @ carve ?k j @ ys) fs' s1 \<and> only h (zone h bs s) s s1"
  proof -
    from memheap_alloc_spec[OF assms(1-3) refl, of n] show ?thesis
    proof (elim exE conjE disjE)
      fix q t xs j ys fs'
      assume "rt_memheap_alloc h n s = Done q t" "bs = xs @ (j, False) # ys" "?k \<le> j"
        "q = after (start_addr (memheaps s h)) xs + 56" "heap_inv h (xs @ carve ?k j @ ys) fs' t" "only h (zone h bs s) s t"
      moreover have "q = p" "t = s1" using calculation(1) assms(4) by simp_all
      ultimately show ?thesis by blast
    qed (use assms(4,5) in simp_all)
  qed
  then obtain xs j ys fs' where b: "bs = xs @ (j, False) # ys" "?k \<le> j" "p = after (start_addr (memheaps s h)) xs + 56"
    and i1: "heap_inv h (xs @ carve ?k j @ ys) fs' s1" and o1: "only h (zone h bs s) s s1" by blast
  obtain j' zs where c: "carve ?k j = (j', True) # zs" by (cases "?k + 68 \<le> j") (auto simp: carve_def)
  have r1: "kernel s1 = kernel s" "memheap_list s1 = memheap_list s" using o1 by (simp_all add: only_def rest_of_def)
  have i1': "heap_inv h (xs @ (j', True) # (zs @ ys)) fs' s1" using i1 c by simp
  have "lock_free h s1" "is_memheap h s1" using assms(2,3) r1 by (simp_all add: lock_free_def is_memheap_def)
  moreover have "p = after (start_addr (memheaps s1 h)) xs + 56" using b(3) only_heap[OF o1] by simp
  ultimately obtain s2 fs2 where f: "rt_memheap_free p s1 = Done () s2" "heap_inv h (release xs j' (zs @ ys)) fs2 s2"
    "only h (zone h (xs @ (j', True) # (zs @ ys)) s1) s1 s2"
    using memheap_free_spec[OF i1'] by blast
  have "release xs j' (zs @ ys) = bs"
    using release_carve[OF _ b(2) c, of xs ys] heap_invD(3)[OF assms(1)] b(1) by simp
  then have i2: "heap_inv h bs fs2 s2" using f(2) by simp
  then have "unat (available_size (memheaps s2 h)) = unat (available_size (memheaps s h))"
    using heap_invD(4)[OF assms(1)] heap_invD(4)[OF i2] by (simp add: accounts_def)
  moreover have "kernel s2 = kernel s" using f(3) r1(1) by (simp add: only_def rest_of_def)
  ultimately show ?thesis using f(1) i2 by (auto simp: word_unat_eq_iff)
qed

lemma alloc_free_roundtrip_witness:
  "\<exists>s p s1 s2. rt_memheap_alloc 0x1000 100 s = Done p s1 \<and> p \<noteq> 0 \<and> rt_memheap_free p s1 = Done () s2"
proof -
  obtain s Bs where s: "heaps_ok Bs s" "memheap_list s = [0x1000]" "Bs 0x1000 = [(912, False)]" using demo_init by blast
  have h: "0x1000 \<in> set (memheap_list s)" using s(2) by simp
  obtain fs where i: "heap_inv 0x1000 (Bs 0x1000) fs s" and l: "lock_free 0x1000 s" and m: "is_memheap 0x1000 s"
    using s(1) h unfolding heaps_ok_def is_memheap_def by (metis (no_types))
  have "\<not> no_room (unat (request_size 100)) (Bs 0x1000)" by (simp add: no_room_def s(3) request_demo)
  then obtain p s1 where a: "rt_memheap_alloc 0x1000 100 s = Done p s1" "p \<noteq> 0" using heap_alloc_cases[OF s(1) h, of 100] by metis
  then show ?thesis using alloc_free_roundtrip[OF i l m a] by blast
qed

text \<open>
  Requests are rounded up before they are checked, in arithmetic that wraps: rt_malloc of the largest size
  is rt_malloc of 12 bytes, and rt_calloc multiplies without a check, so that a wrapped product is what is
  allocated: the caller gets a block far smaller than the one asked for.
\<close>

theorem malloc_wraps:
  "rt_malloc 0xFFFFFFFFFFFFFFFF s = rt_malloc 12 s \<and> rt_calloc 0x2000000000000001 8 s = rt_calloc 1 8 s"
proof -
  have e: "rt_memheap_alloc h 0xFFFFFFFFFFFFFFFF s = rt_memheap_alloc h 12 s" for h s
    unfolding rt_memheap_alloc_def request_demo ..
  have "malloc_others hs 0xFFFFFFFFFFFFFFFF = malloc_others hs 12" for hs
    by (induction hs) (auto simp: e intro!: ext cong: if_cong)
  then have "rt_malloc 0xFFFFFFFFFFFFFFFF s = rt_malloc 12 s" unfolding rt_malloc_def e by (simp cong: if_cong)
  moreover have "rt_calloc 0x2000000000000001 8 s = rt_calloc 1 8 s"
  proof -
    have "(0x2000000000000001 :: u64) * 8 = 1 * 8" by simp
    then show ?thesis unfolding rt_calloc_def by (rule arg_cong)
  qed
  ultimately show ?thesis by blast
qed

text \<open>
  What growing in place leaves in the header of the block: its next block is the new free one.
\<close>

lemma link_kernel [simp]:
  "kernel (upd_item a f s) = kernel s" "kernel (upd_heap h g s) = kernel s" "kernel (set_block_next a x s) = kernel s"
  "kernel (set_block_prev a x s) = kernel s" "kernel (set_free_next a x s) = kernel s" "kernel (set_free_prev a x s) = kernel s"
  by (simp_all add: set_block_next_def set_block_prev_def set_free_next_def set_free_prev_def upd_item_def upd_heap_def)

lemma chain_kernel [simp]:
  "kernel (free_insert h a s) = kernel s" "kernel (new_block h a b s) = kernel s" "kernel (block_unlink a s) = kernel s"
  "kernel (free_unlink a s) = kernel s" "kernel (note_used h s) = kernel s"
  unfolding free_insert_def new_block_def block_unlink_def free_unlink_def note_used_def Let_def by (simp_all split: if_splits)

lemma expand_kernel [simp]: "kernel (expand_block h a o' k s) = kernel s"
  unfolding expand_block_def Let_def by simp

lemma free_insert_next [simp]: "item_next (items (free_insert h b s) x) = item_next (items s x)"
  by (simp add: free_insert_def Let_def set_free_next_def set_free_prev_def upd_item_def)

lemma expand_next: "item_next (items (expand_block h a o' k s) a) = a + RT_MEMHEAP_SIZE + k"
  unfolding expand_block_def Let_def free_insert_next
  by (simp add: new_block_def Let_def set_block_next_def upd_item_def)

text \<open>
  The check whether a block can grow in place adds 12 to the new size in arithmetic that wraps:
  rt_memheap_realloc of a block whose successor is free to a size just below the end of the address space
  answers with the block itself, and the size its header then records is the one asked for, so that no layout
  of the heaps describes the state.
\<close>

theorem realloc_wraps:
  assumes "heaps_ok Bs s" "h \<in> set (memheap_list s)" "Bs h = xs @ (n, True) # (m, False) # ys"
    "p = after (start_addr (memheaps s h)) xs + 56"
  shows "\<exists>s'. rt_memheap_realloc h p 0xFFFFFFFFFFFFFFF8 s = Done p s' \<and>
    MEMITEM_SIZE (p - RT_MEMHEAP_SIZE) s' = 0xFFFFFFFFFFFFFFF8 \<and> (\<forall>Bs' j. (p, j) \<in> live Bs' s' \<longrightarrow> \<not> heaps_ok Bs' s')"
proof -
  define x where "x = after (start_addr (memheaps s h)) xs"
  let ?k = "0xFFFFFFFFFFFFFFF8 :: u64" and ?s1 = "lock_taken h s"
  obtain fs where i: "heap_inv h (xs @ (n, True) # (m, False) # ys) fs s" and l: "lock_free h s" and mh: "is_memheap h s"
    using assms(1-3) unfolding heaps_ok_def is_memheap_def by metis
  have px: "p - 56 = x" "p \<noteq> 0" using assms(4) block_ptr(2)[OF i refl] by (simp_all add: x_def)
  have wrap: "(?k + 12 :: u64) = 4" by simp
  note sz = inv_size[OF i x_def]
  have i1: "heap_inv h (xs @ (n, True) # (m, False) # ys) fs ?s1" and x1: "x = after (start_addr (memheaps ?s1 h)) xs"
    using i by (simp_all add: x_def)
  have i2: "heap_inv h ((xs @ [(n, True)]) @ (m, False) # ys) fs ?s1" using i1 by simp
  have nx: "item_next (items ?s1 x) = after (start_addr (memheaps ?s1 h)) (xs @ [(n, True)])"
    using item_size(2)[OF heap_invD(1)[OF i1] x1] x1 by simp
  note sm = inv_size(1,3)[OF i2 nx]
  have "unat (x + 56 + of_nat n) = unat x + 56 + n" using block_addr[OF held_layout[OF heap_invD(1)[OF i]]] x_def by simp
  then have gt: "item_next (items ?s1 x) > x"
    using item_size(2)[OF heap_invD(1)[OF i1] x1] by (simp add: word_less_nat_alt)
  have "sint (of_nat m :: u32) = int m" using sm(2) by (simp add: signed_of_nat signed_take_bit_int_eq_self)
  then have sc: "(scast (ucast (of_nat m :: u64) :: u32) :: u64) = of_nat m" using sm(2) by (simp add: scast_eq)
  have "unat (of_nat (m + n) :: u64) = m + n" by (rule unat_of_nat_small) (use sz(3) sm(2) in simp)
  then have "(4 :: u64) < of_nat (m + n)" using sz(4) by (simp only: word_less_nat_alt) simp
  then have "(?k + 12 :: u64) < of_nat m + of_nat n" unfolding wrap by simp
  then have ce: "can_expand x (of_nat n) ?k ?s1"
    using right_used[OF heap_invD(1)[OF i1] x1] unfolding can_expand_def Let_def sm(1) sc by simp
  let ?t = "expand_block h x (of_nat n) ?k ?s1"
  have un: "unat (of_nat n :: u64) = n" using sz(3) by (intro unat_of_nat_small) simp
  have lt: "of_nat n < ?k" using sz(3) by (simp only: word_less_nat_alt un) simp
  have "rt_memheap_realloc h p ?k s =
      bind_run (take_lock h s) (\<lambda>e s1.
             if e \<noteq> 0 then Done 0 (rt_set_errno e s1)
             else if \<not> item_next (items s1 x) > x then Fail
             else if can_expand x (of_nat n) ?k s1
             then release_lock h p (expand_block h x (of_nat n) ?k s1)
             else bind_run (release_lock h () s1) (\<lambda>_ s2. realloc_move h p (of_nat n) ?k s2))"
    unfolding rt_memheap_realloc_def request_demo(2) Let_def px(1) sz(1) using mh px(2) lt by simp
  also have "\<dots> = Done p (?t\<lparr>kernel := kernel s\<rparr>)"
    using ce gt release_lock_free[OF l, of ?t p] by (simp add: take_lock_free[OF l])
  finally have r: "rt_memheap_realloc h p ?k s = Done p (?t\<lparr>kernel := kernel s\<rparr>)" .
  have msz: "MEMITEM_SIZE (p - RT_MEMHEAP_SIZE) (?t\<lparr>kernel := kernel s\<rparr>) = ?k"
    unfolding px(1) MEMITEM_SIZE_def by (simp add: expand_next)
  have "\<not> heaps_ok Bs' (?t\<lparr>kernel := kernel s\<rparr>)" if lv: "(p, j) \<in> live Bs' (?t\<lparr>kernel := kernel s\<rparr>)" for Bs' j
  proof
    assume ok: "heaps_ok Bs' (?t\<lparr>kernel := kernel s\<rparr>)"
    have j: "(of_nat j :: u64) = ?k" using live_size(1)[OF ok lv] msz by simp
    have "unat (of_nat j :: u64) = j" by (rule unat_of_nat_small) (use live_size(2)[OF ok lv] in simp)
    then show False using j live_size(2)[OF ok lv] by simp
  qed
  then show ?thesis using r msz by blast
qed

lemma realloc_wraps_witness:
  "\<exists>s p s'. rt_memheap_realloc 0x1000 p 0xFFFFFFFFFFFFFFF8 s = Done p s' \<and> MEMITEM_SIZE (p - 56) s' = 0xFFFFFFFFFFFFFFF8"
proof -
  obtain s Bs where s: "heaps_ok Bs s" "memheap_list s = [0x1000]" "Bs 0x1000 = [(100, True), (756, False)]"
    using demo_alloc by blast
  have "0x1000 \<in> set (memheap_list s)" "Bs 0x1000 = [] @ (100, True) # (756, False) # []" using s(2,3) by simp_all
  from realloc_wraps[OF s(1) this refl] show ?thesis by blast
qed

end
