(* ===== verification/RT_Mmu.thy ===== *)
theory RT_Mmu
  imports RT_Prelude
begin

text \<open>
  The translation tables of \<open>src/rt-thread/libcpu/aarch64/common/mmu.c\<close>: the two functions that map memory,
  \<open>armv8_map\<close> with blocks of 1 GB and 2 MB and pages of 4 KB, and \<open>armv8_map_2M\<close>, and the pool of table pages
  \<open>main_tbl\<close>. What the tables mean to the processor is a separate definition, the walk of the ARMv8-A
  architecture for a 4 KB granule and 48-bit addresses, as \<open>mmu_init\<close> configures it.
\<close>

unbundle bit_operations_syntax

section \<open>State\<close>

text \<open>
  Memory is a function on the byte addresses of 64-bit words. \<open>main_tbl\<close> is the address of the pool of 20 table
  pages; \<open>free_idx\<close> counts the pages handed out by \<open>create_table\<close>, and \<open>page_off\<close> (in words) those by
  \<open>get_free_page\<close>.
\<close>

record mmu_sys =
  ptes :: "u64 \<Rightarrow> u64"
  main_tbl :: u64
  free_idx :: u32
  page_off :: u64

abbreviation PMD_TYPE_TABLE :: u64 where "PMD_TYPE_TABLE \<equiv> 3"
abbreviation PMD_TYPE_MASK :: u64 where "PMD_TYPE_MASK \<equiv> 3"
abbreviation MMU_LEVEL_MASK :: u64 where "MMU_LEVEL_MASK \<equiv> 0x1ff"
abbreviation XLAT_ADDR_MASK :: u64 where "XLAT_ADDR_MASK \<equiv> 0x7ffffff000"
abbreviation TABLE_ADDR_MASK :: u64 where "TABLE_ADDR_MASK \<equiv> 0xfffffffff000"
abbreviation ATTR_MASK :: u64 where "ATTR_MASK \<equiv> 0xfff0000000000ffc"

abbreviation MEM_ATTR_MEMORY :: u64 where "MEM_ATTR_MEMORY \<equiv> 0x604"
abbreviation MEM_ATTR_IO :: u64 where "MEM_ATTR_IO \<equiv> 0x608"

definition put :: "u64 \<Rightarrow> u64 \<Rightarrow> mmu_sys \<Rightarrow> mmu_sys" where
  "put a v s = s\<lparr>ptes := (ptes s)(a := v)\<rparr>"

text \<open>The table pages are cleared whole, 4096 bytes at a time.\<close>

definition mmu_memset :: "u64 \<Rightarrow> mmu_sys \<Rightarrow> mmu_sys" where
  "mmu_memset dst s = s\<lparr>ptes := (\<lambda>a. if a - dst < 4096 then 0 else ptes s a)\<rparr>"

definition mmu_init :: "mmu_sys \<Rightarrow> mmu_sys" where
  "mmu_init s = mmu_memset (main_tbl s) s"

section \<open>Mapping with blocks of any size\<close>

definition set_table :: "u64 \<Rightarrow> u64 \<Rightarrow> mmu_sys \<Rightarrow> mmu_sys" where
  "set_table pt table_addr = put pt (3 OR table_addr)"

definition create_table :: "mmu_sys \<Rightarrow> u64 \<times> mmu_sys" where
  "create_table s =
     (let new_table = main_tbl s + scast (free_idx s * 4096)
      in (new_table, (mmu_memset new_table s)\<lparr>free_idx := free_idx s + 1\<rparr>))"

definition pte_type :: "u64 \<Rightarrow> mmu_sys \<Rightarrow> u64" where
  "pte_type pte s = ptes s pte AND PMD_TYPE_MASK"

definition level2shift :: "nat \<Rightarrow> nat" where
  "level2shift level = 12 + 9 * (3 - level)"

definition get_level_table :: "u64 \<Rightarrow> mmu_sys \<Rightarrow> u64 \<times> mmu_sys" where
  "get_level_table pte s =
     (if pte_type pte s \<noteq> PMD_TYPE_TABLE
      then let (table, s1) = create_table s in (table, set_table pte table s1)
      else (ptes s pte AND XLAT_ADDR_MASK, s))"

definition IS_ALIGNED :: "u64 \<Rightarrow> u64 \<Rightarrow> bool" where
  "IS_ALIGNED x a \<longleftrightarrow> x AND (a - 1) = 0"

text \<open>
  One round of the loop of \<open>map_region\<close>: the levels from \<open>level\<close> on are tried in turn; the variables of the loop are
  the address, the physical address, the size left and the attributes.
\<close>

fun map_levels :: "nat list \<Rightarrow> u64 \<Rightarrow> u64 \<times> u64 \<times> u64 \<times> u64 \<Rightarrow> mmu_sys \<Rightarrow> (u64 \<times> u64 \<times> u64 \<times> u64) \<times> mmu_sys" where
  "map_levels [] table v s = (v, s)"
| "map_levels (level # ls) table (addr, phys, sz, attr) s =
     (let block_shift = level2shift level;
          idx = drop_bit block_shift addr mod 512;
          block_size = push_bit block_shift 1;
          pte = table + 8 * idx
      in if sz \<ge> block_size \<and> IS_ALIGNED addr block_size
         then let attr' = attr AND ATTR_MASK
              in ((addr + block_size, phys + block_size, sz - block_size, attr'),
                  put pte (phys OR (attr' OR (if level \<noteq> 3 then 1 else 3))) s)
         else let (table', s1) = get_level_table pte s in map_levels ls table' (addr, phys, sz, attr) s1)"

partial_function (option) map_region :: "u64 \<times> u64 \<times> u64 \<times> u64 \<Rightarrow> mmu_sys \<Rightarrow> mmu_sys option" where
  "map_region v s =
     (if fst (snd (snd v)) \<noteq> 0
      then let (v', s') = map_levels [0, 1, 2, 3] (main_tbl s) v s in map_region v' s'
      else Some s)"

definition armv8_map :: "u64 \<Rightarrow> u64 \<Rightarrow> u64 \<Rightarrow> u64 \<Rightarrow> mmu_sys \<Rightarrow> mmu_sys option" where
  "armv8_map va pa sz attr s = map_region (va, pa, sz, attr) s"

section \<open>Mapping with blocks of 2 MB\<close>

definition get_free_page :: "mmu_sys \<Rightarrow> u64 \<times> mmu_sys" where
  "get_free_page s = (let off = page_off s + 512 in (main_tbl s + 8 * off, s\<lparr>page_off := off\<rparr>))"

text \<open>The descent through the levels 0 and 1; the result is the table of level 2 or an error code.\<close>

fun descend_2M :: "nat \<Rightarrow> u64 \<Rightarrow> nat \<Rightarrow> u64 \<Rightarrow> mmu_sys \<Rightarrow> (int + u64) \<times> mmu_sys" where
  "descend_2M 0 cur_lv_tbl level_shift va s = (Inr cur_lv_tbl, s)"
| "descend_2M (Suc k) cur_lv_tbl level_shift va s =
     (let off = drop_bit level_shift va AND MMU_LEVEL_MASK;
          pte = cur_lv_tbl + 8 * off;
          (r, s1) = (if ptes s pte AND 1 = 0
                     then let (page, t) = get_free_page s
                          in if page = 0 then (-3, t) else (0, put pte (page OR 3) (mmu_memset page t))
                     else (0 :: int, s))
      in if r \<noteq> 0 then (Inl r, s1)
         else let page = ptes s1 pte
              in if page AND 2 = 0 then (Inl (-4), s1)
                 else descend_2M k (page AND TABLE_ADDR_MASK) (level_shift - 9) va s1)"

definition map_single_page_2M :: "u64 \<Rightarrow> u64 \<Rightarrow> u64 \<Rightarrow> u64 \<Rightarrow> mmu_sys \<Rightarrow> int \<times> mmu_sys" where
  "map_single_page_2M lv0_tbl va pa attr s =
     (if va AND 0x1fffff \<noteq> 0 then (-1, s)
      else if pa AND 0x1fffff \<noteq> 0 then (-2, s)
      else case descend_2M 2 lv0_tbl 39 va s of
             (Inl e, s1) \<Rightarrow> (e, s1)
           | (Inr t, s1) \<Rightarrow> (0, put (t + 8 * (drop_bit 21 va AND MMU_LEVEL_MASK)) (pa OR ((attr AND ATTR_MASK) OR 1)) s1))"

fun map_2M_loop :: "nat \<Rightarrow> u64 \<Rightarrow> u64 \<Rightarrow> u64 \<Rightarrow> mmu_sys \<Rightarrow> int \<times> mmu_sys" where
  "map_2M_loop 0 va pa attr s = (0, s)"
| "map_2M_loop (Suc k) va pa attr s =
     (let (ret, s1) = map_single_page_2M (main_tbl s) va pa attr s
      in if ret \<noteq> 0 then (ret, s1) else map_2M_loop k (va + 0x200000) (pa + 0x200000) attr s1)"

definition armv8_map_2M :: "u64 \<Rightarrow> u64 \<Rightarrow> int \<Rightarrow> u64 \<Rightarrow> mmu_sys \<Rightarrow> int \<times> mmu_sys" where
  "armv8_map_2M va pa count attr s =
     (if va AND 0x1fffff \<noteq> 0 then (-1, s)
      else if pa AND 0x1fffff \<noteq> 0 then (-1, s)
      else map_2M_loop (nat count) va pa attr s)"

section \<open>What the tables mean\<close>

text \<open>
  The walk of the processor: bit 0 says that a descriptor is valid, bit 1 that it is a table or, at level 3, a
  page; blocks exist at levels 1 and 2 only. The result is the descriptor and its level.
\<close>

fun tt_walk :: "nat list \<Rightarrow> u64 \<Rightarrow> u64 \<Rightarrow> mmu_sys \<Rightarrow> (u64 \<times> nat) option" where
  "tt_walk [] table va s = None"
| "tt_walk (level # ls) table va s =
     (let e = ptes s (table + 8 * (drop_bit (level2shift level) va AND MMU_LEVEL_MASK))
      in if e AND 3 = 3 then (if level = 3 then Some (e, 3) else tt_walk ls (e AND TABLE_ADDR_MASK) va s)
         else if e AND 3 = 1 \<and> (level = 1 \<or> level = 2) then Some (e, level)
         else None)"

text \<open>
  The address an access goes to, and its attributes: the bits of the descriptor above the size of the block, and
  those of the address below. Addresses of more than 48 bits are not translated (\<open>TCR_EL1\<close> has \<open>T0SZ\<close> 16 and
  disables the walks from \<open>TTBR1\<close>).
\<close>

definition translate :: "mmu_sys \<Rightarrow> u64 \<Rightarrow> (u64 \<times> u64) option" where
  "translate s va =
     (case tt_walk [0, 1, 2, 3] (main_tbl s) va s of
        Some (e, level) \<Rightarrow>
          if va \<ge> 0x1000000000000 then None
          else Some (((e AND TABLE_ADDR_MASK) AND NOT (mask (level2shift level))) OR (va AND mask (level2shift level)),
                     e AND ATTR_MASK)
      | None \<Rightarrow> None)"

end
