(* ===== verification/RT_Mmu_Tables.thy ===== *)
theory RT_Mmu_Tables
  imports RT_Mmu
begin

text \<open>
  The pool of table pages as a radix tree: which page is reached by which indices, what the entries of a page
  are, and what writing one entry, or linking a cleared page, does to all walks.
\<close>

section \<open>Addresses of entries\<close>

definition page :: "mmu_sys \<Rightarrow> nat \<Rightarrow> u64" where
  "page s i = main_tbl s + of_nat (4096 * i)"

definition slot :: "mmu_sys \<Rightarrow> nat \<Rightarrow> nat \<Rightarrow> u64" where
  "slot s i x = page s i + 8 * of_nat x"

definition entry :: "mmu_sys \<Rightarrow> nat \<Rightarrow> nat \<Rightarrow> u64" where
  "entry s i x = ptes s (slot s i x)"

text \<open>The pool is page-aligned and lies below \<open>2 ^ 39\<close>, which \<open>XLAT_ADDR_MASK\<close> takes for granted.\<close>

definition pool_ok :: "mmu_sys \<Rightarrow> bool" where
  "pool_ok s \<longleftrightarrow> 4096 dvd unat (main_tbl s) \<and> unat (main_tbl s) + 20 * 4096 \<le> 2 ^ 39"

lemma pool_cong: "main_tbl t = main_tbl s \<Longrightarrow> pool_ok t = pool_ok s \<and> page t = page s \<and> slot t = slot s"
  by (simp add: pool_ok_def page_def slot_def fun_eq_iff)

lemma unat_plus64: "unat a + unat b < 2 ^ 64 \<Longrightarrow> unat (a + b :: u64) = unat a + unat b"
  by (simp add: unat_word_ariths)

lemma unat_page:
  assumes "pool_ok s" "i < 20"
  shows "unat (page s i) = unat (main_tbl s) + 4096 * i"
proof -
  have u: "unat (of_nat (4096 * i) :: u64) = 4096 * i" by (rule unat_of_nat_small) (use assms(2) in simp)
  have "unat (main_tbl s) + unat (of_nat (4096 * i) :: u64) < 2 ^ 64" unfolding u using assms by (simp add: pool_ok_def)
  then show ?thesis unfolding page_def by (simp only: unat_plus64 u)
qed

lemma unat_slot:
  assumes "pool_ok s" "i < 20" "x < 512"
  shows "unat (slot s i x) = unat (main_tbl s) + 4096 * i + 8 * x"
proof -
  have e: "(8 * of_nat x :: u64) = of_nat (8 * x)" by simp
  have u: "unat (of_nat (8 * x) :: u64) = 8 * x" by (rule unat_of_nat_small) (use assms(3) in simp)
  have p: "unat (page s i) = unat (main_tbl s) + 4096 * i" by (rule unat_page[OF assms(1,2)])
  have "unat (page s i) + unat (of_nat (8 * x) :: u64) < 2 ^ 64"
    unfolding p u using assms by (simp add: pool_ok_def)
  then show ?thesis unfolding slot_def e by (simp only: unat_plus64 p u)
qed

lemma slot_eq:
  assumes "pool_ok s" "i < 20" "x < 512" "j < 20" "y < 512"
  shows "slot s i x = slot s j y \<longleftrightarrow> i = j \<and> x = y"
proof
  assume "slot s i x = slot s j y"
  then have e: "4096 * i + 8 * x = 4096 * j + 8 * y"
    using unat_slot[OF assms(1-3)] unat_slot[OF assms(1,4,5)] by simp
  then show "i = j \<and> x = y" using assms(3,5) by (cases i j rule: linorder_cases) linarith+
qed simp

lemma slot_in_page:
  assumes "pool_ok s" "i < 20" "j < 20" "x < 512"
  shows "slot s i x - page s j < 4096 \<longleftrightarrow> i = j"
proof -
  have b: "unat (main_tbl s) + 81920 \<le> 2 ^ 39" using assms(1) by (simp add: pool_ok_def)
  note u = unat_slot[OF assms(1,2,4)] unat_page[OF assms(1,3)]
  have "unat (slot s i x - page s j) =
      (if 4096 * j \<le> 4096 * i + 8 * x then 4096 * i + 8 * x - 4096 * j else 4096 * i + 8 * x + 2 ^ 64 - 4096 * j)"
    unfolding unat_sub_if' u
    by (cases "4096 * j \<le> 4096 * i + 8 * x") simp_all
  moreover have "slot s i x - page s j < 4096 \<longleftrightarrow> unat (slot s i x - page s j) < 4096" by (simp add: word_less_nat_alt)
  ultimately show ?thesis using assms by (cases i j rule: linorder_cases) (simp_all split: if_splits)
qed

text \<open>The masks as bit ranges, and words in them.\<close>

lemma mask_ranges:
  "XLAT_ADDR_MASK = mask 39 AND NOT (mask 12)" "TABLE_ADDR_MASK = mask 48 AND NOT (mask 12)"
  "ATTR_MASK = NOT (mask 52) OR (mask 12 AND NOT (mask 2))" "(3 :: u64) = mask 2"
  by (simp_all add: mask_eq_exp_minus_1)

lemma low_bits: "2 ^ k dvd unat (w :: u64) \<Longrightarrow> j < k \<Longrightarrow> \<not> bit w j"
proof -
  assume d: "2 ^ k dvd unat w" and j: "j < k"
  have "odd (unat w div 2 ^ j) = bit (unat w) j" by (simp add: bit_iff_odd)
  moreover have "even (unat w div 2 ^ j)"
  proof -
    have "2 ^ Suc j dvd unat w" by (rule dvd_trans[OF le_imp_power_dvd d]) (use j in simp)
    then obtain q where "unat w = 2 ^ Suc j * q" ..
    then show ?thesis by simp
  qed
  ultimately show ?thesis by (simp add: bit_unsigned_iff)
qed

lemma high_bits: "unat (w :: u64) < 2 ^ k \<Longrightarrow> k \<le> j \<Longrightarrow> \<not> bit w j"
proof -
  assume l: "unat w < 2 ^ k" and j: "k \<le> j"
  have "unat w < 2 ^ j" by (rule less_le_trans[OF l]) (use j in simp)
  then have "\<not> bit (unat w) j" by (simp add: bit_iff_odd)
  then show ?thesis by (simp add: bit_unsigned_iff)
qed

text \<open>The descriptor of a table gives its page back under either mask.\<close>

lemma page_bits:
  assumes "pool_ok s" "i < 20"
  shows "(page s i OR 3) AND XLAT_ADDR_MASK = page s i" "(page s i OR 3) AND TABLE_ADDR_MASK = page s i"
    "(page s i OR 3) AND 3 = 3" "(page s i OR 3) AND 2 \<noteq> 0" "(page s i OR 3) AND 1 \<noteq> 0"
proof -
  have p: "unat (page s i) = unat (main_tbl s) + 4096 * i" by (rule unat_page[OF assms])
  then have hi: "\<not> bit (page s i) k" if "39 \<le> k" for k by (intro high_bits[OF _ that]) (use assms in \<open>simp add: pool_ok_def\<close>)
  have lo: "\<not> bit (page s i) k" if "k < 12" for k
    by (rule low_bits[OF _ that]) (use p assms in \<open>simp add: pool_ok_def\<close>)
  show "(page s i OR 3) AND XLAT_ADDR_MASK = page s i"
    unfolding mask_ranges by (rule bit_word_eqI) (use hi lo in \<open>auto simp: bit_simps not_le[symmetric]\<close>)
  show "(page s i OR 3) AND TABLE_ADDR_MASK = page s i"
    unfolding mask_ranges by (rule bit_word_eqI) (use hi lo in \<open>auto simp: bit_simps not_le[symmetric]\<close>)
  show *: "(page s i OR 3) AND 3 = 3" by (rule bit_word_eqI) (auto simp: bit_simps)
  have "bit (page s i OR 3) 0" "bit (page s i OR 3) 1" by (simp_all add: bit_simps)
  then have *: "bit ((page s i OR 3) AND 2) 1" "bit ((page s i OR 3) AND 1) 0" by (simp_all only: bit_and_iff) simp_all
  have nz: "w \<noteq> 0" if "bit w k" for w :: u64 and k using that by auto
  show "(page s i OR 3) AND 2 \<noteq> 0" by (rule nz[OF *(1)])
  show "(page s i OR 3) AND 1 \<noteq> 0" by (rule nz[OF *(2)])
qed

section \<open>The tree of tables\<close>

text \<open>
  The index of an address at each level is a function \<open>ix\<close>; \<open>tbl_at s ix l\<close> is the page the walk has reached at
  level \<open>l\<close>, and \<open>look s ix l\<close> the entry it finds there.
\<close>

definition page_index :: "mmu_sys \<Rightarrow> u64 \<Rightarrow> nat" where
  "page_index s e = (unat (e AND TABLE_ADDR_MASK) - unat (main_tbl s)) div 4096"

primrec tbl_at :: "mmu_sys \<Rightarrow> (nat \<Rightarrow> nat) \<Rightarrow> nat \<Rightarrow> nat option" where
  "tbl_at s ix 0 = Some 0"
| "tbl_at s ix (Suc l) =
     (case tbl_at s ix l of
        None \<Rightarrow> None
      | Some i \<Rightarrow> if entry s i (ix l) AND 3 = 3 then Some (page_index s (entry s i (ix l))) else None)"

definition look :: "mmu_sys \<Rightarrow> (nat \<Rightarrow> nat) \<Rightarrow> nat \<Rightarrow> u64 option" where
  "look s ix l = map_option (\<lambda>i. entry s i (ix l)) (tbl_at s ix l)"

abbreviation agree :: "nat \<Rightarrow> (nat \<Rightarrow> nat) \<Rightarrow> (nat \<Rightarrow> nat) \<Rightarrow> bool" where
  "agree l ix jx \<equiv> \<forall>k<l. ix k = jx k"

definition ixs :: "(nat \<Rightarrow> nat) set" where
  "ixs = {ix. \<forall>l. ix l < 512}"

text \<open>
  The pages in use are the first \<open>n\<close>; every table descriptor on a tt_walk links one of them, and no page is reached
  by two different prefixes.
\<close>

definition tables_ok :: "nat \<Rightarrow> mmu_sys \<Rightarrow> bool" where
  "tables_ok n s \<longleftrightarrow> pool_ok s \<and> 0 < n \<and> n \<le> 20 \<and>
     (\<forall>ix\<in>ixs. \<forall>l<3. \<forall>i. tbl_at s ix l = Some i \<and> entry s i (ix l) AND 3 = 3 \<longrightarrow>
        (\<exists>j. 0 < j \<and> j < n \<and> entry s i (ix l) = page s j OR 3)) \<and>
     (\<forall>ix\<in>ixs. \<forall>jx\<in>ixs. \<forall>l\<le>3. \<forall>m\<le>3. \<forall>i. tbl_at s ix l = Some i \<and> tbl_at s jx m = Some i \<longrightarrow>
        l = m \<and> agree l ix jx)"

lemma page_index [simp]: "pool_ok s \<Longrightarrow> i < 20 \<Longrightarrow> page_index s (page s i OR 3) = i"
  unfolding page_index_def page_bits by (simp add: unat_page)

lemma tbl_at_cong: "agree l ix jx \<Longrightarrow> tbl_at s ix l = tbl_at s jx l"
proof (induction l)
  case (Suc l)
  have "agree l ix jx" "ix l = jx l" using Suc.prems by simp_all
  then show ?case by (simp only: tbl_at.simps Suc.IH)
qed simp

lemma tables_okD:
  assumes "tables_ok n s"
  shows "pool_ok s" "0 < n" "n \<le> 20"
    and "\<And>ix l i. ix \<in> ixs \<Longrightarrow> l < 3 \<Longrightarrow> tbl_at s ix l = Some i \<Longrightarrow> entry s i (ix l) AND 3 = 3 \<Longrightarrow>
           \<exists>j. 0 < j \<and> j < n \<and> entry s i (ix l) = page s j OR 3"
    and "\<And>ix jx l m i. ix \<in> ixs \<Longrightarrow> jx \<in> ixs \<Longrightarrow> l \<le> 3 \<Longrightarrow> m \<le> 3 \<Longrightarrow> tbl_at s ix l = Some i \<Longrightarrow>
           tbl_at s jx m = Some i \<Longrightarrow> l = m \<and> agree l ix jx"
  using assms unfolding tables_ok_def by blast+

text \<open>A table below another is one of the pages, and not the root.\<close>

lemma tbl_step:
  assumes "tables_ok n s" "ix \<in> ixs" "l < 3" "tbl_at s ix (Suc l) = Some j"
  shows "0 < j \<and> j < n \<and> (\<exists>i. tbl_at s ix l = Some i \<and> entry s i (ix l) = page s j OR 3)"
proof -
  obtain i where i: "tbl_at s ix l = Some i" "entry s i (ix l) AND 3 = 3" "j = page_index s (entry s i (ix l))"
    using assms(4) by (auto split: option.splits if_splits)
  obtain j' where j': "0 < j'" "j' < n" "entry s i (ix l) = page s j' OR 3"
    using tables_okD(4)[OF assms(1-3) i(1,2)] by blast
  have "j = j'" using i(3) j' tables_okD(1,3)[OF assms(1)] by simp
  then show ?thesis using i(1) j' by blast
qed

lemma tbl_lt: "tables_ok n s \<Longrightarrow> ix \<in> ixs \<Longrightarrow> l \<le> 3 \<Longrightarrow> tbl_at s ix l = Some i \<Longrightarrow> i < n"
  using tbl_step[of n s ix "l - 1" i] tables_okD(2)[of n s] by (cases l) auto

section \<open>Writing an entry\<close>

text \<open>
  What an entry \<open>v\<close> written for the indices \<open>jx\<close> at level \<open>L\<close> does: tables reached through it change, no others do.
\<close>

lemma tbl_write:
  assumes ok: "tables_ok n s" and jx: "jx \<in> ixs" "L \<le> 3" "tbl_at s jx L = Some i\<^sub>0"
    and m: "main_tbl t = main_tbl s"
    and e: "\<And>i x. i < n \<Longrightarrow> x < 512 \<Longrightarrow> entry t i x = (if i = i\<^sub>0 \<and> x = jx L then v else entry s i x)"
  shows "ix \<in> ixs \<Longrightarrow> l \<le> 3 \<Longrightarrow> \<not> (L < l \<and> agree (Suc L) ix jx) \<Longrightarrow> tbl_at t ix l = tbl_at s ix l"
proof (induction l)
  case (Suc l)
  have pi: "page_index t = page_index s" by (simp add: page_index_def m fun_eq_iff)
  have IH: "tbl_at t ix l = tbl_at s ix l" using Suc by (metis Suc_leD less_SucI)
  show ?case
  proof (cases "tbl_at s ix l")
    case (Some i)
    have x: "ix l < 512" using Suc.prems(1) by (simp add: ixs_def)
    have "entry t i (ix l) = entry s i (ix l)"
    proof (rule ccontr)
      assume "entry t i (ix l) \<noteq> entry s i (ix l)"
      then have "i = i\<^sub>0" "ix l = jx L"
        using e[OF tbl_lt[OF ok Suc.prems(1) _ Some] x] Suc.prems(2) by (auto split: if_splits)
      then have "l = L \<and> agree l ix jx"
        using tables_okD(5)[OF ok Suc.prems(1) jx(1) _ jx(2) Some] jx(3) Suc.prems(2) by simp
      then show False using Suc.prems(3) \<open>ix l = jx L\<close> by (auto simp: less_Suc_eq)
    qed
    then show ?thesis using IH Some by (simp add: pi)
  qed (simp add: IH)
qed simp

text \<open>Below the entry there is what the entry links: nothing, or a page that is empty.\<close>

lemma tbl_below:
  assumes ok: "tables_ok n s" and jx: "jx \<in> ixs" "L \<le> 3" "tbl_at s jx L = Some i\<^sub>0"
    and m: "main_tbl t = main_tbl s"
    and e: "\<And>i x. i < n \<Longrightarrow> x < 512 \<Longrightarrow> entry t i x = (if i = i\<^sub>0 \<and> x = jx L then v else entry s i x)"
    and ix: "ix \<in> ixs" "agree (Suc L) ix jx"
  shows "tbl_at t ix (Suc L) = (if v AND 3 = 3 then Some (page_index s v) else None)"
proof -
  have pi: "page_index t = page_index s" by (simp add: page_index_def m fun_eq_iff)
  have "tbl_at t ix L = tbl_at s ix L" by (rule tbl_write[OF ok jx m e ix(1) jx(2)]) simp_all
  also have "\<dots> = tbl_at s jx L" by (rule tbl_at_cong) (use ix(2) in simp)
  finally have 1: "tbl_at t ix L = Some i\<^sub>0" using jx(3) by simp
  have "jx L < 512" using jx(1) by (simp add: ixs_def)
  then have "entry t i\<^sub>0 (ix L) = v" using e[OF tbl_lt[OF ok jx]] ix(2) by simp
  then show ?thesis using 1 by (simp add: pi)
qed

lemma tbl_none: "tbl_at s ix l = None \<Longrightarrow> l \<le> m \<Longrightarrow> tbl_at s ix m = None"
  by (induction m) (auto simp: le_Suc_eq)

text \<open>Writing a block or a page: nothing is below it.\<close>

lemma write_leaf:
  assumes ok: "tables_ok n s" and jx: "jx \<in> ixs" "L \<le> 3" "tbl_at s jx L = Some i\<^sub>0"
    and m: "main_tbl t = main_tbl s"
    and e: "\<And>i x. i < n \<Longrightarrow> x < 512 \<Longrightarrow> entry t i x = (if i = i\<^sub>0 \<and> x = jx L then v else entry s i x)"
    and v: "L = 3 \<or> v AND 3 \<noteq> 3"
  shows "\<And>ix l. ix \<in> ixs \<Longrightarrow> l \<le> 3 \<Longrightarrow> tbl_at t ix l = (if L < l \<and> agree (Suc L) ix jx then None else tbl_at s ix l)"
    and "\<And>ix l. ix \<in> ixs \<Longrightarrow> l \<le> 3 \<Longrightarrow> look t ix l =
           (if agree (Suc L) ix jx then if l < L then look s ix l else if l = L then Some v else None else look s ix l)"
    and "tables_ok n t"
proof -
  show T: "tbl_at t ix l = (if L < l \<and> agree (Suc L) ix jx then None else tbl_at s ix l)" if "ix \<in> ixs" "l \<le> 3" for ix l
  proof (cases "L < l \<and> agree (Suc L) ix jx")
    case True
    then have "tbl_at t ix (Suc L) = None"
      using tbl_below[OF ok jx m e that(1)] v that(2) by simp
    then show ?thesis using True tbl_none[of t ix "Suc L" l] by simp
  next
    case False
    show ?thesis unfolding if_not_P[OF False] by (rule tbl_write[OF ok jx m e that False])
  qed
  have E: "entry t i (ix l) = (if l = L \<and> agree (Suc L) ix jx then v else entry s i (ix l))"
    if "ix \<in> ixs" "l \<le> 3" "tbl_at s ix l = Some i" for ix l i
  proof -
    have "i = i\<^sub>0 \<and> ix l = jx L \<longleftrightarrow> l = L \<and> agree (Suc L) ix jx"
    proof
      assume "i = i\<^sub>0 \<and> ix l = jx L"
      then show "l = L \<and> agree (Suc L) ix jx"
        using tables_okD(5)[OF ok that(1) jx(1) that(2) jx(2) that(3)] jx(3) by (auto simp: less_Suc_eq)
    next
      assume a: "l = L \<and> agree (Suc L) ix jx"
      then have "tbl_at s ix l = tbl_at s jx L" using tbl_at_cong[of l ix jx s] by simp
      then show "i = i\<^sub>0 \<and> ix l = jx L" using a jx(3) that(3) by simp
    qed
    then show ?thesis using e[OF tbl_lt[OF ok that]] that(1) by (simp add: ixs_def)
  qed
  show "look t ix l = (if agree (Suc L) ix jx then if l < L then look s ix l else if l = L then Some v else None else look s ix l)"
    if "ix \<in> ixs" "l \<le> 3" for ix l
  proof (cases "tbl_at s ix l")
    case None
    have "\<not> (agree (Suc L) ix jx \<and> l \<le> L)"
    proof
      assume a: "agree (Suc L) ix jx \<and> l \<le> L"
      then have "tbl_at s ix l = tbl_at s jx l" by (intro tbl_at_cong) simp
      then show False using None tbl_none[of s jx l L] a jx(3) by simp
    qed
    then show ?thesis using None T[OF that] by (auto simp: look_def)
  next
    case (Some i)
    then show ?thesis using T[OF that] E[OF that Some] by (auto simp: look_def)
  qed
  show "tables_ok n t"
    unfolding tables_ok_def
  proof (intro conjI ballI allI impI)
    show "pool_ok t" "0 < n" "n \<le> 20" using tables_okD(1-3)[OF ok] pool_cong[OF m] by simp_all
    fix ix l i assume ix: "ix \<in> ixs" "l < 3" "tbl_at t ix l = Some i \<and> entry t i (ix l) AND 3 = 3"
    then have s: "tbl_at s ix l = Some i" using T[of ix l] by (auto split: if_splits)
    have nl: "\<not> (l = L \<and> agree (Suc L) ix jx)"
    proof
      assume a: "l = L \<and> agree (Suc L) ix jx"
      then have "entry t i (ix l) = v" using E[OF ix(1) _ s] ix(2) by simp
      then show False using a v ix(2,3) by simp
    qed
    have "entry t i (ix l) = entry s i (ix l)" using E[OF ix(1) _ s] ix(2) unfolding if_not_P[OF nl] by simp
    then show "\<exists>j>0. j < n \<and> entry t i (ix l) = page t j OR 3"
      using tables_okD(4)[OF ok ix(1,2) s] ix(3) pool_cong[OF m] by simp
  next
    fix ix kx l k i assume a: "ix \<in> ixs" "kx \<in> ixs" "l \<le> 3" "k \<le> 3" "tbl_at t ix l = Some i \<and> tbl_at t kx k = Some i"
    then have "tbl_at s ix l = Some i" "tbl_at s kx k = Some i" using T[of ix l] T[of kx k] by (auto split: if_splits)
    then show "l = k" "\<And>j. j < l \<Longrightarrow> ix j = kx j" using tables_okD(5)[OF ok a(1-4)] by blast+
  qed
qed

text \<open>Linking a fresh page that has been cleared.\<close>

lemma write_link:
  assumes ok: "tables_ok n s" and n: "n < 20" and jx: "jx \<in> ixs" "L < 3" "tbl_at s jx L = Some i\<^sub>0"
    and m: "main_tbl t = main_tbl s"
    and e: "\<And>i x. i < n \<Longrightarrow> x < 512 \<Longrightarrow> entry t i x = (if i = i\<^sub>0 \<and> x = jx L then page s n OR 3 else entry s i x)"
    and z: "\<And>x. x < 512 \<Longrightarrow> entry t n x = 0"
    and old: "entry s i\<^sub>0 (jx L) AND 3 \<noteq> 3"
  shows "\<And>ix l. ix \<in> ixs \<Longrightarrow> l \<le> 3 \<Longrightarrow>
           tbl_at t ix l = (if l = Suc L \<and> agree (Suc L) ix jx then Some n else tbl_at s ix l)"
    and "tables_ok (Suc n) t"
proof -
  have jx3: "L \<le> 3" using jx(2) by simp
  have oldn: "tbl_at s ix l = None" if "L < l" "agree (Suc L) ix jx" for ix l
  proof -
    have "tbl_at s ix (Suc L) = tbl_at s jx (Suc L)" by (rule tbl_at_cong) (rule that(2))
    also have "\<dots> = None" using jx(3) old by simp
    finally show ?thesis using tbl_none[of s ix "Suc L" l] that(1) by simp
  qed
  have pn: "page_index s (page s n OR 3) = n" "(page s n OR 3) AND 3 = 3"
    using tables_okD(1)[OF ok] n page_bits(3)[OF tables_okD(1)[OF ok] n] by simp_all
  show T: "tbl_at t ix l = (if l = Suc L \<and> agree (Suc L) ix jx then Some n else tbl_at s ix l)"
    if "ix \<in> ixs" "l \<le> 3" for ix l
  proof (cases "L < l \<and> agree (Suc L) ix jx")
    case True
    have b: "tbl_at t ix (Suc L) = Some n" using tbl_below[OF ok jx(1) jx3 jx(3) m e that(1)] True pn by simp
    have "ix (Suc L) < 512" using that(1) by (simp add: ixs_def)
    then have "tbl_at t ix (Suc (Suc L)) = None" using b z by simp
    then have "tbl_at t ix l = None" if "l \<noteq> Suc L" using tbl_none[of t ix "Suc (Suc L)" l] True that by simp
    then show ?thesis using True b oldn[of l ix] by auto
  next
    case False
    have "tbl_at t ix l = tbl_at s ix l" by (rule tbl_write[OF ok jx(1) jx3 jx(3) m e that False])
    then show ?thesis using False by auto
  qed
  have E: "entry t i (ix l) = (if l = L \<and> agree (Suc L) ix jx then page s n OR 3 else entry s i (ix l))"
    if "ix \<in> ixs" "l \<le> 3" "tbl_at s ix l = Some i" for ix l i
  proof -
    have "i = i\<^sub>0 \<and> ix l = jx L \<longleftrightarrow> l = L \<and> agree (Suc L) ix jx"
    proof
      assume "i = i\<^sub>0 \<and> ix l = jx L"
      then show "l = L \<and> agree (Suc L) ix jx"
        using tables_okD(5)[OF ok that(1) jx(1) that(2) jx3 that(3)] jx(3) by (auto simp: less_Suc_eq)
    next
      assume a: "l = L \<and> agree (Suc L) ix jx"
      then have "tbl_at s ix l = tbl_at s jx L" using tbl_at_cong[of l ix jx s] by simp
      then show "i = i\<^sub>0 \<and> ix l = jx L" using a jx(3) that(3) by simp
    qed
    then show ?thesis using e[OF tbl_lt[OF ok that]] that(1) by (simp add: ixs_def)
  qed
  show "tables_ok (Suc n) t"
    unfolding tables_ok_def
  proof (intro conjI ballI allI impI)
    show "pool_ok t" "0 < Suc n" "Suc n \<le> 20" using tables_okD(1-3)[OF ok] pool_cong[OF m] n by simp_all
    fix ix l i assume ix: "ix \<in> ixs" "l < 3" "tbl_at t ix l = Some i \<and> entry t i (ix l) AND 3 = 3"
    show "\<exists>j>0. j < Suc n \<and> entry t i (ix l) = page t j OR 3"
    proof (cases "l = Suc L \<and> agree (Suc L) ix jx")
      case True
      then have "i = n" "ix l < 512" using T[OF ix(1), of l] ix by (simp_all add: ixs_def)
      then show ?thesis using z[of "ix l"] ix(3) by simp
    next
      case False
      then have s: "tbl_at s ix l = Some i" using T[OF ix(1), of l] ix(2,3) by auto
      show ?thesis
      proof (cases "l = L \<and> agree (Suc L) ix jx")
        case True
        then have "entry t i (ix l) = page t n OR 3" using E[OF ix(1) _ s] ix(2) pool_cong[OF m] by simp
        then show ?thesis using tables_okD(2)[OF ok] by blast
      next
        case False
        have "entry t i (ix l) = entry s i (ix l)" using E[OF ix(1) _ s] ix(2) unfolding if_not_P[OF False] by simp
        then show ?thesis using tables_okD(4)[OF ok ix(1,2) s] ix(3) pool_cong[OF m] by (auto intro: less_SucI)
      qed
    qed
  next
    fix ix kx l k i assume a: "ix \<in> ixs" "kx \<in> ixs" "l \<le> 3" "k \<le> 3" "tbl_at t ix l = Some i \<and> tbl_at t kx k = Some i"
    have N: "i = n \<longleftrightarrow> l = Suc L \<and> agree (Suc L) ix jx" if "ix \<in> ixs" "l \<le> 3" "tbl_at t ix l = Some i" for ix l
    proof (cases "l = Suc L \<and> agree (Suc L) ix jx")
      case True
      then show ?thesis using T[OF that(1,2)] that(3) unfolding if_P[OF True] by simp
    next
      case False
      then have "tbl_at s ix l = Some i" using T[OF that(1,2)] that(3) unfolding if_not_P[OF False] by simp
      then have "i < n" by (rule tbl_lt[OF ok that(1,2)])
      then show ?thesis using False by blast
    qed
    have new: "i = n \<longleftrightarrow> l = Suc L \<and> agree (Suc L) ix jx" "i = n \<longleftrightarrow> k = Suc L \<and> agree (Suc L) kx jx"
      using N[OF a(1,3)] N[OF a(2,4)] a(5) by blast+
    have "l = k \<and> agree l ix kx"
    proof (cases "i = n")
      case True
      then show ?thesis using new by auto
    next
      case False
      then have f: "\<not> (l = Suc L \<and> agree (Suc L) ix jx)" "\<not> (k = Suc L \<and> agree (Suc L) kx jx)" using new by blast+
      have "tbl_at s ix l = Some i" "tbl_at s kx k = Some i"
        using T[OF a(1,3), unfolded if_not_P[OF f(1)]] T[OF a(2,4), unfolded if_not_P[OF f(2)]] a(5) by simp_all
      then show ?thesis using tables_okD(5)[OF ok a(1-4)] by blast
    qed
    then show "l = k" "\<And>j. j < l \<Longrightarrow> ix j = kx j" by blast+
  qed
qed

end
