(* ===== verification/RT_Mmu_Walk.thy ===== *)
theory RT_Mmu_Walk
  imports RT_Mmu_Tables
begin

text \<open>
  The walk of the processor in terms of the tree of tables, and one round of \<open>map_region\<close>: which tables it
  creates and which translations it changes.
\<close>

section \<open>Walks\<close>

definition vidx :: "nat \<Rightarrow> nat \<Rightarrow> nat" where
  "vidx v l = v div 2 ^ level2shift l mod 512"

definition leaf_of :: "u64 \<Rightarrow> nat \<Rightarrow> (u64 \<times> nat) option" where
  "leaf_of e l =
     (if l = 3 then if e AND 3 = 3 then Some (e, 3) else None
      else if e AND 3 = 1 \<and> (l = 1 \<or> l = 2) then Some (e, l) else None)"

definition leaf :: "mmu_sys \<Rightarrow> (nat \<Rightarrow> nat) \<Rightarrow> (u64 \<times> nat) option" where
  "leaf s ix =
     (case look s ix 3 of
        Some e \<Rightarrow> leaf_of e 3
      | None \<Rightarrow> (case look s ix 2 of Some e \<Rightarrow> leaf_of e 2 | None \<Rightarrow> (case look s ix 1 of Some e \<Rightarrow> leaf_of e 1 | None \<Rightarrow> None)))"

lemma vidx_ixs [simp]: "vidx v \<in> ixs"
  by (simp add: ixs_def vidx_def)

lemma index_word:
  "(drop_bit k a AND 0x1ff :: u64) = of_nat (unat a div 2 ^ k mod 512)"
  "(drop_bit k a mod 512 :: u64) = of_nat (unat a div 2 ^ k mod 512)"
proof -
  have "(0x1ff :: u64) = mask 9" by (simp add: mask_eq_exp_minus_1)
  then have e: "drop_bit k a AND 0x1ff = take_bit 9 (drop_bit k a)" by (simp add: take_bit_eq_mask)
  have d: "unat (drop_bit k a) = unat a div 2 ^ k" by (simp only: unat_drop_bit_eq) (simp only: drop_bit_eq_div)
  have u: "unat (take_bit 9 (drop_bit k a)) = unat a div 2 ^ k mod 512"
    by (simp only: unsigned_take_bit_eq d) (simp add: take_bit_eq_mod)
  then show "drop_bit k a AND 0x1ff = of_nat (unat a div 2 ^ k mod 512)" unfolding e u[symmetric] by simp
  have "drop_bit k a mod 512 = take_bit 9 (drop_bit k a)" by (simp only: take_bit_eq_mod) simp
  then show "drop_bit k a mod 512 = of_nat (unat a div 2 ^ k mod 512)" unfolding u[symmetric] by simp
qed

lemma slot_vidx: "page s i + 8 * (drop_bit (level2shift l) a AND 0x1ff) = slot s i (vidx (unat a) l)"
  "page s i + 8 * (drop_bit (level2shift l) a mod 512) = slot s i (vidx (unat a) l)"
  by (simp_all add: index_word slot_def vidx_def)

lemma page0 [simp]: "page s 0 = main_tbl s"
  by (simp add: page_def)

text \<open>The walk from a level on, in a well-formed tree.\<close>

lemma walk_step:
  assumes ok: "tables_ok n s" and l: "l \<le> 3" "tbl_at s (vidx (unat va)) l = Some i"
  shows "tt_walk (l # ls) (page s i) va s =
    (case tbl_at s (vidx (unat va)) (Suc l) of
       Some j \<Rightarrow> if l = 3 then leaf_of (entry s i (vidx (unat va) l)) l else tt_walk ls (page s j) va s
     | None \<Rightarrow> leaf_of (entry s i (vidx (unat va) l)) l)"
proof -
  let ?ix = "vidx (unat va)" and ?e = "entry s i (vidx (unat va) l)"
  have e: "ptes s (page s i + 8 * (drop_bit (level2shift l) va AND MMU_LEVEL_MASK)) = ?e"
    unfolding slot_vidx entry_def ..
  show ?thesis
  proof (cases "?e AND 3 = 3 \<and> l \<noteq> 3")
    case True
    then have "tbl_at s ?ix (Suc l) = Some (page_index s ?e)" using l(2) by simp
    then obtain j where j: "tbl_at s ?ix (Suc l) = Some j" by blast
    have lt: "l < 3" using l(1) True by simp
    have "j < 20 \<and> ?e = page s j OR 3" using tbl_step[OF ok vidx_ixs lt j] tables_okD(3)[OF ok] l(2) by auto
    then have "?e AND TABLE_ADDR_MASK = page s j" using page_bits(2)[OF tables_okD(1)[OF ok]] by simp
    then show ?thesis using True j unfolding tt_walk.simps Let_def e by simp
  next
    case False
    then show ?thesis using l unfolding tt_walk.simps Let_def e by (auto simp: leaf_of_def)
  qed
qed

lemma walk_leaf:
  assumes ok: "tables_ok n s"
  shows "tt_walk [0, 1, 2, 3] (main_tbl s) va s = leaf s (vidx (unat va))"
proof -
  let ?ix = "vidx (unat va)"
  note st = walk_step[OF ok]
  have "tt_walk [0, 1, 2, 3] (page s 0) va s = leaf s ?ix"
  proof (cases "tbl_at s ?ix 1")
    case None
    then have "tbl_at s ?ix 2 = None" "tbl_at s ?ix 3 = None" using tbl_none[of s ?ix 1] by simp_all
    then show ?thesis using None st[of 0 va 0] by (simp add: leaf_def look_def leaf_of_def)
  next
    case t1: (Some j1)
    show ?thesis
    proof (cases "tbl_at s ?ix 2")
      case None
      then have "tbl_at s ?ix 3 = None" using tbl_none[of s ?ix 2] by simp
      then show ?thesis using None t1 st[of 0 va 0] st[of 1 va j1] by (simp add: leaf_def look_def numeral_2_eq_2 numeral_3_eq_3)
    next
      case t2: (Some j2)
      show ?thesis
      proof (cases "tbl_at s ?ix 3")
        case None
        then show ?thesis using t1 t2 st[of 0 va 0] st[of 1 va j1] st[of 2 va j2]
          by (simp add: leaf_def look_def numeral_2_eq_2 numeral_3_eq_3)
      next
        case (Some j3)
        then show ?thesis using t1 t2 st[of 0 va 0] st[of 1 va j1] st[of 2 va j2] st[of 3 va j3]
          by (simp add: leaf_def look_def numeral_2_eq_2 numeral_3_eq_3 split: option.splits)
      qed
    qed
  qed
  then show ?thesis by simp
qed

text \<open>Where the walk stops.\<close>

lemma leaf_stop:
  assumes "tbl_at s ix l = Some i" "l \<le> 3" "l = 3 \<or> entry s i (ix l) AND 3 \<noteq> 3"
  shows "leaf s ix = leaf_of (entry s i (ix l)) l"
proof -
  have n: "tbl_at s ix k = None" if "l < k" "k \<le> 3" for k
  proof -
    have "tbl_at s ix (Suc l) = None" using assms that by simp
    then show ?thesis by (rule tbl_none) (use that in simp)
  qed
  have "l = 0 \<or> l = 1 \<or> l = 2 \<or> l = 3" using assms(2) by auto
  then show ?thesis using assms(1) n[of 1] n[of 2] n[of 3]
    by (elim disjE) (simp_all add: leaf_def look_def leaf_of_def del: tbl_at.simps One_nat_def)
qed

lemma leaf_cong: "(\<And>k. k \<le> 3 \<Longrightarrow> look t jx k = look s kx k) \<Longrightarrow> leaf t jx = leaf s kx"
  by (simp add: leaf_def cong: option.case_cong)

section \<open>One round of the loop\<close>

text \<open>What the mapping functions leave alone: everything but the pool's words and the two counters.\<close>

definition outside_kept :: "mmu_sys \<Rightarrow> mmu_sys \<Rightarrow> bool" where
  "outside_kept s t \<longleftrightarrow> main_tbl t = main_tbl s \<and> (\<forall>x. \<not> x - main_tbl s < 81920 \<longrightarrow> ptes t x = ptes s x)"

lemma outside_refl [simp]: "outside_kept s s"
  by (simp add: outside_kept_def)

lemma outside_trans: "outside_kept s t \<Longrightarrow> outside_kept t u \<Longrightarrow> outside_kept s u"
  by (simp add: outside_kept_def)

lemma slot_inside:
  assumes "i < 20" "x < 512"
  shows "slot s i x - main_tbl s < 81920"
proof -
  have "slot s i x - main_tbl s = of_nat (4096 * i + 8 * x)" by (simp add: slot_def page_def)
  moreover have "unat (of_nat (4096 * i + 8 * x) :: u64) = 4096 * i + 8 * x" by (rule unat_of_nat_small) (use assms in simp)
  ultimately show ?thesis using assms by (simp add: word_less_nat_alt)
qed

lemma page_inside:
  assumes "i < 20" "x - page s i < 4096"
  shows "x - main_tbl s < 81920"
proof -
  have "x - main_tbl s = (x - page s i) + of_nat (4096 * i)" by (simp add: page_def)
  moreover have u: "unat (of_nat (4096 * i) :: u64) = 4096 * i" by (rule unat_of_nat_small) (use assms in simp)
  moreover have "unat (x - page s i) < 4096" using assms(2) by (simp add: word_less_nat_alt)
  moreover have "unat (x - page s i) + unat (of_nat (4096 * i) :: u64) < 2 ^ 64" unfolding u using calculation(3) assms(1) by simp
  ultimately have "unat (x - main_tbl s) = unat (x - page s i) + 4096 * i" by (simp only: unat_plus64)
  then show ?thesis using \<open>unat (x - page s i) < 4096\<close> assms(1) by (simp add: word_less_nat_alt)
qed

lemma entry_put:
  assumes "pool_ok s" "j < 20" "y < 512" "i < 20" "x < 512"
  shows "entry (put (slot s j y) v s) i x = (if i = j \<and> x = y then v else entry s i x)"
proof -
  have "slot (put (slot s j y) v s) = slot s" using pool_cong[of "put (slot s j y) v s" s] by (simp add: put_def)
  then show ?thesis using slot_eq[OF assms(1) assms(4,5) assms(2,3)] by (simp add: entry_def put_def)
qed

lemma put_kept: "j < 20 \<Longrightarrow> y < 512 \<Longrightarrow> outside_kept s (put (slot s j y) v s)"
  using slot_inside[of j y s] by (auto simp: outside_kept_def put_def)

text \<open>A fresh table: the page counted by \<open>free_idx\<close>, cleared.\<close>

lemma create_table_spec:
  assumes p: "pool_ok s" and n: "unat (free_idx s) = n" "n < 20"
  obtains t where "create_table s = (page s n, t)" "outside_kept s t" "unat (free_idx t) = Suc n" "page_off t = page_off s"
    "\<And>i x. i < 20 \<Longrightarrow> x < 512 \<Longrightarrow> entry t i x = (if i = n then 0 else entry s i x)"
proof -
  have u: "unat (free_idx s * 4096) = n * 4096" using n by (simp add: unat_word_ariths)
  have "sint (free_idx s * 4096) = int (n * 4096)"
    using u n(2) by (subst sint_uint) (simp add: uint_nat signed_take_bit_int_eq_self)
  then have "(scast (free_idx s * 4096) :: u64) = of_nat (4096 * n)" by (simp add: scast_eq mult.commute)
  then have a: "main_tbl s + scast (free_idx s * 4096) = page s n" by (simp add: page_def)
  let ?t = "(mmu_memset (page s n) s)\<lparr>free_idx := free_idx s + 1\<rparr>"
  show thesis
  proof (rule that[of ?t])
    show "create_table s = (page s n, ?t)" unfolding create_table_def a Let_def ..
    show "outside_kept s ?t" using page_inside[OF n(2)] by (auto simp: outside_kept_def mmu_memset_def)
    show "unat (free_idx ?t) = Suc n" using n by (simp add: unat_word_ariths)
    show "page_off ?t = page_off s" by (simp add: mmu_memset_def)
    fix i x assume "i < (20 :: nat)" "x < (512 :: nat)"
    moreover have "slot ?t = slot s" using pool_cong[of ?t s] by (simp add: mmu_memset_def)
    ultimately show "entry ?t i x = (if i = n then 0 else entry s i x)"
      using slot_in_page[OF p _ n(2)] by (simp add: entry_def mmu_memset_def)
  qed
qed

definition fits :: "nat \<Rightarrow> nat \<Rightarrow> nat \<Rightarrow> bool" where
  "fits a sz l \<longleftrightarrow> 2 ^ level2shift l \<le> sz \<and> 2 ^ level2shift l dvd a"

definition desc :: "u64 \<Rightarrow> u64 \<Rightarrow> nat \<Rightarrow> u64" where
  "desc phys attr level = phys OR ((attr AND ATTR_MASK) OR (if level \<noteq> 3 then 1 else 3))"

definition missing :: "mmu_sys \<Rightarrow> (nat \<Rightarrow> nat) \<Rightarrow> nat \<Rightarrow> nat" where
  "missing s ix k = (if tbl_at s ix k = None then 1 else 0)"

lemma shift_lt: "level2shift l < 64"
  by (simp add: level2shift_def)

lemma unat_pow: "k < 64 \<Longrightarrow> unat (2 ^ k :: u64) = 2 ^ k"
proof -
  assume "k < 64"
  then have "(2 ^ k :: nat) < 2 ^ 64" by (intro power_strict_increasing) simp_all
  then have "unat (of_nat (2 ^ k) :: u64) = 2 ^ k" by (intro unat_of_nat_small) simp
  then show ?thesis by simp
qed

lemma fits_word:
  "push_bit (level2shift l) 1 \<le> (sz :: u64) \<and> IS_ALIGNED a (push_bit (level2shift l) 1) \<longleftrightarrow> fits (unat a) (unat sz) l"
proof -
  let ?k = "level2shift l"
  have p: "(push_bit ?k 1 :: u64) = 2 ^ ?k" by (simp add: push_bit_eq_mult)
  have u: "unat (2 ^ ?k :: u64) = 2 ^ ?k" by (rule unat_pow[OF shift_lt])
  have "a AND (2 ^ ?k - 1) = take_bit ?k a" by (simp add: take_bit_eq_mask mask_eq_exp_minus_1)
  moreover have "take_bit ?k a = 0 \<longleftrightarrow> take_bit ?k (unat a) = 0" by (simp add: word_unat_eq_iff unsigned_take_bit_eq)
  ultimately show ?thesis unfolding p IS_ALIGNED_def fits_def by (simp add: word_le_nat_alt u take_bit_eq_0_iff)
qed

lemma desc_type:
  assumes "4 dvd unat phys"
  shows "desc phys attr l AND 3 = (if l \<noteq> 3 then 1 else 3)"
proof -
  have "2 ^ 2 dvd unat phys" using assms by simp
  then have "\<not> bit phys 0" "\<not> bit phys 1" using low_bits[of 2 phys] by simp_all
  then show ?thesis unfolding desc_def mask_ranges
    by (intro bit_word_eqI) (auto simp: bit_simps less_2_cases_iff split: if_splits)
qed

lemma desc_leaf: "4 dvd unat phys \<Longrightarrow> 0 < l \<Longrightarrow> l \<le> 3 \<Longrightarrow> leaf_of (desc phys attr l) l = Some (desc phys attr l, l)"
  using desc_type[of phys attr l] by (cases "l = 3") (auto simp: leaf_of_def)

text \<open>A level where the block fits: the entry is written.\<close>

lemma map_here:
  assumes "fits (unat a) (unat sz) l"
  shows "map_levels (l # ls) (page s i) (a, phys, sz, attr) s =
    ((a + 2 ^ level2shift l, phys + 2 ^ level2shift l, sz - 2 ^ level2shift l, attr AND ATTR_MASK),
     put (slot s i (vidx (unat a) l)) (desc phys attr l) s)"
proof -
  have p: "(push_bit (level2shift l) 1 :: u64) = 2 ^ level2shift l" by (simp add: push_bit_eq_mult)
  show ?thesis unfolding map_levels.simps Let_def slot_vidx using assms[folded fits_word] by (simp add: p desc_def)
qed

lemma map_down:
  assumes "\<not> fits (unat a) (unat sz) l"
  shows "map_levels (l # ls) (page s i) (a, phys, sz, attr) s =
    (let (tab, s1) = get_level_table (slot s i (vidx (unat a) l)) s in map_levels ls tab (a, phys, sz, attr) s1)"
  unfolding map_levels.simps Let_def slot_vidx using assms[folded fits_word] by (simp only: if_False)

text \<open>
  A fresh page linked into the tree: the walks through the entry that held no table now end in the empty page, so
  whatever that entry mapped is gone; the other walks are as before.
\<close>

lemma link_new:
  assumes ok: "tables_ok n s" and n20: "n < 20" and l: "l < 3" "ix \<in> ixs" "tbl_at s ix l = Some i"
    and old: "entry s i (ix l) AND 3 \<noteq> 3" and u: "outside_kept s u"
      "\<forall>k<20. \<forall>x<512. entry u k x = (if k = n then 0 else entry s k x)"
    and t: "t = put (slot s i (ix l)) (page s n OR 3) u"
  shows "\<And>jx k. jx \<in> ixs \<Longrightarrow> k \<le> 3 \<Longrightarrow> tbl_at t jx k = (if k = Suc l \<and> agree (Suc l) jx ix then Some n else tbl_at s jx k)"
    "tables_ok (Suc n) t" "outside_kept s t"
    "\<And>jx. jx \<in> ixs \<Longrightarrow> leaf t jx = (if agree (Suc l) jx ix then None else leaf s jx)"
proof -
  note p = tables_okD(1)[OF ok]
  have mu: "main_tbl u = main_tbl s" using u(1) by (simp add: outside_kept_def)
  have il: "i < n" "ix l < 512" using tbl_lt[OF ok l(2) _ l(3)] l(1,2) by (simp_all add: ixs_def)
  have su: "slot u = slot s" "pool_ok u" using pool_cong[OF mu] p by simp_all
  have mt: "main_tbl t = main_tbl s" using mu by (simp add: t put_def)
  have e: "entry t k x = (if k = i \<and> x = ix l then page s n OR 3 else if k = n then 0 else entry s k x)"
    if "k < 20" "x < 512" for k x
    unfolding t su(1)[symmetric] using entry_put[OF su(2) _ il(2) that(1,2), of i] u(2) that il(1) n20 by (cases "k = n") simp_all
  have l3: "l \<le> 3" using l(1) by simp
  show w1: "tbl_at t jx k = (if k = Suc l \<and> agree (Suc l) jx ix then Some n else tbl_at s jx k)" if "jx \<in> ixs" "k \<le> 3" for jx k
    by (rule write_link(1)[OF ok n20 l(2,1,3) mt _ _ old that]) (use e n20 il(1) in auto)
  show "tables_ok (Suc n) t"
    by (rule write_link(2)[OF ok n20 l(2,1,3) mt _ _ old]) (use e n20 il(1) in auto)
  have "outside_kept u t" unfolding t su(1)[symmetric] by (rule put_kept) (use il n20 in simp_all)
  then show "outside_kept s t" using outside_trans[OF u(1)] by blast
  show "leaf t jx = (if agree (Suc l) jx ix then None else leaf s jx)" if jx: "jx \<in> ixs" for jx
  proof (cases "agree (Suc l) jx ix")
    case True
    have x: "jx (Suc l) < 512" using jx by (simp add: ixs_def)
    have "entry t n (jx (Suc l)) = 0" using e[OF n20 x] il(1) by simp
    moreover have "tbl_at t jx (Suc l) = Some n" using w1[OF jx, of "Suc l"] True l(1) by simp
    ultimately have "leaf t jx = leaf_of 0 (Suc l)" using leaf_stop[of t jx "Suc l" n] l(1) by simp
    then show ?thesis using True by (simp add: leaf_of_def)
  next
    case False
    have "look t jx k = look s jx k" if k: "k \<le> 3" for k
    proof (cases "tbl_at s jx k")
      case None
      then show ?thesis using w1[OF jx k] False by (auto simp: look_def)
    next
      case (Some j)
      have jn: "j < n" "jx k < 512" using tbl_lt[OF ok jx k Some] jx by (simp_all add: ixs_def)
      have "\<not> (j = i \<and> jx k = ix l)"
      proof
        assume a: "j = i \<and> jx k = ix l"
        then have "k = l \<and> agree l jx ix" using tables_okD(5)[OF ok jx l(2) k l3 Some] l(3) by simp
        then have "agree (Suc l) jx ix" using a by (auto simp: less_Suc_eq)
        then show False using False by blast
      qed
      then have "entry t j (jx k) = entry s j (jx k)" using e[OF _ jn(2), of j] jn(1) n20 by auto
      then show ?thesis using w1[OF jx k] False Some by (auto simp: look_def)
    qed
    then have "leaf t jx = leaf s jx" by (rule leaf_cong)
    then show ?thesis unfolding if_not_P[OF False] .
  qed
qed

text \<open>An entry without a table decides the walks through it.\<close>

lemma leaf_agree:
  assumes "tbl_at s ix l = Some i" "entry s i (ix l) AND 3 \<noteq> 3" "l \<le> 3" "agree (Suc l) jx ix"
  shows "leaf s jx = leaf s ix"
proof -
  have "tbl_at s jx l = Some i" "jx l = ix l" using tbl_at_cong[of l jx ix s] assms by auto
  then show ?thesis using leaf_stop[of s jx l i] leaf_stop[OF assms(1,3)] assms(2,3) by simp
qed

lemma table_there:
  assumes ok: "tables_ok n s" and l: "l < 3" "ix \<in> ixs" "tbl_at s ix l = Some i" and j: "tbl_at s ix (Suc l) = Some j"
  shows "entry s i (ix l) = page s j OR 3" "j < 20" "get_level_table (slot s i (ix l)) s = (page s j, s)"
    "entry s i (ix l) AND 3 = 3" "entry s i (ix l) AND TABLE_ADDR_MASK = page s j"
proof -
  show e: "entry s i (ix l) = page s j OR 3" and lt: "j < 20"
    using tbl_step[OF ok l(2,1) j] l(3) tables_okD(3)[OF ok] by auto
  note b = page_bits[OF tables_okD(1)[OF ok] lt]
  show "entry s i (ix l) AND 3 = 3" "entry s i (ix l) AND TABLE_ADDR_MASK = page s j" unfolding e by (fact b)+
  show "get_level_table (slot s i (ix l)) s = (page s j, s)"
    using b e by (simp add: get_level_table_def pte_type_def entry_def)
qed

text \<open>Going down: the next table exists, or is created empty, which no walk notices where nothing was mapped.\<close>

lemma made_table:
  assumes ok: "tables_ok n s" and n: "unat (free_idx s) = n" "n < 20"
    and l: "l < 3" "ix \<in> ixs" "tbl_at s ix l = Some i" and old: "entry s i (ix l) AND 3 \<noteq> 3"
  obtains t where "get_level_table (slot s i (ix l)) s = (page s n, t)" "tables_ok (Suc n) t" "unat (free_idx t) = Suc n"
    "outside_kept s t" "page_off t = page_off s" "\<And>jx. jx \<in> ixs \<Longrightarrow> leaf t jx = (if agree (Suc l) jx ix then None else leaf s jx)"
    "\<And>jx k. jx \<in> ixs \<Longrightarrow> k \<le> 3 \<Longrightarrow> tbl_at t jx k = (if k = Suc l \<and> agree (Suc l) jx ix then Some n else tbl_at s jx k)"
proof -
  obtain u where u: "create_table s = (page s n, u)" "outside_kept s u" "unat (free_idx u) = Suc n" "page_off u = page_off s"
    "\<And>i x. i < 20 \<Longrightarrow> x < 512 \<Longrightarrow> entry u i x = (if i = n then 0 else entry s i x)"
    using create_table_spec[OF tables_okD(1)[OF ok] n] by blast
  let ?t = "put (slot s i (ix l)) (page s n OR 3) u"
  have ue: "\<forall>k<20. \<forall>x<512. entry u k x = (if k = n then 0 else entry s k x)" using u(5) by blast
  note k = link_new[OF ok n(2) l old u(2) ue refl]
  show thesis
  proof (rule that[of ?t])
    show "get_level_table (slot s i (ix l)) s = (page s n, ?t)"
      using old u(1) unfolding get_level_table_def pte_type_def entry_def by (simp add: set_table_def or.commute)
    show "unat (free_idx ?t) = Suc n" "page_off ?t = page_off s" using u(3,4) by (simp_all add: put_def)
  qed (fact k)+
qed

lemma next_table:
  assumes ok: "tables_ok n s" and n: "unat (free_idx s) = n"
    and l: "l < 3" "ix \<in> ixs" "tbl_at s ix l = Some i" and lf: "leaf s ix = None"
    and room: "n + missing s ix (Suc l) \<le> 20"
  obtains t where "get_level_table (slot s i (ix l)) s = (page s (the (tbl_at t ix (Suc l))), t)"
    "tbl_at t ix (Suc l) \<noteq> None" "tables_ok (n + missing s ix (Suc l)) t" "unat (free_idx t) = n + missing s ix (Suc l)"
    "outside_kept s t" "page_off t = page_off s" "\<And>jx. jx \<in> ixs \<Longrightarrow> leaf t jx = leaf s jx"
    "\<And>jx k. jx \<in> ixs \<Longrightarrow> k \<le> 3 \<Longrightarrow> (tbl_at t jx k = None) = (tbl_at s jx k = None \<and> \<not> (k = Suc l \<and> agree k jx ix))"
proof (cases "entry s i (ix l) AND 3 = 3")
  case True
  then obtain j where j: "tbl_at s ix (Suc l) = Some j" using l(3) by simp
  note g = table_there(3)[OF ok l j]
  have m: "missing s ix (Suc l) = 0" using j by (simp add: missing_def)
  have tj: "tbl_at s jx (Suc l) \<noteq> None" if "agree (Suc l) jx ix" for jx
    unfolding tbl_at_cong[OF that, of s] j by simp
  show thesis
  proof (rule that[of s])
    show "get_level_table (slot s i (ix l)) s = (page s (the (tbl_at s ix (Suc l))), s)" unfolding j using g by simp
    show "tbl_at s ix (Suc l) \<noteq> None" unfolding j by simp
    show "(tbl_at s jx k = None) = (tbl_at s jx k = None \<and> \<not> (k = Suc l \<and> agree k jx ix))" for jx k
      using tj[of jx] by (metis (no_types, lifting))
  qed (use m ok n in simp_all)
next
  case False
  then have none: "tbl_at s ix (Suc l) = None" using l(3) by simp
  then have m: "missing s ix (Suc l) = 1" by (simp add: missing_def)
  have n20: "n < 20" using room m by simp
  obtain t where t: "get_level_table (slot s i (ix l)) s = (page s n, t)" "tables_ok (Suc n) t" "unat (free_idx t) = Suc n"
    "outside_kept s t" "page_off t = page_off s" "\<And>jx. jx \<in> ixs \<Longrightarrow> leaf t jx = (if agree (Suc l) jx ix then None else leaf s jx)"
    "\<And>jx k. jx \<in> ixs \<Longrightarrow> k \<le> 3 \<Longrightarrow> tbl_at t jx k = (if k = Suc l \<and> agree (Suc l) jx ix then Some n else tbl_at s jx k)"
    using made_table[OF ok n n20 l False] by blast
  have l3: "l \<le> 3" using l(1) by simp
  have tn: "tbl_at t ix (Suc l) = Some n" using t(7)[OF l(2), of "Suc l"] l(1) by simp
  show thesis
  proof (rule that[of t])
    show "get_level_table (slot s i (ix l)) s = (page s (the (tbl_at t ix (Suc l))), t)" unfolding tn using t(1) by simp
    show "leaf t jx = leaf s jx" if "jx \<in> ixs" for jx
      using t(6)[OF that] leaf_agree[OF l(3) False l3, of jx] lf by simp
    show "(tbl_at t jx k = None) = (tbl_at s jx k = None \<and> \<not> (k = Suc l \<and> agree k jx ix))" if "jx \<in> ixs" "k \<le> 3" for jx k
      using t(7)[OF that] by auto
  qed (use t tn m in simp_all)
qed

text \<open>A whole round: the tables down to the first level that fits, then the entry.\<close>

lemma round_here:
  assumes ok: "tables_ok n s" and f: "fits (unat a) (unat sz) l" and l: "0 < l" "l \<le> 3"
    and t: "tbl_at s (vidx (unat a)) l = Some i" and ph: "4 dvd unat phys"
  obtains u where "map_levels (l # ls) (page s i) (a, phys, sz, attr) s =
      ((a + 2 ^ level2shift l, phys + 2 ^ level2shift l, sz - 2 ^ level2shift l, attr AND ATTR_MASK), u)"
    "tables_ok n u" "free_idx u = free_idx s" "outside_kept s u" "page_off u = page_off s"
    "\<And>jx. jx \<in> ixs \<Longrightarrow> leaf u jx = (if agree (Suc l) jx (vidx (unat a)) then Some (desc phys attr l, l) else leaf s jx)"
    "\<And>jx k. jx \<in> ixs \<Longrightarrow> k \<le> 3 \<Longrightarrow>
       (tbl_at u jx k = None) = (l < k \<and> agree (Suc l) jx (vidx (unat a)) \<or> tbl_at s jx k = None)"
proof -
  let ?ix = "vidx (unat a)" and ?v = "desc phys attr l"
  let ?u = "put (slot s i (?ix l)) ?v s"
  note p = tables_okD(1,3)[OF ok]
  have il: "i < n" "?ix l < 512" using tbl_lt[OF ok vidx_ixs l(2) t] by (simp_all add: vidx_def)
  have m: "main_tbl ?u = main_tbl s" by (simp add: put_def)
  have e: "\<And>k x. k < n \<Longrightarrow> x < 512 \<Longrightarrow> entry ?u k x = (if k = i \<and> x = ?ix l then ?v else entry s k x)"
    by (rule entry_put[OF p(1)]) (use il p(2) in simp_all)
  have v: "l = 3 \<or> ?v AND 3 \<noteq> 3" using desc_type[OF ph, of attr l] by simp
  have w1: "tbl_at ?u jx k = (if l < k \<and> agree (Suc l) jx ?ix then None else tbl_at s jx k)" if "jx \<in> ixs" "k \<le> 3" for jx k
    by (rule write_leaf(1)[OF ok vidx_ixs l(2) t m _ v that]) (rule e)
  have w2: "look ?u jx k = (if agree (Suc l) jx ?ix then if k < l then look s jx k else if k = l then Some ?v else None else look s jx k)"
    if "jx \<in> ixs" "k \<le> 3" for jx k
    by (rule write_leaf(2)[OF ok vidx_ixs l(2) t m _ v that]) (rule e)
  have w3: "tables_ok n ?u" by (rule write_leaf(3)[OF ok vidx_ixs l(2) t m _ v]) (rule e)
  have lf: "leaf ?u jx = (if agree (Suc l) jx ?ix then Some (?v, l) else leaf s jx)" if jx: "jx \<in> ixs" for jx
  proof (cases "agree (Suc l) jx ?ix")
    case True
    have "tbl_at s jx l = Some i" using tbl_at_cong[of l jx ?ix s] True t by simp
    then have ti: "tbl_at ?u jx l = Some i" using w1[OF jx l(2)] by simp
    have "entry ?u i (jx l) = ?v" using e[OF il] True by simp
    then have "leaf ?u jx = leaf_of ?v l" using leaf_stop[OF ti l(2)] v by simp
    then show ?thesis unfolding if_P[OF True] desc_leaf[OF ph l] .
  next
    case False
    have "leaf ?u jx = leaf s jx" by (rule leaf_cong) (use w2[OF jx] in \<open>simp only: if_not_P[OF False]\<close>)
    then show ?thesis unfolding if_not_P[OF False] .
  qed
  show thesis
  proof (rule that[OF map_here[OF f] w3])
    show "outside_kept s ?u" by (rule put_kept[OF _ il(2)]) (use il(1) p(2) in simp)
    show "leaf ?u jx = (if agree (Suc l) jx ?ix then Some (?v, l) else leaf s jx)" if "jx \<in> ixs" for jx by (rule lf[OF that])
    show "(tbl_at ?u jx k = None) = (l < k \<and> agree (Suc l) jx ?ix \<or> tbl_at s jx k = None)" if "jx \<in> ixs" "k \<le> 3" for jx k
      using w1[OF that] by auto
  qed (simp_all add: put_def)
qed

definition tables_made :: "mmu_sys \<Rightarrow> (nat \<Rightarrow> nat) \<Rightarrow> nat \<Rightarrow> nat \<Rightarrow> nat" where
  "tables_made s ix l L = (\<Sum>k\<in>{l<..L}. missing s ix k)"

lemma tables_made_step: "l < L \<Longrightarrow> tables_made s ix l L = missing s ix (Suc l) + tables_made s ix (Suc l) L"
proof -
  assume "l < L"
  then have "{l<..L} = insert (Suc l) {Suc l<..L}" by auto
  then show ?thesis by (simp add: tables_made_def)
qed

lemma round_spec:
  assumes "tables_ok n s" "unat (free_idx s) = n" "tbl_at s (vidx (unat a)) l = Some i" "l \<le> L" "L \<le> 3" "0 < L"
    "fits (unat a) (unat sz) L" "\<And>k. l \<le> k \<Longrightarrow> k < L \<Longrightarrow> \<not> fits (unat a) (unat sz) k"
    "leaf s (vidx (unat a)) = None" "n + tables_made s (vidx (unat a)) l L \<le> 20" "4 dvd unat phys"
  shows "\<exists>u. map_levels [l..<4] (page s i) (a, phys, sz, attr) s =
      ((a + 2 ^ level2shift L, phys + 2 ^ level2shift L, sz - 2 ^ level2shift L, attr AND ATTR_MASK), u) \<and>
    tables_ok (n + tables_made s (vidx (unat a)) l L) u \<and> unat (free_idx u) = n + tables_made s (vidx (unat a)) l L \<and>
    outside_kept s u \<and> page_off u = page_off s \<and>
    (\<forall>jx\<in>ixs. leaf u jx = (if agree (Suc L) jx (vidx (unat a)) then Some (desc phys attr L, L) else leaf s jx)) \<and>
    (\<forall>jx\<in>ixs. \<forall>k\<le>3. (tbl_at u jx k = None) = (L < k \<and> agree (Suc L) jx (vidx (unat a)) \<or>
        tbl_at s jx k = None \<and> \<not> (l < k \<and> k \<le> L \<and> agree k jx (vidx (unat a)))))"
  using assms
proof (induction "L - l" arbitrary: l i n s)
  case 0
  then have lL: "l = L" by simp
  have ls: "[l..<4] = l # [Suc l..<4]" using lL 0(6) by (simp add: upt_conv_Cons)
  from 0 lL have f: "fits (unat a) (unat sz) l" "0 < l" "l \<le> 3" by simp_all
  obtain u where u: "map_levels (l # [Suc l..<4]) (page s i) (a, phys, sz, attr) s =
      ((a + 2 ^ level2shift l, phys + 2 ^ level2shift l, sz - 2 ^ level2shift l, attr AND ATTR_MASK), u)"
    "tables_ok n u" "free_idx u = free_idx s" "outside_kept s u" "page_off u = page_off s"
    "\<And>jx. jx \<in> ixs \<Longrightarrow> leaf u jx = (if agree (Suc l) jx (vidx (unat a)) then Some (desc phys attr l, l) else leaf s jx)"
    "\<And>jx k. jx \<in> ixs \<Longrightarrow> k \<le> 3 \<Longrightarrow>
       (tbl_at u jx k = None) = (l < k \<and> agree (Suc l) jx (vidx (unat a)) \<or> tbl_at s jx k = None)"
    using round_here[OF 0(2) f 0(4) 0(12)] by blast
  have z: "tables_made s (vidx (unat a)) l L = 0" by (simp add: tables_made_def lL)
  show ?case unfolding z ls using u 0(3) lL by (intro exI[of _ u]) auto
next
  case (Suc d)
  let ?ix = "vidx (unat a)"
  have lt: "l < L" "l < 3" using Suc(2,7) by simp_all
  have ls: "[l..<4] = l # [Suc l..<4]" using lt by (simp add: upt_conv_Cons)
  note st = tables_made_step[OF lt(1), of _ ?ix]
  have nf: "\<not> fits (unat a) (unat sz) l" using Suc(10) lt(1) by simp
  have room: "n + missing s ?ix (Suc l) \<le> 20" using Suc(12) st[of s] by simp
  obtain t where t: "get_level_table (slot s i (?ix l)) s = (page s (the (tbl_at t ?ix (Suc l))), t)"
    "tbl_at t ?ix (Suc l) \<noteq> None" "tables_ok (n + missing s ?ix (Suc l)) t" "unat (free_idx t) = n + missing s ?ix (Suc l)"
    "outside_kept s t" "page_off t = page_off s" "\<And>jx. jx \<in> ixs \<Longrightarrow> leaf t jx = leaf s jx"
    "\<And>jx k. jx \<in> ixs \<Longrightarrow> k \<le> 3 \<Longrightarrow> (tbl_at t jx k = None) = (tbl_at s jx k = None \<and> \<not> (k = Suc l \<and> agree k jx ?ix))"
    using next_table[OF Suc(3,4) lt(2) vidx_ixs Suc(5,11) room] by blast
  obtain j where j: "tbl_at t ?ix (Suc l) = Some j" using t(2) by blast
  have pt: "page t = page s" using t(5) by (simp add: outside_kept_def page_def fun_eq_iff)
  have md: "tables_made t ?ix (Suc l) L = tables_made s ?ix (Suc l) L"
    unfolding tables_made_def by (rule sum.cong) (use t(8)[OF vidx_ixs] Suc(7) in \<open>auto simp: missing_def\<close>)
  have "\<exists>u. map_levels [Suc l..<4] (page t j) (a, phys, sz, attr) t =
      ((a + 2 ^ level2shift L, phys + 2 ^ level2shift L, sz - 2 ^ level2shift L, attr AND ATTR_MASK), u) \<and>
    tables_ok (n + missing s ?ix (Suc l) + tables_made t ?ix (Suc l) L) u \<and>
    unat (free_idx u) = n + missing s ?ix (Suc l) + tables_made t ?ix (Suc l) L \<and>
    outside_kept t u \<and> page_off u = page_off t \<and>
    (\<forall>jx\<in>ixs. leaf u jx = (if agree (Suc L) jx ?ix then Some (desc phys attr L, L) else leaf t jx)) \<and>
    (\<forall>jx\<in>ixs. \<forall>k\<le>3. (tbl_at u jx k = None) = (L < k \<and> agree (Suc L) jx ?ix \<or>
        tbl_at t jx k = None \<and> \<not> (Suc l < k \<and> k \<le> L \<and> agree k jx ?ix)))"
    by (rule Suc(1)[OF _ t(3,4) j])
      (use Suc(2,7-10,13) lt t(7)[OF vidx_ixs] Suc(11,12) st[of s] md in auto)
  then obtain u where u: "map_levels [Suc l..<4] (page t j) (a, phys, sz, attr) t =
      ((a + 2 ^ level2shift L, phys + 2 ^ level2shift L, sz - 2 ^ level2shift L, attr AND ATTR_MASK), u)"
    "tables_ok (n + missing s ?ix (Suc l) + tables_made t ?ix (Suc l) L) u"
    "unat (free_idx u) = n + missing s ?ix (Suc l) + tables_made t ?ix (Suc l) L"
    "outside_kept t u" "page_off u = page_off t"
    "\<And>jx. jx \<in> ixs \<Longrightarrow> leaf u jx = (if agree (Suc L) jx ?ix then Some (desc phys attr L, L) else leaf t jx)"
    "\<And>jx k. jx \<in> ixs \<Longrightarrow> k \<le> 3 \<Longrightarrow> (tbl_at u jx k = None) = (L < k \<and> agree (Suc L) jx ?ix \<or>
        tbl_at t jx k = None \<and> \<not> (Suc l < k \<and> k \<le> L \<and> agree k jx ?ix))" by blast
  have "map_levels [l..<4] (page s i) (a, phys, sz, attr) s =
      ((a + 2 ^ level2shift L, phys + 2 ^ level2shift L, sz - 2 ^ level2shift L, attr AND ATTR_MASK), u)"
    unfolding ls map_down[OF nf] t(1) using u(1) j pt by simp
  moreover have "(tbl_at u jx k = None) = (L < k \<and> agree (Suc L) jx ?ix \<or>
        tbl_at s jx k = None \<and> \<not> (l < k \<and> k \<le> L \<and> agree k jx ?ix))" if "jx \<in> ixs" "k \<le> 3" for jx k
  proof -
    have "l < k \<and> k \<le> L \<and> agree k jx ?ix \<longleftrightarrow> k = Suc l \<and> agree k jx ?ix \<or> Suc l < k \<and> k \<le> L \<and> agree k jx ?ix"
      using lt(1) by auto
    then show ?thesis unfolding u(7)[OF that] t(8)[OF that] by blast
  qed
  moreover have "leaf u jx = (if agree (Suc L) jx ?ix then Some (desc phys attr L, L) else leaf s jx)" if "jx \<in> ixs" for jx
    unfolding u(6)[OF that] t(7)[OF that] ..
  moreover have "outside_kept s u" by (rule outside_trans[OF t(5) u(4)])
  moreover have "tables_ok (n + tables_made s ?ix l L) u" "unat (free_idx u) = n + tables_made s ?ix l L" "page_off u = page_off s"
    using u(2,3,5) t(6) md st[of s] by (simp_all add: add.assoc)
  ultimately show ?case by blast
qed

end
