(* ===== verification/RT_Mmu_Map.thy ===== *)
theory RT_Mmu_Map
  imports RT_Mmu_Walk
begin

text \<open>
  Mapping a region: how its blocks divide the addresses, how many tables it needs, and what every address
  translates to afterwards.
\<close>

section \<open>Addresses and blocks\<close>

abbreviation blk_span :: "nat \<Rightarrow> nat" where
  "blk_span l \<equiv> 2 ^ level2shift l"

lemma level_cases: "l \<le> 3 \<Longrightarrow> l = 0 \<or> l = 1 \<or> l = 2 \<or> l = (3 :: nat)"
  by auto

lemma blk_values: "blk_span 0 = 2 ^ 39" "blk_span 1 = 2 ^ 30" "blk_span 2 = 2 ^ 21" "blk_span 3 = 4096" "blk_span (Suc 0) = 2 ^ 30"
  by (simp_all add: level2shift_def)

lemma blk_dvd: "k \<le> l \<Longrightarrow> blk_span l dvd blk_span k"
  by (intro le_imp_power_dvd) (simp add: level2shift_def)

lemma vidx_digit: "l < 3 \<Longrightarrow> v div blk_span (Suc l) = 512 * (v div blk_span l) + vidx v (Suc l)"
proof -
  assume "l < 3"
  then have "blk_span l = blk_span (Suc l) * 512" using level_cases[of l] by (auto simp: level2shift_def)
  then have "v div blk_span l = v div blk_span (Suc l) div 512" by (simp add: div_mult2_eq)
  then show ?thesis unfolding vidx_def using mult_div_mod_eq[of 512 "v div blk_span (Suc l)"] by simp
qed

lemma agree_div:
  assumes "a < 2 ^ 48" "b < 2 ^ 48"
  shows "l \<le> 3 \<Longrightarrow> agree (Suc l) (vidx b) (vidx a) \<longleftrightarrow> b div blk_span l = a div blk_span l"
proof (induction l)
  case 0
  have "vidx v 0 = v div blk_span 0" if "v < 2 ^ 48" for v
  proof -
    have "v div 2 ^ 39 < 512" using that by (simp add: less_mult_imp_div_less)
    then show ?thesis by (simp add: vidx_def blk_values(1))
  qed
  then show ?case using assms by simp
next
  case (Suc l)
  have l: "l < 3" using Suc.prems by simp
  have x: "vidx v (Suc l) < 512" for v by (simp add: vidx_def)
  have "agree (Suc (Suc l)) (vidx b) (vidx a) \<longleftrightarrow> agree (Suc l) (vidx b) (vidx a) \<and> vidx b (Suc l) = vidx a (Suc l)"
    by (auto simp: less_Suc_eq)
  also have "\<dots> \<longleftrightarrow> b div blk_span l = a div blk_span l \<and> vidx b (Suc l) = vidx a (Suc l)" using Suc by simp
  also have "\<dots> \<longleftrightarrow> b div blk_span (Suc l) = a div blk_span (Suc l)"
    unfolding vidx_digit[OF l] using x[of a] x[of b] by (auto dest: arg_cong[where f="\<lambda>m. m mod 512"]) 
  finally show ?case .
qed

lemma same_block: "0 < (B :: nat) \<Longrightarrow> B dvd a \<Longrightarrow> b div B = a div B \<longleftrightarrow> a \<le> b \<and> b < a + B"
proof -
  assume B: "0 < B" "B dvd a"
  then obtain q where q: "a = B * q" by blast
  show ?thesis unfolding q using B(1)
    by (metis div_mult_self1_is_m div_nat_eqI dividend_less_times_div le_add1 mult.commute mult_Suc_right
        nonzero_mult_div_cancel_left times_div_less_eq_dividend neq0_conv add.commute)
qed

lemma next_block:
  assumes "B dvd S" "B dvd a" "\<not> S dvd a" "0 < (B :: nat)" "0 < S"
  shows "S dvd a + B \<or> (a + B) div S = a div S"
proof -
  let ?r = "a mod S"
  note S0 = assms(5)
  have r: "0 < ?r" "?r < S" "B dvd ?r" using assms S0 by (auto simp: dvd_mod mod_greater_zero_iff_not_dvd)
  have "?r + B \<le> S"
  proof -
    obtain x y where x: "?r = B * x" "S = B * y" using r(3) assms(1) by (elim dvdE)
    then have "x < y" using r(2) by simp
    then have "B * (x + 1) \<le> B * y" by (intro mult_le_mono2) simp
    then show ?thesis using x by simp
  qed
  moreover have "a + B = S * (a div S) + (?r + B)" using mult_div_mod_eq[of S a] by simp
  ultimately show ?thesis
  proof (cases "?r + B = S")
    case True
    have "a + B = S * (a div S) + S" using \<open>a + B = _\<close> True by simp
    then have "S dvd a + B" by simp
    then show ?thesis ..
  next
    case False
    then have lt: "?r + B < S" using \<open>?r + B \<le> S\<close> by simp
    then have "(S * (a div S) + (?r + B)) div S = a div S" using S0 by (simp only: div_mult_self4 div_less)
    then show ?thesis using \<open>a + B = _\<close> by presburger
  qed
qed

lemma dvd_between: "S dvd (q :: nat) \<Longrightarrow> q < x \<Longrightarrow> x < q + S \<Longrightarrow> \<not> S dvd x"
proof
  assume a: "S dvd q" "q < x" "x < q + S" "S dvd x"
  then have "S dvd x - q" by simp
  then have "S \<le> x - q" by (rule dvd_imp_le) (use a(2) in simp)
  then show False using a(2,3) by linarith
qed

section \<open>How many tables a region needs\<close>

text \<open>
  At each level at most two tables are missing: the one that holds the start of the region, if the start is not on
  a boundary of that level, and the one that holds its end.
\<close>

definition head_need :: "mmu_sys \<Rightarrow> nat \<Rightarrow> nat \<Rightarrow> nat" where
  "head_need s a k = (if \<not> blk_span (k - 1) dvd a \<and> tbl_at s (vidx a) k = None then 1 else 0)"

definition tail_need :: "mmu_sys \<Rightarrow> nat \<Rightarrow> nat \<Rightarrow> nat" where
  "tail_need s e k = (if \<not> blk_span (k - 1) dvd e \<and> tbl_at s (vidx (e - 1)) k = None then 1 else 0)"

definition need :: "mmu_sys \<Rightarrow> nat \<Rightarrow> nat \<Rightarrow> nat" where
  "need s a e = (\<Sum>k\<in>{0<..3}. head_need s a k + tail_need s e k)"

lemma need_le: "need s a e \<le> 6"
proof -
  have "need s a e \<le> (\<Sum>k\<in>{0<..(3::nat)}. 2)"
    unfolding need_def by (rule sum_mono) (simp add: head_need_def tail_need_def)
  then show ?thesis by simp
qed

text \<open>A region that starts on a boundary but is smaller than the block: its last byte is in that block.\<close>

lemma ends_within:
  assumes "blk_span l dvd a" "\<not> fits a (e - a) l" "a < e"
  shows "e < a + blk_span l" "(e - 1) div blk_span l = a div blk_span l" "\<not> blk_span l dvd e"
proof -
  show lt: "e < a + blk_span l" using assms by (auto simp: fits_def)
  have "a \<le> e - 1 \<and> e - 1 < a + blk_span l" using lt assms(3) by linarith
  then show "(e - 1) div blk_span l = a div blk_span l" using same_block[OF _ assms(1), of "e - 1"] by simp
  show "\<not> blk_span l dvd e" by (rule dvd_between[OF assms(1,3) lt])
qed

lemma missing_needed:
  assumes "a < 2 ^ 48" "e \<le> 2 ^ 48" "a < e" "l \<le> 2" "\<not> fits a (e - a) l"
  shows "missing s (vidx a) (Suc l) \<le> head_need s a (Suc l) + tail_need s e (Suc l)"
    "blk_span l dvd a \<Longrightarrow> missing s (vidx a) (Suc l) = tail_need s e (Suc l)"
proof -
  show t: "missing s (vidx a) (Suc l) = tail_need s e (Suc l)" if "blk_span l dvd a"
  proof -
    note w = ends_within[OF that assms(5,3)]
    have "e - 1 < 2 ^ 48" using assms(2,3) by linarith
    then have "agree (Suc l) (vidx (e - 1)) (vidx a)" using agree_div[OF assms(1), of "e - 1" l] w(2) assms(4) by simp
    then have "tbl_at s (vidx (e - 1)) (Suc l) = tbl_at s (vidx a) (Suc l)" by (rule tbl_at_cong)
    then show ?thesis using w(3) by (simp add: missing_def tail_need_def del: tbl_at.simps)
  qed
  show "missing s (vidx a) (Suc l) \<le> head_need s a (Suc l) + tail_need s e (Suc l)"
    using t by (cases "blk_span l dvd a") (simp_all add: missing_def head_need_def)
qed

text \<open>A round that maps one block pays for the tables it makes.\<close>

lemma need_level:
  assumes a: "a < 2 ^ 48" "e \<le> 2 ^ 48" "a + blk_span L \<le> e" and L: "L \<le> 3" "blk_span L dvd a"
    and nf: "\<And>k. k < L \<Longrightarrow> \<not> fits a (e - a) k" and k: "0 < k" "k \<le> 3"
    and R: "\<And>jx j. jx \<in> ixs \<Longrightarrow> j \<le> 3 \<Longrightarrow> (tbl_at t jx j = None) =
      (L < j \<and> agree (Suc L) jx (vidx a) \<or> tbl_at s jx j = None \<and> \<not> (0 < j \<and> j \<le> L \<and> agree j jx (vidx a)))"
  shows "(if k \<le> L then missing s (vidx a) k else 0) + (head_need t (a + blk_span L) k + tail_need t e k) \<le>
    head_need s a k + tail_need s e k"
proof -
  obtain l where l: "k = Suc l" "l \<le> 2" using k by (cases k) auto
  let ?S = "blk_span l" and ?B = "blk_span L"
  have pos: "0 < ?S" "0 < ?B" by simp_all
  have e1: "e - 1 < 2 ^ 48" "a < e" using a pos(2) by linarith+
  have ag: "agree k (vidx b) (vidx a) \<longleftrightarrow> b div ?S = a div ?S" if "b < 2 ^ 48" for b
    using agree_div[OF a(1) that, of l] l by simp
  show ?thesis
  proof (cases "k \<le> L")
    case True
    have BS: "?B dvd ?S" using blk_dvd[of l L] True l(1) by simp
    have BleS: "?B \<le> ?S" by (rule dvd_imp_le[OF BS]) simp
    have N: "(tbl_at t (vidx b) k = None) = (tbl_at s (vidx b) k = None \<and> b div ?S \<noteq> a div ?S)" if "b < 2 ^ 48" for b
      unfolding R[OF vidx_ixs k(2)] using True k(1) ag[OF that] by auto
    have tl: "tail_need t e k \<le> tail_need s e k" using N[OF e1(1)] by (auto simp: tail_need_def)
    show ?thesis
    proof (cases "?S dvd a")
      case False
      have "head_need t (a + ?B) k = 0"
      proof (cases "?S dvd a + ?B")
        case nd: False
        then have d: "(a + ?B) div ?S = a div ?S" using next_block[OF BS L(2) False pos(2,1)] by blast
        have "a + ?B \<noteq> 2 ^ 48"
        proof
          assume "a + ?B = 2 ^ 48"
          moreover have "?S dvd 2 ^ 48" by (rule le_imp_power_dvd) (simp add: level2shift_def)
          ultimately show False using nd by simp
        qed
        then have "a + ?B < 2 ^ 48" using a(2,3) by linarith
        then show ?thesis using N[of "a + ?B"] d by (simp add: head_need_def)
      qed (simp add: head_need_def l(1))
      moreover have "missing s (vidx a) k = head_need s a k" using False by (simp add: missing_def head_need_def l(1))
      ultimately show ?thesis using tl True by simp
    next
      case dv: True
      have "\<not> fits a (e - a) l" using nf True l(1) by simp
      note w = ends_within[OF dv \<open>\<not> fits a (e - a) l\<close> e1(2)]
      note lt = w(1) and ends = w(2)
      have "tail_need t e k = 0" using N[OF e1(1)] ends by (simp add: tail_need_def)
      moreover have "head_need t (a + ?B) k = 0"
      proof -
        have "a + ?B < 2 ^ 48 \<or> a + ?B = 2 ^ 48" using a by linarith
        moreover have "a + ?B < a + ?S" using lt a(3) by linarith
        then have "(a + ?B) div ?S = a div ?S" using same_block[OF pos(1) dv, of "a + ?B"] by simp
        moreover have "a + ?B \<noteq> 2 ^ 48"
        proof
          assume e48: "a + ?B = 2 ^ 48"
          have "?S dvd 2 ^ 48" by (rule le_imp_power_dvd) (simp add: level2shift_def)
          moreover have "\<not> ?S dvd a + ?B" by (rule dvd_between[OF dv _ \<open>a + ?B < a + ?S\<close>]) simp
          ultimately show False unfolding e48 by blast
        qed
        ultimately show ?thesis using N[of "a + ?B"] by (simp add: head_need_def)
      qed
      moreover have "missing s (vidx a) k = tail_need s e k"
        unfolding l(1) by (rule missing_needed(2)[OF a(1,2) e1(2) l(2) \<open>\<not> fits a (e - a) l\<close> dv])
      ultimately show ?thesis using True by simp
    qed
  next
    case False
    then have Ll: "L \<le> l" using l(1) by simp
    have SB: "?S dvd ?B" by (rule blk_dvd[OF Ll])
    then have "?S dvd a" "?S dvd a + ?B" using L(2) by (auto intro: dvd_trans)
    then have h: "head_need s a k = 0" "head_need t (a + ?B) k = 0" by (simp_all add: head_need_def l(1))
    have "tail_need t e k \<le> tail_need s e k"
    proof (cases "?S dvd e \<or> tbl_at t (vidx (e - 1)) k \<noteq> None")
      case f: False
      have "\<not> agree (Suc L) (vidx (e - 1)) (vidx a)"
      proof
        assume "agree (Suc L) (vidx (e - 1)) (vidx a)"
        then have "(e - 1) div ?B = a div ?B" using agree_div[OF a(1) e1(1) L(1)] by simp
        then have "e - 1 < a + ?B" using same_block[OF pos(2) L(2)] by blast
        then have "e = a + ?B" using a(3) by simp
        then show False using f \<open>?S dvd a + ?B\<close> by simp
      qed
      then have "tbl_at s (vidx (e - 1)) k = None" using R[OF vidx_ixs k(2)] f by blast
      then show ?thesis using f by (simp add: tail_need_def l(1))
    qed (auto simp: tail_need_def l(1))
    then show ?thesis using h False by simp
  qed
qed

lemma tables_made_needed:
  assumes "a < 2 ^ 48" "e \<le> 2 ^ 48" "a < e" "L \<le> 3" "\<And>k. k < L \<Longrightarrow> \<not> fits a (e - a) k"
  shows "tables_made s (vidx a) 0 L \<le> need s a e"
proof -
  have "missing s (vidx a) k \<le> head_need s a k + tail_need s e k" if k: "k \<in> {0<..L}" for k
  proof -
    obtain l where "k = Suc l" "l \<le> 2" "l < L" using k assms(4) by (cases k) auto
    then show ?thesis using missing_needed(1)[OF assms(1-3), of l s] assms(5) by blast
  qed
  then have "tables_made s (vidx a) 0 L \<le> (\<Sum>k\<in>{0<..L}. head_need s a k + tail_need s e k)"
    unfolding tables_made_def by (rule sum_mono)
  also have "\<dots> \<le> need s a e" unfolding need_def by (rule sum_mono2) (use assms(4) in auto)
  finally show ?thesis .
qed

lemma need_round:
  assumes "a < 2 ^ 48" "e \<le> 2 ^ 48" "a + blk_span L \<le> e" "L \<le> 3" "blk_span L dvd a" "\<And>k. k < L \<Longrightarrow> \<not> fits a (e - a) k"
    and "\<And>jx j. jx \<in> ixs \<Longrightarrow> j \<le> 3 \<Longrightarrow> (tbl_at t jx j = None) =
      (L < j \<and> agree (Suc L) jx (vidx a) \<or> tbl_at s jx j = None \<and> \<not> (0 < j \<and> j \<le> L \<and> agree j jx (vidx a)))"
  shows "tables_made s (vidx a) 0 L + need t (a + blk_span L) e \<le> need s a e"
proof -
  have "tables_made s (vidx a) 0 L = (\<Sum>k\<in>{0<..3}. if k \<le> L then missing s (vidx a) k else 0)"
    unfolding tables_made_def by (rule sum.mono_neutral_cong_left) (use assms(4) in auto)
  then have "tables_made s (vidx a) 0 L + need t (a + blk_span L) e =
      (\<Sum>k\<in>{0<..3}. (if k \<le> L then missing s (vidx a) k else 0) + (head_need t (a + blk_span L) k + tail_need t e k))"
    by (simp add: need_def sum.distrib)
  also have "\<dots> \<le> need s a e" unfolding need_def by (intro sum_mono need_level) (use assms in auto)
  finally show ?thesis .
qed

section \<open>What a block translates to\<close>

definition target :: "(u64 \<times> nat) option \<Rightarrow> u64 \<Rightarrow> (u64 \<times> u64) option" where
  "target d va =
     (case d of
        Some (e, level) \<Rightarrow>
          if va \<ge> 0x1000000000000 then None
          else Some (((e AND TABLE_ADDR_MASK) AND NOT (mask (level2shift level))) OR (va AND mask (level2shift level)),
                     e AND ATTR_MASK)
      | None \<Rightarrow> None)"

lemma translate_leaf: "tables_ok n s \<Longrightarrow> translate s va = target (leaf s (vidx (unat va))) va"
  by (simp only: translate_def target_def walk_leaf)

lemma target_desc:
  assumes L: "L \<le> 3" "blk_span L dvd unat addr" "blk_span L dvd unat phys" and ph: "unat phys < 2 ^ 48"
    and va: "unat addr \<le> unat va" "unat va < unat addr + blk_span L" "unat va < 2 ^ 48"
  shows "target (Some (desc phys attr L, L)) va = Some (phys + (va - addr), attr AND ATTR_MASK)"
proof -
  let ?k = "level2shift L"
  have k: "12 \<le> ?k" "?k < 64" by (simp_all add: level2shift_def)
  have lo: "\<not> bit phys j" if "j < ?k" for j by (rule low_bits[OF L(3) that])
  have hi: "\<not> bit phys j" if "48 \<le> j" for j by (rule high_bits[OF ph that])
  have lo2: "\<not> bit phys j" if "j < 12" for j using lo that k(1) by simp
  have ty: "\<not> bit (if L \<noteq> 3 then 1 else 3 :: u64) j" if "2 \<le> j" for j
    by (rule high_bits[OF _ that]) simp
  have tb: "bit (desc phys attr L) j = bit phys j" if "12 \<le> j" "j < 48" for j
  proof -
    have "\<not> bit (if L \<noteq> 3 then 1 else 3 :: u64) j" by (rule ty) (use that in simp)
    then show ?thesis unfolding desc_def mask_ranges using that by (simp add: bit_simps)
  qed
  have 1: "(desc phys attr L AND TABLE_ADDR_MASK) AND NOT (mask ?k) = phys"
  proof (rule bit_word_eqI)
    fix j assume j: "j < LENGTH(64)"
    show "bit ((desc phys attr L AND TABLE_ADDR_MASK) AND NOT (mask ?k)) j = bit phys j"
      unfolding mask_ranges using j lo[of j] hi[of j] tb[of j] k
      by (cases "?k \<le> j"; cases "j < 48") (simp_all add: bit_simps)
  qed
  have 2: "va AND mask ?k = va - addr"
  proof -
    have "unat (take_bit ?k va) = unat va mod blk_span L" by (simp only: unsigned_take_bit_eq) (simp only: take_bit_eq_mod)
    also have "\<dots> = unat va - unat addr"
    proof -
      obtain q where q: "unat addr = blk_span L * q" using L(2) by blast
      then have "unat va = blk_span L * q + (unat va - unat addr)" using va(1) by simp
      moreover have "unat va - unat addr < blk_span L" using va by simp
      ultimately show ?thesis by (metis mod_less mod_mult_self4)
    qed
    also have "\<dots> = unat (va - addr)" using va(1) by (simp add: unat_sub word_le_nat_alt)
    finally show ?thesis by (simp add: take_bit_eq_mask word_unat_eq_iff)
  qed
  have 3: "phys OR (va AND mask ?k) = phys + (va AND mask ?k)"
    by (rule disjunctive_add[symmetric]) (use lo in \<open>auto simp: bit_simps\<close>)
  have 4: "desc phys attr L AND ATTR_MASK = attr AND ATTR_MASK"
  proof (rule bit_word_eqI)
    fix j assume "j < LENGTH(64)"
    have "\<not> bit phys j" if "52 \<le> j \<or> j < 12" using lo2 hi that by auto
    moreover note ty[of j]
    ultimately show "bit (desc phys attr L AND ATTR_MASK) j = bit (attr AND ATTR_MASK) j"
      unfolding desc_def mask_ranges by (auto simp: bit_simps simp del: bit_numeral_iff)
  qed
  have "\<not> va \<ge> 0x1000000000000" using va(3) by (simp add: word_le_nat_alt)
  then show ?thesis unfolding target_def using 1 2 3 4 by simp
qed

section \<open>The whole region\<close>

text \<open>The level of the next block: the first that fits.\<close>

lemma next_level:
  assumes "4096 dvd a" "4096 dvd z" "0 < z" "z < 2 ^ 39"
  obtains L where "0 < L" "L \<le> 3" "fits a z L" "\<And>k. k < L \<Longrightarrow> \<not> fits a z k"
proof -
  have "4096 \<le> z" using assms by (intro dvd_imp_le)
  then have f3: "fits a z 3" using assms(1) by (simp add: fits_def blk_values)
  define L where "L = (LEAST k. fits a z k)"
  have "fits a z L" unfolding L_def by (rule LeastI[of _ 3]) (rule f3)
  moreover have "L \<le> 3" unfolding L_def by (rule Least_le) (rule f3)
  moreover have "\<not> fits a z k" if "k < L" for k using that not_less_Least unfolding L_def by blast
  moreover have "\<not> fits a z 0" using assms(4) by (simp add: fits_def blk_values)
  then have "L \<noteq> 0" using calculation(1) by metis
  ultimately show thesis using that by blast
qed

definition region_maps :: "mmu_sys \<Rightarrow> mmu_sys \<Rightarrow> u64 \<Rightarrow> u64 \<Rightarrow> nat \<Rightarrow> u64 \<Rightarrow> bool" where
  "region_maps s t addr phys e attr \<longleftrightarrow>
     (\<forall>va. translate t va = (if unat addr \<le> unat va \<and> unat va < e then Some (phys + (va - addr), attr AND ATTR_MASK)
                             else translate s va))"

text \<open>One block more in the tree, as translations.\<close>

lemma block_maps:
  assumes ok: "tables_ok n s" "tables_ok m u" and L: "L \<le> 3" "blk_span L dvd unat addr" "blk_span L dvd unat phys"
    and b: "unat phys < 2 ^ 48" "unat addr + blk_span L \<le> 2 ^ 48"
    and lf: "\<forall>jx\<in>ixs. leaf u jx = (if agree (Suc L) jx (vidx (unat addr)) then Some (desc phys attr L, L) else leaf s jx)"
  shows "region_maps s u addr phys (unat addr + blk_span L) attr"
  unfolding region_maps_def
proof
  fix va
  have B0: "0 < blk_span L" by simp
  then have a48: "unat addr < 2 ^ 48" using b(2) by linarith
  show "translate u va = (if unat addr \<le> unat va \<and> unat va < unat addr + blk_span L then Some (phys + (va - addr), attr AND ATTR_MASK)
      else translate s va)"
  proof (cases "unat va < 2 ^ 48")
    case False
    then have "0x1000000000000 \<le> va" by (simp add: word_le_nat_alt)
    then have "translate w va = None" for w by (simp add: translate_def split: option.splits del: tt_walk.simps)
    then show ?thesis using False b(2) by simp
  next
    case True
    have in_blk: "agree (Suc L) (vidx (unat va)) (vidx (unat addr)) \<longleftrightarrow> unat addr \<le> unat va \<and> unat va < unat addr + blk_span L"
      using agree_div[OF a48 True L(1)] same_block[OF B0 L(2), of "unat va"] by simp
    note l = lf[rule_format, OF vidx_ixs, of "unat va", unfolded in_blk]
    show ?thesis
    proof (cases "unat addr \<le> unat va \<and> unat va < unat addr + blk_span L")
      case in': True
      show ?thesis unfolding translate_leaf[OF ok(2)] l if_P[OF in']
        by (intro target_desc[OF L b(1)]) (use in' True in simp_all)
    next
      case out: False
      show ?thesis unfolding translate_leaf[OF ok(2)] l if_not_P[OF out] by (rule translate_leaf[OF ok(1), symmetric])
    qed
  qed
qed

lemma round_top:
  assumes "tables_ok n s" "unat (free_idx s) = n" "L \<le> 3" "0 < L" "fits (unat a) (unat sz) L"
    "\<forall>k<L. \<not> fits (unat a) (unat sz) k" "leaf s (vidx (unat a)) = None"
    "n + tables_made s (vidx (unat a)) 0 L \<le> 20" "4 dvd unat phys"
  shows "\<exists>u. map_levels [0..<4] (page s 0) (a, phys, sz, attr) s =
      ((a + 2 ^ level2shift L, phys + 2 ^ level2shift L, sz - 2 ^ level2shift L, attr AND ATTR_MASK), u) \<and>
    tables_ok (n + tables_made s (vidx (unat a)) 0 L) u \<and> unat (free_idx u) = n + tables_made s (vidx (unat a)) 0 L \<and>
    outside_kept s u \<and> page_off u = page_off s \<and>
    (\<forall>jx\<in>ixs. leaf u jx = (if agree (Suc L) jx (vidx (unat a)) then Some (desc phys attr L, L) else leaf s jx)) \<and>
    (\<forall>jx\<in>ixs. \<forall>k\<le>3. (tbl_at u jx k = None) = (L < k \<and> agree (Suc L) jx (vidx (unat a)) \<or>
        tbl_at s jx k = None \<and> \<not> (0 < k \<and> k \<le> L \<and> agree k jx (vidx (unat a)))))"
  by (rule round_spec) (use assms in simp_all)

text \<open>One round, with all it does: one block of the region is mapped.\<close>

lemma region_round:
  fixes sz :: u64
  assumes ok: "tables_ok n s" and n: "unat (free_idx s) = n" and e: "unat addr + unat sz = e" "e \<le> 2 ^ 48"
    and al: "4096 dvd unat addr" "4096 dvd unat sz" and sz: "0 < unat sz" "unat sz < 2 ^ 39"
    and ph: "unat phys mod 2 ^ 30 = unat addr mod 2 ^ 30" "unat phys + unat sz \<le> 2 ^ 48"
    and free: "\<And>b. unat addr \<le> b \<Longrightarrow> b < e \<Longrightarrow> leaf s (vidx b) = None" and room: "n + need s (unat addr) e \<le> 20"
  obtains L u m where "0 < L" "L \<le> 3"
    "map_levels [0, 1, 2, 3] (main_tbl s) (addr, phys, sz, attr) s =
       ((addr + 2 ^ level2shift L, phys + 2 ^ level2shift L, sz - 2 ^ level2shift L, attr AND ATTR_MASK), u)"
    "tables_ok m u" "unat (free_idx u) = m" "m + need u (unat addr + blk_span L) e \<le> n + need s (unat addr) e"
    "outside_kept s u" "page_off u = page_off s" "blk_span L \<le> unat sz" "blk_span L dvd unat addr"
    "\<And>b. unat addr + blk_span L \<le> b \<Longrightarrow> b < e \<Longrightarrow> leaf u (vidx b) = None"
    "region_maps s u addr phys (unat addr + blk_span L) attr"
proof -
  let ?a = "unat addr"
  obtain L where L: "0 < L" "L \<le> 3" "fits ?a (unat sz) L" "\<And>k. k < L \<Longrightarrow> \<not> fits ?a (unat sz) k"
    using next_level[OF al sz] by blast
  have B: "blk_span L \<le> unat sz" "blk_span L dvd ?a" using L(3) by (simp_all add: fits_def)
  have a48: "?a < 2 ^ 48" using e sz(1) by linarith
  have p30: "blk_span L dvd 2 ^ 30" using blk_dvd[of 1 L] L(1) by (simp add: blk_values)
  have "blk_span L dvd ?a mod 2 ^ 30" using B(2) p30 by (simp add: dvd_mod_iff)
  then have pL: "blk_span L dvd unat phys" using ph(1) p30 by (metis dvd_mod_iff)
  have "4096 dvd blk_span L" using blk_dvd[of L 3] L(2) by (simp add: blk_values)
  then have "4096 dvd unat phys" using pL by (rule dvd_trans)
  moreover have "(4 :: nat) dvd 4096" by simp
  ultimately have p4: "4 dvd unat phys" using dvd_trans by blast
  have lf0: "leaf s (vidx ?a) = None" using free[of ?a] e sz(1) by simp
  have ez: "e - ?a = unat sz" "?a < e" using e(1) sz(1) by linarith+
  have nf: "\<not> fits ?a (e - ?a) k" if "k < L" for k using L(4)[OF that] ez(1) by simp
  have made: "tables_made s (vidx ?a) 0 L \<le> need s ?a e"
    by (rule tables_made_needed[OF a48 e(2) ez(2) L(2) nf])
  obtain u where u: "map_levels [0..<4] (page s 0) (addr, phys, sz, attr) s =
      ((addr + 2 ^ level2shift L, phys + 2 ^ level2shift L, sz - 2 ^ level2shift L, attr AND ATTR_MASK), u)"
    "tables_ok (n + tables_made s (vidx ?a) 0 L) u" "unat (free_idx u) = n + tables_made s (vidx ?a) 0 L"
    "outside_kept s u" "page_off u = page_off s"
    "\<And>jx. jx \<in> ixs \<Longrightarrow> leaf u jx = (if agree (Suc L) jx (vidx ?a) then Some (desc phys attr L, L) else leaf s jx)"
    "\<And>jx k. jx \<in> ixs \<Longrightarrow> k \<le> 3 \<Longrightarrow> (tbl_at u jx k = None) = (L < k \<and> agree (Suc L) jx (vidx ?a) \<or>
        tbl_at s jx k = None \<and> \<not> (0 < k \<and> k \<le> L \<and> agree k jx (vidx ?a)))"
  proof -
    have r: "n + tables_made s (vidx ?a) 0 L \<le> 20" using made room by simp
    have nf': "\<forall>k<L. \<not> fits ?a (unat sz) k" using L(4) by blast
    from round_top[OF ok n L(2,1,3) nf' lf0 r p4, of attr] show thesis by (elim exE conjE) (rule that, blast+)
  qed
  have ab: "?a + blk_span L \<le> e" using B(1) e(1) by linarith
  have nd: "tables_made s (vidx ?a) 0 L + need u (?a + blk_span L) e \<le> need s ?a e"
    by (rule need_round[OF a48 e(2) ab L(2) B(2) nf u(7)])
  have in_blk: "agree (Suc L) (vidx b) (vidx ?a) \<longleftrightarrow> ?a \<le> b \<and> b < ?a + blk_span L" if "b < 2 ^ 48" for b
    using agree_div[OF a48 that L(2)] same_block[OF _ B(2), of b] by simp
  show thesis
  proof (rule that[OF L(1,2) _ u(2,3) _ u(4,5) B])
    show "map_levels [0, 1, 2, 3] (main_tbl s) (addr, phys, sz, attr) s =
       ((addr + 2 ^ level2shift L, phys + 2 ^ level2shift L, sz - 2 ^ level2shift L, attr AND ATTR_MASK), u)"
      using u(1) by (simp add: upt_rec numeral_2_eq_2 numeral_3_eq_3 del: map_levels.simps)
    show "n + tables_made s (vidx ?a) 0 L + need u (?a + blk_span L) e \<le> n + need s ?a e" using nd by simp
    show "leaf u (vidx b) = None" if "?a + blk_span L \<le> b" "b < e" for b
      using u(6)[OF vidx_ixs, of b] in_blk[of b] free[of b] that e(2) by simp
    show "region_maps s u addr phys (?a + blk_span L) attr"
      by (rule block_maps[OF ok u(2) L(2) B(2) pL]) (use ph(2) sz(1) ab e(2) u(6) in auto)
  qed
qed

lemma pow_blk: "unat (2 ^ level2shift l :: u64) = blk_span l"
  by (rule unat_pow[OF shift_lt])

lemma region_maps_join:
  assumes "region_maps s u addr phys m attr" "region_maps u t (addr + d) (phys + d) e (attr AND ATTR_MASK)"
    "unat (addr + d) = m" "unat addr \<le> m" "m \<le> e"
  shows "region_maps s t addr phys e attr"
  unfolding region_maps_def
proof
  fix va
  have 2: "translate t va = (if m \<le> unat va \<and> unat va < e then Some (phys + d + (va - (addr + d)), (attr AND ATTR_MASK) AND ATTR_MASK)
      else translate u va)" using assms(2) unfolding region_maps_def assms(3) by blast
  have 1: "translate u va = (if unat addr \<le> unat va \<and> unat va < m then Some (phys + (va - addr), attr AND ATTR_MASK)
      else translate s va)" using assms(1) unfolding region_maps_def by blast
  have "phys + d + (va - (addr + d)) = phys + (va - addr)" by (simp add: algebra_simps)
  moreover have "(attr AND ATTR_MASK) AND ATTR_MASK = attr AND ATTR_MASK" by (simp add: ac_simps)
  ultimately show "translate t va = (if unat addr \<le> unat va \<and> unat va < e then Some (phys + (va - addr), attr AND ATTR_MASK)
      else translate s va)"
    unfolding 1 2 using assms(4,5) by (cases "m \<le> unat va") (simp_all only: if_True if_False, auto)
qed

lemma map_region_spec:
  fixes sz :: u64
  assumes "tables_ok n s" "unat (free_idx s) = n" "unat addr + unat sz = e" "e \<le> 2 ^ 48"
    "4096 dvd unat addr" "4096 dvd unat sz" "unat sz < 2 ^ 39"
    "unat phys mod 2 ^ 30 = unat addr mod 2 ^ 30" "unat phys + unat sz \<le> 2 ^ 48"
    "\<forall>b. unat addr \<le> b \<and> b < e \<longrightarrow> leaf s (vidx b) = None" "n + need s (unat addr) e \<le> 20"
  shows "\<exists>t m. map_region (addr, phys, sz, attr) s = Some t \<and> tables_ok m t \<and> unat (free_idx t) = m \<and>
    m \<le> n + need s (unat addr) e \<and> outside_kept s t \<and> page_off t = page_off s \<and> region_maps s t addr phys e attr"
  using assms
proof (induction "unat sz" arbitrary: sz addr phys attr s n rule: less_induct)
  case less
  show ?case
  proof (cases "sz = 0")
    case True
    then have "map_region (addr, phys, sz, attr) s = Some s" by (simp add: map_region.simps)
    moreover have "region_maps s s addr phys e attr" using True less.prems(3) by (auto simp: region_maps_def)
    ultimately show ?thesis using less.prems(1,2) by auto
  next
    case False
    then have sz0: "0 < unat sz" by (simp add: unat_gt_0)
    have fr: "leaf s (vidx b) = None" if "unat addr \<le> b" "b < e" for b using less.prems(10) that by blast
    obtain L u m where r: "0 < L" "L \<le> 3"
      "map_levels [0, 1, 2, 3] (main_tbl s) (addr, phys, sz, attr) s =
         ((addr + 2 ^ level2shift L, phys + 2 ^ level2shift L, sz - 2 ^ level2shift L, attr AND ATTR_MASK), u)"
      "tables_ok m u" "unat (free_idx u) = m" "m + need u (unat addr + blk_span L) e \<le> n + need s (unat addr) e"
      "outside_kept s u" "page_off u = page_off s" "blk_span L \<le> unat sz" "blk_span L dvd unat addr"
      "\<And>b. unat addr + blk_span L \<le> b \<Longrightarrow> b < e \<Longrightarrow> leaf u (vidx b) = None"
      "region_maps s u addr phys (unat addr + blk_span L) attr"
      using region_round[OF less.prems(1-6) sz0 less.prems(7-9) fr less.prems(11), of attr] by blast
    let ?B = "2 ^ level2shift L :: u64"
    have step: "map_region (addr, phys, sz, attr) s = map_region (addr + ?B, phys + ?B, sz - ?B, attr AND ATTR_MASK) u"
      unfolding map_region.simps[of "(addr, phys, sz, attr)"] fst_conv snd_conv r(3) using False by simp
    have B0: "0 < blk_span L" by simp
    have B4: "4096 dvd blk_span L" using blk_dvd[of L 3] r(2) by (simp add: blk_values)
    have ua: "unat (addr + ?B) = unat addr + blk_span L"
      using unat_plus64[of addr ?B] r(9) less.prems(3,4) by (simp add: pow_blk)
    have up: "unat (phys + ?B) = unat phys + blk_span L"
      using unat_plus64[of phys ?B] r(9) less.prems(9) by (simp add: pow_blk)
    have us: "unat (sz - ?B) = unat sz - blk_span L" using r(9) by (simp add: unat_sub word_le_nat_alt pow_blk)
    have "\<exists>t m'. map_region (addr + ?B, phys + ?B, sz - ?B, attr AND ATTR_MASK) u = Some t \<and> tables_ok m' t \<and>
        unat (free_idx t) = m' \<and> m' \<le> m + need u (unat (addr + ?B)) e \<and> outside_kept u t \<and> page_off t = page_off u \<and>
        region_maps u t (addr + ?B) (phys + ?B) e (attr AND ATTR_MASK)"
    proof (rule less.hyps[OF _ r(4,5)])
      show "unat (sz - ?B) < unat sz" unfolding us using r(9) B0 by linarith
      show "unat (addr + ?B) + unat (sz - ?B) = e" unfolding ua us using r(9) less.prems(3) by linarith
      show "e \<le> 2 ^ 48" by (rule less.prems(4))
      show "4096 dvd unat (addr + ?B)" unfolding ua using less.prems(5) B4 by (rule dvd_add)
      show "4096 dvd unat (sz - ?B)" unfolding us using less.prems(6) B4 by (rule dvd_diff_nat)
      show "unat (sz - ?B) < 2 ^ 39" unfolding us using less.prems(7) by linarith
      show "unat (phys + ?B) mod 2 ^ 30 = unat (addr + ?B) mod 2 ^ 30"
        unfolding ua up using less.prems(8) by (rule mod_add_cong) simp
      show "unat (phys + ?B) + unat (sz - ?B) \<le> 2 ^ 48" unfolding up us using r(9) less.prems(9) by linarith
      show "\<forall>b. unat (addr + ?B) \<le> b \<and> b < e \<longrightarrow> leaf u (vidx b) = None" unfolding ua using r(11) by blast
      show "m + need u (unat (addr + ?B)) e \<le> 20" unfolding ua using r(6) less.prems(11) by linarith
    qed
    then obtain t m' where t: "map_region (addr + ?B, phys + ?B, sz - ?B, attr AND ATTR_MASK) u = Some t" "tables_ok m' t"
      "unat (free_idx t) = m'" "m' \<le> m + need u (unat addr + blk_span L) e" "outside_kept u t" "page_off t = page_off u"
      "region_maps u t (addr + ?B) (phys + ?B) e (attr AND ATTR_MASK)" unfolding ua by blast
    have "region_maps s t addr phys e attr"
      by (rule region_maps_join[OF r(12) t(7) ua]) (use r(9) less.prems(3) in linarith)+
    moreover have "m' \<le> n + need s (unat addr) e" using t(4) r(6) by linarith
    moreover have "outside_kept s t" by (rule outside_trans[OF r(7) t(5)])
    ultimately show ?thesis using step t(1-3,6) r(8) by auto
  qed
qed

end
