(* ===== verification/RT_Mmu_Props.thy ===== *)
theory RT_Mmu_Props
  imports RT_Mmu_Map
begin

text \<open>
  What a caller of the mapping functions gets: the translation of every address after \<open>armv8_map\<close>, the mapping
  the board sets up, and the calls that do not return, lose mappings or map something else.
\<close>

section \<open>Fresh tables\<close>

text \<open>The mapping at boot, \<open>rt_hw_board_init\<close> of \<open>src/driver/board.c\<close>.\<close>

definition board_mmu :: "mmu_sys \<Rightarrow> mmu_sys option" where
  "board_mmu s =
     do { s1 \<leftarrow> armv8_map 0x00000000 0x00000000 0xFF000000 MEM_ATTR_MEMORY (mmu_init s);
          armv8_map 0xFF000000 0xFF000000 0x00FF0000 MEM_ATTR_IO s1 }"

lemma fresh_tables:
  assumes "pool_ok s" "\<And>x. x < 512 \<Longrightarrow> entry s 0 x = 0"
  shows "tables_ok 1 s" "translate s va = None"
proof -
  have t: "tbl_at s ix l = (if l = 0 then Some 0 else None)" if "ix \<in> ixs" for ix l
  proof (cases l)
    case (Suc k)
    have "ix 0 < 512" using that by (simp add: ixs_def)
    then have "tbl_at s ix 1 = None" using assms(2) by simp
    then show ?thesis using tbl_none[of s ix 1 l] Suc by simp
  qed simp
  show ok: "tables_ok 1 s"
    unfolding tables_ok_def
  proof (intro conjI ballI allI impI)
    fix ix l i assume a: "ix \<in> ixs" "l < (3 :: nat)" "tbl_at s ix l = Some i \<and> entry s i (ix l) AND 3 = 3"
    have "l = 0" by (rule ccontr) (use t[OF a(1), of l] a(3) in simp)
    then have "i = 0" "ix 0 < 512" "l = 0" using a(1,3) by (simp_all add: ixs_def)
    then show "\<exists>j>0. j < 1 \<and> entry s i (ix l) = page s j OR 3" using a(3) assms(2)[of "ix 0"] by simp
  next
    fix ix jx l m i assume a: "ix \<in> ixs" "jx \<in> ixs" "tbl_at s ix l = Some i \<and> tbl_at s jx m = Some i"
    have "l = 0" by (rule ccontr) (use t[OF a(1), of l] a(3) in simp)
    moreover have "m = 0" by (rule ccontr) (use t[OF a(2), of m] a(3) in simp)
    ultimately show "l = m" "\<And>k. k < l \<Longrightarrow> ix k = jx k" by simp_all
  qed (use assms(1) in simp_all)
  have "entry s 0 (vidx (unat va) 0) = 0" by (rule assms(2)) (simp add: vidx_def)
  then have "leaf s (vidx (unat va)) = None" using leaf_stop[of s "vidx (unat va)" 0 0] by (simp add: leaf_of_def)
  then show "translate s va = None" unfolding translate_leaf[OF ok] by (simp add: target_def)
qed

lemma init_tables:
  assumes "pool_ok s"
  shows "tables_ok 1 (mmu_init s)" "translate (mmu_init s) va = None" "free_idx (mmu_init s) = free_idx s"
    "outside_kept s (mmu_init s)"
proof -
  have m: "main_tbl (mmu_init s) = main_tbl s" by (simp add: mmu_init_def mmu_memset_def)
  have p: "pool_ok (mmu_init s)" "slot (mmu_init s) = slot s" using pool_cong[OF m] assms by simp_all
  have e: "entry (mmu_init s) 0 x = 0" if "x < 512" for x
    using slot_in_page[OF assms, of 0 0 x] that unfolding entry_def p(2) by (simp add: mmu_init_def mmu_memset_def)
  show "tables_ok 1 (mmu_init s)" "translate (mmu_init s) va = None" using fresh_tables[OF p(1) e] by simp_all
  show "free_idx (mmu_init s) = free_idx s" by (simp add: mmu_init_def mmu_memset_def)
  show "outside_kept s (mmu_init s)" using page_inside[of 0 _ s] by (auto simp: outside_kept_def mmu_init_def mmu_memset_def)
qed

definition demo_mmu :: mmu_sys where
  "demo_mmu = \<lparr>ptes = (\<lambda>_. 7), main_tbl = 0x80000, free_idx = 1, page_off = 0\<rparr>"

lemma demo_pool: "pool_ok demo_mmu" "unat (free_idx (mmu_init demo_mmu)) = 1"
proof -
  show p: "pool_ok demo_mmu" by (simp add: pool_ok_def demo_mmu_def)
  show "unat (free_idx (mmu_init demo_mmu)) = 1" unfolding init_tables(3)[OF p] by (simp add: demo_mmu_def)
qed

lemma unmapped_leaf:
  assumes "tables_ok n s" "\<And>va. a \<le> unat va \<Longrightarrow> unat va < e \<Longrightarrow> translate s va = None" "e \<le> 2 ^ 48" "a \<le> b" "b < e"
  shows "leaf s (vidx b) = None"
proof -
  have "b < 2 ^ 48" using assms(3,5) by linarith
  then have "unat (of_nat b :: u64) = b" by (intro unat_of_nat_small) simp
  then have "translate s (of_nat b) = None" "\<not> (of_nat b :: u64) \<ge> 0x1000000000000"
    using assms(2)[of "of_nat b"] assms(4,5) \<open>b < 2 ^ 48\<close> by (simp_all add: word_le_nat_alt)
  then show ?thesis using translate_leaf[OF assms(1), of "of_nat b"] \<open>unat _ = b\<close>
    by (auto simp: target_def split: option.splits prod.splits)
qed

section \<open>Mapping a region\<close>

text \<open>
  C5. armv8_map of a page-aligned region that was not mapped returns, and afterwards every address of the region
  translates to the physical address at the same offset with the attributes asked for, every other address as
  before. It takes at most six table pages and writes nothing outside the pool of tables. The physical region
  must lie at the same offset within a GB as the virtual one.
\<close>

theorem armv8_map_correct:
  assumes "tables_ok n s" "unat (free_idx s) = n" "n + 6 \<le> 20"
    "4096 dvd unat va" "4096 dvd unat sz" "unat sz < 2 ^ 39" "unat va + unat sz \<le> 2 ^ 48"
    "unat pa mod 2 ^ 30 = unat va mod 2 ^ 30" "unat pa + unat sz \<le> 2 ^ 48"
    "\<And>a. unat va \<le> unat a \<Longrightarrow> unat a < unat va + unat sz \<Longrightarrow> translate s a = None"
  shows "\<exists>t m. armv8_map va pa sz attr s = Some t \<and> tables_ok m t \<and> unat (free_idx t) = m \<and> m \<le> n + 6 \<and>
    outside_kept s t \<and>
    (\<forall>a. translate t a = (if unat va \<le> unat a \<and> unat a < unat va + unat sz then Some (pa + (a - va), attr AND ATTR_MASK)
                          else translate s a))"
proof -
  have "\<forall>b. unat va \<le> b \<and> b < unat va + unat sz \<longrightarrow> leaf s (vidx b) = None"
    using unmapped_leaf[OF assms(1,10,7)] by blast
  moreover have "n + need s (unat va) (unat va + unat sz) \<le> 20" using need_le[of s] assms(3) by (meson add_le_cancel_left le_trans)
  ultimately obtain t m where "map_region (va, pa, sz, attr) s = Some t" "tables_ok m t" "unat (free_idx t) = m"
    "m \<le> n + need s (unat va) (unat va + unat sz)" "outside_kept s t" "region_maps s t va pa (unat va + unat sz) attr"
    using map_region_spec[OF assms(1,2) refl assms(7,4-6,8,9)] by blast
  moreover have "n + need s (unat va) (unat va + unat sz) \<le> n + 6" using need_le[of s] by simp
  ultimately show ?thesis unfolding armv8_map_def region_maps_def by (meson le_trans)
qed

lemma armv8_map_correct_witness:
  "\<exists>t. armv8_map 0x40001000 0x1000 0x201000 MEM_ATTR_IO (mmu_init demo_mmu) = Some t \<and> translate t 0x40001234 = Some (0x1234, 0x608)"
proof -
  note i = init_tables[OF demo_pool(1)]
  from armv8_map_correct[OF i(1) demo_pool(2), of "0x40001000" "0x201000" "0x1000" MEM_ATTR_IO]
  obtain t where "armv8_map 0x40001000 0x1000 0x201000 MEM_ATTR_IO (mmu_init demo_mmu) = Some t"
    "\<forall>a. translate t a = (if unat (0x40001000 :: u64) \<le> unat a \<and> unat a < unat (0x40001000 :: u64) + unat (0x201000 :: u64)
      then Some (0x1000 + (a - 0x40001000), MEM_ATTR_IO AND ATTR_MASK) else translate (mmu_init demo_mmu) a)"
    using i(2) by auto
  then show ?thesis by (intro exI[of _ t]) simp
qed

text \<open>
  C6. The mapping of the board: from a pool of which only the root page is taken, mmu_init and the two calls of
  armv8_map return and map the first 0xFF000000 bytes one to one as normal memory, the registers up to 0xFFFF0000
  one to one as device memory, and nothing else; no word outside the pool changes and at most 13 pages are used.
\<close>

theorem board_mmu_identity:
  assumes "pool_ok s" "free_idx s = 1"
  shows "\<exists>t. board_mmu s = Some t \<and> outside_kept s t \<and> unat (free_idx t) \<le> 13 \<and>
    (\<forall>va. translate t va = (if va < 0xFF000000 then Some (va, MEM_ATTR_MEMORY)
                            else if va < 0xFFFF0000 then Some (va, MEM_ATTR_IO) else None))"
proof -
  note i = init_tables[OF assms(1)]
  have f: "unat (free_idx (mmu_init s)) = 1" using i(3) assms(2) by simp
  obtain t m where t: "armv8_map 0 0 0xFF000000 MEM_ATTR_MEMORY (mmu_init s) = Some t" "tables_ok m t" "unat (free_idx t) = m"
    "m \<le> 7" "outside_kept (mmu_init s) t"
    "\<forall>a. translate t a = (if unat (0 :: u64) \<le> unat a \<and> unat a < unat (0 :: u64) + unat (0xFF000000 :: u64)
        then Some (0 + (a - 0), MEM_ATTR_MEMORY AND ATTR_MASK) else translate (mmu_init s) a)"
    using armv8_map_correct[OF i(1) f, of 0 "0xFF000000" 0 MEM_ATTR_MEMORY] i(2) by auto
  have lo: "translate t a = (if unat a < 0xFF000000 then Some (a, MEM_ATTR_MEMORY) else None)" for a
    using t(6) i(2)[of a] by simp
  have "m + 6 \<le> 20" using t(4) by simp
  note M = armv8_map_correct[OF t(2,3) this, of "0xFF000000" "0x00FF0000" "0xFF000000" MEM_ATTR_IO]
  obtain u k where u: "armv8_map 0xFF000000 0xFF000000 0x00FF0000 MEM_ATTR_IO t = Some u" "unat (free_idx u) = k"
    "k \<le> m + 6" "outside_kept t u"
    "\<forall>a. translate u a = (if unat (0xFF000000 :: u64) \<le> unat a \<and> unat a < unat (0xFF000000 :: u64) + unat (0x00FF0000 :: u64)
        then Some (0xFF000000 + (a - 0xFF000000), MEM_ATTR_IO AND ATTR_MASK) else translate t a)"
    using M lo by auto
  have "translate u va = (if va < 0xFF000000 then Some (va, MEM_ATTR_MEMORY)
      else if va < 0xFFFF0000 then Some (va, MEM_ATTR_IO) else None)" for va
    using u(5) lo[of va] by (auto simp: word_less_nat_alt)
  moreover have "board_mmu s = Some u" unfolding board_mmu_def t(1) using u(1) by simp
  moreover have "outside_kept s u" by (rule outside_trans[OF i(4) outside_trans[OF t(5) u(4)]])
  ultimately show ?thesis using u(2,3) t(4) by auto
qed

lemma board_mmu_identity_witness: "\<exists>t. board_mmu demo_mmu = Some t \<and> translate t 0xFF160004 = Some (0xFF160004, 0x608)"
proof -
  have "free_idx demo_mmu = 1" by (simp add: demo_mmu_def)
  from board_mmu_identity[OF demo_pool(1) this] show ?thesis by auto
qed

section \<open>Regions that are not made of pages\<close>

lemma map_levels_size:
  "\<exists>l. map_levels ls tab (addr, phys, sz, attr) s =
     ((addr + 2 ^ level2shift l, phys + 2 ^ level2shift l, sz - 2 ^ level2shift l, attr AND ATTR_MASK),
      snd (map_levels ls tab (addr, phys, sz, attr) s)) \<and> fits (unat addr) (unat sz) l \<or>
     fst (map_levels ls tab (addr, phys, sz, attr) s) = (addr, phys, sz, attr)"
proof (induction ls arbitrary: tab s)
  case (Cons l ls)
  show ?case
  proof (cases "fits (unat addr) (unat sz) l")
    case True
    have p: "(push_bit (level2shift l) 1 :: u64) = 2 ^ level2shift l" by (simp add: push_bit_eq_mult)
    show ?thesis using True[folded fits_word] True by (intro exI[of _ l]) (simp add: Let_def p)
  next
    case False
    obtain tab' s1 where g: "get_level_table (tab + 8 * (drop_bit (level2shift l) addr mod 512)) s = (tab', s1)" by fastforce
    have "map_levels (l # ls) tab (addr, phys, sz, attr) s = map_levels ls tab' (addr, phys, sz, attr) s1"
      unfolding map_levels.simps Let_def using False[folded fits_word] g by (simp only: if_False split_conv)
    then show ?thesis using Cons.IH[of tab' s1] by simp
  qed
qed simp

lemma map_region_aligned:
  "map_region v s = Some t \<Longrightarrow> 4096 dvd unat (fst (snd (snd v))) \<and> (fst (snd (snd v)) = 0 \<or> 4096 dvd unat (fst v))"
proof (rule map_region.raw_induct[where P = "\<lambda>v s r. 4096 dvd unat (fst (snd (snd v))) \<and> (fst (snd (snd v)) = 0 \<or> 4096 dvd unat (fst v))"])
  fix rec and v :: "u64 \<times> u64 \<times> u64 \<times> u64" and s t
  assume IH: "\<And>v s r. rec v s = Some r \<Longrightarrow> 4096 dvd unat (fst (snd (snd v))) \<and> (fst (snd (snd v)) = 0 \<or> 4096 dvd unat (fst v))"
    and e: "(if fst (snd (snd v)) \<noteq> 0 then let (v', s') = map_levels [0, 1, 2, 3] (main_tbl s) v s in rec v' s' else Some s) = Some t"
  obtain addr phys sz attr where v: "v = (addr, phys, sz, attr)" by (cases v)
  show "4096 dvd unat (fst (snd (snd v))) \<and> (fst (snd (snd v)) = 0 \<or> 4096 dvd unat (fst v))"
  proof (cases "sz = 0")
    case False
    let ?m = "map_levels [0, 1, 2, 3] (main_tbl s) (addr, phys, sz, attr) s"
    have r: "rec (fst ?m) (snd ?m) = Some t" using e False by (simp add: v case_prod_beta del: map_levels.simps)
    note ih = IH[OF r]
    obtain l where "?m = ((addr + 2 ^ level2shift l, phys + 2 ^ level2shift l, sz - 2 ^ level2shift l, attr AND ATTR_MASK), snd ?m) \<and>
        fits (unat addr) (unat sz) l \<or> fst ?m = (addr, phys, sz, attr)"
      using map_levels_size[of "[0, 1, 2, 3]" "main_tbl s" addr phys sz attr s] by blast
    then show ?thesis
    proof
      assume "fst ?m = (addr, phys, sz, attr)"
      then show ?thesis using ih by (simp add: v)
    next
      assume f: "?m = ((addr + 2 ^ level2shift l, phys + 2 ^ level2shift l, sz - 2 ^ level2shift l, attr AND ATTR_MASK), snd ?m) \<and>
        fits (unat addr) (unat sz) l"
      have b: "blk_span l \<le> unat sz" "blk_span l dvd unat addr" using f by (simp_all add: fits_def)
      have "(2 ^ 12 :: nat) dvd blk_span l" by (rule le_imp_power_dvd) (simp add: level2shift_def)
      then have d: "4096 dvd blk_span l" by simp
      have "fst (snd (snd (fst ?m))) = sz - 2 ^ level2shift l" using f by (metis fst_conv snd_conv)
      then have "4096 dvd unat (sz - 2 ^ level2shift l)" using ih by simp
      moreover have "unat (sz - 2 ^ level2shift l) = unat sz - blk_span l" using b(1) by (simp add: unat_sub word_le_nat_alt pow_blk)
      ultimately have "4096 dvd unat sz - blk_span l + blk_span l" using d by (simp only: dvd_add)
      then show ?thesis using b d by (auto simp: v intro: dvd_trans)
    qed
  qed (simp add: v)
qed

text \<open>
  armv8_map of a size that is not a multiple of the page size, or of a non-empty region that does not start on
  a page, never returns: the loop only ends when the size left is 0, and no block fits the rest.
\<close>

theorem armv8_map_unaligned_hangs:
  assumes "\<not> 4096 dvd unat sz \<or> \<not> 4096 dvd unat va \<and> sz \<noteq> 0"
  shows "armv8_map va pa sz attr s = None"
proof (cases "armv8_map va pa sz attr s")
  case (Some t)
  then show ?thesis using map_region_aligned[of "(va, pa, sz, attr)" s t] assms by (auto simp: armv8_map_def)
qed

lemma armv8_map_unaligned_hangs_witness: "armv8_map 0x1000 0x1000 0x1800 MEM_ATTR_IO demo_mmu = None"
  by (rule armv8_map_unaligned_hangs) simp

section \<open>Regions that go elsewhere, and mappings that are lost\<close>

lemma fits_2M:
  assumes "2 ^ 21 dvd a"
  shows "fits a (2 ^ 21) 2" "k < 2 \<Longrightarrow> \<not> fits a (2 ^ 21) k"
proof -
  show "fits a (2 ^ 21) 2" using assms by (simp add: fits_def level2shift_def)
  show "\<not> fits a (2 ^ 21) k" if "k < 2"
    using that by (auto simp: fits_def level2shift_def less_2_cases_iff)
qed

lemma unat_2M: "unat (0x200000 :: u64) = 2 ^ 21"
  by simp

text \<open>A region of 2 MB on a boundary is one block.\<close>

lemma map_block_2M:
  assumes "tables_ok n s" "unat (free_idx s) = n" "n + 6 \<le> 20"
    "2 ^ 21 dvd unat va" "unat va + 2 ^ 21 \<le> 2 ^ 48" "4096 dvd unat pa"
    "\<And>a. unat va \<le> unat a \<Longrightarrow> unat a < unat va + 2 ^ 21 \<Longrightarrow> translate s a = None"
  obtains u m where "armv8_map va pa 0x200000 attr s = Some u" "tables_ok m u" "unat (free_idx u) = m" "m \<le> n + 6"
    "leaf u (vidx (unat va)) = Some (desc pa attr 2, 2)"
proof -
  let ?ix = "vidx (unat va)" and ?d = "desc pa attr 2"
  have va48: "unat va < 2 ^ 48" using assms(5) by simp
  have lf: "leaf s ?ix = None" using unmapped_leaf[OF assms(1,7,5), of "unat va"] by simp
  have nf: "\<forall>k<2. \<not> fits (unat va) (unat (0x200000 :: u64)) k" unfolding unat_2M using fits_2M(2)[OF assms(4)] by blast
  have f: "fits (unat va) (unat (0x200000 :: u64)) 2" unfolding unat_2M by (rule fits_2M(1)[OF assms(4)])
  have "tables_made s ?ix 0 2 \<le> need s (unat va) (unat va + 2 ^ 21)"
    by (rule tables_made_needed) (use va48 assms(5) fits_2M(2)[OF assms(4)] in simp_all)
  then have six: "tables_made s ?ix 0 2 \<le> 6" using need_le[of s] le_trans by blast
  then have r: "n + tables_made s ?ix 0 2 \<le> 20" using assms(3) by simp
  have "(4 :: nat) dvd 4096" by simp
  then have p4: "4 dvd unat pa" using assms(6) by (rule dvd_trans)
  obtain u where u: "map_levels [0..<4] (page s 0) (va, pa, 0x200000, attr) s =
      ((va + 2 ^ level2shift 2, pa + 2 ^ level2shift 2, 0x200000 - 2 ^ level2shift 2, attr AND ATTR_MASK), u)"
    "tables_ok (n + tables_made s ?ix 0 2) u" "unat (free_idx u) = n + tables_made s ?ix 0 2"
    "\<forall>jx\<in>ixs. leaf u jx = (if agree (Suc 2) jx ?ix then Some (?d, 2) else leaf s jx)"
    using round_top[OF assms(1,2) _ _ f nf lf r p4, of attr] by auto
  have z: "(0x200000 - 2 ^ level2shift 2 :: u64) = 0" by (simp add: level2shift_def)
  have l4: "[0..<4] = [0, 1, 2, 3 :: nat]" by (simp add: upt_rec numeral_2_eq_2 numeral_3_eq_3)
  have "map_region (va, pa, 0x200000, attr) s = Some u"
    unfolding map_region.simps[of "(va, pa, 0x200000, attr)"] fst_conv snd_conv using u(1)[unfolded l4 z page0]
    by (simp add: map_region.simps del: map_levels.simps)
  then have "armv8_map va pa 0x200000 attr s = Some u" by (simp add: armv8_map_def)
  then show thesis using that u six by simp
qed

text \<open>
  armv8_map checks the alignment of the virtual address only: a block of 2 MB mapped to a physical address that
  is not on a 2 MB boundary is mapped to the boundary below it, not to the address asked for.
\<close>

theorem armv8_map_misplaces:
  assumes "tables_ok n s" "unat (free_idx s) = n" "n + 6 \<le> 20"
    "2 ^ 21 dvd unat va" "unat va + 2 ^ 21 \<le> 2 ^ 48" "4096 dvd unat pa" "unat pa < 2 ^ 48"
    "\<And>a. unat va \<le> unat a \<Longrightarrow> unat a < unat va + 2 ^ 21 \<Longrightarrow> translate s a = None"
  shows "\<exists>t. armv8_map va pa 0x200000 attr s = Some t \<and> translate t va = Some (pa AND NOT 0x1fffff, attr AND ATTR_MASK)"
proof -
  let ?d = "desc pa attr 2"
  have va48: "unat va < 2 ^ 48" using assms(5) by simp
  obtain u m where u: "armv8_map va pa 0x200000 attr s = Some u" "tables_ok m u" "leaf u (vidx (unat va)) = Some (?d, 2)"
    using map_block_2M[OF assms(1-6,8)] by blast
  have "translate u va = target (Some (?d, 2)) va" unfolding translate_leaf[OF u(2)] u(3) ..
  moreover have "va AND mask 21 = 0"
  proof -
    have "take_bit 21 (unat va) = 0" using assms(4) by (simp add: take_bit_eq_0_iff)
    then have "take_bit 21 va = 0" by (simp add: word_unat_eq_iff unsigned_take_bit_eq)
    then show ?thesis by (simp add: take_bit_eq_mask)
  qed
  moreover have "(?d AND TABLE_ADDR_MASK) AND NOT (mask 21) = pa AND NOT (mask 21)"
  proof (rule bit_word_eqI)
    fix j assume j: "j < LENGTH(64)"
    have "\<not> bit (1 :: u64) j" if "21 \<le> j" using that by (auto simp: bit_simps)
    then show "bit ((?d AND TABLE_ADDR_MASK) AND NOT (mask 21)) j = bit (pa AND NOT (mask 21)) j"
      unfolding desc_def mask_ranges using j high_bits[OF assms(7), of j]
      by (cases "21 \<le> j"; cases "j < 48") (simp_all add: bit_simps)
  qed
  moreover have "?d AND ATTR_MASK = attr AND ATTR_MASK"
  proof (rule bit_word_eqI)
    fix j assume "j < LENGTH(64)"
    have "\<not> bit pa j" if "j < 12" by (rule low_bits[OF _ that]) (use assms(6) in simp)
    moreover have "\<not> bit pa j" if "52 \<le> j" by (rule high_bits[OF assms(7)]) (use that in simp)
    moreover have "\<not> bit (1 :: u64) j" if "2 \<le> j" using that by (auto simp: bit_simps)
    ultimately show "bit (?d AND ATTR_MASK) j = bit (attr AND ATTR_MASK) j"
      unfolding desc_def mask_ranges by (auto simp: bit_simps simp del: bit_numeral_iff bit_1_iff)
  qed
  moreover have "(0x1fffff :: u64) = mask 21" by (simp add: mask_eq_exp_minus_1)
  moreover have "\<not> va \<ge> 0x1000000000000" using va48 by (simp add: word_le_nat_alt)
  ultimately have "translate u va = Some (pa AND NOT 0x1fffff, attr AND ATTR_MASK)" by (simp add: target_def level2shift_def)
  then show ?thesis using u(1) by blast
qed

lemma armv8_map_misplaces_witness:
  "\<exists>t. armv8_map 0x40000000 0x1000 0x200000 MEM_ATTR_IO (mmu_init demo_mmu) = Some t \<and> translate t 0x40000000 = Some (0, 0x608)"
proof -
  note i = init_tables[OF demo_pool(1)]
  show ?thesis using armv8_map_misplaces[OF i(1) demo_pool(2), of "0x40000000" "0x1000" MEM_ATTR_IO] i(2) by simp
qed

lemma leaf_level2:
  assumes "leaf s ix = Some (e, 2)"
  obtains j i where "tbl_at s ix 1 = Some j" "tbl_at s ix 2 = Some i" "entry s i (ix 2) = e" "e AND 3 = 1"
proof -
  have "tbl_at s ix 3 = None" using assms by (auto simp: leaf_def look_def leaf_of_def split: option.splits if_splits simp del: tbl_at.simps)
  moreover have "tbl_at s ix 2 \<noteq> None"
    using assms calculation by (auto simp: leaf_def look_def leaf_of_def split: option.splits if_splits simp del: tbl_at.simps)
  then obtain i where i: "tbl_at s ix 2 = Some i" by blast
  moreover obtain j where "tbl_at s ix 1 = Some j" using tbl_none[of s ix 1 2] i by (cases "tbl_at s ix 1") auto
  ultimately show thesis using that assms
    by (auto simp: leaf_def look_def leaf_of_def split: if_splits simp del: tbl_at.simps)
qed



end
