(* ===== verification/RT_Mmu_2M.thy ===== *)
theory RT_Mmu_2M
  imports RT_Mmu_Props
begin

text \<open>
  \<open>armv8_map_2M\<close>, which maps blocks of 2 MB and takes its table pages with a counter of its own.
\<close>

lemma bit0_type: "e AND 3 \<noteq> 3 \<Longrightarrow> e AND 3 \<noteq> 1 \<Longrightarrow> (e :: u64) AND 1 = 0"
proof (rule ccontr)
  assume a: "e AND 3 \<noteq> 3" "e AND 3 \<noteq> 1" "e AND 1 \<noteq> 0"
  have "bit e 0"
  proof (rule ccontr)
    assume "\<not> bit e 0"
    then have "e AND 1 = 0" by (intro bit_word_eqI) (auto simp: bit_simps intro!: gr0I)
    then show False using a(3) by blast
  qed
  then have "e AND 3 = (if bit e 1 then 3 else 1)"
    unfolding mask_ranges(4) by (intro bit_word_eqI) (auto simp: bit_simps less_2_cases_iff split: if_splits)
  then show False using a(1,2) by (auto split: if_splits)
qed

lemma memset_page:
  assumes "pool_ok s" "n < 20"
  shows "outside_kept s (mmu_memset (page s n) s)"
    "i < 20 \<Longrightarrow> x < 512 \<Longrightarrow> entry (mmu_memset (page s n) s) i x = (if i = n then 0 else entry s i x)"
proof -
  show "outside_kept s (mmu_memset (page s n) s)" using page_inside[OF assms(2)] by (auto simp: outside_kept_def mmu_memset_def)
  have "slot (mmu_memset (page s n) s) = slot s" using pool_cong[of "mmu_memset (page s n) s" s] by (simp add: mmu_memset_def)
  then show "entry (mmu_memset (page s n) s) i x = (if i = n then 0 else entry s i x)" if "i < 20" "x < 512"
    using slot_in_page[OF assms(1) that(1) assms(2) that(2)] by (simp add: entry_def mmu_memset_def)
qed

text \<open>The counter of \<open>get_free_page\<close> when it alone has handed out the \<open>n\<close> pages in use.\<close>

definition pages_2M :: "nat \<Rightarrow> mmu_sys \<Rightarrow> bool" where
  "pages_2M n s \<longleftrightarrow> page_off s = of_nat (512 * (n - 1))"

lemma free_page:
  assumes "pages_2M n s" "0 < n" "pool_ok s" "n < 20"
  shows "get_free_page s = (page s n, s\<lparr>page_off := of_nat (512 * n)\<rparr>)" "page s n \<noteq> 0"
proof -
  have "of_nat (512 * (n - 1)) + 512 = (of_nat (512 * (n - 1) + 512) :: u64)" by simp
  also have "512 * (n - 1) + 512 = 512 * n" using assms(2) by (cases n) simp_all
  finally have o: "page_off s + 512 = of_nat (512 * n)" using assms(1) by (simp add: pages_2M_def)
  have "8 * of_nat (512 * n) = (of_nat (8 * (512 * n)) :: u64)" by simp
  then have "main_tbl s + 8 * of_nat (512 * n) = page s n" by (simp add: page_def)
  then show "get_free_page s = (page s n, s\<lparr>page_off := of_nat (512 * n)\<rparr>)" unfolding get_free_page_def Let_def o by simp
  have "unat (page s n) \<noteq> 0" using unat_page[OF assms(3,4)] assms(2) by simp
  then show "page s n \<noteq> 0" by auto
qed

text \<open>One level down.\<close>

lemma down_2M:
  assumes ok: "tables_ok n s" and pg: "pages_2M n s" and l: "l < 3" "tbl_at s (vidx (unat va)) l = Some i"
    and nb: "entry s i (vidx (unat va) l) AND 3 \<noteq> 1" and room: "n + missing s (vidx (unat va)) (Suc l) \<le> 20"
  obtains t j where
    "\<And>k. descend_2M (Suc k) (page s i) (level2shift l) va s = descend_2M k (page t j) (level2shift l - 9) va t"
    "tbl_at t (vidx (unat va)) (Suc l) = Some j" "tables_ok (n + missing s (vidx (unat va)) (Suc l)) t"
    "pages_2M (n + missing s (vidx (unat va)) (Suc l)) t" "outside_kept s t" "free_idx t = free_idx s"
    "\<And>jx. jx \<in> ixs \<Longrightarrow> leaf t jx = leaf s jx"
    "\<And>k. k \<le> 3 \<Longrightarrow> tbl_at t (vidx (unat va)) k = (if k = Suc l then Some j else tbl_at s (vidx (unat va)) k)"
    "\<And>k m i'. k \<le> 3 \<Longrightarrow> k \<noteq> Suc l \<Longrightarrow> tbl_at s (vidx (unat va)) k = Some i' \<Longrightarrow> k \<noteq> l \<Longrightarrow>
       entry t i' (vidx (unat va) k) = entry s i' (vidx (unat va) k)"
    "tbl_at s (vidx (unat va)) (Suc l) = None \<Longrightarrow> look t (vidx (unat va)) (Suc l) = Some 0"
    "tbl_at s (vidx (unat va)) (Suc l) \<noteq> None \<Longrightarrow> t = s"
proof -
  let ?ix = "vidx (unat va)"
  have pte: "page s i + 8 * (drop_bit (level2shift l) va AND MMU_LEVEL_MASK) = slot s i (?ix l)" by (rule slot_vidx)
  have l3: "l \<le> 3" using l(1) by simp
  show thesis
  proof (cases "entry s i (?ix l) AND 3 = 3")
    case True
    then obtain j where j: "tbl_at s ?ix (Suc l) = Some j" using l(2) by simp
    note th = table_there[OF ok l(1) vidx_ixs l(2) j]
    note b = page_bits[OF tables_okD(1)[OF ok] th(2)]
    have m: "missing s ?ix (Suc l) = 0" using j by (simp add: missing_def)
    have d: "descend_2M (Suc k) (page s i) (level2shift l) va s = descend_2M k (page s j) (level2shift l - 9) va s" for k
      unfolding descend_2M.simps Let_def pte using b(2,4,5) th(1) by (simp add: entry_def)
    show thesis by (rule that[OF d j]) (use ok pg m j in simp_all)
  next
    case False
    then have none: "tbl_at s ?ix (Suc l) = None" using l(2) by simp
    then have m: "missing s ?ix (Suc l) = 1" by (simp add: missing_def)
    have n20: "n < 20" using room m by simp
    define off where "off = (of_nat (512 * n) :: u64)"
    note fp = free_page[OF pg tables_okD(2,1)[OF ok] n20, folded off_def]
    let ?s1 = "s\<lparr>page_off := off\<rparr>"
    let ?u = "mmu_memset (page s n) ?s1"
    let ?t = "put (slot s i (?ix l)) (page s n OR 3) ?u"
    have pc: "pool_ok ?s1" "page ?s1 = page s" "slot ?s1 = slot s" using pool_cong[of ?s1 s] tables_okD(1)[OF ok] by simp_all
    have es1: "entry ?s1 = entry s" using pc(3) by (simp add: entry_def fun_eq_iff)
    note ms = memset_page[OF pc(1) n20, unfolded pc(2) es1]
    have ok1: "outside_kept s ?u" using ms(1) by (simp add: outside_kept_def)
    have ue: "\<forall>k<20. \<forall>x<512. entry ?u k x = (if k = n then 0 else entry s k x)" using ms(2) by blast
    note lk = link_new[OF ok n20 l(1) vidx_ixs l(2) False ok1 ue refl]
    have b0: "ptes s (slot s i (?ix l)) AND 1 = 0" using bit0_type[OF False nb] by (simp add: entry_def)
    note b = page_bits[OF tables_okD(1)[OF ok] n20]
    have pt: "page ?t = page s" using lk(3) by (simp add: outside_kept_def page_def fun_eq_iff)
    have d: "descend_2M (Suc k) (page s i) (level2shift l) va s = descend_2M k (page ?t n) (level2shift l - 9) va ?t" for k
    proof -
      have v: "ptes ?t (slot s i (?ix l)) = page s n OR 3" by (simp add: put_def)
      show ?thesis unfolding descend_2M.simps Let_def pte pt using b0 b(2,4) fp by (simp add: v)
    qed
    have tn: "tbl_at ?t ?ix (Suc l) = Some n" using lk(1)[OF vidx_ixs, of "Suc l"] l(1) by simp
    have x: "?ix k < 512" for k by (simp add: vidx_def)
    have su: "slot ?u = slot s" using pool_cong[of ?u s] by (simp add: mmu_memset_def)
    have il: "i < 20" using tbl_lt[OF ok vidx_ixs l3 l(2)] tables_okD(3)[OF ok] by simp
    have e: "entry ?t k y = (if k = i \<and> y = ?ix l then page s n OR 3 else if k = n then 0 else entry s k y)"
      if "k < 20" "y < 512" for k y
    proof -
      have "pool_ok ?u" using pool_cong[of ?u s] tables_okD(1)[OF ok] by (simp add: mmu_memset_def)
      from entry_put[OF this il x that] show ?thesis unfolding su using ue that by simp
    qed
    have "i \<noteq> n" using tbl_lt[OF ok vidx_ixs l3 l(2)] by simp
    have z: "look ?t ?ix (Suc l) = Some 0" using tn e[OF n20 x] \<open>i \<noteq> n\<close> by (simp add: look_def del: tbl_at.simps)
    show thesis
    proof (rule that[OF d tn])
      show "tables_ok (n + missing s ?ix (Suc l)) ?t" using lk(2) m by simp
      show "pages_2M (n + missing s ?ix (Suc l)) ?t" unfolding m by (simp add: pages_2M_def put_def mmu_memset_def off_def)
      show "outside_kept s ?t" by (rule lk(3))
      show "free_idx ?t = free_idx s" by (simp add: put_def mmu_memset_def)
      show "leaf ?t jx = leaf s jx" if "jx \<in> ixs" for jx
      proof -
        have "leaf s ?ix = None" using leaf_stop[OF l(2) l3] False nb l(1) by (simp add: leaf_of_def)
        then show ?thesis using lk(4)[OF that] leaf_agree[OF l(2) False l3, of jx] by simp
      qed
      show "tbl_at ?t ?ix k = (if k = Suc l then Some n else tbl_at s ?ix k)" if "k \<le> 3" for k
        using lk(1)[OF vidx_ixs that] by simp
      show "entry ?t i' (?ix k) = entry s i' (?ix k)" if "k \<le> 3" "k \<noteq> Suc l" "tbl_at s ?ix k = Some i'" "k \<noteq> l" for k i'
      proof -
        have i': "i' < n" by (rule tbl_lt[OF ok vidx_ixs that(1,3)])
        have "i' \<noteq> i" using tables_okD(5)[OF ok vidx_ixs vidx_ixs that(1) l3 that(3)] l(2) that(4) by blast
        then show ?thesis using e[of i' "?ix k"] i' n20 x by simp
      qed
    qed (use z none in simp_all)
  qed
qed

lemma region_maps_leaf:
  assumes "tables_ok n s" "tables_ok m t" "\<And>jx. jx \<in> ixs \<Longrightarrow> leaf t jx = leaf s jx"
  shows "translate t va = translate s va"
  unfolding translate_leaf[OF assms(1)] translate_leaf[OF assms(2)] assms(3)[OF vidx_ixs] ..

lemma aligned_2M: "(va :: u64) AND 0x1fffff = 0 \<longleftrightarrow> 2 ^ 21 dvd unat va"
proof -
  have "(0x1fffff :: u64) = mask 21" by (simp add: mask_eq_exp_minus_1)
  then have "va AND 0x1fffff = 0 \<longleftrightarrow> take_bit 21 va = 0" by (simp add: take_bit_eq_mask)
  also have "\<dots> \<longleftrightarrow> take_bit 21 (unat va) = 0" by (simp add: word_unat_eq_iff unsigned_take_bit_eq)
  finally show ?thesis by (simp add: take_bit_eq_0_iff)
qed

text \<open>One block: the tables of the levels 0 and 1 on the way are there or are made, then the entry is written.\<close>

lemma single_2M:
  assumes ok: "tables_ok n s" and pg: "pages_2M n s"
    and nb: "\<And>l i. l < 2 \<Longrightarrow> tbl_at s (vidx (unat va)) l = Some i \<Longrightarrow> entry s i (vidx (unat va) l) AND 3 \<noteq> 1"
    and room: "n + missing s (vidx (unat va)) 1 + missing s (vidx (unat va)) 2 \<le> 20"
    and al: "2 ^ 21 dvd unat va" "2 ^ 21 dvd unat pa" and b: "unat va + 2 ^ 21 \<le> 2 ^ 48" "unat pa < 2 ^ 48"
  obtains t where "map_single_page_2M (main_tbl s) va pa attr s = (0, t)"
    "tables_ok (n + missing s (vidx (unat va)) 1 + missing s (vidx (unat va)) 2) t"
    "pages_2M (n + missing s (vidx (unat va)) 1 + missing s (vidx (unat va)) 2) t"
    "outside_kept s t" "region_maps s t va pa (unat va + 2 ^ 21) attr" "tbl_at t (vidx (unat va)) 2 \<noteq> None"
proof -
  let ?ix = "vidx (unat va)"
  have t0: "tbl_at s ?ix 0 = Some 0" by simp
  have r1: "n + missing s ?ix (Suc 0) \<le> 20" using room by simp
  obtain s1 j1 where s1: "\<And>k. descend_2M (Suc k) (page s 0) (level2shift 0) va s = descend_2M k (page s1 j1) (level2shift 0 - 9) va s1"
    "tbl_at s1 ?ix (Suc 0) = Some j1" "tables_ok (n + missing s ?ix (Suc 0)) s1"
    "pages_2M (n + missing s ?ix (Suc 0)) s1" "outside_kept s s1" "\<And>jx. jx \<in> ixs \<Longrightarrow> leaf s1 jx = leaf s jx"
    "\<And>k. k \<le> 3 \<Longrightarrow> tbl_at s1 ?ix k = (if k = Suc 0 then Some j1 else tbl_at s ?ix k)"
    "tbl_at s ?ix (Suc 0) = None \<Longrightarrow> look s1 ?ix (Suc 0) = Some 0" "tbl_at s ?ix (Suc 0) \<noteq> None \<Longrightarrow> s1 = s"
    by (rule down_2M[OF ok pg _ t0 _ r1]) (simp, rule nb, simp, simp, rule that, assumption+)
  have nb1: "entry s1 j1 (?ix (Suc 0)) AND 3 \<noteq> 1"
  proof (cases "tbl_at s ?ix (Suc 0) = None")
    case True
    then have "entry s1 j1 (?ix (Suc 0)) = 0" using s1(8)[OF True] s1(2) by (simp add: look_def del: tbl_at.simps)
    then show ?thesis by simp
  next
    case False
    then have "s1 = s" by (rule s1(9))
    then show ?thesis using nb[of "Suc 0" j1] s1(2) by simp
  qed
  have m2: "missing s1 ?ix (Suc 1) = missing s ?ix 2" using s1(7)[of 2] by (simp add: missing_def numeral_2_eq_2 del: tbl_at.simps)
  have r2: "n + missing s ?ix (Suc 0) + missing s1 ?ix (Suc 1) \<le> 20" unfolding m2 using room by simp
  obtain s2 j2 where s2: "\<And>k. descend_2M (Suc k) (page s1 j1) (level2shift 1) va s1 = descend_2M k (page s2 j2) (level2shift 1 - 9) va s2"
    "tbl_at s2 ?ix (Suc 1) = Some j2" "tables_ok (n + missing s ?ix (Suc 0) + missing s1 ?ix (Suc 1)) s2"
    "pages_2M (n + missing s ?ix (Suc 0) + missing s1 ?ix (Suc 1)) s2" "outside_kept s1 s2"
    "\<And>jx. jx \<in> ixs \<Longrightarrow> leaf s2 jx = leaf s1 jx"
    by (rule down_2M[OF s1(3,4) _ _ _ r2, of j1]) (simp, use s1(2) in simp, use nb1 in simp, rule that, assumption+)
  have t2: "tbl_at s2 ?ix 2 = Some j2" using s2(2) by (simp only: Suc_1)
  have f: "fits (unat va) (unat (0x200000 :: u64)) 2" unfolding unat_2M by (rule fits_2M(1)[OF al(1)])
  have "(4 :: nat) dvd 2 ^ 21" by (rule dvdI[of _ _ "2 ^ 19"]) simp
  then have p4: "4 dvd unat pa" using al(2) by (rule dvd_trans)
  obtain u where u: "map_levels (2 # []) (page s2 j2) (va, pa, 0x200000, attr) s2 =
      ((va + 2 ^ level2shift 2, pa + 2 ^ level2shift 2, 0x200000 - 2 ^ level2shift 2, attr AND ATTR_MASK), u)"
    "tables_ok (n + missing s ?ix (Suc 0) + missing s1 ?ix (Suc 1)) u" "outside_kept s2 u" "page_off u = page_off s2"
    "\<And>jx. jx \<in> ixs \<Longrightarrow> leaf u jx = (if agree (Suc 2) jx ?ix then Some (desc pa attr 2, 2) else leaf s2 jx)"
    "\<And>jx k. jx \<in> ixs \<Longrightarrow> k \<le> 3 \<Longrightarrow> (tbl_at u jx k = None) = (2 < k \<and> agree (Suc 2) jx ?ix \<or> tbl_at s2 jx k = None)"
    by (rule round_here[OF s2(3) f _ _ t2 p4, of "[]" attr]) (simp, simp, rule that, assumption+)
  have uput: "u = put (slot s2 j2 (?ix 2)) (desc pa attr 2) s2" using u(1) unfolding map_here[OF f] by simp
  have "map_single_page_2M (main_tbl s) va pa attr s = (0, u)"
  proof -
    have e1: "descend_2M 2 (main_tbl s) 39 va s = descend_2M (Suc (Suc 0)) (page s 0) (level2shift 0) va s"
      by (simp add: level2shift_def numeral_2_eq_2)
    have e2: "level2shift 0 - 9 = level2shift 1" by (simp add: level2shift_def)
    have "descend_2M 2 (main_tbl s) 39 va s = (Inr (page s2 j2), s2)"
      unfolding e1 s1(1) e2 s2(1) by simp
    moreover have "page s2 j2 + 8 * (drop_bit 21 va AND MMU_LEVEL_MASK) = slot s2 j2 (?ix 2)"
      using slot_vidx(1)[of s2 j2 2 va] by (simp add: level2shift_def)
    ultimately show ?thesis
      unfolding map_single_page_2M_def using al[folded aligned_2M] by (simp add: uput desc_def)
  qed
  moreover have "tables_ok (n + missing s ?ix 1 + missing s ?ix 2) u" using u(2) unfolding m2 by simp
  moreover have "pages_2M (n + missing s ?ix 1 + missing s ?ix 2) u" using s2(4) u(4) unfolding m2 by (simp add: pages_2M_def)
  moreover have "outside_kept s u" using outside_trans[OF s1(5) outside_trans[OF s2(5) u(3)]] .
  moreover have "region_maps s u va pa (unat va + 2 ^ 21) attr"
  proof -
    have lf: "\<forall>jx\<in>ixs. leaf u jx = (if agree (Suc 2) jx ?ix then Some (desc pa attr 2, 2) else leaf s jx)"
    proof
      fix jx assume jx: "jx \<in> ixs"
      show "leaf u jx = (if agree (Suc 2) jx ?ix then Some (desc pa attr 2, 2) else leaf s jx)"
        unfolding u(5)[OF jx] s2(6)[OF jx] s1(6)[OF jx] ..
    qed
    have "blk_span 2 = 2 ^ 21" by (simp add: level2shift_def)
    then show ?thesis using block_maps[OF ok u(2) _ _ _ b(2) _ lf] al b(1) by simp
  qed
  moreover have "tbl_at u ?ix 2 \<noteq> None" using u(6)[OF vidx_ixs, of 2] t2 by simp
  ultimately show thesis using that by blast
qed

text \<open>Blocks of one GB share their tables.\<close>

lemma same_GB:
  assumes "unat va div 2 ^ 30 = unat vb div 2 ^ 30" "unat va < 2 ^ 48" "unat vb < 2 ^ 48" "k \<le> 2"
  shows "tbl_at s (vidx (unat vb)) k = tbl_at s (vidx (unat va)) k" "k < 2 \<Longrightarrow> vidx (unat vb) k = vidx (unat va) k"
proof -
  have a: "agree 2 (vidx (unat vb)) (vidx (unat va))"
    using agree_div[OF assms(2,3), of 1] assms(1) by (simp add: level2shift_def numeral_2_eq_2)
  then show "tbl_at s (vidx (unat vb)) k = tbl_at s (vidx (unat va)) k" using assms(4) by (intro tbl_at_cong) auto
  show "k < 2 \<Longrightarrow> vidx (unat vb) k = vidx (unat va) k" using a by blast
qed

lemma map_2M_loop_spec:
  assumes "tables_ok n s" "pages_2M n s" "2 ^ 21 dvd unat va" "2 ^ 21 dvd unat pa"
    "unat va + c * 2 ^ 21 \<le> 2 ^ 48" "unat pa + c * 2 ^ 21 \<le> 2 ^ 48" "unat va mod 2 ^ 30 + c * 2 ^ 21 \<le> 2 ^ 30"
    "n + missing s (vidx (unat va)) 1 + missing s (vidx (unat va)) 2 \<le> 20"
    "\<forall>l<2. \<forall>i. tbl_at s (vidx (unat va)) l = Some i \<longrightarrow> entry s i (vidx (unat va) l) AND 3 \<noteq> 1"
  shows "\<exists>t m. map_2M_loop c va pa attr s = (0, t) \<and> tables_ok m t \<and>
    m \<le> n + missing s (vidx (unat va)) 1 + missing s (vidx (unat va)) 2 \<and> pages_2M m t \<and> outside_kept s t \<and>
    region_maps s t va pa (unat va + c * 2 ^ 21) attr"
  using assms
proof (induction c arbitrary: va pa s n)
  case 0
  have "region_maps s s va pa (unat va + 0 * 2 ^ 21) attr" by (auto simp: region_maps_def)
  then show ?case using "0.prems"(1,2) by (intro exI[of _ s] exI[of _ n]) simp
next
  case (Suc c)
  let ?ix = "vidx (unat va)" and ?B = "0x200000 :: u64"
  have b: "unat va + 2 ^ 21 \<le> 2 ^ 48" "unat pa + 2 ^ 21 \<le> 2 ^ 48" using Suc.prems(5,6) by simp_all
  have nb: "entry s i (?ix l) AND 3 \<noteq> 1" if "l < 2" "tbl_at s ?ix l = Some i" for l i using Suc.prems(9) that by blast
  have pa48: "unat pa < 2 ^ 48" using b(2) by simp
  obtain t where t: "map_single_page_2M (main_tbl s) va pa attr s = (0, t)"
    "tables_ok (n + missing s ?ix 1 + missing s ?ix 2) t" "pages_2M (n + missing s ?ix 1 + missing s ?ix 2) t"
    "outside_kept s t" "region_maps s t va pa (unat va + 2 ^ 21) attr" "tbl_at t ?ix 2 \<noteq> None"
    by (rule single_2M[OF Suc.prems(1,2) nb Suc.prems(8,3,4) b(1) pa48, of attr]) (assumption, assumption, rule that, assumption+)
  let ?m = "n + missing s ?ix 1 + missing s ?ix 2"
  show ?case
  proof (cases c)
    case 0
    then have "map_2M_loop (Suc c) va pa attr s = (0, t)" using t(1) by simp
    then show ?thesis using t(2-5) 0 by auto
  next
    case c: (Suc c')
    have ua: "unat (va + ?B) = unat va + 2 ^ 21" using unat_plus64[of va ?B] b(1) by simp
    have up: "unat (pa + ?B) = unat pa + 2 ^ 21" using unat_plus64[of pa ?B] b(2) by simp
    have lt30: "unat va mod 2 ^ 30 + 2 ^ 21 < 2 ^ 30" using Suc.prems(7) c by simp
    have md: "(unat va + 2 ^ 21) mod 2 ^ 30 = unat va mod 2 ^ 30 + 2 ^ 21 \<and> (unat va + 2 ^ 21) div 2 ^ 30 = unat va div 2 ^ 30"
    proof -
      have "unat va + 2 ^ 21 = 2 ^ 30 * (unat va div 2 ^ 30) + (unat va mod 2 ^ 30 + 2 ^ 21)"
        using mult_div_mod_eq[of "2 ^ 30" "unat va"] by simp
      moreover have "(2 ^ 30 * (unat va div 2 ^ 30) + (unat va mod 2 ^ 30 + 2 ^ 21)) mod 2 ^ 30 = unat va mod 2 ^ 30 + 2 ^ 21"
        using lt30 by (simp only: mod_mult_self4 mod_less)
      moreover have "(2 ^ 30 * (unat va div 2 ^ 30) + (unat va mod 2 ^ 30 + 2 ^ 21)) div 2 ^ 30 = unat va div 2 ^ 30"
      proof -
        have "(unat va mod 2 ^ 30 + 2 ^ 21) div 2 ^ 30 = 0" using lt30 by (rule div_less)
        then show ?thesis by (subst div_mult_self4) simp_all
      qed
      ultimately show ?thesis by presburger
    qed
    have v48: "unat va < 2 ^ 48" "unat (va + ?B) < 2 ^ 48" using Suc.prems(5) c ua by simp_all
    note GB = same_GB[OF _ v48, unfolded ua]
    have ts: "tbl_at t (vidx (unat va + 2 ^ 21)) k = tbl_at t ?ix k" if "k \<le> 2" for k
      using GB(1)[OF _ that] md by simp
    have t1: "tbl_at t ?ix 1 \<noteq> None"
    proof
      assume "tbl_at t ?ix 1 = None"
      then have "tbl_at t ?ix 2 = None" by (rule tbl_none) simp
      then show False using t(6) by blast
    qed
    have mi: "missing t (vidx (unat va + 2 ^ 21)) 1 = 0" "missing t (vidx (unat va + 2 ^ 21)) 2 = 0"
      using ts[of 1] ts[of 2] t1 t(6) by (simp_all add: missing_def del: tbl_at.simps One_nat_def)
    have ty: "entry t i (vidx (unat va + 2 ^ 21) l) AND 3 \<noteq> 1" if l: "l < 2" "tbl_at t (vidx (unat va + 2 ^ 21)) l = Some i" for l i
    proof -
      have "tbl_at t (vidx (unat va + 2 ^ 21)) (Suc l) \<noteq> None"
      proof -
        have "Suc l = 1 \<or> Suc l = 2" using l(1) by auto
        then show ?thesis
        proof
          assume e: "Suc l = 1"
          show ?thesis unfolding e using ts[of 1] t1 by simp
        next
          assume e: "Suc l = 2"
          show ?thesis unfolding e using ts[of 2] t(6) by simp
        qed
      qed
      then show ?thesis using l(2) by (auto split: if_splits)
    qed
    have "\<exists>u m. map_2M_loop c (va + ?B) (pa + ?B) attr t = (0, u) \<and> tables_ok m u \<and>
        m \<le> ?m + missing t (vidx (unat (va + ?B))) 1 + missing t (vidx (unat (va + ?B))) 2 \<and> pages_2M m u \<and>
        outside_kept t u \<and> region_maps t u (va + ?B) (pa + ?B) (unat (va + ?B) + c * 2 ^ 21) attr"
    proof (rule Suc.IH[OF t(2,3)])
      show "2 ^ 21 dvd unat (va + ?B)" "2 ^ 21 dvd unat (pa + ?B)" unfolding ua up using Suc.prems(3,4) by simp_all
      show "unat (va + ?B) + c * 2 ^ 21 \<le> 2 ^ 48" "unat (pa + ?B) + c * 2 ^ 21 \<le> 2 ^ 48"
        unfolding ua up using Suc.prems(5,6) by simp_all
      show "unat (va + ?B) mod 2 ^ 30 + c * 2 ^ 21 \<le> 2 ^ 30" unfolding ua using md Suc.prems(7) by simp
      show "?m + missing t (vidx (unat (va + ?B))) 1 + missing t (vidx (unat (va + ?B))) 2 \<le> 20"
        unfolding ua mi using Suc.prems(8) by simp
      show "\<forall>l<2. \<forall>i. tbl_at t (vidx (unat (va + ?B))) l = Some i \<longrightarrow> entry t i (vidx (unat (va + ?B)) l) AND 3 \<noteq> 1"
        unfolding ua using ty by blast
    qed
    then obtain u m where u: "map_2M_loop c (va + ?B) (pa + ?B) attr t = (0, u)" "tables_ok m u" "m \<le> ?m" "pages_2M m u"
      "outside_kept t u" "region_maps t u (va + ?B) (pa + ?B) (unat va + 2 ^ 21 + c * 2 ^ 21) attr"
      unfolding ua mi by auto
    have e: "unat va + Suc c * 2 ^ 21 = unat va + 2 ^ 21 + c * 2 ^ 21" by simp
    have "region_maps s u va pa (unat va + Suc c * 2 ^ 21) attr"
      unfolding e by (rule region_maps_join[OF t(5) _ ua]) (use u(6) in \<open>simp_all add: region_maps_def ac_simps\<close>)
    moreover have "map_2M_loop (Suc c) va pa attr s = (0, u)" using t(1) u(1) by simp
    moreover have "outside_kept s u" by (rule outside_trans[OF t(4) u(5)])
    ultimately show ?thesis using u(2-4) by blast
  qed
qed

text \<open>
  C30. armv8_map_2M, used alone on the pool, maps a number of 2 MB blocks within one GB: it returns 0, every address
  of the region translates to the physical address at the same offset with the attributes asked for, every other
  address as before; it takes at most two table pages and writes nothing outside the pool.
\<close>

theorem armv8_map_2M_correct:
  assumes "tables_ok n s" "pages_2M n s" "n + 2 \<le> 20" "2 ^ 21 dvd unat va" "2 ^ 21 dvd unat pa" "0 \<le> count"
    "unat va mod 2 ^ 30 + nat count * 2 ^ 21 \<le> 2 ^ 30" "unat va + nat count * 2 ^ 21 \<le> 2 ^ 48"
    "unat pa + nat count * 2 ^ 21 \<le> 2 ^ 48"
    "\<And>l i. l < 2 \<Longrightarrow> tbl_at s (vidx (unat va)) l = Some i \<Longrightarrow> entry s i (vidx (unat va) l) AND 3 \<noteq> 1"
  shows "\<exists>t. armv8_map_2M va pa count attr s = (0, t) \<and> outside_kept s t \<and> (\<exists>m \<le> n + 2. tables_ok m t) \<and>
    (\<forall>a. translate t a = (if unat va \<le> unat a \<and> unat a < unat va + nat count * 2 ^ 21
                          then Some (pa + (a - va), attr AND ATTR_MASK) else translate s a))"
proof -
  have two: "missing s (vidx (unat va)) 1 + missing s (vidx (unat va)) 2 \<le> 2" by (simp add: missing_def del: tbl_at.simps One_nat_def)
  then have r: "n + missing s (vidx (unat va)) 1 + missing s (vidx (unat va)) 2 \<le> 20" using assms(3) by linarith
  have nb: "\<forall>l<2. \<forall>i. tbl_at s (vidx (unat va)) l = Some i \<longrightarrow> entry s i (vidx (unat va) l) AND 3 \<noteq> 1" using assms(10) by blast
  obtain t m where t: "map_2M_loop (nat count) va pa attr s = (0, t)" "tables_ok m t"
    "m \<le> n + missing s (vidx (unat va)) 1 + missing s (vidx (unat va)) 2" "outside_kept s t"
    "region_maps s t va pa (unat va + nat count * 2 ^ 21) attr"
    using map_2M_loop_spec[OF assms(1,2,4,5,8,9,7) r nb] by blast
  have "armv8_map_2M va pa count attr s = (0, t)" using t(1) assms(4,5) by (simp add: armv8_map_2M_def aligned_2M)
  moreover have "m \<le> n + 2" using t(3) two by linarith
  ultimately show ?thesis using t(2,4,5) unfolding region_maps_def by blast
qed

lemma armv8_map_2M_correct_witness:
  "\<exists>t. armv8_map_2M 0x40000000 0x200000 3 MEM_ATTR_IO (mmu_init demo_mmu) = (0, t) \<and> translate t 0x40400010 = Some (0x600010, 0x608)"
proof -
  note i = init_tables[OF demo_pool(1)]
  have pg: "pages_2M 1 (mmu_init demo_mmu)" by (simp add: pages_2M_def mmu_init_def mmu_memset_def demo_mmu_def)
  have m: "main_tbl (mmu_init demo_mmu) = main_tbl demo_mmu" by (simp add: mmu_init_def mmu_memset_def)
  have e: "entry (mmu_init demo_mmu) 0 x = 0" if "x < 512" for x
    using slot_in_page[OF demo_pool(1), of 0 0 x] that conjunct2[OF conjunct2[OF pool_cong[OF m]]]
    by (simp add: entry_def mmu_init_def mmu_memset_def)
  have nb: "entry (mmu_init demo_mmu) i (vidx v l) AND 3 \<noteq> 1" if "l < 2" "tbl_at (mmu_init demo_mmu) (vidx v) l = Some i" for l i v
  proof -
    have "vidx v 0 < 512" by (simp add: vidx_def)
    then show ?thesis using that e[of "vidx v 0"] by (auto simp: less_2_cases_iff split: if_splits)
  qed
  have "\<exists>t. armv8_map_2M 0x40000000 0x200000 3 MEM_ATTR_IO (mmu_init demo_mmu) = (0, t) \<and> outside_kept (mmu_init demo_mmu) t \<and>
      (\<exists>m \<le> 1 + 2. tables_ok m t) \<and>
      (\<forall>a. translate t a = (if unat (0x40000000 :: u64) \<le> unat a \<and> unat a < unat (0x40000000 :: u64) + nat 3 * 2 ^ 21
         then Some (0x200000 + (a - 0x40000000), MEM_ATTR_IO AND ATTR_MASK) else translate (mmu_init demo_mmu) a))"
    by (rule armv8_map_2M_correct[OF i(1) pg]) (simp, simp, simp, simp, simp, simp, simp, rule nb, assumption+)
  then obtain t where "armv8_map_2M 0x40000000 0x200000 3 MEM_ATTR_IO (mmu_init demo_mmu) = (0, t)"
    "\<forall>a. translate t a = (if unat (0x40000000 :: u64) \<le> unat a \<and> unat a < unat (0x40000000 :: u64) + nat 3 * 2 ^ 21
         then Some (0x200000 + (a - 0x40000000), MEM_ATTR_IO AND ATTR_MASK) else translate (mmu_init demo_mmu) a)" by blast
  then show ?thesis by (intro exI[of _ t]) simp
qed

text \<open>
  The two allocators do not know of each other: while \<open>get_free_page\<close> has not been used, the page it hands out
  first is the one \<open>create_table\<close> handed out first, which is a table in use.
\<close>

lemma allocators_clash:
  assumes "pool_ok s" "free_idx s = 1" "page_off s = 0"
  shows "fst (create_table s) = fst (get_free_page (snd (create_table s)))"
  using assms by (simp add: create_table_def get_free_page_def Let_def mmu_memset_def)

end
