(* ===== verification/RT_Kservice.thy ===== *)
theory RT_Kservice
  imports RT_Prelude
begin

text \<open>
  The memory and string routines of \<open>src/rt-thread/src/kservice.c\<close>, on a memory that maps 64-bit addresses to bytes:
  the word-wise copies as the code does them, against their byte-wise meaning. \<open>long\<close> has 8 bytes and \<open>char\<close> is
  unsigned on this target, which is little-endian.
\<close>

unbundle bit_operations_syntax

type_synonym memory = "u64 \<Rightarrow> u8"

section \<open>Words in memory\<close>

definition load64 :: "u64 \<Rightarrow> memory \<Rightarrow> u64" where
  "load64 a m =
     ucast (m a) OR push_bit 8 (ucast (m (a + 1))) OR push_bit 16 (ucast (m (a + 2))) OR push_bit 24 (ucast (m (a + 3))) OR
     push_bit 32 (ucast (m (a + 4))) OR push_bit 40 (ucast (m (a + 5))) OR push_bit 48 (ucast (m (a + 6))) OR
     push_bit 56 (ucast (m (a + 7)))"

definition store64 :: "u64 \<Rightarrow> u64 \<Rightarrow> memory \<Rightarrow> memory" where
  "store64 a w m = (\<lambda>x. if x - a < 8 then ucast (drop_bit (8 * unat (x - a)) w) else m x)"

abbreviation UNALIGNED :: "u64 \<Rightarrow> bool" where
  "UNALIGNED a \<equiv> a AND 7 \<noteq> 0"

section \<open>rt_memset\<close>

fun spread :: "nat \<Rightarrow> u64 \<Rightarrow> u64 \<Rightarrow> u64" where
  "spread 0 d b = b"
| "spread (Suc k) d b = spread k d (push_bit 8 b OR d)"

fun memset_4words :: "u64 \<Rightarrow> u64 \<Rightarrow> nat \<Rightarrow> memory \<Rightarrow> u64 \<times> nat \<times> memory" where
  "memset_4words a b count m =
     (if count \<ge> 32
      then memset_4words (a + 32) b (count - 32)
             (store64 (a + 24) b (store64 (a + 16) b (store64 (a + 8) b (store64 a b m))))
      else (a, count, m))"

fun memset_words :: "u64 \<Rightarrow> u64 \<Rightarrow> nat \<Rightarrow> memory \<Rightarrow> u64 \<times> nat \<times> memory" where
  "memset_words a b count m =
     (if count \<ge> 8 then memset_words (a + 8) b (count - 8) (store64 a b m) else (a, count, m))"

fun memset_bytes :: "u64 \<Rightarrow> u8 \<Rightarrow> nat \<Rightarrow> memory \<Rightarrow> memory" where
  "memset_bytes a d 0 m = m"
| "memset_bytes a d (Suc n) m = memset_bytes (a + 1) d n (m(a := d))"

definition rt_memset :: "u64 \<Rightarrow> u32 \<Rightarrow> u64 \<Rightarrow> memory \<Rightarrow> u64 \<times> memory" where
  "rt_memset s c count m =
     (let d = c AND 0xff;
          (p, n, m1) = (if \<not> count < 8 \<and> \<not> UNALIGNED s
                        then let buffer = spread 8 (ucast d) 0;
                                 (a1, n1, m1) = memset_4words s buffer (unat count) m
                             in memset_words a1 buffer n1 m1
                        else (s, unat count, m))
      in (s, memset_bytes p (ucast d) n m1))"

section \<open>rt_memcpy\<close>

text \<open>
  The length is an \<open>int\<close>: the 64-bit count loses its upper half, comparisons with the block sizes are unsigned and
  64 bits wide, and the byte loop runs a negative length down past the least \<open>int\<close>, which is undefined: \<open>None\<close>.
\<close>

abbreviation as_long :: "u32 \<Rightarrow> u64" where
  "as_long len \<equiv> scast len"

definition copy64 :: "u64 \<Rightarrow> u64 \<Rightarrow> memory \<Rightarrow> memory" where
  "copy64 d s m = store64 d (load64 s m) m"

function memcpy_4words :: "u64 \<Rightarrow> u64 \<Rightarrow> u32 \<Rightarrow> memory \<Rightarrow> u64 \<times> u64 \<times> u32 \<times> memory" where
  "memcpy_4words d s len m =
     (if as_long len \<ge> 32
      then memcpy_4words (d + 32) (s + 32) (ucast (as_long len - 32))
             (copy64 (d + 24) (s + 24) (copy64 (d + 16) (s + 16) (copy64 (d + 8) (s + 8) (copy64 d s m))))
      else (d, s, len, m))"
  by pat_completeness auto

function memcpy_words :: "u64 \<Rightarrow> u64 \<Rightarrow> u32 \<Rightarrow> memory \<Rightarrow> u64 \<times> u64 \<times> u32 \<times> memory" where
  "memcpy_words d s len m =
     (if as_long len \<ge> 8
      then memcpy_words (d + 8) (s + 8) (ucast (as_long len - 8)) (copy64 d s m)
      else (d, s, len, m))"
  by pat_completeness auto

fun copy_up :: "u64 \<Rightarrow> u64 \<Rightarrow> nat \<Rightarrow> memory \<Rightarrow> memory" where
  "copy_up d s 0 m = m"
| "copy_up d s (Suc n) m = copy_up (d + 1) (s + 1) n (m(d := m s))"

lemma ucast_of_int: "(ucast (word_of_int x :: u64) :: u32) = word_of_int x"
  by transfer simp

lemma len_sub: "(ucast (as_long len - of_nat k) :: u32) = len - of_nat k"
proof -
  have "as_long len - of_nat k = word_of_int (sint len) - (word_of_int (int k) :: u64)" by (simp only: scast_eq of_int_of_nat_eq)
  also have "\<dots> = word_of_int (sint len - int k)" by (rule wi_hom_sub)
  finally have "(ucast (as_long len - of_nat k) :: u32) = word_of_int (sint len - int k)" by (simp only: ucast_of_int)
  also have "\<dots> = word_of_int (sint len) - word_of_int (int k)" by (rule wi_hom_sub[symmetric])
  finally show ?thesis by simp
qed

lemma sint_small: "n < 2 ^ 31 \<Longrightarrow> sint (of_nat n :: u32) = int n"
  by (simp add: signed_of_nat signed_take_bit_int_eq_self)

lemma len_step:
  assumes "as_long len \<ge> of_nat k" "k < 2 ^ 31" "0 < k"
  shows "unat (ucast (as_long len - of_nat k) :: u32) = unat len - k" "k \<le> unat len"
proof -
  show le: "k \<le> unat len"
  proof (cases "unat len < 2 ^ 31")
    case True
    have "sint (of_nat (unat len) :: u32) = int (unat len)" by (rule sint_small[OF True])
    then have "sint len = int (unat len)" by simp
    then have "as_long len = of_nat (unat len)" by (simp add: scast_eq)
    moreover have "unat (of_nat (unat len) :: u64) = unat len" by (rule unat_of_nat_small) (use True in simp)
    moreover have "unat (of_nat k :: u64) = k" by (rule unat_of_nat_small) (use assms(2) in simp)
    ultimately show ?thesis using assms(1) by (simp only: word_le_nat_alt)
  qed (use assms(2) in simp)
  have "unat (of_nat k :: u32) = k" by (rule unat_of_nat_small) (use assms(2) in simp)
  then show "unat (ucast (as_long len - of_nat k) :: u32) = unat len - k"
    unfolding len_sub using le by (simp add: unat_sub word_le_nat_alt)
qed

termination memcpy_4words
proof (relation "measure (\<lambda>(d, s, len, m). unat len)")
  fix d s :: u64 and len :: u32 and m :: memory
  assume "32 \<le> as_long len"
  then show "((d + 32, s + 32, ucast (as_long len - 32) :: u32,
      copy64 (d + 24) (s + 24) (copy64 (d + 16) (s + 16) (copy64 (d + 8) (s + 8) (copy64 d s m)))), d, s, len, m)
      \<in> measure (\<lambda>(d, s, len, m). unat len)"
    using len_step[of 32 len] by simp
qed simp

termination memcpy_words
proof (relation "measure (\<lambda>(d, s, len, m). unat len)")
  fix d s :: u64 and len :: u32 and m :: memory
  assume "8 \<le> as_long len"
  then show "((d + 8, s + 8, ucast (as_long len - 8) :: u32, copy64 d s m), d, s, len, m) \<in> measure (\<lambda>(d, s, len, m). unat len)"
    using len_step[of 8 len] by simp
qed simp

definition rt_memcpy :: "u64 \<Rightarrow> u64 \<Rightarrow> u64 \<Rightarrow> memory \<Rightarrow> (u64 \<times> memory) option" where
  "rt_memcpy dst src count m =
     (let (d, s, len, m1) =
            (if \<not> as_long (ucast count) < 32 \<and> \<not> (src AND 7 OR dst AND 7) \<noteq> 0
             then let (d1, s1, len1, m1) = memcpy_4words dst src (ucast count) m in memcpy_words d1 s1 len1 m1
             else (dst, src, ucast count, m))
      in if sint len < 0 then None else Some (dst, copy_up d s (unat len) m1))"

section \<open>rt_memmove and rt_memcmp\<close>

fun copy_down :: "u64 \<Rightarrow> u64 \<Rightarrow> nat \<Rightarrow> memory \<Rightarrow> memory" where
  "copy_down d s 0 m = m"
| "copy_down d s (Suc n) m = copy_down (d - 1) (s - 1) n (m(d - 1 := m (s - 1)))"

definition rt_memmove :: "u64 \<Rightarrow> u64 \<Rightarrow> u64 \<Rightarrow> memory \<Rightarrow> u64 \<times> memory" where
  "rt_memmove dest src n m =
     (dest, if src < dest \<and> dest < src + n then copy_down (dest + n) (src + n) (unat n) m else copy_up dest src (unat n) m)"

fun memcmp_loop :: "u64 \<Rightarrow> u64 \<Rightarrow> nat \<Rightarrow> int \<Rightarrow> memory \<Rightarrow> int" where
  "memcmp_loop su1 su2 0 res m = res"
| "memcmp_loop su1 su2 (Suc count) res m =
     (let r = int (unat (m su1)) - int (unat (m su2))
      in if r \<noteq> 0 then r else memcmp_loop (su1 + 1) (su2 + 1) count r m)"

definition rt_memcmp :: "u64 \<Rightarrow> u64 \<Rightarrow> u64 \<Rightarrow> memory \<Rightarrow> int" where
  "rt_memcmp cs ct count m = memcmp_loop cs ct (unat count) 0 m"

section \<open>Strings\<close>

partial_function (option) strlen_loop :: "u64 \<Rightarrow> u64 \<Rightarrow> memory \<Rightarrow> u64 option" where
  "strlen_loop s sc m = (if m sc \<noteq> 0 then strlen_loop s (sc + 1) m else Some (sc - s))"

definition rt_strlen :: "u64 \<Rightarrow> memory \<Rightarrow> u64 option" where
  "rt_strlen s m = strlen_loop s s m"

partial_function (option) strnlen_loop :: "u64 \<Rightarrow> u64 \<Rightarrow> u64 \<Rightarrow> memory \<Rightarrow> u64 option" where
  "strnlen_loop s maxlen sc m = (if m sc \<noteq> 0 \<and> sc - s < maxlen then strnlen_loop s maxlen (sc + 1) m else Some (sc - s))"

definition rt_strnlen :: "u64 \<Rightarrow> u64 \<Rightarrow> memory \<Rightarrow> u64 option" where
  "rt_strnlen s maxlen m = strnlen_loop s maxlen s m"

text \<open>The lengths are \<open>int\<close>s; the loop ends when the rest of \<open>s1\<close> is shorter than \<open>s2\<close>.\<close>

function strstr_loop :: "u64 \<Rightarrow> u64 \<Rightarrow> int \<Rightarrow> int \<Rightarrow> memory \<Rightarrow> u64" where
  "strstr_loop s1 s2 l1 l2 m =
     (if l1 \<ge> l2
      then if rt_memcmp s1 s2 (of_int l2) m = 0 then s1 else strstr_loop (s1 + 1) s2 (l1 - 1) l2 m
      else 0)"
  by pat_completeness auto
termination by (relation "measure (\<lambda>(s1, s2, l1, l2, m). nat (l1 - l2 + 1))") auto

definition rt_strstr :: "u64 \<Rightarrow> u64 \<Rightarrow> memory \<Rightarrow> u64 option" where
  "rt_strstr s1 s2 m =
     do { n2 \<leftarrow> rt_strlen s2 m;
          let l2 = sint (ucast n2 :: u32);
          if l2 = 0 then Some s1
          else do { n1 \<leftarrow> rt_strlen s1 m; Some (strstr_loop s1 s2 (sint (ucast n1 :: u32)) l2 m) } }"

fun strncpy_pad :: "u64 \<Rightarrow> nat \<Rightarrow> memory \<Rightarrow> memory" where
  "strncpy_pad d 0 m = m"
| "strncpy_pad d (Suc n) m = strncpy_pad (d + 1) n (m(d := 0))"

text \<open>With \<open>n\<close> counted down at the end of each round, \<open>Suc k\<close> bytes are left to write.\<close>

fun strncpy_loop :: "u64 \<Rightarrow> u64 \<Rightarrow> nat \<Rightarrow> memory \<Rightarrow> memory" where
  "strncpy_loop d s 0 m = m"
| "strncpy_loop d s (Suc k) m =
     (let m1 = m(d := m s) in if m s = 0 then strncpy_pad (d + 1) k m1 else strncpy_loop (d + 1) (s + 1) k m1)"

definition rt_strncpy :: "u64 \<Rightarrow> u64 \<Rightarrow> u64 \<Rightarrow> memory \<Rightarrow> u64 \<times> memory" where
  "rt_strncpy dst src n m = (dst, if n \<noteq> 0 then strncpy_loop dst src (unat n) m else m)"

text \<open>The result of \<open>rt_strncmp\<close> is a \<open>signed char\<close>.\<close>

fun strncmp_loop :: "u64 \<Rightarrow> u64 \<Rightarrow> nat \<Rightarrow> u8 \<Rightarrow> memory \<Rightarrow> u8" where
  "strncmp_loop cs ct 0 res m = res"
| "strncmp_loop cs ct (Suc count) res m =
     (let r = (m cs - m ct :: u8)
      in if r \<noteq> 0 \<or> m cs = 0 then r else strncmp_loop (cs + 1) (ct + 1) count r m)"

definition rt_strncmp :: "u64 \<Rightarrow> u64 \<Rightarrow> u64 \<Rightarrow> memory \<Rightarrow> int" where
  "rt_strncmp cs ct count m = sint (strncmp_loop cs ct (unat count) 0 m)"

partial_function (option) rt_strcmp :: "u64 \<Rightarrow> u64 \<Rightarrow> memory \<Rightarrow> int option" where
  "rt_strcmp cs ct m =
     (if m cs \<noteq> 0 \<and> m cs = m ct then rt_strcmp (cs + 1) (ct + 1) m else Some (int (unat (m cs)) - int (unat (m ct))))"

definition to_lower :: "u8 \<Rightarrow> u8" where
  "to_lower c = (if 65 \<le> c \<and> c \<le> 90 then c + 32 else c)"

partial_function (option) rt_strcasecmp :: "u64 \<Rightarrow> u64 \<Rightarrow> memory \<Rightarrow> int option" where
  "rt_strcasecmp a b m =
     (let ca = to_lower (m a); cb = to_lower (m b)
      in if ca = cb \<and> ca \<noteq> 0 then rt_strcasecmp (a + 1) (b + 1) m else Some (int (unat ca) - int (unat cb)))"

end
