(* ===== verification/RT_Kservice_Props.thy ===== *)
theory RT_Kservice_Props
  imports RT_Kservice
begin

text \<open>
  The word-wise memory routines against their byte-wise meaning, and what the string routines compute.
\<close>

section \<open>Offsets\<close>

lemma unat_len [simp]: "unat (x :: u64) < 2 ^ 64"
  using unsigned_less[of x] by simp

lemma off_sub:
  assumes "k + n \<le> 2 ^ 64"
  shows "unat ((w :: u64) - of_nat k) < n \<longleftrightarrow> k \<le> unat w \<and> unat w < k + n"
proof (cases "k < 2 ^ 64")
  case True
  have u: "unat (of_nat k :: u64) = k" by (rule unat_of_nat_small) (use True in simp)
  have "unat (w - of_nat k) = (if k \<le> unat w then unat w - k else unat w + 2 ^ 64 - k)"
    unfolding unat_sub_if'[of w] u by simp
  then show ?thesis using assms unat_len[of w] by (auto split: if_splits)
next
  case False
  then have "n = 0" using assms by simp
  then show ?thesis using False unat_len[of w] by auto
qed

lemma off_shift:
  "k + n \<le> 2 ^ 64 \<Longrightarrow> unat ((x :: u64) - (a + of_nat k)) < n \<longleftrightarrow> k \<le> unat (x - a) \<and> unat (x - a) < k + n"
  using off_sub[of k n "x - a"] by (simp add: diff_diff_eq)

lemma off_zero: "unat ((x :: u64) - a) = 0 \<longleftrightarrow> x = a"
  by (simp add: unat_eq_0)

section \<open>Words as bytes\<close>

text \<open>The bytes of a word built from bytes.\<close>

definition join8 :: "(nat \<Rightarrow> u8) \<Rightarrow> u64" where
  "join8 f = ucast (f 0) OR push_bit 8 (ucast (f 1)) OR push_bit 16 (ucast (f 2)) OR push_bit 24 (ucast (f 3)) OR
     push_bit 32 (ucast (f 4)) OR push_bit 40 (ucast (f 5)) OR push_bit 48 (ucast (f 6)) OR push_bit 56 (ucast (f 7))"

lemma below8: "i < 8 \<Longrightarrow> i = 0 \<or> i = 1 \<or> i = 2 \<or> i = 3 \<or> i = 4 \<or> i = 5 \<or> i = 6 \<or> i = (7 :: nat)"
  by auto

lemma byte_bit: "j < 8 \<Longrightarrow> bit (ucast (c :: u8) :: u64) j = bit c j" "8 \<le> j \<Longrightarrow> \<not> bit (ucast (c :: u8) :: u64) j"
  by (simp_all add: bit_ucast_iff) (auto dest: bit_imp_le_length)

lemma join8_byte: "i < 8 \<Longrightarrow> (ucast (drop_bit (8 * i) (join8 f)) :: u8) = f i"
proof (rule bit_word_eqI)
  fix j assume i: "i < 8" and "j < LENGTH(8)"
  then have j: "j < 8" by simp
  have "bit (ucast (drop_bit (8 * i) (join8 f)) :: u8) j = bit (join8 f) (8 * i + j)"
    using i j by (simp add: bit_ucast_iff bit_drop_bit_eq)
  also have "\<dots> = bit (f i) j"
    using below8[OF i] j by (elim disjE) (simp_all add: join8_def bit_or_iff bit_push_bit_iff byte_bit)
  finally show "bit (ucast (drop_bit (8 * i) (join8 f)) :: u8) j = bit (f i) j" .
qed

lemma store_join: "store64 a (join8 f) m = (\<lambda>x. if unat (x - a) < 8 then f (unat (x - a)) else m x)"
  by (simp add: store64_def fun_eq_iff word_less_nat_alt join8_byte)

lemma load_join: "load64 a m = join8 (\<lambda>i. m (a + of_nat i))"
  by (simp add: load64_def join8_def)

lemma spread_join: "spread 8 (ucast c) 0 = join8 (\<lambda>_. c)"
proof -
  have e: "spread 8 d 0 = push_bit 8 (push_bit 8 (push_bit 8 (push_bit 8 (push_bit 8 (push_bit 8 (push_bit 8 (push_bit 8 0 OR d)
      OR d) OR d) OR d) OR d) OR d) OR d) OR d" for d
    by (simp add: eval_nat_numeral)
  show ?thesis unfolding e join8_def by (simp add: push_bit_or or.left_commute or.commute)
qed

section \<open>rt_memset\<close>

definition filled :: "u64 \<Rightarrow> nat \<Rightarrow> u8 \<Rightarrow> memory \<Rightarrow> memory" where
  "filled a n c m = (\<lambda>x. if unat (x - a) < n then c else m x)"

lemma filled_0 [simp]: "filled a 0 c m = m"
  by (simp add: filled_def)

lemma filled_add: "k + n \<le> 2 ^ 64 \<Longrightarrow> filled (a + of_nat k) n c (filled a k c m) = filled a (k + n) c m"
  by (auto simp: filled_def fun_eq_iff off_shift)

lemma store_filled: "store64 a (spread 8 (ucast c) 0) m = filled a 8 c m"
  by (simp add: spread_join store_join filled_def)

lemma fill_4: "filled (a + 24) 8 c (filled (a + 16) 8 c (filled (a + 8) 8 c (filled a 8 c m))) = filled a 32 c m"
  using filled_add[of 8 8 a c m] filled_add[of 16 8 a c m] filled_add[of 24 8 a c m] by simp

lemma memset_4words_spec:
  "memset_4words a (spread 8 (ucast c) 0) n m = (a', n', m') \<Longrightarrow> n < 2 ^ 64 \<Longrightarrow>
     \<exists>k. n = k + n' \<and> a' = a + of_nat k \<and> m' = filled a k c m"
proof (induction a "spread 8 (ucast c) 0" n m rule: memset_4words.induct)
  case (1 a n m)
  show ?case
  proof (cases "n \<ge> 32")
    case True
    then have e: "memset_4words (a + 32) (spread 8 (ucast c) 0) (n - 32) (filled a 32 c m) = (a', n', m')"
      using "1.prems"(1) by (simp add: store_filled fill_4)
    have "\<exists>k. n - 32 = k + n' \<and> a' = a + 32 + of_nat k \<and> m' = filled (a + 32) k c (filled a 32 c m)"
      using "1.hyps"[OF True] e "1.prems"(2) by (simp add: store_filled fill_4)
    then obtain k where k: "n - 32 = k + n'" "a' = a + 32 + of_nat k" "m' = filled (a + 32) k c (filled a 32 c m)" by blast
    have "m' = filled a (32 + k) c m" using filled_add[of 32 k a c m] k(1,3) "1.prems"(2) True by simp
    then show ?thesis using k True by (intro exI[of _ "32 + k"]) simp
  next
    case False
    then show ?thesis using "1.prems"(1) by (intro exI[of _ 0]) simp
  qed
qed

lemma memset_words_spec:
  "memset_words a (spread 8 (ucast c) 0) n m = (a', n', m') \<Longrightarrow> n < 2 ^ 64 \<Longrightarrow>
     \<exists>k. n = k + n' \<and> a' = a + of_nat k \<and> m' = filled a k c m"
proof (induction a "spread 8 (ucast c) 0" n m rule: memset_words.induct)
  case (1 a n m)
  show ?case
  proof (cases "n \<ge> 8")
    case True
    then have e: "memset_words (a + 8) (spread 8 (ucast c) 0) (n - 8) (filled a 8 c m) = (a', n', m')"
      using "1.prems"(1) by (simp add: store_filled)
    have "\<exists>k. n - 8 = k + n' \<and> a' = a + 8 + of_nat k \<and> m' = filled (a + 8) k c (filled a 8 c m)"
      using "1.hyps"[OF True] e "1.prems"(2) by (simp add: store_filled)
    then obtain k where k: "n - 8 = k + n'" "a' = a + 8 + of_nat k" "m' = filled (a + 8) k c (filled a 8 c m)" by blast
    have "m' = filled a (8 + k) c m" using filled_add[of 8 k a c m] k(1,3) "1.prems"(2) True by simp
    then show ?thesis using k True by (intro exI[of _ "8 + k"]) simp
  next
    case False
    then show ?thesis using "1.prems"(1) by (intro exI[of _ 0]) simp
  qed
qed

lemma filled_1: "filled a 1 c m = m(a := c)"
  by (auto simp: filled_def fun_eq_iff off_zero)

lemma memset_bytes_spec: "n < 2 ^ 64 \<Longrightarrow> memset_bytes a c n m = filled a n c m"
proof (induction n arbitrary: a m)
  case (Suc n)
  have "memset_bytes a c (Suc n) m = filled (a + 1) n c (filled a 1 c m)" using Suc by (simp only: memset_bytes.simps filled_1 Suc_lessD)
  also have "\<dots> = filled a (Suc n) c m" using filled_add[of 1 n a c m] Suc.prems by simp
  finally show ?case .
qed simp

text \<open>
  C32. rt_memset, which writes words of eight bytes four at a time while it can, does exactly what the byte-wise loop
  does: the count bytes from s on get the low byte of c, and no other byte changes.
\<close>

theorem memset_bytewise:
  "rt_memset s c count m = (s, \<lambda>x. if x - s < count then ucast c else m x)"
proof -
  let ?c = "ucast c :: u8"
  have d: "(ucast (c AND 0xff) :: u8) = ?c" "(ucast (c AND 0xff) :: u64) = ucast ?c"
  proof -
    have m: "(0xff :: u32) = mask 8" by (simp add: mask_eq_exp_minus_1)
    show "(ucast (c AND 0xff) :: u8) = ?c" unfolding m by (rule bit_word_eqI) (simp add: bit_simps)
    show "(ucast (c AND 0xff) :: u64) = ucast ?c" unfolding m by (rule bit_word_eqI) (auto simp: bit_simps)
  qed
  have f: "filled s (unat count) ?c m = (\<lambda>x. if x - s < count then ?c else m x)"
    by (simp add: filled_def word_less_nat_alt)
  show ?thesis
  proof (cases "\<not> count < 8 \<and> \<not> UNALIGNED s")
    case True
    obtain a1 n1 m1 where 1: "memset_4words s (spread 8 (ucast ?c) 0) (unat count) m = (a1, n1, m1)" by (metis prod_cases3)
    obtain a2 n2 m2 where 2: "memset_words a1 (spread 8 (ucast ?c) 0) n1 m1 = (a2, n2, m2)" by (metis prod_cases3)
    obtain j where j: "unat count = j + n1" "a1 = s + of_nat j" "m1 = filled s j ?c m"
      using memset_4words_spec[OF 1 unat_len] by blast
    have lt: "j + n1 < 2 ^ 64" using j(1) unat_len[of count] by simp
    obtain k where k: "n1 = k + n2" "a2 = a1 + of_nat k" "m2 = filled a1 k ?c m1"
      using memset_words_spec[OF 2] lt by auto
    have "m2 = filled s (j + k) ?c m" using filled_add[of j k s ?c m] j k lt by simp
    moreover have "memset_bytes a2 ?c n2 m2 = filled a2 n2 ?c m2" by (rule memset_bytes_spec) (use lt k in simp)
    ultimately have "memset_bytes a2 ?c n2 m2 = filled s (unat count) ?c m"
      using filled_add[of "j + k" n2 s ?c m] j k lt by (simp add: add.assoc)
    moreover have "rt_memset s c count m = (s, memset_bytes a2 ?c n2 m2)"
      unfolding rt_memset_def Let_def d if_P[OF True] 1 2 prod.case ..
    ultimately show ?thesis unfolding f by (simp only:)
  next
    case False
    have "rt_memset s c count m = (s, memset_bytes s ?c (unat count) m)"
      unfolding rt_memset_def Let_def d if_not_P[OF False] prod.case ..
    then show ?thesis unfolding f memset_bytes_spec[OF unat_len] .
  qed
qed

section \<open>rt_memcpy\<close>

text \<open>What a simultaneous copy does.\<close>

definition bytes_moved :: "u64 \<Rightarrow> u64 \<Rightarrow> nat \<Rightarrow> memory \<Rightarrow> memory" where
  "bytes_moved d s n m = (\<lambda>x. if unat (x - d) < n then m (s + (x - d)) else m x)"

lemma copy_up_moved:
  "n \<le> 2 ^ 64 \<Longrightarrow> unat (d - s) = 0 \<or> n \<le> unat (d - s) \<Longrightarrow> copy_up d s n m = bytes_moved d s n m"
proof (induction n arbitrary: d s m)
  case (Suc n)
  have e: "d + 1 - (s + 1) = d - s" by simp
  have "copy_up (d + 1) (s + 1) n (m(d := m s)) = bytes_moved (d + 1) (s + 1) n (m(d := m s))"
    by (rule Suc.IH) (use Suc.prems in \<open>unfold e, auto\<close>)
  then have "copy_up d s (Suc n) m = bytes_moved (d + 1) (s + 1) n (m(d := m s))" by simp
  also have "\<dots> = bytes_moved d s (Suc n) m"
  proof
    fix x
    have o: "unat (x - (d + 1)) < n \<longleftrightarrow> 1 \<le> unat (x - d) \<and> unat (x - d) < Suc n" using off_shift[of 1 n x d] Suc.prems(1) by simp
    show "bytes_moved (d + 1) (s + 1) n (m(d := m s)) x = bytes_moved d s (Suc n) m x"
    proof (cases "x = d")
      case True
      then show ?thesis using o by (simp add: bytes_moved_def)
    next
      case False
      then have "1 \<le> unat (x - d)" using off_zero[of x d] by simp
      then have i: "unat (x - (d + 1)) < n \<longleftrightarrow> unat (x - d) < Suc n" using o by simp
      have a: "s + 1 + (x - (d + 1)) = s + (x - d)" by simp
      have "s + (x - d) = d \<Longrightarrow> unat (x - d) < Suc n \<Longrightarrow> x = d"
      proof -
        assume "s + (x - d) = d" and lt: "unat (x - d) < Suc n"
        then have "x - d = d - s" by (simp add: algebra_simps)
        then show "x = d" using Suc.prems(2) lt off_zero[of x d] by auto
      qed
      then show ?thesis unfolding bytes_moved_def i a using False by auto
    qed
  qed
  finally show ?case .
qed (simp add: bytes_moved_def)

lemma copy64_moved: "copy64 d s m = bytes_moved d s 8 m"
  by (simp add: copy64_def load_join store_join bytes_moved_def fun_eq_iff)

lemma copy64_up: "unat (d - s) = 0 \<or> 8 \<le> unat (d - s) \<Longrightarrow> copy64 d s m = copy_up d s 8 m"
  by (simp add: copy64_moved copy_up_moved)

lemma copy_up_add: "copy_up d s (k + n) m = copy_up (d + of_nat k) (s + of_nat k) n (copy_up d s k m)"
  by (induction k arbitrary: d s m) (simp_all add: ac_simps)

lemma copy_4:
  assumes "unat (d - s) = 0 \<or> 8 \<le> unat (d - s)"
  shows "copy64 (d + 24) (s + 24) (copy64 (d + 16) (s + 16) (copy64 (d + 8) (s + 8) (copy64 d s m))) = copy_up d s 32 m"
proof -
  have c: "copy64 (d + k) (s + k) m = copy_up (d + k) (s + k) 8 m" for k m
    by (rule copy64_up) (use assms in simp)
  have "copy64 d s m = copy_up d s 8 m" by (rule copy64_up[OF assms])
  then show ?thesis
    using copy_up_add[of d s 8 8 m] copy_up_add[of d s 16 8 m] copy_up_add[of d s 24 8 m] by (simp add: c)
qed

lemma memcpy_4words_spec:
  "memcpy_4words d s len m = (d', s', len', m') \<Longrightarrow> unat (d - s) = 0 \<or> 8 \<le> unat (d - s) \<Longrightarrow>
     d' - s' = d - s \<and> copy_up d' s' (unat len') m' = copy_up d s (unat len) m \<and> unat len' \<le> unat len"
proof (induction d s len m rule: memcpy_4words.induct)
  case (1 d s len m)
  show ?case
  proof (cases "as_long len \<ge> 32")
    case True
    have l: "unat (ucast (as_long len - 32) :: u32) = unat len - 32" "32 \<le> unat len" using len_step[of 32 len] True by simp_all
    have "memcpy_4words (d + 32) (s + 32) (ucast (as_long len - 32)) (copy_up d s 32 m) = (d', s', len', m')"
      using "1.prems"(1) True unfolding memcpy_4words.simps[of d s len m] by (simp add: copy_4[OF "1.prems"(2)] del: memcpy_4words.simps)
    then have "d' - s' = d - s \<and> copy_up d' s' (unat len') m' = copy_up (d + 32) (s + 32) (unat len - 32) (copy_up d s 32 m) \<and>
        unat len' \<le> unat len - 32"
      using "1.IH"[OF True] "1.prems"(2) by (simp add: copy_4[OF "1.prems"(2)] l del: memcpy_4words.simps)
    moreover have "copy_up (d + 32) (s + 32) (unat len - 32) (copy_up d s 32 m) = copy_up d s (unat len) m"
      using copy_up_add[of d s 32 "unat len - 32" m] l(2) by simp
    ultimately show ?thesis by (simp add: le_diff_conv2[OF l(2)])
  next
    case False
    then show ?thesis using "1.prems"(1) unfolding memcpy_4words.simps[of d s len m] if_not_P[OF False] by simp
  qed
qed

lemma memcpy_words_spec:
  "memcpy_words d s len m = (d', s', len', m') \<Longrightarrow> unat (d - s) = 0 \<or> 8 \<le> unat (d - s) \<Longrightarrow>
     copy_up d' s' (unat len') m' = copy_up d s (unat len) m \<and> unat len' \<le> unat len"
proof (induction d s len m rule: memcpy_words.induct)
  case (1 d s len m)
  show ?case
  proof (cases "as_long len \<ge> 8")
    case True
    have l: "unat (ucast (as_long len - 8) :: u32) = unat len - 8" "8 \<le> unat len" using len_step[of 8 len] True by simp_all
    have "memcpy_words (d + 8) (s + 8) (ucast (as_long len - 8)) (copy_up d s 8 m) = (d', s', len', m')"
      using "1.prems"(1) True unfolding memcpy_words.simps[of d s len m] by (simp add: copy64_up[OF "1.prems"(2)] del: memcpy_words.simps)
    then have "copy_up d' s' (unat len') m' = copy_up (d + 8) (s + 8) (unat len - 8) (copy_up d s 8 m) \<and> unat len' \<le> unat len - 8"
      using "1.IH"[OF True] "1.prems"(2) by (simp add: copy64_up[OF "1.prems"(2)] l del: memcpy_words.simps)
    moreover have "copy_up (d + 8) (s + 8) (unat len - 8) (copy_up d s 8 m) = copy_up d s (unat len) m"
      using copy_up_add[of d s 8 "unat len - 8" m] l(2) by simp
    ultimately show ?thesis by (simp add: le_diff_conv2[OF l(2)])
  next
    case False
    have "(d, s, len, m) = (d', s', len', m')" using "1.prems"(1) unfolding memcpy_words.simps[of d s len m] if_not_P[OF False] .
    then show ?thesis by simp
  qed
qed

lemma aligned_gap:
  fixes d s :: u64
  assumes "\<not> (s AND 7 OR d AND 7) \<noteq> 0"
  shows "unat (d - s) = 0 \<or> 8 \<le> unat (d - s)"
proof -
  have z: "s AND 7 = 0" "d AND 7 = 0" using assms by (simp_all add: or_eq_0_iff)
  have m: "x AND 7 = 0 \<longleftrightarrow> unat x mod 8 = 0" for x :: u64
  proof -
    have "x AND 7 = take_bit 3 x" by (simp add: take_bit_eq_mask mask_eq_exp_minus_1)
    then have "unat (x AND 7) = unat x mod 8" unfolding take_bit_eq_mod by (simp add: unat_mod_distrib)
    then show ?thesis by (metis unat_eq_zero)
  qed
  have "unat (d - s) mod 8 = 0"
  proof (cases "unat s \<le> unat d")
    case True
    then have "unat (d - s) = unat d - unat s" by (simp add: unat_sub word_le_nat_alt)
    then show ?thesis using z m by (simp add: dvd_diff_nat dvd_imp_mod_0 mod_0_imp_dvd)
  next
    case False
    then have "unat (d - s) = unat d + 2 ^ 64 - unat s" unfolding unat_sub_if'[of d] by simp
    moreover have "8 dvd unat d" "8 dvd unat s" "8 dvd (2 ^ 64 :: nat)" using z m by (simp_all add: dvd_eq_mod_eq_0)
    ultimately show ?thesis by (simp add: dvd_diff_nat dvd_add dvd_imp_mod_0)
  qed
  then show ?thesis by presburger
qed

text \<open>
  C33. rt_memcpy, which copies words of eight bytes four at a time when both addresses are aligned, is the byte-wise
  copy from the first byte up, for every count below 2^31 and every overlap of the two areas.
\<close>

theorem memcpy_bytewise:
  assumes "unat count < 2 ^ 31"
  shows "rt_memcpy dst src count m = Some (dst, copy_up dst src (unat count) m)"
proof -
  let ?len = "ucast count :: u32"
  have u: "unat ?len = unat count" using assms by (simp add: unsigned_ucast_eq take_bit_nat_eq_self)
  have pos: "\<not> sint len < 0" if "unat len \<le> unat ?len" for len :: u32
  proof -
    have "sint (of_nat (unat len) :: u32) = int (unat len)" by (rule sint_small) (use that u assms in simp)
    then show ?thesis by simp
  qed
  show ?thesis
  proof (cases "\<not> as_long ?len < 32 \<and> \<not> (src AND 7 OR dst AND 7) \<noteq> 0")
    case True
    have g: "unat (dst - src) = 0 \<or> 8 \<le> unat (dst - src)" using True by (intro aligned_gap) simp
    obtain d1 s1 l1 m1 where 1: "memcpy_4words dst src ?len m = (d1, s1, l1, m1)" by (metis prod_cases4)
    obtain d2 s2 l2 m2 where 2: "memcpy_words d1 s1 l1 m1 = (d2, s2, l2, m2)" by (metis prod_cases4)
    have a: "d1 - s1 = dst - src" "copy_up d1 s1 (unat l1) m1 = copy_up dst src (unat ?len) m" "unat l1 \<le> unat ?len"
      using memcpy_4words_spec[OF 1 g] by simp_all
    have b: "copy_up d2 s2 (unat l2) m2 = copy_up d1 s1 (unat l1) m1" "unat l2 \<le> unat l1"
      using memcpy_words_spec[OF 2] g a(1) by simp_all
    have p: "\<not> sint l2 < 0" by (rule pos) (use a(3) b(2) in simp)
    show ?thesis unfolding rt_memcpy_def Let_def if_P[OF True] 1 2 prod.case if_not_P[OF p] b(1) a(2) u ..
  next
    case False
    have p: "\<not> sint ?len < 0" by (rule pos) simp
    show ?thesis unfolding rt_memcpy_def Let_def if_not_P[OF False] prod.case if_not_P[OF p] u ..
  qed
qed

theorem memcpy_bytewise_witness:
  "rt_memcpy 0x1000 0x1003 100 (\<lambda>x. ucast x) = Some (0x1000, copy_up 0x1000 0x1003 (unat (100 :: u64)) (\<lambda>x. ucast x))"
  by (rule memcpy_bytewise) simp

text \<open>
  The count is kept in an int: with 2^32 added to it, rt_memcpy still copies only the lower part, and reports
  nothing.
\<close>

theorem memcpy_truncates:
  "rt_memcpy dst src (count + 0x100000000) m = rt_memcpy dst src count m"
proof -
  have "(ucast (count + 0x100000000) :: u32) = ucast count"
  proof -
    have w: "count + word_of_int k = word_of_int (uint count + k)" for k
      unfolding wi_hom_add[symmetric] word_of_int_uint ..
    have "count + 0x100000000 = word_of_int (uint count + 0x100000000)" using w[of "0x100000000"] by (simp only: word_of_int_numeral)
    then have "(ucast (count + 0x100000000) :: u32) = word_of_int (uint count + 0x100000000)" by (simp only: ucast_of_int)
    also have "\<dots> = word_of_int (uint count) + word_of_int 0x100000000" by (rule wi_hom_add[symmetric])
    also have "(word_of_int 0x100000000 :: u32) = 0" by simp
    finally show ?thesis unfolding ucast_eq[of count] by (simp only: add_0_right)
  qed
  then show ?thesis by (simp only: rt_memcpy_def)
qed

section \<open>rt_memmove\<close>

lemma copy_down_moved:
  "n \<le> 2 ^ 64 \<Longrightarrow> unat (s - d) = 0 \<or> n \<le> unat (s - d) \<Longrightarrow>
     copy_down (d + of_nat n) (s + of_nat n) n m = bytes_moved d s n m"
proof (induction n arbitrary: m)
  case (Suc n)
  let ?k = "of_nat n :: u64"
  have u: "unat ?k = n" by (rule unat_of_nat_small) (use Suc.prems(1) in simp)
  have "copy_down (d + of_nat (Suc n)) (s + of_nat (Suc n)) (Suc n) m = copy_down (d + ?k) (s + ?k) n (m(d + ?k := m (s + ?k)))"
    by (simp add: algebra_simps)
  also have "\<dots> = bytes_moved d s n (m(d + ?k := m (s + ?k)))" by (rule Suc.IH) (use Suc.prems in auto)
  also have "\<dots> = bytes_moved d s (Suc n) m"
  proof
    fix x
    consider (below) "unat (x - d) < n" | (at) "unat (x - d) = n" | (above) "n < unat (x - d)" by linarith
    then show "bytes_moved d s n (m(d + ?k := m (s + ?k))) x = bytes_moved d s (Suc n) m x"
    proof cases
      case below
      have "s + (x - d) \<noteq> d + ?k"
      proof
        assume "s + (x - d) = d + ?k"
        then have g: "s - d = ?k - (x - d)" by (simp add: algebra_simps)
        have "unat (?k - (x - d)) = n - unat (x - d)" using below u by (simp add: unat_sub word_le_nat_alt)
        then show False using Suc.prems(2) below g by auto
      qed
      then show ?thesis using below by (simp add: bytes_moved_def)
    next
      case at
      then have k: "x - d = ?k" using u by (simp add: word_unat_eq_iff)
      then have "x = d + ?k" by (simp add: algebra_simps)
      then show ?thesis using at k by (simp add: bytes_moved_def)
    next
      case above
      then have "x \<noteq> d + ?k" using u by auto
      then show ?thesis using above by (simp add: bytes_moved_def)
    qed
  qed
  finally show ?case .
qed (simp add: bytes_moved_def)

text \<open>
  C34. rt_memmove copies as if through a second buffer, whatever the overlap: as long as neither area runs past the end
  of the address space, every byte of the destination gets what the corresponding byte of the source held before, and
  no other byte changes.
\<close>

theorem memmove_simultaneous:
  assumes "unat src + unat n < 2 ^ 64" "unat dest + unat n \<le> 2 ^ 64"
  shows "rt_memmove dest src n m = (dest, \<lambda>x. if x - dest < n then m (src + (x - dest)) else m x)"
proof -
  have m: "bytes_moved dest src (unat n) m = (\<lambda>x. if x - dest < n then m (src + (x - dest)) else m x)"
    by (simp add: bytes_moved_def word_less_nat_alt)
  have e: "unat (src + n) = unat src + unat n" using assms(1) by (simp add: unat_plus_if')
  show ?thesis
  proof (cases "src < dest \<and> dest < src + n")
    case True
    have "unat (src - dest) = unat src + 2 ^ 64 - unat dest"
      unfolding unat_sub_if'[of src] using True by (simp add: word_less_nat_alt)
    then have "unat n \<le> unat (src - dest)" using assms(2) by simp
    then have "copy_down (dest + of_nat (unat n)) (src + of_nat (unat n)) (unat n) m = bytes_moved dest src (unat n) m"
      by (intro copy_down_moved) (simp_all add: less_imp_le[OF unat_len, simplified])
    then show ?thesis using True m by (simp add: rt_memmove_def)
  next
    case False
    have "unat (dest - src) = 0 \<or> unat n \<le> unat (dest - src)"
    proof (cases "unat src \<le> unat dest")
      case True
      then have d: "unat (dest - src) = unat dest - unat src" by (simp add: unat_sub word_le_nat_alt)
      have "unat src < unat dest \<longrightarrow> unat src + unat n \<le> unat dest" using False e by (auto simp: word_less_nat_alt)
      then show ?thesis using d True by auto
    next
      case less: False
      then have "unat (dest - src) = unat dest + 2 ^ 64 - unat src" unfolding unat_sub_if'[of dest] by simp
      then show ?thesis using assms(1) by simp
    qed
    then have "copy_up dest src (unat n) m = bytes_moved dest src (unat n) m" by (intro copy_up_moved) (simp_all add: less_imp_le[OF unat_len, simplified])
    then show ?thesis using False m by (auto simp: rt_memmove_def)
  qed
qed

theorem memmove_simultaneous_witness:
  "rt_memmove 0x1001 0x1000 3 (\<lambda>x. ucast x) =
     (0x1001, \<lambda>x. if x - 0x1001 < 3 then ucast (0x1000 + (x - 0x1001) :: u64) else ucast x)"
  by (rule memmove_simultaneous) simp_all

section \<open>rt_memcmp and the string routines\<close>

lemma memcmp_zero:
  "memcmp_loop a b n 0 m = 0 \<longleftrightarrow> (\<forall>i<n. m (a + of_nat i) = m (b + of_nat i))"
proof (induction n arbitrary: a b)
  case (Suc n)
  have "(\<forall>i<Suc n. m (a + of_nat i) = m (b + of_nat i)) \<longleftrightarrow>
      m a = m b \<and> (\<forall>i<n. m (a + 1 + of_nat i) = m (b + 1 + of_nat i))"
    by (simp only: All_less_Suc2) (simp add: add.assoc)
  then show ?case by (simp only: Suc.IH[symmetric]) (simp add: Let_def word_uint_eq_iff[symmetric])
qed simp

text \<open>The string of bytes \<open>xs\<close> at address \<open>a\<close>, with its terminating NUL.\<close>

definition cstr :: "u64 \<Rightarrow> u8 list \<Rightarrow> memory \<Rightarrow> bool" where
  "cstr a xs m \<longleftrightarrow> (\<forall>i<List.length xs. m (a + of_nat i) = xs ! i \<and> xs ! i \<noteq> 0) \<and> m (a + of_nat (List.length xs)) = 0"

lemma cstr_Cons: "cstr a (x # xs) m \<longleftrightarrow> m a = x \<and> x \<noteq> 0 \<and> cstr (a + 1) xs m"
  unfolding cstr_def List.list.size by (simp add: All_less_Suc2 add.assoc)

lemma cstr_Nil: "cstr a [] m \<longleftrightarrow> m a = 0"
  by (simp add: cstr_def)

lemma strlen_loop_cstr: "cstr sc xs m \<Longrightarrow> strlen_loop s sc m = Some (sc + of_nat (List.length xs) - s)"
proof (induction xs arbitrary: sc)
  case Nil
  then show ?case by (subst strlen_loop.simps) (simp add: cstr_Nil)
next
  case (Cons x xs)
  have "strlen_loop s sc m = strlen_loop s (sc + 1) m"
    using Cons.prems by (subst strlen_loop.simps) (simp add: cstr_Cons)
  then show ?case using Cons.IH[of "sc + 1"] Cons.prems by (simp add: cstr_Cons add.assoc)
qed

lemma strlen_cstr: "cstr s xs m \<Longrightarrow> rt_strlen s m = Some (of_nat (List.length xs))"
  by (simp add: rt_strlen_def strlen_loop_cstr)

lemma strlen_int:
  assumes "List.length xs < 2 ^ 31"
  shows "sint (ucast (of_nat (List.length xs) :: u64) :: u32) = int (List.length xs)"
proof -
  have "(ucast (of_nat (List.length xs) :: u64) :: u32) = of_nat (List.length xs)"
    using ucast_of_int[of "int (List.length xs)"] by simp
  then show ?thesis using assms by (simp add: sint_small)
qed

subsection \<open>rt_strstr\<close>

text \<open>The first position at which \<open>ys\<close> stands in \<open>xs\<close>.\<close>

definition first_at :: "'a list \<Rightarrow> 'a list \<Rightarrow> nat option" where
  "first_at ys xs = find (\<lambda>i. take (List.length ys) (drop i xs) = ys) [0..<Suc (List.length xs)]"

lemma find_map_Suc: "find P (map Suc xs) = map_option Suc (find (\<lambda>i. P (Suc i)) xs)"
  by (induction xs) simp_all

lemma first_at_Cons:
  "first_at ys (x # xs) = (if take (List.length ys) (x # xs) = ys then Some 0 else map_option Suc (first_at ys xs))"
proof -
  have "[0..<Suc (List.length (x # xs))] = 0 # map Suc [0..<Suc (List.length xs)]"
    by (simp add: upt_conv_Cons map_Suc_upt del: upt_Suc)
  then show ?thesis by (simp only: first_at_def find.simps find_map_Suc drop0 drop_Suc_Cons)
qed

lemma first_at_short: "List.length xs < List.length ys \<Longrightarrow> first_at ys xs = None"
  unfolding first_at_def find_None_iff
  by (metis length_take length_drop diff_le_self le_trans min.cobounded1 min.cobounded2 not_less)

lemma memcmp_prefix:
  assumes "cstr a xs m" "cstr b ys m" "List.length ys \<le> List.length xs" "List.length ys < 2 ^ 31"
  shows "rt_memcmp a b (of_int (int (List.length ys))) m = 0 \<longleftrightarrow> take (List.length ys) xs = ys"
proof -
  have u: "unat (of_int (int (List.length ys)) :: u64) = List.length ys"
    unfolding of_int_of_nat_eq by (rule unat_of_nat_small) (use assms(4) in simp)
  have "rt_memcmp a b (of_int (int (List.length ys))) m = 0 \<longleftrightarrow> (\<forall>i<List.length ys. xs ! i = ys ! i)"
    unfolding rt_memcmp_def u memcmp_zero using assms(1-3) by (auto simp: cstr_def)
  also have "\<dots> \<longleftrightarrow> take (List.length ys) xs = ys"
    using assms(3) by (simp add: list_eq_iff_nth_eq)
  finally show ?thesis .
qed

lemma strstr_loop_first:
  "cstr s1 xs m \<Longrightarrow> cstr s2 ys m \<Longrightarrow> ys \<noteq> [] \<Longrightarrow> List.length ys < 2 ^ 31 \<Longrightarrow>
     strstr_loop s1 s2 (int (List.length xs)) (int (List.length ys)) m =
       (case first_at ys xs of Some i \<Rightarrow> s1 + of_nat i | None \<Rightarrow> 0)"
proof (induction xs arbitrary: s1)
  case Nil
  have "\<not> int (List.length ys) \<le> int (List.length ([] :: u8 list))" using Nil.prems(3) by simp
  then show ?case using Nil.prems(3) by (subst strstr_loop.simps) (simp add: first_at_short)
next
  case (Cons x xs)
  show ?case
  proof (cases "List.length ys \<le> List.length (x # xs)")
    case True
    have c: "cstr (s1 + 1) xs m" using Cons.prems(1) by (simp add: cstr_Cons)
    note memcmp_prefix[OF Cons.prems(1,2) True Cons.prems(4)]
    moreover have "strstr_loop (s1 + 1) s2 (int (List.length xs)) (int (List.length ys)) m =
        (case first_at ys xs of Some i \<Rightarrow> s1 + 1 + of_nat i | None \<Rightarrow> 0)"
      using Cons.IH[OF c] Cons.prems by simp
    ultimately show ?thesis using True
      by (subst strstr_loop.simps) (auto simp: first_at_Cons add.assoc split: option.split simp del: strstr_loop.simps)
  next
    case False
    then show ?thesis by (subst strstr_loop.simps) (simp add: first_at_short)
  qed
qed

text \<open>
  rt_strstr returns the address of the first occurrence of the second string in the first, and the null pointer
  when there is none, for strings shorter than 2^31.
\<close>

theorem strstr_first:
  assumes "cstr s1 xs m" "cstr s2 ys m" "List.length xs < 2 ^ 31" "List.length ys < 2 ^ 31"
  shows "rt_strstr s1 s2 m = Some (case first_at ys xs of Some i \<Rightarrow> s1 + of_nat i | None \<Rightarrow> 0)"
proof (cases "ys = []")
  case True
  then have "first_at ys xs = Some 0" by (simp add: first_at_def upt_conv_Cons del: upt_Suc)
  then show ?thesis using True by (simp add: rt_strstr_def strlen_cstr[OF assms(2)])
next
  case False
  then show ?thesis
    using strstr_loop_first[OF assms(1,2) False assms(4)]
    by (simp add: rt_strstr_def strlen_cstr[OF assms(1)] strlen_cstr[OF assms(2)] strlen_int[OF assms(3)] strlen_int[OF assms(4)] Let_def
        del: strstr_loop.simps)
qed

definition text_at :: "u64 \<Rightarrow> u8 list \<Rightarrow> memory \<Rightarrow> memory" where
  "text_at a xs m = (\<lambda>x. if unat (x - a) < List.length xs then xs ! unat (x - a) else m x)"

theorem strstr_first_witness:
  "rt_strstr 0x100 0x200 (text_at 0x100 [97, 98, 98, 99] (text_at 0x200 [98, 99] (\<lambda>_. 0))) = Some (0x100 + of_nat 2)"
proof -
  have "cstr 0x100 [97, 98, 98, 99] (text_at 0x100 [97, 98, 98, 99] (text_at 0x200 [98, 99] (\<lambda>_. 0)))"
    "cstr 0x200 [98, 99] (text_at 0x100 [97, 98, 98, 99] (text_at 0x200 [98, 99] (\<lambda>_. 0)))"
    by (simp_all add: cstr_Cons cstr_Nil text_at_def)
  from strstr_first[OF this] show ?thesis by (simp add: first_at_def upt_rec)
qed

subsection \<open>rt_strncpy and rt_strncmp\<close>

lemma text_at_Nil [simp]: "text_at a [] m = m"
  by (simp add: text_at_def)

lemma text_at_Cons:
  assumes "List.length xs < 2 ^ 64"
  shows "text_at a (x # xs) m = text_at (a + 1) xs (m(a := x))"
proof
  fix y
  have o: "unat (y - (a + 1)) < List.length xs \<longleftrightarrow> 1 \<le> unat (y - a) \<and> unat (y - a) < Suc (List.length xs)"
    using off_shift[of 1 "List.length xs" y a] assms by simp
  show "text_at a (x # xs) m y = text_at (a + 1) xs (m(a := x)) y"
  proof (cases "y = a")
    case True
    then show ?thesis using o by (simp add: text_at_def)
  next
    case False
    then have z: "unat (y - a) \<noteq> 0" by (simp add: off_zero)
    have "unat (y - (a + 1)) = unat (y - a) - 1" using z unat_minus_one[of "y - a"] by (simp add: diff_diff_eq unat_eq_0)
    then show ?thesis using o z False by (simp add: text_at_def nth_Cons')
  qed
qed

lemma strncpy_pad_text: "n \<le> 2 ^ 64 \<Longrightarrow> strncpy_pad d n m = text_at d (replicate n 0) m"
  by (induction n arbitrary: d m) (simp_all add: text_at_Cons)

lemma strncpy_loop_text:
  "cstr s xs m \<Longrightarrow> \<forall>i\<le>List.length xs. n \<le> unat (s + of_nat i - d) \<Longrightarrow> n \<le> 2 ^ 64 \<Longrightarrow>
     strncpy_loop d s n m = text_at d (take n (xs @ replicate n 0)) m"
proof (induction n arbitrary: d s xs m)
  case (Suc n)
  show ?case
  proof (cases xs)
    case Nil
    then have "m s = 0" using Suc.prems(1) by (simp add: cstr_Nil)
    then show ?thesis using Nil Suc.prems(3) by (simp add: text_at_Cons strncpy_pad_text)
  next
    case (Cons y ys)
    have ms: "m s = y" "y \<noteq> 0" "cstr (s + 1) ys m" using Suc.prems(1) Cons by (simp_all add: cstr_Cons)
    have far: "Suc n \<le> unat (s + 1 + of_nat i - d)" if "i \<le> List.length ys" for i
      using Suc.prems(2)[rule_format, of "Suc i"] that Cons by (simp add: add.assoc)
    have "s + 1 + of_nat i \<noteq> d" if "i \<le> List.length ys" for i using far[OF that] by auto
    then have c: "cstr (s + 1) ys (m(d := y))" using ms(3) by (simp add: cstr_def)
    have e: "s + 1 + of_nat i - (d + 1) = s + of_nat i - d" for i by simp
    have f: "\<forall>i\<le>List.length ys. n \<le> unat (s + 1 + of_nat i - (d + 1))"
      unfolding e using Suc.prems(2) Cons by (metis Suc_leD le_SucI List.list.size(4) add_Suc_right add_0_right)
    have "strncpy_loop (d + 1) (s + 1) n (m(d := y)) = text_at (d + 1) (take n (ys @ replicate n 0)) (m(d := y))"
      by (rule Suc.IH[OF c f]) (use Suc.prems(3) in simp)
    moreover have "take n (ys @ replicate (Suc n) 0) = take n (ys @ replicate n (0 :: u8))"
      unfolding take_append take_replicate by (simp add: min_def)
    ultimately show ?thesis using Cons ms(1,2) Suc.prems(3) by (simp add: text_at_Cons)
  qed
qed simp

lemma strncpy_pads:
  assumes "cstr src xs m" "\<forall>i\<le>List.length xs. unat n \<le> unat (src + of_nat i - dst)"
  shows "rt_strncpy dst src n m = (dst, text_at dst (take (unat n) (xs @ replicate (unat n) 0)) m)"
  using strncpy_loop_text[OF assms] less_imp_le[OF unat_len[of n]] by (simp add: rt_strncpy_def unat_eq_0)

lemma strncmp_zero:
  "cstr a xs m \<Longrightarrow> cstr b ys m \<Longrightarrow> strncmp_loop a b n 0 m = 0 \<longleftrightarrow> take n xs = take n ys"
proof (induction n arbitrary: a b xs ys)
  case (Suc n)
  show ?case
    using Suc.prems Suc.IH[of "a + 1" "tl xs" "b + 1" "tl ys"]
    by (cases xs; cases ys) (auto simp: cstr_Cons cstr_Nil Let_def)
qed simp

lemma sint_byte_neg: "128 \<le> (x :: int) \<Longrightarrow> x < 256 \<Longrightarrow> sint (word_of_int x :: u8) < 0"
proof -
  assume "128 \<le> x" "x < 256"
  then have "x div 128 = 1" by arith
  then show ?thesis by (simp add: sint_sbintrunc' bit_iff_odd)
qed

text \<open>
  The result of rt_strncmp goes through a signed char: when the first bytes differ by 128 or more, its sign is the
  opposite of that of rt_strcmp on the same strings.
\<close>

theorem strncmp_sign_flips:
  assumes "count \<noteq> 0" "unat (m ct) + 128 \<le> unat (m cs)"
  shows "rt_strncmp cs ct count m < 0 \<and> (\<exists>v>0. rt_strcmp cs ct m = Some v)"
proof -
  have ne: "m cs \<noteq> m ct" using assms(2) by auto
  have lt: "unat (m cs) < 256" using unsigned_less[of "m cs"] by simp
  have r: "m cs - m ct = word_of_int (int (unat (m cs)) - int (unat (m ct)))"
    by (simp flip: wi_hom_sub)
  obtain k where k: "unat count = Suc k" using assms(1) by (metis not0_implies_Suc unat_eq_zero)
  have "rt_strncmp cs ct count m = sint (m cs - m ct)" using ne by (simp add: rt_strncmp_def k Let_def)
  also have "\<dots> < 0" unfolding r by (rule sint_byte_neg) (use assms(2) lt in linarith)+
  finally have "rt_strncmp cs ct count m < 0" .
  moreover have "rt_strcmp cs ct m = Some (int (unat (m cs)) - int (unat (m ct)))"
    using ne by (subst rt_strcmp.simps) simp
  moreover have "0 < int (unat (m cs)) - int (unat (m ct))" using assms(2) by linarith
  ultimately show ?thesis by blast
qed

theorem strncmp_sign_flips_witness:
  "rt_strncmp 0 8 4 (text_at 0 [0xC3, 0xA9] (text_at 8 [0x41] (\<lambda>_. 0))) < 0 \<and>
     (\<exists>v>0. rt_strcmp 0 8 (text_at 0 [0xC3, 0xA9] (text_at 8 [0x41] (\<lambda>_. 0))) = Some v)"
  by (rule strncmp_sign_flips) (simp_all add: text_at_def)

end
