(* ===== verification/RT_Printf.thy ===== *)
theory RT_Printf
  imports RT_Kservice_Props
begin

text \<open>
  Formatted printing, \<open>print_number\<close>, \<open>rt_vsnprintf\<close> and its callers in \<open>src/rt-thread/src/kservice.c\<close>, with
  \<open>RT_PRINTF_PRECISION\<close> and without \<open>RT_PRINTF_LONGLONG\<close> and \<open>RT_PRINTF_SPECIAL\<close>, as the file sets them: \<open>long\<close> has
  64 bits, \<open>num\<close> of \<open>rt_vsnprintf\<close> 32. The output goes to the memory at \<open>str\<close> as long as \<open>str < end\<close>.

  The format and the strings to print are lists of their bytes before the terminating NUL; they are constant, which
  in C means that they do not overlap the buffer. An argument of another type than the directive asks for, a missing
  argument and a number in the format above the greatest \<open>int\<close> are undefined in C, here \<open>None\<close>. The counters of the
  padding are integers: they leave the range of \<open>int\<close> only for a precision next to its end.
\<close>

unbundle bit_operations_syntax

type_synonym out = "u64 \<times> memory"

abbreviation bytes :: "string \<Rightarrow> u8 list" where
  "bytes cs \<equiv> map of_char cs"

fun put_char :: "u64 \<Rightarrow> u8 \<Rightarrow> out \<Rightarrow> out" where
  "put_char e c (str, m) = (str + 1, if str < e then m(str := c) else m)"

section \<open>print_number\<close>

abbreviation ZEROPAD :: u8 where "ZEROPAD \<equiv> 1"
abbreviation SIGN :: u8 where "SIGN \<equiv> 2"
abbreviation PLUS :: u8 where "PLUS \<equiv> 4"
abbreviation SPACE :: u8 where "SPACE \<equiv> 8"
abbreviation LEFT :: u8 where "LEFT \<equiv> 16"
abbreviation SPECIAL :: u8 where "SPECIAL \<equiv> 32"
abbreviation LARGE :: u8 where "LARGE \<equiv> 64"

definition divide_num :: "u64 \<Rightarrow> int \<Rightarrow> u64 \<times> u64" where
  "divide_num n base = (if base = 10 then (n mod 10, n div 10) else (n mod 16, n div 16))"

lemma divide_num_less: "n \<noteq> 0 \<Longrightarrow> divide_num n base = (r, q) \<Longrightarrow> unat q < unat n"
  by (auto simp: divide_num_def unat_div_distrib unat_eq_0 unat_gt_0 split: if_splits intro!: div_less_dividend)

function number_loop :: "u8 list \<Rightarrow> int \<Rightarrow> u64 \<Rightarrow> u8 list" where
  "number_loop digits base num =
     (if num \<noteq> 0 then case divide_num num base of (r, q) \<Rightarrow> digits ! unat r # number_loop digits base q else [])"
  by pat_completeness auto
termination by (relation "measure (\<lambda>(ds, b, n). unat n)") (auto dest: divide_num_less[OF _ sym])

function pad_loop :: "u64 \<Rightarrow> u8 \<Rightarrow> int \<Rightarrow> out \<Rightarrow> int \<times> out" where
  "pad_loop e c sz p = (if sz > 0 then pad_loop e c (sz - 1) (put_char e c p) else (sz - 1, p))"
  by pat_completeness auto
termination by (relation "measure (\<lambda>(e, c, sz, p). nat sz)") simp_all

function zero_loop :: "u64 \<Rightarrow> int \<Rightarrow> int \<Rightarrow> out \<Rightarrow> out" where
  "zero_loop e i precision p =
     (if i < precision then zero_loop e i (precision - 1) (put_char e (of_char CHR ''0'') p) else p)"
  by pat_completeness auto
termination by (relation "measure (\<lambda>(e, i, k, p). nat (k - i))") simp_all

fun digit_loop :: "u64 \<Rightarrow> u8 list \<Rightarrow> nat \<Rightarrow> int \<Rightarrow> out \<Rightarrow> out" where
  "digit_loop e tmp 0 precision_bak p = p"
| "digit_loop e tmp (Suc i) precision_bak p =
     (if precision_bak \<noteq> 0 then digit_loop e tmp i precision_bak (put_char e (tmp ! i) p) else p)"

definition digit_table :: "u8 \<Rightarrow> u8 list" where
  "digit_table typ = bytes (if typ AND LARGE \<noteq> 0 then ''0123456789ABCDEF'' else ''0123456789abcdef'')"

definition get_sign :: "u8 \<Rightarrow> u64 \<Rightarrow> u8 \<times> u64" where
  "get_sign typ num =
     (if typ AND SIGN \<noteq> 0
      then if sint num < 0 then (of_char CHR ''-'', - num)
           else if typ AND PLUS \<noteq> 0 then (of_char CHR ''+'', num)
           else if typ AND SPACE \<noteq> 0 then (of_char CHR '' '', num)
           else (0, num)
      else (0, num))"

definition print_number :: "u64 \<Rightarrow> u64 \<Rightarrow> int \<Rightarrow> int \<Rightarrow> int \<Rightarrow> u8 \<Rightarrow> out \<Rightarrow> out" where
  "print_number e num base s precision typ p =
     (let digits = digit_table typ;
          typ1 = (if typ AND LEFT \<noteq> 0 then typ AND NOT ZEROPAD else typ);
          c = of_char (if typ1 AND ZEROPAD \<noteq> 0 then CHR ''0'' else CHR '' '');
          (sign, num1) = get_sign typ1 num;
          tmp = (if num1 = 0 then [of_char CHR ''0''] else number_loop digits base num1);
          i = int (List.length tmp);
          precision1 = (if i > precision then i else precision);
          size0 = s - precision1;
          (size1, p1) = (if typ1 AND (ZEROPAD OR LEFT) = 0
                         then pad_loop e (of_char CHR '' '') (if sign \<noteq> 0 \<and> size0 > 0 then size0 - 1 else size0) p
                         else (size0, p));
          (size2, p2) = (if sign \<noteq> 0 then (size1 - 1, put_char e sign p1) else (size1, p1));
          (size3, p3) = (if typ1 AND LEFT = 0 then pad_loop e c size2 p2 else (size2, p2));
          p4 = zero_loop e i precision1 p3;
          p5 = digit_loop e tmp (List.length tmp) precision p4
      in snd (pad_loop e (of_char CHR '' '') size3 p5))"

section \<open>The directives of a format\<close>

text \<open>The arguments after the format: an \<open>int\<close>, a pointer for \<open>%p\<close>, a string for \<open>%s\<close>, \<open>None\<close> for the null pointer.\<close>

datatype va = VInt u32 | VPtr u64 | VStr "u8 list option"

fun va_int :: "va list \<Rightarrow> (u32 \<times> va list) option" where
  "va_int (VInt x # args) = Some (x, args)"
| "va_int _ = None"

fun va_ptr :: "va list \<Rightarrow> (u64 \<times> va list) option" where
  "va_ptr (VPtr x # args) = Some (x, args)"
| "va_ptr _ = None"

fun va_str :: "va list \<Rightarrow> (u8 list option \<times> va list) option" where
  "va_str (VStr x # args) = Some (x, args)"
| "va_str _ = None"

text \<open>The byte that a string pointer points to.\<close>

fun cur :: "u8 list \<Rightarrow> u8" where
  "cur [] = 0"
| "cur (c # s) = c"

definition ISDIGIT :: "u8 \<Rightarrow> bool" where
  "ISDIGIT c \<longleftrightarrow> (ucast c :: u32) - of_char CHR ''0'' < 10"

fun skip_atoi :: "int \<Rightarrow> u8 list \<Rightarrow> (int \<times> u8 list) option" where
  "skip_atoi i [] = Some (i, [])"
| "skip_atoi i (c # s) =
     (if ISDIGIT c
      then if i * 10 + uint c \<le> 2147483647 then skip_atoi (i * 10 + uint c - of_char CHR ''0'') s else None
      else Some (i, c # s))"

fun get_flags :: "u8 \<Rightarrow> u8 list \<Rightarrow> u8 \<times> u8 list" where
  "get_flags flags [] = (flags, [])"
| "get_flags flags (c # fmt) =
     (if c = of_char CHR ''-'' then get_flags (flags OR LEFT) fmt
      else if c = of_char CHR ''+'' then get_flags (flags OR PLUS) fmt
      else if c = of_char CHR '' '' then get_flags (flags OR SPACE) fmt
      else if c = of_char CHR ''#'' then get_flags (flags OR SPECIAL) fmt
      else if c = of_char CHR ''0'' then get_flags (flags OR ZEROPAD) fmt
      else (flags, c # fmt))"

definition get_width :: "u8 \<Rightarrow> u8 list \<Rightarrow> va list \<Rightarrow> (int \<times> u8 \<times> u8 list \<times> va list) option" where
  "get_width flags fmt args =
     (if ISDIGIT (cur fmt) then do { (w, fmt1) \<leftarrow> skip_atoi 0 fmt; Some (w, flags, fmt1, args) }
      else if cur fmt = of_char CHR ''*'' then
        do { (x, args1) \<leftarrow> va_int args;
             if sint x < 0
             then if sint x = -2147483648 then None else Some (- sint x, flags OR LEFT, tl fmt, args1)
             else Some (sint x, flags, tl fmt, args1) }
      else Some (-1, flags, fmt, args))"

definition get_precision :: "u8 list \<Rightarrow> va list \<Rightarrow> (int \<times> u8 list \<times> va list) option" where
  "get_precision fmt args =
     (if cur fmt = of_char CHR ''.'' then
        do { (k, fmt2, args2) \<leftarrow>
               (let fmt1 = tl fmt
                in if ISDIGIT (cur fmt1) then do { (k, fmt2) \<leftarrow> skip_atoi 0 fmt1; Some (k, fmt2, args) }
                   else if cur fmt1 = of_char CHR ''*'' then do { (x, args1) \<leftarrow> va_int args; Some (sint x, tl fmt1, args1) }
                   else Some (-1, fmt1, args));
             Some (if k < 0 then 0 else k, fmt2, args2) }
      else Some (-1, fmt, args))"

definition get_qualifier :: "u8 list \<Rightarrow> u8 \<times> u8 list" where
  "get_qualifier fmt = (if cur fmt \<in> set (bytes ''hl'') then (cur fmt, tl fmt) else (0, fmt))"

function lead_loop :: "u64 \<Rightarrow> int \<Rightarrow> out \<Rightarrow> int \<times> out" where
  "lead_loop e field_width p =
     (if field_width - 1 > 0 then lead_loop e (field_width - 1) (put_char e (of_char CHR '' '') p) else (field_width - 1, p))"
  by pat_completeness auto
termination by (relation "measure (\<lambda>(e, w, p). nat w)") simp_all

definition print_char :: "u64 \<Rightarrow> u8 \<Rightarrow> int \<Rightarrow> u8 \<Rightarrow> out \<Rightarrow> out" where
  "print_char e flags field_width c p =
     (let (w1, p1) = (if flags AND LEFT = 0 then lead_loop e field_width p else (field_width, p))
      in snd (lead_loop e w1 (put_char e c p1)))"

function width_loop :: "u64 \<Rightarrow> int \<Rightarrow> int \<Rightarrow> out \<Rightarrow> int \<times> out" where
  "width_loop e len field_width p =
     (if len < field_width then width_loop e len (field_width - 1) (put_char e (of_char CHR '' '') p) else (field_width - 1, p))"
  by pat_completeness auto
termination by (relation "measure (\<lambda>(e, l, w, p). nat (w - l))") simp_all

fun char_loop :: "u64 \<Rightarrow> nat \<Rightarrow> u8 list \<Rightarrow> out \<Rightarrow> out" where
  "char_loop e 0 s p = p"
| "char_loop e (Suc k) s p = char_loop e k (tl s) (put_char e (cur s) p)"

definition print_string :: "u64 \<Rightarrow> u8 \<Rightarrow> int \<Rightarrow> int \<Rightarrow> u8 list option \<Rightarrow> out \<Rightarrow> out" where
  "print_string e flags field_width precision arg p =
     (let s = (case arg of None \<Rightarrow> bytes ''(NULL)'' | Some s \<Rightarrow> s);
          len0 = sint (of_nat (List.length s) :: u32);
          len = (if precision > 0 \<and> len0 > precision then precision else len0);
          (w1, p1) = (if flags AND LEFT = 0 then width_loop e len field_width p else (field_width, p));
          p2 = char_loop e (nat len) s p1
      in snd (width_loop e len w1 p2))"

definition get_base :: "u8 \<Rightarrow> int" where
  "get_base c = (if c = of_char CHR ''o'' then 8 else if c \<in> set (bytes ''Xx'') then 16 else 10)"

definition get_num :: "u8 \<Rightarrow> u8 \<Rightarrow> u32 \<Rightarrow> u32" where
  "get_num flags qualifier x =
     (if qualifier = of_char CHR ''h''
      then if flags AND SIGN \<noteq> 0 then scast (ucast x :: u16) else ucast (ucast x :: u16)
      else x)"

text \<open>
  The switch on the conversion: the output, the rest of the format after the increment of the \<open>for\<close> loop, and the
  arguments left.
\<close>

definition conversion :: "u64 \<Rightarrow> u8 \<Rightarrow> int \<Rightarrow> int \<Rightarrow> u8 \<Rightarrow> u8 list \<Rightarrow> va list \<Rightarrow> out \<Rightarrow> (out \<times> u8 list \<times> va list) option" where
  "conversion e flags field_width precision qualifier fmt args p =
     (let c = cur fmt in
      if c = of_char CHR ''c'' then
        do { (x, args1) \<leftarrow> va_int args; Some (print_char e flags field_width (ucast x) p, tl fmt, args1) }
      else if c = of_char CHR ''s'' then
        do { (x, args1) \<leftarrow> va_str args; Some (print_string e flags field_width precision x p, tl fmt, args1) }
      else if c = of_char CHR ''p'' then
        do { (x, args1) \<leftarrow> va_ptr args;
             let (w1, flags1) = (if field_width = -1 then (16, flags OR ZEROPAD) else (field_width, flags));
             Some (print_number e x 16 w1 precision flags1 p, tl fmt, args1) }
      else if c = of_char CHR ''%'' then Some (put_char e (of_char CHR ''%'') p, tl fmt, args)
      else if c \<in> set (bytes ''oXxdiu'') then
        let flags1 = (if c = of_char CHR ''X'' then flags OR LARGE
                      else if c \<in> set (bytes ''di'') then flags OR SIGN else flags)
        in do { (x, args1) \<leftarrow> va_int args;
                Some (print_number e (ucast (get_num flags1 qualifier x)) (get_base c) field_width precision flags1 p,
                      tl fmt, args1) }
      else let p1 = put_char e (of_char CHR ''%'') p
           in Some (if c \<noteq> 0 then put_char e c p1 else p1, tl fmt, args))"

text \<open>One directive, from the byte after its \<open>%\<close>.\<close>

definition directive :: "u64 \<Rightarrow> u8 list \<Rightarrow> va list \<Rightarrow> out \<Rightarrow> (out \<times> u8 list \<times> va list) option" where
  "directive e fmt args p =
     (let (flags, fmt1) = get_flags 0 fmt
      in do { (field_width, flags1, fmt2, args1) \<leftarrow> get_width flags fmt1 args;
              (precision, fmt3, args2) \<leftarrow> get_precision fmt2 args1;
              let (qualifier, fmt4) = get_qualifier fmt3;
              conversion e flags1 field_width precision qualifier fmt4 args2 p })"

lemma get_flags_shorter: "get_flags flags fmt = (f, r) \<Longrightarrow> List.length r \<le> List.length fmt"
  by (induction flags fmt rule: get_flags.induct) (auto split: if_splits)

lemma skip_atoi_shorter: "skip_atoi i s = Some (n, r) \<Longrightarrow> List.length r \<le> List.length s"
  by (induction i s rule: skip_atoi.induct) (auto split: if_splits)

lemma get_width_shorter: "get_width flags fmt args = Some (w, f, r, a) \<Longrightarrow> List.length r \<le> List.length fmt"
  by (auto simp: get_width_def Let_def bind_eq_Some_conv split: if_splits dest: skip_atoi_shorter)

lemma get_precision_shorter: "get_precision fmt args = Some (k, r, a) \<Longrightarrow> List.length r \<le> List.length fmt"
  by (auto simp: get_precision_def Let_def bind_eq_Some_conv split: if_splits dest!: skip_atoi_shorter)

lemma get_qualifier_shorter: "get_qualifier fmt = (q, r) \<Longrightarrow> List.length r \<le> List.length fmt"
  by (auto simp: get_qualifier_def split: if_splits)

lemma conversion_rest: "conversion e f w k q fmt args p = Some (p', r, a) \<Longrightarrow> r = tl fmt"
  by (auto simp: conversion_def Let_def bind_eq_Some_conv split: if_splits prod.splits)

lemma directive_shorter:
  assumes "directive e fmt args p = Some (p', r, a)"
  shows "List.length r \<le> List.length fmt"
proof -
  obtain f fmt1 where 1: "get_flags 0 fmt = (f, fmt1)" by (cases "get_flags 0 fmt")
  obtain w f1 fmt2 args1 k fmt3 args2 where
    2: "get_width f fmt1 args = Some (w, f1, fmt2, args1)" "get_precision fmt2 args1 = Some (k, fmt3, args2)"
    and c: "(case get_qualifier fmt3 of (q, fmt4) \<Rightarrow> conversion e f1 w k q fmt4 args2 p) = Some (p', r, a)"
    using assms 1 by (auto simp: directive_def bind_eq_Some_conv)
  obtain q fmt4 where 3: "get_qualifier fmt3 = (q, fmt4)" by (cases "get_qualifier fmt3")
  have "r = tl fmt4" using c 3 by (simp add: conversion_rest)
  then show ?thesis
    using get_flags_shorter[OF 1] get_width_shorter[OF 2(1)] get_precision_shorter[OF 2(2)] get_qualifier_shorter[OF 3] by simp
qed

section \<open>rt_vsnprintf and its callers\<close>

function vsnprintf_loop :: "u64 \<Rightarrow> u8 list \<Rightarrow> va list \<Rightarrow> out \<Rightarrow> out option" where
  "vsnprintf_loop e [] args p = Some p"
| "vsnprintf_loop e (c # fmt) args p =
     (if c \<noteq> of_char CHR ''%'' then vsnprintf_loop e fmt args (put_char e c p)
      else case directive e fmt args p of None \<Rightarrow> None | Some (p1, fmt1, args1) \<Rightarrow> vsnprintf_loop e fmt1 args1 p1)"
  by pat_completeness auto
termination by (relation "measure (\<lambda>(e, fmt, a, p). List.length fmt)") (auto dest: directive_shorter)

definition rt_vsnprintf :: "u64 \<Rightarrow> u64 \<Rightarrow> u8 list \<Rightarrow> va list \<Rightarrow> memory \<Rightarrow> (int \<times> memory) option" where
  "rt_vsnprintf buf sz fmt args m =
     (let (e, sz1) = (if buf + sz < buf then (-1, -1 - buf) else (buf + sz, sz))
      in do { (str, m1) \<leftarrow> vsnprintf_loop e fmt args (buf, m);
              let m2 = (if sz1 > 0 then if str < e then m1(str := 0) else m1(e - 1 := 0) else m1);
              Some (sint (ucast (str - buf) :: u32), m2) })"

definition rt_snprintf :: "u64 \<Rightarrow> u64 \<Rightarrow> u8 list \<Rightarrow> va list \<Rightarrow> memory \<Rightarrow> (int \<times> memory) option" where
  "rt_snprintf buf sz fmt args m = rt_vsnprintf buf sz fmt args m"

definition rt_vsprintf :: "u64 \<Rightarrow> u8 list \<Rightarrow> va list \<Rightarrow> memory \<Rightarrow> (int \<times> memory) option" where
  "rt_vsprintf buf fmt args m = rt_vsnprintf buf (-1) fmt args m"

definition rt_sprintf :: "u64 \<Rightarrow> u8 list \<Rightarrow> va list \<Rightarrow> memory \<Rightarrow> (int \<times> memory) option" where
  "rt_sprintf buf fmt args m = rt_vsprintf buf fmt args m"

text \<open>
  What \<open>rt_kprintf\<close> passes on: the bytes it writes to the console device, or, when no device is set, the address
  it hands to the hardware output.
\<close>

datatype console = To_Device "u8 list" | To_Hardware u64

definition RT_CONSOLEBUF_SIZE :: u64 where
  "RT_CONSOLEBUF_SIZE = 128"

definition rt_kprintf :: "bool \<Rightarrow> u64 \<Rightarrow> u8 list \<Rightarrow> va list \<Rightarrow> memory \<Rightarrow> (console \<times> memory) option" where
  "rt_kprintf device rt_log_buf fmt args m =
     do { (n, m1) \<leftarrow> rt_vsnprintf rt_log_buf (RT_CONSOLEBUF_SIZE - 1) fmt args m;
          let len = (of_int n :: u64);
          let len1 = (if len > RT_CONSOLEBUF_SIZE - 1 then RT_CONSOLEBUF_SIZE - 1 else len);
          Some (if device then To_Device (map (\<lambda>i. m1 (rt_log_buf + of_nat i)) [0..<unat len1]) else To_Hardware rt_log_buf, m1) }"

end
