(* ===== verification/RT_Printf_Props.thy ===== *)
theory RT_Printf_Props
  imports RT_Printf
begin

text \<open>
  What \<open>rt_vsnprintf\<close> prints, as a text that does not depend on the buffer, and how much of it the buffer gets.
\<close>

declare number_loop.simps [simp del] pad_loop.simps [simp del] zero_loop.simps [simp del]
  lead_loop.simps [simp del] width_loop.simps [simp del]

section \<open>The loops that pad\<close>

abbreviation put_text :: "u64 \<Rightarrow> u8 list \<Rightarrow> out \<Rightarrow> out" where
  "put_text e \<equiv> fold (put_char e)"

abbreviation spaces :: "int \<Rightarrow> u8 list" where
  "spaces k \<equiv> replicate (nat k) (of_char CHR '' '')"

lemma fold_more: "nat k = Suc n \<Longrightarrow> fold f (replicate (nat k) c) p = fold f (replicate n c) (f c p)"
  by simp

lemma pad_loop_text:
  "pad_loop e c sz p = (if sz > 0 then -1 else sz - 1, put_text e (replicate (nat sz) c) p)"
proof (induction e c sz p rule: pad_loop.induct)
  case (1 e c sz p)
  show ?case
  proof (cases "sz > 0")
    case True
    then have "nat sz = Suc (nat (sz - 1))" by simp
    then show ?thesis using True 1[OF True] by (subst pad_loop.simps) auto
  qed (subst pad_loop.simps, simp)
qed

lemma zero_loop_text:
  "zero_loop e i k p = put_text e (replicate (nat (k - i)) (of_char CHR ''0'')) p"
proof (induction e i k p rule: zero_loop.induct)
  case (1 e i k p)
  show ?case
  proof (cases "i < k")
    case True
    then have "nat (k - i) = Suc (nat (k - 1 - i))" by simp
    then show ?thesis using True 1[OF True] by (subst zero_loop.simps) simp
  qed (subst zero_loop.simps, simp)
qed

lemma lead_loop_text:
  "lead_loop e w p = (if w > 0 then 0 else w - 1, put_text e (spaces (w - 1)) p)"
proof (induction e w p rule: lead_loop.induct)
  case (1 e w p)
  show ?case
  proof (cases "w - 1 > 0")
    case True
    then have "nat (w - 1) = Suc (nat (w - 1 - 1))" by simp
    then show ?thesis using True 1[OF True] by (subst lead_loop.simps) simp
  qed (subst lead_loop.simps, simp)
qed

lemma width_loop_text:
  "width_loop e len w p = (if len < w then len - 1 else w - 1, put_text e (spaces (w - len)) p)"
proof (induction e len w p rule: width_loop.induct)
  case (1 e len w p)
  show ?case
  proof (cases "len < w")
    case True
    then have "nat (w - len) = Suc (nat (w - 1 - len))" by simp
    then show ?thesis using True 1[OF True] by (subst width_loop.simps) auto
  qed (subst width_loop.simps, simp)
qed

lemma digit_loop_text:
  "i \<le> List.length tmp \<Longrightarrow> digit_loop e tmp i k p = (if k \<noteq> 0 then put_text e (rev (take i tmp)) p else p)"
  by (induction i arbitrary: p) (simp_all add: take_Suc_conv_app_nth)

lemma char_loop_text: "k \<le> List.length s \<Longrightarrow> char_loop e k s p = put_text e (take k s) p"
proof (induction k arbitrary: s p)
  case (Suc k)
  then show ?case by (cases s) simp_all
qed simp

section \<open>The text of a directive\<close>

text \<open>The digits of a number, most significant first, and the number with sign, zeros and padding.\<close>

definition digits_of :: "u8 \<Rightarrow> int \<Rightarrow> u64 \<Rightarrow> u8 list" where
  "digits_of typ base num = (if num = 0 then [of_char CHR ''0''] else rev (number_loop (digit_table typ) base num))"

definition number_text :: "u64 \<Rightarrow> int \<Rightarrow> int \<Rightarrow> int \<Rightarrow> u8 \<Rightarrow> u8 list" where
  "number_text num base width precision typ =
     (let (sign, n) = get_sign typ num;
          sign_text = (if sign = 0 then [] else [sign]);
          ds = digits_of typ base n;
          zeros = replicate (nat (precision - int (List.length ds))) (of_char CHR ''0'');
          body = zeros @ (if precision = 0 then [] else ds);
          fill = nat (width - max precision (int (List.length ds)) - int (List.length sign_text))
      in if typ AND LEFT \<noteq> 0 then sign_text @ body @ replicate fill (of_char CHR '' '')
         else if typ AND ZEROPAD \<noteq> 0 then sign_text @ replicate fill (of_char CHR ''0'') @ body
         else replicate fill (of_char CHR '' '') @ sign_text @ body)"

lemma flag_clear:
  "((t :: u8) AND NOT ZEROPAD) AND LEFT = t AND LEFT" "((t :: u8) AND NOT ZEROPAD) AND SIGN = t AND SIGN"
  "((t :: u8) AND NOT ZEROPAD) AND PLUS = t AND PLUS" "((t :: u8) AND NOT ZEROPAD) AND SPACE = t AND SPACE"
  "((t :: u8) AND NOT ZEROPAD) AND LARGE = t AND LARGE" "((t :: u8) AND NOT ZEROPAD) AND ZEROPAD = 0"
  by (simp_all add: and.assoc)

lemma flag_both: "(t :: u8) AND (ZEROPAD OR LEFT) = 0 \<longleftrightarrow> t AND ZEROPAD = 0 \<and> t AND LEFT = 0"
  by (simp only: bit.conj_disj_distrib or_eq_0_iff)

lemma get_sign_clear: "get_sign (t AND NOT ZEROPAD) num = get_sign t num"
  by (simp only: get_sign_def flag_clear)

lemma sign_ne: "get_sign t num = (sign, n) \<Longrightarrow> sign \<noteq> 0 \<Longrightarrow> sign \<in> set (bytes ''-+ '')"
  by (auto simp: get_sign_def split: if_splits)

lemma nat_done:
  "nat (if (x :: int) > 0 then -1 else x - 1) = 0" "nat ((if (x :: int) > 0 then -1 else x - 1) - 1) = 0"
  "nat (if (x :: int) > 0 then x - 1 else x) = nat (x - 1)"
  by simp_all

lemma print_number_text: "print_number e num base w k t p = put_text e (number_text num base w k t) p"
proof -
  obtain sign n where sg: "get_sign t num = (sign, n)" by (cases "get_sign t num")
  define tmp where "tmp = (if n = 0 then [of_char CHR ''0''] else number_loop (digit_table t) base n)"
  have ds: "digits_of t base n = rev tmp" by (simp add: digits_of_def tmp_def)
  have dt: "digit_loop e tmp (List.length tmp) k q = put_text e (if k = 0 then [] else rev tmp) q" for q
    by (simp add: digit_loop_text)
  have mx: "(if int (List.length tmp) > k then int (List.length tmp) else k) = max k (int (List.length tmp))" by simp
  have tab: "digit_table (t AND NOT ZEROPAD) = digit_table t" by (simp only: digit_table_def flag_clear)
  have zeros: "nat (max k i - i) = nat (k - i)" for i :: int by simp
  note unfold = print_number_def number_text_def Let_def sg prod.case ds tmp_def[symmetric] mx pad_loop_text zero_loop_text dt
    fst_conv snd_conv nat_done List.length_rev fold_append o_apply zeros
  consider (space) "t AND ZEROPAD = 0" "t AND LEFT = 0" | (zero) "t AND ZEROPAD \<noteq> 0" "t AND LEFT = 0" | (left) "t AND LEFT \<noteq> 0"
    by blast
  then show ?thesis
  proof cases
    case space
    then have "t AND (ZEROPAD OR LEFT) = 0" by (simp only: flag_both simp_thms)
    then show ?thesis using space
      by (cases "sign = 0") (simp_all only: unfold simp_thms if_True if_False List.list.size nat_0 fold_simps, simp_all)
  next
    case zero
    then have "t AND (ZEROPAD OR LEFT) \<noteq> 0" by (simp only: flag_both simp_thms)
    then show ?thesis using zero
      by (cases "sign = 0") (simp_all only: unfold simp_thms if_True if_False List.list.size nat_0 fold_simps, simp_all)
  next
    case left
    then have "(t AND NOT ZEROPAD) AND (ZEROPAD OR LEFT) \<noteq> 0" by (simp only: flag_both flag_clear simp_thms)
    then show ?thesis using left
      by (cases "sign = 0")
        (simp_all only: unfold flag_clear get_sign_clear tab simp_thms if_True if_False List.list.size nat_0 fold_simps, simp_all)
  qed
qed

definition char_text :: "u8 \<Rightarrow> int \<Rightarrow> u8 \<Rightarrow> u8 list" where
  "char_text flags width c = (if flags AND LEFT = 0 then spaces (width - 1) @ [c] else c # spaces (width - 1))"

lemma print_char_text: "print_char e flags w c p = put_text e (char_text flags w c) p"
  by (simp add: print_char_def char_text_def lead_loop_text)

definition string_text :: "u8 \<Rightarrow> int \<Rightarrow> int \<Rightarrow> u8 list option \<Rightarrow> u8 list" where
  "string_text flags width precision arg =
     (let s = (case arg of None \<Rightarrow> bytes ''(NULL)'' | Some s \<Rightarrow> s);
          len0 = sint (of_nat (List.length s) :: u32);
          len = (if precision > 0 then min len0 precision else len0);
          body = take (nat len) s
      in if flags AND LEFT = 0 then spaces (width - len) @ body else body @ spaces (width - len))"

lemma int_of_len: "nat (sint (of_nat n :: u32)) \<le> n"
proof -
  have t: "take_bit 32 (int n) \<le> int n" by (simp only: take_bit_int_less_eq_self_iff of_nat_0_le_iff)
  have "sint (of_nat n :: u32) = take_bit 32 (int n) - 2 ^ 32 * of_bool (bit (int n) 31)"
    by (simp add: signed_of_nat signed_take_bit_eq_take_bit_minus)
  then have "sint (of_nat n :: u32) \<le> int n" using t by (simp split: if_splits)
  then show ?thesis by simp
qed

lemma print_string_text: "print_string e flags w k arg p = put_text e (string_text flags w k arg) p"
proof -
  define s where "s = (case arg of None \<Rightarrow> bytes ''(NULL)'' | Some s \<Rightarrow> s)"
  define len0 where "len0 = sint (of_nat (List.length s) :: u32)"
  define len where "len = (if k > 0 then min len0 k else len0)"
  have l: "(if k > 0 \<and> len0 > k then k else len0) = len" by (simp add: len_def min_def)
  have "nat len \<le> nat len0" by (simp add: len_def nat_mono)
  then have "nat len \<le> List.length s" using int_of_len[of "List.length s"] by (simp only: len0_def)
  then have c: "char_loop e (nat len) s q = put_text e (take (nat len) s) q" for q by (rule char_loop_text)
  show ?thesis
    unfolding print_string_def string_text_def Let_def s_def[symmetric] len0_def[symmetric] len_def[symmetric] l
    by (simp add: width_loop_text c)
qed

definition conversion_text ::
    "u8 \<Rightarrow> int \<Rightarrow> int \<Rightarrow> u8 \<Rightarrow> u8 list \<Rightarrow> va list \<Rightarrow> (u8 list \<times> u8 list \<times> va list) option" where
  "conversion_text flags width precision qualifier fmt args =
     (let c = cur fmt in
      if c = of_char CHR ''c'' then
        map_option (\<lambda>(x, args1). (char_text flags width (ucast x), tl fmt, args1)) (va_int args)
      else if c = of_char CHR ''s'' then
        map_option (\<lambda>(x, args1). (string_text flags width precision x, tl fmt, args1)) (va_str args)
      else if c = of_char CHR ''p'' then
        map_option (\<lambda>(x, args1). (if width = -1 then number_text x 16 16 precision (flags OR ZEROPAD)
                                  else number_text x 16 width precision flags, tl fmt, args1)) (va_ptr args)
      else if c \<in> set (bytes ''oXxdiu'') then
        let flags1 = (if c = of_char CHR ''X'' then flags OR LARGE
                      else if c \<in> set (bytes ''di'') then flags OR SIGN else flags)
        in map_option (\<lambda>(x, args1). (number_text (ucast (get_num flags1 qualifier x)) (get_base c) width precision flags1,
                                     tl fmt, args1)) (va_int args)
      else Some (if c = of_char CHR ''%'' \<or> c = 0 then bytes ''%'' else [of_char CHR ''%'', c], tl fmt, args))"

lemma conversion_split:
  "conversion e flags w k q fmt args p = map_option (\<lambda>(t, rest). (put_text e t p, rest)) (conversion_text flags w k q fmt args)"
  unfolding conversion_def conversion_text_def Let_def
  by (auto simp: print_number_text print_char_text print_string_text option.map_comp bind_map_option o_def split_def
      Option.bind_eq_None_conv split: option.splits Option.bind_splits)

definition directive_text :: "u8 list \<Rightarrow> va list \<Rightarrow> (u8 list \<times> u8 list \<times> va list) option" where
  "directive_text fmt args =
     (let (flags, fmt1) = get_flags 0 fmt
      in do { (width, flags1, fmt2, args1) \<leftarrow> get_width flags fmt1 args;
              (precision, fmt3, args2) \<leftarrow> get_precision fmt2 args1;
              let (qualifier, fmt4) = get_qualifier fmt3;
              conversion_text flags1 width precision qualifier fmt4 args2 })"

lemma directive_split:
  "directive e fmt args p = map_option (\<lambda>(t, rest). (put_text e t p, rest)) (directive_text fmt args)"
  by (auto simp: directive_def directive_text_def conversion_split split_def map_option_bind o_def Let_def
      intro!: Option.bind_cong)

lemma directive_text_shorter: "directive_text fmt args = Some (t, r, a) \<Longrightarrow> List.length r \<le> List.length fmt"
  using directive_shorter[of 0 fmt args "(0, \<lambda>_. 0)"] by (simp add: directive_split)

text \<open>The text that a format and its arguments stand for, whatever the buffer.\<close>

function printed :: "u8 list \<Rightarrow> va list \<Rightarrow> u8 list option" where
  "printed [] args = Some []"
| "printed (c # fmt) args =
     (if c \<noteq> of_char CHR ''%'' then map_option ((#) c) (printed fmt args)
      else case directive_text fmt args of None \<Rightarrow> None | Some (t, fmt1, args1) \<Rightarrow> map_option ((@) t) (printed fmt1 args1))"
  by pat_completeness auto
termination by (relation "measure (\<lambda>(fmt, a). List.length fmt)") (auto dest: directive_text_shorter)

lemma vsnprintf_loop_text: "vsnprintf_loop e fmt args p = map_option (\<lambda>t. put_text e t p) (printed fmt args)"
proof (induction e fmt args p rule: vsnprintf_loop.induct)
  case (2 e c fmt args p)
  show ?case
  proof (cases "c \<noteq> of_char CHR ''%''")
    case True
    then show ?thesis using "2.IH"(1)[OF True] by (simp add: option.map_comp o_def)
  next
    case False
    show ?thesis
    proof (cases "directive_text fmt args")
      case None
      then show ?thesis using False by (simp add: directive_split)
    next
      case (Some x)
      obtain t fmt1 args1 where x: "x = (t, fmt1, args1)" by (cases x)
      have d: "directive e fmt args p = Some (put_text e t p, fmt1, args1)" using Some x by (simp add: directive_split)
      show ?thesis using False Some x d "2.IH"(2)[OF False d refl refl] by (simp add: option.map_comp o_def)
    qed
  qed
qed simp

section \<open>The buffer\<close>

lemma put_text_at:
  "unat str + List.length xs < 2 ^ 64 \<Longrightarrow>
     put_text e xs (str, m) = (str + of_nat (List.length xs), text_at str (take (unat e - unat str) xs) m)"
proof (induction xs arbitrary: str m)
  case (Cons c xs)
  have u: "unat (str + 1) = unat str + 1" using Cons.prems by (simp add: unat_plus_if')
  have r: "str + 1 + of_nat (List.length xs) = str + of_nat (List.length (c # xs))" by simp
  have IH: "put_text e xs (str + 1, m') = (str + of_nat (List.length (c # xs)), text_at (str + 1) (take (unat e - (unat str + 1)) xs) m')"
    for m' unfolding r[symmetric] u[symmetric] by (rule Cons.IH) (use Cons.prems in \<open>simp add: u\<close>)
  show ?case
  proof (cases "str < e")
    case True
    then have n: "unat e - unat str = Suc (unat e - (unat str + 1))" by (simp add: word_less_nat_alt)
    have l: "List.length (take (unat e - (unat str + 1)) xs) < 2 ^ 64" using Cons.prems by simp
    show ?thesis using True unfolding n take_Suc_Cons text_at_Cons[OF l] by (simp only: fold_simps put_char.simps IH if_True)
  next
    case False
    then have "unat e - unat str = 0" by (simp add: word_less_nat_alt)
    then show ?thesis using False by (simp only: fold_simps put_char.simps IH if_False) simp
  qed
qed simp

lemma text_at_snoc:
  assumes "List.length xs < 2 ^ 64"
  shows "(text_at a xs m)(a + of_nat (List.length xs) := x) = text_at a (xs @ [x]) m"
proof
  fix y
  have u: "unat (of_nat (List.length xs) :: u64) = List.length xs" by (rule unat_of_nat_small) (use assms in simp)
  show "((text_at a xs m)(a + of_nat (List.length xs) := x)) y = text_at a (xs @ [x]) m y"
  proof (cases "y = a + of_nat (List.length xs)")
    case True
    then show ?thesis using u by (simp add: text_at_def nth_append)
  next
    case False
    then have "y - a \<noteq> of_nat (List.length xs)" by (auto simp: algebra_simps)
    then have "unat (y - a) \<noteq> List.length xs" using u by (metis word_unat_eq_iff)
    then show ?thesis using False by (simp add: text_at_def nth_append less_Suc_eq)
  qed
qed

lemma vsnprintf_body:
  assumes "printed fmt args = Some out" "unat buf + unat sz < 2 ^ 64" "unat buf + List.length out < 2 ^ 64"
    "List.length out < 2 ^ 31"
  shows "rt_vsnprintf buf sz fmt args m =
     Some (int (List.length out), if sz = 0 then m else text_at buf (take (unat sz - 1) out @ [0]) m)"
proof -
  let ?n = "List.length out"
  have e: "unat (buf + sz) = unat buf + unat sz" using assms(2) by (simp add: unat_plus_if')
  then have nw: "\<not> buf + sz < buf" by (simp add: word_less_nat_alt)
  have n: "unat (of_nat ?n :: u64) = ?n" by (rule unat_of_nat_small) (use assms(4) in simp)
  then have s: "unat (buf + of_nat ?n) = unat buf + ?n" using assms(3) by (simp add: unat_plus_if')
  have lt: "buf + of_nat ?n < buf + sz \<longleftrightarrow> ?n < unat sz" by (simp add: word_less_nat_alt e s)
  have loop: "vsnprintf_loop (buf + sz) fmt args (buf, m) = Some (buf + of_nat ?n, text_at buf (take (unat sz) out) m)"
    using put_text_at[OF assms(3), of "buf + sz" m] by (simp add: vsnprintf_loop_text assms(1) e)
  have r: "sint (ucast (buf + of_nat ?n - buf) :: u32) = int ?n" using strlen_int[OF assms(4)] by simp
  have out: "rt_vsnprintf buf sz fmt args m = Some (int ?n, if sz > 0 then
      if ?n < unat sz then (text_at buf (take (unat sz) out) m)(buf + of_nat ?n := 0)
      else (text_at buf (take (unat sz) out) m)(buf + sz - 1 := 0) else text_at buf (take (unat sz) out) m)"
    unfolding rt_vsnprintf_def Let_def if_not_P[OF nw] prod.case loop Option.bind.bind_lunit lt r ..
  consider (none) "sz = 0" | (fits) "sz \<noteq> 0" "?n < unat sz" | (cut) "sz \<noteq> 0" "unat sz \<le> ?n" by linarith
  then show ?thesis
  proof cases
    case none
    then show ?thesis using out by simp
  next
    case fits
    then show ?thesis using out text_at_snoc[of out buf m 0] assms(4) by (simp add: word_gt_0)
  next
    case cut
    then obtain j where j: "unat sz = Suc j" by (metis not0_implies_Suc unat_eq_zero)
    have t: "take (unat sz) out = take j out @ [out ! j]" using j cut(2) by (simp add: take_Suc_conv_app_nth)
    have l: "List.length (take j out) = j" using j cut(2) by simp
    have a: "buf + sz - 1 = buf + of_nat (List.length (take j out))"
    proof -
      have "sz = of_nat (unat sz)" by simp
      then show ?thesis unfolding j l by (simp add: algebra_simps)
    qed
    have "(text_at buf (take j out @ [out ! j]) m)(buf + of_nat (List.length (take j out)) := 0) = text_at buf (take j out @ [0]) m"
    proof -
      have "text_at buf (take j out @ [x]) m = (text_at buf (take j out) m)(buf + of_nat (List.length (take j out)) := x)" for x
        by (rule text_at_snoc[symmetric]) (use l assms(4) cut(2) j in simp)
      then show ?thesis by (simp only: fun_upd_upd)
    qed
    then show ?thesis using out cut j t a by (simp add: word_gt_0)
  qed
qed

text \<open>
  C35. rt_vsnprintf returns the length of the whole text, and stores in a buffer of sz bytes as much of it as fits
  before a terminating NUL: the first sz - 1 bytes when the text is longer, the whole text otherwise. It writes no
  byte outside the buffer, and none at all for sz = 0.
\<close>

theorem vsnprintf_prefix:
  assumes "printed fmt args = Some out" "unat buf + unat sz < 2 ^ 64" "unat buf + List.length out < 2 ^ 64"
    "List.length out < 2 ^ 31"
  shows "rt_vsnprintf buf sz fmt args m =
     Some (int (List.length out), if sz = 0 then m else text_at buf (take (unat sz - 1) out @ [0]) m)"
  using vsnprintf_body[OF assms] .

theorem vsnprintf_prefix_witness:
  "rt_vsnprintf 0x1000 4 (bytes ''x=%03d'') [VInt 7] (\<lambda>_. 1) = Some (int 5, text_at 0x1000 (bytes ''x=0'' @ [0]) (\<lambda>_. 1))"
proof -
  have two: "replicate 2 (48 :: u8) = [48, 48]" by (simp add: numeral_2_eq_2)
  have seven: "number_loop ds 10 7 = [ds ! 7]" for ds
    by (simp add: number_loop.simps[of ds 10 7] number_loop.simps[of ds 10 0] divide_num_def)
  have p: "printed (bytes ''x=%03d'') [VInt 7] = Some (bytes ''x=007'')"
    by (simp add: directive_text_def get_width_def get_precision_def get_qualifier_def conversion_text_def ISDIGIT_def
        number_text_def get_sign_def digits_of_def seven digit_table_def get_num_def get_base_def Let_def
        two)
  show ?thesis using vsnprintf_prefix[OF p, of "0x1000" 4 "\<lambda>_. 1"] by simp
qed

section \<open>Numbers\<close>

lemma unat_u32: "unat (x :: u32) < 2 ^ 32"
  using unsigned_less[of x] by simp

lemma sint_small64: "n < 2 ^ 32 \<Longrightarrow> sint (of_nat n :: u64) = int n"
  by (simp add: signed_of_nat signed_take_bit_int_eq_self)

lemma widen: "(ucast (w :: u32) :: u64) = of_nat (unat w)" "uint (ucast (w :: u32) :: u64) = uint w"
  "\<not> sint (ucast (w :: u32) :: u64) < 0"
proof -
  show e: "(ucast w :: u64) = of_nat (unat w)" by simp
  have "unat (of_nat (unat w) :: u64) = unat w" by (rule unat_of_nat_small) (use unat_u32[of w] in simp)
  then show "uint (ucast w :: u64) = uint w" unfolding e by (simp only: uint_nat)
  have "sint (of_nat (unat w) :: u64) = int (unat w)"
    by (rule sint_small64) (rule unat_u32)
  then show "\<not> sint (ucast w :: u64) < 0" unfolding e by simp
qed

lemma number_loop_length: "unat n < (if base = 10 then 10 else 16) ^ k \<Longrightarrow> List.length (number_loop ds base n) \<le> k"
proof (induction k arbitrary: n)
  case 0
  then have "n = 0" by (simp add: unat_eq_0 split: if_splits)
  then show ?case by (simp add: number_loop.simps)
next
  case (Suc k)
  obtain r q where rq: "divide_num n base = (r, q)" by (cases "divide_num n base")
  have "unat q < (if base = 10 then 10 else 16) ^ k"
    using Suc.prems rq by (auto simp: divide_num_def unat_div_distrib less_mult_imp_div_less mult.commute split: if_splits)
  then have "List.length (number_loop ds base q) \<le> k" by (rule Suc.IH)
  then show ?case by (subst number_loop.simps) (simp add: rq)
qed

text \<open>The 16 bytes of \<open>tmp\<close> are enough for the digits of every number that \<open>rt_vsnprintf\<close> prints.\<close>

lemma tmp_fits:
  "List.length (digits_of t 10 (ucast (x :: u32))) \<le> 10" "base \<noteq> 10 \<Longrightarrow> List.length (digits_of t base n) \<le> 16"
proof -
  have small: "unat x < 2 ^ 32" by (rule unat_u32)
  have "unat (ucast x :: u64) = unat x" by (simp add: unsigned_ucast_eq take_bit_nat_eq_self less_trans[OF small])
  also have "\<dots> < 10 ^ 10" using small by simp
  finally have "List.length (number_loop (digit_table t) 10 (ucast x)) \<le> 10" by (intro number_loop_length) simp
  then show "List.length (digits_of t 10 (ucast x)) \<le> 10" by (simp add: digits_of_def)
  have "List.length (number_loop (digit_table t) base n) \<le> 16" if "base \<noteq> 10"
    by (rule number_loop_length) (use unat_len[of n] that in simp)
  then show "base \<noteq> 10 \<Longrightarrow> List.length (digits_of t base n) \<le> 16" by (simp add: digits_of_def)
qed

lemma skip_atoi_snoc:
  "skip_atoi i xs = Some (v, []) \<Longrightarrow> ISDIGIT c \<Longrightarrow> v * 10 + uint c \<le> 2147483647 \<Longrightarrow>
     skip_atoi i (xs @ [c]) = Some (v * 10 + uint c - 48, [])"
  by (induction i xs rule: skip_atoi.induct) (auto split: if_splits)

lemma digit_char:
  assumes "k < 10"
  shows "bytes ''0123456789abcdef'' ! k = of_nat (48 + k)"
proof -
  have "k \<in> {0, 1, 2, 3, 4, 5, 6, 7, 8, 9}" using assms by auto
  then show ?thesis by (elim insertE) simp_all
qed

lemma digit_value: "k < 10 \<Longrightarrow> uint (of_nat (48 + k) :: u8) = 48 + int k" "k < 10 \<Longrightarrow> ISDIGIT (of_nat (48 + k))"
proof -
  assume "k < 10"
  then have "k \<in> {0, 1, 2, 3, 4, 5, 6, 7, 8, 9}" by auto
  then show "uint (of_nat (48 + k) :: u8) = 48 + int k" "ISDIGIT (of_nat (48 + k))"
    by (elim insertE; simp add: ISDIGIT_def)+
qed

lemma skip_atoi_number:
  "uint n + 48 < 2 ^ 31 \<Longrightarrow> skip_atoi 0 (rev (number_loop (digit_table 0) 10 n)) = Some (uint n, [])"
proof (induction "unat n" arbitrary: n rule: less_induct)
  case less
  show ?case
  proof (cases "n = 0")
    case True
    then show ?thesis by (simp add: number_loop.simps)
  next
    case False
    let ?c = "of_nat (48 + unat (n mod 10)) :: u8"
    have k: "unat (n mod 10) < 10" by (simp add: unat_mod_distrib)
    have "int (unat (n mod 10)) = uint n mod 10" by (simp add: uint_mod_distrib)
    then have c: "uint ?c = 48 + uint n mod 10" "ISDIGIT ?c" using digit_value[OF k] by simp_all
    have q: "uint (n div 10) = uint n div 10" by (simp add: uint_div_distrib)
    have "unat (n div 10) < unat n" using False by (simp add: unat_div_distrib unat_gt_0)
    moreover have "uint (n div 10) + 48 < 2 ^ 31" using less.prems unfolding q using zdiv_mono2[of "uint n" 1 10] by simp
    ultimately have "skip_atoi 0 (rev (number_loop (digit_table 0) 10 (n div 10))) = Some (uint n div 10, [])"
      using less.hyps[of "n div 10"] q by simp
    then have "skip_atoi 0 (rev (number_loop (digit_table 0) 10 (n div 10)) @ [?c]) =
        Some (uint n div 10 * 10 + uint ?c - 48, [])"
      by (rule skip_atoi_snoc) (use c less.prems in simp_all)
    moreover have "rev (number_loop (digit_table 0) 10 n) = rev (number_loop (digit_table 0) 10 (n div 10)) @ [?c]"
      using False digit_char[OF k] by (subst number_loop.simps) (simp add: divide_num_def digit_table_def)
    ultimately show ?thesis using c by simp
  qed
qed

lemma skip_atoi_digits: "uint n + 48 < 2 ^ 31 \<Longrightarrow> skip_atoi 0 (digits_of 0 10 n) = Some (uint n, [])"
  using skip_atoi_number[of n] by (auto simp: digits_of_def ISDIGIT_def)

lemma printed_integer:
  assumes "conv \<in> set (bytes ''oxdiu'')"
  shows "printed [of_char CHR ''%'', conv] [VInt w] =
     Some (number_text (ucast w) (get_base conv) (-1) (-1) (if conv \<in> set (bytes ''di'') then SIGN else 0))"
proof -
  have f: "get_flags 0 [conv] = (0, [conv])" using assms by auto
  have w: "get_width 0 [conv] a = Some (-1, 0, [conv], a)" for a using assms by (auto simp: get_width_def ISDIGIT_def)
  have k: "get_precision [conv] a = Some (-1, [conv], a)" for a using assms by (auto simp: get_precision_def)
  have q: "get_qualifier [conv] = (0, [conv])" using assms by (auto simp: get_qualifier_def)
  have x: "get_num t 0 w = w" for t by (simp add: get_num_def)
  have "conversion_text 0 (-1) (-1) 0 [conv] [VInt w] =
      Some (number_text (ucast w) (get_base conv) (-1) (-1) (if conv \<in> set (bytes ''di'') then SIGN else 0), [], [])"
    using assms by (auto simp: conversion_text_def x)
  then have "directive_text [conv] [VInt w] =
      Some (number_text (ucast w) (get_base conv) (-1) (-1) (if conv \<in> set (bytes ''di'') then SIGN else 0), [], [])"
    unfolding directive_text_def f w k q Let_def prod.case Option.bind.bind_lunit .
  then show ?thesis by simp
qed

lemma plain_number: "get_sign t n = (0, n) \<Longrightarrow> t AND LEFT = 0 \<Longrightarrow> t AND ZEROPAD = 0 \<Longrightarrow> number_text n base (-1) (-1) t = digits_of t base n"
  by (simp add: number_text_def)

lemma sign_of_int: "get_sign SIGN (ucast (w :: u32)) = (0, ucast w)" "get_sign 0 n = (0, n)"
  by (simp_all add: get_sign_def widen(3))

text \<open>
  C36. What %u prints, skip_atoi reads back: rt_snprintf of a number below 2^31 - 48 into a buffer of 11 bytes or more
  stores a digit string and its NUL, and skip_atoi, the parser of the numbers in a format, gets the number from it.
\<close>

theorem printf_u_roundtrip:
  assumes "uint w + 48 < 2 ^ 31" "11 \<le> unat sz" "unat buf + unat sz < 2 ^ 64"
  shows "\<exists>ds. rt_snprintf buf sz (bytes ''%u'') [VInt w] m = Some (int (List.length ds), text_at buf (ds @ [0]) m) \<and>
     skip_atoi 0 ds = Some (uint w, [])"
proof -
  let ?ds = "digits_of 0 10 (ucast w)"
  have p: "printed (bytes ''%u'') [VInt w] = Some ?ds"
    using printed_integer[of "of_char CHR ''u''" w] by (simp add: plain_number sign_of_int get_base_def)
  have l: "List.length ?ds \<le> 10" by (rule tmp_fits)
  have "rt_vsnprintf buf sz (bytes ''%u'') [VInt w] m =
      Some (int (List.length ?ds), if sz = 0 then m else text_at buf (take (unat sz - 1) ?ds @ [0]) m)"
    by (rule vsnprintf_body[OF p]) (use assms l in simp_all)
  moreover have "take (unat sz - 1) ?ds = ?ds" "sz \<noteq> 0" using assms(2) l by auto
  moreover have "skip_atoi 0 ?ds = Some (uint (ucast w :: u64), [])"
    by (rule skip_atoi_digits) (use assms(1) in \<open>simp only: widen(2)\<close>)
  ultimately show ?thesis by (intro exI[of _ ?ds]) (simp only: rt_snprintf_def widen(2) if_False simp_thms)
qed

theorem printf_u_roundtrip_witness:
  "\<exists>ds. rt_snprintf 0x1000 16 (bytes ''%u'') [VInt 4095] (\<lambda>_. 1) = Some (int (List.length ds), text_at 0x1000 (ds @ [0]) (\<lambda>_. 1)) \<and>
     skip_atoi 0 ds = Some (4095, [])"
  using printf_u_roundtrip[of 4095 16 "0x1000" "\<lambda>_. 1"] by simp

lemma printed_same: "printed f a = printed g b \<Longrightarrow> rt_vsnprintf buf sz f a m = rt_vsnprintf buf sz g b m"
  by (simp add: rt_vsnprintf_def vsnprintf_loop_text)

text \<open>
  C37. On this 64-bit target the number goes from a 32-bit unsigned variable into a long, so it never is negative: %d
  prints -1 as 4294967295, as %u does. And the division knows the bases 10 and 16 only: %o prints hexadecimal digits.
\<close>

theorem printf_d_is_u:
  "rt_vsnprintf buf sz (bytes ''%d'') [VInt w] m = rt_vsnprintf buf sz (bytes ''%u'') [VInt w] m \<and>
   rt_vsnprintf buf sz (bytes ''%o'') [VInt w] m = rt_vsnprintf buf sz (bytes ''%x'') [VInt w] m"
proof
  note printed = printed_integer[of "of_char CHR ''d''" w] printed_integer[of "of_char CHR ''u''" w]
    printed_integer[of "of_char CHR ''o''" w] printed_integer[of "of_char CHR ''x''" w]
  have "digit_table SIGN = digit_table 0" by (simp add: digit_table_def)
  then have d: "digits_of SIGN base n = digits_of 0 base n" for base n by (simp add: digits_of_def)
  show "rt_vsnprintf buf sz (bytes ''%d'') [VInt w] m = rt_vsnprintf buf sz (bytes ''%u'') [VInt w] m"
    by (rule printed_same) (use printed in \<open>simp add: plain_number sign_of_int get_base_def d\<close>)
  have "number_loop ds 8 n = number_loop ds 16 n" for ds n
    by (induction ds "8 :: int" n rule: number_loop.induct) (subst (1 2) number_loop.simps, auto simp: divide_num_def)
  then have "digits_of 0 8 n = digits_of 0 16 n" for n by (simp add: digits_of_def)
  then show "rt_vsnprintf buf sz (bytes ''%o'') [VInt w] m = rt_vsnprintf buf sz (bytes ''%x'') [VInt w] m"
    by (intro printed_same) (use printed in \<open>simp add: plain_number sign_of_int get_base_def\<close>)
qed

section \<open>rt_kprintf\<close>

lemma text_at_read: "i < List.length xs \<Longrightarrow> List.length xs < 2 ^ 64 \<Longrightarrow> text_at a xs m (a + of_nat i) = xs ! i"
proof -
  assume a: "i < List.length xs" "List.length xs < 2 ^ 64"
  have "unat (of_nat i :: u64) = i" by (rule unat_of_nat_small) (use a in simp)
  then show ?thesis using a by (simp add: text_at_def)
qed

lemma text_at_reads:
  "k \<le> List.length xs \<Longrightarrow> List.length xs < 2 ^ 64 \<Longrightarrow> map (\<lambda>i. text_at a xs m (a + of_nat i)) [0..<k] = take k xs"
  by (rule nth_equalityI) (simp_all add: text_at_read)

text \<open>
  rt_kprintf gives its console device the text, when the text has fewer than 127 bytes. A longer one is cut to 126
  bytes, but 127 are sent: the last is the terminating NUL of the buffer.
\<close>

theorem kprintf_device:
  assumes "printed fmt args = Some out" "List.length out < 2 ^ 31" "unat buf + 2 ^ 31 < 2 ^ 64"
  shows "map_option fst (rt_kprintf True buf fmt args m) =
     Some (To_Device (if List.length out < 127 then out else take 126 out @ [0]))"
proof -
  let ?n = "List.length out"
  let ?len = "if of_int (int ?n) > (127 :: u64) then 127 else of_int (int ?n) :: u64"
  have c: "RT_CONSOLEBUF_SIZE - 1 = 127" by (simp add: RT_CONSOLEBUF_SIZE_def)
  have v: "rt_vsnprintf buf 127 fmt args m = Some (int ?n, text_at buf (take 126 out @ [0]) m)"
    using vsnprintf_body[OF assms(1), of buf 127 m] assms(2,3) by simp
  have n: "unat (of_int (int ?n) :: u64) = ?n"
    unfolding of_int_of_nat_eq by (rule unat_of_nat_small) (use assms(2) in simp)
  then have len: "unat ?len = min ?n 127" by (simp add: word_less_nat_alt)
  have "map (\<lambda>i. text_at buf (take 126 out @ [0]) m (buf + of_nat i)) [0..<min ?n 127] = take (min ?n 127) (take 126 out @ [0])"
    by (rule text_at_reads) auto
  also have "\<dots> = (if ?n < 127 then out else take 126 out @ [0])" by (simp add: min_def)
  finally show ?thesis
    unfolding rt_kprintf_def c v Let_def Option.bind.bind_lunit prod.case len by simp
qed

end
