(* ===== verification/RT_Mempool.thy ===== *)
theory RT_Mempool
  imports RT_MemHeap
begin

text \<open>
  Memory pools of \<open>src/rt-thread/src/mempool.c\<close>: blocks of one size, each behind a link word, which points to the
  next free block or, in a block handed out, to the pool. A pool is known by the address of its struct.
\<close>

section \<open>State\<close>

record rt_mempool =
  mp_start_address :: u64
  mp_size :: u64
  mp_block_size :: u64
  mp_block_list :: u64
  block_total_count :: u64
  block_free_count :: u64

text \<open>\<open>cells\<close> is the memory of the link words, by address.\<close>

record mp_sys =
  mp_heap :: mem_sys
  mempools :: "u64 \<Rightarrow> rt_mempool"
  cells :: "u64 \<Rightarrow> u64"

abbreviation mp_kernel :: "mp_sys \<Rightarrow> ipc_sys" where
  "mp_kernel s \<equiv> kernel (mp_heap s)"

abbreviation mp_id :: "u64 \<Rightarrow> ipc_id" where
  "mp_id mp \<equiv> MemPool (unat mp)"

definition set_kernel :: "ipc_sys \<Rightarrow> mp_sys \<Rightarrow> mp_sys" where
  "set_kernel k s = s\<lparr>mp_heap := (mp_heap s)\<lparr>kernel := k\<rparr>\<rparr>"

definition upd_pool :: "u64 \<Rightarrow> (rt_mempool \<Rightarrow> rt_mempool) \<Rightarrow> mp_sys \<Rightarrow> mp_sys" where
  "upd_pool mp f s = s\<lparr>mempools := (mempools s)(mp := f (mempools s mp))\<rparr>"

definition set_cell :: "u64 \<Rightarrow> u64 \<Rightarrow> mp_sys \<Rightarrow> mp_sys" where
  "set_cell a v s = s\<lparr>cells := (cells s)(a := v)\<rparr>"

section \<open>Initialisation\<close>

text \<open>The loop that links every block to the next, from block \<open>offset\<close> on, and the null pointer written over the last link.\<close>

fun link_blocks :: "u64 \<Rightarrow> u64 \<Rightarrow> u64 \<Rightarrow> nat \<Rightarrow> mp_sys \<Rightarrow> mp_sys" where
  "link_blocks block_ptr step offset 0 s = s"
| "link_blocks block_ptr step offset (Suc k) s =
     link_blocks block_ptr step (offset + 1) k (set_cell (block_ptr + offset * step) (block_ptr + (offset + 1) * step) s)"

definition init_blocks :: "u64 \<Rightarrow> mp_sys \<Rightarrow> mp_sys" where
  "init_blocks mp s =
     (let p = mempools s mp; step = mp_block_size p + 8; block_ptr = mp_start_address p;
          s1 = link_blocks block_ptr step 0 (unat (block_total_count p)) s;
          s2 = set_cell (block_ptr + (block_total_count p - 1) * step) 0 s1
      in upd_pool mp (\<lambda>q. q\<lparr>mp_block_list := block_ptr\<rparr>) s2)"

definition rt_mp_init :: "u64 \<Rightarrow> u64 \<Rightarrow> u64 \<Rightarrow> u64 \<Rightarrow> mp_sys \<Rightarrow> (int \<times> mp_sys) option" where
  "rt_mp_init mp start sz bsize s =
     (if mp \<noteq> 0 \<and> start \<noteq> 0 \<and> sz > 0 \<and> bsize > 0 \<and> RT_ALIGN4 bsize + 8 \<noteq> 0
      then let total = RT_ALIGN_DOWN4 sz div (RT_ALIGN4 bsize + 8);
               k = mp_kernel s;
               s1 = set_kernel (k\<lparr>queues := (queues k)(Suspended (mp_id mp) := []),
                                  ipc_static := (ipc_static k)(mp_id mp := True)\<rparr>) s;
               s2 = upd_pool mp (\<lambda>q. q\<lparr>mp_start_address := start, mp_size := RT_ALIGN_DOWN4 sz, mp_block_size := RT_ALIGN4 bsize,
                      block_total_count := total, block_free_count := total\<rparr>) s1
           in Some (0, init_blocks mp s2)
      else None)"

text \<open>
  \<open>rt_mp_create\<close> is cut at its call of \<open>rt_malloc\<close>: first the size asked for, then the rest with the address that
  \<open>rt_malloc\<close> returned. \<open>obj\<close> is what \<open>rt_object_allocate\<close> returned. \<open>rt_mp_delete\<close> answers the address it gives to
  \<open>rt_free\<close>.
\<close>

definition mp_create_size :: "u64 \<Rightarrow> u64 \<Rightarrow> mp_sys \<Rightarrow> u64 option" where
  "mp_create_size block_count bsize s =
     (if not_in_interrupt (mp_kernel s) \<and> block_count > 0 \<and> bsize > 0
      then Some ((RT_ALIGN4 bsize + 8) * block_count) else None)"

definition rt_mp_create :: "u64 option \<Rightarrow> u64 \<Rightarrow> u64 \<Rightarrow> u64 \<Rightarrow> mp_sys \<Rightarrow> (u64 \<times> mp_sys) option" where
  "rt_mp_create obj start block_count bsize s =
     (case mp_create_size block_count bsize s of
        None \<Rightarrow> None
      | Some bytes_needed \<Rightarrow>
          (case obj of
             None \<Rightarrow> Some (0, s)
           | Some mp \<Rightarrow>
               if start = 0 then Some (0, upd_pool mp (\<lambda>q. q\<lparr>mp_block_size := RT_ALIGN4 bsize, mp_size := bytes_needed, mp_start_address := 0\<rparr>) s)
               else let k = mp_kernel s;
                        s1 = set_kernel (k\<lparr>queues := (queues k)(Suspended (mp_id mp) := []),
                                           ipc_static := (ipc_static k)(mp_id mp := False)\<rparr>) s;
                        s2 = upd_pool mp (\<lambda>q. q\<lparr>mp_start_address := start, mp_size := bytes_needed, mp_block_size := RT_ALIGN4 bsize,
                               block_total_count := block_count, block_free_count := block_count\<rparr>) s1
                    in Some (mp, init_blocks mp s2)))"

definition rt_mp_detach :: "u64 \<Rightarrow> mp_sys \<Rightarrow> (int \<times> mp_sys) option" where
  "rt_mp_detach mp s =
     (if mp \<noteq> 0 \<and> ipc_static (mp_kernel s) (mp_id mp)
      then do { k \<leftarrow> rt_ipc_list_resume_all (Suspended (mp_id mp)) (mp_kernel s); Some (0, set_kernel k s) } else None)"

definition rt_mp_delete :: "u64 \<Rightarrow> mp_sys \<Rightarrow> (u64 \<times> mp_sys) option" where
  "rt_mp_delete mp s =
     (if not_in_interrupt (mp_kernel s) \<and> mp \<noteq> 0 \<and> \<not> ipc_static (mp_kernel s) (mp_id mp)
      then do { k \<leftarrow> rt_ipc_list_resume_all (Suspended (mp_id mp)) (mp_kernel s);
                Some (mp_start_address (mempools s mp), set_kernel k s) } else None)"

section \<open>Allocation\<close>

text \<open>
  A call ends with a block, 0 for \<open>RT_NULL\<close>, or with its thread asleep; then \<open>before_sleep\<close>, the tick it fell
  asleep at, is what it keeps for the rest of the function.
\<close>

datatype mp_result = Block u64 | Asleep rt_tick_t

text \<open>The caller goes to the front of the waiting list.\<close>

definition mp_wait :: "u64 \<Rightarrow> tid \<Rightarrow> 32 word \<Rightarrow> ipc_sys \<Rightarrow> ipc_sys option" where
  "mp_wait mp t time k =
     do { (_, k1) \<leftarrow> rt_thread_suspend t (upd_tcb t (\<lambda>th. th\<lparr>error := 0\<rparr>) k);
          let k2 = k1\<lparr>queues := (queues k1)(Suspended (mp_id mp) := t # queues k1 (Suspended (mp_id mp)))\<rparr>;
          if sint time > 0
          then rt_timer_start (ThreadTimer t) (snd (rt_timer_control (ThreadTimer t) (SET_TIME time) k2))
          else Some k2 }"

definition mp_take_block :: "u64 \<Rightarrow> mp_sys \<Rightarrow> (u64 \<times> mp_sys) option" where
  "mp_take_block mp s =
     (let block_ptr = mp_block_list (mempools s mp)
      in if block_ptr = 0 then None
         else Some (block_ptr + 8, set_cell block_ptr mp (upd_pool mp
                (\<lambda>q. q\<lparr>block_free_count := block_free_count q - 1, mp_block_list := cells s block_ptr\<rparr>) s)))"

text \<open>\<open>rt_mp_alloc\<close> up to the point where its thread sleeps; \<open>mp_alloc_wakes\<close> is the rest of the round and the next ones.\<close>

definition rt_mp_alloc :: "u64 \<Rightarrow> 32 word \<Rightarrow> mp_sys \<Rightarrow> (mp_result \<times> mp_sys) option" where
  "rt_mp_alloc mp time s =
     (if mp = 0 then None
      else if block_free_count (mempools s mp) = 0
      then if time = 0 then Some (Block 0, s\<lparr>mp_heap := rt_set_errno (-2) (mp_heap s)\<rparr>)
           else if \<not> not_in_interrupt (mp_kernel s) then None
           else do { t \<leftarrow> current_thread (mp_kernel s);
                     k1 \<leftarrow> mp_wait mp t time (mp_kernel s);
                     k2 \<leftarrow> rt_schedule k1;
                     Some (Asleep (rt_tick (mp_kernel s)), set_kernel k2 s) }
      else do { (b, s1) \<leftarrow> mp_take_block mp s; Some (Block b, s1) })"

definition time_left :: "32 word \<Rightarrow> rt_tick_t \<Rightarrow> rt_tick_t \<Rightarrow> 32 word" where
  "time_left time before_sleep now =
     (if sint time > 0 then let rest = time - (now - before_sleep) in if sint rest < 0 then 0 else rest else time)"

definition mp_alloc_wakes :: "u64 \<Rightarrow> tid \<Rightarrow> 32 word \<Rightarrow> rt_tick_t \<Rightarrow> mp_sys \<Rightarrow> (mp_result \<times> mp_sys) option" where
  "mp_alloc_wakes mp t time before_sleep s =
     (if error (tcb (mp_kernel s) t) \<noteq> 0 then Some (Block 0, s)
      else rt_mp_alloc mp (time_left time before_sleep (rt_tick (mp_kernel s))) s)"

section \<open>Release\<close>

definition rt_mp_free :: "u64 \<Rightarrow> mp_sys \<Rightarrow> mp_sys option" where
  "rt_mp_free block s =
     (if block = 0 then Some s
      else let block_ptr = block - 8;
               mp = cells s block_ptr;
               s1 = set_cell block_ptr (mp_block_list (mempools s mp)) s;
               s2 = upd_pool mp (\<lambda>q. q\<lparr>block_free_count := block_free_count q + 1, mp_block_list := block_ptr\<rparr>) s1
           in case queues (mp_kernel s) (Suspended (mp_id mp)) of
                [] \<Rightarrow> Some s2
              | t # _ \<Rightarrow>
                  do { k1 \<leftarrow> rt_schedule (snd (rt_thread_resume t (upd_tcb t (\<lambda>th. th\<lparr>error := 0\<rparr>) (mp_kernel s))));
                       Some (set_kernel k1 s2) })"

end
