(* ===== verification/RT_Mempool_Props.thy ===== *)
theory RT_Mempool_Props
  imports RT_Mempool RT_MemHeap_Props
begin

text \<open>
  The blocks of a memory pool: each is on the free list or belongs to a caller, never both, and waiting threads are
  served last in, first out.
\<close>

section \<open>The invariant\<close>

definition mp_step :: "u64 \<Rightarrow> mp_sys \<Rightarrow> nat" where
  "mp_step mp s = unat (mp_block_size (mempools s mp)) + 8"

definition mp_blocks :: "u64 \<Rightarrow> mp_sys \<Rightarrow> u64 list" where
  "mp_blocks mp s = map (\<lambda>k. mp_start_address (mempools s mp) + of_nat (k * mp_step mp s)) [0..<unat (block_total_count (mempools s mp))]"

fun linked :: "(u64 \<Rightarrow> u64) \<Rightarrow> u64 \<Rightarrow> u64 list \<Rightarrow> bool" where
  "linked f a [] \<longleftrightarrow> a = 0"
| "linked f a (b # bs) \<longleftrightarrow> a = b \<and> b \<noteq> 0 \<and> linked f (f b) bs"

definition mp_ok :: "u64 \<Rightarrow> u64 list \<Rightarrow> mp_sys \<Rightarrow> bool" where
  "mp_ok mp fs s \<longleftrightarrow>
     mp \<noteq> 0 \<and> distinct (mp_blocks mp s) \<and> 0 \<notin> set (mp_blocks mp s) \<and> -8 \<notin> set (mp_blocks mp s) \<and>
     distinct fs \<and> set fs \<subseteq> set (mp_blocks mp s) \<and> linked (cells s) (mp_block_list (mempools s mp)) fs \<and>
     unat (block_free_count (mempools s mp)) = List.length fs \<and>
     (\<forall>b \<in> set (mp_blocks mp s) - set fs. cells s b = mp)"

lemma linked_upd: "b \<notin> set bs \<Longrightarrow> linked (f(b := v)) a bs = linked f a bs"
  by (induction bs arbitrary: a) auto

lemma obs [simp]:
  "mempools (set_kernel k s) = mempools s" "cells (set_kernel k s) = cells s" "mp_kernel (set_kernel k s) = k"
  "mempools (set_cell a v s) = mempools s" "cells (set_cell a v s) = (cells s)(a := v)" "mp_heap (set_cell a v s) = mp_heap s"
  "mempools (upd_pool mp f s) = (mempools s)(mp := f (mempools s mp))" "cells (upd_pool mp f s) = cells s"
  "mp_heap (upd_pool mp f s) = mp_heap s"
  by (simp_all add: set_kernel_def set_cell_def upd_pool_def)

lemma mp_blocks_cong:
  assumes "mp_start_address (mempools s' mp) = mp_start_address (mempools s mp)"
    "mp_block_size (mempools s' mp) = mp_block_size (mempools s mp)"
    "block_total_count (mempools s' mp) = block_total_count (mempools s mp)"
  shows "mp_blocks mp s' = mp_blocks mp s"
  by (simp add: mp_blocks_def mp_step_def assms)

lemma mp_ok_cong: "mempools s' = mempools s \<Longrightarrow> cells s' = cells s \<Longrightarrow> mp_ok mp fs s' = mp_ok mp fs s"
  by (simp add: mp_ok_def mp_blocks_def mp_step_def)

text \<open>Another pool, whose blocks are elsewhere, is not disturbed.\<close>

lemma mp_ok_other:
  assumes "mp_ok mp' fs' s" "mempools s' mp' = mempools s mp'" "\<And>a. a \<in> set (mp_blocks mp' s) \<Longrightarrow> cells s' a = cells s a"
  shows "mp_ok mp' fs' s'"
proof -
  have b: "mp_blocks mp' s' = mp_blocks mp' s" by (rule mp_blocks_cong) (simp_all add: assms(2))
  have "linked (cells s') a fs" if "linked (cells s) a fs" "set fs \<subseteq> set (mp_blocks mp' s)" for a fs
    using that by (induction fs arbitrary: a) (auto simp: assms(3))
  then show ?thesis using assms unfolding mp_ok_def b by auto
qed

section \<open>Taking and returning a block\<close>

lemma take_block_ok:
  assumes "mp_ok mp (b # fs) s"
  shows "\<exists>s'. mp_take_block mp s = Some (b + 8, s') \<and> mp_ok mp fs s' \<and> mp_heap s' = mp_heap s \<and>
    mp_blocks mp s' = mp_blocks mp s \<and> cells s' b = mp \<and>
    (\<forall>mp'. mp' \<noteq> mp \<longrightarrow> mempools s' mp' = mempools s mp') \<and> (\<forall>a. a \<noteq> b \<longrightarrow> cells s' a = cells s a)"
proof -
  have b: "mp_block_list (mempools s mp) = b" "b \<noteq> 0" "linked (cells s) (cells s b) fs" "b \<notin> set fs" "distinct fs"
    "b \<in> set (mp_blocks mp s)" "set fs \<subseteq> set (mp_blocks mp s)" "unat (block_free_count (mempools s mp)) = Suc (List.length fs)"
    using assms by (auto simp: mp_ok_def)
  define s' where "s' = set_cell b mp (upd_pool mp
    (\<lambda>q. q\<lparr>block_free_count := block_free_count q - 1, mp_block_list := cells s b\<rparr>) s)"
  have r: "mp_take_block mp s = Some (b + 8, s')" using b(1,2) by (simp add: mp_take_block_def s'_def)
  have bl: "mp_blocks mp s' = mp_blocks mp s" by (rule mp_blocks_cong) (simp_all add: s'_def)
  have "unat (block_free_count (mempools s mp) - 1) = List.length fs"
    using b(8) by (metis unat_minus_one diff_Suc_1 unat_0 nat.distinct(1))
  then have "mp_ok mp fs s'"
    using assms b unfolding mp_ok_def bl by (auto simp: s'_def linked_upd)
  then show ?thesis using r bl by (auto simp: s'_def)
qed

lemma free_block_ok:
  assumes ok: "mp_ok mp fs s" and b: "b \<in> set (mp_blocks mp s)" "b \<notin> set fs"
  defines "s' \<equiv> upd_pool mp (\<lambda>q. q\<lparr>block_free_count := block_free_count q + 1, mp_block_list := b\<rparr>)
      (set_cell b (mp_block_list (mempools s mp)) s)"
  shows "mp_ok mp (b # fs) s'" "mp_blocks mp s' = mp_blocks mp s"
proof -
  show bl: "mp_blocks mp s' = mp_blocks mp s" by (rule mp_blocks_cong) (simp_all add: s'_def)
  have "set (b # fs) \<subseteq> set (mp_blocks mp s)" "distinct (b # fs)" using ok b by (auto simp: mp_ok_def)
  then have "List.length (b # fs) \<le> List.length (mp_blocks mp s)" by (metis card_mono distinct_card finite_set card_length le_trans)
  also have "\<dots> < 2 ^ 64"
    using unsigned_less[of "block_total_count (mempools s mp)"] by (simp add: mp_blocks_def)
  finally have "unat (block_free_count (mempools s mp)) + 1 < 2 ^ 64" using ok by (simp add: mp_ok_def)
  then have "unat (block_free_count (mempools s mp) + 1) = unat (block_free_count (mempools s mp)) + 1"
    by (simp add: unat_plus_if')
  then show "mp_ok mp (b # fs) s'"
    using ok b unfolding mp_ok_def bl by (auto simp: s'_def linked_upd)
qed

section \<open>Waiting\<close>

lemma mp_wait_kinv:
  assumes k: "kinv_at m b s" and r: "runnable s t" and v: "sint time > 0 \<Longrightarrow> time < HALF"
  shows "\<exists>s'. mp_wait mp t time s = Some s' \<and> kinv_at m b s' \<and> current_thread s' = current_thread s \<and>
    st s' t = RT_THREAD_SUSPEND \<and> error (tcb s' t) = 0 \<and> rt_tick s' = rt_tick s \<and> timer_sys.more s' = timer_sys.more s \<and>
    queues s' (Suspended (mp_id mp)) = t # queues s (Suspended (mp_id mp)) \<and> touches (mp_id mp) s s'"
proof -
  let ?l = "Suspended (mp_id mp)" and ?s0 = "upd_tcb t (\<lambda>th. th\<lparr>error := 0\<rparr>) s"
  have k0: "kinv_at m b ?s0" "runnable ?s0 t" using error_kinv[OF k] r by (simp_all add: runnable_def st_def)
  obtain s1 where s1: "rt_thread_suspend t ?s0 = Some (0, s1)" "kinv_at m b s1" "st s1 t = RT_THREAD_SUSPEND"
    "\<And>l. queues s1 l = removeAll t (queues ?s0 l)" "\<And>u. u \<noteq> t \<Longrightarrow> tcb s1 u = tcb ?s0 u"
    "tcb s1 t = set_stat RT_THREAD_SUSPEND (tcb ?s0 t)" "current_thread s1 = current_thread ?s0"
    "scheduler_lock_nest s1 = scheduler_lock_nest ?s0" "interrupt_nest s1 = interrupt_nest ?s0"
    "rt_tick s1 = rt_tick ?s0" "timer_sys.more s1 = timer_sys.more ?s0"
    using suspend_kinv[OF k0(1) k0(2)[unfolded runnable_def]] by metis
  have free: "removeAll t (queues s l) = queues s l" if "\<And>p. l \<noteq> Ready p" for l by (rule runnable_free[OF k r that])
  define s2 where "s2 = s1\<lparr>queues := (queues s1)(?l := t # queues s1 ?l)\<rparr>"
  have q2: "queues s2 ?l = t # queues s ?l" "\<And>j. j \<noteq> mp_id mp \<Longrightarrow> queues s2 (Suspended j) = queues s (Suspended j)"
    "\<And>j. queues s2 (Senders j) = queues s (Senders j)"
    using s1(4) free by (simp_all add: s2_def)
  have "lists_inv {t} s1" by (rule enter_transit[OF kinv_atD(6)[OF s1(2)]]) (simp add: s1(4))
  then have li: "lists_inv {} s2" unfolding s2_def using link_wait[of "{t}" s1 t ?l "t # queues s1 ?l"] s1(3) by auto
  have st: "st s2 = st s1" by (auto simp: fun_eq_iff st_def s2_def)
  have "current_inv s2" using kinv_atD(7)[OF s1(2)] unfolding current_inv_def st by (simp add: s2_def)
  then have si: "sched_inv s2" using li by (simp add: sched_inv_def)
  have k2: "kinv_at m b s2"
    by (rule kinv_at_sched_step[OF s1(2) _ si]) (use kinv_atD(4)[OF s1(2)] st in \<open>simp_all add: s2_def thread_timers_inv_def\<close>)
  have more2: "timer_sys.more s2 = timer_sys.more s"
  proof -
    have "timer_sys.more s2 = timer_sys.more s1" unfolding s2_def by (rule more_timer) simp
    also have "\<dots> = timer_sys.more ?s0" by (rule s1(11))
    also have "\<dots> = timer_sys.more s" by (rule more_timer) simp
    finally show ?thesis .
  qed
  have ev: "event_set (tcb s2 u) = event_set (tcb s u)" "event_info (tcb s2 u) = event_info (tcb s u)" for u
    using s1(5)[of u] s1(6) by (cases "u = t"; simp add: s2_def set_stat_def)+
  have t2: "st s2 t = RT_THREAD_SUSPEND" "error (tcb s2 t) = 0" "current_thread s2 = current_thread s" "rt_tick s2 = rt_tick s"
    using s1(3,6,7,10) st more_timer(3)[of ?s0 s] by (simp_all add: s2_def set_stat_def)
  show ?thesis
  proof (cases "sint time > 0")
    case True
    obtain s' where s': "rt_timer_start (ThreadTimer t) (snd (rt_timer_control (ThreadTimer t) (SET_TIME time) s2)) = Some s'"
      "kinv_at m b s'" "same_sched s2 s'" "rt_tick s' = rt_tick s2" "timer_sys.more s' = timer_sys.more s2"
      using start_own_timer[OF k2 t2(1) v[OF True]] by blast
    note same = same_schedD[OF s'(3)]
    have "mp_wait mp t time s = Some s'" using True s1(1) s'(1) by (simp add: mp_wait_def s2_def)
    moreover have "touches (mp_id mp) s s'"
      by (rule touchesI) (use q2 ev same(1,2) s'(5) more2 in simp_all)
    ultimately show ?thesis using s'(2,4,5) t2 q2(1) more2 same by (auto simp: st_def)
  next
    case False
    then have "mp_wait mp t time s = Some s2" using s1(1) by (simp add: mp_wait_def s2_def)
    moreover have "touches (mp_id mp) s s2" by (rule touchesI) (use q2 ev more2 in simp_all)
    ultimately show ?thesis using k2 t2 q2(1) more2 by blast
  qed
qed

section \<open>The abstract pool\<close>

text \<open>
  The free blocks in the order they will be handed out, and the waiting threads in the order they will be served.
  Taking gives the first free block, else null, or puts the caller in front of the waiting; returning puts the block
  in front of the free ones and wakes the first waiting thread.
\<close>

type_synonym abs_mp = "u64 list \<times> tid list"

definition mp_rel :: "u64 \<Rightarrow> abs_mp \<Rightarrow> mp_sys \<Rightarrow> bool" where
  "mp_rel mp a s \<longleftrightarrow> mp_ok mp (fst a) s \<and> queues (mp_kernel s) (Suspended (mp_id mp)) = snd a"

fun spec_mp_alloc :: "tid \<Rightarrow> bool \<Rightarrow> abs_mp \<Rightarrow> u64 option \<times> abs_mp" where
  "spec_mp_alloc c poll ([], ws) = (if poll then (Some 0, ([], ws)) else (None, ([], c # ws)))"
| "spec_mp_alloc c poll (b # fs, ws) = (Some (b + 8), (fs, ws))"

fun spec_mp_free :: "u64 \<Rightarrow> abs_mp \<Rightarrow> abs_mp" where
  "spec_mp_free b (fs, ws) = (b # fs, tl ws)"

definition mp_answer :: "mp_result \<Rightarrow> u64 option" where
  "mp_answer r = (case r of Block b \<Rightarrow> Some b | Asleep _ \<Rightarrow> None)"

text \<open>An operation on one pool leaves every other pool, whose blocks lie elsewhere, as it was.\<close>

definition mp_local :: "u64 \<Rightarrow> mp_sys \<Rightarrow> mp_sys \<Rightarrow> bool" where
  "mp_local mp s s' \<longleftrightarrow>
     (\<forall>mp' fs'. mp' \<noteq> mp \<longrightarrow> set (mp_blocks mp' s) \<inter> set (mp_blocks mp s) = {} \<longrightarrow> mp_ok mp' fs' s \<longrightarrow> mp_ok mp' fs' s')"

lemma mp_localI:
  assumes "\<And>mp'. mp' \<noteq> mp \<Longrightarrow> mempools s' mp' = mempools s mp'" "\<And>a. a \<notin> set (mp_blocks mp s) \<Longrightarrow> cells s' a = cells s a"
  shows "mp_local mp s s'"
  unfolding mp_local_def using assms by (blast intro: mp_ok_other)

lemma mp_local_same: "mempools s' = mempools s \<Longrightarrow> cells s' = cells s \<Longrightarrow> mp_local mp s s'"
  by (rule mp_localI) simp_all

lemma mp_alloc_contract:
  assumes t: "in_task m b c (mp_kernel s)" and ok: "mp_rel mp a s" and v: "timeout_ok time"
  shows "\<exists>r s' a'. rt_mp_alloc mp time s = Some (r, s') \<and> spec_mp_alloc c (time = 0) a = (mp_answer r, a') \<and>
    mp_rel mp a' s' \<and> kinv_at m b (mp_kernel s') \<and> touches (mp_id mp) (mp_kernel s) (mp_kernel s') \<and> mp_local mp s s' \<and>
    (r = Asleep (rt_tick (mp_kernel s)) \<and> st (mp_kernel s') c = RT_THREAD_SUSPEND \<and> error (tcb (mp_kernel s') c) = 0 \<or>
     (\<exists>x. r = Block x))"
proof -
  note d = in_taskD[OF t]
  obtain fs ws where a: "a = (fs, ws)" by (cases a)
  have mo: "mp_ok mp fs s" and ws: "queues (mp_kernel s) (Suspended (mp_id mp)) = ws" using ok a by (simp_all add: mp_rel_def)
  have z: "mp \<noteq> 0" "block_free_count (mempools s mp) = 0 \<longleftrightarrow> fs = []" using mo by (auto simp: mp_ok_def unat_eq_0[symmetric])
  show ?thesis
  proof (cases fs)
    case (Cons x fs1)
    obtain s' where s': "mp_take_block mp s = Some (x + 8, s')" "mp_ok mp fs1 s'" "mp_heap s' = mp_heap s"
      "\<forall>mp'. mp' \<noteq> mp \<longrightarrow> mempools s' mp' = mempools s mp'" "\<forall>a. a \<noteq> x \<longrightarrow> cells s' a = cells s a"
      using take_block_ok[of mp x fs1 s] mo Cons by auto
    have "x \<in> set (mp_blocks mp s)" using mo Cons by (simp add: mp_ok_def)
    then have "mp_local mp s s'" using s'(4,5) by (intro mp_localI) auto
    moreover have "rt_mp_alloc mp time s = Some (Block (x + 8), s')" using z Cons s'(1) by (simp add: rt_mp_alloc_def)
    ultimately show ?thesis using s'(2,3) a Cons ws d(1) by (simp add: mp_rel_def mp_answer_def)
  next
    case Nil
    show ?thesis
    proof (cases "time = 0")
      case True
      let ?k = "upd_tcb c (\<lambda>th. th\<lparr>error := -2\<rparr>) (mp_kernel s)"
      have e: "rt_set_errno (-2) (mp_heap s) = (mp_heap s)\<lparr>kernel := ?k\<rparr>" using d(2,4) by (simp add: rt_set_errno_def)
      have "rt_mp_alloc mp time s = Some (Block 0, set_kernel ?k s)"
        using z Nil True by (simp add: rt_mp_alloc_def e set_kernel_def)
      moreover have "mp_ok mp [] (set_kernel ?k s)" using mo Nil by (simp add: mp_ok_cong[of "set_kernel ?k s" s])
      ultimately show ?thesis
        using a Nil True ws error_kinv[OF d(1), of c "-2"] by (simp add: mp_rel_def mp_answer_def mp_local_same)
    next
      case False
      obtain k1 where k1: "mp_wait mp c time (mp_kernel s) = Some k1" "kinv_at m b k1" "current_thread k1 = current_thread (mp_kernel s)"
        "st k1 c = RT_THREAD_SUSPEND" "error (tcb k1 c) = 0" "queues k1 (Suspended (mp_id mp)) = c # ws"
        "touches (mp_id mp) (mp_kernel s) k1"
        using mp_wait_kinv[OF d(1,3), of time mp] v ws unfolding timeout_ok_def by blast
      have "current_thread k1 \<noteq> None" using k1(3) d(7) by simp
      then obtain k2 where k2: "rt_schedule k1 = Some k2" "kinv_at m b k2" "scheduled k1 k2"
        using schedule_eff[OF k1(2)] by blast
      have "rt_mp_alloc mp time s = Some (Asleep (rt_tick (mp_kernel s)), set_kernel k2 s)"
        using z Nil False d(2,6) k1(1) k2(1) by (simp add: rt_mp_alloc_def)
      moreover have "mp_ok mp [] (set_kernel k2 s)" using mo Nil by (simp add: mp_ok_cong[of "set_kernel k2 s" s])
      moreover have "queues k2 (Suspended (mp_id mp)) = c # ws" using scheduledD(1)[OF k2(3), of "Suspended (mp_id mp)"] k1(6) by simp
      moreover have "touches (mp_id mp) (mp_kernel s) k2" by (rule touches_trans[OF k1(7) scheduled_touches[OF k2(3)]])
      moreover have "st k2 c = RT_THREAD_SUSPEND"
        using rt_schedule_runnable(2)[OF kinv_atD(2)[OF k1(2)] \<open>current_thread k1 \<noteq> None\<close> k2(1)] k1(4) by (simp add: runnable_def)
      moreover have "error (tcb k2 c) = 0" using stat_fields(1)[OF scheduledD(3)[OF k2(3), of c]] k1(5) by simp
      ultimately show ?thesis using a Nil False k2(2) by (simp add: mp_rel_def mp_answer_def mp_local_same)
    qed
  qed
qed

lemma mp_free_contract:
  assumes k: "kinv_at m b (mp_kernel s)" and c: "current_thread (mp_kernel s) \<noteq> None" and ok: "mp_rel mp (fs, ws) s"
    and x: "x \<in> set (mp_blocks mp s)" "x \<notin> set fs"
  shows "\<exists>s'. rt_mp_free (x + 8) s = Some s' \<and> mp_rel mp (spec_mp_free x (fs, ws)) s' \<and> kinv_at m b (mp_kernel s') \<and>
    touches (mp_id mp) (mp_kernel s) (mp_kernel s') \<and> mp_local mp s s' \<and> current_thread (mp_kernel s') \<noteq> None \<and>
    (\<forall>t ts. ws = t # ts \<longrightarrow> runnable (mp_kernel s') t \<and> error (tcb (mp_kernel s') t) = 0)"
proof -
  let ?l = "Suspended (mp_id mp)"
  have mo: "mp_ok mp fs s" and ws: "queues (mp_kernel s) ?l = ws" using ok by (simp_all add: mp_rel_def)
  have nz: "x + 8 \<noteq> 0" using mo x(1) by (metis add_eq_0_iff2 mp_ok_def)
  have own: "cells s x = mp" using mo x by (simp add: mp_ok_def)
  define s1 where "s1 = upd_pool mp (\<lambda>q. q\<lparr>block_free_count := block_free_count q + 1, mp_block_list := x\<rparr>)
      (set_cell x (mp_block_list (mempools s mp)) s)"
  have s1: "mp_ok mp (x # fs) s1" "mp_heap s1 = mp_heap s" using free_block_ok[OF mo x] by (simp_all add: s1_def)
  have local: "mp_local mp s s1" by (rule mp_localI) (use x(1) in \<open>auto simp: s1_def\<close>)
  have run: "rt_mp_free (x + 8) s = (case ws of [] \<Rightarrow> Some s1 | t # _ \<Rightarrow>
      do { k1 \<leftarrow> rt_schedule (snd (rt_thread_resume t (upd_tcb t (\<lambda>th. th\<lparr>error := 0\<rparr>) (mp_kernel s)))); Some (set_kernel k1 s1) })"
    using nz own ws by (simp add: rt_mp_free_def s1_def Let_def cong: list.case_cong)
  show ?thesis
  proof (cases ws)
    case Nil
    then show ?thesis using run s1 local ws k c by (simp add: mp_rel_def)
  next
    case (Cons t ts)
    let ?k0 = "upd_tcb t (\<lambda>th. th\<lparr>error := 0\<rparr>) (mp_kernel s)"
    have k0: "kinv_at m b ?k0" "current_thread ?k0 \<noteq> None" "queues ?k0 ?l = t # ts"
      using error_kinv[OF k] c ws Cons by simp_all
    obtain k1 k2 where k2: "rt_ipc_list_resume ?l ?k0 = Some k1" "rt_schedule k1 = Some k2" "kinv_at m b k2"
      "current_thread k2 \<noteq> None" "handed ?l t ?k0 k2"
      using wake_eff[OF k0(1,2) _ k0(3), of "mp_id mp"] by blast
    have k1: "k1 = snd (rt_thread_resume t ?k0)" using k2(1) k0(3) by (simp add: rt_ipc_list_resume_def)
    have r: "rt_mp_free (x + 8) s = Some (set_kernel k2 s1)" using run Cons k2(2) k1 by simp
    have "mp_ok mp (x # fs) (set_kernel k2 s1)" using s1(1) by (simp add: mp_ok_cong[of "set_kernel k2 s1" s1])
    moreover have "queues k2 ?l = ts" using handedD(2)[OF k2(5)] k0(3) by simp
    moreover have "touches (mp_id mp) (mp_kernel s) k2"
      by (rule touches_trans[OF error_touches handed_touches[OF k2(5)]]) simp
    moreover have "mp_local mp s (set_kernel k2 s1)"
      using local unfolding mp_local_def by (metis mp_ok_cong obs(1,2))
    moreover have "runnable k2 t" "error (tcb k2 t) = 0"
      using handedD(1)[OF k2(5)] stat_fields(1)[OF handedD(4)[OF k2(5), of t]] by simp_all
    ultimately show ?thesis using r k2(3,4) Cons by (simp add: mp_rel_def)
  qed
qed

text \<open>A thread woken without an error waits for what is left of its time, down to 0, where the next round polls.\<close>

lemma time_left_rest:
  assumes "0 < sint time" "unat (now - before_sleep) < 2 ^ 31"
  shows "sint (time_left time before_sleep now) = max 0 (sint time - int (unat (now - before_sleep)))"
proof -
  let ?e = "now - before_sleep"
  define e where "e = int (unat ?e)"
  define d where "d = sint time - e"
  have "int (unat ?e) < int (2 ^ 31)" using assms(2) by (simp only: of_nat_less_iff)
  then have "0 \<le> e" "e < 2 ^ 31" unfolding e_def by (simp_all only: of_nat_power of_nat_numeral of_nat_0_le_iff)
  moreover have "sint time < 2 ^ 31" using sint_lt[of time] by simp
  ultimately have d: "- (2 ^ 31) \<le> d" "d < 2 ^ 31" using assms(1) by (simp_all add: d_def)
  have "time - ?e = word_of_int (sint time) - word_of_int e" by (simp add: e_def)
  also have "\<dots> = word_of_int d" by (simp only: wi_hom_sub d_def)
  finally have r: "sint (time - ?e) = d" using d by (simp add: sint_sbintrunc' signed_take_bit_int_eq_self)
  show ?thesis unfolding e_def[symmetric] d_def[symmetric] using assms(1) by (simp add: time_left_def Let_def r)
qed

section \<open>Initialisation\<close>

text \<open>The address of block \<open>i\<close>.\<close>

definition block_at :: "u64 \<Rightarrow> u64 \<Rightarrow> nat \<Rightarrow> u64" where
  "block_at bp step i = bp + of_nat i * step"

lemma link_blocks_cells:
  assumes inj: "inj_on (block_at bp step) {..<n}"
  shows "j + k \<le> n \<Longrightarrow>
     (\<forall>i. j \<le> i \<longrightarrow> i < j + k \<longrightarrow> cells (link_blocks bp step (of_nat j) k s) (block_at bp step i) = block_at bp step (i + 1)) \<and>
     (\<forall>a. a \<notin> block_at bp step ` {j..<j + k} \<longrightarrow> cells (link_blocks bp step (of_nat j) k s) a = cells s a)"
proof (induction k arbitrary: j s)
  case (Suc k)
  let ?s1 = "set_cell (block_at bp step j) (block_at bp step (j + 1)) s"
  have r: "link_blocks bp step (of_nat j) (Suc k) s = link_blocks bp step (of_nat (j + 1)) k ?s1"
    by (simp add: block_at_def add.commute)
  have IH: "(\<forall>i. j + 1 \<le> i \<longrightarrow> i < j + 1 + k \<longrightarrow>
        cells (link_blocks bp step (of_nat (j + 1)) k ?s1) (block_at bp step i) = block_at bp step (i + 1)) \<and>
     (\<forall>a. a \<notin> block_at bp step ` {j + 1..<j + 1 + k} \<longrightarrow> cells (link_blocks bp step (of_nat (j + 1)) k ?s1) a = cells ?s1 a)"
    by (rule Suc.IH) (use Suc.prems in simp)
  have j: "block_at bp step j \<notin> block_at bp step ` {j + 1..<j + 1 + k}"
  proof
    assume "block_at bp step j \<in> block_at bp step ` {j + 1..<j + 1 + k}"
    then obtain i where i: "block_at bp step j = block_at bp step i" "j + 1 \<le> i" "i < j + 1 + k" by auto
    have "j = i" using inj_onD[OF inj i(1)] i(2,3) Suc.prems by simp
    then show False using i(2) by simp
  qed
  show ?case unfolding r
  proof (intro conjI allI impI)
    fix i assume i: "j \<le> i" "i < j + Suc k"
    show "cells (link_blocks bp step (of_nat (j + 1)) k ?s1) (block_at bp step i) = block_at bp step (i + 1)"
      using IH i j by (cases "i = j") auto
  next
    fix a assume a: "a \<notin> block_at bp step ` {j..<j + Suc k}"
    then have "a \<notin> block_at bp step ` {j + 1..<j + 1 + k}" "a \<noteq> block_at bp step j" by auto
    then show "cells (link_blocks bp step (of_nat (j + 1)) k ?s1) a = cells s a" using IH by simp
  qed
qed simp

lemma linked_blocks:
  "j \<le> n \<Longrightarrow> \<forall>i<n. g i \<noteq> 0 \<and> f (g i) = (if Suc i = n then 0 else g (Suc i)) \<Longrightarrow>
     linked f (if j = n then 0 else g j) (map g [j..<n])"
proof (induction "n - j" arbitrary: j)
  case (Suc k)
  then have "[j..<n] = j # [Suc j..<n]" by (simp add: upt_conv_Cons)
  then show ?case using Suc.hyps(1)[of "Suc j"] Suc.hyps(2) Suc.prems by auto
qed simp

lemma init_blocks_ok:
  fixes s :: mp_sys and mp :: u64
  defines "p \<equiv> mempools s mp"
  defines "n \<equiv> unat (block_total_count p)" and "sp \<equiv> unat (mp_block_size p) + 8"
  assumes mp: "mp \<noteq> 0" and free: "block_free_count p = block_total_count p" and n: "0 < n" and sp: "8 < sp"
    and a: "mp_start_address p \<noteq> 0" "unat (mp_start_address p) + n * sp \<le> 2 ^ 64"
  shows "mp_ok mp (mp_blocks mp (init_blocks mp s)) (init_blocks mp s)" "mp_heap (init_blocks mp s) = mp_heap s"
    "mp_blocks mp (init_blocks mp s) = map (\<lambda>i. mp_start_address p + of_nat (i * sp)) [0..<n]"
proof -
  let ?bp = "mp_start_address p" and ?step = "mp_block_size p + 8"
  let ?g = "block_at ?bp ?step"
  have "sp \<le> n * sp" using n by simp
  then have "sp \<le> 2 ^ 64" using a(2) by linarith
  have nst: "unat ?bp + i * sp + sp \<le> 2 ^ 64" if "i < n" for i
  proof -
    have "i * sp + sp \<le> n * sp" using that by (metis Suc_leI add.commute mult_Suc mult_le_mono1)
    then show ?thesis using a(2) by linarith
  qed
  have ug: "unat (?g i) = unat ?bp + i * sp" "?g i = ?bp + of_nat (i * sp)" if "i < n" for i
  proof -
    have "of_nat (i * sp) = of_nat i * ?step" by (simp add: sp_def)
    then show e: "?g i = ?bp + of_nat (i * sp)" by (simp only: block_at_def)
    have "unat (of_nat (i * sp) :: u64) = i * sp" by (rule unat_of_nat_small) (use nst[OF that] sp in simp)
    then show "unat (?g i) = unat ?bp + i * sp" unfolding e using nst[OF that] sp by (simp add: unat_plus_if')
  qed
  have inj: "inj_on ?g {..<n}"
  proof (rule inj_onI)
    fix i j assume "i \<in> {..<n}" "j \<in> {..<n}" "?g i = ?g j"
    then have "unat ?bp + i * sp = unat ?bp + j * sp" using ug(1) by (metis lessThan_iff)
    then show "i = j" using sp by simp
  qed
  show h: "mp_heap (init_blocks mp s) = mp_heap s"
  proof -
    have "mp_heap (link_blocks bp step off k s) = mp_heap s" for bp step off k s
      by (induction bp step off k s rule: link_blocks.induct) simp_all
    then show ?thesis by (simp add: init_blocks_def Let_def)
  qed
  have mpl: "mempools (link_blocks bp step off k s) = mempools s" for bp step off k s
    by (induction bp step off k s rule: link_blocks.induct) simp_all
  have fields: "mp_start_address (mempools (init_blocks mp s) mp) = ?bp" "mp_block_size (mempools (init_blocks mp s) mp) = mp_block_size p"
    "block_total_count (mempools (init_blocks mp s) mp) = block_total_count p" "block_free_count (mempools (init_blocks mp s) mp) = block_free_count p"
    "mp_block_list (mempools (init_blocks mp s) mp) = ?bp"
    by (simp_all add: init_blocks_def Let_def mpl p_def)
  have bl: "mp_blocks mp (init_blocks mp s) = map (\<lambda>i. ?bp + of_nat (i * sp)) [0..<n]"
    unfolding mp_blocks_def mp_step_def fields n_def sp_def ..
  then show "mp_blocks mp (init_blocks mp s) = map (\<lambda>i. ?bp + of_nat (i * sp)) [0..<n]" .
  have bl': "mp_blocks mp (init_blocks mp s) = map ?g [0..<n]" unfolding bl using ug(2) by simp
  have last: "?bp + (block_total_count p - 1) * ?step = ?g (n - 1)"
  proof -
    have "of_nat (n - 1) = (block_total_count p - 1 :: u64)" using n by (simp add: n_def of_nat_diff)
    then show ?thesis by (simp add: block_at_def)
  qed
  have link: "\<forall>i<n. cells (link_blocks ?bp ?step 0 n s) (?g i) = ?g (i + 1)"
    using link_blocks_cells[OF inj, of 0 n s] by simp
  have c: "cells (init_blocks mp s) = (cells (link_blocks ?bp ?step 0 n s))(?g (n - 1) := 0)"
    by (simp add: init_blocks_def Let_def p_def[symmetric] n_def[symmetric] last)
  have gs: "?g i \<noteq> 0 \<and> ?g i \<noteq> -8" if "i < n" for i
  proof
    show "?g i \<noteq> 0" using ug(1)[OF that] a(1) by (metis add_is_0 unat_0 unat_eq_zero)
    have "unat (-8 :: u64) = 2 ^ 64 - 8" by simp
    then show "?g i \<noteq> -8" using ug(1)[OF that] nst[OF that] sp by auto
  qed
  have chain: "\<forall>i<n. ?g i \<noteq> 0 \<and> cells (init_blocks mp s) (?g i) = (if Suc i = n then 0 else ?g (Suc i))"
  proof (intro allI impI)
    fix i assume i: "i < n"
    have "?g i = ?g (n - 1) \<longleftrightarrow> i = n - 1" using inj i n by (auto simp: inj_on_def)
    then show "?g i \<noteq> 0 \<and> cells (init_blocks mp s) (?g i) = (if Suc i = n then 0 else ?g (Suc i))"
      using link i gs[OF i] by (auto simp: c)
  qed
  have "linked (cells (init_blocks mp s)) (?g 0) (map ?g [0..<n])" using linked_blocks[of 0 n ?g, OF _ chain] n by simp
  then have lk: "linked (cells (init_blocks mp s)) ?bp (map ?g [0..<n])" by (simp add: block_at_def)
  have "distinct (map ?g [0..<n])" using inj by (simp add: distinct_map lessThan_atLeast0)
  then show "mp_ok mp (mp_blocks mp (init_blocks mp s)) (init_blocks mp s)"
    unfolding mp_ok_def bl' fields free using lk gs mp by (auto simp: n_def)
qed

text \<open>
  rt_mp_init, on a region that lies in the address space and holds a block, makes a pool of size / (block size + 8)
  free blocks, each with room for the size asked for, inside the region and apart from each other.
\<close>

theorem mp_init_correct:
  assumes "mp \<noteq> 0" "start \<noteq> 0" "0 < bsize" "unat bsize \<le> 2 ^ 64 - 16"
    and "unat start + unat sz \<le> 2 ^ 64" "unat (RT_ALIGN4 bsize) + 8 \<le> unat (RT_ALIGN_DOWN4 sz)"
  shows "\<exists>s'. rt_mp_init mp start sz bsize s = Some (0, s') \<and> mp_rel mp (mp_blocks mp s', []) s' \<and>
    List.length (mp_blocks mp s') = unat (RT_ALIGN_DOWN4 sz) div (unat (RT_ALIGN4 bsize) + 8) \<and>
    (\<forall>x \<in> set (mp_blocks mp s'). unat start \<le> unat x \<and> unat x + 8 + unat bsize \<le> unat start + unat sz)"
proof -
  have al: "unat bsize \<le> unat (RT_ALIGN4 bsize)" "unat (RT_ALIGN4 bsize) \<le> unat bsize + 3" using align_up(2)[of bsize] assms(4) by simp_all
  have dn: "unat (RT_ALIGN_DOWN4 sz) \<le> unat sz" by (simp add: align_down)
  let ?st = "unat (RT_ALIGN4 bsize) + 8" and ?n = "unat (RT_ALIGN_DOWN4 sz) div (unat (RT_ALIGN4 bsize) + 8)"
  have b0: "0 < unat bsize" using assms(3) by (simp add: word_less_nat_alt)
  have u: "unat (RT_ALIGN4 bsize + 8) = ?st" using al assms(4) by (simp add: unat_plus_if')
  then have nz: "RT_ALIGN4 bsize + 8 \<noteq> 0" by auto
  have sz0: "sz > 0" using assms(6) dn by (auto simp: word_less_nat_alt)
  define total where "total = RT_ALIGN_DOWN4 sz div (RT_ALIGN4 bsize + 8)"
  have t: "unat total = ?n" by (simp add: total_def unat_div_distrib u)
  define k where "k = (mp_kernel s)\<lparr>queues := (queues (mp_kernel s))(Suspended (mp_id mp) := []),
                         ipc_static := (ipc_static (mp_kernel s))(mp_id mp := True)\<rparr>"
  define s2 where "s2 = upd_pool mp (\<lambda>q. q\<lparr>mp_start_address := start, mp_size := RT_ALIGN_DOWN4 sz, mp_block_size := RT_ALIGN4 bsize,
                      block_total_count := total, block_free_count := total\<rparr>) (set_kernel k s)"
  have r: "rt_mp_init mp start sz bsize s = Some (0, init_blocks mp s2)"
    using assms(1-3) sz0 nz by (simp add: rt_mp_init_def Let_def k_def s2_def total_def)
  have f: "mp_start_address (mempools s2 mp) = start" "mp_block_size (mempools s2 mp) = RT_ALIGN4 bsize"
    "block_total_count (mempools s2 mp) = total" "block_free_count (mempools s2 mp) = total" "mp_kernel s2 = k"
    by (simp_all add: s2_def)
  have n: "0 < ?n" using assms(6) by (simp add: div_greater_zero_iff)
  have fit: "?n * ?st \<le> unat sz" using dn div_times_less_eq_dividend[of "unat (RT_ALIGN_DOWN4 sz)" ?st] by linarith
  have ok: "mp_ok mp (mp_blocks mp (init_blocks mp s2)) (init_blocks mp s2)" "mp_heap (init_blocks mp s2) = mp_heap s2"
    "mp_blocks mp (init_blocks mp s2) = map (\<lambda>i. start + of_nat (i * ?st)) [0..<?n]"
    using init_blocks_ok[of mp s2] f n t fit al b0 assms(1,2,5) by simp_all
  have "mp_rel mp (mp_blocks mp (init_blocks mp s2), []) (init_blocks mp s2)"
    using ok(1,2) f(5) by (simp add: mp_rel_def k_def)
  moreover have "unat start \<le> unat x \<and> unat x + 8 + unat bsize \<le> unat start + unat sz" if "x \<in> set (mp_blocks mp (init_blocks mp s2))" for x
  proof -
    obtain i where i: "x = start + of_nat (i * ?st)" "i < ?n" using \<open>x \<in> _\<close> unfolding ok(3) by auto
    have "i * ?st + ?st \<le> ?n * ?st" using i(2) by (metis Suc_leI add.commute mult_Suc mult_le_mono1)
    then have le: "i * ?st + ?st \<le> unat sz" using fit by linarith
    have "unat (of_nat (i * ?st) :: u64) = i * ?st" by (rule unat_of_nat_small) (use le assms(5) in simp)
    then have "unat x = unat start + i * ?st" unfolding i(1) using le assms(5) by (simp add: unat_plus_if')
    then show ?thesis using le al by simp
  qed
  ultimately show ?thesis using r ok(3) by (intro exI[of _ "init_blocks mp s2"]) simp
qed

section \<open>Properties\<close>

text \<open>A pool at 0x100 with two blocks, of which those of \<open>fs\<close> (one at most) are free, and the threads \<open>ws\<close> waiting.\<close>

definition demo_mp :: "u64 list \<Rightarrow> tid list \<Rightarrow> mp_sys" where
  "demo_mp fs ws =
     \<lparr>mp_heap = \<lparr>kernel = demo (Suspended (mp_id 0x100)) ws, items = (\<lambda>x. undefined), memheaps = (\<lambda>h. undefined),
        memheap_list = [], system_heap = 0, bytes = (\<lambda>x. 0), thread_name = (\<lambda>t i. 0), rt_errno = 0\<rparr>,
      mempools = (\<lambda>p. \<lparr>mp_start_address = 0x1000, mp_size = 64, mp_block_size = 24,
        mp_block_list = (case fs of [] \<Rightarrow> 0 | b # _ \<Rightarrow> b), block_total_count = 2, block_free_count = of_nat (List.length fs)\<rparr>),
      cells = (\<lambda>a. if a \<in> set fs then 0 else 0x100)\<rparr>"

lemma demo_mp_rel: "mp_rel 0x100 ([], ws) (demo_mp [] ws)" "mp_rel 0x100 ([0x1020], ws) (demo_mp [0x1020] ws)"
proof -
  have b: "mp_blocks 0x100 (demo_mp fs ws) = [0x1000, 0x1020]" for fs
    by (simp add: mp_blocks_def mp_step_def demo_mp_def upt_rec)
  show "mp_rel 0x100 ([], ws) (demo_mp [] ws)" "mp_rel 0x100 ([0x1020], ws) (demo_mp [0x1020] ws)"
    by (simp_all add: mp_rel_def mp_ok_def b) (simp_all add: demo_mp_def)
qed

text \<open>
  C38. rt_mp_alloc, called by the running thread, implements the abstract pool: it hands out the first free block, and
  without one returns null at once (time 0) or puts the caller in front of the waiting threads, asleep with a clear
  error. The block leaves the free ones, so no two calls get the same one; the kernel invariant is kept and no other
  object and no pool with blocks elsewhere changes.
\<close>

theorem mp_alloc_refines:
  assumes "in_task m b c (mp_kernel s)" "mp_rel mp a s" "timeout_ok time"
  shows "\<exists>r s' a'. rt_mp_alloc mp time s = Some (r, s') \<and> spec_mp_alloc c (time = 0) a = (mp_answer r, a') \<and> mp_rel mp a' s' \<and>
    kinv_at m b (mp_kernel s') \<and> touches (mp_id mp) (mp_kernel s) (mp_kernel s') \<and> mp_local mp s s' \<and>
    (\<forall>t. r = Asleep t \<longrightarrow> st (mp_kernel s') c = RT_THREAD_SUSPEND \<and> error (tcb (mp_kernel s') c) = 0)"
  using mp_alloc_contract[OF assms] by (metis mp_result.distinct(1))

theorem mp_alloc_refines_witness:
  "(\<exists>s'. rt_mp_alloc 0x100 5 (demo_mp [0x1020] []) = Some (Block 0x1028, s') \<and> mp_rel 0x100 ([], []) s') \<and>
   (\<exists>t s'. rt_mp_alloc 0x100 5 (demo_mp [] [2]) = Some (Asleep t, s') \<and> mp_rel 0x100 ([], [1, 2]) s')"
proof
  have t: "in_task 0x7ffffffe 100 (Suc 0) (mp_kernel (demo_mp fs []))" for fs by (simp add: demo_mp_def)
  have v: "timeout_ok 5" by (simp add: timeout_ok_def HALF_def)
  show "\<exists>s'. rt_mp_alloc 0x100 5 (demo_mp [0x1020] []) = Some (Block 0x1028, s') \<and> mp_rel 0x100 ([], []) s'"
  proof -
    obtain r s' a' where "rt_mp_alloc 0x100 5 (demo_mp [0x1020] []) = Some (r, s')"
      "spec_mp_alloc 1 False ([0x1020], []) = (mp_answer r, a')" "mp_rel 0x100 a' s'"
      using mp_alloc_refines[OF t demo_mp_rel(2) v] by auto
    then show ?thesis by (cases r) (auto simp: mp_answer_def)
  qed
  have t2: "in_task 0x7ffffffe 100 (Suc 0) (mp_kernel (demo_mp [] [2]))" by (simp add: demo_mp_def)
  show "\<exists>t s'. rt_mp_alloc 0x100 5 (demo_mp [] [2]) = Some (Asleep t, s') \<and> mp_rel 0x100 ([], [1, 2]) s'"
  proof -
    obtain r s' a' where "rt_mp_alloc 0x100 5 (demo_mp [] [2]) = Some (r, s')"
      "spec_mp_alloc 1 False ([], [2]) = (mp_answer r, a')" "mp_rel 0x100 a' s'"
      using mp_alloc_refines[OF t2 demo_mp_rel(1) v] by auto
    then show ?thesis by (cases r) (auto simp: mp_answer_def)
  qed
qed

text \<open>
  C39. rt_mp_free of a block that was handed out puts it in front of the free ones, of the pool its header names, and
  wakes the first waiting thread with a clear error; the kernel invariant is kept and no other object and no pool
  with blocks elsewhere changes.
\<close>

theorem mp_free_refines:
  assumes "kinv_at m b (mp_kernel s)" "current_thread (mp_kernel s) \<noteq> None" "mp_rel mp (fs, ws) s"
    "x \<in> set (mp_blocks mp s)" "x \<notin> set fs"
  shows "\<exists>s'. rt_mp_free (x + 8) s = Some s' \<and> mp_rel mp (spec_mp_free x (fs, ws)) s' \<and> kinv_at m b (mp_kernel s') \<and>
    touches (mp_id mp) (mp_kernel s) (mp_kernel s') \<and> mp_local mp s s' \<and>
    (\<forall>t ts. ws = t # ts \<longrightarrow> runnable (mp_kernel s') t \<and> error (tcb (mp_kernel s') t) = 0)"
  using mp_free_contract[OF assms] by blast

theorem mp_free_refines_witness:
  "\<exists>s'. rt_mp_free (0x1000 + 8) (demo_mp [] [3, 2]) = Some s' \<and> mp_rel 0x100 ([0x1000], [2]) s' \<and> runnable (mp_kernel s') 3"
proof -
  have k: "kinv_at 0x7ffffffe 100 (mp_kernel (demo_mp [] [3, 2]))" "current_thread (mp_kernel (demo_mp [] [3, 2])) \<noteq> None"
    by (simp_all add: demo_mp_def demo_kinv[of _ "mp_id 0x100"])
  have b: "0x1000 \<in> set (mp_blocks 0x100 (demo_mp [] [3, 2]))" by (simp add: mp_blocks_def mp_step_def demo_mp_def upt_rec)
  from mp_free_refines[OF k demo_mp_rel(1) b] show ?thesis by auto
qed

text \<open>
  A pool smaller than one block: rt_mp_init links no block, but still writes the null pointer that ends the list, one
  step before the start of the pool, and makes the start address the first free block of an empty pool.
\<close>

theorem mp_init_underflow:
  assumes "mp \<noteq> 0" "start \<noteq> 0" "0 < sz" "0 < bsize" "RT_ALIGN4 bsize + 8 \<noteq> 0" "RT_ALIGN_DOWN4 sz < RT_ALIGN4 bsize + 8"
  shows "\<exists>s'. rt_mp_init mp start sz bsize s = Some (0, s') \<and> cells s' (start - (RT_ALIGN4 bsize + 8)) = 0 \<and>
    block_total_count (mempools s' mp) = 0 \<and> mp_block_list (mempools s' mp) = start"
proof -
  have z: "RT_ALIGN_DOWN4 sz div (RT_ALIGN4 bsize + 8) = 0"
    using assms(6) by (simp add: word_less_nat_alt unat_div_distrib flip: unat_eq_0)
  show ?thesis using assms(1-5) by (simp add: rt_mp_init_def Let_def z init_blocks_def)
qed

text \<open>rt_mp_create multiplies without a check: the size it asks for can wrap, and the links run past the memory it gets.\<close>

theorem mp_create_wraps:
  assumes "not_in_interrupt (mp_kernel s)"
  shows "mp_create_size 0x1000000000000001 8 s = Some 16"
  using assms by (simp add: mp_create_size_def RT_ALIGN4_def)

end
