(* ===== verification/RT_RingBlk.thy ===== *)
theory RT_RingBlk
  imports RT_Prelude
begin

text \<open>
  The ring block buffer of \<open>src/rt-thread/components/drivers/src/ringblk_buf.c\<close>: blocks of varying sizes handed out
  from one buffer in ring order. A block is the number of its slot in the array \<open>blk_set\<close>, and the singly linked list
  \<open>blk_list\<close> the list of slot numbers in its order.
\<close>

section \<open>State\<close>

datatype rt_rbb_status = RT_RBB_BLK_UNUSED | RT_RBB_BLK_INITED | RT_RBB_BLK_PUT | RT_RBB_BLK_GET

record rt_rbb_blk =
  blk_status :: rt_rbb_status
  blk_size :: "24 word"
  blk_buf :: u64

record rt_rbb =
  rbb_buf :: u64
  rbb_buf_size :: u64
  blk_set :: "rt_rbb_blk list"
  blk_list :: "nat list"

abbreviation blk :: "rt_rbb \<Rightarrow> nat \<Rightarrow> rt_rbb_blk" where
  "blk rbb b \<equiv> blk_set rbb ! b"

abbreviation size_of :: "rt_rbb \<Rightarrow> nat \<Rightarrow> u64" where
  "size_of rbb b \<equiv> ucast (blk_size (blk rbb b))"

definition upd_blk :: "nat \<Rightarrow> (rt_rbb_blk \<Rightarrow> rt_rbb_blk) \<Rightarrow> rt_rbb \<Rightarrow> rt_rbb" where
  "upd_blk b f rbb = rbb\<lparr>blk_set := (blk_set rbb)[b := f (blk rbb b)]\<rparr>"

section \<open>Operations on blocks\<close>

definition rt_rbb_init :: "u64 \<Rightarrow> u64 \<Rightarrow> rt_rbb_blk list \<Rightarrow> rt_rbb option" where
  "rt_rbb_init buf sz block_set =
     (if buf \<noteq> 0
      then Some \<lparr>rbb_buf = buf, rbb_buf_size = sz, blk_set = map (\<lambda>b. b\<lparr>blk_status := RT_RBB_BLK_UNUSED\<rparr>) block_set, blk_list = []\<rparr>
      else None)"

fun find_empty_blk_in_set :: "rt_rbb_blk list \<Rightarrow> nat \<Rightarrow> nat option" where
  "find_empty_blk_in_set [] i = None"
| "find_empty_blk_in_set (b # bs) i =
     (if blk_status b = RT_RBB_BLK_UNUSED then Some i else find_empty_blk_in_set bs (i + 1))"

text \<open>The assignments of every branch of \<open>rt_rbb_blk_alloc\<close> that succeeds.\<close>

definition place_blk :: "nat \<Rightarrow> u64 \<Rightarrow> u64 \<Rightarrow> rt_rbb \<Rightarrow> rt_rbb" where
  "place_blk b a sz rbb =
     upd_blk b (\<lambda>x. x\<lparr>blk_status := RT_RBB_BLK_INITED, blk_buf := a, blk_size := ucast sz\<rparr>) (rbb\<lparr>blk_list := blk_list rbb @ [b]\<rparr>)"

definition rt_rbb_blk_alloc :: "u64 \<Rightarrow> rt_rbb \<Rightarrow> (nat option \<times> rt_rbb) option" where
  "rt_rbb_blk_alloc sz rbb =
     (if sz < 0x1000000 then
        Some (case find_empty_blk_in_set (blk_set rbb) 0 of
          None \<Rightarrow> (None, rbb)
        | Some b \<Rightarrow>
            if length (blk_list rbb) < length (blk_set rbb) then
              (if blk_list rbb \<noteq> [] then
                 let head = hd (blk_list rbb); tail = last (blk_list rbb);
                     behind = blk_buf (blk rbb tail) + size_of rbb tail
                 in if blk_buf (blk rbb head) \<le> blk_buf (blk rbb tail) then
                      let empty1 = rbb_buf rbb + rbb_buf_size rbb - behind;
                          empty2 = blk_buf (blk rbb head) - rbb_buf rbb
                      in if empty1 \<ge> sz then (Some b, place_blk b behind sz rbb)
                         else if empty2 \<ge> sz then (Some b, place_blk b (rbb_buf rbb) sz rbb)
                         else (None, rbb)
                    else
                      let empty1 = blk_buf (blk rbb head) - behind
                      in if empty1 \<ge> sz then (Some b, place_blk b behind sz rbb) else (None, rbb)
               else (Some b, place_blk b (rbb_buf rbb) sz rbb))
            else (None, rbb))
      else None)"

definition rt_rbb_blk_put :: "nat \<Rightarrow> rt_rbb \<Rightarrow> rt_rbb option" where
  "rt_rbb_blk_put b rbb =
     (if b < length (blk_set rbb) \<and> blk_status (blk rbb b) = RT_RBB_BLK_INITED then Some (upd_blk b (\<lambda>x. x\<lparr>blk_status := RT_RBB_BLK_PUT\<rparr>) rbb) else None)"

fun first_put :: "rt_rbb \<Rightarrow> nat list \<Rightarrow> nat option" where
  "first_put rbb [] = None"
| "first_put rbb (n # ns) = (if blk_status (blk rbb n) = RT_RBB_BLK_PUT then Some n else first_put rbb ns)"

definition rt_rbb_blk_get :: "rt_rbb \<Rightarrow> nat option \<times> rt_rbb" where
  "rt_rbb_blk_get rbb =
     (case first_put rbb (blk_list rbb) of
        None \<Rightarrow> (None, rbb)
      | Some b \<Rightarrow> (Some b, upd_blk b (\<lambda>x. x\<lparr>blk_status := RT_RBB_BLK_GET\<rparr>) rbb))"

definition rt_rbb_blk_free :: "nat \<Rightarrow> rt_rbb \<Rightarrow> rt_rbb option" where
  "rt_rbb_blk_free b rbb =
     (if b < length (blk_set rbb) \<and> blk_status (blk rbb b) \<noteq> RT_RBB_BLK_UNUSED
      then Some (upd_blk b (\<lambda>x. x\<lparr>blk_status := RT_RBB_BLK_UNUSED\<rparr>) (rbb\<lparr>blk_list := remove1 b (blk_list rbb)\<rparr>)) else None)"

definition rt_rbb_blk_size :: "nat \<Rightarrow> rt_rbb \<Rightarrow> u64" where
  "rt_rbb_blk_size b rbb = size_of rbb b"

definition rt_rbb_blk_buf :: "nat \<Rightarrow> rt_rbb \<Rightarrow> u64" where
  "rt_rbb_blk_buf b rbb = blk_buf (blk rbb b)"

definition rt_rbb_get_buf_size :: "rt_rbb \<Rightarrow> u64" where
  "rt_rbb_get_buf_size rbb = rbb_buf_size rbb"

section \<open>Queues of blocks\<close>

text \<open>
  A queue is its first block and their number; block \<open>i\<close> of it is the slot \<open>i\<close> places behind the first in the array.
  The loop keeps the last block taken, the queue, the total size and the buffer.
\<close>

type_synonym blk_queue = "nat \<times> u64"

definition queue_take :: "nat \<Rightarrow> rt_rbb \<Rightarrow> rt_rbb" where
  "queue_take n rbb = upd_blk n (\<lambda>x. x\<lparr>blk_status := RT_RBB_BLK_GET\<rparr>) (rbb\<lparr>blk_list := remove1 n (blk_list rbb)\<rparr>)"

fun queue_get_loop :: "u64 \<Rightarrow> nat list \<Rightarrow> nat option \<Rightarrow> blk_queue \<Rightarrow> u64 \<Rightarrow> rt_rbb \<Rightarrow> u64 \<times> blk_queue \<times> rt_rbb" where
  "queue_get_loop limit [] last_block q acc rbb = (acc, q, rbb)"
| "queue_get_loop limit (n # ns) None q acc rbb =
     (if blk_status (blk rbb n) = RT_RBB_BLK_PUT
      then queue_get_loop limit ns (Some n) (n, 1) (acc + size_of rbb n) (queue_take n rbb)
      else queue_get_loop limit ns None q acc rbb)"
| "queue_get_loop limit (n # ns) (Some l) q acc rbb =
     (if blk_status (blk rbb n) \<noteq> RT_RBB_BLK_PUT \<or> blk_buf (blk rbb l) > blk_buf (blk rbb n) \<or> acc + size_of rbb n > limit
      then (acc, q, rbb)
      else queue_get_loop limit ns (Some n) (fst q, snd q + 1) (acc + size_of rbb n) (queue_take n rbb))"

definition rt_rbb_blk_queue_get :: "u64 \<Rightarrow> blk_queue \<Rightarrow> rt_rbb \<Rightarrow> u64 \<times> blk_queue \<times> rt_rbb" where
  "rt_rbb_blk_queue_get queue_data_len q rbb = queue_get_loop queue_data_len (blk_list rbb) None q 0 rbb"

text \<open>A slot outside the array is no block: \<open>None\<close>.\<close>

fun queue_len_loop :: "nat \<Rightarrow> nat \<Rightarrow> rt_rbb \<Rightarrow> u64 option" where
  "queue_len_loop b 0 rbb = Some 0"
| "queue_len_loop b (Suc k) rbb =
     (if b < length (blk_set rbb) then map_option ((+) (size_of rbb b)) (queue_len_loop (b + 1) k rbb) else None)"

definition rt_rbb_blk_queue_len :: "blk_queue \<Rightarrow> rt_rbb \<Rightarrow> u64 option" where
  "rt_rbb_blk_queue_len q rbb = queue_len_loop (fst q) (unat (snd q)) rbb"

definition rt_rbb_blk_queue_buf :: "blk_queue \<Rightarrow> rt_rbb \<Rightarrow> u64" where
  "rt_rbb_blk_queue_buf q rbb = blk_buf (blk rbb (fst q))"

fun queue_free_loop :: "nat \<Rightarrow> nat \<Rightarrow> rt_rbb \<Rightarrow> rt_rbb option" where
  "queue_free_loop b 0 rbb = Some rbb"
| "queue_free_loop b (Suc k) rbb =
     (case rt_rbb_blk_free b rbb of None \<Rightarrow> None | Some rbb1 \<Rightarrow> queue_free_loop (b + 1) k rbb1)"

definition rt_rbb_blk_queue_free :: "blk_queue \<Rightarrow> rt_rbb \<Rightarrow> rt_rbb option" where
  "rt_rbb_blk_queue_free q rbb = queue_free_loop (fst q) (unat (snd q)) rbb"

fun next_len_loop :: "nat list \<Rightarrow> nat option \<Rightarrow> u64 \<Rightarrow> rt_rbb \<Rightarrow> u64" where
  "next_len_loop [] last_block data_len rbb = data_len"
| "next_len_loop (n # ns) None data_len rbb =
     (if blk_status (blk rbb n) \<noteq> RT_RBB_BLK_PUT then next_len_loop ns None data_len rbb
      else next_len_loop ns (Some n) (data_len + size_of rbb n) rbb)"
| "next_len_loop (n # ns) (Some l) data_len rbb =
     (if blk_status (blk rbb n) \<noteq> RT_RBB_BLK_PUT \<or> blk_buf (blk rbb l) > blk_buf (blk rbb n) then data_len
      else next_len_loop ns (Some n) (data_len + size_of rbb n) rbb)"

definition rt_rbb_next_blk_queue_len :: "rt_rbb \<Rightarrow> u64" where
  "rt_rbb_next_blk_queue_len rbb = next_len_loop (blk_list rbb) None 0 rbb"

end
