(* ===== verification/RT_RingBlk_Props.thy ===== *)
theory RT_RingBlk_Props
  imports RT_RingBlk
begin

text \<open>
  Blocks of a ring block buffer never overlap as long as they are allocated with sizes between 1 and that of the
  buffer and taken one by one; and what happens otherwise.
\<close>

section \<open>Blocks on top of each other\<close>

text \<open>The blocks of a list follow each other, with gaps, between two addresses.\<close>

fun stacked :: "(nat \<Rightarrow> nat) \<Rightarrow> (nat \<Rightarrow> nat) \<Rightarrow> nat \<Rightarrow> nat list \<Rightarrow> nat \<Rightarrow> bool" where
  "stacked B S lo [] hi \<longleftrightarrow> lo \<le> hi"
| "stacked B S lo (x # xs) hi \<longleftrightarrow> lo \<le> B x \<and> 0 < S x \<and> stacked B S (B x + S x) xs hi"

lemma stacked_le: "stacked B S lo xs hi \<Longrightarrow> lo \<le> hi"
  by (induction xs arbitrary: lo) force+

lemma stacked_mono: "stacked B S lo xs hi \<Longrightarrow> lo' \<le> lo \<Longrightarrow> hi \<le> hi' \<Longrightarrow> stacked B S lo' xs hi'"
  by (induction xs arbitrary: lo lo') auto

lemma stacked_snoc: "stacked B S lo (xs @ [x]) hi \<longleftrightarrow> stacked B S lo xs (B x) \<and> 0 < S x \<and> B x + S x \<le> hi"
  by (induction xs arbitrary: lo) auto

lemma stacked_cong:
  "(\<And>x. x \<in> set xs \<Longrightarrow> B x = B' x \<and> S x = S' x) \<Longrightarrow> stacked B S lo xs hi = stacked B' S' lo xs hi"
  by (induction xs arbitrary: lo) auto

lemma stacked_remove1: "stacked B S lo xs hi \<Longrightarrow> stacked B S lo (remove1 b xs) hi"
  by (induction xs arbitrary: lo) (auto intro: stacked_mono)

lemma stacked_bounds: "stacked B S lo xs hi \<Longrightarrow> x \<in> set xs \<Longrightarrow> lo \<le> B x \<and> B x + S x \<le> hi \<and> 0 < S x"
proof (induction xs arbitrary: lo)
  case (Cons a xs)
  have "B a + S a \<le> hi" using Cons.prems(1) stacked_le by auto
  then show ?case using Cons by fastforce
qed simp

lemma stacked_hd: "stacked B S lo xs hi \<Longrightarrow> xs \<noteq> [] \<Longrightarrow> stacked B S (B (hd xs)) xs hi \<and> lo \<le> B (hd xs)"
  by (cases xs) auto

lemma stacked_last: "stacked B S lo xs hi \<Longrightarrow> xs \<noteq> [] \<Longrightarrow> stacked B S lo xs (B (last xs) + S (last xs))"
  by (cases xs rule: rev_cases) (auto simp: stacked_snoc)

lemma stacked_apart:
  "stacked B S lo xs hi \<Longrightarrow> x \<in> set xs \<Longrightarrow> y \<in> set xs \<Longrightarrow> x \<noteq> y \<Longrightarrow> B x + S x \<le> B y \<or> B y + S y \<le> B x"
proof (induction xs arbitrary: lo)
  case (Cons z zs)
  have "w \<in> set zs \<Longrightarrow> B z + S z \<le> B w" for w using Cons.prems(1) stacked_bounds[of B S "B z + S z" zs hi w] by simp
  then show ?case using Cons by auto
qed simp

section \<open>The invariant\<close>

abbreviation blk_at :: "rt_rbb \<Rightarrow> nat \<Rightarrow> nat" where
  "blk_at rbb b \<equiv> unat (blk_buf (blk rbb b))"

abbreviation blk_len :: "rt_rbb \<Rightarrow> nat \<Rightarrow> nat" where
  "blk_len rbb b \<equiv> unat (blk_size (blk rbb b))"

abbreviation rbb_lo :: "rt_rbb \<Rightarrow> nat" where
  "rbb_lo rbb \<equiv> unat (rbb_buf rbb)"

abbreviation rbb_hi :: "rt_rbb \<Rightarrow> nat" where
  "rbb_hi rbb \<equiv> unat (rbb_buf rbb) + unat (rbb_buf_size rbb)"

text \<open>The blocks in use, oldest first, go up through the buffer, or up to its end and then on from its start.\<close>

definition ring_layout :: "(nat \<Rightarrow> nat) \<Rightarrow> (nat \<Rightarrow> nat) \<Rightarrow> nat \<Rightarrow> nat list \<Rightarrow> nat \<Rightarrow> bool" where
  "ring_layout B S lo bs hi \<longleftrightarrow> stacked B S lo bs hi \<or>
     (\<exists>xs ys. bs = xs @ ys \<and> xs \<noteq> [] \<and> ys \<noteq> [] \<and> stacked B S lo ys (B (hd xs)) \<and> stacked B S (B (hd xs)) xs hi)"

definition rbb_ok :: "rt_rbb \<Rightarrow> bool" where
  "rbb_ok rbb \<longleftrightarrow> rbb_hi rbb < 2 ^ 64 \<and> distinct (blk_list rbb) \<and>
     (\<forall>b. b \<in> set (blk_list rbb) \<longleftrightarrow> b < length (blk_set rbb) \<and> blk_status (blk rbb b) \<noteq> RT_RBB_BLK_UNUSED) \<and>
     ring_layout (blk_at rbb) (blk_len rbb) (rbb_lo rbb) (blk_list rbb) (rbb_hi rbb)"

lemma layout_apart:
  assumes "ring_layout B S lo bs hi"
  shows "x \<in> set bs \<Longrightarrow> lo \<le> B x \<and> B x + S x \<le> hi \<and> 0 < S x"
    "x \<in> set bs \<Longrightarrow> y \<in> set bs \<Longrightarrow> x \<noteq> y \<Longrightarrow> B x + S x \<le> B y \<or> B y + S y \<le> B x"
proof -
  consider (plain) "stacked B S lo bs hi"
    | (wrapped) xs ys where "bs = xs @ ys" "stacked B S lo ys (B (hd xs))" "stacked B S (B (hd xs)) xs hi"
    using assms unfolding ring_layout_def by blast
  then have "(\<forall>x \<in> set bs. lo \<le> B x \<and> B x + S x \<le> hi \<and> 0 < S x) \<and>
    (\<forall>x \<in> set bs. \<forall>y \<in> set bs. x \<noteq> y \<longrightarrow> B x + S x \<le> B y \<or> B y + S y \<le> B x)"
  proof cases
    case plain
    then show ?thesis using stacked_bounds[OF plain] stacked_apart[OF plain] by blast
  next
    case wrapped
    have l: "x \<in> set ys \<Longrightarrow> lo \<le> B x \<and> B x + S x \<le> B (hd xs) \<and> 0 < S x" for x using stacked_bounds[OF wrapped(2)] .
    have u: "x \<in> set xs \<Longrightarrow> B (hd xs) \<le> B x \<and> B x + S x \<le> hi \<and> 0 < S x" for x using stacked_bounds[OF wrapped(3)] .
    have le: "lo \<le> B (hd xs)" "B (hd xs) \<le> hi" using stacked_le[OF wrapped(2)] stacked_le[OF wrapped(3)] by auto
    have "x \<in> set bs \<Longrightarrow> lo \<le> B x \<and> B x + S x \<le> hi \<and> 0 < S x" for x
      using l[of x] u[of x] le unfolding wrapped(1) by fastforce
    moreover have "B x + S x \<le> B y \<or> B y + S y \<le> B x" if "x \<in> set bs" "y \<in> set bs" "x \<noteq> y" for x y
      using that l[of x] l[of y] u[of x] u[of y] stacked_apart[OF wrapped(2), of x y] stacked_apart[OF wrapped(3), of x y]
      unfolding wrapped(1) by fastforce
    ultimately show ?thesis by blast
  qed
  then show "x \<in> set bs \<Longrightarrow> lo \<le> B x \<and> B x + S x \<le> hi \<and> 0 < S x"
    "x \<in> set bs \<Longrightarrow> y \<in> set bs \<Longrightarrow> x \<noteq> y \<Longrightarrow> B x + S x \<le> B y \<or> B y + S y \<le> B x" by blast+
qed

lemma layout_remove:
  assumes "ring_layout B S lo bs hi"
  shows "ring_layout B S lo (remove1 b bs) hi"
proof -
  consider (plain) "stacked B S lo bs hi"
    | (wrapped) xs ys where "bs = xs @ ys" "xs \<noteq> []" "ys \<noteq> []" "stacked B S lo ys (B (hd xs))" "stacked B S (B (hd xs)) xs hi"
    using assms unfolding ring_layout_def by blast
  then show ?thesis
  proof cases
    case plain
    then show ?thesis using stacked_remove1 by (auto simp: ring_layout_def)
  next
    case wrapped
    show ?thesis
    proof (cases "b \<in> set xs")
      case True
      let ?xs = "remove1 b xs"
      have r: "remove1 b bs = ?xs @ ys" using True wrapped(1) by (simp add: remove1_append)
      have x: "stacked B S (B (hd xs)) ?xs hi" by (rule stacked_remove1[OF wrapped(5)])
      show ?thesis
      proof (cases "?xs = []")
        case True
        then show ?thesis unfolding r ring_layout_def using stacked_mono[OF wrapped(4) le_refl stacked_le[OF wrapped(5)]] by simp
      next
        case False
        then have "stacked B S (B (hd ?xs)) ?xs hi" "stacked B S lo ys (B (hd ?xs))"
          using stacked_hd[OF x] stacked_mono[OF wrapped(4) le_refl] by auto
        then show ?thesis unfolding r ring_layout_def using False wrapped(3) by blast
      qed
    next
      case False
      let ?ys = "remove1 b ys"
      have r: "remove1 b bs = xs @ ?ys" using False wrapped(1) by (simp add: remove1_append)
      have y: "stacked B S lo ?ys (B (hd xs))" by (rule stacked_remove1[OF wrapped(4)])
      show ?thesis
      proof (cases "?ys = []")
        case True
        then show ?thesis unfolding r ring_layout_def using stacked_mono[OF wrapped(5) stacked_le[OF wrapped(4)] le_refl] by simp
      next
        case False
        then show ?thesis unfolding r ring_layout_def using wrapped(2,5) y by blast
      qed
    qed
  qed
qed

section \<open>The operations keep the invariant\<close>

lemma find_empty_blk_Some:
  "find_empty_blk_in_set bs i = Some b \<Longrightarrow> i \<le> b \<and> b < i + length bs \<and> blk_status (bs ! (b - i)) = RT_RBB_BLK_UNUSED"
proof (induction bs arbitrary: i)
  case (Cons a bs)
  show ?case
  proof (cases "blk_status a = RT_RBB_BLK_UNUSED")
    case False
    then have f: "find_empty_blk_in_set bs (i + 1) = Some b" using Cons.prems by simp
    have "i + 1 \<le> b" "b < i + 1 + length bs" "blk_status (bs ! (b - (i + 1))) = RT_RBB_BLK_UNUSED" using Cons.IH[OF f] by auto
    moreover have "b - i = Suc (b - (i + 1))" using calculation(1) by simp
    ultimately show ?thesis by simp
  qed (use Cons.prems in auto)
qed simp

lemma upd_blk_sel [simp]:
  "rbb_buf (upd_blk b f rbb) = rbb_buf rbb" "rbb_buf_size (upd_blk b f rbb) = rbb_buf_size rbb"
  "blk_list (upd_blk b f rbb) = blk_list rbb" "length (blk_set (upd_blk b f rbb)) = length (blk_set rbb)"
  by (simp_all add: upd_blk_def)

lemma blk_upd_blk: "b < length (blk_set rbb) \<Longrightarrow> blk (upd_blk b f rbb) x = (if x = b then f (blk rbb b) else blk rbb x)"
  by (simp add: upd_blk_def nth_list_update)

text \<open>Operations that only move a used block on to another used status.\<close>

lemma rbb_ok_status:
  assumes "rbb_ok rbb" "b < length (blk_set rbb)" "blk_status (blk rbb b) \<noteq> RT_RBB_BLK_UNUSED" "t \<noteq> RT_RBB_BLK_UNUSED"
  shows "rbb_ok (upd_blk b (\<lambda>x. x\<lparr>blk_status := t\<rparr>) rbb)"
proof -
  let ?r = "upd_blk b (\<lambda>x. x\<lparr>blk_status := t\<rparr>) rbb"
  have "blk_at ?r = blk_at rbb" "blk_len ?r = blk_len rbb" by (auto simp: fun_eq_iff blk_upd_blk[OF assms(2)])
  then show ?thesis using assms by (simp add: rbb_ok_def blk_upd_blk)
qed

lemma rbb_ok_put: "rbb_ok rbb \<Longrightarrow> rt_rbb_blk_put b rbb = Some rbb' \<Longrightarrow> rbb_ok rbb'"
  by (auto simp: rt_rbb_blk_put_def intro: rbb_ok_status split: if_splits)

lemma first_put_Some: "first_put rbb ns = Some b \<Longrightarrow> b \<in> set ns \<and> blk_status (blk rbb b) = RT_RBB_BLK_PUT"
  by (induction ns) (auto split: if_splits)

lemma rbb_ok_get:
  assumes "rbb_ok rbb"
  shows "rbb_ok (snd (rt_rbb_blk_get rbb))"
proof (cases "first_put rbb (blk_list rbb)")
  case None
  then show ?thesis using assms by (simp add: rt_rbb_blk_get_def)
next
  case (Some b)
  then have "b < length (blk_set rbb)" "blk_status (blk rbb b) \<noteq> RT_RBB_BLK_UNUSED"
    using assms first_put_Some[OF Some] by (auto simp: rbb_ok_def)
  then show ?thesis using assms Some by (simp add: rt_rbb_blk_get_def rbb_ok_status)
qed

lemma rbb_ok_free:
  assumes "rbb_ok rbb" "rt_rbb_blk_free b rbb = Some rbb'"
  shows "rbb_ok rbb'"
proof -
  have b: "b < length (blk_set rbb)" and r: "rbb' = upd_blk b (\<lambda>x. x\<lparr>blk_status := RT_RBB_BLK_UNUSED\<rparr>) (rbb\<lparr>blk_list := remove1 b (blk_list rbb)\<rparr>)"
    using assms(2) by (auto simp: rt_rbb_blk_free_def split: if_splits)
  have e: "blk_at rbb' = blk_at rbb" "blk_len rbb' = blk_len rbb" using b by (auto simp: fun_eq_iff r blk_upd_blk)
  have "ring_layout (blk_at rbb) (blk_len rbb) (rbb_lo rbb) (remove1 b (blk_list rbb)) (rbb_hi rbb)"
    using assms(1) by (intro layout_remove) (simp add: rbb_ok_def)
  then show ?thesis using assms(1) b unfolding rbb_ok_def e by (auto simp: r blk_upd_blk)
qed

text \<open>Where \<open>rt_rbb_blk_alloc\<close> puts a block, as a step on layouts.\<close>

lemma stacked_upd: "b \<notin> set bs \<Longrightarrow> stacked (B(b := a)) (S(b := z)) lo bs hi = stacked B S lo bs hi"
  by (rule stacked_cong) auto

lemma stacked_push:
  assumes "stacked B S lo bs hi" "b \<notin> set bs" "bs \<noteq> []" "0 < z" "B (last bs) + S (last bs) + z \<le> hi"
  shows "stacked (B(b := B (last bs) + S (last bs))) (S(b := z)) lo (bs @ [b]) hi"
  using assms stacked_last[OF assms(1,3)] by (simp add: stacked_snoc stacked_upd)

lemma stacked_ends: "stacked B S lo bs hi \<Longrightarrow> bs \<noteq> [] \<Longrightarrow> lo \<le> B (hd bs) \<and> B (hd bs) \<le> B (last bs) \<and> B (last bs) + S (last bs) \<le> hi"
proof -
  assume s: "stacked B S lo bs hi" and n: "bs \<noteq> []"
  have "B (hd bs) \<le> B (last bs)" using stacked_bounds[of B S "B (hd bs)" bs hi "last bs"] stacked_hd[OF s n] n by simp
  then show ?thesis using stacked_bounds[OF s, of "hd bs"] stacked_bounds[OF s, of "last bs"] n by simp
qed

lemma layout_push:
  assumes "ring_layout B S lo bs hi" "b \<notin> set bs" "bs \<noteq> []" "0 < z"
    "B (last bs) + S (last bs) + z \<le> (if B (hd bs) \<le> B (last bs) then hi else B (hd bs))"
  shows "ring_layout (B(b := B (last bs) + S (last bs))) (S(b := z)) lo (bs @ [b]) hi"
proof -
  consider (plain) "stacked B S lo bs hi"
    | (wrapped) xs ys where "bs = xs @ ys" "xs \<noteq> []" "ys \<noteq> []" "stacked B S lo ys (B (hd xs))" "stacked B S (B (hd xs)) xs hi"
    using assms(1) unfolding ring_layout_def by blast
  then show ?thesis
  proof cases
    case plain
    then show ?thesis
      unfolding ring_layout_def using stacked_push[OF plain assms(2-4)] stacked_ends[OF plain assms(3)] assms(5) by simp
  next
    case wrapped
    let ?B = "B(b := B (last bs) + S (last bs))" and ?S = "S(b := z)"
    have l: "last bs = last ys" "hd bs = hd xs" "b \<notin> set xs" "b \<notin> set ys" "hd xs \<noteq> b" using wrapped(1-3) assms(2) by auto
    have "B (last ys) < B (hd xs)" using stacked_bounds[OF wrapped(4), of "last ys"] wrapped(3) by auto
    then have room: "B (last ys) + S (last ys) + z \<le> B (hd xs)" using assms(5) unfolding l by simp
    have "stacked ?B ?S lo (ys @ [b]) (?B (hd xs))" unfolding l
      using stacked_push[OF wrapped(4) l(4) wrapped(3) assms(4) room] l(5) by simp
    moreover have "stacked ?B ?S (?B (hd xs)) xs hi" using wrapped(5) l(3,5) by (simp add: stacked_upd)
    moreover have "bs @ [b] = xs @ (ys @ [b])" using wrapped(1) by simp
    ultimately show ?thesis unfolding ring_layout_def using wrapped(2) by blast
  qed
qed

lemma layout_wrap:
  assumes "ring_layout B S lo bs hi" "b \<notin> set bs" "bs \<noteq> []" "0 < z" "B (hd bs) \<le> B (last bs)" "lo + z \<le> B (hd bs)"
  shows "ring_layout (B(b := lo)) (S(b := z)) lo (bs @ [b]) hi"
proof -
  have plain: "stacked B S lo bs hi"
  proof (rule ccontr)
    assume "\<not> stacked B S lo bs hi"
    then obtain xs ys where w: "bs = xs @ ys" "xs \<noteq> []" "ys \<noteq> []" "stacked B S lo ys (B (hd xs))"
      using assms(1) unfolding ring_layout_def by blast
    then show False using stacked_bounds[OF w(4), of "last ys"] assms(5) by auto
  qed
  have h: "hd bs \<noteq> b" using assms(2,3) by auto
  have "stacked (B(b := lo)) (S(b := z)) lo [b] ((B(b := lo)) (hd bs))" using h assms(4,6) by simp
  moreover have "stacked (B(b := lo)) (S(b := z)) ((B(b := lo)) (hd bs)) bs hi"
    using stacked_hd[OF plain assms(3)] h assms(2) by (simp add: stacked_upd)
  ultimately show ?thesis unfolding ring_layout_def using assms(3) by blast
qed

lemma rbb_ok_place:
  assumes "rbb_ok rbb" "b < length (blk_set rbb)" "b \<notin> set (blk_list rbb)" "sz < 0x1000000"
    "ring_layout ((blk_at rbb)(b := unat a)) ((blk_len rbb)(b := unat sz)) (rbb_lo rbb) (blk_list rbb @ [b]) (rbb_hi rbb)"
  shows "rbb_ok (place_blk b a sz rbb)"
proof -
  let ?r = "place_blk b a sz rbb"
  have "unat sz < 2 ^ 24" using assms(4) by (simp add: word_less_nat_alt)
  then have "unat (ucast sz :: 24 word) = unat sz" by (simp add: unsigned_ucast_eq take_bit_nat_eq_self)
  then have "blk_at ?r = (blk_at rbb)(b := unat a)" "blk_len ?r = (blk_len rbb)(b := unat sz)"
    using assms(2) by (auto simp: fun_eq_iff place_blk_def blk_upd_blk)
  then show ?thesis using assms unfolding rbb_ok_def by (auto simp: place_blk_def blk_upd_blk)
qed

lemma unat_add_below: "unat (x::u64) + unat y < 2 ^ 64 \<Longrightarrow> unat (x + y) = unat x + unat y"
  by (simp add: unat_word_ariths)

lemma unat_sz_of [simp]: "unat (size_of rbb b) = blk_len rbb b"
  by (simp add: unsigned_ucast_eq take_bit_nat_eq_self less_le_trans[OF unsigned_less])

lemma word_room: "unat (b::u64) \<le> unat c \<Longrightarrow> sz \<le> c - b \<longleftrightarrow> unat b + unat sz \<le> unat c"
  by (auto simp: word_le_nat_alt unat_sub)

lemma rbb_ok_alloc:
  assumes ok: "rbb_ok rbb" and sz: "0 < sz" "sz \<le> rbb_buf_size rbb" and run: "rt_rbb_blk_alloc sz rbb = Some (r, rbb')"
  shows "rbb_ok rbb'"
proof (cases "rbb' = rbb")
  case False
  let ?bs = "blk_list rbb" and ?B = "blk_at rbb" and ?S = "blk_len rbb"
  obtain b where b: "find_empty_blk_in_set (blk_set rbb) 0 = Some b"
    using run False by (auto simp: rt_rbb_blk_alloc_def split: if_splits option.splits)
  have lt: "sz < 0x1000000" using run by (auto simp: rt_rbb_blk_alloc_def split: if_splits)
  have lay: "ring_layout ?B ?S (rbb_lo rbb) ?bs (rbb_hi rbb)" and hi: "rbb_hi rbb < 2 ^ 64" using ok by (auto simp: rbb_ok_def)
  have bn: "b < length (blk_set rbb)" "b \<notin> set ?bs" using find_empty_blk_Some[OF b] ok by (auto simp: rbb_ok_def)
  have z: "0 < unat sz" "rbb_lo rbb + unat sz \<le> rbb_hi rbb" using sz by (auto simp: word_less_nat_alt word_le_nat_alt)
  have place: "rbb_ok (place_blk b a sz rbb)" if "ring_layout (?B(b := unat a)) (?S(b := unat sz)) (rbb_lo rbb) (?bs @ [b]) (rbb_hi rbb)" for a
    using rbb_ok_place[OF ok bn lt that] .
  have end_eq: "unat (rbb_buf rbb + rbb_buf_size rbb) = rbb_hi rbb" using hi by (rule unat_add_below)
  show ?thesis
  proof (cases "?bs = []")
    case True
    then have r: "rbb' = place_blk b (rbb_buf rbb) sz rbb"
      using run b lt False by (auto simp: rt_rbb_blk_alloc_def split: if_splits)
    show ?thesis unfolding r using z True by (intro place) (simp add: ring_layout_def)
  next
    case ne: False
    let ?h = "hd ?bs" and ?t = "last ?bs"
    let ?behind = "blk_buf (blk rbb ?t) + size_of rbb ?t"
    have t: "?t \<in> set ?bs" "?h \<in> set ?bs" using ne by auto
    have bt: "?B ?t + ?S ?t \<le> rbb_hi rbb" "rbb_lo rbb \<le> ?B ?h" using layout_apart(1)[OF lay t(1)] layout_apart(1)[OF lay t(2)] by auto
    have be: "unat ?behind = ?B ?t + ?S ?t" using unat_add_below[of "blk_buf (blk rbb ?t)" "size_of rbb ?t"] bt hi by simp
    have cmp: "blk_buf (blk rbb ?h) \<le> blk_buf (blk rbb ?t) \<longleftrightarrow> ?B ?h \<le> ?B ?t" by (simp add: word_le_nat_alt)
    have push: "rbb_ok (place_blk b ?behind sz rbb)"
      if "?B ?t + ?S ?t + unat sz \<le> (if ?B ?h \<le> ?B ?t then rbb_hi rbb else ?B ?h)"
      by (rule place) (use layout_push[OF lay bn(2) ne z(1) that] be in simp)
    show ?thesis
    proof (cases "?B ?h \<le> ?B ?t")
      case up: True
      have e1: "sz \<le> rbb_buf rbb + rbb_buf_size rbb - ?behind \<longleftrightarrow> ?B ?t + ?S ?t + unat sz \<le> rbb_hi rbb"
        using word_room[of ?behind "rbb_buf rbb + rbb_buf_size rbb" sz] be end_eq bt by simp
      have e2: "sz \<le> blk_buf (blk rbb ?h) - rbb_buf rbb \<longleftrightarrow> rbb_lo rbb + unat sz \<le> ?B ?h" by (rule word_room[OF bt(2)])
      have "rbb' = place_blk b ?behind sz rbb \<and> ?B ?t + ?S ?t + unat sz \<le> rbb_hi rbb \<or>
        rbb' = place_blk b (rbb_buf rbb) sz rbb \<and> rbb_lo rbb + unat sz \<le> ?B ?h"
        using run False up unfolding rt_rbb_blk_alloc_def Let_def cmp e1 e2 b by (auto simp: ne lt split: if_splits)
      then show ?thesis using push up place layout_wrap[OF lay bn(2) ne z(1) up] by auto
    next
      case down: False
      have th: "?t \<noteq> ?h" using down by force
      have bh: "?B ?t + ?S ?t \<le> ?B ?h"
        using layout_apart(2)[OF lay t th] layout_apart(1)[OF lay t(2)] down by linarith
      have e: "sz \<le> blk_buf (blk rbb ?h) - ?behind \<longleftrightarrow> ?B ?t + ?S ?t + unat sz \<le> ?B ?h"
        using word_room[of ?behind "blk_buf (blk rbb ?h)" sz] be bh by simp
      have "rbb' = place_blk b ?behind sz rbb \<and> ?B ?t + ?S ?t + unat sz \<le> ?B ?h"
        using run False down unfolding rt_rbb_blk_alloc_def Let_def cmp e b by (auto simp: ne lt split: if_splits)
      then show ?thesis using push down by auto
    qed
  qed
qed (use ok in simp)

section \<open>Runs\<close>

datatype rbb_op = Blk_Alloc u64 | Blk_Put nat | Blk_Get | Blk_Free nat

fun rbb_step :: "rbb_op \<Rightarrow> rt_rbb \<Rightarrow> rt_rbb option" where
  "rbb_step (Blk_Alloc n) rbb = map_option snd (rt_rbb_blk_alloc n rbb)"
| "rbb_step (Blk_Put b) rbb = rt_rbb_blk_put b rbb"
| "rbb_step Blk_Get rbb = Some (snd (rt_rbb_blk_get rbb))"
| "rbb_step (Blk_Free b) rbb = rt_rbb_blk_free b rbb"

fun rbb_run :: "rbb_op list \<Rightarrow> rt_rbb \<Rightarrow> rt_rbb option" where
  "rbb_run [] rbb = Some rbb"
| "rbb_run (p # ps) rbb = (case rbb_step p rbb of None \<Rightarrow> None | Some rbb1 \<Rightarrow> rbb_run ps rbb1)"

text \<open>The requests the buffer can serve: blocks that are not empty and not larger than it.\<close>

fun op_fits :: "u64 \<Rightarrow> rbb_op \<Rightarrow> bool" where
  "op_fits cap (Blk_Alloc n) \<longleftrightarrow> 0 < n \<and> n \<le> cap"
| "op_fits cap p \<longleftrightarrow> True"

lemma place_blk_buf: "rbb_buf (place_blk b a n rbb) = rbb_buf rbb" "rbb_buf_size (place_blk b a n rbb) = rbb_buf_size rbb"
  by (simp_all add: place_blk_def)

lemma alloc_buf: "rt_rbb_blk_alloc n rbb = Some (r, rbb') \<Longrightarrow> rbb_buf rbb' = rbb_buf rbb \<and> rbb_buf_size rbb' = rbb_buf_size rbb"
  unfolding rt_rbb_blk_alloc_def Let_def by (simp add: place_blk_buf split: if_split_asm option.split_asm) (auto simp: place_blk_buf)

lemma rbb_step_buf: "rbb_step p rbb = Some rbb' \<Longrightarrow> rbb_buf rbb' = rbb_buf rbb \<and> rbb_buf_size rbb' = rbb_buf_size rbb"
proof (induction p rbb rule: rbb_step.induct)
  case (1 n rbb)
  then obtain r where "rt_rbb_blk_alloc n rbb = Some (r, rbb')" by auto
  then show ?case by (rule alloc_buf)
next
  case (2 b rbb)
  then show ?case by (simp add: rt_rbb_blk_put_def split: if_split_asm) force
next
  case (3 rbb)
  then have "rbb' = snd (rt_rbb_blk_get rbb)" by simp
  then show ?case by (simp only: rt_rbb_blk_get_def) (simp split: option.split)
next
  case (4 b rbb)
  then show ?case by (simp add: rt_rbb_blk_free_def split: if_split_asm) force
qed

lemma rbb_step_ok: "rbb_ok rbb \<Longrightarrow> op_fits (rbb_buf_size rbb) p \<Longrightarrow> rbb_step p rbb = Some rbb' \<Longrightarrow> rbb_ok rbb'"
proof (induction p rbb rule: rbb_step.induct)
  case (1 n rbb)
  then obtain r where "rt_rbb_blk_alloc n rbb = Some (r, rbb')" by auto
  then show ?case using 1(1,2) rbb_ok_alloc[of rbb n r rbb'] by simp
next
  case (2 b rbb)
  then show ?case using rbb_ok_put[of rbb b rbb'] by simp
next
  case (3 rbb)
  then show ?case using rbb_ok_get[of rbb] by simp
next
  case (4 b rbb)
  then show ?case using rbb_ok_free[of rbb b rbb'] by simp
qed

lemma rbb_run_ok:
  "rbb_ok rbb \<Longrightarrow> list_all (op_fits (rbb_buf_size rbb)) ps \<Longrightarrow> rbb_run ps rbb = Some rbb' \<Longrightarrow>
     rbb_ok rbb' \<and> rbb_buf rbb' = rbb_buf rbb \<and> rbb_buf_size rbb' = rbb_buf_size rbb"
proof (induction ps arbitrary: rbb)
  case (Cons p ps)
  obtain rbb1 where s: "rbb_step p rbb = Some rbb1" "rbb_run ps rbb1 = Some rbb'" using Cons.prems(3) by (auto split: option.splits)
  then show ?case using Cons.IH[of rbb1] Cons.prems(1,2) rbb_step_ok[OF _ _ s(1)] rbb_step_buf[OF s(1)] by simp
qed simp

lemma rbb_ok_init:
  assumes "rt_rbb_init buf sz bs = Some rbb" "unat buf + unat sz < 2 ^ 64"
  shows "rbb_ok rbb \<and> rbb_buf rbb = buf \<and> rbb_buf_size rbb = sz"
  using assms by (auto simp: rt_rbb_init_def rbb_ok_def ring_layout_def split: if_splits)

text \<open>C0. Whatever sequence of allocations (of blocks that are not empty and not larger than the buffer), puts, gets and
  frees follows \<open>rt_rbb_init\<close>, every block in use lies inside the buffer and no two of them share a byte.\<close>

theorem rbb_run_disjoint:
  assumes "rt_rbb_init buf sz bs = Some rbb" "unat buf + unat sz < 2 ^ 64"
    "list_all (op_fits sz) ps" "rbb_run ps rbb = Some rbb'"
    "b < length (blk_set rbb')" "blk_status (blk rbb' b) \<noteq> RT_RBB_BLK_UNUSED"
  shows "unat buf \<le> unat (rt_rbb_blk_buf b rbb') \<and>
      unat (rt_rbb_blk_buf b rbb') + unat (rt_rbb_blk_size b rbb') \<le> unat buf + unat sz \<and>
      (\<forall>c < length (blk_set rbb'). c \<noteq> b \<longrightarrow> blk_status (blk rbb' c) \<noteq> RT_RBB_BLK_UNUSED \<longrightarrow>
         unat (rt_rbb_blk_buf b rbb') + unat (rt_rbb_blk_size b rbb') \<le> unat (rt_rbb_blk_buf c rbb') \<or>
         unat (rt_rbb_blk_buf c rbb') + unat (rt_rbb_blk_size c rbb') \<le> unat (rt_rbb_blk_buf b rbb'))"
proof -
  have i: "rbb_ok rbb" "rbb_buf rbb = buf" "rbb_buf_size rbb = sz" using rbb_ok_init[OF assms(1,2)] by auto
  have ok: "rbb_ok rbb'" and e: "rbb_buf rbb' = buf" "rbb_buf_size rbb' = sz"
    using rbb_run_ok[OF i(1) _ assms(4)] assms(3) i(2,3) by auto
  have lay: "ring_layout (blk_at rbb') (blk_len rbb') (rbb_lo rbb') (blk_list rbb') (rbb_hi rbb')" using ok by (simp add: rbb_ok_def)
  have used: "c \<in> set (blk_list rbb')" if "c < length (blk_set rbb')" "blk_status (blk rbb' c) \<noteq> RT_RBB_BLK_UNUSED" for c
    using ok that by (simp add: rbb_ok_def)
  have b: "b \<in> set (blk_list rbb')" by (rule used[OF assms(5,6)])
  have inside: "unat buf \<le> blk_at rbb' b" "blk_at rbb' b + blk_len rbb' b \<le> unat buf + unat sz"
    using layout_apart(1)[OF lay b] e by auto
  have apart: "blk_at rbb' b + blk_len rbb' b \<le> blk_at rbb' c \<or> blk_at rbb' c + blk_len rbb' c \<le> blk_at rbb' b"
    if "c < length (blk_set rbb')" "c \<noteq> b" "blk_status (blk rbb' c) \<noteq> RT_RBB_BLK_UNUSED" for c
    using layout_apart(2)[OF lay b used[OF that(1,3)]] that(2) by blast
  show ?thesis unfolding rt_rbb_blk_buf_def rt_rbb_blk_size_def unat_sz_of using inside apart by blast
qed

text \<open>A buffer of 16 bytes at \<open>0x1000\<close> with four slots.\<close>

definition free_slot :: rt_rbb_blk where
  "free_slot = \<lparr>blk_status = RT_RBB_BLK_UNUSED, blk_size = 0, blk_buf = 0\<rparr>"

definition small_rbb :: rt_rbb where
  "small_rbb = \<lparr>rbb_buf = 0x1000, rbb_buf_size = 16, blk_set = replicate 4 free_slot, blk_list = []\<rparr>"

definition small_ops :: "rbb_op list" where
  "small_ops = [Blk_Alloc 8, Blk_Alloc 8, Blk_Free 0, Blk_Alloc 4, Blk_Put 1, Blk_Get, Blk_Alloc 4]"

definition small_end :: rt_rbb where
  "small_end = \<lparr>rbb_buf = 0x1000, rbb_buf_size = 16,
     blk_set = [\<lparr>blk_status = RT_RBB_BLK_INITED, blk_size = 4, blk_buf = 0x1000\<rparr>,
       \<lparr>blk_status = RT_RBB_BLK_GET, blk_size = 8, blk_buf = 0x1008\<rparr>,
       \<lparr>blk_status = RT_RBB_BLK_INITED, blk_size = 4, blk_buf = 0x1004\<rparr>, free_slot], blk_list = [1, 0, 2]\<rparr>"

lemmas rbb_eval = small_rbb_def free_slot_def rt_rbb_blk_alloc_def place_blk_def upd_blk_def rt_rbb_blk_put_def rt_rbb_blk_get_def
  rt_rbb_blk_free_def numeral_eq_Suc

lemma small_init: "rt_rbb_init 0x1000 16 (replicate 4 free_slot) = Some small_rbb"
  by (simp add: rt_rbb_init_def small_rbb_def free_slot_def)

lemma small_run: "rbb_run small_ops small_rbb = Some small_end"
  by code_simp

lemma rbb_run_disjoint_witness:
  "(unat (rt_rbb_blk_buf 2 small_end) + unat (rt_rbb_blk_size 2 small_end) \<le> unat (rt_rbb_blk_buf 1 small_end) \<or>
    unat (rt_rbb_blk_buf 1 small_end) + unat (rt_rbb_blk_size 1 small_end) \<le> unat (rt_rbb_blk_buf 2 small_end))"
  using rbb_run_disjoint[OF small_init _ _ small_run, of 2] by (simp add: small_end_def small_ops_def)

section \<open>Queues\<close>

text \<open>Taking a block into a queue leaves the others as they are.\<close>

lemma blk_queue_take: "x \<noteq> n \<Longrightarrow> blk (queue_take n rbb) x = blk rbb x"
  by (simp add: queue_take_def upd_blk_def)

lemma blk_queue_take_same [simp]: "n < length (blk_set rbb) \<Longrightarrow> blk_buf (blk (queue_take n rbb) n) = blk_buf (blk rbb n)"
  by (simp add: queue_take_def upd_blk_def)

lemma blk_buf_queue_take [simp]: "blk_buf (blk (queue_take n rbb) x) = blk_buf (blk rbb x)"
  by (cases "n < length (blk_set rbb)"; cases "x = n") (simp_all add: queue_take_def upd_blk_def list_update_beyond)

text \<open>The loop of \<open>rt_rbb_next_blk_queue_len\<close> reads only the blocks it still has before it.\<close>

lemma next_len_cong:
  "\<forall>x \<in> set ns. blk rbb' x = blk rbb x \<Longrightarrow> \<forall>x. blk_buf (blk rbb' x) = blk_buf (blk rbb x) \<Longrightarrow>
     next_len_loop ns l d rbb' = next_len_loop ns l d rbb"
  by (induction ns l d rbb rule: next_len_loop.induct) simp_all

lemma queue_get_next_len:
  "distinct ns \<Longrightarrow> fst (queue_get_loop (- 1) ns l q d rbb) = next_len_loop ns l d rbb"
proof (induction ns arbitrary: l q d rbb)
  case (Cons n ns)
  have c: "next_len_loop ns l' d' (queue_take n rbb) = next_len_loop ns l' d' rbb" for l' d'
    using Cons.prems by (intro next_len_cong) (auto intro!: blk_queue_take)
  have i: "fst (queue_get_loop (- 1) ns l' q' d' r') = next_len_loop ns l' d' r'" for l' q' d' r'
    using Cons by simp
  show ?case
  proof (cases l)
    case None
    then show ?thesis by (simp add: i c)
  next
    case (Some m)
    then show ?thesis by (simp add: i c word_order.extremum[THEN leD])
  qed
qed simp

text \<open>C0. \<open>rt_rbb_next_blk_queue_len\<close> is what \<open>rt_rbb_blk_queue_get\<close> would take without a bound on the length.\<close>

theorem rbb_next_len_eq:
  assumes "rbb_ok rbb"
  shows "rt_rbb_next_blk_queue_len rbb = fst (rt_rbb_blk_queue_get (- 1) q rbb)"
  using queue_get_next_len[of "blk_list rbb"] assms
  by (simp add: rt_rbb_next_blk_queue_len_def rt_rbb_blk_queue_get_def rbb_ok_def)

lemma small_rbb_ok: "rbb_ok small_rbb"
  using rbb_ok_init[OF small_init] by simp

lemma rbb_next_len_eq_witness: "rt_rbb_next_blk_queue_len small_rbb = fst (rt_rbb_blk_queue_get (- 1) (0, 0) small_rbb)"
  by (rule rbb_next_len_eq[OF small_rbb_ok])

section \<open>What goes wrong outside these bounds\<close>

definition used_parts :: "rt_rbb \<Rightarrow> (rt_rbb_status \<times> u64 \<times> u64) list" where
  "used_parts rbb = map (\<lambda>b. (blk_status b, blk_buf b, ucast (blk_size b))) (filter (\<lambda>b. blk_status b \<noteq> RT_RBB_BLK_UNUSED) (blk_set rbb))"

text \<open>The first block is given out without a look at the size of the buffer.\<close>

lemma first_block_unchecked:
  "map_option used_parts (rbb_run [Blk_Alloc 100] small_rbb) = Some [(RT_RBB_BLK_INITED, 0x1000, 100)]"
  by code_simp

text \<open>
  After a block of size 0 at the start of the buffer the last block may sit at the address of the first one, the list
  counts as not wrapped, and the next block is put on top of the first one.
\<close>

lemma empty_block_overlap:
  "map_option used_parts (rbb_run [Blk_Alloc 8, Blk_Alloc 8, Blk_Free 0, Blk_Alloc 8, Blk_Alloc 0, Blk_Alloc 4] small_rbb) =
     Some [(RT_RBB_BLK_INITED, 0x1000, 8), (RT_RBB_BLK_INITED, 0x1008, 8), (RT_RBB_BLK_INITED, 0x1008, 0), (RT_RBB_BLK_INITED, 0x1008, 4)]"
  by code_simp

text \<open>
  Blocks taken by \<open>rt_rbb_blk_queue_get\<close> leave the list while they are being read, so that an allocation gives out their
  memory again: with both blocks of a full buffer taken, the next block overlays the first of them.
\<close>

lemma queued_block_reused:
  "map_option (\<lambda>rbb. used_parts (snd (the (rt_rbb_blk_alloc 16 (snd (snd (rt_rbb_blk_queue_get 16 (0, 0) rbb)))))))
     (rbb_run [Blk_Alloc 8, Blk_Alloc 8, Blk_Put 0, Blk_Put 1] small_rbb) =
   Some [(RT_RBB_BLK_GET, 0x1000, 8), (RT_RBB_BLK_GET, 0x1008, 8), (RT_RBB_BLK_INITED, 0x1000, 16)]"
  by code_simp

text \<open>
  The blocks of a queue are counted in the array, but they need only follow each other in the list. After the middle one
  of three blocks is freed, the queue has the first and the third, its data is not continuous, and freeing it fails at the
  assertion of \<open>rt_rbb_blk_free\<close> on the slot between them.
\<close>

lemma queue_of_list_not_array:
  "map_option (\<lambda>rbb. case rt_rbb_blk_queue_get 16 (0, 0) rbb of (len, q, rbb1) \<Rightarrow>
        (len, q, used_parts rbb1, map_option used_parts (rt_rbb_blk_queue_free q rbb1)))
     (rbb_run [Blk_Alloc 4, Blk_Alloc 4, Blk_Alloc 4, Blk_Free 1, Blk_Put 0, Blk_Put 2] small_rbb) =
   Some (8, (0, 2), [(RT_RBB_BLK_GET, 0x1000, 4), (RT_RBB_BLK_GET, 0x1008, 4)], None)"
  by code_simp

text \<open>The first block of a queue is taken whatever the bound.\<close>

lemma queue_get_over_bound:
  "map_option (\<lambda>rbb. fst (rt_rbb_blk_queue_get 4 (0, 0) rbb)) (rbb_run [Blk_Alloc 8, Blk_Put 0] small_rbb) = Some 8"
  by code_simp

end
