(* ===== verification/Spec2Isabelle.thy ===== *)
theory Spec2Isabelle
  imports RT_RingBuffer_Props RT_Kernel_Props RT_Boot RT_System RT_List RT_Malloc_Props RT_Mmu_2M RT_Printf_Props RT_Mempool_Props RT_RingBlk_Props
begin

text \<open>
  RT-Thread 4.0.3 on the Rockchip RK3326, its kernel and the driver framework's ring buffer, as configured by
  \<open>src/rtconfig.h\<close>: one core, 32 priorities, a tick of one millisecond, 64-bit pointers, \<open>RT_DEBUG\<close> on, the
  memory heap as system heap, soft timers, no hooks set, no signals, no modules. Paths below are relative to
  \<open>src/rt-thread/\<close> unless they start with \<open>src/\<close>.

  1. The program and its parts. Interrupts are masked in every critical section of the kernel, so an operation
  is atomic between two points where it calls \<open>rt_schedule\<close> or unmasks interrupts; the model has one
  definition per such stretch. Threads are numbers, IPC objects are numbers, and the intrusive lists of the
  kernel are a store of queues (which thread stands where), whose pointer implementation is verified apart.
  A failed \<open>RT_ASSERT\<close> stops the system and is \<open>None\<close> (or \<open>Fail\<close>); error codes are the values the code returns.

  2. Which theory models what.
  RT_Prelude: C integers as words, byte copies with bounds, shared lemmas. RT_Fifo: the contract of a bounded
  first-in first-out store, as a locale with its lemmas about any sequence of operations.
  RT_Bits: \<open>__rt_ffs\<close> of \<open>src/kservice.c\<close>.
  RT_Sched: \<open>src/scheduler.c\<close> (ready lists, the priority bitmap, \<open>rt_schedule\<close>, the scheduler lock).
  RT_Timer: \<open>src/timer.c\<close> (sorted lists on a wrapping tick) and the thread operations it shares state with.
  RT_Thread: \<open>src/thread.c\<close>. RT_Clock: \<open>src/clock.c\<close>, \<open>src/irq.c\<close> and the timer checks of the tick interrupt.
  RT_Kernel_Props: what these guarantee together. RT_Boot: \<open>src/components.c\<close> and \<open>src/idle.c\<close>.
  RT_Ipc: what all objects of \<open>src/ipc.c\<close> share (suspending a caller, waking waiters). RT_Demo: concrete systems
  for the examples. RT_Semaphore, RT_Mutex, RT_Event, RT_Mailbox, RT_MsgQueue: one object class each.
  RT_System: threads calling the kernel and interrupts between the calls, as a step relation.
  RT_List: \<open>include/rtservice.h\<close>, the rings and chains on pointers.
  RT_MemHeap: \<open>src/memheap.c\<close>; RT_MemHeap_Layout, RT_MemHeap_Ops, RT_MemHeap_Props: what a list of blocks says about
  the headers in memory, what each critical section does to that list, and what a client of one heap sees.
  RT_Malloc, RT_Malloc_Props RT_Mmu_2M RT_Printf_Props RT_Mempool_Props: the system heap over all heaps.
  RT_RingBuffer, RT_RingBuffer_Props: \<open>components/drivers/src/ringbuffer.c\<close>.

  3. State. \<open>sched\<close> and its extension \<open>timer_sys\<close> hold the control blocks (\<open>tcb\<close>), the queues, the bitmap, the tick and the
  timer lists; \<open>ipc_sys\<close> adds the objects of the five IPC classes; \<open>mem_sys\<close> adds the heaps: block headers in a
  store indexed by 64-bit addresses, with the payload bytes in a second one. Counters and fields have the width
  the structs give them (a semaphore 16 bits, a mutex's depth 8 bits, a heap's counters 32 bits, the ring
  buffer's index 15 bits and one mirror bit), so their wrap-around is in the model.

  4. What the lemmas show. Each IPC class has an abstract object (a number, an owner with a queue, a list of
  mails or messages), an invariant, and a refinement theorem per operation that covers every branch and says
  what stays untouched. The scheduler's bitmap and lists agree, \<open>rt_schedule\<close> picks the first thread of the
  highest ready priority, timers fire exactly when due across the wrap of the tick. From \<open>rtthread_startup\<close> on,
  any interleaving of well-formed calls and ticks keeps all invariants, and no such call fails an assertion.
  The heap hands out regions that do not overlap, frees exactly one, keeps contents when resizing, and its
  counters are exact; for any sequence of calls freeing everything restores one free block.
  The locales are \<open>bounded_fifo\<close> (interpreted on the ring buffer and on the mailbox) and \<open>thread_lists\<close> (interpreted
  on the pointer rings and on the queue store, which gives the refinement between them).

  5. Loops and bounds. Loops over lists are structural. Loops whose end is a property of the state
  (\<open>timer_check_loop\<close>, the wake-all loops, the message queue's reset, the search of the free list, the walks along
  pointer rings) are \<open>partial_function (option)\<close>: not returning is \<open>None\<close>, and returning is proved. No fuel is used.

  6. Calls that block. A blocking call is split at its \<open>rt_schedule\<close>: the first part queues the caller and returns, the
  second is what the caller runs when it is scheduled again, with the error code its waker left. The loops of
  the mailbox and message queue calls recompute the timeout in the second part. A wait for a heap's lock is the
  constructor \<open>Wait\<close> with the rest of the function as its continuation.

  7. Not modelled, and why. The other variants of conditional code (SMP, signals, modules, \<open>src/mem.c\<close> and
  \<open>src/slab.c\<close> as heaps) are not compiled by this configuration. Context switching, the interrupt controller and
  caches are assembly or device registers. \<open>rt_object_*\<close> and \<open>rt_device_*\<close> appear as far as the modelled operations
  use them (membership of the object container). The shell, the file systems, the network stacks, LittlevGL and
  the other packages are third-party code or applications outside the kernel. Printing commands only read.
\<close>

end
